(* ===== verification/Prelude.thy ===== *)
theory Prelude
  imports Main "HOL-Library.Multiset" "HOL-Library.List_Lexorder" "HOL-Library.Char_ord"
begin

text \<open>
  Shared vocabulary of the pgRDF model: SQL refusals as values of a sum type, strings as byte
  lists (Rust's \<open>String\<close> compares by bytes, which is the lexicographic order used here), the
  decimal rendering of counters, Rust's \<open>BTreeMap\<close> as an association list kept sorted by key,
  and folds over fallible steps.
\<close>

named_theorems model_simps \<open>equations that unfold the operations of the model\<close>

section \<open>Errors\<close>

text \<open>
  A deliberate refusal of the engine carries an SQLSTATE class (\<open>crate::refuse\<close> in lib.rs);
  a Rust panic or \<open>error!\<close> reaches the client as an internal error.
\<close>

datatype sqlstate =
    Lock_Not_Available            \<comment> \<open>55P03\<close>
  | Invalid_Parameter_Value       \<comment> \<open>22023\<close>
  | Undefined_Object              \<comment> \<open>42704\<close>
  | Not_In_Prerequisite_State     \<comment> \<open>55000\<close>
  | Program_Limit_Exceeded        \<comment> \<open>54000\<close>
  | Insufficient_Privilege        \<comment> \<open>42501\<close>
  | Duplicate_Object              \<comment> \<open>42710\<close>
  | Dependent_Objects             \<comment> \<open>2BP01\<close>
  | Unique_Violation              \<comment> \<open>23505, raised by PostgreSQL\<close>
  | Check_Violation               \<comment> \<open>23514, raised by PostgreSQL\<close>
  | Object_In_Use                 \<comment> \<open>55006\<close>
  | Feature_Not_Supported         \<comment> \<open>0A000\<close>
  | Internal_Error                \<comment> \<open>XX000: a panic\<close>

type_synonym 'a res = "sqlstate + 'a"

fun res_bind :: "'a res \<Rightarrow> ('a \<Rightarrow> 'b res) \<Rightarrow> 'b res" where
  "res_bind (Inl e) f = Inl e"
| "res_bind (Inr x) f = f x"

lemma res_bind_Inr_iff [simp]: "res_bind m f = Inr y \<longleftrightarrow> (\<exists>x. m = Inr x \<and> f x = Inr y)"
  by (cases m) auto

section \<open>Fallible folds\<close>

primrec fold_opt :: "('a \<Rightarrow> 's \<Rightarrow> 's option) \<Rightarrow> 'a list \<Rightarrow> 's \<Rightarrow> 's option" where
  "fold_opt f [] s = Some s"
| "fold_opt f (x # xs) s = (case f x s of None \<Rightarrow> None | Some s' \<Rightarrow> fold_opt f xs s')"

text \<open>A loop invariant of a fallible fold that succeeds.\<close>

lemma fold_opt_invariant:
  assumes "fold_opt f xs s = Some t" and "P s"
    and "\<And>x s s'. x \<in> set xs \<Longrightarrow> P s \<Longrightarrow> f x s = Some s' \<Longrightarrow> P s'"
  shows "P t"
  using assms
proof (induction xs arbitrary: s)
  case Nil
  then show ?case by simp
next
  case (Cons x xs)
  then obtain s' where s': "f x s = Some s'" "fold_opt f xs s' = Some t"
    by (auto split: option.splits)
  have "P s'" using Cons.prems(3)[of x s s'] Cons.prems(2) s'(1) by simp
  then show ?case
    by (rule Cons.IH[OF s'(2)]) (use Cons.prems(3)[OF list.set_intros(2)] in blast)
qed

text \<open>An invariant of an ordinary fold.\<close>

lemma fold_invariant:
  assumes "P s" and "\<And>x s. x \<in> set xs \<Longrightarrow> P s \<Longrightarrow> P (f x s)"
  shows "P (fold f xs s)"
  using assms by (induction xs arbitrary: s) auto

lemma find_append: "find P (xs @ ys) = (case find P xs of None \<Rightarrow> find P ys | Some x \<Rightarrow> Some x)"
  by (induction xs) auto

lemma find_snoc:
  "find P xs = None \<Longrightarrow> find P (xs @ [x]) = (if P x then Some x else None)"
  by (induction xs) (auto split: if_splits)

section \<open>Sorting\<close>

lemma sort_map: "sort (map f xs) = map f (sort_key f xs)"
  by (rule properties_for_sort) simp_all

lemma sort_mset_eq: "mset xs = mset ys \<Longrightarrow> sort xs = sort ys"
  by (metis mset_sort sorted_sort properties_for_sort)

lemma mset_concat_map:
  assumes "mset xs = mset ys"
  shows "mset (concat (map h xs)) = mset (concat (map h ys))"
proof -
  have "mset (concat (map h zs)) = (\<Sum>z \<in># mset zs. mset (h z))" for zs
    by (induction zs) simp_all
  then show ?thesis using assms by metis
qed

section \<open>Positional writes\<close>

text \<open>Writing a list of \<open>(position, value)\<close> pairs into an array, the last write winning.\<close>

definition write_all :: "(nat \<times> 'a) list \<Rightarrow> 'a list \<Rightarrow> 'a list" where
  "write_all ps res = fold (\<lambda>(i, v) res. if i < length res then res[i := v] else res) ps res"

lemma write_all_length [simp]: "length (write_all ps res) = length res"
  unfolding write_all_def by (induction ps arbitrary: res) (auto simp: Let_def)

lemma write_all_mem:
  "i < length res \<Longrightarrow> (i, v) \<in> set ps \<Longrightarrow> (i, write_all ps res ! i) \<in> set ps"
proof (induction ps arbitrary: v rule: rev_induct)
  case Nil
  then show ?case by simp
next
  case (snoc p ps)
  obtain j u where p: "p = (j, u)" by fastforce
  have w: "write_all (ps @ [p]) res = (let r = write_all ps res in if j < length r then r[j := u] else r)"
    by (simp add: write_all_def p Let_def)
  show ?case
  proof (cases "j = i")
    case True
    then show ?thesis unfolding w Let_def using snoc.prems by (simp add: p)
  next
    case False
    then have "(i, v) \<in> set ps" using snoc.prems p by auto
    with snoc.IH[OF snoc.prems(1) this] False show ?thesis unfolding w Let_def by auto
  qed
qed

section \<open>Decimal rendering\<close>

definition digit_char :: "nat \<Rightarrow> char" where
  "digit_char d = char_of (48 + d)"

fun nat_str :: "nat \<Rightarrow> string" where
  "nat_str n = (if n < 10 then [digit_char n] else nat_str (n div 10) @ [digit_char (n mod 10)])"

declare nat_str.simps [simp del]

lemma digit_char_inj: "d < 10 \<Longrightarrow> e < 10 \<Longrightarrow> digit_char d = digit_char e \<Longrightarrow> d = e"
  unfolding digit_char_def by (drule arg_cong[where f = "of_char :: char \<Rightarrow> nat"]) simp

lemma nat_str_nonempty [simp]: "nat_str n \<noteq> []"
  by (subst nat_str.simps) simp

lemma nat_str_inj: "nat_str m = nat_str n \<Longrightarrow> m = n"
proof (induction m arbitrary: n rule: nat_str.induct)
  case (1 m)
  show ?case
  proof (cases "m < 10"; cases "n < 10")
    assume "m < 10" "n < 10"
    with "1.prems" show ?thesis
      by (simp add: nat_str.simps[of m] nat_str.simps[of n] digit_char_inj)
  next
    assume m: "m < 10" and n: "\<not> n < 10"
    with "1.prems" show ?thesis by (metis nat_str.simps append_eq_Cons_conv append_self_conv2 butlast.simps(2) butlast_snoc nat_str_nonempty)
  next
    assume m: "\<not> m < 10" and n: "n < 10"
    with "1.prems" show ?thesis by (metis nat_str.simps append_eq_Cons_conv append_self_conv2 butlast.simps(2) butlast_snoc nat_str_nonempty)
  next
    assume m: "\<not> m < 10" and n: "\<not> n < 10"
    with "1.prems" have eq: "nat_str (m div 10) = nat_str (n div 10)"
      and d: "digit_char (m mod 10) = digit_char (n mod 10)"
      by (simp_all add: nat_str.simps[of m] nat_str.simps[of n])
    from "1.IH"[OF m eq] have "m div 10 = n div 10" .
    moreover from d have "m mod 10 = n mod 10" by (rule digit_char_inj[rotated 2]) simp_all
    ultimately show ?thesis by (metis div_mult_mod_eq)
  qed
qed

lemma nat_str_eq_iff [simp]: "nat_str m = nat_str n \<longleftrightarrow> m = n"
  using nat_str_inj by blast

lemma nat_str_digits: "c \<in> set (nat_str n) \<Longrightarrow> 48 \<le> (of_char c :: nat) \<and> (of_char c :: nat) \<le> 57"
proof (induction n rule: nat_str.induct)
  case (1 n)
  then show ?case
    by (cases "n < 10") (auto simp: nat_str.simps[of n] digit_char_def)
qed

section \<open>BTreeMap as a sorted association list\<close>

text \<open>
  \<open>m.entry(k).or_default().push(x)\<close>: the map stays sorted by key, the pushed values keep
  their order. Iterating a \<open>BTreeMap\<close> is iterating the list.
\<close>

fun bt_push :: "'k::linorder \<Rightarrow> 'v \<Rightarrow> ('k \<times> 'v list) list \<Rightarrow> ('k \<times> 'v list) list" where
  "bt_push k v [] = [(k, [v])]"
| "bt_push k v ((k', vs) # m) =
     (if k < k' then (k, [v]) # (k', vs) # m
      else if k = k' then (k', vs @ [v]) # m
      else (k', vs) # bt_push k v m)"

fun bt_get :: "'k \<Rightarrow> ('k \<times> 'v list) list \<Rightarrow> 'v list" where
  "bt_get k [] = []"
| "bt_get k ((k', vs) # m) = (if k = k' then vs else bt_get k m)"

definition bt_wf :: "('k::linorder \<times> 'v list) list \<Rightarrow> bool" where
  "bt_wf m \<longleftrightarrow> sorted_wrt (<) (map fst m)"

definition bt_group :: "('a \<Rightarrow> 'k::linorder) \<Rightarrow> 'a list \<Rightarrow> ('k \<times> 'a list) list" where
  "bt_group f xs = fold (\<lambda>x. bt_push (f x) x) xs []"

lemma bt_wf_Nil [simp]: "bt_wf []"
  by (simp add: bt_wf_def)

lemma bt_push_keys: "fst ` set (bt_push k v m) = insert k (fst ` set m)"
  by (induction k v m rule: bt_push.induct) auto

lemma bt_push_wf: "bt_wf m \<Longrightarrow> bt_wf (bt_push k v m)"
proof (induction k v m rule: bt_push.induct)
  case (1 k v)
  then show ?case by (simp add: bt_wf_def)
next
  case (2 k v k' vs m)
  have tl: "bt_wf m" using "2.prems" by (simp add: bt_wf_def)
  consider "k < k'" | "k = k'" | "k' < k" by fastforce
  then show ?case
  proof cases
    case 1
    with "2.prems" show ?thesis by (auto simp: bt_wf_def)
  next
    case 2
    with "2.prems" show ?thesis by (auto simp: bt_wf_def)
  next
    case 3
    then have "bt_wf (bt_push k v m)" using "2.IH" tl by auto
    moreover have "\<forall>x \<in> fst ` set (bt_push k v m). k' < x"
      using "2.prems" 3 by (auto simp: bt_push_keys bt_wf_def)
    ultimately show ?thesis using 3 by (auto simp: bt_wf_def)
  qed
qed

definition bt_values :: "('k \<times> 'v list) list \<Rightarrow> 'v set" where
  "bt_values m = (\<Union>e \<in> set m. set (snd e))"

lemma bt_push_values: "bt_values (bt_push k v m) = insert v (bt_values m)"
  by (induction k v m rule: bt_push.induct) (auto simp: bt_values_def)

lemma bt_get_notin: "k \<notin> fst ` set m \<Longrightarrow> bt_get k m = []"
  by (induction k m rule: bt_get.induct) auto

lemma bt_get_push:
  "bt_wf m \<Longrightarrow> bt_get j (bt_push k v m) = (if j = k then bt_get k m @ [v] else bt_get j m)"
proof (induction k v m rule: bt_push.induct)
  case (1 k v)
  then show ?case by simp
next
  case (2 k v k' vs m)
  have tl: "bt_wf m" using "2.prems" by (simp add: bt_wf_def)
  have nk: "k < k' \<Longrightarrow> bt_get k m = []"
    using "2.prems" by (intro bt_get_notin) (auto simp: bt_wf_def)
  from "2.IH" tl nk show ?case by auto
qed

lemma bt_group_wf: "bt_wf (bt_group f xs)"
  unfolding bt_group_def by (rule fold_invariant) (simp_all add: bt_push_wf)

lemma bt_group_fold:
  "bt_wf m \<Longrightarrow> bt_get k (fold (\<lambda>x. bt_push (f x) x) xs m)
     = bt_get k m @ filter (\<lambda>x. f x = k) xs"
proof (induction xs arbitrary: m)
  case Nil
  then show ?case by simp
next
  case (Cons x xs)
  then show ?case by (simp add: bt_push_wf bt_get_push)
qed

lemma bt_group_get: "bt_get k (bt_group f xs) = filter (\<lambda>x. f x = k) xs"
  unfolding bt_group_def by (simp add: bt_group_fold)

lemma bt_group_keys_fold:
  "fst ` set (fold (\<lambda>x. bt_push (f x) x) xs m) = f ` set xs \<union> fst ` set m"
  by (induction xs arbitrary: m) (auto simp: bt_push_keys)

lemma bt_group_keys: "fst ` set (bt_group f xs) = f ` set xs"
  unfolding bt_group_def by (simp add: bt_group_keys_fold)

lemma bt_get_mem: "bt_wf m \<Longrightarrow> (k, vs) \<in> set m \<Longrightarrow> bt_get k m = vs"
  by (induction m) (auto simp: bt_wf_def)

lemma bt_group_mem: "(k, vs) \<in> set (bt_group f xs) \<Longrightarrow> vs = filter (\<lambda>x. f x = k) xs"
  using bt_get_mem[OF bt_group_wf] bt_group_get by metis

text \<open>The whole map: its keys in order, each with the elements of that key in input order.\<close>

lemma bt_group_eq:
  "bt_group f xs = map (\<lambda>k. (k, filter (\<lambda>x. f x = k) xs)) (sorted_list_of_set (f ` set xs))"
proof -
  have s: "sorted_wrt (<) (map fst (bt_group f xs))"
    using bt_group_wf[of f xs] by (simp add: bt_wf_def)
  then have "map fst (bt_group f xs) = sorted_list_of_set (f ` set xs)"
    using bt_group_keys[of f xs]
    by (metis list.set_map strict_sorted_equal sorted_list_of_set.set_sorted_key_list_of_set
        sorted_list_of_set.strict_sorted_key_list_of_set List.finite_set finite_imageI)
  moreover have "bt_group f xs
      = map (\<lambda>k. (k, filter (\<lambda>x. f x = k) xs)) (map fst (bt_group f xs))"
    by (rule map_idI[symmetric, THEN trans]) (auto dest: bt_group_mem)
  ultimately show ?thesis by simp
qed

section \<open>Strings\<close>

text \<open>\<open>Vec::join\<close>.\<close>

fun join_str :: "string \<Rightarrow> string list \<Rightarrow> string" where
  "join_str sep [] = []"
| "join_str sep [x] = x"
| "join_str sep (x # y # xs) = x @ sep @ join_str sep (y # xs)"

text \<open>
  \<open>s.trim().is_empty()\<close>: every character has the Unicode property White_Space, read off its
  UTF-8 bytes.
\<close>

definition ws_bytes :: "string \<Rightarrow> nat" where
  "ws_bytes s =
     (let b = map of_char s :: nat list in
      if b = [] then 0
      else if hd b = 32 \<or> (9 \<le> hd b \<and> hd b \<le> 13) then 1
      else if take 2 b \<in> {[0xC2, 0x85], [0xC2, 0xA0]} then 2
      else if take 3 b \<in> {[0xE1, 0x9A, 0x80], [0xE2, 0x80, 0xA8], [0xE2, 0x80, 0xA9],
                [0xE2, 0x80, 0xAF], [0xE2, 0x81, 0x9F], [0xE3, 0x80, 0x80]} then 3
      else if take 2 b = [0xE2, 0x80] \<and> 3 \<le> length b \<and> 0x80 \<le> b ! 2 \<and> b ! 2 \<le> 0x8A then 3
      else 0)"

function blank :: "string \<Rightarrow> bool" where
  "blank s = (if s = [] then True else if ws_bytes s = 0 then False else blank (drop (ws_bytes s) s))"
  by pat_completeness auto
termination by (relation "measure length") auto

declare blank.simps [simp del]

lemma blank_simps [simp]: "blank []" "ws_bytes s = 0 \<Longrightarrow> blank s \<longleftrightarrow> s = []"
  by (simp_all add: blank.simps)

section \<open>Lists up to order\<close>

lemma mset_map_filter: "mset xs = mset ys \<Longrightarrow> mset (map f (filter P xs)) = mset (map f (filter P ys))"
  by simp

lemma mset_map_comp: "mset xs = mset (map f ys) \<Longrightarrow> mset (map g xs) = mset (map (\<lambda>y. g (f y)) ys)"
  by (simp add: multiset.map_comp comp_def)

text \<open>\<open>flatten\<close> over options.\<close>

definition flatten_opts :: "'a option list \<Rightarrow> 'a list" where
  "flatten_opts xs = map the (filter (\<lambda>x. x \<noteq> None) xs)"

lemma flatten_opts_set [simp]: "x \<in> set (flatten_opts xs) \<longleftrightarrow> Some x \<in> set xs"
  by (force simp: flatten_opts_def)

section \<open>Transition systems\<close>

text \<open>An invariant of the initial states that every step keeps holds in every reachable state.\<close>

locale step_invariant =
  fixes init :: "'s \<Rightarrow> bool" and step :: "'s \<Rightarrow> 's \<Rightarrow> bool" and inv :: "'s \<Rightarrow> bool"
  assumes init_inv: "init s \<Longrightarrow> inv s"
    and step_inv: "inv s \<Longrightarrow> step s t \<Longrightarrow> inv t"
begin

lemma steps_inv: "step\<^sup>*\<^sup>* s t \<Longrightarrow> inv s \<Longrightarrow> inv t"
  by (induction rule: rtranclp_induct) (auto intro: step_inv)

lemma reachable_inv: "init s \<Longrightarrow> step\<^sup>*\<^sup>* s t \<Longrightarrow> inv t"
  using init_inv steps_inv by blast

end

end
