(* ===== verification/Rdf_Terms.thy ===== *)
theory Rdf_Terms
  imports Prelude
begin

text \<open>
  RDF terms and triples as \<open>src/storage/canon.rs\<close> holds them, and their canonical N-Triples
  text: the escaping, term and triple renderers of canon.rs and the copies of them in
  export.rs. A reader for that text (written for the proofs; the engine parses with a
  third-party crate) shows that the text determines the triple, up to the two ways of writing a
  plain literal: this is what makes a digest over the lines an identity of the triples.
  Strings are byte lists.
\<close>

section \<open>Terms and their rendering\<close>

datatype cterm =
    Iri string
  | BNode string
  | Lit string "string option" "string option"   \<comment> \<open>val, dt, lang\<close>

type_synonym triple = "cterm \<times> cterm \<times> cterm"

definition xsd_string :: string where
  "xsd_string = ''http://www.w3.org/2001/XMLSchema#string''"

definition rdf_type_iri :: string where
  "rdf_type_iri = ''http://www.w3.org/1999/02/22-rdf-syntax-ns#type''"

definition esc_char :: "char \<Rightarrow> string" where
  "esc_char c =
     (if c = CHR 0x5C then [CHR 0x5C, CHR 0x5C]
      else if c = CHR 0x22 then [CHR 0x5C, CHR 0x22]
      else if c = CHR 0x0A then [CHR 0x5C, CHR ''n'']
      else if c = CHR 0x0D then [CHR 0x5C, CHR ''r'']
      else if c = CHR 0x09 then [CHR 0x5C, CHR ''t'']
      else [c])"

fun nt_escape :: "string \<Rightarrow> string" where
  "nt_escape [] = []"
| "nt_escape (c # s) = esc_char c @ nt_escape s"

fun nt_term :: "(string \<Rightarrow> string) \<Rightarrow> cterm \<Rightarrow> string" where
  "nt_term label (Iri i) = ''<'' @ i @ ''>''"
| "nt_term label (BNode b) = ''_:'' @ label b"
| "nt_term label (Lit v dt lang) =
     (case lang of
        Some l \<Rightarrow> [CHR 0x22] @ nt_escape v @ [CHR 0x22] @ ''@'' @ l
      | None \<Rightarrow>
          (case dt of
             Some d \<Rightarrow>
               (if d \<noteq> xsd_string
                then [CHR 0x22] @ nt_escape v @ [CHR 0x22] @ ''^^<'' @ d @ ''>''
                else [CHR 0x22] @ nt_escape v @ [CHR 0x22])
           | None \<Rightarrow> [CHR 0x22] @ nt_escape v @ [CHR 0x22]))"

fun nt_triple :: "(string \<Rightarrow> string) \<Rightarrow> triple \<Rightarrow> string" where
  "nt_triple label (s, p, o') =
     nt_term label s @ '' '' @ nt_term label p @ '' '' @ nt_term label o' @ '' .'' @ [CHR 0x0A]"

text \<open>The copies in export.rs: the same escaping, blank nodes under their stored labels.\<close>

fun export_escape :: "string \<Rightarrow> string" where
  "export_escape [] = []"
| "export_escape (c # s) =
     (if c = CHR 0x5C then [CHR 0x5C, CHR 0x5C]
      else if c = CHR 0x22 then [CHR 0x5C, CHR 0x22]
      else if c = CHR 0x0A then [CHR 0x5C, CHR ''n'']
      else if c = CHR 0x0D then [CHR 0x5C, CHR ''r'']
      else if c = CHR 0x09 then [CHR 0x5C, CHR ''t'']
      else [c]) @ export_escape s"

fun export_term :: "cterm \<Rightarrow> string" where
  "export_term (Iri i) = ''<'' @ i @ ''>''"
| "export_term (BNode b) = ''_:'' @ b"
| "export_term (Lit v dt lang) =
     (let esc = export_escape v in
      case (lang, dt) of
        (Some l, _) \<Rightarrow> [CHR 0x22] @ esc @ [CHR 0x22] @ ''@'' @ l
      | (None, Some d) \<Rightarrow>
          (if d \<noteq> xsd_string then [CHR 0x22] @ esc @ [CHR 0x22] @ ''^^<'' @ d @ ''>''
           else [CHR 0x22] @ esc @ [CHR 0x22])
      | (None, None) \<Rightarrow> [CHR 0x22] @ esc @ [CHR 0x22])"

fun export_line :: "triple \<Rightarrow> string" where
  "export_line (s, p, o') =
     export_term s @ '' '' @ export_term p @ '' '' @ export_term o' @ '' .''"

definition export_lines :: "triple list \<Rightarrow> string list" where
  "export_lines ts = sort (map export_line ts)"

lemma export_escape_eq: "export_escape s = nt_escape s"
  by (induction s) (simp_all add: esc_char_def)

lemma export_term_eq: "export_term t = nt_term (\<lambda>b. b) t"
  by (cases t) (auto simp: export_escape_eq Let_def split: option.splits)

lemma export_line_eq: "export_line t @ [CHR 0x0A] = nt_triple (\<lambda>b. b) t"
  by (cases t) (simp add: export_term_eq)

section \<open>Relabelling and normal form\<close>

fun relabel :: "(string \<Rightarrow> string) \<Rightarrow> cterm \<Rightarrow> cterm" where
  "relabel f (BNode b) = BNode (f b)"
| "relabel f t = t"

fun relabel3 :: "(string \<Rightarrow> string) \<Rightarrow> triple \<Rightarrow> triple" where
  "relabel3 f (s, p, o') = (relabel f s, relabel f p, relabel f o')"

text \<open>
  What the text says of a literal: with a language tag the datatype is not written, and
  \<open>xsd:string\<close> is not written either.
\<close>

fun lit_norm :: "cterm \<Rightarrow> cterm" where
  "lit_norm (Lit v dt lang) =
     Lit v (if lang \<noteq> None \<or> dt = Some xsd_string then None else dt) lang"
| "lit_norm t = t"

fun lit_norm3 :: "triple \<Rightarrow> triple" where
  "lit_norm3 (s, p, o') = (lit_norm s, lit_norm p, lit_norm o')"

lemma nt_term_relabel: "nt_term g (relabel f t) = nt_term (\<lambda>b. g (f b)) t"
  by (cases t) auto

lemma nt_triple_relabel: "nt_triple g (relabel3 f t) = nt_triple (\<lambda>b. g (f b)) t"
  by (cases t) (simp add: nt_term_relabel)

lemma nt_term_cong: "(\<And>b. t = BNode b \<Longrightarrow> f b = g b) \<Longrightarrow> nt_term f t = nt_term g t"
  by (cases t) auto

fun bnodes_of :: "triple \<Rightarrow> string set" where
  "bnodes_of (s, p, o') = {b. s = BNode b \<or> o' = BNode b}"

fun pred_ok :: "triple \<Rightarrow> bool" where
  "pred_ok (s, p, o') = (case p of Iri _ \<Rightarrow> True | _ \<Rightarrow> False)"

lemma nt_triple_cong:
  "pred_ok t \<Longrightarrow> (\<And>b. b \<in> bnodes_of t \<Longrightarrow> f b = g b) \<Longrightarrow> nt_triple f t = nt_triple g t"
proof -
  assume ok: "pred_ok t" and eq: "\<And>b. b \<in> bnodes_of t \<Longrightarrow> f b = g b"
  obtain a p c where t: "t = (a, p, c)" by (cases t)
  have "nt_term f a = nt_term g a" "nt_term f p = nt_term g p" "nt_term f c = nt_term g c"
    using ok eq t by (auto intro!: nt_term_cong)
  then show ?thesis using t by simp
qed

lemma relabel3_cong:
  "pred_ok t \<Longrightarrow> (\<And>b. b \<in> bnodes_of t \<Longrightarrow> f b = g b) \<Longrightarrow> relabel3 f t = relabel3 g t"
  by (cases t; case_tac a; case_tac b; case_tac c) auto

lemma pred_ok_relabel [simp]: "pred_ok (relabel3 f t) = pred_ok t"
  by (cases t) (auto split: cterm.splits)

lemma bnodes_of_relabel: "bnodes_of (relabel3 f t) = f ` bnodes_of t"
  by (cases t; case_tac a; case_tac c) auto

lemma relabel_comp: "relabel g (relabel f t) = relabel (\<lambda>b. g (f b)) t"
  by (cases t) auto

lemma relabel3_comp: "relabel3 g (relabel3 f t) = relabel3 (\<lambda>b. g (f b)) t"
  by (cases t) (simp add: relabel_comp)

lemma lit_norm_relabel: "lit_norm (relabel f t) = relabel f (lit_norm t)"
  by (cases t) auto

lemma lit_norm3_relabel: "lit_norm3 (relabel3 f t) = relabel3 f (lit_norm3 t)"
  by (cases t) (simp add: lit_norm_relabel)

lemma pred_ok_lit_norm [simp]: "pred_ok (lit_norm3 t) = pred_ok t"
  by (cases t) (auto split: cterm.splits elim: lit_norm.elims)

lemma bnodes_of_lit_norm [simp]: "bnodes_of (lit_norm3 t) = bnodes_of t"
  by (cases t; case_tac a; case_tac c) auto

section \<open>Reading the text back\<close>

fun read_quoted :: "string \<Rightarrow> (string \<times> string) option" where
  "read_quoted [] = None"
| "read_quoted (c # s) =
     (if c = CHR 0x22 then Some ([], s)
      else if c = CHR 0x5C then
        (case s of [] \<Rightarrow> None
         | d # s' \<Rightarrow>
             (case read_quoted s' of None \<Rightarrow> None
              | Some (v, r) \<Rightarrow>
                  Some ((if d = CHR ''n'' then CHR 0x0A else if d = CHR ''r'' then CHR 0x0D
                         else if d = CHR ''t'' then CHR 0x09 else d) # v, r)))
      else (case read_quoted s of None \<Rightarrow> None | Some (v, r) \<Rightarrow> Some (c # v, r)))"

definition read_until :: "char \<Rightarrow> string \<Rightarrow> string \<times> string" where
  "read_until c s = (takeWhile (\<lambda>x. x \<noteq> c) s, tl (dropWhile (\<lambda>x. x \<noteq> c) s))"

fun strip_prefix :: "string \<Rightarrow> string \<Rightarrow> string option" where
  "strip_prefix [] s = Some s"
| "strip_prefix (p # ps) [] = None"
| "strip_prefix (p # ps) (c # s) = (if p = c then strip_prefix ps s else None)"

definition read_suffix :: "string \<Rightarrow> string \<Rightarrow> cterm \<times> string" where
  "read_suffix v s =
     (case strip_prefix ''@'' s of
        Some s' \<Rightarrow> (let (l, r) = read_until (CHR '' '') s' in (Lit v None (Some l), r))
      | None \<Rightarrow>
          (case strip_prefix ''^^<'' s of
             Some s' \<Rightarrow> (let (d, r) = read_until (CHR ''>'') s' in (Lit v (Some d) None, tl r))
           | None \<Rightarrow> (Lit v None None, tl s)))"

text \<open>Each term is followed by a space.\<close>

definition read_term :: "string \<Rightarrow> (cterm \<times> string) option" where
  "read_term s =
     (case strip_prefix ''<'' s of
        Some s' \<Rightarrow> (let (i, r) = read_until (CHR ''>'') s' in Some (Iri i, tl r))
      | None \<Rightarrow>
     (case strip_prefix ''_:'' s of
        Some s' \<Rightarrow> (let (b, r) = read_until (CHR '' '') s' in Some (BNode b, r))
      | None \<Rightarrow>
     (case strip_prefix [CHR 0x22] s of
        Some s' \<Rightarrow> (case read_quoted s' of None \<Rightarrow> None | Some (v, r) \<Rightarrow> Some (read_suffix v r))
      | None \<Rightarrow> None)))"

definition read_triple :: "string \<Rightarrow> (triple \<times> string) option" where
  "read_triple s =
     (case read_term s of None \<Rightarrow> None | Some (a, r) \<Rightarrow>
      (case read_term r of None \<Rightarrow> None | Some (b, r') \<Rightarrow>
       (case read_term r' of None \<Rightarrow> None | Some (c, r'') \<Rightarrow>
         Some ((a, b, c), drop 2 r''))))"

text \<open>
  The characters a term may not hold, which the N-Triples grammar excludes and the parser
  rejects: \<open>>\<close> in an IRI, a space in a blank-node label or a language tag, and a line feed in
  any of them.
\<close>

fun term_ok :: "cterm \<Rightarrow> bool" where
  "term_ok (Iri i) = (CHR ''>'' \<notin> set i \<and> CHR 0x0A \<notin> set i)"
| "term_ok (BNode b) = (CHR '' '' \<notin> set b \<and> CHR 0x0A \<notin> set b)"
| "term_ok (Lit v dt lang) =
     ((case dt of None \<Rightarrow> True | Some d \<Rightarrow> CHR ''>'' \<notin> set d \<and> CHR 0x0A \<notin> set d) \<and>
      (case lang of None \<Rightarrow> True | Some l \<Rightarrow> CHR '' '' \<notin> set l \<and> CHR 0x0A \<notin> set l))"

fun triple_ok :: "triple \<Rightarrow> bool" where
  "triple_ok (s, p, o') = (term_ok s \<and> term_ok p \<and> term_ok o')"

lemma read_quoted_esc:
  "read_quoted (esc_char c @ s) =
     (case read_quoted s of None \<Rightarrow> None | Some (v, r) \<Rightarrow> Some (c # v, r))"
  by (auto simp: esc_char_def split: option.splits)

lemma read_quoted_escape: "read_quoted (nt_escape v @ CHR 0x22 # r) = Some (v, r)"
  by (induction v) (simp_all add: read_quoted_esc)

lemma read_until_append [simp]:
  "c \<notin> set s \<Longrightarrow> read_until c (s @ c # r) = (s, r)"
  unfolding read_until_def
  by (subst takeWhile_append2, force) (subst dropWhile_append2, force, simp)

lemma read_term_nt:
  assumes "term_ok (relabel label t)"
  shows "read_term (nt_term label t @ CHR '' '' # r) = Some (lit_norm (relabel label t), r)"
proof (cases t)
  case (Lit v dt lang)
  then show ?thesis using assms
    by (cases lang; cases dt) (auto simp: read_quoted_escape read_term_def read_suffix_def)
qed (use assms in \<open>auto simp: read_term_def\<close>)

lemma read_triple_nt:
  assumes "triple_ok (relabel3 label t)"
  shows "read_triple (nt_triple label t @ r) = Some (lit_norm3 (relabel3 label t), r)"
  using assms by (cases t) (simp add: read_triple_def read_term_nt)

text \<open>The text of a triple determines it, whatever follows the text.\<close>

lemma nt_triple_determines:
  assumes "triple_ok (relabel3 f t)" "triple_ok (relabel3 g u)"
    and "nt_triple f t @ r = nt_triple g u @ r'"
  shows "lit_norm3 (relabel3 f t) = lit_norm3 (relabel3 g u) \<and> r = r'"
  using read_triple_nt[OF assms(1), of r] read_triple_nt[OF assms(2), of r'] assms(3) by simp

lemma nt_triple_nonempty [simp]: "nt_triple f t \<noteq> []"
  by (cases t) simp

text \<open>A document, the concatenation of its lines, determines the list of triples.\<close>

lemma nt_document_determines:
  assumes "concat (map (nt_triple f) ts) = concat (map (nt_triple g) us)"
    and "\<forall>t \<in> set ts. triple_ok (relabel3 f t)" and "\<forall>u \<in> set us. triple_ok (relabel3 g u)"
  shows "map (\<lambda>t. lit_norm3 (relabel3 f t)) ts = map (\<lambda>u. lit_norm3 (relabel3 g u)) us"
  using assms
proof (induction ts arbitrary: us)
  case Nil
  then show ?case by (cases us) auto
next
  case (Cons t ts)
  then obtain u us' where us: "us = u # us'" by (cases us) auto
  from nt_triple_determines[of f t g u "concat (map (nt_triple f) ts)"
      "concat (map (nt_triple g) us')"] Cons.prems us
  have "lit_norm3 (relabel3 f t) = lit_norm3 (relabel3 g u)"
    and "concat (map (nt_triple f) ts) = concat (map (nt_triple g) us')"
    by simp_all
  with Cons.IH[of us'] Cons.prems us show ?case by simp
qed

lemma esc_char_no_newline: "CHR 0x0A \<notin> set (esc_char c)"
  by (simp add: esc_char_def)

lemma nt_escape_no_newline: "CHR 0x0A \<notin> set (nt_escape v)"
  by (induction v) (simp_all add: esc_char_no_newline)

lemma nt_term_no_newline: "term_ok (relabel f t) \<Longrightarrow> CHR 0x0A \<notin> set (nt_term f t)"
  by (cases t) (auto simp: nt_escape_no_newline xsd_string_def split: option.splits)

lemma relabel_id [simp]: "relabel (\<lambda>b. b) t = t"
  by (cases t) auto

lemma relabel3_id [simp]: "relabel3 (\<lambda>b. b) t = t"
  by (cases t) auto

end
