(* ===== verification/Canon.thy ===== *)
theory Canon
  imports Rdf_Terms
begin

text \<open>
  The RDFC-1.0 canonicalization of \<open>src/storage/canon.rs\<close>: the identifier issuer, Hash First
  Degree Quads, Hash Related Blank Node, Hash N-Degree Quads with its fail-closed budgets, and
  \<open>canonicalize_labeled\<close>. SHA-256 comes from a third-party crate: it is the parameter \<open>sha\<close>
  (hex digest of a string). The blank-node map is a Rust \<open>HashMap\<close>, whose iteration order is
  unspecified: the order in which its keys come is the parameter \<open>ks\<close>. \<open>error!\<close> is \<open>None\<close>.
\<close>

section \<open>Budgets and the issuer\<close>

definition MAX_NDEGREE_CALLS :: nat where "MAX_NDEGREE_CALLS = 10000"
definition MAX_PERMUTATION_GROUP :: nat where "MAX_PERMUTATION_GROUP = 7"
definition MAX_RECURSION_DEPTH :: nat where "MAX_RECURSION_DEPTH = 32"

record issuer =
  iprefix :: string
  counter :: nat
  issued :: "string \<Rightarrow> string option"
  order :: "string list"

definition new_issuer :: "string \<Rightarrow> issuer" where
  "new_issuer p = \<lparr>iprefix = p, counter = 0, issued = Map.empty, order = []\<rparr>"

definition issue :: "string \<Rightarrow> issuer \<Rightarrow> string \<times> issuer" where
  "issue i iss =
     (case issued iss i of
        Some v \<Rightarrow> (v, iss)
      | None \<Rightarrow>
          (let v = iprefix iss @ nat_str (counter iss) in
           (v, iss\<lparr>counter := counter iss + 1, issued := (issued iss)(i \<mapsto> v),
                   order := order iss @ [i]\<rparr>)))"

section \<open>First-degree and related hashes\<close>

text \<open>The quads that mention a blank node; a quad with it in both positions is listed twice.\<close>

definition bnode_quads :: "triple list \<Rightarrow> string \<Rightarrow> nat list" where
  "bnode_quads ts b =
     concat (map (\<lambda>q. (if fst (snd q) = BNode b then [fst q] else []) @
                      (if snd (snd (snd q)) = BNode b then [fst q] else [])) (enumerate 0 ts))"

definition hash_first_degree :: "(string \<Rightarrow> string) \<Rightarrow> triple list \<Rightarrow> string \<Rightarrow> string" where
  "hash_first_degree sha ts n =
     sha (concat (sort (map (\<lambda>i. nt_triple (\<lambda>b. if b = n then ''a'' else ''z'') (ts ! i))
                          (bnode_quads ts n))))"

definition hash_related ::
    "(string \<Rightarrow> string) \<Rightarrow> triple list \<Rightarrow> issuer \<Rightarrow> issuer \<Rightarrow> string \<Rightarrow> nat \<Rightarrow> char \<Rightarrow> string" where
  "hash_related sha ts canonical iss related qi position =
     sha ([position] @
       (if position \<noteq> CHR ''g''
        then ''<'' @ (case fst (snd (ts ! qi)) of Iri p \<Rightarrow> p | _ \<Rightarrow> []) @ ''>'' else []) @
       (case issued canonical related of
          Some c \<Rightarrow> ''_:'' @ c
        | None \<Rightarrow>
            (case issued iss related of
               Some t \<Rightarrow> ''_:'' @ t
             | None \<Rightarrow> hash_first_degree sha ts related)))"

definition remove_nth :: "nat \<Rightarrow> 'a list \<Rightarrow> 'a list" where
  "remove_nth i xs = take i xs @ drop (Suc i) xs"

lemma length_remove_nth [termination_simp]: "i < length xs \<Longrightarrow> length (remove_nth i xs) < length xs"
  by (simp add: remove_nth_def)

function permutations :: "'a list \<Rightarrow> 'a list list" where
  "permutations items =
     (if length items \<le> 1 then [items]
      else concat (map (\<lambda>i. map (\<lambda>p. items ! i # p) (permutations (remove_nth i items)))
                     [0..<length items]))"
  by pat_completeness auto
termination
  by (relation "measure length") (auto simp: length_remove_nth)

declare permutations.simps [simp del]

section \<open>Hash N-Degree Quads\<close>

definition bt_push_new :: "'k::linorder \<Rightarrow> 'v \<Rightarrow> ('k \<times> 'v list) list \<Rightarrow> ('k \<times> 'v list) list" where
  "bt_push_new k v m = (if v \<in> set (bt_get k m) then m else bt_push k v m)"

definition related_groups ::
    "(string \<Rightarrow> string) \<Rightarrow> triple list \<Rightarrow> issuer \<Rightarrow> issuer \<Rightarrow> string \<Rightarrow> (string \<times> string list) list" where
  "related_groups sha ts canonical iss i =
     fold (\<lambda>qi hn.
       fold (\<lambda>(t, pos) hn.
         (case t of
            BNode b \<Rightarrow>
              (if b \<noteq> i then bt_push_new (hash_related sha ts canonical iss b qi pos) b hn else hn)
          | _ \<Rightarrow> hn))
         [(fst (ts ! qi), CHR ''s''), (snd (snd (ts ! qi)), CHR ''o'')] hn)
       (bnode_quads ts i) []"

definition path_exceeds :: "string \<Rightarrow> string \<Rightarrow> bool" where
  "path_exceeds chosen path \<longleftrightarrow> chosen \<noteq> [] \<and> length path \<ge> length chosen \<and> path > chosen"

text \<open>The first inner loop over a permutation: \<open>None\<close> is the break with \<open>aborted\<close> set.\<close>

fun gossip_path ::
    "issuer \<Rightarrow> string \<Rightarrow> string list \<Rightarrow> issuer \<Rightarrow> string \<Rightarrow> string list
      \<Rightarrow> (issuer \<times> string \<times> string list) option" where
  "gossip_path canonical chosen [] copy path recursion = Some (copy, path, recursion)"
| "gossip_path canonical chosen (r # rs) copy path recursion =
     (let (copy', path', recursion') =
        (case issued canonical r of
           Some c \<Rightarrow> (copy, path @ ''_:'' @ c, recursion)
         | None \<Rightarrow>
             (snd (issue r copy), path @ ''_:'' @ fst (issue r copy),
              if issued copy r = None then recursion @ [r] else recursion))
      in if path_exceeds chosen path' then None
         else gossip_path canonical chosen rs copy' path' recursion')"

text \<open>
  The second inner loop: each recursive call may exhaust the budget (outer \<open>None\<close>); a path that
  exceeds the chosen one is abandoned (inner \<open>None\<close>).
\<close>

type_synonym ndegree = "string \<Rightarrow> issuer \<Rightarrow> nat \<Rightarrow> ((string \<times> issuer) \<times> nat) option"

fun gossip_recurse ::
    "ndegree \<Rightarrow> string \<Rightarrow> string list \<Rightarrow> issuer \<Rightarrow> string \<Rightarrow> nat
      \<Rightarrow> ((issuer \<times> string) option \<times> nat) option" where
  "gossip_recurse hnd chosen [] copy path calls = Some (Some (copy, path), calls)"
| "gossip_recurse hnd chosen (r # rs) copy path calls =
     (case hnd r copy calls of
        None \<Rightarrow> None
      | Some ((rh, ri), calls') \<Rightarrow>
          (let path' = path @ ''_:'' @ fst (issue r copy) @ ''<'' @ rh @ ''>'' in
           if path_exceeds chosen path' then Some (None, calls')
           else gossip_recurse hnd chosen rs ri path' calls'))"

definition try_permutation ::
    "ndegree \<Rightarrow> issuer \<Rightarrow> issuer \<Rightarrow> string list \<Rightarrow> (string \<times> issuer option) \<times> nat
      \<Rightarrow> ((string \<times> issuer option) \<times> nat) option" where
  "try_permutation hnd canonical iss perm st =
     (let ((chosen_path, chosen_issuer), calls) = st in
      case gossip_path canonical chosen_path perm iss [] [] of
        None \<Rightarrow> Some st
      | Some (copy, path, recursion) \<Rightarrow>
          (case gossip_recurse hnd chosen_path recursion copy path calls of
             None \<Rightarrow> None
           | Some (None, calls') \<Rightarrow> Some ((chosen_path, chosen_issuer), calls')
           | Some (Some (copy', path'), calls') \<Rightarrow>
               Some (if chosen_path = [] \<or> path' < chosen_path then (path', Some copy')
                     else (chosen_path, chosen_issuer), calls')))"

definition ndegree_group ::
    "ndegree \<Rightarrow> issuer \<Rightarrow> string \<times> string list \<Rightarrow> (string \<times> issuer) \<times> nat
      \<Rightarrow> ((string \<times> issuer) \<times> nat) option" where
  "ndegree_group hnd canonical g st =
     (let ((data, iss), calls) = st; (related_hash, grp) = g in
      if length grp > MAX_PERMUTATION_GROUP then None
      else
        (case fold_opt (try_permutation hnd canonical iss) (permutations grp) (([], None), calls) of
           None \<Rightarrow> None
         | Some ((chosen_path, chosen_issuer), calls') \<Rightarrow>
             Some ((data @ related_hash @ chosen_path,
                    case chosen_issuer of Some c \<Rightarrow> c | None \<Rightarrow> iss), calls')))"

text \<open>
  \<open>rem\<close> is \<open>MAX_RECURSION_DEPTH + 1 - depth\<close>: the code's depth check fails exactly where \<open>rem\<close>
  reaches 0, so the recursion of the code is structural in it.
\<close>

primrec hash_n_degree ::
    "nat \<Rightarrow> (string \<Rightarrow> string) \<Rightarrow> triple list \<Rightarrow> issuer \<Rightarrow> ndegree" where
  "hash_n_degree 0 sha ts canonical i iss calls = None"
| "hash_n_degree (Suc rem) sha ts canonical i iss calls =
     (let calls = calls + 1 in
      if calls > MAX_NDEGREE_CALLS then None
      else
        (case fold_opt (ndegree_group (hash_n_degree rem sha ts canonical) canonical)
                (related_groups sha ts canonical iss i) (([], iss), calls) of
           None \<Rightarrow> None
         | Some ((data, iss'), calls') \<Rightarrow> Some ((sha data, iss'), calls')))"

section \<open>Canonicalization\<close>

text \<open>Steps 3 and 4: unique first-degree hashes get their labels in hash order.\<close>

definition issue_unique :: "(string \<times> string list) list \<Rightarrow> issuer \<Rightarrow> issuer" where
  "issue_unique by_hash canonical =
     fold (\<lambda>(h, grp) c. if length grp = 1 then snd (issue (hd grp) c) else c) by_hash canonical"

definition shared_groups :: "(string \<times> string list) list \<Rightarrow> string list list" where
  "shared_groups by_hash = map (\<lambda>(h, grp). sort grp)
     (filter (\<lambda>(h, grp). length grp \<noteq> 1) by_hash)"

text \<open>Step 5 for one group of ties.\<close>

definition result_step ::
    "(string \<Rightarrow> string) \<Rightarrow> triple list \<Rightarrow> issuer \<Rightarrow> string \<Rightarrow> (string \<times> issuer) list \<times> nat
      \<Rightarrow> ((string \<times> issuer) list \<times> nat) option" where
  "result_step sha ts canonical b st =
     (let (results, calls) = st in
       if issued canonical b \<noteq> None then Some (results, calls)
       else
         (case hash_n_degree (MAX_RECURSION_DEPTH + 1) sha ts canonical b
                 (snd (issue b (new_issuer ''b''))) calls of
            None \<Rightarrow> None
          | Some (r, calls') \<Rightarrow> Some (results @ [r], calls')))"

definition group_results ::
    "(string \<Rightarrow> string) \<Rightarrow> triple list \<Rightarrow> issuer \<Rightarrow> string list \<Rightarrow> nat
      \<Rightarrow> ((string \<times> issuer) list \<times> nat) option" where
  "group_results sha ts canonical grp calls =
     fold_opt (result_step sha ts canonical) grp ([], calls)"

definition issue_results :: "(string \<times> issuer) list \<Rightarrow> issuer \<Rightarrow> issuer" where
  "issue_results results canonical =
     fold (\<lambda>r c. fold (\<lambda>old c. snd (issue old c)) (order (snd r)) c)
       (sort_key fst results) canonical"

definition resolve_group ::
    "(string \<Rightarrow> string) \<Rightarrow> triple list \<Rightarrow> string list \<Rightarrow> issuer \<times> nat \<Rightarrow> (issuer \<times> nat) option" where
  "resolve_group sha ts grp st =
     (let (canonical, calls) = st in
      case group_results sha ts canonical grp calls of
        None \<Rightarrow> None
      | Some (results, calls') \<Rightarrow> Some (issue_results results canonical, calls'))"

definition canonical_label :: "issuer \<Rightarrow> string \<Rightarrow> string" where
  "canonical_label canonical b =
     (case issued canonical b of Some l \<Rightarrow> l | None \<Rightarrow> ''MISSING-'' @ b)"

definition canonical_issuer ::
    "(string \<Rightarrow> string) \<Rightarrow> string list \<Rightarrow> triple list \<Rightarrow> issuer option" where
  "canonical_issuer sha ks ts =
     (let by_hash = bt_group (hash_first_degree sha ts) ks in
      map_option fst
        (fold_opt (resolve_group sha ts) (shared_groups by_hash)
           (issue_unique by_hash (new_issuer ''c14n''), 0)))"

definition canonicalize_labeled ::
    "(string \<Rightarrow> string) \<Rightarrow> string list \<Rightarrow> triple list
      \<Rightarrow> (string list \<times> string \<times> (string \<Rightarrow> string option)) option" where
  "canonicalize_labeled sha ks ts =
     map_option (\<lambda>canonical.
       let lines = sort (map (nt_triple (canonical_label canonical)) ts)
       in (lines, sha (concat lines), issued canonical))
       (canonical_issuer sha ks ts)"

definition canonicalize ::
    "(string \<Rightarrow> string) \<Rightarrow> string list \<Rightarrow> triple list \<Rightarrow> (string list \<times> string) option" where
  "canonicalize sha ks ts =
     map_option (\<lambda>(lines, digest, _). (lines, digest)) (canonicalize_labeled sha ks ts)"

text \<open>An enumeration of the map's keys: each blank node of the triples once.\<close>

definition all_bnodes :: "triple list \<Rightarrow> string set" where
  "all_bnodes ts = (\<Union>t \<in> set ts. bnodes_of t)"

definition key_order :: "triple list \<Rightarrow> string list \<Rightarrow> bool" where
  "key_order ts ks \<longleftrightarrow> distinct ks \<and> set ks = all_bnodes ts"

section \<open>The issuer\<close>

definition issuer_ok :: "issuer \<Rightarrow> bool" where
  "issuer_ok iss \<longleftrightarrow>
     counter iss = length (order iss) \<and> distinct (order iss) \<and>
     dom (issued iss) = set (order iss) \<and>
     (\<forall>i < length (order iss). issued iss (order iss ! i) = Some (iprefix iss @ nat_str i))"

definition extends :: "issuer \<Rightarrow> issuer \<Rightarrow> bool" where
  "extends i j \<longleftrightarrow> iprefix j = iprefix i \<and> set (order i) \<subseteq> set (order j)"

lemma new_issuer_ok [simp]: "issuer_ok (new_issuer p)"
  by (simp add: issuer_ok_def new_issuer_def)

lemma extends_refl [simp]: "extends i i"
  by (simp add: extends_def)

lemma extends_trans: "extends i j \<Longrightarrow> extends j k \<Longrightarrow> extends i k"
  by (auto simp: extends_def)

lemma issue_extends: "extends iss (snd (issue i iss))"
  by (auto simp: issue_def extends_def Let_def split: option.splits)

lemma issue_prefix [simp]: "iprefix (snd (issue i iss)) = iprefix iss"
  by (simp add: issue_def Let_def split: option.splits)

lemma issue_order: "issuer_ok iss \<Longrightarrow> set (order (snd (issue i iss))) = insert i (set (order iss))"
  by (auto simp: issue_def issuer_ok_def Let_def split: option.splits)

lemma issue_ok: "issuer_ok iss \<Longrightarrow> issuer_ok (snd (issue i iss))"
proof (cases "issued iss i")
  case None
  assume ok: "issuer_ok iss"
  then have "i \<notin> set (order iss)" using None by (auto simp: issuer_ok_def)
  then show ?thesis using ok None
    by (auto simp: issuer_ok_def issue_def Let_def nth_append less_Suc_eq)
qed (simp add: issue_def)

lemma issue_issued: "issued (snd (issue i iss)) i = Some (fst (issue i iss))"
  by (simp add: issue_def Let_def split: option.splits)

text \<open>Two identifiers never share a label.\<close>

lemma issuer_inj:
  assumes "issuer_ok iss" "issued iss a = Some l" "issued iss b = Some l"
  shows "a = b"
proof -
  have a: "a \<in> set (order iss)" and b: "b \<in> set (order iss)"
    using assms unfolding issuer_ok_def by (metis domI)+
  then obtain i j where i: "i < length (order iss)" "order iss ! i = a"
    and j: "j < length (order iss)" "order iss ! j = b"
    by (metis in_set_conv_nth)
  then have "nat_str i = nat_str j" using assms unfolding issuer_ok_def by fastforce
  then show ?thesis using i j by simp
qed

lemma issuer_label_digits:
  assumes "issuer_ok iss" "issued iss b = Some l"
  shows "\<exists>n. l = iprefix iss @ nat_str n"
proof -
  have "b \<in> set (order iss)" using assms unfolding issuer_ok_def by (metis domI)
  then obtain i where "i < length (order iss)" "order iss ! i = b" by (metis in_set_conv_nth)
  then show ?thesis using assms unfolding issuer_ok_def by fastforce
qed

lemma issue_all_ok:
  assumes "issuer_ok c"
  shows "issuer_ok (fold (\<lambda>old c. snd (issue old c)) xs c) \<and>
     iprefix (fold (\<lambda>old c. snd (issue old c)) xs c) = iprefix c \<and>
     set (order (fold (\<lambda>old c. snd (issue old c)) xs c)) = set xs \<union> set (order c)"
  using assms by (induction xs arbitrary: c) (auto simp: issue_ok issue_order)


section \<open>Permutations\<close>

lemma mset_remove_nth:
  "i < length xs \<Longrightarrow> mset (remove_nth i xs) = mset xs - {#xs ! i#}"
  unfolding remove_nth_def
  by (subst (3) id_take_nth_drop[of i xs]) auto

lemma permutations_mset: "p \<in> set (permutations xs) \<Longrightarrow> mset p = mset xs"
proof (induction xs arbitrary: p rule: permutations.induct)
  case (1 items)
  show ?case
  proof (cases "length items \<le> 1")
    case True
    then show ?thesis using "1.prems" by (subst (asm) permutations.simps) simp
  next
    case False
    with "1.prems" obtain i q where i: "i < length items"
      and q: "q \<in> set (permutations (remove_nth i items))" and p: "p = items ! i # q"
      by (subst (asm) permutations.simps) auto
    have "mset q = mset items - {#items ! i#}"
      using "1.IH"[OF False _ q] i by (simp add: mset_remove_nth)
    then show ?thesis using i p by simp
  qed
qed

lemma permutations_complete: "mset p = mset xs \<Longrightarrow> p \<in> set (permutations xs)"
proof (induction xs arbitrary: p rule: permutations.induct)
  case (1 items)
  have len: "length p = length items" using "1.prems" by (metis size_mset)
  show ?case
  proof (cases "length items \<le> 1")
    case True
    then have "p = items"
    proof (cases items)
      case Nil
      then show ?thesis using len by simp
    next
      case (Cons a as)
      then have "as = []" using True by simp
      with Cons "1.prems" len show ?thesis by (cases p) auto
    qed
    then show ?thesis using True by (subst permutations.simps) simp
  next
    case False
    then obtain x q where p: "p = x # q" using len by (cases p) auto
    then have "x \<in> set items" using "1.prems" by (metis list.set_intros(1) set_mset_mset)
    then obtain i where i: "i < length items" "items ! i = x" by (metis in_set_conv_nth)
    have "mset q = mset (remove_nth i items)"
      using "1.prems" p i by (simp add: mset_remove_nth) (metis add_mset_remove_trivial)
    then have "q \<in> set (permutations (remove_nth i items))"
      using "1.IH"[OF False, of i q] i by simp
    then show ?thesis using False i p by (subst permutations.simps) auto
  qed
qed

lemma permutations_set: "p \<in> set (permutations xs) \<Longrightarrow> set p = set xs"
  using permutations_mset by (metis set_mset_mset)

section \<open>The n-degree search only extends issuers\<close>

definition good :: "string set \<Rightarrow> ndegree \<Rightarrow> bool" where
  "good B hnd \<longleftrightarrow>
     (\<forall>i iss calls h j calls'. issuer_ok iss \<longrightarrow> hnd i iss calls = Some ((h, j), calls') \<longrightarrow>
        issuer_ok j \<and> extends iss j \<and> set (order j) \<subseteq> set (order iss) \<union> B)"

definition grown :: "string set \<Rightarrow> issuer \<Rightarrow> issuer \<Rightarrow> bool" where
  "grown B iss j \<longleftrightarrow> issuer_ok j \<and> extends iss j \<and> set (order j) \<subseteq> set (order iss) \<union> B"

lemma grown_refl: "issuer_ok iss \<Longrightarrow> grown B iss iss"
  by (simp add: grown_def)

lemma grown_trans: "grown B i j \<Longrightarrow> grown B j k \<Longrightarrow> grown B i k"
  by (auto simp: grown_def intro: extends_trans)

lemma grown_issue: "issuer_ok iss \<Longrightarrow> i \<in> B \<Longrightarrow> grown B iss (snd (issue i iss))"
  by (auto simp: grown_def issue_ok issue_extends issue_order)

lemma goodD:
  "good B hnd \<Longrightarrow> issuer_ok iss \<Longrightarrow> hnd i iss calls = Some ((h, j), calls') \<Longrightarrow> grown B iss j"
  unfolding good_def grown_def by blast

lemma gossip_path_grown:
  assumes "gossip_path canonical chosen rs copy path recursion = Some (copy', path', recursion')"
    and "issuer_ok copy" "set rs \<subseteq> B"
  shows "grown B copy copy'"
  using assms
proof (induction canonical chosen rs copy path recursion rule: gossip_path.induct)
  case (1 canonical chosen copy path recursion)
  then show ?case by (simp add: grown_refl)
next
  case (2 canonical chosen r rs copy path recursion)
  show ?case
  proof (cases "issued canonical r")
    case None
    have g: "grown B copy (snd (issue r copy))" using 2 grown_issue by simp
    moreover have "grown B (snd (issue r copy)) copy'"
      using 2 None g by (auto simp: Let_def grown_def split: if_splits)
    ultimately show ?thesis by (rule grown_trans)
  next
    case (Some c)
    then show ?thesis using 2 by (auto simp: Let_def split: if_splits)
  qed
qed

lemma gossip_recurse_grown:
  assumes "gossip_recurse hnd chosen rs copy path calls = Some (Some (copy', path'), calls')"
    and "issuer_ok copy" "good B hnd"
  shows "grown B copy copy'"
  using assms
proof (induction hnd chosen rs copy path calls rule: gossip_recurse.induct)
  case (1 hnd chosen copy path calls)
  then show ?case by (simp add: grown_refl)
next
  case (2 hnd chosen r rs copy path calls)
  then obtain rh ri c where h: "hnd r copy calls = Some ((rh, ri), c)"
    by (auto split: option.splits)
  have g: "grown B copy ri" using goodD 2 h by blast
  moreover have "grown B ri copy'"
    using 2 h g by (auto simp: Let_def grown_def split: if_splits)
  ultimately show ?case by (rule grown_trans)
qed

lemma try_permutation_grown:
  assumes "try_permutation hnd canonical iss perm st = Some st'"
    and "issuer_ok iss" "good B hnd" "set perm \<subseteq> B"
    and "\<And>c. snd (fst st) = Some c \<Longrightarrow> grown B iss c"
  shows "\<And>c. snd (fst st') = Some c \<Longrightarrow> grown B iss c"
proof -
  fix c assume c: "snd (fst st') = Some c"
  obtain cp ci calls where st: "st = ((cp, ci), calls)" by (metis prod.collapse)
  show "grown B iss c"
  proof (cases "gossip_path canonical cp perm iss [] []")
    case None
    then show ?thesis using assms c st by (simp add: try_permutation_def)
  next
    case (Some a)
    then obtain copy path recursion where a: "a = (copy, path, recursion)" by (metis prod_cases3)
    have g1: "grown B iss copy" using gossip_path_grown Some a assms(2,4) by blast
    then have "issuer_ok copy" by (simp add: grown_def)
    then have "gossip_recurse hnd cp recursion copy path calls = Some (Some (c', p'), n) \<Longrightarrow>
        grown B iss c'" for c' p' n
      using gossip_recurse_grown[OF _ _ assms(3)] g1 grown_trans by blast
    then show ?thesis
      using assms(1,5) c st Some a
      by (auto simp: try_permutation_def split: option.splits if_splits)
  qed
qed

lemma ndegree_group_grown:
  assumes "ndegree_group hnd canonical g ((data, iss), calls) = Some ((data', iss'), calls')"
    and "issuer_ok iss" "good B hnd" "set (snd g) \<subseteq> B"
  shows "grown B iss iss'"
proof -
  obtain h grp where g: "g = (h, grp)" by fastforce
  obtain cp ci where f: "fold_opt (try_permutation hnd canonical iss) (permutations grp)
      (([], None), calls) = Some ((cp, ci), calls')" and i: "iss' = (case ci of Some c \<Rightarrow> c | None \<Rightarrow> iss)"
    using assms(1) g by (auto simp: ndegree_group_def split: if_splits option.splits)
  have "\<forall>c. snd (fst ((cp, ci), calls')) = Some c \<longrightarrow> grown B iss c"
  proof (rule fold_opt_invariant[OF f])
    fix perm and st st' :: "(string \<times> issuer option) \<times> nat"
    assume "perm \<in> set (permutations grp)" "\<forall>c. snd (fst st) = Some c \<longrightarrow> grown B iss c"
      "try_permutation hnd canonical iss perm st = Some st'"
    moreover have "set perm \<subseteq> B" using calculation(1) permutations_set assms(4) g by fastforce
    ultimately show "\<forall>c. snd (fst st') = Some c \<longrightarrow> grown B iss c"
      using try_permutation_grown[OF _ assms(2,3)] by blast
  qed simp
  then show ?thesis using i assms(2) by (auto simp: grown_refl split: option.splits)
qed

lemma bt_push_new_values: "bt_values (bt_push_new k v m) \<subseteq> insert v (bt_values m)"
  by (auto simp: bt_push_new_def bt_push_values)

lemma bnode_quads_mem:
  "i \<in> set (bnode_quads ts b) \<longleftrightarrow> i < length ts \<and> b \<in> bnodes_of (ts ! i)"
proof -
  obtain s p o' where "ts ! i = (s, p, o')" by (metis prod_cases3)
  then show ?thesis
    by (auto simp: bnode_quads_def in_set_enumerate_eq Bex_def)
qed

lemma related_groups_bnodes:
  assumes "g \<in> set (related_groups sha ts canonical iss i)"
  shows "set (snd g) \<subseteq> all_bnodes ts"
proof -
  let ?P = "\<lambda>hn :: (string \<times> string list) list. bt_values hn \<subseteq> all_bnodes ts"
  have step: "?P (bt_push_new h b hn)" if "?P hn" "b \<in> all_bnodes ts" for h b hn
    using that bt_push_new_values[of h b hn] by auto
  have "?P (related_groups sha ts canonical iss i)"
    unfolding related_groups_def
  proof (rule fold_invariant[where P = ?P])
    fix qi hn assume q: "qi \<in> set (bnode_quads ts i)" and P: "?P hn"
    then have m: "ts ! qi \<in> set ts" using bnode_quads_mem by simp
    show "?P (fold (\<lambda>(t, pos) hn.
         (case t of
            BNode b \<Rightarrow>
              (if b \<noteq> i then bt_push_new (hash_related sha ts canonical iss b qi pos) b hn else hn)
          | _ \<Rightarrow> hn))
         [(fst (ts ! qi), CHR ''s''), (snd (snd (ts ! qi)), CHR ''o'')] hn)"
    proof (rule fold_invariant[where P = ?P, OF P])
      fix tp hn assume tp: "tp \<in> set [(fst (ts ! qi), CHR ''s''), (snd (snd (ts ! qi)), CHR ''o'')]"
        and P: "?P hn"
      have "b \<in> all_bnodes ts" if "fst tp = BNode b" for b
        using tp m that by (cases "ts ! qi") (force simp: all_bnodes_def)
      then show "?P ((\<lambda>(t, pos) hn.
         (case t of
            BNode b \<Rightarrow>
              (if b \<noteq> i then bt_push_new (hash_related sha ts canonical iss b qi pos) b hn else hn)
          | _ \<Rightarrow> hn)) tp hn)"
        using P step by (cases tp; cases "fst tp") auto
    qed
  qed (simp add: bt_values_def)
  then show ?thesis using assms by (auto simp: bt_values_def)
qed

lemma hash_n_degree_good: "good (all_bnodes ts) (hash_n_degree rem sha ts canonical)"
proof (induction rem)
  case 0
  then show ?case by (simp add: good_def)
next
  case (Suc rem)
  let ?B = "all_bnodes ts" and ?f = "ndegree_group (hash_n_degree rem sha ts canonical) canonical"
  show ?case
    unfolding good_def
  proof (intro allI impI)
    fix i iss calls h j calls'
    assume ok: "issuer_ok iss"
      and eq: "hash_n_degree (Suc rem) sha ts canonical i iss calls = Some ((h, j), calls')"
    from eq obtain data where f: "fold_opt ?f (related_groups sha ts canonical iss i)
        (([], iss), calls + 1) = Some ((data, j), calls')"
      by (auto simp: Let_def split: if_splits option.splits)
    have "grown ?B iss (snd (fst ((data, j), calls')))"
    proof (rule fold_opt_invariant[OF f])
      fix g and s s' :: "(string \<times> issuer) \<times> nat"
      assume g: "g \<in> set (related_groups sha ts canonical iss i)"
        and gr: "grown ?B iss (snd (fst s))" and st: "?f g s = Some s'"
      have "grown ?B (snd (fst s)) (snd (fst s'))"
        using ndegree_group_grown[OF _ _ Suc.IH related_groups_bnodes[OF g]] st gr
        unfolding grown_def by (metis prod.collapse)
      with gr show "grown ?B iss (snd (fst s'))" by (rule grown_trans)
    qed (simp add: grown_refl ok)
    then show "issuer_ok j \<and> extends iss j \<and> set (order j) \<subseteq> set (order iss) \<union> ?B"
      by (simp add: grown_def)
  qed
qed

section \<open>The canonical issuer labels every blank node\<close>

lemma result_step_spec:
  assumes "result_step sha ts canonical b (res, calls) = Some (res', calls')"
    and "b \<in> all_bnodes ts"
  shows "set res \<subseteq> set res'"
    "issued canonical b \<noteq> None \<or> (\<exists>r \<in> set res'. b \<in> set (order (snd r)))"
    "\<forall>r \<in> set res' - set res. set (order (snd r)) \<subseteq> all_bnodes ts"
proof -
  let ?i = "snd (issue b (new_issuer ''b''))"
  have i: "issuer_ok ?i" "set (order ?i) = {b}"
    using issue_order[OF new_issuer_ok, of b "''b''"] issue_ok[OF new_issuer_ok, of b "''b''"]
    by (simp_all add: new_issuer_def)
  consider "issued canonical b \<noteq> None" "res' = res"
    | r where "grown (all_bnodes ts) ?i (snd r)" "res' = res @ [r]"
  proof (cases "issued canonical b")
    case (Some v)
    then show thesis using assms(1) that(1) by (simp add: result_step_def)
  next
    case None
    then obtain h j where r: "hash_n_degree (MAX_RECURSION_DEPTH + 1) sha ts canonical b ?i calls
        = Some ((h, j), calls')" "res' = res @ [(h, j)]"
      using assms(1) by (auto simp: result_step_def simp del: hash_n_degree.simps split: option.splits)
    then show thesis using that(2)[of "(h, j)"] goodD[OF hash_n_degree_good i(1) r(1)] by simp
  qed
  note cases = this
  show "set res \<subseteq> set res'"
    by (cases rule: cases) auto
  show "issued canonical b \<noteq> None \<or> (\<exists>r \<in> set res'. b \<in> set (order (snd r)))"
    by (cases rule: cases) (use i(2) in \<open>auto simp: grown_def extends_def\<close>)
  show "\<forall>r \<in> set res' - set res. set (order (snd r)) \<subseteq> all_bnodes ts"
    by (cases rule: cases) (use i(2) assms(2) in \<open>auto simp: grown_def\<close>)
qed

lemma results_fold_spec:
  assumes "fold_opt (result_step sha ts canonical) grp (res, calls) = Some (res', calls')"
    and "set grp \<subseteq> all_bnodes ts"
  shows "set res \<subseteq> set res' \<and>
    (\<forall>b \<in> set grp. issued canonical b \<noteq> None \<or> (\<exists>r \<in> set res'. b \<in> set (order (snd r)))) \<and>
    (\<forall>r \<in> set res' - set res. set (order (snd r)) \<subseteq> all_bnodes ts)"
  using assms
proof (induction grp arbitrary: res calls)
  case Nil
  then show ?case by simp
next
  case (Cons b grp)
  then obtain r c where st: "result_step sha ts canonical b (res, calls) = Some (r, c)"
    and rest: "fold_opt (result_step sha ts canonical) grp (r, c) = Some (res', calls')"
    by (auto split: option.splits)
  have b: "b \<in> all_bnodes ts" and g: "set grp \<subseteq> all_bnodes ts" using Cons.prems(2) by auto
  have ih: "set r \<subseteq> set res'"
      "\<forall>b \<in> set grp. issued canonical b \<noteq> None \<or> (\<exists>r \<in> set res'. b \<in> set (order (snd r)))"
      "\<forall>x \<in> set res' - set r. set (order (snd x)) \<subseteq> all_bnodes ts"
    using Cons.IH[OF rest g] by simp_all
  note one = result_step_spec[OF st b]
  have "issued canonical b \<noteq> None \<or> (\<exists>r \<in> set res'. b \<in> set (order (snd r)))"
    using one(2) ih(1) by blast
  moreover have "\<forall>x \<in> set res' - set res. set (order (snd x)) \<subseteq> all_bnodes ts"
    using one(3) ih(3) by blast
  ultimately show ?case using ih one(1) by simp
qed

lemma group_results_spec:
  assumes "group_results sha ts canonical grp calls = Some (results, calls')"
    and "set grp \<subseteq> all_bnodes ts"
  shows "\<forall>b \<in> set grp. issued canonical b \<noteq> None \<or> (\<exists>r \<in> set results. b \<in> set (order (snd r)))"
    and "\<forall>r \<in> set results. set (order (snd r)) \<subseteq> all_bnodes ts"
proof -
  show "\<forall>b \<in> set grp. issued canonical b \<noteq> None \<or> (\<exists>r \<in> set results. b \<in> set (order (snd r)))"
    and "\<forall>r \<in> set results. set (order (snd r)) \<subseteq> all_bnodes ts"
    using results_fold_spec[of sha ts canonical grp "[]" calls results calls'] assms
    by (auto simp: group_results_def)
qed

lemma issue_results_spec:
  assumes "issuer_ok c"
  shows "issuer_ok (issue_results results c) \<and> iprefix (issue_results results c) = iprefix c \<and>
    set (order (issue_results results c)) = set (order c) \<union> (\<Union>r \<in> set results. set (order (snd r)))"
proof -
  have "issuer_ok (fold (\<lambda>r c. fold (\<lambda>old c. snd (issue old c)) (order (snd r)) c) rs c) \<and>
    iprefix (fold (\<lambda>r c. fold (\<lambda>old c. snd (issue old c)) (order (snd r)) c) rs c) = iprefix c \<and>
    set (order (fold (\<lambda>r c. fold (\<lambda>old c. snd (issue old c)) (order (snd r)) c) rs c))
      = set (order c) \<union> (\<Union>r \<in> set rs. set (order (snd r)))" for rs :: "(string \<times> issuer) list"
    using assms
  proof (induction rs arbitrary: c)
    case (Cons r rs)
    from Cons.IH[of "fold (\<lambda>old c. snd (issue old c)) (order (snd r)) c"]
      issue_all_ok[OF Cons.prems, of "order (snd r)"]
    show ?case by auto
  qed simp
  from this[of "sort_key fst results"] show ?thesis
    by (simp add: issue_results_def)
qed

lemma resolve_group_spec:
  assumes "resolve_group sha ts grp (c, calls) = Some (c', calls')"
    and "issuer_ok c" "set (order c) \<subseteq> all_bnodes ts" "set grp \<subseteq> all_bnodes ts"
  shows "issuer_ok c' \<and> iprefix c' = iprefix c \<and> set (order c) \<subseteq> set (order c') \<and>
    set grp \<subseteq> set (order c') \<and> set (order c') \<subseteq> all_bnodes ts"
proof -
  obtain results where r: "group_results sha ts c grp calls = Some (results, calls')"
    and c': "c' = issue_results results c"
    using assms(1) by (auto simp: resolve_group_def split: option.splits)
  note spec = group_results_spec[OF r assms(4)]
  have "issued c b \<noteq> None \<Longrightarrow> b \<in> set (order c)" for b
    using assms(2) unfolding issuer_ok_def by (metis domIff)
  then show ?thesis
    using issue_results_spec[OF assms(2), of results] spec assms(3) unfolding c' by auto
qed

lemma resolve_fold_spec:
  assumes "fold_opt (resolve_group sha ts) grps (c, calls) = Some (c', calls')"
    and "issuer_ok c" "set (order c) \<subseteq> all_bnodes ts" "\<forall>grp \<in> set grps. set grp \<subseteq> all_bnodes ts"
  shows "issuer_ok c' \<and> iprefix c' = iprefix c \<and> set (order c) \<subseteq> set (order c') \<and>
    (\<forall>grp \<in> set grps. set grp \<subseteq> set (order c')) \<and> set (order c') \<subseteq> all_bnodes ts"
  using assms
proof (induction grps arbitrary: c calls)
  case Nil
  then show ?case by simp
next
  case (Cons grp grps)
  then obtain c1 n1 where st: "resolve_group sha ts grp (c, calls) = Some (c1, n1)"
    and rest: "fold_opt (resolve_group sha ts) grps (c1, n1) = Some (c', calls')"
    by (auto split: option.splits)
  have one: "issuer_ok c1 \<and> iprefix c1 = iprefix c \<and> set (order c) \<subseteq> set (order c1) \<and>
      set grp \<subseteq> set (order c1) \<and> set (order c1) \<subseteq> all_bnodes ts"
    using resolve_group_spec[OF st] Cons.prems by simp
  from Cons.IH[OF rest] one Cons.prems(4) show ?case by auto
qed

text \<open>The singletons: each group of one is issued, nothing else.\<close>

lemma issue_unique_spec:
  assumes "issuer_ok c"
  shows "issuer_ok (issue_unique m c) \<and> iprefix (issue_unique m c) = iprefix c \<and>
    set (order (issue_unique m c))
      = set (order c) \<union> {b. \<exists>(h, grp) \<in> set m. grp = [b]}"
  using assms
proof (induction m arbitrary: c)
  case Nil
  then show ?case by (simp add: issue_unique_def)
next
  case (Cons g m)
  obtain h grp where g: "g = (h, grp)" by fastforce
  have u: "issue_unique (g # m) c
      = issue_unique m (if length grp = 1 then snd (issue (hd grp) c) else c)"
    by (simp add: issue_unique_def g)
  show ?case
  proof (cases "length grp = 1")
    case True
    then obtain b where b: "grp = [b]" by (metis One_nat_def length_0_conv length_Suc_conv)
    then show ?thesis
      using Cons.IH[OF issue_ok[OF Cons.prems], of b] issue_order[OF Cons.prems, of b] g u by auto
  next
    case False
    then show ?thesis using Cons.IH[OF Cons.prems] g u by auto
  qed
qed

lemma canonical_issuer_spec:
  assumes "canonical_issuer sha ks ts = Some c" "key_order ts ks"
  shows "issuer_ok c \<and> iprefix c = ''c14n'' \<and> set (order c) = all_bnodes ts"
proof -
  let ?h = "hash_first_degree sha ts"
  let ?m = "bt_group ?h ks"
  let ?u = "issue_unique ?m (new_issuer ''c14n'')"
  obtain n where f: "fold_opt (resolve_group sha ts) (shared_groups ?m) (?u, 0) = Some (c, n)"
    using assms(1) by (auto simp: canonical_issuer_def Let_def)
  have mem: "set grp \<subseteq> all_bnodes ts" if "(h, grp) \<in> set ?m" for h grp
    using bt_group_mem[OF that] assms(2) by (auto simp: key_order_def)
  have u: "issuer_ok ?u \<and> iprefix ?u = ''c14n'' \<and>
      set (order ?u) = {b. \<exists>(h, grp) \<in> set ?m. grp = [b]}"
    using issue_unique_spec[OF new_issuer_ok, of ?m "''c14n''"] by (simp add: new_issuer_def)
  then have sub: "set (order ?u) \<subseteq> all_bnodes ts" using mem by fastforce
  have sh: "\<forall>grp \<in> set (shared_groups ?m). set grp \<subseteq> all_bnodes ts"
    using mem by (auto simp: shared_groups_def)
  note r = resolve_fold_spec[OF f conjunct1[OF u] sub sh]
  have "all_bnodes ts \<subseteq> set (order c)"
  proof
    fix b assume "b \<in> all_bnodes ts"
    then have b: "b \<in> set ks" using assms(2) by (simp add: key_order_def)
    then have "?h b \<in> fst ` set ?m" by (simp add: bt_group_keys)
    then obtain grp where g: "(?h b, grp) \<in> set ?m" by auto
    then have bg: "b \<in> set grp" using bt_group_mem b by fastforce
    show "b \<in> set (order c)"
    proof (cases "length grp = 1")
      case True
      then have "grp = [b]" using bg by (cases grp) auto
      then have "b \<in> set (order ?u)" using u g by auto
      then show ?thesis using r u by auto
    next
      case False
      then have "sort grp \<in> set (shared_groups ?m)" using g by (force simp: shared_groups_def)
      then have "set (sort grp) \<subseteq> set (order c)" using r by blast
      then show ?thesis using bg by auto
    qed
  qed
  then show ?thesis using r u by auto
qed


section \<open>The canonical lines\<close>

lemma canonicalize_labeled_Some:
  assumes "canonicalize_labeled sha ks ts = Some (lines, digest, labels)"
  obtains c where "canonical_issuer sha ks ts = Some c" "labels = issued c"
    "lines = sort (map (nt_triple (canonical_label c)) ts)" "digest = sha (concat lines)"
  using assms by (auto simp: canonicalize_labeled_def Let_def)

lemma mem_all_bnodes: "t \<in> set ts \<Longrightarrow> b \<in> bnodes_of t \<Longrightarrow> b \<in> all_bnodes ts"
  by (auto simp: all_bnodes_def)

lemma canonical_dom:
  assumes "canonical_issuer sha ks ts = Some c" "key_order ts ks"
  shows "dom (issued c) = all_bnodes ts"
  using canonical_issuer_spec[OF assms] by (simp add: issuer_ok_def)

lemma canonical_label_the:
  assumes "canonical_issuer sha ks ts = Some c" "key_order ts ks" "b \<in> all_bnodes ts"
  shows "issued c b = Some (canonical_label c b)"
  using canonical_dom[OF assms(1,2)] assms(3) by (auto simp: canonical_label_def split: option.splits)

lemma canonical_label_inj:
  assumes "canonical_issuer sha ks ts = Some c" "key_order ts ks"
  shows "inj_on (canonical_label c) (all_bnodes ts)"
proof (rule inj_onI)
  fix a b assume "a \<in> all_bnodes ts" "b \<in> all_bnodes ts" "canonical_label c a = canonical_label c b"
  then show "a = b"
    using canonical_label_the[OF assms] canonical_issuer_spec[OF assms] issuer_inj by metis
qed

lemma canonical_label_c14n:
  assumes "canonical_issuer sha ks ts = Some c" "key_order ts ks" "b \<in> all_bnodes ts"
  shows "\<exists>n. canonical_label c b = ''c14n'' @ nat_str n"
  using canonical_label_the[OF assms] canonical_issuer_spec[OF assms(1,2)] issuer_label_digits by metis

lemma c14n_ok: "term_ok (BNode (''c14n'' @ nat_str n))"
  using nat_str_digits by fastforce

lemma relabel_ok:
  assumes "triple_ok t" "pred_ok t" "\<And>b. b \<in> bnodes_of t \<Longrightarrow> term_ok (BNode (f b))"
  shows "triple_ok (relabel3 f t)"
proof -
  obtain s p o' where t: "t = (s, p, o')" by (cases t)
  have "term_ok (relabel f s)" using assms t by (cases s) auto
  moreover have "term_ok (relabel f o')" using assms t by (cases o') auto
  moreover have "term_ok (relabel f p)" using assms t by (cases p) auto
  ultimately show ?thesis using t by simp
qed

lemma canonical_ok:
  assumes "canonical_issuer sha ks ts = Some c" "key_order ts ks"
    and "t \<in> set ts" "triple_ok t" "pred_ok t"
  shows "triple_ok (relabel3 (canonical_label c) t)"
proof (rule relabel_ok[OF assms(4,5)])
  fix b assume "b \<in> bnodes_of t"
  then obtain n where "canonical_label c b = ''c14n'' @ nat_str n"
    using canonical_label_c14n[OF assms(1,2)] mem_all_bnodes[OF assms(3)] by blast
  then show "term_ok (BNode (canonical_label c b))" by (simp only: c14n_ok)
qed

section \<open>Equal documents mean isomorphic graphs\<close>

text \<open>
  Two graphs are isomorphic when a bijection of their blank nodes maps the one multiset of
  triples to the other, up to the two ways of writing a plain literal.
\<close>

definition isomorphic :: "triple list \<Rightarrow> triple list \<Rightarrow> bool" where
  "isomorphic ts us \<longleftrightarrow>
     (\<exists>f. bij_betw f (all_bnodes ts) (all_bnodes us) \<and>
          mset (map (\<lambda>t. lit_norm3 (relabel3 f t)) ts) = mset (map lit_norm3 us))"

lemma all_bnodes_map: "all_bnodes (map (relabel3 f) ts) = f ` all_bnodes ts"
  by (auto simp: all_bnodes_def bnodes_of_relabel)

lemma all_bnodes_norm: "all_bnodes (map (\<lambda>t. lit_norm3 (relabel3 f t)) ts) = f ` all_bnodes ts"
  by (auto simp: all_bnodes_def bnodes_of_relabel)

lemma all_bnodes_mset: "mset ts = mset us \<Longrightarrow> all_bnodes ts = all_bnodes us"
  unfolding all_bnodes_def by (metis set_mset_mset)

lemma relabelled_eq_isomorphic:
  assumes "mset (map (\<lambda>t. lit_norm3 (relabel3 f t)) ts) = mset (map (\<lambda>u. lit_norm3 (relabel3 g u)) us)"
    and "inj_on f (all_bnodes ts)" "inj_on g (all_bnodes us)"
    and "\<forall>t \<in> set ts. pred_ok t" "\<forall>u \<in> set us. pred_ok u"
  shows "isomorphic ts us"
proof -
  let ?inv = "inv_into (all_bnodes us) g"
  have img: "f ` all_bnodes ts = g ` all_bnodes us"
    using all_bnodes_mset[OF assms(1)] by (simp add: all_bnodes_norm)
  have "bij_betw ?inv (g ` all_bnodes us) (all_bnodes us)"
    using assms(3) by (simp add: bij_betw_inv_into inj_on_imp_bij_betw)
  then have "bij_betw (\<lambda>b. ?inv (f b)) (all_bnodes ts) (all_bnodes us)"
    using bij_betw_trans[of f "all_bnodes ts" "g ` all_bnodes us" ?inv "all_bnodes us"] img
      inj_on_imp_bij_betw[OF assms(2)] by (simp add: comp_def)
  moreover have "mset (map (\<lambda>t. lit_norm3 (relabel3 (\<lambda>b. ?inv (f b)) t)) ts) = mset (map lit_norm3 us)"
  proof -
    have "relabel3 (\<lambda>b. ?inv (g b)) u = u" if "u \<in> set us" for u
      using relabel3_cong[of u "\<lambda>b. ?inv (g b)" "\<lambda>b. b"] mem_all_bnodes[OF that] assms(3,5) that
      by (simp add: inv_into_f_f)
    then have us: "map (\<lambda>u. lit_norm3 (relabel3 (\<lambda>b. ?inv (g b)) u)) us = map lit_norm3 us"
      by (intro map_cong) simp_all
    have "image_mset (relabel3 ?inv) (mset (map (\<lambda>t. lit_norm3 (relabel3 f t)) ts))
        = image_mset (relabel3 ?inv) (mset (map (\<lambda>u. lit_norm3 (relabel3 g u)) us))"
      using assms(1) by simp
    then have "mset (map (\<lambda>t. lit_norm3 (relabel3 (\<lambda>b. ?inv (f b)) t)) ts)
        = mset (map (\<lambda>u. lit_norm3 (relabel3 (\<lambda>b. ?inv (g b)) u)) us)"
      by (simp add: multiset.map_comp comp_def lit_norm3_relabel relabel3_comp flip: mset_map)
    then show ?thesis unfolding us .
  qed
  ultimately show ?thesis unfolding isomorphic_def by blast
qed

lemma equal_documents_isomorphic:
  assumes "canonical_issuer sha ks ts = Some c" "key_order ts ks"
    and "canonical_issuer sha ls us = Some d" "key_order us ls"
    and "concat (sort (map (nt_triple (canonical_label c)) ts))
       = concat (sort (map (nt_triple (canonical_label d)) us))"
    and ok: "\<forall>t \<in> set ts. triple_ok t \<and> pred_ok t" "\<forall>u \<in> set us. triple_ok u \<and> pred_ok u"
  shows "isomorphic ts us"
proof -
  let ?ts = "sort_key (nt_triple (canonical_label c)) ts"
    and ?us = "sort_key (nt_triple (canonical_label d)) us"
  have "map (\<lambda>t. lit_norm3 (relabel3 (canonical_label c) t)) ?ts
      = map (\<lambda>u. lit_norm3 (relabel3 (canonical_label d) u)) ?us"
    by (rule nt_document_determines)
      (use assms(5) ok canonical_ok[OF assms(1,2)] canonical_ok[OF assms(3,4)]
        in \<open>simp_all add: sort_map\<close>)
  then have "mset (map (\<lambda>t. lit_norm3 (relabel3 (canonical_label c) t)) ts)
      = mset (map (\<lambda>u. lit_norm3 (relabel3 (canonical_label d) u)) us)"
    by (metis (no_types, lifting) mset_map mset_sort)
  then show ?thesis
    using relabelled_eq_isomorphic canonical_label_inj[OF assms(1,2)]
      canonical_label_inj[OF assms(3,4)] ok by blast
qed

section \<open>The hash map's iteration order does not matter\<close>

definition sorted_groups :: "(string \<times> string list) list \<Rightarrow> (string \<times> string list) list" where
  "sorted_groups m = map (\<lambda>(h, g). (h, sort g)) m"

lemma issue_unique_sorted: "issue_unique m c = issue_unique (sorted_groups m) c"
proof (induction m arbitrary: c)
  case Nil
  then show ?case by (simp add: sorted_groups_def)
next
  case (Cons e m)
  obtain h g where e: "e = (h, g)" by fastforce
  have "length g = 1 \<Longrightarrow> sort g = g"
    by (cases g) auto
  with Cons e show ?case by (simp add: issue_unique_def sorted_groups_def)
qed

lemma shared_groups_sorted: "shared_groups m = shared_groups (sorted_groups m)"
  by (induction m) (auto simp: shared_groups_def sorted_groups_def intro: sort_mset_eq)

lemma sorted_groups_perm:
  assumes "mset ks = mset ls"
  shows "sorted_groups (bt_group f ks) = sorted_groups (bt_group f ls)"
proof -
  have "set ks = set ls" using assms by (metis set_mset_mset)
  moreover have "sort (filter P ks) = sort (filter P ls)" for P
    by (rule sort_mset_eq) (simp add: assms)
  ultimately show ?thesis by (simp add: sorted_groups_def bt_group_eq)
qed

lemma key_order_mset: "key_order ts ks \<Longrightarrow> key_order ts ls \<Longrightarrow> mset ks = mset ls"
  unfolding key_order_def using set_eq_iff_mset_eq_distinct by blast

lemma canonical_issuer_key_order:
  assumes "key_order ts ks" "key_order ts ls"
  shows "canonical_issuer sha ks ts = canonical_issuer sha ls ts"
proof -
  let ?f = "hash_first_degree sha ts"
  have "canonical_issuer sha ns ts =
      map_option fst (fold_opt (resolve_group sha ts) (shared_groups (sorted_groups (bt_group ?f ns)))
        (issue_unique (sorted_groups (bt_group ?f ns)) (new_issuer ''c14n''), 0))" for ns
    unfolding canonical_issuer_def Let_def
      issue_unique_sorted[of "bt_group ?f ns", symmetric]
      shared_groups_sorted[of "bt_group ?f ns", symmetric] ..
  then show ?thesis
    using sorted_groups_perm[OF key_order_mset[OF assms], of ?f] by simp
qed

section \<open>Relabelling invariance when first-degree hashes are distinct\<close>

definition mentions :: "string \<Rightarrow> triple \<Rightarrow> string list" where
  "mentions n t =
     (let l = nt_triple (\<lambda>b. if b = n then ''a'' else ''z'') t in
      (if fst t = BNode n then [l] else []) @ (if snd (snd t) = BNode n then [l] else []))"

lemma first_degree_lines:
  "map (\<lambda>i. nt_triple (\<lambda>b. if b = n then ''a'' else ''z'') (ts ! i)) (bnode_quads ts n)
     = concat (map (mentions n) ts)"
proof -
  let ?g = "nt_triple (\<lambda>b. if b = n then ''a'' else ''z'')"
  have "map (\<lambda>i. ?g (ts ! i)) (bnode_quads ts n)
      = concat (map (\<lambda>q. (if fst (snd q) = BNode n then [?g (ts ! fst q)] else []) @
          (if snd (snd (snd q)) = BNode n then [?g (ts ! fst q)] else [])) (enumerate 0 ts))"
    unfolding bnode_quads_def map_concat map_map comp_def
    by (rule arg_cong[where f = concat], rule map_cong) simp_all
  also have "\<dots> = concat (map (\<lambda>q. mentions n (snd q)) (enumerate 0 ts))"
    by (rule arg_cong[where f = concat], rule map_cong)
      (auto simp: mentions_def Let_def in_set_enumerate_eq)
  also have "\<dots> = concat (map (mentions n) (map snd (enumerate 0 ts)))"
    by (simp only: map_map comp_def)
  finally show ?thesis by simp
qed

lemma hash_first_degree_eq:
  "hash_first_degree sha ts n = sha (concat (sort (concat (map (mentions n) ts))))"
  unfolding hash_first_degree_def first_degree_lines ..

lemma hash_first_degree_mset:
  "mset ts = mset us \<Longrightarrow> hash_first_degree sha ts n = hash_first_degree sha us n"
  unfolding hash_first_degree_eq by (metis mset_concat_map sort_mset_eq)

lemma mentions_relabel:
  assumes "inj_on f B" "bnodes_of t \<subseteq> B" "n \<in> B" "pred_ok t"
  shows "mentions (f n) (relabel3 f t) = mentions n t"
proof -
  obtain s p o' where t: "t = (s, p, o')" by (cases t)
  have eq: "f b = f n \<longleftrightarrow> b = n" if "b \<in> bnodes_of t" for b
    using assms that by (meson inj_onD subsetD)
  have "nt_triple (\<lambda>b. if b = f n then ''a'' else ''z'') (relabel3 f t)
      = nt_triple (\<lambda>b. if b = n then ''a'' else ''z'') t"
    unfolding nt_triple_relabel by (rule nt_triple_cong[OF assms(4)]) (simp add: eq)
  moreover have "fst (relabel3 f t) = BNode (f n) \<longleftrightarrow> fst t = BNode n"
    using eq t by (cases s) auto
  moreover have "snd (snd (relabel3 f t)) = BNode (f n) \<longleftrightarrow> snd (snd t) = BNode n"
    using eq t by (cases o') auto
  ultimately show ?thesis by (simp add: mentions_def Let_def)
qed

lemma hash_first_degree_relabel:
  assumes "inj_on f (all_bnodes ts)" "n \<in> all_bnodes ts" "\<forall>t \<in> set ts. pred_ok t"
    and "mset us = mset (map (relabel3 f) ts)"
  shows "hash_first_degree sha us (f n) = hash_first_degree sha ts n"
proof -
  have "mentions (f n) (relabel3 f t) = mentions n t" if "t \<in> set ts" for t
    by (rule mentions_relabel[OF assms(1) _ assms(2)])
      (use mem_all_bnodes[OF that] assms(3) that in \<open>auto simp del: split_paired_All\<close>)
  then have "map (\<lambda>t. mentions (f n) (relabel3 f t)) ts = map (mentions n) ts"
    by (metis (no_types, lifting) map_cong)
  then have "map (mentions (f n)) (map (relabel3 f) ts) = map (mentions n) ts"
    unfolding map_map comp_def .
  then have "hash_first_degree sha (map (relabel3 f) ts) (f n) = hash_first_degree sha ts n"
    unfolding hash_first_degree_eq by (rule arg_cong)
  then show ?thesis
    using hash_first_degree_mset[OF assms(4), of sha "f n"] by (rule trans[rotated])
qed

lemma issue_unique_singletons:
  "\<forall>e \<in> set m. length (snd e) = 1 \<Longrightarrow>
   issue_unique m c = fold (\<lambda>b c. snd (issue b c)) (map (\<lambda>e. hd (snd e)) m) c"
  by (induction m arbitrary: c) (auto simp: issue_unique_def)

lemma issue_fresh_order:
  assumes "issuer_ok c" "distinct bs" "set bs \<inter> set (order c) = {}"
  shows "order (fold (\<lambda>b c. snd (issue b c)) bs c) = order c @ bs"
  using assms
proof (induction bs arbitrary: c)
  case Nil
  then show ?case by simp
next
  case (Cons b bs)
  then have "issued c b = None" by (auto simp: issuer_ok_def)
  then have o: "order (snd (issue b c)) = order c @ [b]" by (simp add: issue_def Let_def)
  have "order (fold (\<lambda>b c. snd (issue b c)) bs (snd (issue b c))) = order (snd (issue b c)) @ bs"
    by (rule Cons.IH[OF issue_ok[OF Cons.prems(1)]]) (use Cons.prems o in auto)
  then show ?case using o by simp
qed

lemma filter_inj_singleton:
  "distinct ks \<Longrightarrow> inj_on f (set ks) \<Longrightarrow> b \<in> set ks \<Longrightarrow> filter (\<lambda>x. f x = f b) ks = [b]"
  by (induction ks) (auto simp: filter_empty_conv inj_on_def)

lemma unique_group:
  assumes "distinct ks" "inj_on f (set ks)"
  shows "bt_group f ks = map (\<lambda>k. (k, [inv_into (set ks) f k])) (sorted_list_of_set (f ` set ks))"
  unfolding bt_group_eq
proof (rule map_cong)
  fix k assume "k \<in> set (sorted_list_of_set (f ` set ks))"
  then have "k \<in> f ` set ks" by simp
  then show "(k, filter (\<lambda>x. f x = k) ks) = (k, [inv_into (set ks) f k])"
    using filter_inj_singleton[OF assms] assms(2) by (auto simp: inv_into_f_f)
qed simp

text \<open>With all first-degree hashes distinct, labels are handed out in hash order.\<close>

lemma unique_issuer:
  assumes "key_order ts ks" "inj_on (hash_first_degree sha ts) (all_bnodes ts)"
  shows "\<exists>c. canonical_issuer sha ks ts = Some c \<and>
    order c = map (inv_into (all_bnodes ts) (hash_first_degree sha ts))
                (sorted_list_of_set (hash_first_degree sha ts ` all_bnodes ts))"
proof -
  let ?h = "hash_first_degree sha ts" and ?B = "all_bnodes ts"
  let ?m = "bt_group ?h ks" and ?hs = "sorted_list_of_set (?h ` all_bnodes ts)"
  have ks: "distinct ks" "set ks = ?B" using assms(1) by (simp_all add: key_order_def)
  have m: "?m = map (\<lambda>k. (k, [inv_into ?B ?h k])) ?hs"
    using unique_group[of ks ?h] ks assms(2) by simp
  have one: "\<forall>e \<in> set ?m. length (snd e) = 1" unfolding m by auto
  have sh: "shared_groups ?m = []" using one by (auto simp: shared_groups_def filter_empty_conv)
  have fin: "finite ?B" using ks(2) by (metis List.finite_set)
  have bs: "map (\<lambda>e. hd (snd e)) ?m = map (inv_into ?B ?h) ?hs" unfolding m by simp
  have "distinct (map (inv_into ?B ?h) ?hs)"
    using fin by (simp add: distinct_map inj_on_inv_into)
  then have "order (issue_unique ?m (new_issuer ''c14n'')) = map (inv_into ?B ?h) ?hs"
    unfolding issue_unique_singletons[OF one] bs
    by (subst issue_fresh_order) (simp_all add: new_issuer_def issuer_ok_def)
  then show ?thesis using sh by (simp add: canonical_issuer_def Let_def)
qed

lemma label_of_order:
  assumes "issuer_ok c" "issuer_ok d" "iprefix c = iprefix d" "order d = map f (order c)"
    and "b \<in> set (order c)"
  shows "canonical_label d (f b) = canonical_label c b"
proof -
  obtain i where i: "i < length (order c)" "order c ! i = b" using assms(5) by (metis in_set_conv_nth)
  then have "issued c b = Some (iprefix c @ nat_str i)"
    using assms(1) unfolding issuer_ok_def by blast
  moreover have "order d ! i = f b" "i < length (order d)" using i assms(4) by auto
  then have "issued d (f b) = Some (iprefix c @ nat_str i)"
    using assms(2,3) unfolding issuer_ok_def by metis
  ultimately show ?thesis by (simp add: canonical_label_def)
qed

lemma unique_hashes_invariant:
  assumes ks: "key_order ts ks" and ls: "key_order us ls"
    and inj: "inj_on (hash_first_degree sha ts) (all_bnodes ts)"
    and f: "inj_on f (all_bnodes ts)" and perm: "mset us = mset (map (relabel3 f) ts)"
    and ok: "\<forall>t \<in> set ts. pred_ok t"
  shows "\<exists>r. canonicalize sha ks ts = Some r \<and> canonicalize sha ls us = Some r"
proof -
  let ?h = "hash_first_degree sha ts" and ?h' = "hash_first_degree sha us"
  let ?B = "all_bnodes ts"
  have B': "all_bnodes us = f ` ?B" using all_bnodes_mset[OF perm] by (simp add: all_bnodes_map)
  have h: "?h' (f b) = ?h b" if "b \<in> ?B" for b
    by (rule hash_first_degree_relabel[OF f that ok perm])
  have inj': "inj_on ?h' (all_bnodes us)"
    unfolding B' using inj h by (auto simp: inj_on_def)
  have img: "?h' ` all_bnodes us = ?h ` ?B" unfolding B' using h by force
  have fin: "finite ?B" using ks by (metis key_order_def List.finite_set)
  obtain c where c: "canonical_issuer sha ks ts = Some c"
      "order c = map (inv_into ?B ?h) (sorted_list_of_set (?h ` ?B))"
    using unique_issuer[OF ks inj] by blast
  obtain d where d: "canonical_issuer sha ls us = Some d"
      "order d = map (inv_into (all_bnodes us) ?h') (sorted_list_of_set (?h ` ?B))"
    using unique_issuer[OF ls inj'] img by auto
  have "inv_into (all_bnodes us) ?h' k = f (inv_into ?B ?h k)" if "k \<in> ?h ` ?B" for k
  proof -
    have b: "inv_into ?B ?h k \<in> ?B" "?h (inv_into ?B ?h k) = k"
      using that by (auto simp: inv_into_into f_inv_into_f)
    then have "f (inv_into ?B ?h k) \<in> all_bnodes us" "?h' (f (inv_into ?B ?h k)) = k"
      using h B' by auto
    then show ?thesis using inv_into_f_f[OF inj'] by metis
  qed
  then have od: "order d = map f (order c)" using c(2) d(2) fin by simp
  note cs = canonical_issuer_spec[OF c(1) ks] and ds = canonical_issuer_spec[OF d(1) ls]
  have lab: "canonical_label d (f b) = canonical_label c b" if "b \<in> ?B" for b
    by (rule label_of_order) (use cs ds od that in auto)
  have "nt_triple (canonical_label d) (relabel3 f t) = nt_triple (canonical_label c) t"
    if "t \<in> set ts" for t
    unfolding nt_triple_relabel using ok that lab mem_all_bnodes[OF that] by (intro nt_triple_cong) auto
  then have "map (nt_triple (canonical_label d)) (map (relabel3 f) ts) = map (nt_triple (canonical_label c)) ts"
    by simp
  then have "sort (map (nt_triple (canonical_label d)) us) = sort (map (nt_triple (canonical_label c)) ts)"
    using perm by (metis mset_map sort_mset_eq)
  then show ?thesis
    using c(1) d(1) by (simp add: canonicalize_def canonicalize_labeled_def Let_def)
qed

section \<open>What canonicalization promises\<close>

text \<open>C37: when canonicalization succeeds, every blank node of the graph, and nothing else, has a
  label; the labels are \<open>c14n\<close> followed by a number, no two blank nodes share one, and the lines
  are the sorted N-Triples lines of the graph under that relabelling, one per triple.\<close>

theorem canonical_labels_complete:
  assumes "canonicalize_labeled sha ks ts = Some (lines, digest, labels)" "key_order ts ks"
    and "\<forall>t \<in> set ts. pred_ok t"
  shows "dom labels = all_bnodes ts \<and> inj_on labels (all_bnodes ts) \<and>
    (\<forall>b l. labels b = Some l \<longrightarrow> (\<exists>n. l = ''c14n'' @ nat_str n)) \<and>
    lines = sort (map (nt_triple (\<lambda>b. the (labels b))) ts) \<and> digest = sha (concat lines)"
proof -
  obtain c where c: "canonical_issuer sha ks ts = Some c" "labels = issued c"
    "lines = sort (map (nt_triple (canonical_label c)) ts)" "digest = sha (concat lines)"
    using canonicalize_labeled_Some[OF assms(1)] .
  note spec = canonical_issuer_spec[OF c(1) assms(2)]
  have "inj_on labels (all_bnodes ts)"
  proof (rule inj_onI)
    fix a b assume "a \<in> all_bnodes ts" "b \<in> all_bnodes ts" "labels a = labels b"
    then show "a = b"
      using canonical_label_the[OF c(1) assms(2)] spec issuer_inj c(2) by metis
  qed
  moreover have "\<forall>b l. labels b = Some l \<longrightarrow> (\<exists>n. l = ''c14n'' @ nat_str n)"
    using spec issuer_label_digits c(2) by metis
  moreover have "nt_triple (canonical_label c) t = nt_triple (\<lambda>b. the (labels b)) t" if "t \<in> set ts" for t
    using canonical_label_the[OF c(1) assms(2)] mem_all_bnodes[OF that] assms(3) that c(2)
    by (intro nt_triple_cong) auto
  then have "map (nt_triple (canonical_label c)) ts = map (nt_triple (\<lambda>b. the (labels b))) ts"
    by (intro map_cong) simp_all
  then have "lines = sort (map (nt_triple (\<lambda>b. the (labels b))) ts)" unfolding c(3) by (rule arg_cong)
  ultimately show ?thesis using c(2,4) canonical_dom[OF c(1) assms(2)] by blast
qed

text \<open>
  The condition on the terms cannot be dropped: \<open>nt_term\<close> writes IRIs unescaped, so an IRI that
  holds \<open>>\<close> and a line feed forges a line boundary. The one triple of \<open>forged_one\<close> and
  the two triples of \<open>forged_two\<close> have the same canonical document, and so the same digest,
  whatever \<open>sha\<close> is; \<open>put_term\<close> accepts such an IRI from SQL.
\<close>

definition forged_one :: "triple list" where
  "forged_one = [(Iri ''s'', Iri ''p'', Iri (''o> .'' @ [CHR 0x0A] @ ''<t> <q> <u''))]"

definition forged_two :: "triple list" where
  "forged_two = [(Iri ''s'', Iri ''p'', Iri ''o''), (Iri ''t'', Iri ''q'', Iri ''u'')]"

lemma unescaped_iri_forges_digest:
  "\<exists>one two d. canonicalize sha [] forged_one = Some (one, d) \<and>
     canonicalize sha [] forged_two = Some (two, d) \<and> \<not> isomorphic forged_one forged_two"
proof -
  have issuer: "canonical_issuer sha [] ts = Some (new_issuer ''c14n'')" for ts
    by (simp add: canonical_issuer_def bt_group_def shared_groups_def issue_unique_def Let_def)
  have "concat (sort (map (nt_triple l) forged_one)) = concat (sort (map (nt_triple l) forged_two))" for l
    by (simp add: forged_one_def forged_two_def insort_key_def)
  moreover have "\<not> isomorphic forged_one forged_two"
    by (auto simp: isomorphic_def forged_one_def forged_two_def dest: arg_cong[of _ _ size])
  ultimately show ?thesis
    by (auto simp: canonicalize_def canonicalize_labeled_def issuer Let_def)
qed

text \<open>C7: two graphs with the same canonical digest are isomorphic: one is the other with its blank
  nodes renamed, up to the spelling of plain literals, assuming that SHA-256 does not collide on the
  two documents and that the terms are ones the parsers admit: every predicate is an IRI, no IRI or
  datatype holds \<open>>\<close> or a line feed, and no blank-node label or language tag holds a space or a
  line feed. (Terms written by \<open>put_term\<close> from SQL can violate the last condition, and then two
  different graphs can share a digest: \<open>unescaped_iri_forges_digest\<close>.)\<close>

theorem equal_digest_isomorphic:
  assumes "canonicalize sha ks ts = Some (lines, d)" "key_order ts ks"
    and "canonicalize sha ls us = Some (lines', d')" "key_order us ls"
    and "sha (concat lines) = sha (concat lines') \<Longrightarrow> concat lines = concat lines'"
    and "\<forall>t \<in> set ts \<union> set us. triple_ok t \<and> pred_ok t"
    and "d = d'"
  shows "isomorphic ts us"
proof -
  obtain c where c: "canonical_issuer sha ks ts = Some c"
    "lines = sort (map (nt_triple (canonical_label c)) ts)" "d = sha (concat lines)"
    using assms(1) by (auto simp: canonicalize_def canonicalize_labeled_def Let_def)
  obtain e where e: "canonical_issuer sha ls us = Some e"
    "lines' = sort (map (nt_triple (canonical_label e)) us)" "d' = sha (concat lines')"
    using assms(3) by (auto simp: canonicalize_def canonicalize_labeled_def Let_def)
  have "concat lines = concat lines'" using assms(5,7) c(3) e(3) by simp
  then show ?thesis
    using equal_documents_isomorphic[OF c(1) assms(2) e(1) assms(4)] assms(6) c(2) e(2) by simp
qed

text \<open>The iteration order of the hash map of blank nodes, which Rust leaves unspecified, does
  not change the canonical document, its digest or the labels.\<close>

theorem hashmap_order_irrelevant:
  assumes "key_order ts ks" "key_order ts ls"
  shows "canonicalize_labeled sha ks ts = canonicalize_labeled sha ls ts"
  using canonical_issuer_key_order[OF assms] by (simp add: canonicalize_labeled_def)

text \<open>C4: when the first-degree hashes tell all blank nodes apart, canonicalization succeeds, and
  renaming the blank nodes and reordering the triples changes neither document nor digest.\<close>

theorem isomorphic_same_digest:
  assumes "key_order ts ks" "key_order us ls"
    and "inj_on (hash_first_degree sha ts) (all_bnodes ts)"
    and "inj_on f (all_bnodes ts)" "mset us = mset (map (relabel3 f) ts)"
    and "\<forall>t \<in> set ts. pred_ok t"
  shows "canonicalize sha ks ts = canonicalize sha ls us \<and> canonicalize sha ks ts \<noteq> None"
  using unique_hashes_invariant[OF assms] by auto

text \<open>Concrete inputs for the hypotheses: a chain of two blank nodes, and \<open>sha\<close> the identity.\<close>

definition chain_doc :: "triple list" where
  "chain_doc = [(Iri ''r'', Iri ''p'', BNode ''x''), (BNode ''x'', Iri ''p'', BNode ''y'')]"

definition chain_doc' :: "triple list" where
  "chain_doc' = [(BNode ''u'', Iri ''p'', BNode ''v''), (Iri ''r'', Iri ''p'', BNode ''u'')]"

lemma chain_runs:
  "case canonicalize_labeled (\<lambda>s. s) [''y'', ''x''] chain_doc of None \<Rightarrow> False | Some _ \<Rightarrow> True"
  by code_simp

lemma chain_keys: "key_order chain_doc [''y'', ''x'']" "key_order chain_doc [''x'', ''y'']"
    "key_order chain_doc' [''v'', ''u'']"
  by (auto simp: key_order_def all_bnodes_def chain_doc_def chain_doc'_def)

lemma chain_preds: "\<forall>t \<in> set chain_doc. pred_ok t"
  by (simp add: chain_doc_def)

theorem canonical_labels_complete_witness:
  "\<exists>lines digest labels.
     canonicalize_labeled (\<lambda>s. s) [''y'', ''x''] chain_doc = Some (lines, digest, labels) \<and>
     dom labels = all_bnodes chain_doc"
proof -
  obtain lines digest labels where
    r: "canonicalize_labeled (\<lambda>s. s) [''y'', ''x''] chain_doc = Some (lines, digest, labels)"
    using chain_runs by (auto split: option.splits)
  show ?thesis
    using canonical_labels_complete[OF r chain_keys(1) chain_preds] r by blast
qed

theorem equal_digest_isomorphic_witness: "isomorphic chain_doc chain_doc'"
proof (rule equal_digest_isomorphic)
  show "canonicalize (\<lambda>s. s) [''x'', ''y''] chain_doc
      = Some ([''<r> <p> _:c14n0 .'' @ [CHR 0x0A], ''_:c14n0 <p> _:c14n1 .'' @ [CHR 0x0A]],
              ''<r> <p> _:c14n0 .'' @ [CHR 0x0A] @ ''_:c14n0 <p> _:c14n1 .'' @ [CHR 0x0A])"
    by code_simp
  show "canonicalize (\<lambda>s. s) [''v'', ''u''] chain_doc'
      = Some ([''<r> <p> _:c14n0 .'' @ [CHR 0x0A], ''_:c14n0 <p> _:c14n1 .'' @ [CHR 0x0A]],
              ''<r> <p> _:c14n0 .'' @ [CHR 0x0A] @ ''_:c14n0 <p> _:c14n1 .'' @ [CHR 0x0A])"
    by code_simp
qed (use chain_keys in \<open>auto simp: chain_doc_def chain_doc'_def\<close>)

theorem hashmap_order_irrelevant_witness:
  "canonicalize_labeled (\<lambda>s. s) [''x'', ''y''] chain_doc = canonicalize_labeled (\<lambda>s. s) [''y'', ''x''] chain_doc"
  by (rule hashmap_order_irrelevant) (rule chain_keys)+

theorem isomorphic_same_digest_witness:
  "canonicalize (\<lambda>s. s) [''x'', ''y''] chain_doc = canonicalize (\<lambda>s. s) [''v'', ''u''] chain_doc'"
proof -
  have "hash_first_degree (\<lambda>s. s) chain_doc ''x'' \<noteq> hash_first_degree (\<lambda>s. s) chain_doc ''y''"
    by code_simp
  then have "inj_on (hash_first_degree (\<lambda>s. s) chain_doc) (all_bnodes chain_doc)"
    by (auto simp: inj_on_def all_bnodes_def chain_doc_def)
  then show ?thesis
    using isomorphic_same_digest[of chain_doc "[''x'', ''y'']" chain_doc' "[''v'', ''u'']" "\<lambda>s. s"
        "\<lambda>b. if b = ''x'' then ''u'' else ''v''"] chain_keys chain_preds
    by (auto simp: inj_on_def all_bnodes_def chain_doc_def chain_doc'_def)
qed

end
