(* ===== verification/Components.thy ===== *)
theory Components
  imports Canon
begin

text \<open>
  The split of a graph's blank-node triples into components (\<open>components\<close> in
  \<open>src/storage/diff.rs\<close>): the index of blank nodes in order of first use, the union-find with path
  halving, the anchors, and the grouping by root. \<open>find\<close> loops until it meets a root: here it has
  fuel, the number of nodes, which the forest's acyclicity makes enough (\<open>find_root_correct\<close>). The
  lemmas show that two triples land in one group exactly when shared blank nodes connect them.
\<close>

section \<open>The forest\<close>

text \<open>\<open>find\<close>: halve the path, then step.\<close>

primrec find_root :: "nat \<Rightarrow> nat list \<Rightarrow> nat \<Rightarrow> nat list \<times> nat" where
  "find_root 0 parent x = (parent, x)"
| "find_root (Suc fuel) parent x =
     (if parent ! x = x then (parent, x)
      else
        (let parent' = parent[x := parent ! (parent ! x)] in find_root fuel parent' (parent' ! x)))"

definition uf_find :: "nat list \<Rightarrow> nat \<Rightarrow> nat list \<times> nat" where
  "uf_find parent x = find_root (Suc (length parent)) parent x"

definition uf_union :: "nat list \<Rightarrow> nat \<Rightarrow> nat \<Rightarrow> nat list" where
  "uf_union parent a b =
     (let (parent, ra) = uf_find parent a; (parent, rb) = uf_find parent b in
      if ra \<noteq> rb then parent[ra := rb] else parent)"

text \<open>The index: the position of a blank node in \<open>names\<close>, a new node being its own parent.\<close>

fun index_of :: "string list \<Rightarrow> string \<Rightarrow> nat" where
  "index_of [] b = 0"
| "index_of (n # ns) b = (if n = b then 0 else Suc (index_of ns b))"

definition id_of :: "string \<Rightarrow> string list \<times> nat list \<Rightarrow> nat \<times> (string list \<times> nat list)" where
  "id_of b st =
     (let (names, parent) = st in
      if b \<in> set names then (index_of names b, st)
      else (length parent, (names @ [b], parent @ [length parent])))"

text \<open>One triple: index its blank nodes, join them, remember an anchor.\<close>

definition scan_triple ::
    "triple \<Rightarrow> (string list \<times> nat list) \<times> nat list \<Rightarrow> (string list \<times> nat list) \<times> nat list" where
  "scan_triple t acc =
     (let (st, anchors) = acc in
      case (fst t, snd (snd t)) of
        (BNode s, BNode o') \<Rightarrow>
          (let (a, st) = id_of s st; (b, st) = id_of o' st in
           ((fst st, uf_union (snd st) a b), anchors @ [a]))
      | (BNode s, _) \<Rightarrow> (let (a, st) = id_of s st in (st, anchors @ [a]))
      | (_, BNode o') \<Rightarrow> (let (b, st) = id_of o' st in (st, anchors @ [b]))
      | _ \<Rightarrow> (st, anchors))"

definition scan_triples :: "triple list \<Rightarrow> (string list \<times> nat list) \<times> nat list" where
  "scan_triples ts = fold scan_triple ts (([], []), [])"

text \<open>The grouping: the root of each anchor, the path halving going on.\<close>

primrec group_roots :: "(triple \<times> nat) list \<Rightarrow> nat list \<Rightarrow> (nat \<times> triple list) list \<Rightarrow> (nat \<times> triple list) list" where
  "group_roots [] parent groups = groups"
| "group_roots (ta # tas) parent groups =
     (let (parent, root) = uf_find parent (snd ta) in
      group_roots tas parent (bt_push root (fst ta) groups))"

definition component_groups :: "triple list \<Rightarrow> triple list list" where
  "component_groups ts =
     (let ((names, parent), anchors) = scan_triples ts in
      map snd (group_roots (zip ts anchors) parent []))"

section \<open>Roots\<close>

definition edges :: "nat list \<Rightarrow> (nat \<times> nat) set" where
  "edges ps = {(x, ps ! x) | x. x < length ps \<and> ps ! x \<noteq> x}"

definition forest :: "nat list \<Rightarrow> bool" where
  "forest ps \<longleftrightarrow> (\<forall>x < length ps. ps ! x < length ps) \<and> acyclic (edges ps)"

definition root_of :: "nat list \<Rightarrow> nat \<Rightarrow> nat \<Rightarrow> bool" where
  "root_of ps x r \<longleftrightarrow> (x, r) \<in> (edges ps)\<^sup>* \<and> ps ! r = r \<and> r < length ps"

lemma edges_single: "(x, y) \<in> edges ps \<Longrightarrow> (x, z) \<in> edges ps \<Longrightarrow> y = z"
  by (auto simp: edges_def)

lemma edges_finite: "finite (edges ps)"
proof -
  have "edges ps \<subseteq> (\<lambda>x. (x, ps ! x)) ` {..< length ps}" by (auto simp: edges_def)
  then show ?thesis by (rule finite_subset) simp
qed

lemma edges_root: "(r, y) \<in> (edges ps)\<^sup>* \<Longrightarrow> ps ! r = r \<Longrightarrow> y = r"
  by (induction rule: rtrancl_induct) (auto simp: edges_def)

lemma edges_closed: "(x, y) \<in> (edges ps)\<^sup>* \<Longrightarrow> forest ps \<Longrightarrow> x < length ps \<Longrightarrow> y < length ps"
  by (induction rule: rtrancl_induct) (auto simp: edges_def forest_def)

lemma root_unique:
  assumes "root_of ps x r" "root_of ps x q"
  shows "r = q"
proof -
  have "(x, r) \<in> (edges ps)\<^sup>* \<Longrightarrow> root_of ps x q \<Longrightarrow> (r, q) \<in> (edges ps)\<^sup>*" for r
  proof (induction rule: rtrancl_induct)
    case base
    then show ?case by (simp add: root_of_def)
  next
    case (step y z)
    then have yq: "(y, q) \<in> (edges ps)\<^sup>*" "ps ! q = q" by (simp_all add: root_of_def)
    then show ?case
    proof (cases rule: converse_rtranclE)
      case base
      then show ?thesis using step(2) yq(2) by (auto simp: edges_def)
    next
      case (step w)
      then show ?thesis using \<open>(y, z) \<in> edges ps\<close> edges_single by metis
    qed
  qed
  then show ?thesis using assms edges_root by (metis root_of_def)
qed

lemma root_step: "x < length ps \<Longrightarrow> ps ! x \<noteq> x \<Longrightarrow> root_of ps x r \<longleftrightarrow> root_of ps (ps ! x) r"
proof
  assume x: "x < length ps" "ps ! x \<noteq> x"
  then have e: "(x, ps ! x) \<in> edges ps" by (auto simp: edges_def)
  show "root_of ps (ps ! x) r \<Longrightarrow> root_of ps x r"
    using e by (auto simp: root_of_def intro: converse_rtrancl_into_rtrancl)
  assume r: "root_of ps x r"
  then have "(x, r) \<in> (edges ps)\<^sup>*" "x \<noteq> r" using x by (auto simp: root_of_def)
  then obtain y where "(x, y) \<in> edges ps" "(y, r) \<in> (edges ps)\<^sup>*" by (meson converse_rtranclE)
  then show "root_of ps (ps ! x) r" using e edges_single r by (metis root_of_def)
qed

text \<open>How far a node is from its root.\<close>

definition height :: "nat list \<Rightarrow> nat \<Rightarrow> nat" where
  "height ps x = card {y. (x, y) \<in> (edges ps)\<^sup>+}"

lemma successors_finite: "finite {y. (x, y) \<in> (edges ps)\<^sup>+}"
proof -
  have "{y. (x, y) \<in> (edges ps)\<^sup>+} \<subseteq> Range (edges ps)"
    by (auto elim: tranclE)
  then show ?thesis using finite_Range[OF edges_finite] by (rule finite_subset)
qed

lemma height_step:
  assumes "forest ps" "(x, y) \<in> (edges ps)\<^sup>+"
  shows "height ps y < height ps x"
  unfolding height_def
proof (rule psubset_card_mono[OF successors_finite], rule psubsetI)
  show "{z. (y, z) \<in> (edges ps)\<^sup>+} \<subseteq> {z. (x, z) \<in> (edges ps)\<^sup>+}"
    using assms(2) by (auto intro: trancl_trans)
  have "(y, y) \<notin> (edges ps)\<^sup>+" using assms(1) by (simp add: forest_def acyclic_def)
  then show "{z. (y, z) \<in> (edges ps)\<^sup>+} \<noteq> {z. (x, z) \<in> (edges ps)\<^sup>+}" using assms(2) by blast
qed

lemma height_le:
  assumes "forest ps"
  shows "height ps x \<le> length ps"
proof -
  have "{y. (x, y) \<in> (edges ps)\<^sup>+} \<subseteq> {..< length ps}"
    using assms by (auto simp: forest_def edges_def elim: tranclE)
  then have "card {y. (x, y) \<in> (edges ps)\<^sup>+} \<le> card {..< length ps}" by (intro card_mono) auto
  then show ?thesis by (simp add: height_def)
qed

lemma root_exists:
  assumes "forest ps" "x < length ps"
  shows "\<exists>r. root_of ps x r"
  using assms(2)
proof (induction "height ps x" arbitrary: x rule: less_induct)
  case less
  show ?case
  proof (cases "ps ! x = x")
    case True
    then show ?thesis using less.prems by (auto simp: root_of_def)
  next
    case False
    then have "(x, ps ! x) \<in> edges ps" using less.prems by (auto simp: edges_def)
    then have "height ps (ps ! x) < height ps x" using height_step[OF assms(1)] by blast
    moreover have "ps ! x < length ps" using assms(1) less.prems by (simp add: forest_def)
    ultimately show ?thesis using less.hyps root_step[OF less.prems False] by blast
  qed
qed

definition rep :: "nat list \<Rightarrow> nat \<Rightarrow> nat" where
  "rep ps x = (THE r. root_of ps x r)"

lemma rep_eq: "root_of ps x r \<Longrightarrow> rep ps x = r"
  unfolding rep_def using root_unique by blast

lemma root_of_rep: "forest ps \<Longrightarrow> x < length ps \<Longrightarrow> root_of ps x (rep ps x)"
  using root_exists rep_eq by metis

section \<open>Find\<close>

lemma halve_spec:
  assumes "forest ps" "x < length ps" "ps ! x \<noteq> x"
  defines "ps' \<equiv> ps[x := ps ! (ps ! x)]"
  shows "forest ps'" "\<And>y. y < length ps \<Longrightarrow> rep ps' y = rep ps y"
    "height ps' (ps' ! x) < height ps x" "rep ps (ps' ! x) = rep ps x" "ps' ! x < length ps"
proof -
  have px: "ps ! x < length ps" "ps ! (ps ! x) < length ps" using assms(1,2) by (auto simp: forest_def)
  have e1: "(x, ps ! x) \<in> edges ps" using assms(2,3) by (auto simp: edges_def)
  have jump: "(x, ps ! (ps ! x)) \<in> (edges ps)\<^sup>+"
  proof (cases "ps ! (ps ! x) = ps ! x")
    case False
    then have "(ps ! x, ps ! (ps ! x)) \<in> edges ps" using px by (auto simp: edges_def)
    then show ?thesis using e1 by auto
  qed (use e1 in auto)
  have sub: "edges ps' \<subseteq> (edges ps)\<^sup>+"
  proof
    fix e assume "e \<in> edges ps'"
    then obtain z where "e = (z, ps' ! z)" "z < length ps" "ps' ! z \<noteq> z" by (auto simp: edges_def ps'_def)
    then show "e \<in> (edges ps)\<^sup>+" using jump by (cases "z = x") (auto simp: ps'_def edges_def)
  qed
  then have sub': "(edges ps')\<^sup>+ \<subseteq> (edges ps)\<^sup>+"
    using trancl_mono_subset[OF sub] trancl_id[OF trans_trancl, of "edges ps"] by simp
  show f: "forest ps'"
    using assms(1,2) px sub' by (auto simp: forest_def acyclic_def ps'_def nth_list_update)
  have fixpt: "ps' ! r = r \<longleftrightarrow> ps ! r = r" if "r < length ps" for r
  proof (cases "r = x")
    case True
    have "(x, x) \<notin> (edges ps)\<^sup>+" using assms(1) by (simp add: forest_def acyclic_def)
    then show ?thesis using True jump assms(2,3) by (auto simp: ps'_def)
  qed (simp add: ps'_def)
  show reps: "rep ps' y = rep ps y" if "y < length ps" for y
  proof -
    have "root_of ps' y (rep ps' y)" using root_of_rep[OF f] that by (simp add: ps'_def)
    then have "root_of ps y (rep ps' y)"
      using sub' fixpt by (auto simp: root_of_def ps'_def rtrancl_eq_or_trancl)
    then show ?thesis using rep_eq by simp
  qed
  have x': "ps' ! x = ps ! (ps ! x)" using assms(2) by (simp add: ps'_def)
  have "height ps' z \<le> height ps z" for z
    unfolding height_def by (rule card_mono[OF successors_finite]) (use sub' in auto)
  then show "height ps' (ps' ! x) < height ps x"
    using height_step[OF assms(1) jump] x' le_less_trans by metis
  show "ps' ! x < length ps" using x' px by simp
  have "root_of ps (ps ! (ps ! x)) (rep ps x)"
  proof -
    have r: "root_of ps (ps ! x) (rep ps x)" using root_of_rep[OF assms(1,2)] root_step[OF assms(2,3)] by simp
    then show ?thesis using px root_step[OF px(1), of "rep ps x"] by (cases "ps ! (ps ! x) = ps ! x") auto
  qed
  then show "rep ps (ps' ! x) = rep ps x" using x' rep_eq by simp
qed

lemma find_root_correct:
  assumes "forest ps" "x < length ps" "height ps x < fuel" "find_root fuel ps x = (ps', r)"
  shows "forest ps' \<and> length ps' = length ps \<and> r = rep ps x \<and> (\<forall>y < length ps. rep ps' y = rep ps y)"
  using assms
proof (induction fuel arbitrary: ps x)
  case (Suc fuel)
  show ?case
  proof (cases "ps ! x = x")
    case True
    then have "root_of ps x x" using Suc.prems(2) by (simp add: root_of_def)
    then show ?thesis using True Suc.prems rep_eq by auto
  next
    case False
    let ?p = "ps[x := ps ! (ps ! x)]"
    note h = halve_spec[OF Suc.prems(1,2) False]
    have "find_root fuel ?p (?p ! x) = (ps', r)" using Suc.prems(4) False by (simp add: Let_def)
    moreover have "height ?p (?p ! x) < fuel" using h(3) Suc.prems(3) by simp
    ultimately have "forest ps' \<and> length ps' = length ?p \<and> r = rep ?p (?p ! x) \<and>
        (\<forall>y < length ?p. rep ps' y = rep ?p y)"
      using Suc.IH[OF h(1)] h(5) by simp
    then show ?thesis using h(2)[OF h(5)] h(2,4) by simp
  qed
qed simp

text \<open>The fuel given to \<open>find\<close> is enough, and path halving is invisible: in a forest, \<open>find\<close>
  returns the root of its node, and every node keeps its root.\<close>

theorem uf_find_correct:
  assumes "forest ps" "x < length ps" "uf_find ps x = (ps', r)"
  shows "forest ps' \<and> length ps' = length ps \<and> root_of ps x r \<and>
    (\<forall>y < length ps. \<forall>q. root_of ps' y q \<longleftrightarrow> root_of ps y q)"
proof -
  have "height ps x < Suc (length ps)" using height_le[OF assms(1), of x] by simp
  then have f: "forest ps'" "length ps' = length ps" "r = rep ps x" "\<forall>y < length ps. rep ps' y = rep ps y"
    using find_root_correct[OF assms(1,2) _ assms(3)[unfolded uf_find_def]] by auto
  have "root_of ps' y q \<longleftrightarrow> root_of ps y q" if "y < length ps" for y q
    using root_of_rep[OF f(1), of y] root_of_rep[OF assms(1) that] f(2,4) that rep_eq by metis
  then show ?thesis using f root_of_rep[OF assms(1,2)] by simp
qed

lemma uf_find_rep:
  assumes "forest ps" "x < length ps" "uf_find ps x = (ps', r)"
  shows "forest ps' \<and> length ps' = length ps \<and> r = rep ps x \<and> (\<forall>y < length ps. rep ps' y = rep ps y)"
proof -
  have "height ps x < Suc (length ps)" using height_le[OF assms(1), of x] by simp
  then show ?thesis using find_root_correct[OF assms(1,2) _ assms(3)[unfolded uf_find_def]] by simp
qed

section \<open>Union\<close>

lemma link_spec:
  assumes "forest ps" "ra < length ps" "rb < length ps" "ps ! ra = ra" "ps ! rb = rb" "ra \<noteq> rb"
  shows "forest (ps[ra := rb]) \<and>
    (\<forall>y < length ps. rep (ps[ra := rb]) y = (if rep ps y = ra then rb else rep ps y))"
proof -
  let ?p = "ps[ra := rb]"
  have E: "edges ?p = insert (ra, rb) (edges ps)"
    using assms(2,4,6) by (auto simp: edges_def nth_list_update split: if_splits)
  have "(rb, ra) \<notin> (edges ps)\<^sup>*" using edges_root assms(5,6) by metis
  then have f: "forest ?p"
    using assms(1-3) unfolding forest_def E by (auto simp: acyclic_insert nth_list_update)
  have "rep ?p y = (if rep ps y = ra then rb else rep ps y)" if y: "y < length ps" for y
  proof -
    have r: "root_of ps y (rep ps y)" by (rule root_of_rep[OF assms(1) y])
    then have p: "(y, rep ps y) \<in> (edges ?p)\<^sup>*"
      unfolding root_of_def E by (meson in_mono rtrancl_mono subset_insertI)
    show ?thesis
    proof (cases "rep ps y = ra")
      case True
      have "(ra, rb) \<in> edges ?p" using E by simp
      then have "(y, rb) \<in> (edges ?p)\<^sup>*" using p True by auto
      moreover have "?p ! rb = rb" using assms(5,6) by simp
      ultimately have "root_of ?p y rb" using assms(3) by (simp add: root_of_def)
      then show ?thesis using True rep_eq by simp
    next
      case False
      then have "?p ! rep ps y = rep ps y" using r by (simp add: root_of_def)
      then have "root_of ?p y (rep ps y)" using p r by (simp add: root_of_def)
      then show ?thesis using False rep_eq by simp
    qed
  qed
  then show ?thesis using f by simp
qed

lemma uf_union_rep:
  assumes "forest ps" "a < length ps" "b < length ps"
  shows "forest (uf_union ps a b) \<and> length (uf_union ps a b) = length ps \<and>
    (\<forall>x < length ps. \<forall>y < length ps. rep (uf_union ps a b) x = rep (uf_union ps a b) y \<longleftrightarrow>
       rep ps x = rep ps y \<or> (rep ps x = rep ps a \<and> rep ps y = rep ps b) \<or>
       (rep ps x = rep ps b \<and> rep ps y = rep ps a))"
proof -
  obtain p1 ra where 1: "uf_find ps a = (p1, ra)" by fastforce
  obtain p2 rb where 2: "uf_find p1 b = (p2, rb)" by fastforce
  have f1: "forest p1" "length p1 = length ps" "ra = rep ps a" "\<forall>y < length ps. rep p1 y = rep ps y"
    using uf_find_rep[OF assms(1,2) 1] by auto
  have f2: "forest p2" "length p2 = length ps" "rb = rep ps b" "\<forall>y < length ps. rep p2 y = rep ps y"
    using uf_find_rep[OF f1(1) _ 2] f1 assms(3) by auto
  have roots: "root_of p2 a ra" "root_of p2 b rb"
    using root_of_rep[OF f2(1)] f2 f1(3) assms(2,3) by metis+
  have u: "uf_union ps a b = (if ra \<noteq> rb then p2[ra := rb] else p2)"
    by (simp add: uf_union_def 1 2)
  show ?thesis
  proof (cases "ra = rb")
    case True
    then show ?thesis using u f1 f2 by auto
  next
    case False
    have "forest (p2[ra := rb]) \<and>
        (\<forall>y < length p2. rep (p2[ra := rb]) y = (if rep p2 y = ra then rb else rep p2 y))"
      by (rule link_spec) (use roots False f2(1) in \<open>auto simp: root_of_def\<close>)
    then show ?thesis using u False f1(3) f2 by auto
  qed
qed

section \<open>The scan\<close>

text \<open>Blank nodes that one triple mentions are linked; \<open>linked\<close> is the closure.\<close>

definition link :: "triple list \<Rightarrow> (string \<times> string) set" where
  "link ts = {(x, y). \<exists>t \<in> set ts. x \<in> bnodes_of t \<and> y \<in> bnodes_of t}"

definition linked :: "triple list \<Rightarrow> string \<Rightarrow> string \<Rightarrow> bool" where
  "linked ts x y \<longleftrightarrow> (x, y) \<in> (link ts)\<^sup>*"

lemma linked_refl [simp]: "linked ts x x"
  by (simp add: linked_def)

lemma linked_sym: "linked ts x y \<Longrightarrow> linked ts y x"
proof -
  have "sym ((link ts)\<^sup>*)" by (rule sym_rtrancl) (auto simp: sym_def link_def)
  then show "linked ts x y \<Longrightarrow> linked ts y x" by (auto simp: linked_def dest: symD)
qed

lemma linked_trans: "linked ts x y \<Longrightarrow> linked ts y z \<Longrightarrow> linked ts x z"
  by (auto simp: linked_def)

lemma linked_join: "linked ts x s \<Longrightarrow> linked ts y s \<Longrightarrow> linked ts x y"
  using linked_sym linked_trans by metis

lemma linked_triple: "t \<in> set ts \<Longrightarrow> x \<in> bnodes_of t \<Longrightarrow> y \<in> bnodes_of t \<Longrightarrow> linked ts x y"
  by (auto simp: linked_def link_def simp del: split_paired_Ex)

lemma linked_mono: "linked ts x y \<Longrightarrow> linked (ts @ us) x y"
  unfolding linked_def by (rule rtrancl_mono[THEN subsetD]) (auto simp: link_def)

lemma linked_inside: "linked ts x y \<Longrightarrow> x = y \<or> (x \<in> all_bnodes ts \<and> y \<in> all_bnodes ts)"
proof -
  have "(x, y) \<in> (link ts)\<^sup>* \<Longrightarrow> x = y \<or> (x \<in> all_bnodes ts \<and> y \<in> all_bnodes ts)"
    by (induction rule: rtrancl_induct) (auto simp: link_def intro: mem_all_bnodes)
  then show "linked ts x y \<Longrightarrow> x = y \<or> (x \<in> all_bnodes ts \<and> y \<in> all_bnodes ts)" by (simp add: linked_def)
qed

text \<open>A new triple over the blank nodes \<open>s\<close> and \<open>o'\<close> merges their classes.\<close>

lemma linked_snoc:
  assumes "bnodes_of t = {s, o'}"
  shows "linked (ts @ [t]) x y \<longleftrightarrow>
    linked ts x y \<or> (linked ts x s \<and> linked ts y o') \<or> (linked ts x o' \<and> linked ts y s)"
    (is "_ \<longleftrightarrow> ?M x y")
proof
  have st: "linked (ts @ [t]) a b" if "a \<in> {s, o'}" "b \<in> {s, o'}" for a b
    using that assms by (intro linked_triple[of t]) auto
  have so: "linked (ts @ [t]) s o'" "linked (ts @ [t]) o' s" using st by auto
  have m: "linked ts a b \<Longrightarrow> linked (ts @ [t]) a b" for a b by (rule linked_mono)
  have "linked (ts @ [t]) x y" if "linked ts x a" "linked ts y b" "linked (ts @ [t]) a b" for a b
    using linked_trans[OF m[OF that(1)] that(3)] m[OF that(2)] by (rule linked_join)
  then show "?M x y \<Longrightarrow> linked (ts @ [t]) x y" using m so by blast
  have "(x, y) \<in> (link (ts @ [t]))\<^sup>* \<Longrightarrow> ?M x y"
  proof (induction rule: rtrancl_induct)
    case (step y z)
    obtain u where u: "u \<in> set (ts @ [t])" "y \<in> bnodes_of u" "z \<in> bnodes_of u"
      using step.hyps(2) unfolding link_def by blast
    have "linked ts y z \<or> (y \<in> {s, o'} \<and> z \<in> {s, o'})"
    proof (cases "u = t")
      case False
      then have "u \<in> set ts" using u(1) by (simp del: split_paired_All)
      then show ?thesis using u(2,3) by (blast intro: linked_triple)
    qed (use u(2,3) assms in blast)
    then show ?case
    proof
      assume "linked ts y z"
      then have "linked ts c y \<Longrightarrow> linked ts c z" "linked ts y c \<Longrightarrow> linked ts z c" for c
        using linked_trans linked_sym by metis+
      then show ?thesis using step.IH by blast
    next
      assume "y \<in> {s, o'} \<and> z \<in> {s, o'}"
      then have y: "y = s \<or> y = o'" and z: "z = s \<or> z = o'" by blast+
      have "linked ts x s \<and> linked ts s o' \<Longrightarrow> linked ts x o'" "linked ts x o' \<and> linked ts o' s \<Longrightarrow> linked ts x s"
        using linked_trans by metis+
      moreover have "linked ts s o' \<Longrightarrow> linked ts o' s" "linked ts o' s \<Longrightarrow> linked ts s o'" using linked_sym by metis+
      ultimately show ?thesis using step.IH y z linked_refl[of ts s] linked_refl[of ts o'] by blast
    qed
  qed simp
  then show "linked (ts @ [t]) x y \<Longrightarrow> ?M x y" by (simp add: linked_def)
qed

definition uf_inv :: "(string \<Rightarrow> string \<Rightarrow> bool) \<Rightarrow> string list \<Rightarrow> nat list \<Rightarrow> bool" where
  "uf_inv R names ps \<longleftrightarrow> length names = length ps \<and> distinct names \<and> forest ps \<and>
     (\<forall>a < length ps. \<forall>b < length ps. rep ps a = rep ps b \<longleftrightarrow> R (names ! a) (names ! b))"

lemma edges_snoc: "edges (ps @ [length ps]) = edges ps"
  by (auto simp: edges_def nth_append less_Suc_eq)

lemma forest_snoc:
  assumes "forest ps"
  shows "forest (ps @ [length ps])" "\<And>a. a < length ps \<Longrightarrow> rep (ps @ [length ps]) a = rep ps a"
    "rep (ps @ [length ps]) (length ps) = length ps" "\<And>a. a < length ps \<Longrightarrow> rep ps a < length ps"
proof -
  show "forest (ps @ [length ps])"
    using assms by (auto simp: forest_def edges_snoc nth_append less_Suc_eq)
  show "rep (ps @ [length ps]) a = rep ps a" if "a < length ps" for a
  proof (rule rep_eq)
    show "root_of (ps @ [length ps]) a (rep ps a)"
      using root_of_rep[OF assms that] by (auto simp: root_of_def edges_snoc nth_append)
  qed
  show "rep (ps @ [length ps]) (length ps) = length ps"
    by (rule rep_eq) (simp add: root_of_def)
  show "rep ps a < length ps" if "a < length ps" for a
    using root_of_rep[OF assms that] by (simp add: root_of_def)
qed

lemma index_of_nth: "b \<in> set names \<Longrightarrow> index_of names b < length names \<and> names ! index_of names b = b"
  by (induction names) auto

lemma id_of_spec:
  assumes "uf_inv R names ps" "id_of b (names, ps) = (i, (names', ps'))"
    and "\<And>x y. R x y \<Longrightarrow> x = y \<or> (x \<in> set names \<and> y \<in> set names)" "\<And>x. R x x"
  shows "uf_inv R names' ps' \<and> i < length ps' \<and> names' ! i = b \<and> set names' = insert b (set names) \<and>
    length ps \<le> length ps' \<and> (\<forall>j < length ps. names' ! j = names ! j)"
proof (cases "b \<in> set names")
  case True
  then show ?thesis using assms(1,2) index_of_nth[OF True] by (auto simp: id_of_def uf_inv_def)
next
  case False
  then have e: "i = length ps" "names' = names @ [b]" "ps' = ps @ [length ps]"
    using assms(2) by (auto simp: id_of_def)
  have inv: "length names = length ps" "distinct names" "forest ps"
    "\<forall>a < length ps. \<forall>c < length ps. rep ps a = rep ps c \<longleftrightarrow> R (names ! a) (names ! c)"
    using assms(1) by (auto simp: uf_inv_def)
  note f = forest_snoc[OF inv(3)]
  have ne: "rep ps a \<noteq> length ps" "length ps \<noteq> rep ps a" if "a < length ps" for a
    using f(4)[OF that] by auto
  have "R b (names ! a) = False" "R (names ! a) b = False" if "a < length ps" for a
    using assms(3)[of b "names ! a"] assms(3)[of "names ! a" b] False that inv(1) nth_mem by metis+
  then have "rep ps' a = rep ps' c \<longleftrightarrow> R (names' ! a) (names' ! c)"
    if "a < length ps'" "c < length ps'" for a c
    using that inv f e assms(4) ne
    by (cases "a = length ps"; cases "c = length ps") (auto simp: nth_append less_Suc_eq)
  then show ?thesis using e False inv f(1) by (auto simp: uf_inv_def nth_append)
qed

definition scan_inv :: "triple list \<Rightarrow> (string list \<times> nat list) \<times> nat list \<Rightarrow> bool" where
  "scan_inv ts acc \<longleftrightarrow>
     (let ((names, ps), anchors) = acc in
      uf_inv (linked ts) names ps \<and> set names = all_bnodes ts \<and> length anchors = length ts \<and>
      (\<forall>i < length ts. anchors ! i < length ps \<and> names ! (anchors ! i) \<in> bnodes_of (ts ! i)))"

lemma union_inv:
  assumes "uf_inv (linked ts) names ps" "a < length ps" "b < length ps"
    and "bnodes_of t = {names ! a, names ! b}"
  shows "uf_inv (linked (ts @ [t])) names (uf_union ps a b)"
proof -
  have inv: "length names = length ps" "distinct names" "forest ps"
    "\<And>x y. x < length ps \<Longrightarrow> y < length ps \<Longrightarrow> rep ps x = rep ps y \<longleftrightarrow> linked ts (names ! x) (names ! y)"
    using assms(1) by (auto simp: uf_inv_def)
  note u = uf_union_rep[OF inv(3) assms(2,3)]
  have "rep (uf_union ps a b) x = rep (uf_union ps a b) y \<longleftrightarrow> linked (ts @ [t]) (names ! x) (names ! y)"
    if "x < length ps" "y < length ps" for x y
    using that u inv(4) assms(2,3) linked_snoc[OF assms(4)] by simp
  then show ?thesis using inv(1,2) u by (simp add: uf_inv_def)
qed

lemma single_inv:
  assumes "uf_inv (linked ts) names ps" "bnodes_of t = {s}"
  shows "uf_inv (linked (ts @ [t])) names ps"
proof -
  have "linked (ts @ [t]) x y \<longleftrightarrow> linked ts x y" for x y
    using linked_snoc[of t s s ts x y, unfolded insert_absorb2, OF assms(2)] linked_join[of ts x s y] by blast
  then have "linked (ts @ [t]) = linked ts" by blast
  then show ?thesis using assms(1) by simp
qed

lemma all_bnodes_snoc: "all_bnodes (ts @ [t]) = all_bnodes ts \<union> bnodes_of t"
  by (auto simp: all_bnodes_def)

lemma scan_triple_inv:
  assumes "scan_inv ts acc" "bnodes_of t \<noteq> {}"
  shows "scan_inv (ts @ [t]) (scan_triple t acc)"
proof -
  obtain names ps anchors where acc: "acc = ((names, ps), anchors)" by (metis prod.collapse)
  have inv: "uf_inv (linked ts) names ps" "set names = all_bnodes ts" "length anchors = length ts"
    "\<forall>i < length ts. anchors ! i < length ps \<and> names ! (anchors ! i) \<in> bnodes_of (ts ! i)"
    using assms(1) by (auto simp: scan_inv_def acc)
  have names_len: "length names = length ps" using inv(1) by (simp add: uf_inv_def)
  obtain s p o' where t: "t = (s, p, o')" by (cases t)
  have conf: "\<And>x y. linked ts x y \<Longrightarrow> x = y \<or> (x \<in> set names \<and> y \<in> set names)"
    using linked_inside inv(2) by simp
  have keep: "\<forall>i < length (ts @ [t]). (anchors @ [a]) ! i < length ps' \<and>
      names' ! ((anchors @ [a]) ! i) \<in> bnodes_of ((ts @ [t]) ! i)"
    if "length ps \<le> length ps'" "\<forall>j < length ps. names' ! j = names ! j" "a < length ps'"
      "names' ! a \<in> bnodes_of t" for names' ps' a
    using that inv(3,4) by (auto simp: nth_append less_Suc_eq)
  have one: ?thesis if b: "bnodes_of t = {b}" and e: "scan_triple t acc
      = (let (a, st) = id_of b (names, ps) in (st, anchors @ [a]))" for b
  proof -
    obtain a names' ps' where i: "id_of b (names, ps) = (a, (names', ps'))" by (metis prod.collapse)
    note sp = id_of_spec[OF inv(1) i conf linked_refl]
    have "uf_inv (linked (ts @ [t])) names' ps'" using single_inv[OF _ b] sp by blast
    moreover have "\<forall>j < length (ts @ [t]). (anchors @ [a]) ! j < length ps' \<and>
        names' ! ((anchors @ [a]) ! j) \<in> bnodes_of ((ts @ [t]) ! j)"
      by (rule keep) (use sp b in auto)
    ultimately show ?thesis
      using e i sp inv(2,3) b by (simp add: scan_inv_def all_bnodes_snoc)
  qed
  show ?thesis
  proof (cases "\<exists>b c. s = BNode b \<and> o' = BNode c")
    case False
    have "\<exists>b. bnodes_of t = {b} \<and>
        scan_triple t acc = (let (a, st) = id_of b (names, ps) in (st, anchors @ [a]))"
      using False assms(2) t acc by (cases s; cases o') (auto simp: scan_triple_def)
    then show ?thesis using one by blast
  next
    case True
    then obtain b c where bc: "s = BNode b" "o' = BNode c" by blast
    obtain a names1 ps1 where 1: "id_of b (names, ps) = (a, (names1, ps1))" by (metis prod.collapse)
    obtain d names2 ps2 where 2: "id_of c (names1, ps1) = (d, (names2, ps2))" by (metis prod.collapse)
    note s1 = id_of_spec[OF inv(1) 1 conf linked_refl]
    have conf1: "\<And>x y. linked ts x y \<Longrightarrow> x = y \<or> (x \<in> set names1 \<and> y \<in> set names1)"
      using conf s1 by blast
    note s2 = id_of_spec[OF conjunct1[OF s1] 2 conf1 linked_refl]
    have a: "a < length ps2" "names2 ! a = b" using s1 s2 by auto
    have bt: "bnodes_of t = {b, c}" using t bc by auto
    have u: "uf_inv (linked (ts @ [t])) names2 (uf_union ps2 a d)"
      by (rule union_inv) (use s2 a bt in auto)
    have len: "length (uf_union ps2 a d) = length ps2"
      using uf_union_rep[of ps2 a d] s2 a by (auto simp: uf_inv_def)
    have "\<forall>j < length (ts @ [t]). (anchors @ [a]) ! j < length (uf_union ps2 a d) \<and>
        names2 ! ((anchors @ [a]) ! j) \<in> bnodes_of ((ts @ [t]) ! j)"
      by (rule keep) (use s1 s2 a bt len in auto)
    then show ?thesis
      using u 1 2 s1 s2 inv(2,3) bt t bc acc len
      by (simp add: scan_inv_def scan_triple_def all_bnodes_snoc insert_commute Un_commute)
  qed
qed

lemma scan_triples_inv:
  assumes "\<forall>t \<in> set ts. bnodes_of t \<noteq> {}"
  shows "scan_inv ts (scan_triples ts)"
  using assms
proof (induction ts rule: rev_induct)
  case Nil
  have "linked [] x y \<longleftrightarrow> x = y" for x y by (auto dest: linked_inside simp: all_bnodes_def)
  then show ?case
    by (simp add: scan_triples_def scan_inv_def uf_inv_def forest_def edges_def acyclic_def all_bnodes_def)
next
  case (snoc t ts)
  then show ?case using scan_triple_inv[of ts "scan_triples ts" t] by (simp add: scan_triples_def)
qed

section \<open>The groups\<close>

lemma group_roots_fold:
  assumes "forest ps" "\<forall>ta \<in> set tas. snd ta < length ps"
  shows "group_roots tas ps groups = fold (\<lambda>ta. bt_push (rep ps (snd ta)) (fst ta)) tas groups"
  using assms
proof (induction tas arbitrary: ps groups)
  case (Cons ta tas)
  obtain ps' r where f: "uf_find ps (snd ta) = (ps', r)" by fastforce
  have u: "forest ps'" "length ps' = length ps" "r = rep ps (snd ta)" "\<forall>y < length ps. rep ps' y = rep ps y"
    using uf_find_rep[OF Cons.prems(1) _ f] Cons.prems(2) by auto
  have "fold (\<lambda>ta. bt_push (rep ps' (snd ta)) (fst ta)) tas m = fold (\<lambda>ta. bt_push (rep ps (snd ta)) (fst ta)) tas m" for m
    by (rule fold_cong) (use u(4) Cons.prems(2) in auto)
  then show ?case using Cons.IH[of ps'] u Cons.prems f by simp
qed simp

lemma bt_push_map: "bt_push k (g v) (map (\<lambda>(k, vs). (k, map g vs)) m) = map (\<lambda>(k, vs). (k, map g vs)) (bt_push k v m)"
  by (induction k v m rule: bt_push.induct) auto

lemma bt_group_map:
  "fold (\<lambda>x. bt_push (f x) (g x)) xs [] = map (\<lambda>(k, vs). (k, map g vs)) (bt_group f xs)"
proof -
  have "fold (\<lambda>x. bt_push (f x) (g x)) xs (map (\<lambda>(k, vs). (k, map g vs)) m)
      = map (\<lambda>(k, vs). (k, map g vs)) (fold (\<lambda>x. bt_push (f x) x) xs m)" for m
    by (induction xs arbitrary: m) (simp_all add: bt_push_map)
  from this[of "[]"] show ?thesis by (simp add: bt_group_def)
qed

lemma bt_push_mset: "mset (concat (map snd (bt_push k v m))) = add_mset v (mset (concat (map snd m)))"
  by (induction k v m rule: bt_push.induct) auto

lemma bt_group_mset: "mset (concat (map snd (bt_group f xs))) = mset xs"
proof -
  have "mset (concat (map snd (fold (\<lambda>x. bt_push (f x) x) xs m))) = mset xs + mset (concat (map snd m))" for m
    by (induction xs arbitrary: m) (simp_all add: bt_push_mset)
  from this[of "[]"] show ?thesis by (simp add: bt_group_def)
qed

lemma component_groups_eq:
  assumes "\<forall>t \<in> set ts. bnodes_of t \<noteq> {}"
  obtains names ps anchors where "scan_inv ts ((names, ps), anchors)"
    "component_groups ts = map (\<lambda>e. map fst (snd e)) (bt_group (\<lambda>ta. rep ps (snd ta)) (zip ts anchors))"
proof -
  obtain names ps anchors where s: "scan_triples ts = ((names, ps), anchors)" by (metis prod.collapse)
  have inv: "scan_inv ts ((names, ps), anchors)" using scan_triples_inv[OF assms] s by simp
  then have "forest ps" "\<forall>ta \<in> set (zip ts anchors). snd ta < length ps"
    by (auto simp: scan_inv_def uf_inv_def set_zip)
  then have "component_groups ts = map (\<lambda>e. map fst (snd e)) (bt_group (\<lambda>ta. rep ps (snd ta)) (zip ts anchors))"
    by (simp add: component_groups_def s group_roots_fold bt_group_map case_prod_beta comp_def)
  then show thesis using that inv by blast
qed

lemma anchored:
  assumes "scan_inv ts ((names, ps), anchors)" "(t, a) \<in> set (zip ts anchors)"
  shows "a < length ps \<and> names ! a \<in> bnodes_of t \<and> t \<in> set ts"
  using assms by (auto simp: scan_inv_def set_zip simp del: split_paired_Ex)

lemma same_root_linked:
  assumes "scan_inv ts ((names, ps), anchors)" "(t, a) \<in> set (zip ts anchors)" "(u, b) \<in> set (zip ts anchors)"
    and "x \<in> bnodes_of t" "y \<in> bnodes_of u"
  shows "rep ps a = rep ps b \<longleftrightarrow> linked ts x y"
proof -
  note t = anchored[OF assms(1,2)] and u = anchored[OF assms(1,3)]
  have "rep ps a = rep ps b \<longleftrightarrow> linked ts (names ! a) (names ! b)"
    using assms(1) t u by (auto simp: scan_inv_def uf_inv_def)
  moreover have "linked ts x (names ! a)" "linked ts y (names ! b)"
    using t u assms(4,5) linked_triple by blast+
  ultimately show ?thesis using linked_join linked_sym linked_trans by metis
qed

lemma component_groups_facts:
  assumes "\<forall>t \<in> set ts. bnodes_of t \<noteq> {}"
  shows "mset (concat (component_groups ts)) = mset ts \<and>
    (\<forall>g \<in> set (component_groups ts). g \<noteq> []) \<and>
    (\<forall>g \<in> set (component_groups ts). \<forall>x \<in> all_bnodes g. \<forall>y \<in> all_bnodes g. linked ts x y) \<and>
    (\<forall>i < length (component_groups ts). \<forall>j < length (component_groups ts). i \<noteq> j \<longrightarrow>
       all_bnodes (component_groups ts ! i) \<inter> all_bnodes (component_groups ts ! j) = {})"
proof -
  obtain names ps anchors where inv: "scan_inv ts ((names, ps), anchors)"
    and G: "component_groups ts = map (\<lambda>e. map fst (snd e)) (bt_group (\<lambda>ta. rep ps (snd ta)) (zip ts anchors))"
    using component_groups_eq[OF assms] .
  let ?f = "\<lambda>ta. rep ps (snd ta)" and ?z = "zip ts anchors"
  have len: "length anchors = length ts" using inv by (simp add: scan_inv_def)
  define ks where "ks = sorted_list_of_set (?f ` set ?z)"
  have GE: "component_groups ts = map (\<lambda>k. map fst (filter (\<lambda>ta. ?f ta = k) ?z)) ks"
    unfolding G bt_group_eq ks_def by simp
  have "concat (component_groups ts) = map fst (concat (map snd (bt_group ?f ?z)))"
    unfolding G by (simp add: map_concat comp_def)
  then have "mset (concat (component_groups ts)) = image_mset fst (mset (concat (map snd (bt_group ?f ?z))))"
    by simp
  then have p: "mset (concat (component_groups ts)) = mset ts"
    unfolding bt_group_mset using len by (metis map_fst_zip mset_map)
  have mem: "\<exists>t a. (t, a) \<in> set ?z \<and> rep ps a = k \<and> x \<in> bnodes_of t"
    if "x \<in> all_bnodes (map fst (filter (\<lambda>ta. ?f ta = k) ?z))" for x k
  proof -
    obtain t where "t \<in> set (map fst (filter (\<lambda>ta. ?f ta = k) ?z))" and x: "x \<in> bnodes_of t"
      using \<open>x \<in> _\<close> unfolding all_bnodes_def by blast
    then obtain ta where "ta \<in> set ?z" "?f ta = k" "fst ta = t" by (auto simp del: split_paired_All)
    then show ?thesis using x by (metis prod.collapse)
  qed
  have conn: "linked ts x y" if mg: "g \<in> set (component_groups ts)" "x \<in> all_bnodes g" "y \<in> all_bnodes g" for g x y
  proof -
    obtain k where g: "g = map fst (filter (\<lambda>ta. ?f ta = k) ?z)" using mg(1) GE by auto
    obtain t a u b where "(t, a) \<in> set ?z" "rep ps a = k" "x \<in> bnodes_of t"
      "(u, b) \<in> set ?z" "rep ps b = k" "y \<in> bnodes_of u"
      using mem mg(2,3) unfolding g by meson
    then show ?thesis using same_root_linked[OF inv] by metis
  qed
  have disj: "all_bnodes (component_groups ts ! i) \<inter> all_bnodes (component_groups ts ! j) = {}"
    if ij: "i < length (component_groups ts)" "j < length (component_groups ts)" "i \<noteq> j" for i j
  proof (rule ccontr)
    have l: "length (component_groups ts) = length ks" by (simp add: GE)
    assume "all_bnodes (component_groups ts ! i) \<inter> all_bnodes (component_groups ts ! j) \<noteq> {}"
    then obtain x where "x \<in> all_bnodes (component_groups ts ! i)" "x \<in> all_bnodes (component_groups ts ! j)" by blast
    then have "x \<in> all_bnodes (map fst (filter (\<lambda>ta. ?f ta = ks ! i) ?z))"
      "x \<in> all_bnodes (map fst (filter (\<lambda>ta. ?f ta = ks ! j) ?z))" using GE ij l by simp_all
    then obtain t a u b where "(t, a) \<in> set ?z" "rep ps a = ks ! i" "x \<in> bnodes_of t"
      "(u, b) \<in> set ?z" "rep ps b = ks ! j" "x \<in> bnodes_of u"
      using mem by meson
    then have "ks ! i = ks ! j" using same_root_linked[OF inv] linked_refl by metis
    moreover have "distinct ks" by (simp add: ks_def)
    ultimately show False using ij l by (simp add: nth_eq_iff_index_eq)
  qed
  have "map fst (filter (\<lambda>ta. ?f ta = k) ?z) \<noteq> []" if "k \<in> set ks" for k
    using that by (auto simp: ks_def filter_empty_conv)
  then have "\<forall>g \<in> set (component_groups ts). g \<noteq> []" unfolding GE by auto
  then show ?thesis using p conn disj by blast
qed

text \<open>C9: the components partition the triples: together they are the triples, each once; a group's
  blank nodes are all connected through shared blank nodes; and a blank node occurs in one group
  only, so connected triples are never split.\<close>

theorem components_partition:
  assumes "\<forall>t \<in> set ts. bnodes_of t \<noteq> {}"
  shows "mset (concat (component_groups ts)) = mset ts \<and>
    (\<forall>g \<in> set (component_groups ts). \<forall>x \<in> all_bnodes g. \<forall>y \<in> all_bnodes g. linked ts x y) \<and>
    (\<forall>i < length (component_groups ts). \<forall>j < length (component_groups ts). i \<noteq> j \<longrightarrow>
       all_bnodes (component_groups ts ! i) \<inter> all_bnodes (component_groups ts ! j) = {})"
  using component_groups_facts[OF assms] by blast

lemma demo_forest: "forest [1, 2, 2, 0]"
proof -
  have "edges [1, 2, 2, 0] \<subseteq> {(0, 1), (1, 2), (3, 0)}"
    by (auto simp: edges_def less_Suc_eq numeral_eq_Suc)
  moreover have "acyclic {(0::nat, 1), (1, 2), (3, 0)}"
    by (rule acyclicI_order[where f = "\<lambda>x::nat. if x = 3 then 3 else 2 - x"]) auto
  ultimately have "acyclic (edges [1, 2, 2, 0])" by (meson acyclic_subset)
  moreover have "\<forall>x < length [1, 2, 2, 0 :: nat]. [1, 2, 2, 0] ! x < length [1, 2, 2, 0 :: nat]"
    by (auto simp: less_Suc_eq numeral_eq_Suc)
  ultimately show ?thesis unfolding forest_def by blast
qed

theorem uf_find_correct_witness: "uf_find [1, 2, 2, 0] 3 = ([1, 2, 2, 1], 2) \<and> root_of [1, 2, 2, 0] 3 2"
proof -
  have "uf_find [1, 2, 2, 0] 3 = ([1, 2, 2, 1], 2)" by code_simp
  then show ?thesis using uf_find_correct[OF demo_forest] by simp
qed

definition bn_doc :: "triple list" where
  "bn_doc = [(BNode ''a'', Iri ''p'', BNode ''b''), (BNode ''c'', Iri ''p'', Iri ''o''),
             (BNode ''d'', Iri ''p'', BNode ''b'')]"

theorem components_partition_witness:
  "component_groups bn_doc =
     [[(BNode ''a'', Iri ''p'', BNode ''b''), (BNode ''d'', Iri ''p'', BNode ''b'')],
      [(BNode ''c'', Iri ''p'', Iri ''o'')]] \<and>
   mset (concat (component_groups bn_doc)) = mset bn_doc"
proof
  have "\<forall>t \<in> set bn_doc. bnodes_of t \<noteq> {}" by (auto simp: bn_doc_def)
  then show "mset (concat (component_groups bn_doc)) = mset bn_doc" using components_partition by blast
qed code_simp

end
