(* ===== verification/Dict_Cache.thy ===== *)
theory Dict_Cache
  imports Prelude "HOL-Library.Word"
begin

text \<open>
  The cross-backend dictionary cache of \<open>src/storage/shmem_cache.rs\<close>: an open-addressed table
  of \<open>SLOTS\<close> entries in shared memory with linear probing over \<open>PROBE_DEPTH\<close> slots, a generation
  counter that invalidates every slot at once, and its counters. The hash is
  \<open>std\<close>'s \<open>DefaultHasher\<close>, whose algorithm the standard library leaves unspecified: it is the
  parameter \<open>hasher\<close>. The shared array is a function on slot indices (the code indexes modulo
  \<open>SLOTS\<close> only); each operation runs under the table's lock and is one step here.
\<close>

section \<open>State\<close>

type_synonym u64 = "64 word"

type_synonym dict_key = "int \<times> string \<times> int option \<times> string option"
  \<comment> \<open>term type, lexical value, datatype id, language tag\<close>

type_synonym hasher = "u64 \<Rightarrow> 32 word \<Rightarrow> dict_key \<Rightarrow> u64"
  \<comment> \<open>seed, database OID, key\<close>

definition SLOTS :: nat where "SLOTS = 16384"
definition PROBE_DEPTH :: nat where "PROBE_DEPTH = 8"

record slot =
  key_hash1 :: u64
  key_hash2 :: u64
  slot_generation :: u64
  dict_id :: int
  occupied :: "8 word"

definition default_slot :: slot where
  "default_slot = \<lparr>key_hash1 = 0, key_hash2 = 0, slot_generation = 0, dict_id = 0, occupied = 0\<rparr>"

record dcache =
  ready :: bool
  dtable :: "nat \<Rightarrow> slot"
  hits :: u64
  misses :: u64
  inserts :: u64
  evictions :: u64
  generation :: u64
  path_depth_truncations :: u64
  filter_clauses_dropped :: u64

definition init_in_postmaster :: dcache where
  "init_in_postmaster =
     \<lparr>ready = True, dtable = (\<lambda>_. default_slot), hits = 0, misses = 0, inserts = 0, evictions = 0,
      generation = 1, path_depth_truncations = 0, filter_clauses_dropped = 0\<rparr>"

section \<open>Operations\<close>

definition current_generation :: "dcache \<Rightarrow> u64" where
  "current_generation c = (if \<not> ready c then 0 else generation c)"

definition reset :: "dcache \<Rightarrow> dcache" where
  "reset c =
     (if \<not> ready c then c
      else c\<lparr>generation := generation c + 1, path_depth_truncations := 0,
             filter_clauses_dropped := 0\<rparr>)"

definition SEED_A :: u64 where "SEED_A = 0x9E3779B97F4A7C15"
definition SEED_B :: u64 where "SEED_B = 0xC4F17B5E9D0A3E27"

definition fingerprint :: "hasher \<Rightarrow> 32 word \<Rightarrow> dict_key \<Rightarrow> u64 \<times> u64" where
  "fingerprint hasher db k = (hasher SEED_A db k, hasher SEED_B db k)"

definition probe_idx :: "u64 \<Rightarrow> nat \<Rightarrow> nat" where
  "probe_idx h1 i = (unat h1 mod SLOTS + i) mod SLOTS"

definition slot_match :: "u64 \<Rightarrow> u64 \<times> u64 \<Rightarrow> slot \<Rightarrow> bool" where
  "slot_match gen h s \<longleftrightarrow>
     occupied s \<noteq> 0 \<and> slot_generation s = gen \<and> key_hash1 s = fst h \<and> key_hash2 s = snd h"

fun lookup_from :: "nat \<Rightarrow> nat \<Rightarrow> u64 \<Rightarrow> u64 \<times> u64 \<Rightarrow> (nat \<Rightarrow> slot) \<Rightarrow> int option" where
  "lookup_from 0 i gen h t = None"
| "lookup_from (Suc n) i gen h t =
     (let s = t (probe_idx (fst h) i) in
      if slot_match gen h s then Some (dict_id s) else lookup_from n (Suc i) gen h t)"

definition lookup_fp :: "u64 \<times> u64 \<Rightarrow> dcache \<Rightarrow> int option \<times> dcache" where
  "lookup_fp h c =
     (if \<not> ready c then (None, c)
      else case lookup_from PROBE_DEPTH 0 (current_generation c) h (dtable c) of
             Some v \<Rightarrow> (Some v, c\<lparr>hits := hits c + 1\<rparr>)
           | None \<Rightarrow> (None, c\<lparr>misses := misses c + 1\<rparr>))"

definition lookup :: "hasher \<Rightarrow> 32 word \<Rightarrow> dict_key \<Rightarrow> dcache \<Rightarrow> int option \<times> dcache" where
  "lookup hasher db k c = lookup_fp (fingerprint hasher db k) c"

definition fresh_slot :: "u64 \<Rightarrow> u64 \<times> u64 \<Rightarrow> int \<Rightarrow> slot" where
  "fresh_slot gen h v =
     \<lparr>key_hash1 = fst h, key_hash2 = snd h, slot_generation = gen, dict_id = v, occupied = 1\<rparr>"

fun insert_from :: "nat \<Rightarrow> nat \<Rightarrow> u64 \<Rightarrow> u64 \<times> u64 \<Rightarrow> int \<Rightarrow> dcache \<Rightarrow> dcache" where
  "insert_from 0 i gen h v c =
     c\<lparr>dtable := (dtable c)(unat (fst h) mod SLOTS := fresh_slot gen h v),
       evictions := evictions c + 1, inserts := inserts c + 1\<rparr>"
| "insert_from (Suc n) i gen h v c =
     (let idx = probe_idx (fst h) i; s = dtable c idx;
          slot_usable = (occupied s \<noteq> 0 \<and> slot_generation s = gen) in
      if \<not> slot_usable then
        c\<lparr>dtable := (dtable c)(idx := fresh_slot gen h v), inserts := inserts c + 1\<rparr>
      else if key_hash1 s = fst h \<and> key_hash2 s = snd h then
        c\<lparr>dtable := (dtable c)(idx := s\<lparr>dict_id := v\<rparr>)\<rparr>
      else insert_from n (Suc i) gen h v c)"

definition insert_slot :: "u64 \<times> u64 \<Rightarrow> int \<Rightarrow> dcache \<Rightarrow> dcache" where
  "insert_slot h v c = insert_from PROBE_DEPTH 0 (current_generation c) h v c"

definition insert_committed ::
    "hasher \<Rightarrow> 32 word \<Rightarrow> dict_key \<Rightarrow> int \<Rightarrow> dcache \<Rightarrow> dcache" where
  "insert_committed hasher db k v c =
     (if \<not> ready c then c else insert_slot (fingerprint hasher db k) v c)"

section \<open>What a lookup sees\<close>

definition view :: "dcache \<Rightarrow> u64 \<times> u64 \<Rightarrow> int option" where
  "view c h = fst (lookup_fp h c)"

definition live :: "dcache \<Rightarrow> nat \<Rightarrow> bool" where
  "live c i \<longleftrightarrow> occupied (dtable c i) \<noteq> 0 \<and> slot_generation (dtable c i) = generation c"

definition skey :: "slot \<Rightarrow> u64 \<times> u64" where
  "skey s = (key_hash1 s, key_hash2 s)"

text \<open>
  The table invariant: a live slot sits in the probe window of its key, every earlier slot of
  that window is live and holds another key.
\<close>

definition placed_at :: "dcache \<Rightarrow> nat \<Rightarrow> nat \<Rightarrow> bool" where
  "placed_at c i d \<longleftrightarrow>
     d < PROBE_DEPTH \<and> i = probe_idx (key_hash1 (dtable c i)) d \<and>
     (\<forall>e < d. live c (probe_idx (key_hash1 (dtable c i)) e) \<and>
              skey (dtable c (probe_idx (key_hash1 (dtable c i)) e)) \<noteq> skey (dtable c i))"

definition cache_inv :: "dcache \<Rightarrow> bool" where
  "cache_inv c \<longleftrightarrow> (\<forall>i. live c i \<longrightarrow> (\<exists>d. placed_at c i d))"

lemma current_generation_ready [simp]: "ready c \<Longrightarrow> current_generation c = generation c"
  by (simp add: current_generation_def)

lemma probe_idx_0: "probe_idx h 0 = unat h mod SLOTS"
  by (simp add: probe_idx_def)

lemma slot_match_live:
  "slot_match (generation c) h (dtable c i) \<longleftrightarrow> live c i \<and> skey (dtable c i) = h"
  by (cases h) (auto simp: slot_match_def live_def skey_def)

lemma skey_fresh [simp]: "skey (fresh_slot g h v) = h"
  by (simp add: skey_def fresh_slot_def)

lemma fresh_slot_simps [simp]:
  "key_hash1 (fresh_slot g h v) = fst h" "occupied (fresh_slot g h v) = 1"
  "slot_generation (fresh_slot g h v) = g" "dict_id (fresh_slot g h v) = v"
  by (simp_all add: fresh_slot_def)

lemma skey_dict_id [simp]: "skey (s\<lparr>dict_id := v\<rparr>) = skey s"
  by (simp add: skey_def)

text \<open>Two live slots never hold the same key.\<close>

lemma live_key_unique:
  assumes "cache_inv c" "live c i" "live c j" "skey (dtable c i) = skey (dtable c j)"
  shows "i = j"
proof -
  obtain d e where d: "placed_at c i d" and e: "placed_at c j e"
    using assms unfolding cache_inv_def by blast
  have k: "key_hash1 (dtable c i) = key_hash1 (dtable c j)"
    using assms(4) by (simp add: skey_def)
  consider "d < e" | "d = e" | "e < d" by linarith
  then show ?thesis
  proof cases
    case 1
    with d e k assms(4) show ?thesis unfolding placed_at_def by metis
  next
    case 2
    with d e k show ?thesis unfolding placed_at_def by metis
  next
    case 3
    with d e k assms(4) show ?thesis unfolding placed_at_def by metis
  qed
qed

section \<open>The probe loops as a search of the window\<close>

definition window :: "nat \<Rightarrow> nat \<Rightarrow> (nat \<Rightarrow> bool) \<Rightarrow> nat option" where
  "window i n P = List.find P [i..<i + n]"

lemma window_0 [simp]: "window i 0 P = None"
  by (simp add: window_def)

lemma window_Suc: "window i (Suc n) P = (if P i then Some i else window (Suc i) n P)"
  by (simp add: window_def upt_conv_Cons del: upt_Suc)

lemma window_None: "window i n P = None \<longleftrightarrow> (\<forall>j. i \<le> j \<and> j < i + n \<longrightarrow> \<not> P j)"
  by (auto simp: window_def find_None_iff)

lemma window_Some:
  "window i n P = Some j \<longleftrightarrow> i \<le> j \<and> j < i + n \<and> P j \<and> (\<forall>e. i \<le> e \<and> e < j \<longrightarrow> \<not> P e)"
proof (induction n arbitrary: i)
  case 0
  then show ?case by simp
next
  case (Suc n)
  show ?case
  proof (cases "P i")
    case True
    then show ?thesis by (auto simp: window_Suc not_le dest: le_neq_implies_less)
  next
    case False
    have "(\<forall>e. Suc i \<le> e \<and> e < j \<longrightarrow> \<not> P e) \<longleftrightarrow> (\<forall>e. i \<le> e \<and> e < j \<longrightarrow> \<not> P e)"
      using False by (metis Suc_leD le_neq_implies_less Suc_leI)
    moreover have "P j \<Longrightarrow> i \<le> j \<Longrightarrow> Suc i \<le> j"
      using False by (metis le_neq_implies_less Suc_leI)
    ultimately show ?thesis using False by (auto simp: window_Suc Suc.IH)
  qed
qed

lemma lookup_from_window:
  "lookup_from n i gen h t =
     map_option (\<lambda>j. dict_id (t (probe_idx (fst h) j)))
       (window i n (\<lambda>j. slot_match gen h (t (probe_idx (fst h) j))))"
  by (induction n arbitrary: i) (simp_all add: window_Suc Let_def)

lemma insert_from_window:
  "insert_from n i gen h v c =
     (case window i n (\<lambda>j. let s = dtable c (probe_idx (fst h) j) in
              \<not> (occupied s \<noteq> 0 \<and> slot_generation s = gen) \<or> skey s = h) of
        None \<Rightarrow>
          c\<lparr>dtable := (dtable c)(unat (fst h) mod SLOTS := fresh_slot gen h v),
            evictions := evictions c + 1, inserts := inserts c + 1\<rparr>
      | Some j \<Rightarrow>
          (let idx = probe_idx (fst h) j; s = dtable c idx in
           if \<not> (occupied s \<noteq> 0 \<and> slot_generation s = gen)
           then c\<lparr>dtable := (dtable c)(idx := fresh_slot gen h v), inserts := inserts c + 1\<rparr>
           else c\<lparr>dtable := (dtable c)(idx := s\<lparr>dict_id := v\<rparr>)\<rparr>))"
  by (induction n arbitrary: i) (auto simp: window_Suc Let_def skey_def prod_eq_iff)

lemma view_window:
  "ready c \<Longrightarrow> view c h =
     map_option (\<lambda>j. dict_id (dtable c (probe_idx (fst h) j)))
       (window 0 PROBE_DEPTH
          (\<lambda>j. live c (probe_idx (fst h) j) \<and> skey (dtable c (probe_idx (fst h) j)) = h))"
  by (simp add: view_def lookup_fp_def lookup_from_window slot_match_live split: option.splits)

text \<open>Under the invariant a lookup finds the one live slot of its key.\<close>

lemma view_iff:
  assumes "ready c" "cache_inv c"
  shows "view c h = Some v \<longleftrightarrow> (\<exists>i. live c i \<and> skey (dtable c i) = h \<and> dict_id (dtable c i) = v)"
proof
  assume "view c h = Some v"
  then show "\<exists>i. live c i \<and> skey (dtable c i) = h \<and> dict_id (dtable c i) = v"
    using assms(1) by (auto simp: view_window window_Some)
next
  assume "\<exists>i. live c i \<and> skey (dtable c i) = h \<and> dict_id (dtable c i) = v"
  then obtain i where i: "live c i" "skey (dtable c i) = h" "dict_id (dtable c i) = v" by blast
  obtain d where d: "placed_at c i d" using assms(2) i(1) unfolding cache_inv_def by blast
  have h: "key_hash1 (dtable c i) = fst h" using i(2) by (auto simp: skey_def)
  have "window 0 PROBE_DEPTH
          (\<lambda>j. live c (probe_idx (fst h) j) \<and> skey (dtable c (probe_idx (fst h) j)) = h) = Some d"
    using d i(1,2) h unfolding window_Some placed_at_def by auto
  moreover have "probe_idx (fst h) d = i" using d h unfolding placed_at_def by simp
  ultimately show "view c h = Some v" using assms(1) i(3) by (simp add: view_window)
qed

section \<open>Insertion\<close>

lemma insert_slot_window:
  assumes "ready c"
  shows "insert_slot h v c =
     (case window 0 PROBE_DEPTH (\<lambda>j. \<not> live c (probe_idx (fst h) j)
                  \<or> skey (dtable c (probe_idx (fst h) j)) = h) of
        None \<Rightarrow>
          c\<lparr>dtable := (dtable c)(probe_idx (fst h) 0 := fresh_slot (generation c) h v),
            evictions := evictions c + 1, inserts := inserts c + 1\<rparr>
      | Some j \<Rightarrow>
          (let idx = probe_idx (fst h) j in
           if \<not> live c idx
           then c\<lparr>dtable := (dtable c)(idx := fresh_slot (generation c) h v), inserts := inserts c + 1\<rparr>
           else c\<lparr>dtable := (dtable c)(idx := (dtable c idx)\<lparr>dict_id := v\<rparr>)\<rparr>))"
  unfolding insert_slot_def insert_from_window current_generation_ready[OF assms] live_def Let_def
    probe_idx_0 ..

text \<open>The three ways an insertion ends: a free slot, a refresh, an eviction.\<close>

lemma insert_slot_cases [consumes 1, case_names free refresh evict]:
  assumes "ready c"
  obtains j where "j < PROBE_DEPTH" "\<not> live c (probe_idx (fst h) j)"
      "\<forall>e < j. live c (probe_idx (fst h) e) \<and> skey (dtable c (probe_idx (fst h) e)) \<noteq> h"
      "insert_slot h v c =
         c\<lparr>dtable := (dtable c)(probe_idx (fst h) j := fresh_slot (generation c) h v),
           inserts := inserts c + 1\<rparr>"
  | j where "j < PROBE_DEPTH" "live c (probe_idx (fst h) j)"
      "skey (dtable c (probe_idx (fst h) j)) = h"
      "insert_slot h v c =
         c\<lparr>dtable := (dtable c)(probe_idx (fst h) j :=
             (dtable c (probe_idx (fst h) j))\<lparr>dict_id := v\<rparr>)\<rparr>"
  | "\<forall>e < PROBE_DEPTH. live c (probe_idx (fst h) e) \<and> skey (dtable c (probe_idx (fst h) e)) \<noteq> h"
      "insert_slot h v c =
         c\<lparr>dtable := (dtable c)(probe_idx (fst h) 0 := fresh_slot (generation c) h v),
           evictions := evictions c + 1, inserts := inserts c + 1\<rparr>"
proof -
  note eq = insert_slot_window[OF assms, of h v]
  show thesis
  proof (cases "window 0 PROBE_DEPTH (\<lambda>j. \<not> live c (probe_idx (fst h) j)
                  \<or> skey (dtable c (probe_idx (fst h) j)) = h)")
    case None
    show thesis
    proof (rule that(3))
      show "\<forall>e < PROBE_DEPTH. live c (probe_idx (fst h) e) \<and> skey (dtable c (probe_idx (fst h) e)) \<noteq> h"
        using None by (simp add: window_None)
    qed (use eq None in simp)
  next
    case (Some j)
    then have j: "j < PROBE_DEPTH" "\<not> live c (probe_idx (fst h) j) \<or> skey (dtable c (probe_idx (fst h) j)) = h"
      "\<forall>e < j. live c (probe_idx (fst h) e) \<and> skey (dtable c (probe_idx (fst h) e)) \<noteq> h"
      by (simp_all add: window_Some)
    show thesis
    proof (cases "live c (probe_idx (fst h) j)")
      case True
      with j eq Some show thesis by (intro that(2)[of j]) (auto simp: Let_def)
    next
      case False
      with j eq Some show thesis by (intro that(1)[of j]) (auto simp: Let_def)
    qed
  qed
qed

lemma insert_slot_frame:
  assumes "ready c"
  shows "ready (insert_slot h v c)" "generation (insert_slot h v c) = generation c"
  using assms by (cases rule: insert_slot_cases[of c h v]; simp)+

lemma insert_slot_inv:
  assumes "ready c" "cache_inv c"
  shows "cache_inv (insert_slot h v c)"
  using assms(1)
proof (cases rule: insert_slot_cases[of c h v])
  case (free j)
  let ?i = "probe_idx (fst h) j"
  have lv: "live (insert_slot h v c) i \<longleftrightarrow> live c i \<or> i = ?i" for i
    using free(4) by (auto simp: live_def)
  have tb: "i \<noteq> ?i \<Longrightarrow> dtable (insert_slot h v c) i = dtable c i" for i
    using free(4) by simp
  show ?thesis
    unfolding cache_inv_def
  proof (intro allI impI)
    fix i assume "live (insert_slot h v c) i"
    show "\<exists>d. placed_at (insert_slot h v c) i d"
    proof (cases "i = ?i")
      case True
      have "probe_idx (fst h) e \<noteq> ?i" if "e < j" for e using free(2,3) that by metis
      then have "placed_at (insert_slot h v c) i j"
        unfolding placed_at_def lv using free True by simp
      then show ?thesis ..
    next
      case False
      then obtain d where "placed_at c i d"
        using \<open>live (insert_slot h v c) i\<close> assms(2) lv cache_inv_def by blast
      moreover have "probe_idx (key_hash1 (dtable c i)) e \<noteq> ?i" if "e < d" for e
        using calculation free(2) that unfolding placed_at_def by metis
      ultimately have "placed_at (insert_slot h v c) i d"
        using tb unfolding placed_at_def lv tb[OF False] by simp
      then show ?thesis ..
    qed
  qed
next
  case (refresh j)
  have lv: "live (insert_slot h v c) i = live c i" for i
    using refresh(4) by (auto simp: live_def)
  have k: "skey (dtable (insert_slot h v c) i) = skey (dtable c i)" for i
    using refresh(4) by simp
  have k1: "key_hash1 (dtable (insert_slot h v c) i) = key_hash1 (dtable c i)" for i
    using k[of i] by (simp add: skey_def)
  show ?thesis
    using assms(2) unfolding cache_inv_def placed_at_def lv k k1 .
next
  case evict
  let ?i = "probe_idx (fst h) 0"
  have i0: "live c ?i" using evict(1) by (simp add: PROBE_DEPTH_def)
  have lv: "live (insert_slot h v c) i = live c i" for i
    using evict(2) i0 by (auto simp: live_def)
  have tb: "i \<noteq> ?i \<Longrightarrow> dtable (insert_slot h v c) i = dtable c i" for i
    using evict(2) by simp
  have nk: "live c i \<Longrightarrow> skey (dtable c i) \<noteq> h" for i
  proof
    assume l: "live c i" and k: "skey (dtable c i) = h"
    obtain d where "placed_at c i d" using assms(2) l unfolding cache_inv_def by blast
    then have "d < PROBE_DEPTH" "i = probe_idx (key_hash1 (dtable c i)) d"
      unfolding placed_at_def by blast+
    moreover have "key_hash1 (dtable c i) = fst h" using k by (auto simp: skey_def)
    ultimately show False using evict(1) k by metis
  qed
  show ?thesis
    unfolding cache_inv_def
  proof (intro allI impI)
    fix i assume "live (insert_slot h v c) i"
    then have li: "live c i" by (simp add: lv)
    show "\<exists>d. placed_at (insert_slot h v c) i d"
    proof (cases "i = ?i")
      case True
      have "placed_at (insert_slot h v c) ?i 0"
        unfolding placed_at_def evict(2) by (simp add: PROBE_DEPTH_def)
      then show ?thesis unfolding True ..
    next
      case False
      obtain d where d: "placed_at c i d" using li assms(2) cache_inv_def by blast
      have "skey (dtable (insert_slot h v c) (probe_idx (key_hash1 (dtable c i)) e))
              \<noteq> skey (dtable c i)" if "e < d" for e
      proof (cases "probe_idx (key_hash1 (dtable c i)) e = ?i")
        case True
        then show ?thesis unfolding evict(2) using nk[OF li] by simp
      next
        case False
        then show ?thesis using d that unfolding tb[OF False] placed_at_def by blast
      qed
      then have "placed_at (insert_slot h v c) i d"
        using d unfolding placed_at_def lv tb[OF False] by blast
      then show ?thesis ..
    qed
  qed
qed

lemma view_insert_same:
  assumes "ready c" "cache_inv c"
  shows "view (insert_slot h v c) h = Some v"
proof -
  have "\<exists>i. live (insert_slot h v c) i \<and> skey (dtable (insert_slot h v c) i) = h \<and>
            dict_id (dtable (insert_slot h v c) i) = v"
    using assms(1)
  proof (cases rule: insert_slot_cases[of c h v])
    case (free j)
    then show ?thesis by (intro exI[of _ "probe_idx (fst h) j"]) (simp add: live_def)
  next
    case (refresh j)
    then show ?thesis by (intro exI[of _ "probe_idx (fst h) j"]) (simp add: live_def)
  next
    case evict
    then show ?thesis by (intro exI[of _ "probe_idx (fst h) 0"]) (simp add: live_def)
  qed
  then show ?thesis
    using view_iff insert_slot_inv[OF assms] insert_slot_frame(1)[OF assms(1)] by blast
qed

lemma view_insert_other:
  assumes "ready c" "cache_inv c" "h' \<noteq> h" "view (insert_slot h v c) h' = Some w"
  shows "view c h' = Some w"
proof -
  obtain i where i: "live (insert_slot h v c) i" "skey (dtable (insert_slot h v c) i) = h'"
      "dict_id (dtable (insert_slot h v c) i) = w"
    using view_iff insert_slot_inv[OF assms(1,2)] insert_slot_frame(1)[OF assms(1)] assms(4)
    by blast
  have "live c i \<and> skey (dtable c i) = h' \<and> dict_id (dtable c i) = w"
    using assms(1)
  proof (cases rule: insert_slot_cases[of c h v])
    case (free j)
    with i assms(3) show ?thesis by (auto simp: live_def split: if_splits)
  next
    case (refresh j)
    with i assms(3) show ?thesis by (auto simp: live_def split: if_splits)
  next
    case evict
    with i assms(3) show ?thesis by (auto simp: live_def split: if_splits)
  qed
  then show ?thesis using view_iff assms(1,2) by blast
qed


section \<open>The cache as a bounded map\<close>

text \<open>
  What the dictionary relies on: an insertion is seen, and no insertion changes what another
  key resolves to, except that it may forget it.
\<close>

locale bounded_cache =
  fixes look :: "'c \<Rightarrow> 'k \<Rightarrow> 'v option"
    and ins :: "'k \<Rightarrow> 'v \<Rightarrow> 'c \<Rightarrow> 'c"
    and ok :: "'c \<Rightarrow> bool"
  assumes ins_ok: "ok c \<Longrightarrow> ok (ins k v c)"
    and look_same: "ok c \<Longrightarrow> look (ins k v c) k = Some v"
    and look_other: "ok c \<Longrightarrow> j \<noteq> k \<Longrightarrow> look (ins k v c) j = Some w \<Longrightarrow> look c j = Some w"
begin

lemma ins_sound:
  assumes "ok c" "\<forall>j w. look c j = Some w \<longrightarrow> R j w" "R k v"
  shows "\<forall>j w. look (ins k v c) j = Some w \<longrightarrow> R j w"
proof (intro allI impI)
  fix j w assume l: "look (ins k v c) j = Some w"
  show "R j w"
  proof (cases "j = k")
    case True
    with l look_same[OF assms(1)] assms(3) show ?thesis by simp
  next
    case False
    with look_other[OF assms(1) False l] assms(2) show ?thesis by blast
  qed
qed

text \<open>Publishing a list of entries that are all true leaves only true entries.\<close>

lemma publish_ok: "ok c \<Longrightarrow> ok (fold (\<lambda>e. ins (key e) (val e)) es c)"
  by (induction es arbitrary: c) (simp_all add: ins_ok)

lemma publish_sound:
  assumes "ok c" "\<forall>j w. look c j = Some w \<longrightarrow> R j w" "\<forall>e \<in> set es. R (key e) (val e)"
  shows "\<forall>j w. look (fold (\<lambda>e. ins (key e) (val e)) es c) j = Some w \<longrightarrow> R j w"
  using assms
proof (induction es arbitrary: c)
  case Nil
  then show ?case by simp
next
  case (Cons e es)
  have "\<forall>j w. look (ins (key e) (val e) c) j = Some w \<longrightarrow> R j w"
    by (rule ins_sound) (use Cons.prems in auto)
  moreover have "ok (ins (key e) (val e) c)" using Cons.prems(1) by (rule ins_ok)
  ultimately have "\<forall>j w. look (fold (\<lambda>e. ins (key e) (val e)) es (ins (key e) (val e) c)) j = Some w
      \<longrightarrow> R j w"
    using Cons.prems(3) by (intro Cons.IH) auto
  then show ?case by simp
qed

text \<open>The last entry published is resolvable.\<close>

lemma publish_last:
  assumes "ok c"
  shows "look (fold (\<lambda>e. ins (key e) (val e)) (es @ [e]) c) (key e) = Some (val e)"
  using look_same[OF publish_ok[OF assms, of key val es], of "key e" "val e"] by simp

end

interpretation shmem: bounded_cache view insert_slot "\<lambda>c. ready c \<and> cache_inv c"
  by unfold_locales
    (simp_all add: insert_slot_frame insert_slot_inv view_insert_same, blast dest: view_insert_other)

section \<open>Initial state, lookups and reset\<close>

lemma init_cache_inv: "cache_inv init_in_postmaster"
  by (simp add: cache_inv_def live_def init_in_postmaster_def default_slot_def)

lemma init_view: "view init_in_postmaster h = None"
proof -
  have "ready init_in_postmaster" by (simp add: init_in_postmaster_def)
  moreover have "\<not> live init_in_postmaster i" for i
    by (simp add: live_def init_in_postmaster_def default_slot_def)
  ultimately show ?thesis
    using view_iff[OF _ init_cache_inv, of h] by (cases "view init_in_postmaster h") auto
qed

lemma lookup_fp_cache [simp]:
  "dtable (snd (lookup_fp h c)) = dtable c" "generation (snd (lookup_fp h c)) = generation c"
  "ready (snd (lookup_fp h c)) = ready c"
  by (simp_all add: lookup_fp_def split: option.splits)

lemma lookup_fp_live [simp]: "live (snd (lookup_fp h c)) i = live c i"
  by (simp add: live_def)

lemma lookup_fp_inv [simp]: "cache_inv (snd (lookup_fp h c)) = cache_inv c"
  by (simp add: cache_inv_def placed_at_def)

lemma lookup_fp_view [simp]: "view (snd (lookup_fp h c)) h' = view c h'"
proof (cases "ready c")
  case True
  then show ?thesis by (simp add: view_window)
next
  case False
  then show ?thesis by (simp add: view_def lookup_fp_def)
qed

lemma view_not_ready [simp]: "\<not> ready c \<Longrightarrow> view c h = None"
  by (simp add: view_def lookup_fp_def)

text \<open>
  No slot comes from a later generation. This makes a reset total, and is kept by every
  operation as long as the 64-bit counter does not wrap.
\<close>

definition no_future :: "dcache \<Rightarrow> bool" where
  "no_future c \<longleftrightarrow> (\<forall>i. slot_generation (dtable c i) \<le> generation c)"

lemma no_future_init: "no_future init_in_postmaster"
  by (simp add: no_future_def init_in_postmaster_def default_slot_def)

lemma no_future_insert: "ready c \<Longrightarrow> no_future c \<Longrightarrow> no_future (insert_slot h v c)"
  by (cases rule: insert_slot_cases[of c h v]) (auto simp: no_future_def fresh_slot_def)

lemma word_less_succ:
  fixes g :: "'a::len word"
  assumes "g \<noteq> - 1"
  shows "g < g + 1"
proof -
  have "g + 1 \<noteq> 0" using assms by (metis eq_neg_iff_add_eq_0)
  then have "unat (g + 1) = Suc (unat g)" by (metis unat_plus_simple word_le_nat_alt
        Suc_eq_plus1 unat_1 unatSuc add.commute)
  then show ?thesis by (simp add: word_less_nat_alt)
qed

lemma reset_cold:
  assumes "ready c" "no_future c" "generation c \<noteq> - 1"
  shows "\<not> live (reset c) i"
proof -
  have "generation c < generation c + 1" by (rule word_less_succ[OF assms(3)])
  moreover have "slot_generation (dtable c i) \<le> generation c"
    using assms(2) by (simp add: no_future_def)
  ultimately show ?thesis using assms(1) by (auto simp: live_def reset_def)
qed

lemma reset_inv:
  assumes "ready c" "no_future c" "generation c \<noteq> - 1"
  shows "cache_inv (reset c)" "view (reset c) h = None" "no_future (reset c)"
proof -
  show inv: "cache_inv (reset c)" using reset_cold[OF assms] by (simp add: cache_inv_def)
  have r: "ready (reset c)" using assms(1) by (simp add: reset_def)
  show "view (reset c) h = None"
    using view_iff[OF r inv, of h] reset_cold[OF assms] by (cases "view (reset c) h") auto
  have "generation c \<le> generation c + 1" using word_less_succ[OF assms(3)] by simp
  then show "no_future (reset c)"
    using assms(1,2) by (auto simp: no_future_def reset_def intro: order_trans)
qed


section \<open>Properties\<close>

text \<open>After inserting a pair, a lookup of that key returns it and the table invariant still
  holds; a lookup of any other key that returns an id returned the same id before, so an
  insertion (a probe, a refresh or the eviction of the canonical slot) never makes another key
  resolve to something new.
\<close>

theorem insert_then_lookup:
  assumes "ready c" "cache_inv c"
  shows "cache_inv (insert_slot h v c) \<and>
     fst (lookup_fp h (insert_slot h v c)) = Some v \<and>
     (\<forall>h' w. h' \<noteq> h \<longrightarrow> fst (lookup_fp h' (insert_slot h v c)) = Some w \<longrightarrow>
             fst (lookup_fp h' c) = Some w)"
  using shmem.ins_ok[of c h v] shmem.look_same[of c h v] shmem.look_other[of c _ h v] assms
  unfolding view_def by blast

theorem insert_then_lookup_witness:
  "fst (lookup_fp (5, 7) (insert_slot (5, 7) 42 init_in_postmaster)) = Some 42"
  using insert_then_lookup[of init_in_postmaster "(5, 7)" 42] init_cache_inv
  by (simp add: init_in_postmaster_def)

text \<open>\<open>shmem_reset\<close> invalidates the whole table: as long as the 64-bit generation does not wrap,
  no key resolves after it, and the invariants that make the next reset total are kept.
\<close>

theorem reset_forgets_all:
  assumes "ready c" "no_future c" "generation c \<noteq> - 1"
  shows "fst (lookup_fp h (reset c)) = None \<and> cache_inv (reset c) \<and> no_future (reset c)"
  using reset_inv[OF assms] by (simp add: view_def)

theorem reset_forgets_all_witness:
  "fst (lookup_fp (5, 7) (reset (insert_slot (5, 7) 42 init_in_postmaster))) = None"
proof -
  let ?c = "insert_slot (5, 7) 42 init_in_postmaster"
  have r: "ready init_in_postmaster" by (simp add: init_in_postmaster_def)
  have "generation ?c \<noteq> - 1"
    by (simp add: insert_slot_frame[OF r]) (simp add: init_in_postmaster_def)
  then show ?thesis
    using reset_forgets_all[of ?c "(5, 7)"] insert_slot_frame[OF r]
      no_future_insert[OF r no_future_init] r by simp
qed

end
