(* ===== verification/Dictionary.thy ===== *)
theory Dictionary
  imports Dict_Cache
begin

text \<open>
  The dictionary (\<open>src/storage/dict.rs\<close>) and the transactional half of
  \<open>src/storage/shmem_cache.rs\<close>: interning a term through the cache, the SELECT and the INSERT;
  staging the resolved pair until COMMIT; the COMMIT, ABORT and AbortSub callbacks; the prewarm of
  stats.rs. Several backends, each connected to one database, share the cache. Rows inserted by an
  open transaction belong to a subtransaction: committing it hands them to its parent, aborting it
  deletes them (PostgreSQL's rule). A table is a list of rows; a SELECT sees the committed rows
  and the backend's own.
\<close>

section \<open>State\<close>

record dict_row =
  row_id :: int
  row_key :: dict_key

type_synonym pending_entry = "(u64 \<times> u64) \<times> int \<times> nat"  \<comment> \<open>fingerprint, dict id, subxact id\<close>

record backend =
  bdb :: "32 word"
  pending :: "pending_entry list"
  registered :: bool
  inflight :: "(dict_row \<times> nat) list"   \<comment> \<open>own uncommitted rows with the owning subtransaction\<close>
  subs :: "nat list"                      \<comment> \<open>open subtransactions, innermost first\<close>
  next_sub :: nat

record world =
  cache :: dcache
  rows :: "32 word \<Rightarrow> dict_row list"
  next_id :: "32 word \<Rightarrow> int"
  backends :: "nat \<Rightarrow> backend"

definition idle_backend :: "32 word \<Rightarrow> backend" where
  "idle_backend db = \<lparr>bdb = db, pending = [], registered = False, inflight = [],
                      subs = [1], next_sub = 2\<rparr>"

definition init_world :: "(nat \<Rightarrow> 32 word) \<Rightarrow> world" where
  "init_world db_of =
     \<lparr>cache = init_in_postmaster, rows = (\<lambda>_. []), next_id = (\<lambda>_. 1),
      backends = (\<lambda>b. idle_backend (db_of b))\<rparr>"

definition visible :: "world \<Rightarrow> nat \<Rightarrow> dict_row list" where
  "visible w b = rows w (bdb (backends w b)) @ map fst (inflight (backends w b))"

definition set_backend :: "nat \<Rightarrow> backend \<Rightarrow> world \<Rightarrow> world" where
  "set_backend b bk w = w\<lparr>backends := (backends w)(b := bk)\<rparr>"

section \<open>Staging and the transaction callbacks\<close>

definition stage_for_commit :: "hasher \<Rightarrow> nat \<Rightarrow> dict_key \<Rightarrow> int \<Rightarrow> world \<Rightarrow> world" where
  "stage_for_commit hasher b k v w =
     (if \<not> ready (cache w) then w
      else let bk = backends w b in
        set_backend b
          (bk\<lparr>pending := pending bk @ [(fingerprint hasher (bdb bk) k, v, hd (subs bk))],
              registered := True\<rparr>) w)"

definition flush_pending :: "pending_entry list \<Rightarrow> dcache \<Rightarrow> dcache" where
  "flush_pending es c = fold (\<lambda>e. insert_slot (fst e) (fst (snd e))) es c"

text \<open>
  COMMIT makes the rows durable, then runs the callback if it was registered; ABORT drops both.
  Either way the next transaction starts with the top-level subtransaction only.
\<close>

definition xact_commit :: "nat \<Rightarrow> world \<Rightarrow> world" where
  "xact_commit b w =
     (let bk = backends w b; db = bdb bk;
          w1 = w\<lparr>rows := (rows w)(db := rows w db @ map fst (inflight bk))\<rparr>;
          w2 = (if registered bk then w1\<lparr>cache := flush_pending (pending bk) (cache w1)\<rparr> else w1)
      in set_backend b (bk\<lparr>pending := (if registered bk then [] else pending bk),
                           registered := False, inflight := [], subs := [1], next_sub := 2\<rparr>) w2)"

definition xact_abort :: "nat \<Rightarrow> world \<Rightarrow> world" where
  "xact_abort b w =
     (let bk = backends w b in
      set_backend b (bk\<lparr>pending := (if registered bk then [] else pending bk),
                        registered := False, inflight := [], subs := [1], next_sub := 2\<rparr>) w)"

definition begin_sub :: "nat \<Rightarrow> world \<Rightarrow> world" where
  "begin_sub b w =
     (let bk = backends w b in
      set_backend b (bk\<lparr>subs := next_sub bk # subs bk, next_sub := next_sub bk + 1\<rparr>) w)"

definition commit_sub :: "nat \<Rightarrow> world \<Rightarrow> world" where
  "commit_sub b w =
     (let bk = backends w b in
      case subs bk of
        s # p # rest \<Rightarrow>
          set_backend b (bk\<lparr>subs := p # rest,
             inflight := map (\<lambda>(r, t). (r, if t = s then p else t)) (inflight bk)\<rparr>) w
      | _ \<Rightarrow> w)"

definition on_abort_sub :: "nat \<Rightarrow> pending_entry list \<Rightarrow> pending_entry list" where
  "on_abort_sub my_subid es = filter (\<lambda>e. snd (snd e) < my_subid) es"

definition abort_sub :: "nat \<Rightarrow> world \<Rightarrow> world" where
  "abort_sub b w =
     (let bk = backends w b in
      case subs bk of
        s # p # rest \<Rightarrow>
          set_backend b (bk\<lparr>subs := p # rest,
             inflight := filter (\<lambda>e. snd e \<noteq> s) (inflight bk),
             pending := (if registered bk then on_abort_sub s (pending bk) else pending bk)\<rparr>) w
      | _ \<Rightarrow> w)"

section \<open>Interning\<close>

definition insert_row :: "nat \<Rightarrow> dict_key \<Rightarrow> world \<Rightarrow> int \<times> world" where
  "insert_row b k w =
     (let bk = backends w b; db = bdb bk; i = next_id w db in
      (i, set_backend b (bk\<lparr>inflight := inflight bk @ [(\<lparr>row_id = i, row_key = k\<rparr>, hd (subs bk))]\<rparr>)
            (w\<lparr>next_id := (next_id w)(db := i + 1)\<rparr>)))"

definition put_term_full :: "hasher \<Rightarrow> nat \<Rightarrow> dict_key \<Rightarrow> world \<Rightarrow> int \<times> world" where
  "put_term_full hasher b k w =
     (case lookup hasher (bdb (backends w b)) k (cache w) of
        (Some i, c) \<Rightarrow> (i, w\<lparr>cache := c\<rparr>)
      | (None, c) \<Rightarrow>
          (let w = w\<lparr>cache := c\<rparr> in
           case find (\<lambda>r. row_key r = k) (visible w b) of
             Some r \<Rightarrow> (row_id r, stage_for_commit hasher b k (row_id r) w)
           | None \<Rightarrow>
               (let (i, w') = insert_row b k w in (i, stage_for_commit hasher b k i w'))))"

definition put_term :: "hasher \<Rightarrow> nat \<Rightarrow> string \<Rightarrow> int \<Rightarrow> world \<Rightarrow> int \<times> world" where
  "put_term hasher b value ttype w = put_term_full hasher b (ttype, value, None, None) w"

definition get_term :: "nat \<Rightarrow> int \<Rightarrow> world \<Rightarrow> string option" where
  "get_term b i w =
     map_option (\<lambda>r. fst (snd (row_key r))) (find (\<lambda>r. row_id r = i) (visible w b))"

text \<open>
  The batch: one INSERT of the keys the table lacked before the statement, one lookup that
  assigns every matching row's id to its input position, the last one winning.
\<close>

definition put_terms_batch :: "nat \<Rightarrow> dict_key list \<Rightarrow> world \<Rightarrow> int list \<times> world" where
  "put_terms_batch b terms w =
     (if terms = [] then ([], w)
      else
        (let missing = filter (\<lambda>k. find (\<lambda>r. row_key r = k) (visible w b) = None) terms;
             w' = fold (\<lambda>k w. snd (insert_row b k w)) missing w;
             joined = concat (map (\<lambda>t. map (\<lambda>r. (fst t, row_id r))
                        (filter (\<lambda>r. row_key r = snd t) (visible w' b))) (enumerate 0 terms))
         in (write_all joined (replicate (length terms) 0), w')))"

definition shmem_cache_prewarm :: "hasher \<Rightarrow> nat \<Rightarrow> nat \<Rightarrow> world \<Rightarrow> nat \<times> world" where
  "shmem_cache_prewarm hasher b limit w =
     (let table = take limit (sort_key row_id (visible w b)) in
      (length table, fold (\<lambda>r. stage_for_commit hasher b (row_key r) (row_id r)) table w))"

definition shmem_reset :: "world \<Rightarrow> world" where
  "shmem_reset w = w\<lparr>cache := reset (cache w)\<rparr>"

section \<open>Steps\<close>

text \<open>
  One step is one engine call of one backend (interning, the batch, the prewarm, a bare cache
  lookup, publishing a row the backend sees), or one transaction event. A subtransaction can only
  end while it is open; COMMIT comes when only the top-level one is. The reset step carries the
  assumption that the 64-bit generation has not wrapped.
\<close>

inductive wstep :: "hasher \<Rightarrow> world \<Rightarrow> world \<Rightarrow> bool" for hasher where
  put: "wstep hasher w (snd (put_term_full hasher b k w))"
| batch: "wstep hasher w (snd (put_terms_batch b ks w))"
| prewarm: "wstep hasher w (snd (shmem_cache_prewarm hasher b n w))"
| look: "wstep hasher w (w\<lparr>cache := snd (lookup hasher (bdb (backends w b)) k (cache w))\<rparr>)"
| stage: "r \<in> set (visible w b) \<Longrightarrow>
    wstep hasher w (stage_for_commit hasher b (row_key r) (row_id r) w)"
| subbegin: "wstep hasher w (begin_sub b w)"
| subcommit: "wstep hasher w (commit_sub b w)"
| subabort: "wstep hasher w (abort_sub b w)"
| commit: "subs (backends w b) = [1] \<Longrightarrow> wstep hasher w (xact_commit b w)"
| abort: "wstep hasher w (xact_abort b w)"
| reset: "generation (cache w) \<noteq> - 1 \<Longrightarrow> wstep hasher w (shmem_reset w)"

inductive reachable :: "hasher \<Rightarrow> (nat \<Rightarrow> 32 word) \<Rightarrow> world \<Rightarrow> bool" for hasher db_of where
  init: "reachable hasher db_of (init_world db_of)"
| step: "reachable hasher db_of w \<Longrightarrow> wstep hasher w w' \<Longrightarrow> reachable hasher db_of w'"

section \<open>The invariant\<close>

text \<open>A committed row of \<open>db\<close> backs the pair \<open>(h, v)\<close>.\<close>

definition backed :: "hasher \<Rightarrow> world \<Rightarrow> 32 word \<Rightarrow> u64 \<times> u64 \<Rightarrow> int \<Rightarrow> bool" where
  "backed hasher w db h v \<longleftrightarrow>
     (\<exists>r \<in> set (rows w db). row_id r = v \<and> fingerprint hasher db (row_key r) = h)"

definition cache_ok :: "hasher \<Rightarrow> world \<Rightarrow> bool" where
  "cache_ok hasher w \<longleftrightarrow>
     ready (cache w) \<and> cache_inv (cache w) \<and> no_future (cache w) \<and>
     (\<forall>h v. view (cache w) h = Some v \<longrightarrow> (\<exists>db. backed hasher w db h v))"

text \<open>
  A pending entry is backed by a committed row, or by a row of this transaction owned by a
  subtransaction not younger than the entry's tag: whatever abort deletes the row deletes the
  entry too.
\<close>

definition entry_ok :: "hasher \<Rightarrow> world \<Rightarrow> nat \<Rightarrow> pending_entry \<Rightarrow> bool" where
  "entry_ok hasher w b e \<longleftrightarrow>
     (let bk = backends w b; (h, v, sx) = e in
      backed hasher w (bdb bk) h v \<or>
      (\<exists>(r, t) \<in> set (inflight bk). row_id r = v \<and> fingerprint hasher (bdb bk) (row_key r) = h
          \<and> t \<le> sx))"

definition backend_ok :: "hasher \<Rightarrow> world \<Rightarrow> nat \<Rightarrow> bool" where
  "backend_ok hasher w b \<longleftrightarrow>
     (let bk = backends w b in
      subs bk \<noteq> [] \<and> sorted_wrt (>) (subs bk) \<and> (\<forall>s \<in> set (subs bk). s < next_sub bk) \<and>
      (\<forall>(r, t) \<in> set (inflight bk). t \<in> set (subs bk)) \<and>
      (pending bk \<noteq> [] \<longrightarrow> registered bk) \<and>
      (\<forall>e \<in> set (pending bk). entry_ok hasher w b e))"

definition world_ok :: "hasher \<Rightarrow> world \<Rightarrow> bool" where
  "world_ok hasher w \<longleftrightarrow> cache_ok hasher w \<and> (\<forall>b. backend_ok hasher w b)"


lemma set_backend_simps [simp]:
  "backends (set_backend b bk w) b' = (if b' = b then bk else backends w b')"
  "cache (set_backend b bk w) = cache w" "rows (set_backend b bk w) = rows w"
  "next_id (set_backend b bk w) = next_id w"
  by (simp_all add: set_backend_def)

definition rows_grow :: "world \<Rightarrow> world \<Rightarrow> bool" where
  "rows_grow w w' \<longleftrightarrow> (\<forall>db. set (rows w db) \<subseteq> set (rows w' db))"

lemma rows_grow_refl [simp]: "rows w' = rows w \<Longrightarrow> rows_grow w w'"
  by (simp add: rows_grow_def)

lemma backed_mono: "rows_grow w w' \<Longrightarrow> backed hasher w db h v \<Longrightarrow> backed hasher w' db h v"
  unfolding rows_grow_def backed_def by blast

lemma backend_ok_mono:
  assumes "backend_ok hasher w b" "rows_grow w w'" "backends w' b = backends w b"
  shows "backend_ok hasher w' b"
  using assms backed_mono[OF assms(2)]
  unfolding backend_ok_def entry_ok_def Let_def by fastforce

lemma cache_ok_mono:
  "cache_ok hasher w \<Longrightarrow> rows_grow w w' \<Longrightarrow> cache w' = cache w \<Longrightarrow> cache_ok hasher w'"
  unfolding cache_ok_def using backed_mono by metis

text \<open>A step that changes one backend, and adds rows at most.\<close>

lemma world_ok_update:
  assumes "world_ok hasher w" "rows_grow w w'" "cache w' = cache w"
    and "\<And>b'. b' \<noteq> b \<Longrightarrow> backends w' b' = backends w b'" "backend_ok hasher w' b"
  shows "world_ok hasher w'"
  unfolding world_ok_def
proof (intro conjI allI)
  show "cache_ok hasher w'"
    using assms(1-3) cache_ok_mono unfolding world_ok_def by blast
  fix b' show "backend_ok hasher w' b'"
  proof (cases "b' = b")
    case False
    then show ?thesis using assms(1,2,4) backend_ok_mono unfolding world_ok_def by blast
  qed (use assms(5) in simp)
qed

lemma backend_okD:
  assumes "world_ok hasher w"
  shows "subs (backends w b) \<noteq> []" "sorted_wrt (>) (subs (backends w b))"
    "\<forall>s \<in> set (subs (backends w b)). s < next_sub (backends w b)"
    "\<forall>(r, t) \<in> set (inflight (backends w b)). t \<in> set (subs (backends w b))"
    "\<not> registered (backends w b) \<Longrightarrow> pending (backends w b) = []"
    "\<forall>e \<in> set (pending (backends w b)). entry_ok hasher w b e"
  using assms unfolding world_ok_def backend_ok_def Let_def by auto

lemma hd_subs_max:
  "sorted_wrt (>) (ss :: nat list) \<Longrightarrow> t \<in> set ss \<Longrightarrow> t \<le> hd ss"
  by (cases ss) auto

lemma stage_world_ok:
  assumes "world_ok hasher w" and "r \<in> set (visible w b)"
  shows "world_ok hasher (stage_for_commit hasher b (row_key r) (row_id r) w)"
proof (cases "ready (cache w)")
  case False
  with assms show ?thesis by (simp add: stage_for_commit_def)
next
  case True
  let ?w' = "stage_for_commit hasher b (row_key r) (row_id r) w"
  note bk = backend_okD[OF assms(1), of b]
  have "entry_ok hasher w b (fingerprint hasher (bdb (backends w b)) (row_key r), row_id r,
           hd (subs (backends w b)))"
  proof (cases "r \<in> set (rows w (bdb (backends w b)))")
    case True
    then show ?thesis by (auto simp: entry_ok_def backed_def Let_def)
  next
    case False
    then obtain t where t: "(r, t) \<in> set (inflight (backends w b))"
      using assms(2) by (auto simp: visible_def)
    then have "t \<le> hd (subs (backends w b))" using bk(2,4) hd_subs_max by fast
    with t show ?thesis by (auto simp: entry_ok_def Let_def)
  qed
  then have "backend_ok hasher ?w' b"
    using True bk unfolding backend_ok_def stage_for_commit_def entry_ok_def backed_def Let_def
    by auto
  then show ?thesis
    by (intro world_ok_update[OF assms(1), of ?w' b])
      (use True in \<open>simp_all add: stage_for_commit_def Let_def\<close>)
qed

lemma insert_row_world_ok:
  assumes "world_ok hasher w"
  shows "world_ok hasher (snd (insert_row b k w))"
proof -
  let ?w' = "snd (insert_row b k w)"
  note bk = backend_okD[OF assms, of b]
  have "backend_ok hasher ?w' b"
    using bk unfolding backend_ok_def insert_row_def entry_ok_def backed_def Let_def
    by (auto; fastforce)
  then show ?thesis
    by (intro world_ok_update[OF assms, of ?w' b]) (simp_all add: insert_row_def Let_def)
qed

lemma insert_row_visible:
  "\<lparr>row_id = next_id w (bdb (backends w b)), row_key = k\<rparr> \<in> set (visible (snd (insert_row b k w)) b)"
  by (simp add: insert_row_def visible_def Let_def)

lemma lookup_world_ok:
  assumes "world_ok hasher w"
  shows "world_ok hasher (w\<lparr>cache := snd (lookup_fp h (cache w))\<rparr>)"
  using assms
  unfolding world_ok_def backend_ok_def entry_ok_def backed_def cache_ok_def no_future_def Let_def
  by simp

lemma put_world_ok:
  assumes "world_ok hasher w"
  shows "world_ok hasher (snd (put_term_full hasher b k w))"
proof -
  obtain res c where l: "lookup hasher (bdb (backends w b)) k (cache w) = (res, c)"
    by fastforce
  have c: "world_ok hasher (w\<lparr>cache := c\<rparr>)"
    using lookup_world_ok[OF assms] l unfolding lookup_def by (metis snd_conv)
  show ?thesis
  proof (cases res)
    case (Some i)
    with l c show ?thesis by (simp add: put_term_full_def)
  next
    case None
    show ?thesis
    proof (cases "find (\<lambda>r. row_key r = k) (visible (w\<lparr>cache := c\<rparr>) b)")
      case (Some r)
      then have "r \<in> set (visible (w\<lparr>cache := c\<rparr>) b)" "row_key r = k"
        by (auto simp: find_Some_iff)
      then show ?thesis
        using stage_world_ok[OF c] None l Some by (auto simp: put_term_full_def Let_def)
    next
      case fN: None
      let ?r = "\<lparr>row_id = next_id w (bdb (backends w b)), row_key = k\<rparr>"
      have "world_ok hasher (stage_for_commit hasher b (row_key ?r) (row_id ?r)
              (snd (insert_row b k (w\<lparr>cache := c\<rparr>))))"
        by (rule stage_world_ok[OF insert_row_world_ok[OF c]])
          (use insert_row_visible[of "w\<lparr>cache := c\<rparr>" b k] in simp)
      then show ?thesis
        using None l fN by (simp add: put_term_full_def Let_def insert_row_def)
    qed
  qed
qed

lemma batch_world_ok:
  assumes "world_ok hasher w"
  shows "world_ok hasher (snd (put_terms_batch b ks w))"
  unfolding put_terms_batch_def Let_def
  using assms by (auto intro!: fold_invariant[where P = "world_ok hasher"] insert_row_world_ok)

lemma stage_visible: "visible (stage_for_commit hasher b k v w) b' = visible w b'"
  by (simp add: stage_for_commit_def visible_def Let_def)

lemma prewarm_world_ok:
  assumes "world_ok hasher w"
  shows "world_ok hasher (snd (shmem_cache_prewarm hasher b n w))"
proof -
  let ?t = "take n (sort_key row_id (visible w b))"
  let ?P = "\<lambda>w'. world_ok hasher w' \<and> visible w' b = visible w b"
  have sub: "set ?t \<subseteq> set (visible w b)"
    using set_take_subset by fastforce
  have "?P (fold (\<lambda>r. stage_for_commit hasher b (row_key r) (row_id r)) ?t w)"
  proof (rule fold_invariant[where P = ?P])
    fix r w' assume "r \<in> set ?t" "?P w'"
    then show "?P (stage_for_commit hasher b (row_key r) (row_id r) w')"
      using sub stage_world_ok stage_visible by auto
  qed (simp add: assms)
  then show ?thesis by (simp add: shmem_cache_prewarm_def Let_def)
qed

lemma begin_sub_world_ok:
  assumes "world_ok hasher w"
  shows "world_ok hasher (begin_sub b w)"
proof -
  note bk = backend_okD[OF assms, of b]
  have "backend_ok hasher (begin_sub b w) b"
    using bk unfolding backend_ok_def begin_sub_def entry_ok_def backed_def Let_def by auto
  then show ?thesis
    by (intro world_ok_update[OF assms, of _ b]) (simp_all add: begin_sub_def Let_def)
qed

lemma commit_sub_world_ok:
  assumes "world_ok hasher w"
  shows "world_ok hasher (commit_sub b w)"
proof (cases "\<exists>s p rest. subs (backends w b) = s # p # rest")
  case False
  then have "commit_sub b w = w"
    by (auto simp: commit_sub_def Let_def split: list.splits)
  with assms show ?thesis by simp
next
  case True
  then obtain s p rest where sub: "subs (backends w b) = s # p # rest" by blast
  note bk = backend_okD[OF assms, of b]
  have ps: "p < s" using bk(2) sub by simp
  have e: "entry_ok hasher (commit_sub b w) b e" if "e \<in> set (pending (backends w b))" for e
  proof -
    have "entry_ok hasher w b e" using bk(6) that by blast
    then show ?thesis
      using ps sub unfolding entry_ok_def backed_def commit_sub_def Let_def
      by (cases e) (auto; force)
  qed
  have "backend_ok hasher (commit_sub b w) b"
    using bk sub e unfolding backend_ok_def Let_def by (auto simp: commit_sub_def Let_def; fastforce)
  then show ?thesis
    by (intro world_ok_update[OF assms, of _ b]) (simp_all add: commit_sub_def Let_def sub)
qed

lemma abort_sub_world_ok:
  assumes "world_ok hasher w"
  shows "world_ok hasher (abort_sub b w)"
proof (cases "\<exists>s p rest. subs (backends w b) = s # p # rest")
  case False
  then have "abort_sub b w = w"
    by (auto simp: abort_sub_def Let_def split: list.splits)
  with assms show ?thesis by simp
next
  case True
  then obtain s p rest where sub: "subs (backends w b) = s # p # rest" by blast
  note bk = backend_okD[OF assms, of b]
  have e: "entry_ok hasher (abort_sub b w) b e"
    if "e \<in> set (pending (backends w b))" "snd (snd e) < s" for e
  proof -
    have "entry_ok hasher w b e" using bk(6) that(1) by blast
    then show ?thesis
      using that(2) sub unfolding entry_ok_def backed_def abort_sub_def Let_def
      by (cases e) (auto; force)
  qed
  have "backend_ok hasher (abort_sub b w) b"
    using bk sub e unfolding backend_ok_def Let_def
    by (auto simp: abort_sub_def on_abort_sub_def Let_def)
  then show ?thesis
    by (intro world_ok_update[OF assms, of _ b]) (simp_all add: abort_sub_def Let_def sub)
qed

lemma abort_world_ok:
  assumes "world_ok hasher w"
  shows "world_ok hasher (xact_abort b w)"
proof -
  note bk = backend_okD[OF assms, of b]
  have "backend_ok hasher (xact_abort b w) b"
    using bk(5) unfolding backend_ok_def xact_abort_def Let_def by auto
  then show ?thesis
    by (intro world_ok_update[OF assms, of _ b]) (simp_all add: xact_abort_def Let_def)
qed

lemma flush_no_future:
  "ready c \<Longrightarrow> no_future c \<Longrightarrow> no_future (flush_pending es c) \<and> ready (flush_pending es c)"
  unfolding flush_pending_def
  by (induction es arbitrary: c) (simp_all add: no_future_insert insert_slot_frame)

lemma flush_sound:
  assumes "ready c" "cache_inv c" "\<forall>h v. view c h = Some v \<longrightarrow> R h v"
    and "\<forall>e \<in> set es. R (fst e) (fst (snd e))"
  shows "cache_inv (flush_pending es c)" "\<forall>h v. view (flush_pending es c) h = Some v \<longrightarrow> R h v"
  using shmem.publish_ok[of c fst "\<lambda>e. fst (snd e)" es]
    shmem.publish_sound[of c R es fst "\<lambda>e. fst (snd e)"] assms
  unfolding flush_pending_def by auto

lemma commit_world_ok:
  assumes "world_ok hasher w" "subs (backends w b) = [1]"
  shows "world_ok hasher (xact_commit b w)"
proof -
  let ?w' = "xact_commit b w"
  note bk = backend_okD[OF assms(1), of b]
  have c: "cache_ok hasher w" using assms(1) by (simp add: world_ok_def)
  have grow: "rows_grow w ?w'" by (auto simp: rows_grow_def xact_commit_def Let_def)
  have pend: "\<forall>e \<in> set (pending (backends w b)).
      backed hasher ?w' (bdb (backends w b)) (fst e) (fst (snd e))"
  proof
    fix e assume "e \<in> set (pending (backends w b))"
    then have "entry_ok hasher w b e" using bk(6) by blast
    then show "backed hasher ?w' (bdb (backends w b)) (fst e) (fst (snd e))"
      unfolding entry_ok_def backed_def xact_commit_def Let_def by (cases e) force
  qed
  have "cache_ok hasher ?w'"
  proof (cases "registered (backends w b)")
    case False
    then have "cache ?w' = cache w" by (simp add: xact_commit_def Let_def)
    then show ?thesis using cache_ok_mono[OF c grow] by blast
  next
    case True
    then have cw: "cache ?w' = flush_pending (pending (backends w b)) (cache w)"
      by (simp add: xact_commit_def Let_def)
    let ?R = "\<lambda>h v. \<exists>db. backed hasher ?w' db h v"
    have "\<forall>h v. view (cache w) h = Some v \<longrightarrow> ?R h v"
      using c backed_mono[OF grow] unfolding cache_ok_def by blast
    moreover have "\<forall>e \<in> set (pending (backends w b)). ?R (fst e) (fst (snd e))"
      using pend by blast
    ultimately show ?thesis
      using flush_sound[of "cache w" ?R "pending (backends w b)"] c
        flush_no_future[of "cache w" "pending (backends w b)"]
      unfolding cache_ok_def cw by blast
  qed
  moreover have "backend_ok hasher ?w' b'" for b'
  proof (cases "b' = b")
    case True
    then show ?thesis
      using bk(5) by (auto simp: backend_ok_def xact_commit_def Let_def)
  next
    case False
    have "backends ?w' b' = backends w b'" using False by (simp add: xact_commit_def Let_def)
    then show ?thesis
      using backend_ok_mono[OF _ grow] assms(1) unfolding world_ok_def by blast
  qed
  ultimately show ?thesis by (simp add: world_ok_def)
qed

lemma reset_world_ok:
  assumes "world_ok hasher w" "generation (cache w) \<noteq> - 1"
  shows "world_ok hasher (shmem_reset w)"
proof -
  have c: "ready (cache w)" "no_future (cache w)"
    using assms(1) by (auto simp: world_ok_def cache_ok_def)
  have "cache_ok hasher (shmem_reset w)"
    using reset_inv[OF c assms(2)] c(1) by (simp add: cache_ok_def shmem_reset_def reset_def)
  moreover have "backend_ok hasher (shmem_reset w) b" for b
    using backend_ok_mono[of hasher w b "shmem_reset w"] assms(1)
    by (simp add: world_ok_def shmem_reset_def)
  ultimately show ?thesis by (simp add: world_ok_def)
qed

lemma wstep_world_ok: "wstep hasher w w' \<Longrightarrow> world_ok hasher w \<Longrightarrow> world_ok hasher w'"
  by (induction rule: wstep.induct)
    (simp_all add: lookup_def lookup_world_ok stage_world_ok put_world_ok batch_world_ok prewarm_world_ok begin_sub_world_ok
      commit_sub_world_ok abort_sub_world_ok commit_world_ok abort_world_ok reset_world_ok)

lemma init_world_ok: "world_ok hasher (init_world db_of)"
  by (auto simp: world_ok_def cache_ok_def backend_ok_def init_world_def idle_backend_def Let_def
      init_cache_inv no_future_init init_view)
    (simp add: init_in_postmaster_def)

lemma reachable_world_ok: "reachable hasher db_of w \<Longrightarrow> world_ok hasher w"
  by (induction rule: reachable.induct) (auto intro: init_world_ok wstep_world_ok)


section \<open>Ids are never shared\<close>

definition own_ids :: "world \<Rightarrow> nat \<Rightarrow> int list" where
  "own_ids w b = map (\<lambda>e. row_id (fst e)) (inflight (backends w b))"

definition ids_ok :: "world \<Rightarrow> bool" where
  "ids_ok w \<longleftrightarrow>
     (\<forall>db. distinct (map row_id (rows w db)) \<and> (\<forall>r \<in> set (rows w db). row_id r < next_id w db)) \<and>
     (\<forall>b. distinct (own_ids w b) \<and> (\<forall>i \<in> set (own_ids w b).
            i < next_id w (bdb (backends w b)) \<and> i \<notin> row_id ` set (rows w (bdb (backends w b))))) \<and>
     (\<forall>b b'. b \<noteq> b' \<and> bdb (backends w b) = bdb (backends w b') \<longrightarrow>
            set (own_ids w b) \<inter> set (own_ids w b') = {})"

definition same_ids :: "world \<Rightarrow> world \<Rightarrow> bool" where
  "same_ids w w' \<longleftrightarrow> rows w' = rows w \<and> next_id w' = next_id w \<and>
     (\<forall>b. bdb (backends w' b) = bdb (backends w b) \<and> own_ids w' b = own_ids w b)"

lemma same_ids_refl [simp]: "same_ids w w"
  by (simp add: same_ids_def)

lemma same_ids_ok: "same_ids w w' \<Longrightarrow> ids_ok w \<Longrightarrow> ids_ok w'"
  unfolding same_ids_def ids_ok_def by metis

lemma stage_same_ids: "same_ids w (stage_for_commit hasher b k v w)"
  by (simp add: same_ids_def stage_for_commit_def own_ids_def Let_def)

lemma cache_same_ids: "same_ids w (w\<lparr>cache := c\<rparr>)"
  by (simp add: same_ids_def own_ids_def)

lemma ids_okD:
  assumes "ids_ok w"
  shows "distinct (map row_id (rows w db))"
    "r \<in> set (rows w db) \<Longrightarrow> row_id r < next_id w db"
    "distinct (own_ids w b)"
    "i \<in> set (own_ids w b) \<Longrightarrow> i < next_id w (bdb (backends w b))"
    "i \<in> set (own_ids w b) \<Longrightarrow> r' \<in> set (rows w (bdb (backends w b))) \<Longrightarrow> row_id r' \<noteq> i"
    "b \<noteq> b' \<Longrightarrow> bdb (backends w b) = bdb (backends w b') \<Longrightarrow> i \<in> set (own_ids w b) \<Longrightarrow>
     i \<notin> set (own_ids w b')"
  using assms unfolding ids_ok_def by blast+

lemma ids_okI:
  assumes "\<And>db. distinct (map row_id (rows w db))"
    and "\<And>db r. r \<in> set (rows w db) \<Longrightarrow> row_id r < next_id w db"
    and "\<And>b. distinct (own_ids w b)"
    and "\<And>b i. i \<in> set (own_ids w b) \<Longrightarrow> i < next_id w (bdb (backends w b))"
    and "\<And>b i r. i \<in> set (own_ids w b) \<Longrightarrow> r \<in> set (rows w (bdb (backends w b))) \<Longrightarrow> row_id r \<noteq> i"
    and "\<And>b b' i. b \<noteq> b' \<Longrightarrow> bdb (backends w b) = bdb (backends w b') \<Longrightarrow>
           i \<in> set (own_ids w b) \<Longrightarrow> i \<in> set (own_ids w b') \<Longrightarrow> False"
  shows "ids_ok w"
  using assms unfolding ids_ok_def by (fastforce simp: image_iff)

lemma insert_row_ids_ok:
  assumes "ids_ok w"
  shows "ids_ok (snd (insert_row b k w))"
proof -
  let ?w = "snd (insert_row b k w)" and ?db = "bdb (backends w b)"
  have r: "rows ?w = rows w" and n: "next_id ?w = (next_id w)(?db := next_id w ?db + 1)"
    and d: "\<And>b'. bdb (backends ?w b') = bdb (backends w b')"
    and o: "\<And>b'. own_ids ?w b' = (if b' = b then own_ids w b @ [next_id w ?db] else own_ids w b')"
    by (simp_all add: insert_row_def own_ids_def Let_def)
  have lt: "i < next_id w (bdb (backends w b'))" if "i \<in> set (own_ids w b')" for i b'
    by (rule ids_okD(4)[OF assms that])
  show ?thesis
  proof (rule ids_okI, goal_cases)
    case (1 db)
    then show ?case using ids_okD(1)[OF assms] by (simp add: r)
  next
    case (2 db x)
    then show ?case using ids_okD(2)[OF assms, of x db] by (auto simp: r n)
  next
    case (3 b')
    then show ?case using ids_okD(3)[OF assms] lt[of _ b] by (auto simp: o)
  next
    case (4 b' i)
    then show ?case using lt[of i b'] by (auto simp: o n d dest: lt split: if_splits)
  next
    case (5 b' i x)
    then show ?case using ids_okD(5)[OF assms, of i b' x] ids_okD(2)[OF assms, of x ?db]
      by (auto simp: o r d split: if_splits)
  next
    case (6 b1 b2 i)
    then show ?case using ids_okD(6)[OF assms, of b1 b2 i] lt[of i b1] lt[of i b2]
      by (auto simp: o d split: if_splits)
  qed
qed

lemma fewer_ids_ok:
  assumes "ids_ok w" "rows w' = rows w" "next_id w' = next_id w"
    and "\<And>b. bdb (backends w' b) = bdb (backends w b)"
    and "\<And>b. set (own_ids w' b) \<subseteq> set (own_ids w b)" "\<And>b. distinct (own_ids w' b)"
  shows "ids_ok w'"
proof (rule ids_okI, goal_cases)
  case (4 b i)
  then show ?case using ids_okD(4)[OF assms(1), of i b] assms(3-5) by auto
next
  case (5 b i r)
  then show ?case using ids_okD(5)[OF assms(1), of i b r] assms(2,4,5) by auto
next
  case (6 b1 b2 i)
  then show ?case using ids_okD(6)[OF assms(1), of b1 b2 i] assms(4,5) by auto
qed (use ids_okD(1,2)[OF assms(1)] assms(2,3,6) in auto)

lemma abort_ids_ok: "ids_ok w \<Longrightarrow> ids_ok (xact_abort b w)"
  by (rule fewer_ids_ok[of w]) (auto simp: xact_abort_def own_ids_def Let_def ids_ok_def)

lemma distinct_map_filter': "distinct (map f xs) \<Longrightarrow> distinct (map f (filter P xs))"
  by (induction xs) auto

lemma abort_sub_ids_ok:
  assumes "ids_ok w"
  shows "ids_ok (abort_sub b w)"
proof (rule fewer_ids_ok[OF assms])
  fix b'
  show "distinct (own_ids (abort_sub b w) b')"
    using ids_okD(3)[OF assms, of b'] ids_okD(3)[OF assms, of b]
    by (auto simp: abort_sub_def own_ids_def Let_def distinct_map_filter' split: list.splits)
qed (auto simp: abort_sub_def own_ids_def Let_def split: list.splits)

lemma commit_sub_ids_ok: "ids_ok w \<Longrightarrow> ids_ok (commit_sub b w)"
proof (rule same_ids_ok)
  show "same_ids w (commit_sub b w)"
    by (auto simp: same_ids_def commit_sub_def own_ids_def Let_def comp_def split: list.splits
        prod.splits)
qed

lemma commit_ids_ok:
  assumes "ids_ok w"
  shows "ids_ok (xact_commit b w)"
proof -
  let ?db = "bdb (backends w b)"
  have r: "rows (xact_commit b w) = (rows w)(?db := rows w ?db @ map fst (inflight (backends w b)))"
    and n: "next_id (xact_commit b w) = next_id w"
    and d: "\<And>b'. bdb (backends (xact_commit b w) b') = bdb (backends w b')"
    and o: "\<And>b'. own_ids (xact_commit b w) b' = (if b' = b then [] else own_ids w b')"
    by (simp_all add: xact_commit_def own_ids_def Let_def)
  have own: "map row_id (map fst (inflight (backends w b))) = own_ids w b"
    by (simp add: own_ids_def)
  have mem: "row_id x \<in> set (own_ids w b)" if "x \<in> set (map fst (inflight (backends w b)))" for x
    using that by (auto simp: own_ids_def)
  have new: "distinct (map row_id (rows w ?db @ map fst (inflight (backends w b))))"
    using ids_okD(1,3)[OF assms] ids_okD(5)[OF assms, of _ b]
    unfolding map_append own distinct_append by auto
  show ?thesis
  proof (rule ids_okI, goal_cases)
    case (1 db)
    show ?case using ids_okD(1)[OF assms] new by (simp only: r fun_upd_apply split: if_split) blast
  next
    case (2 db x)
    show ?case
    proof (cases "x \<in> set (rows w db)")
      case True
      then show ?thesis using ids_okD(2)[OF assms True] n by simp
    next
      case False
      with 2 have "db = ?db" "x \<in> set (map fst (inflight (backends w b)))"
        by (auto simp: r split: if_splits)
      then show ?thesis using ids_okD(4)[OF assms mem] n by simp
    qed
  next
    case (3 b')
    then show ?case using ids_okD(3)[OF assms] by (simp add: o)
  next
    case (4 b' i)
    then show ?case using ids_okD(4)[OF assms, of i b'] by (auto simp: o n d split: if_splits)
  next
    case (5 b' i x)
    then have i: "i \<in> set (own_ids w b')" "b' \<noteq> b" by (auto simp: o split: if_splits)
    show ?case
    proof (cases "x \<in> set (rows w (bdb (backends w b')))")
      case True
      then show ?thesis using ids_okD(5)[OF assms i(1)] by blast
    next
      case False
      with 5 have "bdb (backends w b') = ?db" "x \<in> set (map fst (inflight (backends w b)))"
        by (auto simp: r d split: if_splits)
      then show ?thesis using ids_okD(6)[OF assms i(2) _ i(1)] mem by blast
    qed
  next
    case (6 b1 b2 i)
    then show ?case using ids_okD(6)[OF assms, of b1 b2 i] by (auto simp: o d split: if_splits)
  qed
qed

lemma put_ids_ok:
  assumes "ids_ok w"
  shows "ids_ok (snd (put_term_full hasher b k w))"
proof -
  have c: "ids_ok (w\<lparr>cache := c\<rparr>)" for c
    using same_ids_ok[OF cache_same_ids assms] .
  have st: "ids_ok (stage_for_commit hasher b k v w')" if "ids_ok w'" for v w'
    using same_ids_ok[OF stage_same_ids that] .
  have ins: "ids_ok (snd (insert_row b k (w\<lparr>cache := c\<rparr>)))" for c
    using insert_row_ids_ok[OF c] .
  show ?thesis
    unfolding put_term_full_def Let_def
    using c st ins by (auto split: option.splits prod.splits) (metis snd_conv)+
qed

lemma wstep_ids_ok: "wstep hasher w w' \<Longrightarrow> ids_ok w \<Longrightarrow> ids_ok w'"
proof (induction rule: wstep.induct)
  case (put w b k)
  then show ?case by (rule put_ids_ok)
next
  case (batch w b ks)
  then show ?case unfolding put_terms_batch_def Let_def
    by (auto intro!: fold_invariant[where P = ids_ok] insert_row_ids_ok)
next
  case (prewarm w b n)
  then show ?case unfolding shmem_cache_prewarm_def Let_def
    by (auto intro!: fold_invariant[where P = ids_ok] same_ids_ok[OF stage_same_ids])
next
  case (look w b k)
  then show ?case using same_ids_ok[OF cache_same_ids] by blast
next
  case (stage r w b)
  then show ?case using same_ids_ok[OF stage_same_ids] by blast
next
  case (subbegin w b)
  have "same_ids w (begin_sub b w)" by (simp add: same_ids_def begin_sub_def own_ids_def Let_def)
  then show ?case using subbegin same_ids_ok by blast
next
  case (reset w)
  have "same_ids w (shmem_reset w)" by (simp add: same_ids_def shmem_reset_def own_ids_def)
  then show ?case using reset(2) same_ids_ok by blast
qed (simp_all add: commit_sub_ids_ok abort_sub_ids_ok commit_ids_ok abort_ids_ok)

lemma reachable_ids_ok: "reachable hasher db_of w \<Longrightarrow> ids_ok w"
proof (induction rule: reachable.induct)
  case init
  then show ?case by (simp add: ids_ok_def init_world_def idle_backend_def own_ids_def)
qed (rule wstep_ids_ok)

lemma ids_ok_visible: "ids_ok w \<Longrightarrow> distinct (map row_id (visible w b))"
proof -
  assume ok: "ids_ok w"
  have "map row_id (map fst (inflight (backends w b))) = own_ids w b"
    by (simp add: own_ids_def)
  then show ?thesis
    using ids_okD(1,3)[OF ok] ids_okD(5)[OF ok, of _ b]
    unfolding visible_def map_append distinct_append by auto
qed

lemma find_unique_id:
  "distinct (map row_id rs) \<Longrightarrow> r \<in> set rs \<Longrightarrow> find (\<lambda>x. row_id x = row_id r) rs = Some r"
  by (induction rs) force+

lemma get_term_visible:
  assumes "ids_ok w" "r \<in> set (visible w b)"
  shows "get_term b (row_id r) w = Some (fst (snd (row_key r)))"
  using find_unique_id[OF ids_ok_visible[OF assms(1)] assms(2)] by (simp add: get_term_def)


section \<open>Properties\<close>

text \<open>
  The hypothesis about the unspecified hash: the two 64-bit halves of the key at hand collide with
  no other key stored in any database.
\<close>

definition no_collision :: "hasher \<Rightarrow> world \<Rightarrow> 32 word \<Rightarrow> dict_key \<Rightarrow> bool" where
  "no_collision hasher w db k \<longleftrightarrow>
     (\<forall>db'. \<forall>r \<in> set (rows w db'). fingerprint hasher db' (row_key r) = fingerprint hasher db k
        \<longrightarrow> db' = db \<and> row_key r = k)"

lemma cached_id_is_committed_aux:
  assumes "world_ok hasher w" "no_collision hasher w db k"
    and "fst (lookup hasher db k (cache w)) = Some v"
  shows "\<exists>r \<in> set (rows w db). row_id r = v \<and> row_key r = k"
proof -
  have "view (cache w) (fingerprint hasher db k) = Some v"
    using assms(3) by (simp add: lookup_def view_def)
  then obtain db' where "backed hasher w db' (fingerprint hasher db k) v"
    using assms(1) unfolding world_ok_def cache_ok_def by blast
  then show ?thesis using assms(2) unfolding backed_def no_collision_def by blast
qed

text \<open>C3: in every reachable state (any interleaving of interning, batches, prewarms, savepoints,
  commits, aborts and resets by any number of backends on any number of databases), an id the
  shared cache returns for a key is the id of a committed row of that key in that database. No
  rolled-back row, and no row of another database, is ever served.
\<close>

theorem cached_id_is_committed:
  assumes "reachable hasher db_of w" "no_collision hasher w db k"
    and "fst (lookup hasher db k (cache w)) = Some v"
  shows "\<exists>r \<in> set (rows w db). row_id r = v \<and> row_key r = k"
  using cached_id_is_committed_aux[OF reachable_world_ok[OF assms(1)] assms(2,3)] .

definition toy_hasher :: hasher where
  "toy_hasher seed db k = of_int (fst k) + of_nat (length (fst (snd k)))"

definition toy_world :: world where
  "toy_world = xact_commit 0 (snd (put_term_full toy_hasher 0 (1, ''ex:p'', None, None)
                 (init_world (\<lambda>_. 1))))"

lemma toy_reachable: "reachable toy_hasher (\<lambda>_. 1) toy_world"
  unfolding toy_world_def
proof (rule reachable.step[OF reachable.step[OF reachable.init wstep.put] wstep.commit])
  show "subs (backends (snd (put_term_full toy_hasher 0 (1, ''ex:p'', None, None)
          (init_world (\<lambda>_. 1)))) 0) = [1]"
    by (simp add: put_term_full_def lookup_def lookup_fp_def init_world_def idle_backend_def
        insert_row_def stage_for_commit_def visible_def Let_def set_backend_def
        split: option.splits prod.splits)
qed

lemma toy_world_eval:
  "rows toy_world = (\<lambda>_. [])(1 := [\<lparr>row_id = 1, row_key = (1, ''ex:p'', None, None)\<rparr>])"
  "fst (lookup toy_hasher 1 (1, ''ex:p'', None, None) (cache toy_world)) = Some 1"
proof -
  let ?k = "(1, ''ex:p'', None, None) :: dict_key"
  have l: "lookup toy_hasher 1 ?k init_in_postmaster =
      (None, init_in_postmaster\<lparr>misses := misses init_in_postmaster + 1\<rparr>)"
    using init_view[of "fingerprint toy_hasher 1 ?k"]
    by (auto simp: view_def lookup_def lookup_fp_def init_in_postmaster_def split: option.splits)
  have "snd (put_term_full toy_hasher 0 ?k (init_world (\<lambda>_. 1))) =
      stage_for_commit toy_hasher 0 ?k 1 (snd (insert_row 0 ?k
        (init_world (\<lambda>_. 1)\<lparr>cache := init_in_postmaster\<lparr>misses := misses init_in_postmaster + 1\<rparr>\<rparr>)))"
    using l by (simp add: put_term_full_def init_world_def idle_backend_def visible_def
        insert_row_def Let_def)
  then have w: "toy_world = xact_commit 0 (stage_for_commit toy_hasher 0 ?k 1 (snd (insert_row 0 ?k
        (init_world (\<lambda>_. 1)\<lparr>cache := init_in_postmaster\<lparr>misses := misses init_in_postmaster + 1\<rparr>\<rparr>))))"
    by (simp add: toy_world_def)
  show "rows toy_world = (\<lambda>_. [])(1 := [\<lparr>row_id = 1, row_key = ?k\<rparr>])"
    unfolding w by (simp add: xact_commit_def stage_for_commit_def insert_row_def init_world_def
        idle_backend_def init_in_postmaster_def Let_def)
  let ?c = "init_in_postmaster\<lparr>misses := misses init_in_postmaster + 1\<rparr>"
  have c: "cache toy_world = insert_slot (fingerprint toy_hasher 1 ?k) 1 ?c"
    unfolding w by (simp add: xact_commit_def stage_for_commit_def insert_row_def init_world_def
        idle_backend_def init_in_postmaster_def Let_def flush_pending_def)
  have "ready ?c \<and> cache_inv ?c"
    by (simp add: cache_inv_def live_def init_in_postmaster_def default_slot_def)
  then show "fst (lookup toy_hasher 1 ?k (cache toy_world)) = Some 1"
    using shmem.look_same[of ?c "fingerprint toy_hasher 1 ?k" 1]
    unfolding c lookup_def view_def by simp
qed

lemma toy_no_collision: "no_collision toy_hasher toy_world 1 (1, ''ex:p'', None, None)"
  by (simp add: no_collision_def toy_world_eval(1))

theorem cached_id_is_committed_witness:
  "\<exists>r \<in> set (rows toy_world 1). row_id r = 1 \<and> row_key r = (1, ''ex:p'', None, None)"
  by (rule cached_id_is_committed[OF toy_reachable toy_no_collision toy_world_eval(2)])

text \<open>
  What \<open>put_term_full\<close> leaves for its caller, on each of its three paths.
\<close>

lemma put_row:
  assumes "world_ok hasher w" "no_collision hasher w (bdb (backends w b)) k"
    and "put_term_full hasher b k w = (i, w')"
  shows "\<exists>r \<in> set (visible w' b). row_id r = i \<and> row_key r = k"
proof -
  let ?db = "bdb (backends w b)"
  obtain res c where l: "lookup hasher ?db k (cache w) = (res, c)" by fastforce
  show ?thesis
  proof (cases res)
    case (Some v)
    then have "i = v" "w' = w\<lparr>cache := c\<rparr>" using assms(3) l by (simp_all add: put_term_full_def)
    moreover have "\<exists>r \<in> set (rows w ?db). row_id r = v \<and> row_key r = k"
      using cached_id_is_committed_aux[OF assms(1,2)] l Some by simp
    ultimately show ?thesis by (auto simp: visible_def)
  next
    case None
    show ?thesis
    proof (cases "find (\<lambda>r. row_key r = k) (visible (w\<lparr>cache := c\<rparr>) b)")
      case (Some r)
      then have "r \<in> set (visible (w\<lparr>cache := c\<rparr>) b)" "row_key r = k"
        by (auto simp: find_Some_iff)
      moreover have "i = row_id r" "w' = stage_for_commit hasher b k (row_id r) (w\<lparr>cache := c\<rparr>)"
        using assms(3) l None Some by (auto simp: put_term_full_def Let_def)
      ultimately show ?thesis by (metis stage_visible)
    next
      case fN: None
      then have "i = next_id w ?db"
        "w' = stage_for_commit hasher b k i (snd (insert_row b k (w\<lparr>cache := c\<rparr>)))"
        using assms(3) l None by (auto simp: put_term_full_def Let_def insert_row_def)
      then show ?thesis
        using insert_row_visible[of "w\<lparr>cache := c\<rparr>" b k] by (force simp: stage_visible)
    qed
  qed
qed

text \<open>C34: the id \<open>put_term\<close> returns is the dictionary's: read back in the same transaction with
  \<open>get_term\<close> it gives the interned string, whether it came from the cache, the table or a fresh
  row.
\<close>

theorem put_then_get:
  assumes "reachable hasher db_of w"
    and "no_collision hasher w (bdb (backends w b)) (ttype, value, None, None)"
    and "put_term hasher b value ttype w = (i, w')"
  shows "get_term b i w' = Some value"
proof -
  have p: "put_term_full hasher b (ttype, value, None, None) w = (i, w')"
    using assms(3) by (simp add: put_term_def)
  obtain r where r: "r \<in> set (visible w' b)" "row_id r = i" "row_key r = (ttype, value, None, None)"
    using put_row[OF reachable_world_ok[OF assms(1)] assms(2) p] by blast
  have "ids_ok w'" using put_ids_ok[OF reachable_ids_ok[OF assms(1)]] p by (metis snd_conv)
  then show ?thesis using get_term_visible[of w' r b] r by simp
qed

theorem put_then_get_witness:
  "get_term 0 (fst (put_term toy_hasher 0 ''ex:p'' 1 toy_world))
      (snd (put_term toy_hasher 0 ''ex:p'' 1 toy_world)) = Some ''ex:p''"
proof (rule put_then_get[OF toy_reachable])
  have "bdb (backends toy_world 0) = 1"
    by (simp add: toy_world_def xact_commit_def Let_def put_term_full_def stage_for_commit_def
        insert_row_def init_world_def idle_backend_def split: option.splits prod.splits)
  then show "no_collision toy_hasher toy_world (bdb (backends toy_world 0)) (1, ''ex:p'', None, None)"
    using toy_no_collision by simp
qed simp

text \<open>Interning is idempotent: a second \<open>put_term_full\<close> of the same key in the same state returns
  the same id.
\<close>

theorem put_idempotent:
  "fst (put_term_full hasher b k (snd (put_term_full hasher b k w)))
     = fst (put_term_full hasher b k w)"
proof -
  let ?h = "fingerprint hasher (bdb (backends w b)) k"
  let ?c = "snd (lookup_fp ?h (cache w))"
  have l: "lookup hasher (bdb (backends w b)) k (cache w) = (view (cache w) ?h, ?c)"
    by (simp add: lookup_def view_def)
  have l': "lookup hasher (bdb (backends w b)) k ?c = (view (cache w) ?h, snd (lookup_fp ?h ?c))"
    using lookup_fp_view[of ?h "cache w" ?h] by (simp add: lookup_def view_def prod_eq_iff)
  show ?thesis
  proof (cases "view (cache w) ?h")
    case (Some v)
    then show ?thesis using l l' by (simp add: put_term_full_def)
  next
    case None
    show ?thesis
    proof (cases "find (\<lambda>r. row_key r = k) (visible w b)")
      case (Some r)
      then show ?thesis using l l' None
        by (auto simp: put_term_full_def Let_def stage_for_commit_def visible_def)
    next
      case fN: None
      then have "find (\<lambda>r. row_key r = k) (visible w b @ [\<lparr>row_id = i, row_key = k\<rparr>])
          = Some \<lparr>row_id = i, row_key = k\<rparr>" for i
        by (simp add: find_snoc)
      then show ?thesis using l l' None fN
        by (auto simp: put_term_full_def Let_def stage_for_commit_def visible_def insert_row_def)
    qed
  qed
qed


lemma insert_row_eq:
  "visible (snd (insert_row b k w)) b
     = visible w b @ [\<lparr>row_id = next_id w (bdb (backends w b)), row_key = k\<rparr>]"
  by (simp add: insert_row_def visible_def Let_def)

lemma insert_rows_visible:
  "\<exists>new. visible (fold (\<lambda>k w. snd (insert_row b k w)) ks w) b = visible w b @ new
         \<and> map row_key new = ks"
proof (induction ks arbitrary: w)
  case Nil
  then show ?case by simp
next
  case (Cons k ks)
  from Cons[of "snd (insert_row b k w)"] show ?case by (auto simp: insert_row_eq)
qed

lemma batch_resolves_aux:
  assumes "put_terms_batch b ks w = (ids, w')"
  shows "length ids = length ks \<and>
     (\<forall>i < length ks. \<exists>r \<in> set (visible w' b). row_id r = ids ! i \<and> row_key r = ks ! i) \<and>
     (distinct ks \<and> distinct (map row_key (visible w b)) \<longrightarrow> distinct (map row_key (visible w' b)))"
proof (cases "ks = []")
  case True
  then show ?thesis using assms by (auto simp: put_terms_batch_def)
next
  case False
  let ?missing = "filter (\<lambda>k. find (\<lambda>r. row_key r = k) (visible w b) = None) ks"
  let ?joined = "concat (map (\<lambda>t. map (\<lambda>r. (fst t, row_id r))
                   (filter (\<lambda>r. row_key r = snd t) (visible w' b))) (enumerate 0 ks))"
  have w': "w' = fold (\<lambda>k w. snd (insert_row b k w)) ?missing w"
    and ids: "ids = write_all ?joined (replicate (length ks) 0)"
    using assms False by (auto simp: put_terms_batch_def Let_def)
  obtain new where new: "visible w' b = visible w b @ new" "map row_key new = ?missing"
    using insert_rows_visible[of b ?missing w] w' by blast
  have found: "\<exists>r \<in> set (visible w' b). row_key r = k" if "k \<in> set ks" for k
  proof (cases "find (\<lambda>r. row_key r = k) (visible w b)")
    case None
    then have "k \<in> set (map row_key new)" using that new(2) by simp
    then show ?thesis using new(1) by auto
  next
    case (Some r)
    then show ?thesis using new(1) by (auto simp: find_Some_iff)
  qed
  have pos: "(i, v) \<in> set ?joined \<longleftrightarrow>
      i < length ks \<and> (\<exists>r \<in> set (visible w' b). row_key r = ks ! i \<and> row_id r = v)" for i v
    by (auto simp: in_set_enumerate_eq image_iff Bex_def)
  have "\<exists>r \<in> set (visible w' b). row_id r = ids ! i \<and> row_key r = ks ! i" if "i < length ks" for i
  proof -
    obtain r where "r \<in> set (visible w' b)" "row_key r = ks ! i"
      using found[of "ks ! i"] \<open>i < length ks\<close> by auto
    then have "(i, row_id r) \<in> set ?joined" using pos that by blast
    then have "(i, ids ! i) \<in> set ?joined"
      unfolding ids using that by (intro write_all_mem) auto
    then show ?thesis using pos by blast
  qed
  moreover have "distinct (map row_key (visible w' b))"
    if "distinct ks" "distinct (map row_key (visible w b))"
    using that new by (auto simp: find_None_iff)
  ultimately show ?thesis using ids by simp
qed

text \<open>The batch resolves every input position to a row of that position's key, and if the input
  holds no key twice it adds no second row for a key: a dictionary with one row per key keeps it.
\<close>

theorem batch_resolves:
  assumes "put_terms_batch b ks w = (ids, w')"
  shows "length ids = length ks \<and>
     (\<forall>i < length ks. \<exists>r \<in> set (visible w' b). row_id r = ids ! i \<and> row_key r = ks ! i) \<and>
     (distinct ks \<and> distinct (map row_key (visible w b)) \<longrightarrow> distinct (map row_key (visible w' b)))"
  by (rule batch_resolves_aux[OF assms])

theorem batch_resolves_witness:
  "length (fst (put_terms_batch 0 [(1, ''a'', None, None), (1, ''ex:p'', None, None)] toy_world)) = 2"
  using batch_resolves[of 0 "[(1, ''a'', None, None), (1, ''ex:p'', None, None)]" toy_world]
  by (metis (no_types) length_Cons list.size(3) numeral_2_eq_2 prod.collapse)

end
