(* ===== verification/Graph_Store.thy ===== *)
theory Graph_Store
  imports Dictionary
begin

text \<open>
  The quad store and its graph registry: \<open>src/storage/hexastore.rs\<close> (put_quad, count_quads,
  the three add_graph overloads, create_graph), \<open>graphs.rs\<close> (lookup, drop, move, clear, copy,
  carve), \<open>partition.rs\<close> (partition creation, the graph-id sequence, the privilege gates),
  \<open>lock.rs\<close> (the write fence and its triggers), \<open>freshness.rs\<close>, \<open>source_digest.rs\<close> and the
  row computation of \<open>inventory.rs\<close>. A statement is a function of the store: \<open>Inl\<close> is a refusal
  (the transaction rolls back), \<open>Inr\<close> the result and the new store. The tables are lists of rows;
  the dedicated partition \<open>_pgrdf_quads_g<id>\<close> is the rows of graph \<open>id\<close> once \<open>id\<close> is in
  \<open>parts\<close>, every other row is in the default partition. Of PostgreSQL's own errors the model has
  the ones the tables' constraints raise: a unique IRI, and the refusal to create a partition
  while the default partition holds its rows. The privileges of the session user that the gates
  ask for are a record; graph ids are unbounded.
\<close>

section \<open>State\<close>

record quad =
  qs :: int
  qp :: int
  qo :: int
  qg :: int
  qinf :: bool

record grow =
  gid :: int
  giri :: string
  glocked :: bool
  greason :: "string option"
  gdigest :: "string option"     \<comment> \<open>locked_digest\<close>
  gmat :: "nat option"           \<comment> \<open>last_materialize_at\<close>
  gbase :: "int option"          \<comment> \<open>materialized_base_count\<close>
  gsha :: "string option"        \<comment> \<open>source_sha256\<close>
  gloads :: "int option"         \<comment> \<open>source_loads\<close>

record store =
  quads :: "quad list"
  parts :: "int list"
  graphs :: "grow list"
  trow :: "int list"             \<comment> \<open>partitions with the trigger pgrdf_lock_row\<close>
  ttrunc :: "int list"           \<comment> \<open>partitions with the trigger pgrdf_lock_truncate\<close>
  gseq :: "(int \<times> bool) option"  \<comment> \<open>graph-id sequence: last_value, is_called\<close>

record privs =
  sel_quads :: bool
  ins_quads :: bool
  del_quads :: bool
  sel_graphs :: bool
  ins_graphs :: bool
  del_graphs :: bool
  seq_usable :: bool             \<comment> \<open>the storage owner can use the sequence\<close>

definition new_row :: "int \<Rightarrow> string \<Rightarrow> grow" where
  "new_row g iri = \<lparr>gid = g, giri = iri, glocked = False, greason = None, gdigest = None,
                    gmat = None, gbase = None, gsha = None, gloads = None\<rparr>"

definition int_str :: "int \<Rightarrow> string" where
  "int_str g = (if g < 0 then ''-'' else []) @ nat_str (nat \<bar>g\<bar>)"

definition synthetic_iri :: "int \<Rightarrow> string" where
  "synthetic_iri g = ''urn:pgrdf:graph:'' @ int_str g"

definition fresh_store :: store where
  "fresh_store = \<lparr>quads = [], parts = [], graphs = [new_row 0 (synthetic_iri 0)],
                  trow = [], ttrunc = [], gseq = Some (1, False)\<rparr>"

section \<open>Statements on the tables\<close>

definition find_graph :: "store \<Rightarrow> int \<Rightarrow> grow option" where
  "find_graph st g = find (\<lambda>r. gid r = g) (graphs st)"

definition graph_id :: "string \<Rightarrow> store \<Rightarrow> int option" where
  "graph_id iri st = map_option gid (find (\<lambda>r. giri r = iri) (graphs st))"

definition graph_iri :: "int \<Rightarrow> store \<Rightarrow> string option" where
  "graph_iri g st = map_option giri (find_graph st g)"

definition graph_quads :: "store \<Rightarrow> int \<Rightarrow> quad list" where
  "graph_quads st g = filter (\<lambda>q. qg q = g) (quads st)"

definition dedicated_partition :: "int \<Rightarrow> store \<Rightarrow> bool" where
  "dedicated_partition g st \<longleftrightarrow> g \<in> set (parts st)"

definition update_graph :: "int \<Rightarrow> (grow \<Rightarrow> grow) \<Rightarrow> store \<Rightarrow> store" where
  "update_graph g f st = st\<lparr>graphs := map (\<lambda>r. if gid r = g then f r else r) (graphs st)\<rparr>"

definition delete_graph :: "int \<Rightarrow> store \<Rightarrow> store" where
  "delete_graph g st = st\<lparr>graphs := filter (\<lambda>r. gid r \<noteq> g) (graphs st)\<rparr>"

definition insert_graph :: "int \<Rightarrow> string \<Rightarrow> store \<Rightarrow> store res" where
  "insert_graph g iri st =
     (if find_graph st g \<noteq> None \<or> graph_id iri st \<noteq> None then Inl Unique_Violation
      else Inr (st\<lparr>graphs := graphs st @ [new_row g iri]\<rparr>))"

text \<open>The row trigger of a locked partition fires on every INSERT, UPDATE and DELETE.\<close>

definition insert_quads :: "quad list \<Rightarrow> store \<Rightarrow> store res" where
  "insert_quads qs' st =
     (if list_ex (\<lambda>q. qg q \<in> set (trow st)) qs' then Inl Lock_Not_Available
      else Inr (st\<lparr>quads := quads st @ qs'\<rparr>))"

definition delete_quads :: "(quad \<Rightarrow> bool) \<Rightarrow> store \<Rightarrow> store res" where
  "delete_quads P st =
     (if list_ex (\<lambda>q. P q \<and> qg q \<in> set (trow st)) (quads st) then Inl Lock_Not_Available
      else Inr (st\<lparr>quads := filter (\<lambda>q. \<not> P q) (quads st)\<rparr>))"

definition update_quads :: "(quad \<Rightarrow> quad option) \<Rightarrow> store \<Rightarrow> store res" where
  "update_quads f st =
     (if list_ex (\<lambda>q. case f q of Some q' \<Rightarrow> qg q \<in> set (trow st) \<or> qg q' \<in> set (trow st) | None \<Rightarrow> False) (quads st)
      then Inl Lock_Not_Available
      else Inr (st\<lparr>quads := map (\<lambda>q. case f q of Some q' \<Rightarrow> q' | None \<Rightarrow> q) (quads st)\<rparr>))"

definition truncate_partition :: "int \<Rightarrow> store \<Rightarrow> store res" where
  "truncate_partition g st =
     (if g \<in> set (ttrunc st) then Inl Lock_Not_Available
      else Inr (st\<lparr>quads := filter (\<lambda>q. qg q \<noteq> g) (quads st)\<rparr>))"

section \<open>The write fence\<close>

definition require_unlocked :: "int \<Rightarrow> store \<Rightarrow> unit res" where
  "require_unlocked g st =
     (case find_graph st g of
        Some r \<Rightarrow> if glocked r then Inl Lock_Not_Available else Inr ()
      | None \<Rightarrow> Inr ())"

definition install_lock_triggers :: "int \<Rightarrow> store \<Rightarrow> store res" where
  "install_lock_triggers g st =
     (if \<not> dedicated_partition g st then Inr st
      else if g \<in> set (trow st) \<or> g \<in> set (ttrunc st) then Inl Duplicate_Object
      else Inr (st\<lparr>trow := g # trow st, ttrunc := g # ttrunc st\<rparr>))"

definition drop_lock_triggers :: "int \<Rightarrow> store \<Rightarrow> store" where
  "drop_lock_triggers g st =
     (if \<not> dedicated_partition g st then st
      else st\<lparr>trow := removeAll g (trow st), ttrunc := removeAll g (ttrunc st)\<rparr>)"

definition lock_trigger_count :: "int \<Rightarrow> store \<Rightarrow> nat option" where
  "lock_trigger_count g st =
     (if dedicated_partition g st
      then Some ((if g \<in> set (trow st) then 1 else 0) + (if g \<in> set (ttrunc st) then 1 else 0))
      else None)"

definition lock_graph :: "int \<Rightarrow> string \<Rightarrow> store \<Rightarrow> store res" where
  "lock_graph g reason st =
     (if blank reason then Inl Invalid_Parameter_Value
      else case find_graph st g of
        None \<Rightarrow> Inl Undefined_Object
      | Some r \<Rightarrow>
          (if glocked r then Inl Lock_Not_Available
           else install_lock_triggers g
                  (update_graph g (\<lambda>r. r\<lparr>glocked := True, greason := Some reason, gdigest := None\<rparr>) st)))"

definition unlock_graph :: "int \<Rightarrow> string \<Rightarrow> store \<Rightarrow> store res" where
  "unlock_graph g reason st =
     (if blank reason then Inl Invalid_Parameter_Value
      else case find_graph st g of
        None \<Rightarrow> Inl Undefined_Object
      | Some r \<Rightarrow>
          (if \<not> glocked r then Inl Not_In_Prerequisite_State
           else Inr (drop_lock_triggers g
                  (update_graph g (\<lambda>r. r\<lparr>glocked := False, greason := None, gdigest := None\<rparr>) st))))"

section \<open>Privileges and partition creation\<close>

datatype graph_ddl = Create | Drop | Clear

definition holds_graph_ddl_privilege :: "graph_ddl \<Rightarrow> privs \<Rightarrow> bool" where
  "holds_graph_ddl_privilege kind u =
     (case kind of
        Create \<Rightarrow> sel_quads u \<and> sel_graphs u \<and> ins_quads u \<and> ins_graphs u
      | Drop \<Rightarrow> sel_quads u \<and> sel_graphs u \<and> del_quads u \<and> del_graphs u
      | Clear \<Rightarrow> sel_quads u \<and> del_quads u)"

definition require_graph_ddl_privilege :: "graph_ddl \<Rightarrow> privs \<Rightarrow> unit res" where
  "require_graph_ddl_privilege kind u =
     (if holds_graph_ddl_privilege kind u then Inr () else Inl Insufficient_Privilege)"

definition require_graph_id_seq_usable :: "privs \<Rightarrow> unit res" where
  "require_graph_id_seq_usable u =
     (if seq_usable u then Inr () else Inl Not_In_Prerequisite_State)"

text \<open>\<open>setval\<close> past a created id, and \<open>nextval\<close>.\<close>

definition advance_seq :: "int \<Rightarrow> (int \<times> bool) option \<Rightarrow> (int \<times> bool) option" where
  "advance_seq g sq = map_option (\<lambda>(l, c). if g > l then (g, True) else (l, c)) sq"

definition create_partition :: "privs \<Rightarrow> int \<Rightarrow> store \<Rightarrow> store res" where
  "create_partition u g st =
     (if dedicated_partition g st then Inr st
      else res_bind (require_graph_ddl_privilege Create u) (\<lambda>_.
        res_bind (if gseq st \<noteq> None then require_graph_id_seq_usable u else Inr ()) (\<lambda>_.
          if list_ex (\<lambda>q. qg q = g) (quads st) then Inl Check_Violation
          else Inr (st\<lparr>parts := g # parts st, gseq := advance_seq g (gseq st)\<rparr>))))"

section \<open>Quads and graph creation\<close>

definition put_quad :: "int \<Rightarrow> int \<Rightarrow> int \<Rightarrow> int \<Rightarrow> store \<Rightarrow> store res" where
  "put_quad s p o' g st =
     res_bind (require_unlocked g st)
       (\<lambda>_. insert_quads [\<lparr>qs = s, qp = p, qo = o', qg = g, qinf = False\<rparr>] st)"

definition count_quads :: "int \<Rightarrow> store \<Rightarrow> nat" where
  "count_quads g st = length (graph_quads st g)"

definition add_graph :: "privs \<Rightarrow> int \<Rightarrow> store \<Rightarrow> (bool \<times> store) res" where
  "add_graph u g st =
     (if g < 0 then Inl Invalid_Parameter_Value
      else if dedicated_partition g st then Inr (False, st)
      else res_bind (create_partition u g st) (\<lambda>st.
        if find_graph st g \<noteq> None then Inr (True, st)
        else res_bind (insert_graph g (synthetic_iri g) st) (\<lambda>st. Inr (True, st))))"

text \<open>
  The allocation: take sequence values until one is neither registered nor has a partition. The
  fuel is the number of ids in use, which is enough (\<open>next_free_free\<close>).
\<close>

definition taken :: "store \<Rightarrow> int \<Rightarrow> bool" where
  "taken st g \<longleftrightarrow> find_graph st g \<noteq> None \<or> dedicated_partition g st"

primrec next_free :: "nat \<Rightarrow> store \<Rightarrow> int \<Rightarrow> int" where
  "next_free 0 st v = v"
| "next_free (Suc k) st v = (if taken st v then next_free k st (v + 1) else v)"

definition allocate_id :: "int \<times> bool \<Rightarrow> store \<Rightarrow> int" where
  "allocate_id sq st =
     next_free (length (graphs st) + length (parts st)) st
       (if snd sq then fst sq + 1 else fst sq)"

definition add_graph_iri :: "privs \<Rightarrow> string \<Rightarrow> store \<Rightarrow> (int \<times> store) res" where
  "add_graph_iri u iri st =
     (if blank iri then Inl Invalid_Parameter_Value
      else case graph_id iri st of
        Some g \<Rightarrow> Inr (g, st)
      | None \<Rightarrow>
          res_bind (require_graph_ddl_privilege Create u) (\<lambda>_.
            case gseq st of
              None \<Rightarrow> Inl Not_In_Prerequisite_State
            | Some sq \<Rightarrow>
                res_bind (require_graph_id_seq_usable u) (\<lambda>_.
                  (let g = allocate_id sq st; st = st\<lparr>gseq := Some (g, True)\<rparr> in
                   res_bind (insert_graph g iri st) (\<lambda>st.
                     res_bind (add_graph u g st) (\<lambda>(_, st). Inr (g, st)))))))"

definition create_graph :: "privs \<Rightarrow> string \<Rightarrow> store \<Rightarrow> (int \<times> store) res" where
  "create_graph u iri st =
     (if blank iri then Inl Invalid_Parameter_Value
      else res_bind (require_graph_ddl_privilege Create u) (\<lambda>_.
        if graph_id iri st \<noteq> None then Inl Duplicate_Object
        else add_graph_iri u iri st))"

definition add_graph_id_iri :: "privs \<Rightarrow> int \<Rightarrow> string \<Rightarrow> store \<Rightarrow> (int \<times> store) res" where
  "add_graph_id_iri u g iri st =
     (if g < 0 then Inl Invalid_Parameter_Value
      else if blank iri then Inl Invalid_Parameter_Value
      else res_bind (require_graph_ddl_privilege Create u) (\<lambda>_.
        case (graph_iri g st, graph_id iri st) of
          (Some bound, bound_id) \<Rightarrow>
            (if bound = iri \<and> bound_id = Some g then Inr (g, st)
             else if bound = synthetic_iri g \<and> bound_id = None
             then Inr (g, update_graph g (\<lambda>r. r\<lparr>giri := iri\<rparr>) st)
             else Inl Duplicate_Object)
        | (None, Some _) \<Rightarrow> Inl Duplicate_Object
        | (None, None) \<Rightarrow>
            res_bind (insert_graph g iri st) (\<lambda>st.
              res_bind (add_graph u g st) (\<lambda>(_, st). Inr (g, st)))))"

section \<open>Lifecycle\<close>

definition drop_partition :: "int \<Rightarrow> store \<Rightarrow> store" where
  "drop_partition g st =
     st\<lparr>quads := filter (\<lambda>q. qg q \<noteq> g) (quads st), parts := removeAll g (parts st),
        trow := removeAll g (trow st), ttrunc := removeAll g (ttrunc st)\<rparr>"

definition drop_graph :: "privs \<Rightarrow> int \<Rightarrow> bool \<Rightarrow> store \<Rightarrow> (nat \<times> store) res" where
  "drop_graph u g cascade st =
     (if g < 0 then Inl Invalid_Parameter_Value
      else res_bind (require_unlocked g st) (\<lambda>_.
        if g = 0 then Inl Invalid_Parameter_Value
        else if \<not> dedicated_partition g st then Inr (0, delete_graph g st)
        else if \<not> cascade \<and> list_ex qinf (graph_quads st g) then Inl Dependent_Objects
        else res_bind (require_graph_ddl_privilege Drop u) (\<lambda>_.
          Inr (count_quads g st, delete_graph g (drop_partition g st)))))"

definition clear_graph :: "privs \<Rightarrow> int \<Rightarrow> store \<Rightarrow> (nat \<times> store) res" where
  "clear_graph u g st =
     (if g < 0 then Inl Invalid_Parameter_Value
      else res_bind (require_unlocked g st) (\<lambda>_.
        res_bind (require_graph_ddl_privilege Clear u) (\<lambda>_.
          if \<not> dedicated_partition g st then Inr (0, st)
          else res_bind (truncate_partition g st) (\<lambda>st'. Inr (count_quads g st, st')))))"

definition retarget :: "int \<Rightarrow> quad list \<Rightarrow> quad list" where
  "retarget dst = map (\<lambda>q. q\<lparr>qg := dst\<rparr>)"

definition ensure_graph :: "privs \<Rightarrow> int \<Rightarrow> store \<Rightarrow> store res" where
  "ensure_graph u dst st =
     (if dedicated_partition dst st then Inr st
      else res_bind (add_graph u dst st) (\<lambda>(_, st). Inr st))"

definition copy_graph :: "privs \<Rightarrow> int \<Rightarrow> int \<Rightarrow> store \<Rightarrow> (nat \<times> store) res" where
  "copy_graph u src dst st =
     (if src < 0 \<or> dst < 0 then Inl Invalid_Parameter_Value
      else res_bind (require_unlocked dst st) (\<lambda>_.
        if src = dst then Inl Invalid_Parameter_Value
        else if \<not> dedicated_partition src st then Inr (0, st)
        else res_bind (ensure_graph u dst st) (\<lambda>st.
          (let rows = graph_quads st src in
           if rows = [] then Inr (0, st)
           else res_bind (insert_quads (retarget dst rows) st)
                  (\<lambda>st. Inr (length rows, st))))))"

definition move_graph :: "privs \<Rightarrow> int \<Rightarrow> int \<Rightarrow> store \<Rightarrow> (nat \<times> store) res" where
  "move_graph u src dst st =
     (if src < 0 \<or> dst < 0 then Inl Invalid_Parameter_Value
      else res_bind (require_unlocked src st) (\<lambda>_. res_bind (require_unlocked dst st) (\<lambda>_.
        if src = dst then Inl Invalid_Parameter_Value
        else if \<not> dedicated_partition src st then Inr (0, st)
        else if dedicated_partition dst st \<and> graph_quads st dst \<noteq> [] then Inl Not_In_Prerequisite_State
        else res_bind (copy_graph u src dst st) (\<lambda>(copied, st).
          res_bind (drop_graph u src True st) (\<lambda>(_, st). Inr (copied, st))))))"

text \<open>The predicate IRI's dictionary id: term type 1, no datatype, no language.\<close>

definition iri_term_id :: "dict_row list \<Rightarrow> string \<Rightarrow> int option" where
  "iri_term_id dict iri = map_option row_id (find (\<lambda>r. row_key r = (1, iri, None, None)) dict)"

definition carve_graph ::
    "privs \<Rightarrow> dict_row list \<Rightarrow> int \<Rightarrow> string \<Rightarrow> int \<Rightarrow> store \<Rightarrow> (nat \<times> store) res" where
  "carve_graph u dict src predicate dst st =
     (if src < 0 \<or> dst < 0 then Inl Invalid_Parameter_Value
      else res_bind (require_unlocked dst st) (\<lambda>_.
        if src = dst then Inl Invalid_Parameter_Value
        else if \<not> dedicated_partition src st then Inr (0, st)
        else case iri_term_id dict predicate of
          None \<Rightarrow> Inr (0, st)
        | Some pid \<Rightarrow>
            (let rows = filter (\<lambda>q. qp q = pid) (graph_quads st src) in
             if rows = [] then Inr (0, st)
             else res_bind (ensure_graph u dst st) (\<lambda>st.
               res_bind (insert_quads (retarget dst rows) st) (\<lambda>st. Inr (length rows, st))))))"

section \<open>The neighbourhood carve\<close>

text \<open>
  The recursive query: the nodes \<open>k\<close> steps from a seed, a quad being an edge in both directions;
  \<open>UNION\<close> keeps each (node, hop) once.
\<close>

definition step_nodes :: "quad list \<Rightarrow> int list \<Rightarrow> int list" where
  "step_nodes qs' ns =
     remdups (concat (map (\<lambda>q. (if qs q \<in> set ns then [qo q] else []) @
                               (if qo q \<in> set ns then [qs q] else [])) qs'))"

primrec hop_level :: "nat \<Rightarrow> quad list \<Rightarrow> int list \<Rightarrow> int list" where
  "hop_level 0 qs' seeds = remdups seeds"
| "hop_level (Suc k) qs' seeds = step_nodes qs' (hop_level k qs' seeds)"

definition frontier_nodes :: "nat \<Rightarrow> quad list \<Rightarrow> int list \<Rightarrow> int list" where
  "frontier_nodes hops qs' seeds = remdups (concat (map (\<lambda>k. hop_level k qs' seeds) [0..<Suc hops]))"

definition carve_rows :: "nat \<Rightarrow> quad list \<Rightarrow> int list \<Rightarrow> quad list" where
  "carve_rows hops qs' seeds =
     (let ns = set (frontier_nodes hops qs' seeds) in
      remdups (filter (\<lambda>q. qs q \<in> ns) qs') @
      remdups (filter (\<lambda>q. qo q \<in> ns \<and> qs q \<notin> ns) qs'))"

definition carve_boundary :: "nat \<Rightarrow> quad list \<Rightarrow> int list \<Rightarrow> nat" where
  "carve_boundary hops qs' seeds =
     length (filter (\<lambda>n. n \<notin> set (frontier_nodes hops qs' seeds))
               (step_nodes qs' (hop_level hops qs' seeds)))"

definition seed_ids :: "dict_row list \<Rightarrow> string list \<Rightarrow> int list" where
  "seed_ids dict seeds =
     map row_id (filter (\<lambda>r. case row_key r of (t, v, _, _) \<Rightarrow> t = 1 \<and> v \<in> set seeds) dict)"

definition carve_graph_neighbourhood ::
    "privs \<Rightarrow> dict_row list \<Rightarrow> int \<Rightarrow> string option list \<Rightarrow> int \<Rightarrow> int \<Rightarrow> store
      \<Rightarrow> ((nat \<times> nat) \<times> store) res" where
  "carve_graph_neighbourhood u dict src seeds dst max_hops st =
     res_bind (require_unlocked dst st) (\<lambda>_.
       if src < 0 \<or> dst < 0 then Inl Invalid_Parameter_Value
       else if src = dst then Inl Invalid_Parameter_Value
       else if \<not> dedicated_partition src st then Inr ((0, 0), st)
       else
         (let hops = nat max_hops; iris = map the (filter (\<lambda>s. s \<noteq> None) seeds);
              ids = seed_ids dict iris in
          if iris = [] \<or> ids = [] then Inr ((0, 0), st)
          else res_bind (ensure_graph u dst st) (\<lambda>st.
            (let src_rows = graph_quads st src; rows = carve_rows hops src_rows ids in
             res_bind (insert_quads (retarget dst rows) st) (\<lambda>st.
               Inr ((length rows, carve_boundary hops src_rows ids), st))))))"

section \<open>IRI-keyed overloads\<close>

definition resolve_iri :: "string \<Rightarrow> store \<Rightarrow> int res" where
  "resolve_iri iri st = (case graph_id iri st of Some g \<Rightarrow> Inr g | None \<Rightarrow> Inl Undefined_Object)"

definition drop_graph_iri :: "privs \<Rightarrow> string \<Rightarrow> bool \<Rightarrow> store \<Rightarrow> (nat \<times> store) res" where
  "drop_graph_iri u iri cascade st = res_bind (resolve_iri iri st) (\<lambda>g. drop_graph u g cascade st)"

definition clear_graph_iri :: "privs \<Rightarrow> string \<Rightarrow> store \<Rightarrow> (nat \<times> store) res" where
  "clear_graph_iri u iri st = res_bind (resolve_iri iri st) (\<lambda>g. clear_graph u g st)"

definition copy_graph_iri :: "privs \<Rightarrow> string \<Rightarrow> string \<Rightarrow> store \<Rightarrow> (nat \<times> store) res" where
  "copy_graph_iri u src dst st =
     res_bind (resolve_iri src st) (\<lambda>s. res_bind (resolve_iri dst st) (\<lambda>d. copy_graph u s d st))"

definition move_graph_iri :: "privs \<Rightarrow> string \<Rightarrow> string \<Rightarrow> store \<Rightarrow> (nat \<times> store) res" where
  "move_graph_iri u src dst st =
     res_bind (resolve_iri src st) (\<lambda>s. res_bind (resolve_iri dst st) (\<lambda>d. move_graph u s d st))"

section \<open>Records of loads and materializations\<close>

definition stamp_materialize :: "int \<Rightarrow> int \<Rightarrow> nat \<Rightarrow> store \<Rightarrow> store" where
  "stamp_materialize g base_count now st =
     update_graph g (\<lambda>r. r\<lparr>gmat := Some now, gbase := Some base_count\<rparr>) st"

definition begin_source_record :: "int \<Rightarrow> store \<Rightarrow> store" where
  "begin_source_record g st =
     update_graph g (\<lambda>r. r\<lparr>gloads := Some ((case gloads r of Some n \<Rightarrow> n | None \<Rightarrow> 0) + 1)\<rparr>) st"

definition finish_source_record :: "(string \<Rightarrow> string) \<Rightarrow> int \<Rightarrow> string \<Rightarrow> store \<Rightarrow> store" where
  "finish_source_record sha g bytes st = update_graph g (\<lambda>r. r\<lparr>gsha := Some (sha bytes)\<rparr>) st"

definition asserted_count :: "store \<Rightarrow> int \<Rightarrow> nat" where
  "asserted_count st g = length (filter (\<lambda>q. \<not> qinf q) (graph_quads st g))"

definition inferred_count :: "store \<Rightarrow> int \<Rightarrow> nat" where
  "inferred_count st g = length (filter qinf (graph_quads st g))"

datatype freshness = Never | Unknown | Stale | Current

record inventory_row =
  inv_graph :: int
  inv_iri :: string
  inv_asserted :: nat
  inv_inferred :: nat
  inv_locked :: bool
  inv_reason :: "string option"
  inv_fresh :: freshness
  inv_sha :: "string option"
  inv_loads :: "int option"
  inv_digest :: "string option"

definition inventory_of :: "store \<Rightarrow> grow \<Rightarrow> inventory_row" where
  "inventory_of st r =
     (let a = asserted_count st (gid r); i = inferred_count st (gid r) in
      \<lparr>inv_graph = gid r, inv_iri = giri r, inv_asserted = a, inv_inferred = i,
       inv_locked = glocked r, inv_reason = greason r,
       inv_fresh = (if gmat r = None then (if i > 0 then Unknown else Never)
                    else if gbase r \<noteq> Some (int a) then Stale else Current),
       inv_sha = gsha r, inv_loads = gloads r,
       inv_digest = (if glocked r \<and> lock_trigger_count (gid r) st = Some 2 then gdigest r else None)\<rparr>)"

definition graph_inventory :: "store \<Rightarrow> inventory_row list" where
  "graph_inventory st = map (inventory_of st) (sort_key gid (graphs st))"

definition orphan_partitions :: "store \<Rightarrow> string list" where
  "orphan_partitions st =
     sort (map (\<lambda>g. ''_pgrdf_quads_g'' @ int_str g) (filter (\<lambda>g. find_graph st g = None) (parts st)))"

section \<open>Calls\<close>

text \<open>
  What clients can do to the store: the engine's statements, and SQL straight at the tables, where
  only the triggers stand guard. \<open>Drop_Trigger\<close> is a trigger removed by hand (custody drift).
\<close>

datatype call =
    Put_Quad int int int int
  | Add_Graph int
  | Add_Graph_Iri string
  | Create_Graph string
  | Add_Graph_Id_Iri int string
  | Drop_Graph int bool
  | Clear_Graph int
  | Copy_Graph int int
  | Move_Graph int int
  | Drop_Graph_Iri string bool
  | Clear_Graph_Iri string
  | Copy_Graph_Iri string string
  | Move_Graph_Iri string string
  | Carve_Graph int string int
  | Carve_Neighbourhood int "string option list" int int
  | Stamp int int nat
  | Begin_Load int
  | Finish_Load int string
  | Lock_Graph int string
  | Unlock_Graph int string
  | Sql_Insert "quad list"
  | Sql_Delete "quad list"
  | Sql_Update "(quad \<times> quad) list"
  | Sql_Truncate int
  | Drop_Trigger int bool

fun exec_call :: "privs \<Rightarrow> dict_row list \<Rightarrow> (string \<Rightarrow> string) \<Rightarrow> call \<Rightarrow> store \<Rightarrow> store res" where
  "exec_call u dict sha (Put_Quad s p o' g) st = put_quad s p o' g st"
| "exec_call u dict sha (Add_Graph g) st = map_sum id snd (add_graph u g st)"
| "exec_call u dict sha (Add_Graph_Iri iri) st = map_sum id snd (add_graph_iri u iri st)"
| "exec_call u dict sha (Create_Graph iri) st = map_sum id snd (create_graph u iri st)"
| "exec_call u dict sha (Add_Graph_Id_Iri g iri) st = map_sum id snd (add_graph_id_iri u g iri st)"
| "exec_call u dict sha (Drop_Graph g c) st = map_sum id snd (drop_graph u g c st)"
| "exec_call u dict sha (Clear_Graph g) st = map_sum id snd (clear_graph u g st)"
| "exec_call u dict sha (Copy_Graph a b) st = map_sum id snd (copy_graph u a b st)"
| "exec_call u dict sha (Move_Graph a b) st = map_sum id snd (move_graph u a b st)"
| "exec_call u dict sha (Drop_Graph_Iri iri c) st = map_sum id snd (drop_graph_iri u iri c st)"
| "exec_call u dict sha (Clear_Graph_Iri iri) st = map_sum id snd (clear_graph_iri u iri st)"
| "exec_call u dict sha (Copy_Graph_Iri a b) st = map_sum id snd (copy_graph_iri u a b st)"
| "exec_call u dict sha (Move_Graph_Iri a b) st = map_sum id snd (move_graph_iri u a b st)"
| "exec_call u dict sha (Carve_Graph a p b) st = map_sum id snd (carve_graph u dict a p b st)"
| "exec_call u dict sha (Carve_Neighbourhood a ss b k) st =
     map_sum id snd (carve_graph_neighbourhood u dict a ss b k st)"
| "exec_call u dict sha (Stamp g n now) st = Inr (stamp_materialize g n now st)"
| "exec_call u dict sha (Begin_Load g) st = Inr (begin_source_record g st)"
| "exec_call u dict sha (Finish_Load g bytes) st = Inr (finish_source_record sha g bytes st)"
| "exec_call u dict sha (Lock_Graph g reason) st = lock_graph g reason st"
| "exec_call u dict sha (Unlock_Graph g reason) st = unlock_graph g reason st"
| "exec_call u dict sha (Sql_Insert qs') st = insert_quads qs' st"
| "exec_call u dict sha (Sql_Delete qs') st = delete_quads (\<lambda>q. q \<in> set qs') st"
| "exec_call u dict sha (Sql_Update xs) st = update_quads (map_of xs) st"
| "exec_call u dict sha (Sql_Truncate g) st =
     (if dedicated_partition g st then truncate_partition g st else Inl Undefined_Object)"
| "exec_call u dict sha (Drop_Trigger g row) st =
     Inr (if row then st\<lparr>trow := removeAll g (trow st)\<rparr> else st\<lparr>ttrunc := removeAll g (ttrunc st)\<rparr>)"

fun engine_call :: "call \<Rightarrow> bool" where
  "engine_call (Sql_Insert _) = False"
| "engine_call (Sql_Delete _) = False"
| "engine_call (Sql_Update _) = False"
| "engine_call (Sql_Truncate _) = False"
| "engine_call (Drop_Trigger _ _) = False"
| "engine_call (Unlock_Graph _ _) = False"
| "engine_call _ = True"

section \<open>Invariant\<close>

definition locked :: "store \<Rightarrow> int \<Rightarrow> bool" where
  "locked st g \<longleftrightarrow> (case find_graph st g of Some r \<Rightarrow> glocked r | None \<Rightarrow> False)"

definition registered_graph :: "store \<Rightarrow> int \<Rightarrow> bool" where
  "registered_graph st g \<longleftrightarrow> find_graph st g \<noteq> None"

definition custody :: "store \<Rightarrow> int \<Rightarrow> bool" where
  "custody st g \<longleftrightarrow> g \<in> set (trow st) \<and> g \<in> set (ttrunc st)"

definition rows_ok :: "store \<Rightarrow> bool" where
  "rows_ok st \<longleftrightarrow> distinct (map gid (graphs st)) \<and> distinct (map giri (graphs st)) \<and>
     (\<forall>r \<in> set (graphs st). \<not> glocked r \<longrightarrow> gdigest r = None)"

definition parts_ok :: "store \<Rightarrow> bool" where
  "parts_ok st \<longleftrightarrow> distinct (parts st) \<and> (\<forall>g \<in> set (parts st). 0 \<le> g)"

definition store_ok :: "store \<Rightarrow> bool" where
  "store_ok st \<longleftrightarrow> rows_ok st \<and> parts_ok st \<and>
     (\<forall>g \<in> set (parts st). registered_graph st g) \<and>
     (\<forall>g \<in> set (trow st) \<union> set (ttrunc st). g \<in> set (parts st) \<and> locked st g)"

definition cached :: "store \<Rightarrow> int \<Rightarrow> string \<Rightarrow> bool" where
  "cached st g d \<longleftrightarrow> locked st g \<and> custody st g \<and> (\<exists>r. find_graph st g = Some r \<and> gdigest r = Some d)"

text \<open>
  What a call that is not lock, unlock or raw SQL does to the graphs it must leave alone.
\<close>

definition fenced :: "store \<Rightarrow> store \<Rightarrow> bool" where
  "fenced st st' \<longleftrightarrow>
     (\<forall>g. locked st g \<longrightarrow> locked st' g \<and> graph_quads st' g = graph_quads st g)"

definition cache_safe :: "store \<Rightarrow> store \<Rightarrow> bool" where
  "cache_safe st st' \<longleftrightarrow>
     (\<forall>g d. cached st' g d \<longrightarrow> cached st g d \<and> graph_quads st' g = graph_quads st g)"

definition frame :: "store \<Rightarrow> store \<Rightarrow> bool" where
  "frame st st' \<longleftrightarrow> (store_ok st \<longrightarrow> store_ok st' \<and> fenced st st' \<and> cache_safe st st')"

lemma frame_refl [simp, intro]: "frame st st"
  by (simp add: frame_def fenced_def cache_safe_def)

lemma frame_trans: "frame a b \<Longrightarrow> frame b c \<Longrightarrow> frame a c"
  unfolding frame_def fenced_def cache_safe_def by metis

section \<open>The tables\<close>

lemma require_unlocked_Inr [simp]: "require_unlocked g st = Inr x \<longleftrightarrow> \<not> locked st g"
  by (auto simp add: require_unlocked_def locked_def split: option.splits)

lemma require_unlocked_locked: "locked st g \<Longrightarrow> require_unlocked g st = Inl Lock_Not_Available"
  by (auto simp add: require_unlocked_def locked_def split: option.splits)

lemma require_unlocked_bind:
  "res_bind (require_unlocked h st) (\<lambda>_. Inl Lock_Not_Available) = Inl Lock_Not_Available"
  by (simp add: require_unlocked_def split: option.splits)

lemma find_SomeD: "find P xs = Some x \<Longrightarrow> P x \<and> x \<in> set xs"
  by (auto simp: find_Some_iff)

lemma find_graph_gid: "find_graph st g = Some r \<Longrightarrow> gid r = g \<and> r \<in> set (graphs st)"
  unfolding find_graph_def by (rule find_SomeD)

lemma find_distinct:
  "distinct (map f xs) \<Longrightarrow> x \<in> set xs \<Longrightarrow> find (\<lambda>y. f y = f x) xs = Some x"
  by (induction xs) (force simp: image_iff)+

lemma find_graph_mem: "rows_ok st \<Longrightarrow> r \<in> set (graphs st) \<Longrightarrow> find_graph st (gid r) = Some r"
  by (simp add: find_graph_def rows_ok_def find_distinct)

lemma find_graph_None: "find_graph st g = None \<longleftrightarrow> g \<notin> gid ` set (graphs st)"
  by (auto simp: find_graph_def find_None_iff)

lemma graph_id_None: "graph_id iri st = None \<longleftrightarrow> iri \<notin> giri ` set (graphs st)"
  by (auto simp: graph_id_def find_None_iff)

lemma find_map_same:
  "(\<And>r. gid (f r) = gid r) \<Longrightarrow>
   find (\<lambda>r. gid r = h) (map (\<lambda>r. if gid r = g then f r else r) xs)
     = (if h = g then map_option f (find (\<lambda>r. gid r = h) xs) else find (\<lambda>r. gid r = h) xs)"
  by (induction xs) auto

lemma find_graph_update:
  "(\<And>r. gid (f r) = gid r) \<Longrightarrow>
   find_graph (update_graph g f st) h = (if h = g then map_option f (find_graph st h) else find_graph st h)"
  by (simp add: find_graph_def update_graph_def find_map_same)

lemma find_filter_gid:
  "find (\<lambda>r. gid r = h) (filter (\<lambda>r. gid r \<noteq> g) xs) = (if h = g then None else find (\<lambda>r. gid r = h) xs)"
  by (induction xs) (auto simp: find_None_iff)

lemma find_graph_delete:
  "find_graph (delete_graph g st) h = (if h = g then None else find_graph st h)"
  by (simp add: find_graph_def delete_graph_def find_filter_gid)

lemma find_graph_insert:
  "insert_graph g iri st = Inr st' \<Longrightarrow>
   find_graph st' h = (if h = g then Some (new_row g iri) else find_graph st h)"
  by (auto simp: insert_graph_def find_graph_def find_append new_row_def split: if_splits option.splits)

section \<open>Frames of the primitives\<close>

lemma frame_quads:
  assumes "graphs st' = graphs st" "parts st' = parts st" "trow st' = trow st" "ttrunc st' = ttrunc st"
    and "\<And>g. locked st g \<Longrightarrow> graph_quads st' g = graph_quads st g"
  shows "frame st st'"
proof -
  have f: "find_graph st' g = find_graph st g" for g using assms(1) by (simp add: find_graph_def)
  then have l: "locked st' g = locked st g" for g by (simp add: locked_def)
  show ?thesis
    using assms f l
    unfolding frame_def fenced_def cache_safe_def cached_def custody_def store_ok_def rows_ok_def
      parts_ok_def registered_graph_def by simp
qed

lemma insert_quads_frame:
  assumes "insert_quads xs st = Inr st'" "\<forall>q \<in> set xs. \<not> locked st (qg q)"
  shows "frame st st'"
proof (rule frame_quads)
  fix g assume "locked st g"
  then have "filter (\<lambda>q. qg q = g) xs = []" using assms(2) by (auto simp: filter_empty_conv)
  then show "graph_quads st' g = graph_quads st g"
    using assms(1) by (auto simp: graph_quads_def insert_quads_def split: if_splits)
qed (use assms(1) in \<open>auto simp: insert_quads_def split: if_splits\<close>)

lemma filter_other:
  "h \<noteq> g \<Longrightarrow> filter (\<lambda>q. qg q = h) (filter (\<lambda>q. qg q \<noteq> g) xs) = filter (\<lambda>q. qg q = h) xs"
  by (induction xs) auto

lemma truncate_frame:
  assumes "truncate_partition g st = Inr st'" "\<not> locked st g"
  shows "frame st st'"
proof (rule frame_quads)
  fix h assume "locked st h"
  then have "h \<noteq> g" using assms(2) by auto
  then show "graph_quads st' h = graph_quads st h"
    using assms(1) filter_other[of h g] by (auto simp: graph_quads_def truncate_partition_def simp del: filter_filter split: if_splits)
qed (use assms(1) in \<open>auto simp: truncate_partition_def split: if_splits\<close>)

lemma update_frame:
  assumes "\<And>r. gid (f r) = gid r" "\<And>r. glocked (f r) = glocked r" "\<And>r. gdigest (f r) = gdigest r"
    and "rows_ok st \<Longrightarrow> distinct (map giri (graphs (update_graph g f st)))"
  shows "frame st (update_graph g f st)"
proof -
  let ?st = "update_graph g f st"
  have same: "quads ?st = quads st" "parts ?st = parts st" "trow ?st = trow st" "ttrunc ?st = ttrunc st"
    by (simp_all add: update_graph_def)
  have f: "find_graph ?st h = (if h = g then map_option f (find_graph st h) else find_graph st h)" for h
    by (rule find_graph_update[OF assms(1)])
  have l: "locked ?st h = locked st h" for h
    by (simp add: locked_def f assms(2) split: option.splits)
  have c: "cached ?st h d = cached st h d" for h d
    using assms(3) by (auto simp: cached_def l custody_def same f split: if_splits)
  have ids: "map gid (graphs ?st) = map gid (graphs st)"
    using assms(1) by (simp add: update_graph_def)
  have dig: "\<forall>r \<in> set (graphs st). \<not> glocked r \<longrightarrow> gdigest r = None \<Longrightarrow>
      \<forall>r \<in> set (graphs ?st). \<not> glocked r \<longrightarrow> gdigest r = None"
    using assms(2,3) by (auto simp: update_graph_def)
  have "rows_ok ?st" if "rows_ok st"
    using that assms(4)[OF that] ids dig unfolding rows_ok_def by simp
  then have "store_ok st \<Longrightarrow> store_ok ?st"
    using l f by (auto simp: store_ok_def parts_ok_def same registered_graph_def)
  then show ?thesis
    using l c unfolding frame_def fenced_def cache_safe_def by (simp add: graph_quads_def same)
qed

lemma update_frame_iri:
  assumes "\<And>r. gid (f r) = gid r" "\<And>r. giri (f r) = giri r" "\<And>r. glocked (f r) = glocked r"
    "\<And>r. gdigest (f r) = gdigest r"
  shows "frame st (update_graph g f st)"
proof (rule update_frame)
  have "map giri (graphs (update_graph g f st)) = map giri (graphs st)"
    using assms(2) by (simp add: update_graph_def)
  then show "rows_ok st \<Longrightarrow> distinct (map giri (graphs (update_graph g f st)))"
    by (simp add: rows_ok_def)
qed (use assms in auto)

lemma delete_drop_frame:
  assumes "\<not> locked st g" and "st' = delete_graph g (drop_partition g st) \<or>
    (st' = delete_graph g st \<and> \<not> dedicated_partition g st)"
  shows "frame st st'"
proof -
  have f: "find_graph st' h = (if h = g then None else find_graph st h)" for h
    using assms(2) find_graph_delete[of g "drop_partition g st" h] find_graph_delete[of g st h]
    by (auto simp: drop_partition_def find_graph_def)
  have l: "locked st' h \<longleftrightarrow> locked st h" for h
    using assms(1) by (auto simp: locked_def f)
  have q: "graph_quads st' h = graph_quads st h" if "h \<noteq> g" for h
    using assms(2) that by (auto simp: graph_quads_def delete_graph_def drop_partition_def simp del: filter_filter intro!: filter_other)
  have gr: "graphs st' = filter (\<lambda>r. gid r \<noteq> g) (graphs st)"
    using assms(2) by (auto simp: delete_graph_def drop_partition_def)
  have p: "set (parts st') \<subseteq> set (parts st)" "set (trow st') \<subseteq> set (trow st)"
      "set (ttrunc st') \<subseteq> set (ttrunc st)" "g \<notin> set (parts st')" "distinct (parts st) \<Longrightarrow> distinct (parts st')"
    and p': "set (parts st') = set (parts st) - {g}"
    using assms(2) by (auto simp: delete_graph_def drop_partition_def dedicated_partition_def distinct_removeAll)
  have rows: "rows_ok st \<Longrightarrow> rows_ok st'"
    unfolding rows_ok_def gr using distinct_map_filter[of gid] distinct_map_filter[of giri] by auto
  have ok: "store_ok st'" if "store_ok st"
  proof -
    have "g \<notin> set (trow st)" "g \<notin> set (ttrunc st)" using that assms(1) by (auto simp: store_ok_def)
    then show ?thesis
      using that rows p p' l f unfolding store_ok_def parts_ok_def registered_graph_def by auto
  qed
  have "cached st h d" if "cached st' h d" for h d
    using that p(2,3) l f by (auto simp: cached_def custody_def split: if_splits)
  moreover have "h \<noteq> g" if "cached st' h d" for h d
    using that f by (auto simp: cached_def)
  ultimately show ?thesis
    using ok l q assms(1) unfolding frame_def fenced_def cache_safe_def by metis
qed

text \<open>A new registration, with a new partition or none.\<close>

lemma insert_frame:
  assumes "insert_graph g iri st = Inr st1" "0 \<le> g" "graphs st' = graphs st1" "quads st' = quads st"
    "trow st' = trow st" "ttrunc st' = ttrunc st"
    "parts st' = parts st \<or> (parts st' = g # parts st \<and> g \<notin> set (parts st))"
  shows "frame st st'"
proof -
  have n: "find_graph st g = None" using assms(1) by (auto simp: insert_graph_def split: if_splits)
  have f: "find_graph st' h = (if h = g then Some (new_row g iri) else find_graph st h)" for h
    using find_graph_insert[OF assms(1), of h] assms(3) by (simp add: find_graph_def)
  have l: "locked st' h \<longleftrightarrow> locked st h" for h
    using n by (auto simp: locked_def f new_row_def)
  have rows: "rows_ok st \<Longrightarrow> rows_ok st'"
    using assms(1,3)
    by (auto simp: rows_ok_def insert_graph_def new_row_def find_graph_None graph_id_None split: if_splits)
  have c: "cached st' h d \<longleftrightarrow> cached st h d" for h d
    using n assms(5,6) by (auto simp: cached_def l custody_def f new_row_def)
  have "store_ok st \<Longrightarrow> store_ok st'"
    using rows assms(2,5-7) l f unfolding store_ok_def parts_ok_def registered_graph_def by auto
  then show ?thesis
    using l c assms(4) unfolding frame_def fenced_def cache_safe_def by (simp add: graph_quads_def)
qed

text \<open>A new partition for a registered graph that has no quads yet.\<close>

lemma partition_frame:
  assumes "registered_graph st g" "0 \<le> g" "g \<notin> set (parts st)" "graphs st' = graphs st"
    "quads st' = quads st" "trow st' = trow st" "ttrunc st' = ttrunc st" "parts st' = g # parts st"
  shows "frame st st'"
proof -
  have f: "find_graph st' h = find_graph st h" for h using assms(4) by (simp add: find_graph_def)
  have l: "locked st' h \<longleftrightarrow> locked st h" for h by (simp add: locked_def f)
  have c: "cached st' h d \<longleftrightarrow> cached st h d" for h d
    using assms(6,7) by (simp add: cached_def l custody_def f)
  have "store_ok st \<Longrightarrow> store_ok st'"
    using assms l f unfolding store_ok_def rows_ok_def parts_ok_def registered_graph_def by auto
  then show ?thesis
    using l c assms(5) unfolding frame_def fenced_def cache_safe_def by (simp add: graph_quads_def)
qed

section \<open>Frames of the calls\<close>

lemma put_quad_frame: "put_quad s p o' g st = Inr st' \<Longrightarrow> frame st st'"
  by (rule insert_quads_frame) (auto simp: put_quad_def)

lemma create_partition_spec:
  assumes "create_partition u g st = Inr st'" "\<not> dedicated_partition g st"
  shows "graphs st' = graphs st \<and> quads st' = quads st \<and> trow st' = trow st \<and> ttrunc st' = ttrunc st \<and>
    parts st' = g # parts st \<and> gseq st' = advance_seq g (gseq st) \<and> graph_quads st g = []"
  using assms
  by (auto simp: create_partition_def graph_quads_def filter_empty_conv list_ex_iff split: if_splits)

lemma add_graph_frame:
  assumes "add_graph u g st = Inr (b, st')"
  shows "frame st st'"
proof (cases "dedicated_partition g st")
  case True
  then show ?thesis using assms by (auto simp: add_graph_def split: if_splits)
next
  case False
  obtain st1 where c: "create_partition u g st = Inr st1" and g: "0 \<le> g"
    and r: "(if find_graph st1 g \<noteq> None then st' = st1 else insert_graph g (synthetic_iri g) st1 = Inr st')"
    using assms False by (auto simp: add_graph_def split: if_splits)
  note sp = create_partition_spec[OF c False]
  have f: "find_graph st1 g = find_graph st g" using sp by (simp add: find_graph_def)
  have i: "g \<notin> set (parts st)" using False by (simp add: dedicated_partition_def)
  show ?thesis
  proof (cases "find_graph st g")
    case None
    then have ins: "insert_graph g (synthetic_iri g) st1 = Inr st'" using r f by simp
    then have "insert_graph g (synthetic_iri g) st = Inr (st\<lparr>graphs := graphs st'\<rparr>)"
      using sp by (auto simp: insert_graph_def find_graph_def graph_id_def split: if_splits)
    then show ?thesis
      by (rule insert_frame) (use g sp ins i in \<open>auto simp: insert_graph_def split: if_splits\<close>)
  next
    case (Some x)
    then show ?thesis
      using r f sp g i by (intro partition_frame[of st g]) (auto simp: registered_graph_def)
  qed
qed

lemma frame_seq: "frame (st\<lparr>gseq := x\<rparr>) st' \<Longrightarrow> frame st st'"
proof (rule frame_trans[rotated])
  show "frame st (st\<lparr>gseq := x\<rparr>)" by (rule frame_quads) (simp_all add: graph_quads_def)
qed

text \<open>Binding an IRI to an id and then creating the graph.\<close>

lemma bind_add_frame:
  assumes "insert_graph g iri st = Inr st1" "add_graph u g st1 = Inr (b, st')" "0 \<le> g"
  shows "frame st st'"
proof -
  have "frame st st1"
    by (rule insert_frame[OF assms(1,3)]) (use assms(1) in \<open>auto simp: insert_graph_def split: if_splits\<close>)
  then show ?thesis using add_graph_frame[OF assms(2)] by (rule frame_trans)
qed

lemma add_graph_nonneg: "add_graph u g st = Inr x \<Longrightarrow> 0 \<le> g"
  by (auto simp: add_graph_def split: if_splits)

lemma add_graph_iri_frame:
  assumes "add_graph_iri u iri st = Inr (g, st')"
  shows "frame st st'"
proof (cases "graph_id iri st")
  case None
  then obtain sq st1 b where
    "insert_graph g iri (st\<lparr>gseq := Some (g, True)\<rparr>) = Inr st1" "add_graph u g st1 = Inr (b, st')"
    using assms by (auto simp: add_graph_iri_def Let_def split: if_splits option.splits)
  then have "frame (st\<lparr>gseq := Some (g, True)\<rparr>) st'"
    using bind_add_frame add_graph_nonneg by blast
  then show ?thesis by (rule frame_seq)
next
  case (Some h)
  then show ?thesis using assms by (auto simp: add_graph_iri_def split: if_splits)
qed

lemma create_graph_frame: "create_graph u iri st = Inr (g, st') \<Longrightarrow> frame st st'"
  by (auto simp: create_graph_def intro: add_graph_iri_frame split: if_splits)

lemma upgrade_frame:
  assumes "graph_id iri st = None"
  shows "frame st (update_graph g (\<lambda>r. r\<lparr>giri := iri\<rparr>) st)"
proof (rule update_frame)
  assume r: "rows_ok st"
  have n: "iri \<notin> giri ` set (graphs st)" using assms by (simp add: graph_id_None)
  have "distinct (map gid xs) \<Longrightarrow> distinct (map giri xs) \<Longrightarrow> iri \<notin> giri ` set xs \<Longrightarrow>
      distinct (map giri (map (\<lambda>r. if gid r = g then r\<lparr>giri := iri\<rparr> else r) xs))" for xs :: "grow list"
  proof (induction xs)
    case (Cons x xs)
    have "map (\<lambda>r. if gid r = g then r\<lparr>giri := iri\<rparr> else r) xs = xs" if "gid x = g"
      using Cons.prems(1) that by (intro map_idI) (auto simp: image_iff)
    then show ?case using Cons by (cases "gid x = g") (auto split: if_splits)
  qed simp
  then show "distinct (map giri (graphs (update_graph g (\<lambda>r. r\<lparr>giri := iri\<rparr>) st)))"
    using r n unfolding rows_ok_def update_graph_def by simp
qed simp_all

lemma add_graph_id_iri_frame:
  assumes "add_graph_id_iri u g iri st = Inr (h, st')"
  shows "frame st st'"
  using assms upgrade_frame bind_add_frame
  unfolding add_graph_id_iri_def
  by (fastforce split: if_splits option.splits)

lemma drop_graph_frame:
  assumes "drop_graph u g c st = Inr (n, st')"
  shows "frame st st'"
  using assms delete_drop_frame[of st g st'] unfolding drop_graph_def by (auto split: if_splits)

lemma clear_graph_frame:
  assumes "clear_graph u g st = Inr (n, st')"
  shows "frame st st'"
  using assms truncate_frame[of g st st'] unfolding clear_graph_def by (auto split: if_splits)

lemma ensure_graph_frame: "ensure_graph u g st = Inr st' \<Longrightarrow> frame st st'"
  by (auto simp: ensure_graph_def intro: add_graph_frame split: if_splits)

lemma add_graph_find:
  assumes "add_graph u g st = Inr (b, st')" "find_graph st h \<noteq> None \<or> h \<noteq> g"
  shows "find_graph st' h = find_graph st h"
proof (cases "dedicated_partition g st")
  case True
  then show ?thesis using assms by (auto simp: add_graph_def split: if_splits)
next
  case False
  obtain st1 where c: "create_partition u g st = Inr st1"
    and r: "(if find_graph st1 g \<noteq> None then st' = st1 else insert_graph g (synthetic_iri g) st1 = Inr st')"
    using assms(1) False by (auto simp: add_graph_def split: if_splits)
  have f: "find_graph st1 h = find_graph st h" for h
    using create_partition_spec[OF c False] by (simp add: find_graph_def)
  show ?thesis
    using r assms(2) f find_graph_insert[of g "synthetic_iri g" st1 st' h] by (auto split: if_splits)
qed

lemma ensure_graph_locked:
  assumes "ensure_graph u g st = Inr st'"
  shows "locked st' h \<longleftrightarrow> locked st h"
proof (cases "dedicated_partition g st")
  case False
  then obtain b where a: "add_graph u g st = Inr (b, st')" using assms by (auto simp: ensure_graph_def)
  show ?thesis
  proof (cases "find_graph st h = None \<and> h = g")
    case True
    then have n: "find_graph st g = None" by blast
    obtain st1 where c: "create_partition u g st = Inr st1"
      and r: "(if find_graph st1 g \<noteq> None then st' = st1 else insert_graph g (synthetic_iri g) st1 = Inr st')"
      using a False by (auto simp: add_graph_def split: if_splits)
    have "find_graph st1 g = None"
      using create_partition_spec[OF c False] n by (simp add: find_graph_def)
    then have "find_graph st' g = Some (new_row g (synthetic_iri g))"
      using r find_graph_insert[of g "synthetic_iri g" st1 st' g] by simp
    then show ?thesis using True n by (auto simp: locked_def new_row_def)
  next
    case False
    then show ?thesis using add_graph_find[OF a] by (auto simp: locked_def)
  qed
qed (use assms in \<open>simp add: ensure_graph_def\<close>)

lemma copy_rows_frame:
  assumes "ensure_graph u dst st = Inr st1" "insert_quads (retarget dst rs) st1 = Inr st'" "\<not> locked st dst"
  shows "frame st st'"
proof (rule frame_trans[OF ensure_graph_frame[OF assms(1)]])
  show "frame st1 st'"
    by (rule insert_quads_frame[OF assms(2)])
      (use assms(3) ensure_graph_locked[OF assms(1)] in \<open>auto simp: retarget_def\<close>)
qed

lemma copy_graph_frame:
  assumes "copy_graph u src dst st = Inr (n, st')"
  shows "frame st st'"
  using assms copy_rows_frame ensure_graph_frame unfolding copy_graph_def
  by (auto simp: Let_def split: if_splits)

lemma move_graph_frame:
  assumes "move_graph u src dst st = Inr (n, st')"
  shows "frame st st'"
  using assms frame_trans[OF copy_graph_frame drop_graph_frame] unfolding move_graph_def
  by (fastforce split: if_splits)

lemma carve_graph_frame:
  assumes "carve_graph u dict src p dst st = Inr (n, st')"
  shows "frame st st'"
  using assms copy_rows_frame unfolding carve_graph_def
  by (auto simp: Let_def split: if_splits option.splits)

lemma carve_neighbourhood_frame:
  assumes "carve_graph_neighbourhood u dict src ss dst k st = Inr (n, st')"
  shows "frame st st'"
  using assms copy_rows_frame unfolding carve_graph_neighbourhood_def
  by (auto simp: Let_def split: if_splits)

section \<open>Locking, unlocking and raw SQL\<close>

text \<open>What the calls outside the frame still keep: the invariant and the truth of cached digests.\<close>

definition sound :: "store \<Rightarrow> store \<Rightarrow> bool" where
  "sound st st' \<longleftrightarrow> (store_ok st \<longrightarrow> store_ok st' \<and> cache_safe st st')"

lemma frame_sound: "frame st st' \<Longrightarrow> sound st st'"
  by (simp add: frame_def sound_def)

text \<open>The flag of one registered graph set, its cached digest cleared.\<close>

lemma set_lock_spec:
  assumes "find_graph st g = Some r"
    and st'_def: "st' = update_graph g (\<lambda>r. r\<lparr>glocked := b, greason := x, gdigest := None\<rparr>) st"
  shows "locked st' h \<longleftrightarrow> (if h = g then b else locked st h)"
    and "cached st' h d \<longleftrightarrow> h \<noteq> g \<and> cached st h d"
    and "registered_graph st' h \<longleftrightarrow> registered_graph st h"
    and "rows_ok st \<Longrightarrow> rows_ok st'"
    and "quads st' = quads st" "parts st' = parts st" "trow st' = trow st" "ttrunc st' = ttrunc st"
proof -
  have f: "find_graph st' h = (if h = g then map_option (\<lambda>r. r\<lparr>glocked := b, greason := x, gdigest := None\<rparr>)
      (find_graph st h) else find_graph st h)" for h
    unfolding st'_def by (rule find_graph_update) simp
  show l: "locked st' h \<longleftrightarrow> (if h = g then b else locked st h)"
    using assms(1) by (simp add: locked_def f)
  show same: "quads st' = quads st" "parts st' = parts st" "trow st' = trow st" "ttrunc st' = ttrunc st"
    by (simp_all add: st'_def update_graph_def)
  show "cached st' h d \<longleftrightarrow> h \<noteq> g \<and> cached st h d"
    using assms(1) l same f by (auto simp: cached_def custody_def)
  show "registered_graph st' h \<longleftrightarrow> registered_graph st h"
    using f by (simp add: registered_graph_def)
  have "map gid (graphs st') = map gid (graphs st)" "map giri (graphs st') = map giri (graphs st)"
    by (simp_all add: st'_def update_graph_def)
  moreover have "\<forall>r \<in> set (graphs st). \<not> glocked r \<longrightarrow> gdigest r = None \<Longrightarrow>
      \<forall>r \<in> set (graphs st'). \<not> glocked r \<longrightarrow> gdigest r = None"
    by (auto simp: st'_def update_graph_def)
  ultimately show "rows_ok st \<Longrightarrow> rows_ok st'" by (simp add: rows_ok_def)
qed

lemma lock_graph_Inr:
  assumes "lock_graph g reason st = Inr st'"
  obtains r where "find_graph st g = Some r" "\<not> glocked r"
    "install_lock_triggers g (update_graph g (\<lambda>r. r\<lparr>glocked := True, greason := Some reason, gdigest := None\<rparr>) st)
       = Inr st'"
  using assms by (auto simp: lock_graph_def split: if_splits option.splits)

lemma lock_graph_sound:
  assumes "lock_graph g reason st = Inr st'"
  shows "sound st st' \<and> fenced st st' \<and> locked st' g \<and> (dedicated_partition g st \<longrightarrow> custody st' g)"
proof -
  obtain r where r: "find_graph st g = Some r" "\<not> glocked r" and
    i: "install_lock_triggers g (update_graph g (\<lambda>r. r\<lparr>glocked := True, greason := Some reason, gdigest := None\<rparr>) st)
       = Inr st'" (is "install_lock_triggers g ?u = _")
    using lock_graph_Inr[OF assms] .
  note u = set_lock_spec[OF r(1) refl, where b = True and x = "Some reason"]
  have same: "graphs st' = graphs ?u" "quads st' = quads st" "parts st' = parts st"
    "set (trow st') = set (trow st) \<union> (if dedicated_partition g st then {g} else {})"
    "set (ttrunc st') = set (ttrunc st) \<union> (if dedicated_partition g st then {g} else {})"
    using i u(5-8) by (auto simp: install_lock_triggers_def dedicated_partition_def split: if_splits)
  have f: "find_graph st' h = find_graph ?u h" for h using same(1) by (simp add: find_graph_def)
  then have l: "locked st' h \<longleftrightarrow> h = g \<or> locked st h" for h
    using u(1)[of h] by (simp add: locked_def)
  have c: "cached st' h d \<Longrightarrow> cached st h d" for h d
  proof -
    assume c: "cached st' h d"
    then have "h \<noteq> g" using f r(1) find_graph_update[of "\<lambda>r. r\<lparr>glocked := True, greason := Some reason, gdigest := None\<rparr>" g st h]
      by (auto simp: cached_def)
    then show "cached st h d"
      using c f same(4,5) l find_graph_update[of "\<lambda>r. r\<lparr>glocked := True, greason := Some reason, gdigest := None\<rparr>" g st h]
      by (auto simp: cached_def custody_def split: if_splits)
  qed
  have "rows_ok st \<Longrightarrow> rows_ok st'" using u(4) same(1) by (simp add: rows_ok_def)
  moreover have "registered_graph st' h \<longleftrightarrow> registered_graph st h" for h
    using u(3)[of h] f by (simp add: registered_graph_def)
  ultimately have "store_ok st \<Longrightarrow> store_ok st'"
    using same l unfolding store_ok_def parts_ok_def
    by (auto simp: dedicated_partition_def split: if_splits)
  then show ?thesis
    using l c same(2,4,5) unfolding sound_def cache_safe_def fenced_def custody_def by (simp add: graph_quads_def)
qed

lemma unlock_graph_sound:
  assumes "unlock_graph g reason st = Inr st'"
  shows "sound st st' \<and> \<not> locked st' g \<and> quads st' = quads st"
proof -
  obtain r where r: "find_graph st g = Some r" "glocked r" and
    d: "st' = drop_lock_triggers g
       (update_graph g (\<lambda>r. r\<lparr>glocked := False, greason := None, gdigest := None\<rparr>) st)"
      (is "_ = drop_lock_triggers g ?u")
    using assms by (auto simp: unlock_graph_def split: if_splits option.splits)
  note u = set_lock_spec[OF r(1) refl, where b = False and x = None]
  have same: "graphs st' = graphs ?u" "quads st' = quads st" "parts st' = parts st"
    "set (trow st') = set (trow st) - (if dedicated_partition g st then {g} else {})"
    "set (ttrunc st') = set (ttrunc st) - (if dedicated_partition g st then {g} else {})"
    using d u(5-8) by (auto simp: drop_lock_triggers_def dedicated_partition_def split: if_splits)
  have f: "find_graph st' h = find_graph ?u h" for h using same(1) by (simp add: find_graph_def)
  then have l: "locked st' h \<longleftrightarrow> h \<noteq> g \<and> locked st h" for h
    using u(1)[of h] by (simp add: locked_def)
  have c: "cached st' h d \<Longrightarrow> cached st h d" for h d
  proof -
    assume c: "cached st' h d"
    then have "h \<noteq> g" using l by (auto simp: cached_def)
    then show "cached st h d"
      using c f same(4,5) l find_graph_update[of "\<lambda>r. r\<lparr>glocked := False, greason := None, gdigest := None\<rparr>" g st h]
      by (auto simp: cached_def custody_def split: if_splits)
  qed
  have "rows_ok st \<Longrightarrow> rows_ok st'" using u(4) same(1) by (simp add: rows_ok_def)
  moreover have "registered_graph st' h \<longleftrightarrow> registered_graph st h" for h
    using u(3)[of h] f by (simp add: registered_graph_def)
  moreover have "g \<notin> set (trow st')" "g \<notin> set (ttrunc st')" if "store_ok st"
    using that same(4,5) by (auto simp: store_ok_def dedicated_partition_def)
  ultimately have "store_ok st \<Longrightarrow> store_ok st'"
    using same l unfolding store_ok_def parts_ok_def by (auto split: if_splits)
  then show ?thesis
    using l c same(2) unfolding sound_def cache_safe_def by (simp add: graph_quads_def)
qed

lemma sql_quads_sound:
  assumes "graphs st' = graphs st" "parts st' = parts st" "trow st' = trow st" "ttrunc st' = ttrunc st"
    and "\<And>g. custody st g \<Longrightarrow> graph_quads st' g = graph_quads st g"
  shows "sound st st'"
proof -
  have f: "find_graph st' g = find_graph st g" for g using assms(1) by (simp add: find_graph_def)
  then have l: "locked st' g = locked st g" for g by (simp add: locked_def)
  show ?thesis
    using assms f l
    unfolding sound_def cache_safe_def cached_def custody_def store_ok_def rows_ok_def
      parts_ok_def registered_graph_def by simp
qed

lemma insert_quads_custody:
  assumes "insert_quads xs st = Inr st'" "g \<in> set (trow st)"
  shows "graph_quads st' g = graph_quads st g"
proof -
  have "filter (\<lambda>q. qg q = g) xs = []"
    using assms by (auto simp: insert_quads_def filter_empty_conv list_ex_iff split: if_splits)
  then show ?thesis using assms(1) by (auto simp: insert_quads_def graph_quads_def split: if_splits)
qed

lemma delete_quads_custody:
  assumes "delete_quads P st = Inr st'" "g \<in> set (trow st)"
  shows "graph_quads st' g = graph_quads st g"
proof -
  have "\<forall>q \<in> set (quads st). qg q = g \<longrightarrow> \<not> P q" and s: "st' = st\<lparr>quads := filter (\<lambda>q. \<not> P q) (quads st)\<rparr>"
    using assms by (auto simp: delete_quads_def list_ex_iff split: if_splits)
  then show ?thesis by (auto simp: graph_quads_def s intro: filter_cong)
qed

lemma update_quads_custody:
  assumes "update_quads f st = Inr st'" "g \<in> set (trow st)"
  shows "graph_quads st' g = graph_quads st g"
proof -
  let ?h = "\<lambda>q. case f q of Some q' \<Rightarrow> q' | None \<Rightarrow> q"
  have h: "?h q = q \<or> qg q \<noteq> g \<and> qg (?h q) \<noteq> g" if "q \<in> set (quads st)" for q
    using assms that by (cases "f q") (auto simp: update_quads_def list_ex_iff split: if_splits option.splits)
  have "filter (\<lambda>q. qg q = g) (map ?h xs) = filter (\<lambda>q. qg q = g) xs" if "set xs \<subseteq> set (quads st)" for xs
    using that
  proof (induction xs)
    case (Cons q xs)
    then show ?case using h[of q] by auto
  qed simp
  moreover have "quads st' = map ?h (quads st)" using assms(1) by (auto simp: update_quads_def split: if_splits)
  ultimately show ?thesis by (simp add: graph_quads_def)
qed

lemma sql_update_sound: "update_quads f st = Inr st' \<Longrightarrow> sound st st'"
  by (rule sql_quads_sound) (auto simp: update_quads_custody custody_def update_quads_def split: if_splits)

lemma sql_insert_sound: "insert_quads xs st = Inr st' \<Longrightarrow> sound st st'"
  by (rule sql_quads_sound) (auto simp: insert_quads_custody custody_def insert_quads_def split: if_splits)

lemma sql_delete_sound: "delete_quads P st = Inr st' \<Longrightarrow> sound st st'"
  by (rule sql_quads_sound) (auto simp: delete_quads_custody custody_def delete_quads_def split: if_splits)

lemma truncate_custody:
  assumes "truncate_partition g st = Inr st'" "h \<in> set (ttrunc st)"
  shows "graph_quads st' h = graph_quads st h"
proof -
  have "h \<noteq> g" and s: "st' = st\<lparr>quads := filter (\<lambda>q. qg q \<noteq> g) (quads st)\<rparr>"
    using assms by (auto simp: truncate_partition_def split: if_splits)
  then show ?thesis by (simp add: graph_quads_def s filter_other del: filter_filter)
qed

lemma sql_truncate_sound: "truncate_partition g st = Inr st' \<Longrightarrow> sound st st'"
  by (rule sql_quads_sound) (auto simp: truncate_custody custody_def truncate_partition_def split: if_splits)

lemma drop_trigger_sound:
  assumes "st' = st\<lparr>trow := removeAll g (trow st)\<rparr> \<or> st' = st\<lparr>ttrunc := removeAll g (ttrunc st)\<rparr>"
  shows "sound st st' \<and> fenced st st'"
proof -
  have same: "graphs st' = graphs st" "quads st' = quads st" "parts st' = parts st"
    "set (trow st') \<subseteq> set (trow st)" "set (ttrunc st') \<subseteq> set (ttrunc st)"
    using assms by auto
  then have f: "find_graph st' h = find_graph st h" for h by (simp add: find_graph_def)
  then have l: "locked st' h = locked st h" for h by (simp add: locked_def)
  have "store_ok st \<Longrightarrow> store_ok st'"
    using same f l unfolding store_ok_def rows_ok_def parts_ok_def registered_graph_def by auto
  then show ?thesis
    using same l f unfolding sound_def fenced_def cache_safe_def cached_def custody_def graph_quads_def by auto
qed

section \<open>Every call\<close>

text \<open>An overload by IRI is the call on the graph the IRI names.\<close>

lemma iri_calls:
  "drop_graph_iri u iri c st = Inr x \<Longrightarrow> \<exists>g. drop_graph u g c st = Inr x"
  "clear_graph_iri u iri st = Inr x \<Longrightarrow> \<exists>g. clear_graph u g st = Inr x"
  "copy_graph_iri u i j st = Inr x \<Longrightarrow> \<exists>g h. copy_graph u g h st = Inr x"
  "move_graph_iri u i j st = Inr x \<Longrightarrow> \<exists>g h. move_graph u g h st = Inr x"
  by (auto simp: drop_graph_iri_def clear_graph_iri_def copy_graph_iri_def move_graph_iri_def)

lemmas call_frames = put_quad_frame add_graph_frame add_graph_iri_frame create_graph_frame
  add_graph_id_iri_frame drop_graph_frame clear_graph_frame copy_graph_frame move_graph_frame
  carve_graph_frame carve_neighbourhood_frame

lemma map_sum_Inr: "map_sum id f m = Inr y \<longleftrightarrow> (\<exists>x. m = Inr x \<and> y = f x)"
  by (cases m) auto

lemma update_calls_frame:
  "frame st (stamp_materialize g n now st)" "frame st (begin_source_record g st)"
  "frame st (finish_source_record sha g bytes st)"
  unfolding stamp_materialize_def begin_source_record_def finish_source_record_def
  by (rule update_frame_iri; simp)+

lemma engine_call_frame:
  assumes "exec_call u dict sha c st = Inr st'" "engine_call c" "\<nexists>g r. c = Lock_Graph g r"
  shows "frame st st'"
  using assms call_frames update_calls_frame by (cases c) (auto simp: map_sum_Inr dest!: iri_calls)

lemma exec_call_sound:
  assumes "exec_call u dict sha c st = Inr st'"
  shows "sound st st'"
proof (cases "engine_call c \<and> (\<nexists>g r. c = Lock_Graph g r)")
  case True
  then show ?thesis using engine_call_frame[OF assms] frame_sound by blast
next
  case False
  then show ?thesis
    using assms lock_graph_sound unlock_graph_sound sql_insert_sound sql_delete_sound sql_update_sound
      sql_truncate_sound drop_trigger_sound[OF disjI1[OF refl]] drop_trigger_sound[OF disjI2[OF refl]]
    by (cases c) (auto split: if_splits)
qed

lemma unlock_other:
  assumes "unlock_graph h reason st = Inr st'" "h \<noteq> g"
  shows "locked st' g \<longleftrightarrow> locked st g"
proof -
  have "find_graph st' g = find_graph st g"
    using assms find_graph_update[of "\<lambda>r. r\<lparr>glocked := False, greason := None, gdigest := None\<rparr>" h st g]
    by (auto simp: unlock_graph_def drop_lock_triggers_def find_graph_def split: if_splits option.splits)
  then show ?thesis by (simp add: locked_def)
qed

section \<open>What the store promises\<close>

text \<open>A locked graph refuses every verb that writes it, named by id or by IRI, with 55P03; while its two triggers
  stand, so does SQL straight at the quads.\<close>

lemma locked_graph_refuses_verbs:
  assumes "locked st g" "0 \<le> g" "0 \<le> h"
  shows "put_quad s p o' g st = Inl Lock_Not_Available \<and>
    drop_graph u g c st = Inl Lock_Not_Available \<and>
    clear_graph u g st = Inl Lock_Not_Available \<and>
    copy_graph u h g st = Inl Lock_Not_Available \<and>
    move_graph u g h st = Inl Lock_Not_Available \<and>
    move_graph u h g st = Inl Lock_Not_Available \<and>
    carve_graph u dict h p' g st = Inl Lock_Not_Available \<and>
    carve_graph_neighbourhood u dict h ss g k st = Inl Lock_Not_Available \<and>
    (custody st g \<longrightarrow> truncate_partition g st = Inl Lock_Not_Available \<and>
       (\<forall>xs. g \<in> qg ` set xs \<longrightarrow> insert_quads xs st = Inl Lock_Not_Available) \<and>
       (\<forall>P q. q \<in> set (quads st) \<and> qg q = g \<and> P q \<longrightarrow> delete_quads P st = Inl Lock_Not_Available) \<and>
       (\<forall>f q q'. q \<in> set (quads st) \<and> f q = Some q' \<and> (qg q = g \<or> qg q' = g) \<longrightarrow> update_quads f st = Inl Lock_Not_Available))"
  using assms require_unlocked_locked[of st g] require_unlocked_bind[of h st]
  by (auto simp: put_quad_def drop_graph_def clear_graph_def copy_graph_def move_graph_def
      carve_graph_def carve_graph_neighbourhood_def insert_quads_def delete_quads_def truncate_partition_def
      custody_def list_ex_iff) (force simp: update_quads_def list_ex_iff split: option.splits)+

text \<open>C5: whatever call of the type \<open>call\<close> succeeds, a locked graph keeps its quads and its lock, unless the call is its
  own unlock. The calls are \<open>put_quad\<close>, the verbs of \<open>graphs.rs\<close> by id and by IRI, the two carves, locking and unlocking,
  the stamps of a load and of \<open>materialize\<close>, and, while the graph's two triggers stand, INSERT, DELETE, UPDATE and
  TRUNCATE straight at the quads. SPARQL UPDATE has its own theorem in \<open>Sparql_Update\<close>; the dict-batched loaders do not
  ask for the lock and are not among the calls.\<close>

theorem locked_graph_unchanged:
  assumes "exec_call u dict sha c st = Inr st'" "store_ok st" "locked st g"
    and "engine_call c \<or> custody st g" "\<And>r. c \<noteq> Unlock_Graph g r"
  shows "graph_quads st' g = graph_quads st g \<and> locked st' g"
proof (cases "engine_call c")
  case True
  show ?thesis
  proof (cases "\<exists>h r. c = Lock_Graph h r")
    case True
    then show ?thesis using lock_graph_sound assms(1,3) by (auto simp: fenced_def)
  next
    case False
    then show ?thesis
      using engine_call_frame[OF assms(1) True] assms(2,3) by (simp add: frame_def fenced_def)
  qed
next
  case False
  then have t: "g \<in> set (trow st)" "g \<in> set (ttrunc st)" using assms(4) by (simp_all add: custody_def)
  have same: "graphs st' = graphs st \<Longrightarrow> locked st' g = locked st g"
    by (simp add: locked_def find_graph_def)
  show ?thesis
  proof (cases c)
    case (Unlock_Graph h r)
    then show ?thesis
      using unlock_graph_sound[of h r st st'] unlock_other[of h r st st' g] assms(1,3) assms(5)[of r]
      by (auto simp: graph_quads_def)
  next
    case (Sql_Insert xs)
    then have i: "insert_quads xs st = Inr st'" using assms(1) by simp
    then have "graphs st' = graphs st" by (auto simp: insert_quads_def split: if_splits)
    then show ?thesis using insert_quads_custody[OF i t(1)] same assms(3) by simp
  next
    case (Sql_Delete xs)
    then have i: "delete_quads (\<lambda>q. q \<in> set xs) st = Inr st'" using assms(1) by simp
    then have "graphs st' = graphs st" by (auto simp: delete_quads_def split: if_splits)
    then show ?thesis using delete_quads_custody[OF i t(1)] same assms(3) by simp
  next
    case (Sql_Update xs)
    then have i: "update_quads (map_of xs) st = Inr st'" using assms(1) by simp
    then have "graphs st' = graphs st" by (auto simp: update_quads_def split: if_splits)
    then show ?thesis using update_quads_custody[OF i t(1)] same assms(3) by simp
  next
    case (Sql_Truncate h)
    then have i: "truncate_partition h st = Inr st'" using assms(1) by (simp split: if_splits)
    then have "graphs st' = graphs st" by (auto simp: truncate_partition_def split: if_splits)
    then show ?thesis using truncate_custody[OF i t(2)] same assms(3) by simp
  next
    case (Drop_Trigger h b)
    then have "graphs st' = graphs st" "quads st' = quads st" using assms(1) by (auto split: if_splits)
    then show ?thesis using same assms(3) by (simp add: graph_quads_def)
  qed (use False in simp_all)
qed

text \<open>The calls as a transition system, whatever the privileges of the caller.\<close>

definition call_step :: "dict_row list \<Rightarrow> (string \<Rightarrow> string) \<Rightarrow> store \<Rightarrow> store \<Rightarrow> bool" where
  "call_step dict sha st st' \<longleftrightarrow> (\<exists>u c. exec_call u dict sha c st = Inr st')"

lemma fresh_store_ok: "store_ok fresh_store"
  by (simp add: store_ok_def rows_ok_def parts_ok_def fresh_store_def new_row_def)

interpretation calls: step_invariant "\<lambda>st. st = fresh_store" "call_step dict sha" store_ok for dict sha
proof unfold_locales
  show "store_ok t" if "store_ok s" "call_step dict sha s t" for s t
    using that exec_call_sound by (auto simp: call_step_def sound_def)
qed (simp add: fresh_store_ok)

text \<open>C35: from a fresh store, through any sequence of these calls, with raw SQL at the quads and dropped triggers among
  them, graph ids and IRIs stay unique, every partition is registered (none is an orphan), only the partitions of
  locked graphs carry lock triggers, and only locked graphs hold a cached digest. SQL straight at the registry
  \<open>_pgrdf_graphs\<close> is not one of the calls.\<close>

theorem registry_invariant:
  assumes "(call_step dict sha)\<^sup>*\<^sup>* fresh_store st"
  shows "store_ok st \<and> orphan_partitions st = []"
proof -
  have ok: "store_ok st" using calls.reachable_inv[OF refl assms] .
  then have "filter (\<lambda>g. find_graph st g = None) (parts st) = []"
    by (auto simp: store_ok_def registered_graph_def filter_empty_conv)
  then show ?thesis using ok by (simp add: orphan_partitions_def)
qed

section \<open>What the lifecycle calls do\<close>

lemma insert_graph_same:
  "insert_graph g iri st = Inr st' \<Longrightarrow> quads st' = quads st \<and> parts st' = parts st \<and> gseq st' = gseq st"
  by (auto simp: insert_graph_def split: if_splits)

text \<open>The partition part of \<open>add_graph\<close>.\<close>

lemma add_graph_parts:
  assumes "add_graph u g st = Inr (b, st')"
  shows "quads st' = quads st \<and> set (parts st') = insert g (set (parts st)) \<and>
    gseq st' = (if dedicated_partition g st then gseq st else advance_seq g (gseq st)) \<and>
    b = (\<not> dedicated_partition g st)"
proof (cases "dedicated_partition g st")
  case True
  then show ?thesis using assms by (auto simp: add_graph_def dedicated_partition_def split: if_splits)
next
  case False
  obtain st1 where c: "create_partition u g st = Inr st1" and b: "b"
    and r: "(if find_graph st1 g \<noteq> None then st' = st1 else insert_graph g (synthetic_iri g) st1 = Inr st')"
    using assms False by (auto simp: add_graph_def split: if_splits)
  have "quads st' = quads st1 \<and> parts st' = parts st1 \<and> gseq st' = gseq st1"
    using r insert_graph_same by (auto split: if_splits)
  then show ?thesis using create_partition_spec[OF c False] b False by simp
qed

lemma add_graph_quads: "add_graph u g st = Inr (b, st') \<Longrightarrow> quads st' = quads st \<and> dedicated_partition g st'"
  using add_graph_parts by (simp add: dedicated_partition_def)

lemma ensure_graph_quads: "ensure_graph u g st = Inr st' \<Longrightarrow> quads st' = quads st \<and> dedicated_partition g st'"
  using add_graph_quads by (auto simp: ensure_graph_def split: if_splits)

lemma ensure_graph_parts: "ensure_graph u g st = Inr st' \<Longrightarrow> set (parts st) \<subseteq> set (parts st')"
  using add_graph_parts by (auto simp: ensure_graph_def split: if_splits)

lemma copy_graph_parts:
  assumes "copy_graph u src dst st = Inr (n, st')"
  shows "set (parts st) \<subseteq> set (parts st')"
proof (cases "dedicated_partition src st")
  case True
  then obtain st1 where e: "ensure_graph u dst st = Inr st1"
    and c: "(if graph_quads st1 src = [] then st' = st1
      else insert_quads (retarget dst (graph_quads st1 src)) st1 = Inr st')"
    using assms by (auto simp: copy_graph_def Let_def split: if_splits)
  have "parts st' = parts st1" using c by (auto simp: insert_quads_def split: if_splits)
  then show ?thesis using ensure_graph_parts[OF e] by simp
qed (use assms in \<open>auto simp: copy_graph_def split: if_splits\<close>)

lemma retarget_quads:
  "filter (\<lambda>q. qg q = h) (retarget g xs) = (if h = g then retarget g xs else [])"
  by (induction xs) (auto simp: retarget_def)

lemma insert_retarget:
  assumes "ensure_graph u dst st = Inr st1" "insert_quads (retarget dst xs) st1 = Inr st'"
  shows "graph_quads st' h = graph_quads st h @ (if h = dst then retarget dst xs else [])"
proof -
  have "quads st' = quads st @ retarget dst xs"
    using assms(2) ensure_graph_quads[OF assms(1)] by (auto simp: insert_quads_def split: if_splits)
  then show ?thesis by (simp add: graph_quads_def retarget_quads)
qed

lemma copy_graph_quads:
  assumes "copy_graph u src dst st = Inr (n, st')" "dedicated_partition src st"
  shows "n = count_quads src st \<and>
    graph_quads st' h = graph_quads st h @ (if h = dst then retarget dst (graph_quads st src) else [])"
proof -
  obtain st1 where e: "ensure_graph u dst st = Inr st1"
    and c: "(if graph_quads st1 src = [] then (n, st') = (0, st1)
      else insert_quads (retarget dst (graph_quads st1 src)) st1 = Inr st' \<and> n = length (graph_quads st1 src))"
    using assms by (auto simp: copy_graph_def Let_def split: if_splits)
  have g: "graph_quads st1 x = graph_quads st x" for x
    using ensure_graph_quads[OF e] by (simp add: graph_quads_def)
  show ?thesis
  proof (cases "graph_quads st src = []")
    case True
    then show ?thesis using c g by (simp add: count_quads_def retarget_def)
  next
    case False
    then show ?thesis using c g insert_retarget[OF e, of _ st' h] by (auto simp: count_quads_def)
  qed
qed

text \<open>\<open>copy_graph\<close> appends the source's quads, inferred flags included, to the destination, and
  changes no other graph, the source included; it returns how many it copied.\<close>

theorem copy_graph_copies:
  assumes "copy_graph u src dst st = Inr (n, st')" "dedicated_partition src st"
  shows "n = count_quads src st \<and>
    graph_quads st' dst = graph_quads st dst @ retarget dst (graph_quads st src) \<and>
    (\<forall>h. h \<noteq> dst \<longrightarrow> graph_quads st' h = graph_quads st h)"
  using copy_graph_quads[OF assms] by simp

lemma drop_graph_quads:
  assumes "drop_graph u g c st = Inr (n, st')" "dedicated_partition g st"
  shows "n = count_quads g st \<and> graph_quads st' g = [] \<and> \<not> dedicated_partition g st' \<and>
    find_graph st' g = None \<and> (\<forall>h. h \<noteq> g \<longrightarrow> graph_quads st' h = graph_quads st h)"
proof -
  have n: "n = count_quads g st" and st': "st' = delete_graph g (drop_partition g st)"
    using assms by (auto simp: drop_graph_def split: if_splits)
  have q: "quads st' = filter (\<lambda>q. qg q \<noteq> g) (quads st)" "g \<notin> set (parts st')"
    unfolding st' by (simp_all add: delete_graph_def drop_partition_def)
  have "graph_quads st' h = graph_quads st h" if "h \<noteq> g" for h
    unfolding graph_quads_def q(1) by (rule filter_other[OF that])
  moreover have "graph_quads st' g = []" by (simp add: graph_quads_def q(1) filter_empty_conv)
  moreover have "find_graph st' g = None" unfolding st' find_graph_delete by simp
  ultimately show ?thesis using n q(2) by (simp add: dedicated_partition_def)
qed

text \<open>\<open>move_graph\<close> into an empty destination leaves exactly the source's quads there, the
  source unregistered, without a partition and without quads, and every other graph as it was.\<close>

theorem move_graph_moves:
  assumes "move_graph u src dst st = Inr (n, st')" "dedicated_partition src st"
    and "graph_quads st dst = []"
  shows "n = count_quads src st \<and> graph_quads st' dst = retarget dst (graph_quads st src) \<and>
    graph_quads st' src = [] \<and> \<not> dedicated_partition src st' \<and> find_graph st' src = None \<and>
    (\<forall>h. h \<noteq> src \<longrightarrow> h \<noteq> dst \<longrightarrow> graph_quads st' h = graph_quads st h)"
proof -
  obtain st1 m where c: "copy_graph u src dst st = Inr (n, st1)"
    and d: "drop_graph u src True st1 = Inr (m, st')" and ne: "src \<noteq> dst"
    using assms by (auto simp: move_graph_def split: if_splits)
  note cq = copy_graph_quads[OF c assms(2)]
  have "dedicated_partition src st1"
    using copy_graph_parts[OF c] assms(2) by (auto simp: dedicated_partition_def)
  then show ?thesis using drop_graph_quads[OF d] cq ne assms(3) by auto
qed

text \<open>\<open>clear_graph\<close> on a graph with its own partition removes exactly its quads and returns
  their number; the registration, the partition and every other graph stay.\<close>

theorem clear_graph_clears:
  assumes "clear_graph u g st = Inr (n, st')" "dedicated_partition g st"
  shows "n = count_quads g st \<and> graph_quads st' g = [] \<and> graphs st' = graphs st \<and> parts st' = parts st \<and>
    (\<forall>h. h \<noteq> g \<longrightarrow> graph_quads st' h = graph_quads st h)"
proof -
  have n: "n = count_quads g st" and st': "st' = st\<lparr>quads := filter (\<lambda>q. qg q \<noteq> g) (quads st)\<rparr>"
    using assms by (auto simp: clear_graph_def truncate_partition_def split: if_splits)
  have "graph_quads st' h = graph_quads st h" if "h \<noteq> g" for h
    unfolding graph_quads_def st' using filter_other[OF that] by simp
  moreover have "graph_quads st' g = []" by (simp add: graph_quads_def st' filter_empty_conv)
  ultimately show ?thesis using n st' by simp
qed

section \<open>Graph ids\<close>

lemma next_free_ge: "v \<le> next_free k st v"
proof (induction k arbitrary: v)
  case (Suc k)
  have "v + 1 \<le> next_free k st (v + 1)" by (rule Suc.IH)
  then show ?case by simp
qed simp

lemma next_free_walk:
  "taken st (next_free k st v) \<Longrightarrow> \<forall>i \<le> k. taken st (v + int i)"
proof (induction k arbitrary: v)
  case (Suc k)
  then have t: "taken st v" and n: "taken st (next_free k st (v + 1))" by (auto split: if_splits)
  have "taken st (v + int i)" if "i \<le> Suc k" for i
  proof (cases i)
    case 0
    then show ?thesis using t by simp
  next
    case (Suc j)
    then show ?thesis using Suc.IH[OF n] that by (auto simp: algebra_simps dest!: spec[of _ j])
  qed
  then show ?case by blast
qed simp

lemma taken_set: "{g. taken st g} = gid ` set (graphs st) \<union> set (parts st)"
  by (auto simp: taken_def find_graph_None dedicated_partition_def)

lemma next_free_free: "\<not> taken st (next_free (length (graphs st) + length (parts st)) st v)"
proof
  let ?k = "length (graphs st) + length (parts st)"
  assume "taken st (next_free ?k st v)"
  then have "(\<lambda>i. v + int i) ` {..?k} \<subseteq> {g. taken st g}" using next_free_walk by auto
  then have "card ((\<lambda>i. v + int i) ` {..?k}) \<le> card {g. taken st g}"
    by (intro card_mono) (auto simp: taken_set)
  moreover have "card ((\<lambda>i. v + int i) ` {..?k}) = Suc ?k"
    by (subst card_image) (auto simp: inj_on_def)
  moreover have "card {g. taken st g} \<le> ?k"
    unfolding taken_set
    by (rule order_trans[OF card_Un_le]) (auto intro!: add_mono card_length order_trans[OF card_image_le])
  ultimately show False by simp
qed

lemma graph_id_insert:
  "insert_graph g iri st = Inr st' \<Longrightarrow> graph_id iri st' = Some g"
  by (auto simp: insert_graph_def graph_id_def find_append new_row_def split: if_splits option.splits)

lemma graph_id_mono:
  assumes "insert_graph g iri st = Inr st'" "graph_id x st = Some h"
  shows "graph_id x st' = Some h"
  using assms by (auto simp: insert_graph_def graph_id_def find_append split: if_splits)

lemma add_graph_registered:
  assumes "add_graph u g st = Inr (b, st')" "graph_id x st = Some h"
  shows "graph_id x st' = Some h"
proof (cases "dedicated_partition g st")
  case True
  then show ?thesis using assms by (auto simp: add_graph_def split: if_splits)
next
  case False
  then obtain st1 where c: "create_partition u g st = Inr st1"
    and r: "(if find_graph st1 g \<noteq> None then st' = st1 else insert_graph g (synthetic_iri g) st1 = Inr st')"
    using assms(1) by (auto simp: add_graph_def split: if_splits)
  have "graph_id x st1 = Some h"
    using create_partition_spec[OF c False] assms(2) by (simp add: graph_id_def)
  then show ?thesis using r graph_id_mono by (auto split: if_splits)
qed

lemma add_graph_iri_new:
  assumes "add_graph_iri u iri st = Inr (g, st')" "graph_id iri st = None"
  obtains sq st1 b where "gseq st = Some sq" "g = allocate_id sq st"
    "insert_graph g iri (st\<lparr>gseq := Some (g, True)\<rparr>) = Inr st1" "add_graph u g st1 = Inr (b, st')"
  using assms by (auto simp: add_graph_iri_def Let_def split: if_splits option.splits)

text \<open>\<open>add_graph(iri)\<close> is get-or-create: a new IRI gets an id that no registration and no
  partition uses, with an empty partition of its own; from then on the IRI resolves to that id, a
  second call returns it unchanged, and \<open>create_graph\<close> refuses the IRI as a duplicate.\<close>

theorem add_graph_iri_get_or_create:
  assumes "add_graph_iri u iri st = Inr (g, st')"
  shows "graph_id iri st' = Some g \<and>
    (graph_id iri st = None \<longrightarrow> \<not> taken st g \<and> dedicated_partition g st' \<and>
       quads st' = quads st \<and> graph_quads st' g = []) \<and>
    add_graph_iri u iri st' = Inr (g, st') \<and>
    (holds_graph_ddl_privilege Create u \<longrightarrow> create_graph u iri st' = Inl Duplicate_Object)"
proof -
  have nb: "\<not> blank iri" using assms by (auto simp: add_graph_iri_def)
  have new: "graph_id iri st' = Some g \<and> \<not> taken st g \<and> dedicated_partition g st' \<and>
      quads st' = quads st \<and> graph_quads st' g = []" if n: "graph_id iri st = None"
  proof -
    obtain sq st1 b where s: "gseq st = Some sq" "g = allocate_id sq st"
      "insert_graph g iri (st\<lparr>gseq := Some (g, True)\<rparr>) = Inr st1" "add_graph u g st1 = Inr (b, st')"
      using add_graph_iri_new[OF assms n] .
    have free: "\<not> taken st g" unfolding s(2) allocate_id_def by (rule next_free_free)
    have st1: "quads st1 = quads st" "parts st1 = parts st"
      using s(3) by (auto simp: insert_graph_def split: if_splits)
    then have nd: "\<not> dedicated_partition g st1" using free by (simp add: taken_def dedicated_partition_def)
    obtain st2 where c: "create_partition u g st1 = Inr st2"
      using s(4) nd by (auto simp: add_graph_def split: if_splits)
    have "graph_quads st1 g = []" using create_partition_spec[OF c nd] by simp
    then show ?thesis
      using graph_id_insert[OF s(3)] add_graph_registered[OF s(4)] add_graph_quads[OF s(4)] free st1
      by (auto simp: graph_quads_def)
  qed
  have old: "st' = st" if "graph_id iri st = Some h" for h
    using assms that nb by (auto simp: add_graph_iri_def)
  have i: "graph_id iri st' = Some g"
  proof (cases "graph_id iri st")
    case (Some h)
    then show ?thesis using assms nb by (auto simp: add_graph_iri_def)
  qed (use new in simp)
  then show ?thesis
    using new nb by (simp add: add_graph_iri_def create_graph_def require_graph_ddl_privilege_def)
qed

text \<open>An id below the next value of the sequence is never handed out again.\<close>

definition spent :: "store \<Rightarrow> int \<Rightarrow> bool" where
  "spent st g \<longleftrightarrow> (\<exists>l c. gseq st = Some (l, c) \<and> g < (if c then l + 1 else l))"

definition seq_grows :: "store \<Rightarrow> store \<Rightarrow> bool" where
  "seq_grows st st' \<longleftrightarrow> (\<forall>g. spent st g \<longrightarrow> spent st' g)"

lemma seq_grows_same: "gseq st' = gseq st \<Longrightarrow> seq_grows st st'"
  by (simp add: seq_grows_def spent_def)

lemma seq_grows_trans: "seq_grows a b \<Longrightarrow> seq_grows b c \<Longrightarrow> seq_grows a c"
  by (simp add: seq_grows_def)

lemma advance_grows:
  assumes "gseq st' = advance_seq g (gseq st)"
  shows "seq_grows st st'"
  unfolding seq_grows_def
proof (intro allI impI)
  fix h assume "spent st h"
  then obtain l c where l: "gseq st = Some (l, c)" "h < (if c then l + 1 else l)"
    unfolding spent_def by blast
  then have "gseq st' = Some (if g > l then (g, True) else (l, c))"
    using assms by (simp add: advance_seq_def)
  then show "spent st' h" using l(2) unfolding spent_def by (cases "g > l") (auto split: if_splits)
qed

lemma add_graph_grows: "add_graph u g st = Inr (b, st') \<Longrightarrow> seq_grows st st'"
  using add_graph_parts[of u g st b st'] advance_grows seq_grows_same by metis

lemma allocate_next: "spent st h \<Longrightarrow> gseq st = Some sq \<Longrightarrow> h < allocate_id sq st"
  unfolding allocate_id_def
  by (rule less_le_trans[OF _ next_free_ge]) (auto simp: spent_def)

lemma add_graph_iri_grows:
  assumes "add_graph_iri u iri st = Inr (g, st')"
  shows "seq_grows st st'"
proof (cases "graph_id iri st")
  case None
  obtain sq st1 b where s: "gseq st = Some sq" "g = allocate_id sq st"
      "insert_graph g iri (st\<lparr>gseq := Some (g, True)\<rparr>) = Inr st1" "add_graph u g st1 = Inr (b, st')"
    using add_graph_iri_new[OF assms None] .
  have "gseq st1 = Some (g, True)" using insert_graph_same[OF s(3)] by simp
  then have "spent st1 h" if "spent st h" for h
    using allocate_next[OF that s(1)] s(2) by (auto simp: spent_def)
  then have "seq_grows st st1" by (simp add: seq_grows_def)
  then show ?thesis using add_graph_grows[OF s(4)] seq_grows_trans by blast
next
  case (Some h)
  then show ?thesis using assms by (auto simp: add_graph_iri_def intro: seq_grows_same split: if_splits)
qed

lemma insert_quads_seq: "insert_quads xs st = Inr st' \<Longrightarrow> gseq st' = gseq st"
  by (auto simp: insert_quads_def split: if_splits)

lemma ensure_graph_grows: "ensure_graph u g st = Inr st' \<Longrightarrow> seq_grows st st'"
  by (auto simp: ensure_graph_def intro: add_graph_grows seq_grows_same split: if_splits)

lemma copy_rows_grows:
  "ensure_graph u dst st = Inr st1 \<Longrightarrow> insert_quads xs st1 = Inr st' \<Longrightarrow> seq_grows st st'"
  using seq_grows_trans[OF ensure_graph_grows seq_grows_same] insert_quads_seq by blast

lemma drop_graph_seq: "drop_graph u g c st = Inr (n, st') \<Longrightarrow> gseq st' = gseq st"
  by (auto simp: drop_graph_def delete_graph_def drop_partition_def split: if_splits)

lemma copy_graph_grows: "copy_graph u src dst st = Inr (n, st') \<Longrightarrow> seq_grows st st'"
  using copy_rows_grows ensure_graph_grows unfolding copy_graph_def
  by (auto simp: Let_def intro: seq_grows_same split: if_splits)

lemma move_graph_grows:
  assumes "move_graph u src dst st = Inr (n, st')"
  shows "seq_grows st st'"
  using assms seq_grows_trans[OF copy_graph_grows seq_grows_same] drop_graph_seq
  unfolding move_graph_def by (fastforce intro: seq_grows_same split: if_splits)

lemma carve_graph_grows: "carve_graph u dict src p dst st = Inr (n, st') \<Longrightarrow> seq_grows st st'"
  using copy_rows_grows unfolding carve_graph_def
  by (auto simp: Let_def intro: seq_grows_same split: if_splits option.splits)

lemma carve_neighbourhood_grows:
  "carve_graph_neighbourhood u dict src ss dst k st = Inr (n, st') \<Longrightarrow> seq_grows st st'"
  using copy_rows_grows unfolding carve_graph_neighbourhood_def
  by (auto simp: Let_def intro: seq_grows_same split: if_splits)

lemma add_graph_id_iri_grows:
  assumes "add_graph_id_iri u g iri st = Inr (h, st')"
  shows "seq_grows st st'"
proof -
  have "insert_graph g iri st = Inr st1 \<Longrightarrow> add_graph u g st1 = Inr (b, st') \<Longrightarrow> seq_grows st st'" for st1 b
    using insert_graph_same add_graph_grows seq_grows_same seq_grows_trans by metis
  then show ?thesis
    using assms unfolding add_graph_id_iri_def
    by (auto simp: update_graph_def intro: seq_grows_same split: if_splits option.splits)
qed

lemma put_quad_seq: "put_quad s p o' g st = Inr st' \<Longrightarrow> gseq st' = gseq st"
  by (auto simp: put_quad_def dest: insert_quads_seq)

lemma truncate_seq: "truncate_partition g st = Inr st' \<Longrightarrow> gseq st' = gseq st"
  by (auto simp: truncate_partition_def split: if_splits)

lemma delete_quads_seq: "delete_quads P st = Inr st' \<Longrightarrow> gseq st' = gseq st"
  by (auto simp: delete_quads_def split: if_splits)

lemma update_quads_seq: "update_quads f st = Inr st' \<Longrightarrow> gseq st' = gseq st"
  by (auto simp: update_quads_def split: if_splits)

lemma clear_graph_seq: "clear_graph u g st = Inr (n, st') \<Longrightarrow> gseq st' = gseq st"
  by (auto simp: clear_graph_def dest: truncate_seq split: if_splits)

lemma lock_graph_seq: "lock_graph g r st = Inr st' \<Longrightarrow> gseq st' = gseq st"
  by (auto simp: lock_graph_def install_lock_triggers_def update_graph_def split: if_splits option.splits)

lemma unlock_graph_seq: "unlock_graph g r st = Inr st' \<Longrightarrow> gseq st' = gseq st"
  by (auto simp: unlock_graph_def drop_lock_triggers_def update_graph_def split: if_splits option.splits)

lemma create_graph_grows: "create_graph u iri st = Inr (g, st') \<Longrightarrow> seq_grows st st'"
  by (auto simp: create_graph_def intro: add_graph_iri_grows split: if_splits)

lemmas call_grows = add_graph_grows add_graph_iri_grows create_graph_grows add_graph_id_iri_grows
  copy_graph_grows move_graph_grows carve_graph_grows carve_neighbourhood_grows
  put_quad_seq[THEN seq_grows_same] drop_graph_seq[THEN seq_grows_same]
  clear_graph_seq[THEN seq_grows_same] lock_graph_seq[THEN seq_grows_same]
  unlock_graph_seq[THEN seq_grows_same] insert_quads_seq[THEN seq_grows_same]
  delete_quads_seq[THEN seq_grows_same] update_quads_seq[THEN seq_grows_same] truncate_seq[THEN seq_grows_same]

lemma exec_call_grows: "exec_call u dict sha c st = Inr st' \<Longrightarrow> seq_grows st st'"
  by (cases c)
    (auto simp: map_sum_Inr stamp_materialize_def begin_source_record_def finish_source_record_def
      update_graph_def intro: call_grows seq_grows_same dest!: iri_calls split: if_splits)

text \<open>That an id is spent is therefore an invariant of the calls.\<close>

interpretation spent_ids: step_invariant "\<lambda>st. spent st g" "call_step dict sha" "\<lambda>st. spent st g"
  for g dict sha
  by unfold_locales (auto simp: call_step_def seq_grows_def dest!: exec_call_grows)

text \<open>A graph id that once had a partition is never allocated to an IRI again, whatever calls
  follow, drops included; the one exception is the id equal to the start value of a sequence that
  has not been used.\<close>

theorem graph_ids_not_reused:
  assumes "add_graph u g st = Inr (True, st1)" "gseq st = Some (l, c)" "c \<or> g \<noteq> l"
    and "(call_step dict sha)\<^sup>*\<^sup>* st1 st2"
    and "add_graph_iri u' iri st2 = Inr (h, st3)" "graph_id iri st2 = None"
  shows "h \<noteq> g"
proof -
  have "gseq st1 = advance_seq g (gseq st)" using add_graph_parts[OF assms(1)] by simp
  then have "spent st1 g" using assms(2,3) by (auto simp: spent_def advance_seq_def)
  then have s: "spent st2 g" using spent_ids.reachable_inv assms(4) by blast
  obtain sq where "gseq st2 = Some sq" "h = allocate_id sq st2"
    using add_graph_iri_new[OF assms(5,6)] by metis
  then show ?thesis using allocate_next[OF s] by simp
qed

definition all_privs :: privs where
  "all_privs = \<lparr>sel_quads = True, ins_quads = True, del_quads = True, sel_graphs = True,
                ins_graphs = True, del_graphs = True, seq_usable = True\<rparr>"

text \<open>That exception is real: on a fresh installation, creating graph 1, dropping it and adding a
  graph by IRI hands out id 1 again.\<close>

theorem dropped_id_one_reused:
  "res_bind (add_graph all_privs 1 fresh_store) (\<lambda>(_, st).
     res_bind (drop_graph all_privs 1 True st) (\<lambda>(_, st).
       map_sum id fst (add_graph_iri all_privs ''urn:x'' st))) = Inr 1"
  by code_simp

text \<open>\<open>clear_graph(0)\<close> does not empty the default partition: quads of graph 0 stay, and the call
  reports 0, unless graph 0 was given a partition of its own.\<close>

theorem clear_default_keeps_quads:
  assumes "\<not> dedicated_partition 0 st" "\<not> locked st 0" "holds_graph_ddl_privilege Clear u"
  shows "clear_graph u 0 st = Inr (0, st)"
  using assms(1,3) require_unlocked_Inr[of 0 st "()"] assms(2)
  by (simp add: clear_graph_def require_graph_ddl_privilege_def)

section \<open>The neighbourhood carve\<close>

definition adj :: "quad list \<Rightarrow> (int \<times> int) set" where
  "adj qs' = {(a, b). \<exists>q \<in> set qs'. (qs q = a \<and> qo q = b) \<or> (qo q = a \<and> qs q = b)}"

lemma step_nodes_set: "set (step_nodes qs' ns) = adj qs' `` set ns"
  by (auto simp: step_nodes_def adj_def split: if_splits)

lemma hop_level_set: "set (hop_level k qs' seeds) = (adj qs' ^^ k) `` set seeds"
  by (induction k) (auto simp: step_nodes_set relcomp_unfold)

lemma frontier_set: "set (frontier_nodes k qs' seeds) = (\<Union>i \<le> k. (adj qs' ^^ i) `` set seeds)"
  by (auto simp: frontier_nodes_def hop_level_set atLeast0LessThan lessThan_Suc_atMost simp del: upt_Suc)

text \<open>The neighbourhood carve copies each distinct quad of the source once, if and only if its
  subject or object is within \<open>max_hops\<close> steps of a seed, quads being edges in both directions.\<close>

theorem carve_is_the_ball:
  "distinct (carve_rows k qs' seeds) \<and>
   set (carve_rows k qs' seeds) =
     {q \<in> set qs'. \<exists>i \<le> k. \<exists>s \<in> set seeds. (s, qs q) \<in> adj qs' ^^ i \<or> (s, qo q) \<in> adj qs' ^^ i}"
proof
  show "distinct (carve_rows k qs' seeds)" by (auto simp: carve_rows_def Let_def)
  have "set (carve_rows k qs' seeds) = {q \<in> set qs'. qs q \<in> set (frontier_nodes k qs' seeds) \<or>
      qo q \<in> set (frontier_nodes k qs' seeds)}"
    by (auto simp: carve_rows_def Let_def)
  then show "set (carve_rows k qs' seeds) =
      {q \<in> set qs'. \<exists>i \<le> k. \<exists>s \<in> set seeds. (s, qs q) \<in> adj qs' ^^ i \<or> (s, qo q) \<in> adj qs' ^^ i}"
    by (auto simp: frontier_set Image_iff)
qed

text \<open>The carve reports a boundary of 0 exactly when the slice is closed: no step leads from a
  node of the slice to a node outside it.\<close>

theorem carve_boundary_closed:
  "carve_boundary k qs' seeds = 0 \<longleftrightarrow>
     adj qs' `` set (frontier_nodes k qs' seeds) \<subseteq> set (frontier_nodes k qs' seeds)"
proof -
  let ?F = "set (frontier_nodes k qs' seeds)"
  have inner: "adj qs' `` ((adj qs' ^^ i) `` set seeds) \<subseteq> ?F" if "i < k" for i
  proof -
    have "adj qs' `` ((adj qs' ^^ i) `` set seeds) = (adj qs' ^^ Suc i) `` set seeds" by auto
    then show ?thesis using that unfolding frontier_set by (metis SUP_upper Suc_leI atMost_iff)
  qed
  have "carve_boundary k qs' seeds = 0 \<longleftrightarrow> adj qs' `` ((adj qs' ^^ k) `` set seeds) \<subseteq> ?F"
    by (auto simp: carve_boundary_def filter_empty_conv step_nodes_set hop_level_set)
  also have "\<dots> \<longleftrightarrow> adj qs' `` ?F \<subseteq> ?F"
  proof
    assume last: "adj qs' `` ((adj qs' ^^ k) `` set seeds) \<subseteq> ?F"
    show "adj qs' `` ?F \<subseteq> ?F"
    proof
      fix y assume "y \<in> adj qs' `` ?F"
      then obtain i where i: "i \<le> k" "y \<in> adj qs' `` ((adj qs' ^^ i) `` set seeds)"
        by (auto simp: frontier_set)
      then show "y \<in> ?F" using inner[of i] last by (cases "i = k") auto
    qed
  next
    have "(adj qs' ^^ k) `` set seeds \<subseteq> ?F" by (auto simp: frontier_set)
    then show "adj qs' `` ?F \<subseteq> ?F \<Longrightarrow> adj qs' `` ((adj qs' ^^ k) `` set seeds) \<subseteq> ?F" by blast
  qed
  finally show ?thesis .
qed

section \<open>Freshness\<close>

text \<open>After \<open>materialize\<close> stamps the asserted count it ran over, the inventory reads current;
  one asserted quad written through the engine makes it stale.\<close>

theorem freshness_tracks_writes:
  assumes "find_graph st g = Some r" "\<not> locked st g"
    and "st1 = stamp_materialize g (int (asserted_count st g)) now st"
    and "put_quad s p o' g st1 = Inr st2"
  shows "map_option (\<lambda>r. inv_fresh (inventory_of st1 r)) (find_graph st1 g) = Some Current \<and>
    map_option (\<lambda>r. inv_fresh (inventory_of st2 r)) (find_graph st2 g) = Some Stale"
proof -
  have g: "gid r = g" using find_graph_gid[OF assms(1)] by simp
  have f1: "find_graph st1 g = Some (r\<lparr>gmat := Some now, gbase := Some (int (asserted_count st g))\<rparr>)"
    using assms(1) find_graph_update[of "\<lambda>r. r\<lparr>gmat := Some now, gbase := Some (int (asserted_count st g))\<rparr>" g st g]
    by (simp add: assms(3) stamp_materialize_def)
  have q1: "quads st1 = quads st" by (simp add: assms(3) stamp_materialize_def update_graph_def)
  have st2: "st2 = st1\<lparr>quads := quads st1 @ [\<lparr>qs = s, qp = p, qo = o', qg = g, qinf = False\<rparr>]\<rparr>"
    using assms(4) by (auto simp: put_quad_def insert_quads_def split: if_splits)
  have "find_graph st2 g = find_graph st1 g" by (simp add: st2 find_graph_def)
  moreover have "asserted_count st2 g = Suc (asserted_count st g)"
    by (simp add: st2 q1 asserted_count_def graph_quads_def)
  moreover have "asserted_count st1 g = asserted_count st g"
    by (simp add: q1 asserted_count_def graph_quads_def)
  ultimately show ?thesis using f1 g by (simp add: inventory_of_def Let_def)
qed

section \<open>Concrete stores\<close>

definition demo_store :: store where
  "demo_store =
     \<lparr>quads = [\<lparr>qs = 1, qp = 2, qo = 3, qg = 5, qinf = False\<rparr>, \<lparr>qs = 3, qp = 2, qo = 4, qg = 5, qinf = False\<rparr>,
               \<lparr>qs = 1, qp = 2, qo = 4, qg = 5, qinf = True\<rparr>, \<lparr>qs = 8, qp = 2, qo = 9, qg = 0, qinf = False\<rparr>],
      parts = [7, 5], graphs = [new_row 0 (synthetic_iri 0), new_row 5 ''urn:a'', new_row 7 ''urn:b''],
      trow = [], ttrunc = [], gseq = Some (7, True)\<rparr>"

definition locked_store :: store where
  "locked_store = projr (lock_graph 5 ''release'' demo_store)"

lemma result_is: "\<not> isl m \<Longrightarrow> m = Inr (projr m)"
  by (cases m) auto

lemma pair_result_is: "\<not> isl m \<Longrightarrow> m = Inr (fst (projr m), snd (projr m))"
  by (cases m) auto

theorem locked_graph_unchanged_witness:
  "graph_quads (projr (exec_call all_privs [] id (Copy_Graph 5 7) locked_store)) 5 = graph_quads demo_store 5 \<and>
   locked (projr (exec_call all_privs [] id (Copy_Graph 5 7) locked_store)) 5"
proof -
  have r: "exec_call all_privs [] id (Copy_Graph 5 7) locked_store
      = Inr (projr (exec_call all_privs [] id (Copy_Graph 5 7) locked_store))"
    by (rule result_is) code_simp
  have ok: "store_ok locked_store" and l: "locked locked_store 5" by code_simp+
  have "graph_quads locked_store 5 = graph_quads demo_store 5" by code_simp
  then show ?thesis using locked_graph_unchanged[OF r ok l] by simp
qed

theorem registry_invariant_witness:
  "store_ok (projr (exec_call all_privs [] id (Add_Graph 5) fresh_store))"
proof -
  have "exec_call all_privs [] id (Add_Graph 5) fresh_store
      = Inr (projr (exec_call all_privs [] id (Add_Graph 5) fresh_store))"
    by (rule result_is) code_simp
  then have "(call_step [] id)\<^sup>*\<^sup>* fresh_store (projr (exec_call all_privs [] id (Add_Graph 5) fresh_store))"
    unfolding call_step_def by blast
  then show ?thesis using registry_invariant by blast
qed

theorem copy_graph_copies_witness:
  "graph_quads (snd (projr (copy_graph all_privs 5 7 demo_store))) 7 = retarget 7 (graph_quads demo_store 5)"
proof -
  have r: "copy_graph all_privs 5 7 demo_store = Inr (fst (projr (copy_graph all_privs 5 7 demo_store)),
      snd (projr (copy_graph all_privs 5 7 demo_store)))"
    by (rule pair_result_is) code_simp
  have d: "dedicated_partition 5 demo_store" and e: "graph_quads demo_store 7 = []" by code_simp+
  show ?thesis using copy_graph_copies[OF r d] e by simp
qed

theorem move_graph_moves_witness:
  "graph_quads (snd (projr (move_graph all_privs 5 8 demo_store))) 8 = retarget 8 (graph_quads demo_store 5) \<and>
   find_graph (snd (projr (move_graph all_privs 5 8 demo_store))) 5 = None"
proof -
  have r: "move_graph all_privs 5 8 demo_store = Inr (fst (projr (move_graph all_privs 5 8 demo_store)),
      snd (projr (move_graph all_privs 5 8 demo_store)))"
    by (rule pair_result_is) code_simp
  have d: "dedicated_partition 5 demo_store" and e: "graph_quads demo_store 8 = []" by code_simp+
  show ?thesis using move_graph_moves[OF r d e] by simp
qed

theorem clear_graph_clears_witness:
  "graph_quads (snd (projr (clear_graph all_privs 5 demo_store))) 5 = [] \<and>
   fst (projr (clear_graph all_privs 5 demo_store)) = 3"
proof -
  have r: "clear_graph all_privs 5 demo_store = Inr (fst (projr (clear_graph all_privs 5 demo_store)),
      snd (projr (clear_graph all_privs 5 demo_store)))"
    by (rule pair_result_is) code_simp
  have d: "dedicated_partition 5 demo_store" and e: "count_quads 5 demo_store = 3" by code_simp+
  show ?thesis using clear_graph_clears[OF r d] e by simp
qed

theorem add_graph_iri_get_or_create_witness:
  "graph_id ''urn:new'' (snd (projr (add_graph_iri all_privs ''urn:new'' demo_store))) = Some 8"
proof -
  have r: "add_graph_iri all_privs ''urn:new'' demo_store
      = Inr (fst (projr (add_graph_iri all_privs ''urn:new'' demo_store)),
             snd (projr (add_graph_iri all_privs ''urn:new'' demo_store)))"
    by (rule pair_result_is) code_simp
  have "fst (projr (add_graph_iri all_privs ''urn:new'' demo_store)) = 8" by code_simp
  then show ?thesis using add_graph_iri_get_or_create[OF r] by simp
qed

definition id_store :: store where
  "id_store = demo_store\<lparr>parts := [], quads := [], gseq := Some (2, True)\<rparr>"

theorem graph_ids_not_reused_witness:
  "fst (projr (add_graph_iri all_privs ''urn:x'' (snd (projr (add_graph all_privs 3 id_store))))) \<noteq> 3"
proof -
  let ?st = "snd (projr (add_graph all_privs 3 id_store))"
  have "\<not> isl (add_graph all_privs 3 id_store)" "fst (projr (add_graph all_privs 3 id_store)) = True"
    by code_simp+
  then have a: "add_graph all_privs 3 id_store = Inr (True, ?st)" using pair_result_is by metis
  have b: "add_graph_iri all_privs ''urn:x'' ?st = Inr (fst (projr (add_graph_iri all_privs ''urn:x'' ?st)),
      snd (projr (add_graph_iri all_privs ''urn:x'' ?st)))"
    by (rule pair_result_is) code_simp
  have n: "graph_id ''urn:x'' ?st = None" by code_simp
  have q: "gseq id_store = Some (2, True)" by code_simp
  show ?thesis by (rule graph_ids_not_reused[OF a q _ rtranclp.rtrancl_refl b n]) simp
qed

theorem clear_default_keeps_quads_witness:
  "clear_graph all_privs 0 demo_store = Inr (0, demo_store) \<and> count_quads 0 demo_store = 1"
proof -
  have "\<not> dedicated_partition 0 demo_store" "\<not> locked demo_store 0"
    "holds_graph_ddl_privilege Clear all_privs" "count_quads 0 demo_store = 1"
    by code_simp+
  then show ?thesis using clear_default_keeps_quads by simp
qed

theorem freshness_tracks_writes_witness:
  "map_option (\<lambda>r. inv_fresh (inventory_of (projr (put_quad 1 2 3 5 (stamp_materialize 5 2 100 demo_store))) r))
     (find_graph (projr (put_quad 1 2 3 5 (stamp_materialize 5 2 100 demo_store))) 5) = Some Stale"
proof -
  have f: "find_graph demo_store 5 = Some (new_row 5 ''urn:a'')" by code_simp
  have l: "\<not> locked demo_store 5" by code_simp
  have n: "stamp_materialize 5 2 100 demo_store
      = stamp_materialize 5 (int (asserted_count demo_store 5)) 100 demo_store" by code_simp
  have r: "put_quad 1 2 3 5 (stamp_materialize 5 2 100 demo_store)
      = Inr (projr (put_quad 1 2 3 5 (stamp_materialize 5 2 100 demo_store)))"
    by (rule result_is) code_simp
  show ?thesis using freshness_tracks_writes[OF f l n r] by simp
qed

end
