(* ===== verification/Graph_Read.thy ===== *)
theory Graph_Read
  imports Graph_Store Rdf_Terms
begin

text \<open>
  The term-structured read of a graph (\<open>read_asserted_triples_where\<close> of
  \<open>src/storage/canon.rs\<close>): the dictionary joins, the terms they give and the triples of the
  asserted quads. Every identity, export and load property speaks of a graph through this read.
\<close>

section \<open>Reading a graph\<close>

definition dict_row_of :: "dict_row list \<Rightarrow> int \<Rightarrow> dict_key option" where
  "dict_row_of dict i = map_option row_key (find (\<lambda>r. row_id r = i) dict)"

definition lexical_of :: "dict_row list \<Rightarrow> int option \<Rightarrow> string option" where
  "lexical_of dict i = Option.bind i (\<lambda>i. map_option (\<lambda>k. fst (snd k)) (dict_row_of dict i))"

definition read_subject :: "dict_key \<Rightarrow> cterm option" where
  "read_subject k = (case k of (t, v, _, _) \<Rightarrow>
     if t = 1 then Some (Iri v) else if t = 2 then Some (BNode v) else None)"

definition read_object :: "dict_row list \<Rightarrow> dict_key \<Rightarrow> cterm option" where
  "read_object dict k = (case k of (t, v, dt, lang) \<Rightarrow>
     if t = 1 then Some (Iri v) else if t = 2 then Some (BNode v)
     else if t = 3 then Some (Lit v (lexical_of dict dt) lang) else None)"

definition read_quad :: "dict_row list \<Rightarrow> quad \<Rightarrow> triple option" where
  "read_quad dict q =
     (case (dict_row_of dict (qs q), dict_row_of dict (qp q), dict_row_of dict (qo q)) of
        (Some s, Some p, Some k) \<Rightarrow>
          (case (read_subject s, read_object dict k) of
             (Some s, Some k) \<Rightarrow> Some (s, Iri (fst (snd p)), k)
           | _ \<Rightarrow> None)
      | _ \<Rightarrow> None)"

definition read_asserted_triples :: "dict_row list \<Rightarrow> quad list \<Rightarrow> triple list" where
  "read_asserted_triples dict qs' = flatten_opts (map (read_quad dict) (filter (\<lambda>q. \<not> qinf q) qs'))"

section \<open>Reading while the dictionary grows\<close>

text \<open>Rows are only ever appended in a transaction, so an id that reads keeps its reading.\<close>

lemma dict_row_of_append: "dict_row_of d i = Some k \<Longrightarrow> dict_row_of (d @ new) i = Some k"
  by (auto simp: dict_row_of_def find_append split: option.splits)

lemma dict_row_of_mem:
  "distinct (map row_id d) \<Longrightarrow> r \<in> set d \<Longrightarrow> dict_row_of d (row_id r) = Some (row_key r)"
  by (simp add: dict_row_of_def find_unique_id)

end
