(* ===== verification/Fd1.thy ===== *)
theory Fd1
  imports Canon
begin

text \<open>
  The first-degree structural digest of \<open>src/storage/fd1.rs\<close>: the fleet's minimal escaping, its
  line format, and the digest over the ground lines and the signatures of the blank nodes.
  The lemmas show that the digest depends on the graph only up to renaming of blank nodes and
  order of triples (unequal digests prove that two graphs differ), and that it does collide on
  the pair its documentation names.
\<close>

section \<open>Rendering\<close>

definition replace_char :: "char \<Rightarrow> string \<Rightarrow> string \<Rightarrow> string" where
  "replace_char c r s = concat (map (\<lambda>x. if x = c then r else [x]) s)"

definition fleet_escape :: "string \<Rightarrow> bool \<Rightarrow> string" where
  "fleet_escape s object_position =
     (let out = replace_char (CHR 0x22) [CHR 0x5C, CHR 0x22]
                  (replace_char (CHR 0x5C) [CHR 0x5C, CHR 0x5C] s) in
      if object_position then replace_char (CHR 0x0A) [CHR 0x5C, CHR ''n''] out else out)"

fun fleet_term :: "(string \<Rightarrow> string) \<Rightarrow> bool \<Rightarrow> cterm \<Rightarrow> string" where
  "fleet_term bnode object_position (Iri i) = ''<'' @ i @ ''>''"
| "fleet_term bnode object_position (BNode b) = ''_:'' @ bnode b"
| "fleet_term bnode object_position (Lit v dt lang) =
     (let esc = fleet_escape v object_position in
      if \<not> object_position then [CHR 0x22] @ esc @ [CHR 0x22]
      else
        (case (lang, dt) of
           (Some l, _) \<Rightarrow> [CHR 0x22] @ esc @ [CHR 0x22] @ ''@'' @ l
         | (None, Some d) \<Rightarrow>
             (if d \<noteq> xsd_string then [CHR 0x22] @ esc @ [CHR 0x22] @ ''^^<'' @ d @ ''>''
              else [CHR 0x22] @ esc @ [CHR 0x22])
         | (None, None) \<Rightarrow> [CHR 0x22] @ esc @ [CHR 0x22]))"

fun fleet_line :: "(string \<Rightarrow> string) \<Rightarrow> triple \<Rightarrow> string" where
  "fleet_line bnode (s, p, o') =
     fleet_term bnode False s @ '' '' @ fleet_term bnode False p @ '' '' @ fleet_term bnode True o' @ '' .''"

fun bnode_label :: "cterm \<Rightarrow> string option" where
  "bnode_label (BNode b) = Some b"
| "bnode_label _ = None"

definition is_bnode :: "cterm \<Rightarrow> bool" where
  "is_bnode t \<longleftrightarrow> (case t of BNode _ \<Rightarrow> True | _ \<Rightarrow> False)"

section \<open>The digest\<close>

definition ground_lines :: "triple list \<Rightarrow> string list" where
  "ground_lines ts =
     sort (map (fleet_line (\<lambda>b. b)) (filter (\<lambda>(s, _, o'). \<not> is_bnode s \<and> \<not> is_bnode o') ts))"

definition graph_bnodes :: "triple list \<Rightarrow> string list" where
  "graph_bnodes ts =
     remdups_adj (sort (flatten_opts
       (concat (map (\<lambda>(s, _, o'). [bnode_label s, bnode_label o']) ts))))"

definition signature :: "(string \<Rightarrow> string) \<Rightarrow> triple list \<Rightarrow> string \<Rightarrow> string" where
  "signature sha ts b =
     sha (join_str [CHR 0x0A] (sort (map (fleet_line (\<lambda>l. if l = b then ''a'' else ''z''))
       (filter (\<lambda>(s, _, o'). bnode_label s = Some b \<or> bnode_label o' = Some b) ts))))"

definition fd1_digest :: "(string \<Rightarrow> string) \<Rightarrow> triple list \<Rightarrow> string" where
  "fd1_digest sha ts =
     sha (join_str [CHR 0x0A] (ground_lines ts) @ [CHR 0x0A] @ ''--'' @ [CHR 0x0A] @
          join_str [CHR 0x0A] (sort (map (signature sha ts) (graph_bnodes ts))))"

section \<open>Relabelling\<close>

lemma fleet_term_relabel: "fleet_term g op (relabel f t) = fleet_term (\<lambda>b. g (f b)) op t"
  by (cases t) auto

lemma fleet_line_relabel: "fleet_line g (relabel3 f t) = fleet_line (\<lambda>b. g (f b)) t"
  by (cases t) (simp add: fleet_term_relabel)

lemma fleet_term_cong: "(\<And>b. t = BNode b \<Longrightarrow> f b = g b) \<Longrightarrow> fleet_term f op t = fleet_term g op t"
  by (cases t) auto

lemma fleet_line_cong:
  assumes "pred_ok t" "\<And>b. b \<in> bnodes_of t \<Longrightarrow> f b = g b"
  shows "fleet_line f t = fleet_line g t"
proof -
  obtain s p o' where t: "t = (s, p, o')" by (cases t)
  have "fleet_term f False s = fleet_term g False s" "fleet_term f True o' = fleet_term g True o'"
    using assms(2) t by (auto intro!: fleet_term_cong)
  moreover have "fleet_term f False p = fleet_term g False p"
    using assms(1) t by (cases p) auto
  ultimately show ?thesis using t by simp
qed

lemma bnode_label_Some: "bnode_label t = Some b \<longleftrightarrow> t = BNode b"
  by (cases t) auto

lemma is_bnode_label: "is_bnode t \<longleftrightarrow> (\<exists>b. t = BNode b)"
  by (cases t) (auto simp: is_bnode_def)

lemma graph_bnodes_set: "set (graph_bnodes ts) = all_bnodes ts"
proof -
  have "Some b = bnode_label t \<longleftrightarrow> t = BNode b" for b t by (cases t) auto
  then have "b \<in> set (graph_bnodes ts) \<longleftrightarrow> (\<exists>(s, p, o') \<in> set ts. s = BNode b \<or> o' = BNode b)" for b
    by (auto simp: graph_bnodes_def)
  moreover have "(\<exists>(s, p, o') \<in> set ts. s = BNode b \<or> o' = BNode b) \<longleftrightarrow> (\<exists>t \<in> set ts. b \<in> bnodes_of t)" for b
    by (intro bex_cong) auto
  ultimately have "b \<in> set (graph_bnodes ts) \<longleftrightarrow> (\<exists>t \<in> set ts. b \<in> bnodes_of t)" for b
    by simp
  then show ?thesis by (auto simp: all_bnodes_def)
qed

lemma remdups_adj_sorted_distinct: "sorted xs \<Longrightarrow> distinct (remdups_adj (xs :: 'a :: linorder list))"
proof (induction xs rule: remdups_adj.induct)
  case (3 x y xs)
  then show ?case by (auto dest: order_antisym)
qed simp_all

lemma graph_bnodes_distinct: "distinct (graph_bnodes ts)"
  by (simp add: graph_bnodes_def remdups_adj_sorted_distinct)

lemma incident_relabel:
  assumes "inj_on f (all_bnodes ts)" "b \<in> all_bnodes ts" "t \<in> set ts"
  shows "f b \<in> bnodes_of (relabel3 f t) \<longleftrightarrow> b \<in> bnodes_of t"
  using assms mem_all_bnodes[OF assms(3)] by (auto simp: bnodes_of_relabel dest: inj_onD)

lemma incident_filter:
  "filter (\<lambda>(s, _, o'). bnode_label s = Some b \<or> bnode_label o' = Some b) ts
     = filter (\<lambda>t. b \<in> bnodes_of t) ts"
  by (rule filter_cong) (auto simp: bnode_label_Some)

lemma signature_relabel:
  assumes "inj_on f (all_bnodes ts)" "b \<in> all_bnodes ts" "\<forall>t \<in> set ts. pred_ok t"
    and "mset us = mset (map (relabel3 f) ts)"
  shows "signature sha us (f b) = signature sha ts b"
proof -
  let ?l = "\<lambda>b. fleet_line (\<lambda>l. if l = b then ''a'' else ''z'')"
  have line: "?l (f b) (relabel3 f t) = ?l b t" if "t \<in> set ts" for t
    unfolding fleet_line_relabel
    using assms(1-3) that mem_all_bnodes[OF that] by (intro fleet_line_cong) (auto dest: inj_onD)
  have "filter (\<lambda>t. f b \<in> bnodes_of t) (map (relabel3 f) ts)
      = map (relabel3 f) (filter (\<lambda>t. b \<in> bnodes_of t) ts)"
    using incident_relabel[OF assms(1,2)] by (simp add: filter_map comp_def cong: filter_cong)
  then have "map (?l (f b)) (filter (\<lambda>t. f b \<in> bnodes_of t) (map (relabel3 f) ts))
      = map (?l b) (filter (\<lambda>t. b \<in> bnodes_of t) ts)"
    using line by (simp del: split_paired_All)
  then have "mset (map (?l (f b)) (filter (\<lambda>t. f b \<in> bnodes_of t) us))
      = mset (map (?l b) (filter (\<lambda>t. b \<in> bnodes_of t) ts))"
    using mset_map_filter[OF assms(4), of "?l (f b)" "\<lambda>t. f b \<in> bnodes_of t"] by (simp only:)
  from sort_mset_eq[OF this] show ?thesis
    unfolding signature_def incident_filter by (simp only:)
qed

lemma ground_filter:
  "filter (\<lambda>(s, _, o'). \<not> is_bnode s \<and> \<not> is_bnode o') ts = filter (\<lambda>t. bnodes_of t = {}) ts"
  by (rule filter_cong) (auto simp: is_bnode_label)

lemma ground_relabel:
  assumes "\<forall>t \<in> set ts. pred_ok t" "mset us = mset (map (relabel3 f) ts)"
  shows "ground_lines us = ground_lines ts"
proof -
  have "map (fleet_line (\<lambda>b. b)) (filter (\<lambda>t. bnodes_of t = {}) (map (relabel3 f) ts))
      = map (fleet_line (\<lambda>b. b)) (filter (\<lambda>t. bnodes_of t = {}) ts)"
    using assms(1)
    by (auto simp: filter_map comp_def bnodes_of_relabel fleet_line_relabel simp del: split_paired_All
        intro!: fleet_line_cong)
  then have "mset (map (fleet_line (\<lambda>b. b)) (filter (\<lambda>t. bnodes_of t = {}) us))
      = mset (map (fleet_line (\<lambda>b. b)) (filter (\<lambda>t. bnodes_of t = {}) ts))"
    using mset_map_filter[OF assms(2), of "fleet_line (\<lambda>b. b)" "\<lambda>t. bnodes_of t = {}"] by (simp only:)
  then show ?thesis unfolding ground_lines_def ground_filter by (rule sort_mset_eq)
qed

text \<open>C39: the structural digest sees neither the labels of blank nodes nor the order of triples: a graph
  and any renaming of it, in any order, have the same digest, so unequal digests prove that two
  graphs are not isomorphic.\<close>

theorem fd1_isomorphism_invariant:
  assumes "inj_on f (all_bnodes ts)" "mset us = mset (map (relabel3 f) ts)" "\<forall>t \<in> set ts. pred_ok t"
  shows "fd1_digest sha us = fd1_digest sha ts"
proof -
  have B: "all_bnodes us = f ` all_bnodes ts"
    using all_bnodes_mset[OF assms(2)] by (simp add: all_bnodes_map)
  have d: "distinct (map f (graph_bnodes ts))"
    using assms(1) graph_bnodes_distinct by (simp add: distinct_map graph_bnodes_set)
  have "mset (graph_bnodes us) = mset (map f (graph_bnodes ts))"
    using d graph_bnodes_distinct by (subst set_eq_iff_mset_eq_distinct[symmetric])
      (simp_all add: graph_bnodes_set B)
  then have "mset (map (signature sha us) (graph_bnodes us))
      = mset (map (\<lambda>b. signature sha us (f b)) (graph_bnodes ts))"
    by (rule mset_map_comp)
  also have "map (\<lambda>b. signature sha us (f b)) (graph_bnodes ts) = map (signature sha ts) (graph_bnodes ts)"
    using signature_relabel[OF assms(1) _ assms(3,2)] by (simp add: graph_bnodes_set)
  finally have "sort (map (signature sha us) (graph_bnodes us)) = sort (map (signature sha ts) (graph_bnodes ts))"
    by (rule sort_mset_eq)
  then show ?thesis unfolding fd1_digest_def ground_relabel[OF assms(3,2)] by (simp only:)
qed

definition cycle4 :: "triple list" where
  "cycle4 = [(BNode ''x1'', Iri ''p'', BNode ''x2''), (BNode ''x2'', Iri ''p'', BNode ''x3''),
             (BNode ''x3'', Iri ''p'', BNode ''x4''), (BNode ''x4'', Iri ''p'', BNode ''x1'')]"

definition two_cycles :: "triple list" where
  "two_cycles = [(BNode ''y1'', Iri ''p'', BNode ''y2''), (BNode ''y2'', Iri ''p'', BNode ''y1''),
                 (BNode ''y3'', Iri ''p'', BNode ''y4''), (BNode ''y4'', Iri ''p'', BNode ''y3'')]"

theorem fd1_isomorphism_invariant_witness: "fd1_digest (\<lambda>s. s) chain_doc' = fd1_digest (\<lambda>s. s) chain_doc"
  by (rule fd1_isomorphism_invariant[of "\<lambda>b. if b = ''x'' then ''u'' else ''v''"])
    (auto simp: inj_on_def all_bnodes_def chain_doc_def chain_doc'_def)

lemma cycle4_not_two_cycles: "\<not> isomorphic cycle4 two_cycles"
proof
  assume "isomorphic cycle4 two_cycles"
  then obtain f where inj: "inj_on f (all_bnodes cycle4)"
    and m: "mset (map (\<lambda>t. lit_norm3 (relabel3 f t)) cycle4) = mset (map lit_norm3 two_cycles)"
    by (auto simp: isomorphic_def bij_betw_def)
  have S: "set (map (\<lambda>t. lit_norm3 (relabel3 f t)) cycle4) = set (map lit_norm3 two_cycles)"
    using m by (metis set_mset_mset)
  have "set (map lit_norm3 two_cycles) = set two_cycles" by (simp add: two_cycles_def)
  then have e: "lit_norm3 (relabel3 f t) \<in> set two_cycles" if "t \<in> set cycle4" for t
    using S that by (metis image_eqI list.set_map)
  have "(BNode (f ''x1''), Iri ''p'', BNode (f ''x2'')) \<in> set two_cycles"
    "(BNode (f ''x2''), Iri ''p'', BNode (f ''x3'')) \<in> set two_cycles"
    using e[of "(BNode ''x1'', Iri ''p'', BNode ''x2'')"] e[of "(BNode ''x2'', Iri ''p'', BNode ''x3'')"]
    by (simp_all add: cycle4_def)
  then have "f ''x3'' = f ''x1''" by (simp add: two_cycles_def) (elim disjE conjE; simp)
  moreover have "''x1'' \<in> all_bnodes cycle4" "''x3'' \<in> all_bnodes cycle4"
    by (simp_all add: all_bnodes_def cycle4_def)
  ultimately have "''x3'' = ''x1''" using inj by (metis inj_onD)
  then show False by simp
qed

text \<open>Equal structural digests are no proof of isomorphism: the four-cycle and the two two-cycles
  of blank nodes have the same digest, whatever the hash, and are not isomorphic.\<close>

theorem fd1_collision:
  "fd1_digest sha cycle4 = fd1_digest sha two_cycles \<and> \<not> isomorphic cycle4 two_cycles"
proof
  have "graph_bnodes cycle4 = [''x1'', ''x2'', ''x3'', ''x4'']"
    "graph_bnodes two_cycles = [''y1'', ''y2'', ''y3'', ''y4'']"
    "ground_lines cycle4 = []" "ground_lines two_cycles = []"
    by code_simp+
  moreover have "signature sha cycle4 b = sha (join_str [CHR 0x0A] [''_:a <p> _:z .'', ''_:z <p> _:a .''])"
    if "b \<in> {''x1'', ''x2'', ''x3'', ''x4''}" for b
    using that by (auto simp: signature_def cycle4_def intro!: arg_cong[where f = sha])
  moreover have "signature sha two_cycles b = sha (join_str [CHR 0x0A] [''_:a <p> _:z .'', ''_:z <p> _:a .''])"
    if "b \<in> {''y1'', ''y2'', ''y3'', ''y4''}" for b
    using that by (auto simp: signature_def two_cycles_def intro!: arg_cong[where f = sha])
  ultimately show "fd1_digest sha cycle4 = fd1_digest sha two_cycles"
    by (simp add: fd1_digest_def)
qed (rule cycle4_not_two_cycles)

end
