(* ===== verification/Graph_Identity.thy ===== *)
theory Graph_Identity
  imports Graph_Read Fd1
begin

text \<open>
  The identity plane over the store: the term-structured read of a graph and \<open>graph_digest\<close> with
  its locked-digest cache (\<open>src/storage/canon.rs\<close>), \<open>structural_digest\<close> (\<open>fd1.rs\<close>),
  \<open>export_graph\<close> and \<open>graph_manifest\<close> (\<open>export.rs\<close>) and \<open>graph_integrity\<close>
  (\<open>integrity.rs\<close>). The dictionary is a list of rows that the calls read; a history may append rows between calls;
  \<open>korder\<close> is the iteration order of canon.rs's hash map, \<open>sha\<close> the hash.
\<close>

section \<open>Digests\<close>

definition digest_of ::
    "(string \<Rightarrow> string) \<Rightarrow> (triple list \<Rightarrow> string list) \<Rightarrow> dict_row list \<Rightarrow> quad list \<Rightarrow> string option" where
  "digest_of sha korder dict qs' =
     (let ts = read_asserted_triples dict qs' in map_option snd (canonicalize sha (korder ts) ts))"

definition graph_exists :: "int \<Rightarrow> store \<Rightarrow> bool" where
  "graph_exists g st \<longleftrightarrow> g = 0 \<or> find_graph st g \<noteq> None"

definition graph_digest ::
    "(string \<Rightarrow> string) \<Rightarrow> (triple list \<Rightarrow> string list) \<Rightarrow> dict_row list \<Rightarrow> bool \<Rightarrow> int \<Rightarrow> store
      \<Rightarrow> (string \<times> store) res" where
  "graph_digest sha korder dict can_cache g st =
     (if \<not> graph_exists g st then Inl Undefined_Object
      else
        (let custody_holds = locked st g \<and> lock_trigger_count g st = Some 2;
             stored = Option.bind (find_graph st g) gdigest in
         if custody_holds \<and> stored \<noteq> None then Inr (the stored, st)
         else
           (case digest_of sha korder dict (graph_quads st g) of
              None \<Rightarrow> Inl Internal_Error
            | Some d \<Rightarrow>
                Inr (d, if custody_holds \<and> can_cache
                        then update_graph g (\<lambda>r. if glocked r then r\<lparr>gdigest := Some d\<rparr> else r) st
                        else st))))"

definition structural_digest :: "(string \<Rightarrow> string) \<Rightarrow> dict_row list \<Rightarrow> int \<Rightarrow> store \<Rightarrow> string res" where
  "structural_digest sha dict g st =
     (if \<not> graph_exists g st then Inl Undefined_Object
      else Inr (fd1_digest sha (read_asserted_triples dict (graph_quads st g))))"

section \<open>Export\<close>

definition require_graph :: "int \<Rightarrow> store \<Rightarrow> unit res" where
  "require_graph g st = (if graph_exists g st then Inr () else Inl Undefined_Object)"

definition export_graph :: "dict_row list \<Rightarrow> int \<Rightarrow> store \<Rightarrow> string list res" where
  "export_graph dict g st =
     res_bind (require_graph g st)
       (\<lambda>_. Inr (export_lines (read_asserted_triples dict (graph_quads st g))))"

record manifest =
  m_iri :: "string option"
  m_asserted :: nat
  m_inferred :: nat
  m_bytes :: string
  m_identity :: string
  m_structure :: string

definition graph_manifest ::
    "(string \<Rightarrow> string) \<Rightarrow> (triple list \<Rightarrow> string list) \<Rightarrow> dict_row list \<Rightarrow> bool \<Rightarrow> int \<Rightarrow> store
      \<Rightarrow> (manifest \<times> store) res" where
  "graph_manifest sha korder dict can_cache g st =
     res_bind (export_graph dict g st) (\<lambda>lines.
       res_bind (graph_digest sha korder dict can_cache g st) (\<lambda>(identity, st').
         res_bind (structural_digest sha dict g st') (\<lambda>structure.
           Inr (\<lparr>m_iri = graph_iri g st, m_asserted = asserted_count st g,
                 m_inferred = inferred_count st g,
                 m_bytes = sha (concat (map (\<lambda>l. l @ [CHR 0x0A]) lines)),
                 m_identity = identity, m_structure = structure\<rparr>, st'))))"

section \<open>Integrity\<close>

record integrity =
  predicate_literal :: nat
  predicate_bnode :: nat
  subject_literal :: nat
  dangling :: nat
  lock_consistent :: bool
  clean :: bool

definition count_type :: "dict_row list \<Rightarrow> (quad \<Rightarrow> int) \<Rightarrow> int \<Rightarrow> quad list \<Rightarrow> nat" where
  "count_type dict pos t qs' =
     length (filter (\<lambda>q. map_option fst (dict_row_of dict (pos q)) = Some t) qs')"

definition count_dangling :: "dict_row list \<Rightarrow> (quad \<Rightarrow> int) \<Rightarrow> quad list \<Rightarrow> nat" where
  "count_dangling dict pos qs' = length (filter (\<lambda>q. dict_row_of dict (pos q) = None) qs')"

definition graph_integrity :: "dict_row list \<Rightarrow> int \<Rightarrow> store \<Rightarrow> integrity res" where
  "graph_integrity dict g st =
     (if find_graph st g = None then Inl Internal_Error
      else
        (let qs' = graph_quads st g;
             pl = count_type dict qp 3 qs'; pb = count_type dict qp 2 qs'; sl = count_type dict qs 3 qs';
             dang = count_dangling dict qs qs' + count_dangling dict qp qs' + count_dangling dict qo qs';
             lc = (case lock_trigger_count g st of
                     Some n \<Rightarrow> n = (if locked st g then 2 else 0) | None \<Rightarrow> True)
         in Inr \<lparr>predicate_literal = pl, predicate_bnode = pb, subject_literal = sl, dangling = dang,
                 lock_consistent = lc, clean = (pl + pb + sl = 0 \<and> dang = 0 \<and> lc)\<rparr>))"

section \<open>The digest cache\<close>

lemma custody_count: "store_ok st \<Longrightarrow> lock_trigger_count g st = Some 2 \<longleftrightarrow> custody st g"
  by (auto simp: lock_trigger_count_def custody_def store_ok_def dedicated_partition_def)

definition cache_true ::
    "(string \<Rightarrow> string) \<Rightarrow> (triple list \<Rightarrow> string list) \<Rightarrow> dict_row list \<Rightarrow> store \<Rightarrow> bool" where
  "cache_true sha korder dict st \<longleftrightarrow>
     store_ok st \<and> (\<forall>g d. cached st g d \<longrightarrow> digest_of sha korder dict (graph_quads st g) = Some d)"

lemma cached_bind:
  "store_ok st \<Longrightarrow> cached st g d \<longleftrightarrow>
     locked st g \<and> lock_trigger_count g st = Some 2 \<and> Option.bind (find_graph st g) gdigest = Some d"
  by (auto simp: cached_def custody_count bind_eq_Some_conv)

lemma graph_digest_answer:
  assumes "cache_true sha korder dict st" "graph_digest sha korder dict can_cache g st = Inr (d, st')"
  shows "digest_of sha korder dict (graph_quads st g) = Some d"
proof -
  have "store_ok st" using assms(1) by (simp add: cache_true_def)
  note c = cached_bind[OF this]
  show ?thesis
    using assms c[of g d] by (auto simp: cache_true_def graph_digest_def Let_def split: if_splits option.splits)
qed

lemma graph_digest_cache_true:
  assumes "cache_true sha korder dict st" "graph_digest sha korder dict can_cache g st = Inr (d, st')"
  shows "cache_true sha korder dict st'"
proof (cases "st' = st")
  case False
  let ?f = "\<lambda>r. if glocked r then r\<lparr>gdigest := Some d\<rparr> else r"
  have st': "st' = update_graph g ?f st" and l: "locked st g"
    using assms(2) False by (auto simp: graph_digest_def Let_def split: if_splits option.splits)
  have f: "find_graph st' h = (if h = g then map_option ?f (find_graph st h) else find_graph st h)" for h
    unfolding st' by (rule find_graph_update) simp
  have same: "quads st' = quads st" "parts st' = parts st" "trow st' = trow st" "ttrunc st' = ttrunc st"
    "map gid (graphs st') = map gid (graphs st)" "map giri (graphs st') = map giri (graphs st)"
    by (simp_all add: st' update_graph_def)
  have lk: "locked st' h = locked st h" for h
    by (simp add: locked_def f split: option.splits)
  have dig: "\<forall>r \<in> set (graphs st). \<not> glocked r \<longrightarrow> gdigest r = None \<Longrightarrow>
      \<forall>r \<in> set (graphs st'). \<not> glocked r \<longrightarrow> gdigest r = None"
    by (auto simp: st' update_graph_def)
  have "rows_ok st \<Longrightarrow> rows_ok st'" using same dig by (simp add: rows_ok_def)
  then have ok: "store_ok st'"
    using assms(1) same lk f by (auto simp: cache_true_def store_ok_def parts_ok_def registered_graph_def)
  have "digest_of sha korder dict (graph_quads st' h) = Some e" if c: "cached st' h e" for h e
  proof (cases "h = g")
    case True
    have "e = d" using c f l True by (auto simp: cached_def locked_def split: option.splits if_splits)
    then show ?thesis
      using graph_digest_answer[OF assms] True same(1) by (simp add: graph_quads_def)
  next
    case False
    then have "cached st h e" using c f lk same by (simp add: cached_def custody_def)
    then show ?thesis using assms(1) same(1) by (simp add: cache_true_def graph_quads_def)
  qed
  then show ?thesis using ok by (simp add: cache_true_def)
qed (use assms in simp)

text \<open>Calls, raw SQL and digest calls together.\<close>

definition digest_step ::
    "(string \<Rightarrow> string) \<Rightarrow> (triple list \<Rightarrow> string list) \<Rightarrow> dict_row list \<Rightarrow> store \<Rightarrow> store \<Rightarrow> bool" where
  "digest_step sha korder dict st st' \<longleftrightarrow>
     call_step dict sha st st' \<or> (\<exists>b g d. graph_digest sha korder dict b g st = Inr (d, st'))"

lemma digest_step_cache_true: "cache_true sha korder dict s \<Longrightarrow> digest_step sha korder dict s t \<Longrightarrow> cache_true sha korder dict t"
proof -
  assume s: "cache_true sha korder dict s" and t: "digest_step sha korder dict s t"
  show "cache_true sha korder dict t"
  proof (cases "call_step dict sha s t")
    case True
    then show ?thesis
      using s exec_call_sound unfolding call_step_def sound_def cache_true_def cache_safe_def by metis
  next
    case False
    then show ?thesis using t graph_digest_cache_true[OF s] by (auto simp: digest_step_def)
  qed
qed

text \<open>A quad whose ids, and the datatype of its object, are in the dictionary reads the same ever after.\<close>

definition id_known :: "dict_row list \<Rightarrow> int \<Rightarrow> bool" where
  "id_known dict i \<longleftrightarrow> (case dict_row_of dict i of
     Some (t, v, dt, lang) \<Rightarrow> (case dt of Some j \<Rightarrow> dict_row_of dict j \<noteq> None | None \<Rightarrow> True)
   | None \<Rightarrow> False)"

definition ids_known :: "dict_row list \<Rightarrow> store \<Rightarrow> bool" where
  "ids_known dict st \<longleftrightarrow> (\<forall>q \<in> set (quads st). id_known dict (qs q) \<and> id_known dict (qp q) \<and> id_known dict (qo q))"

lemma id_known_append:
  assumes "id_known d i"
  shows "dict_row_of (d @ new) i = dict_row_of d i"
    and "dict_row_of d i = Some k \<Longrightarrow> read_object (d @ new) k = read_object d k" and "id_known (d @ new) i"
proof -
  obtain t v dt lang where r: "dict_row_of d i = Some (t, v, dt, lang)" and dt: "\<And>j. dt = Some j \<Longrightarrow> dict_row_of d j \<noteq> None"
    using assms by (auto simp: id_known_def split: option.splits)
  show "dict_row_of (d @ new) i = dict_row_of d i" using dict_row_of_append[OF r] r by simp
  have l: "lexical_of (d @ new) dt = lexical_of d dt"
    using dt dict_row_of_append by (cases dt) (fastforce simp: lexical_of_def)+
  show "dict_row_of d i = Some k \<Longrightarrow> read_object (d @ new) k = read_object d k" using r l by (auto simp: read_object_def)
  show "id_known (d @ new) i" using dict_row_of_append[OF r] dt dict_row_of_append
    by (fastforce simp: id_known_def split: option.splits)
qed

lemma ids_known_append: "ids_known d st \<Longrightarrow> ids_known (d @ new) st"
  by (simp add: ids_known_def id_known_append(3))

lemma read_quad_append: "id_known d (qs q) \<Longrightarrow> id_known d (qp q) \<Longrightarrow> id_known d (qo q) \<Longrightarrow> read_quad (d @ new) q = read_quad d q"
  using id_known_append(2)[of d "qo q"]
  by (simp add: read_quad_def id_known_append(1) split: option.split)

lemma digest_of_append:
  assumes "ids_known d st"
  shows "digest_of sha korder (d @ new) (graph_quads st g) = digest_of sha korder d (graph_quads st g)"
proof -
  have "map (read_quad (d @ new)) (filter (\<lambda>q. \<not> qinf q) (graph_quads st g)) = map (read_quad d) (filter (\<lambda>q. \<not> qinf q) (graph_quads st g))"
    using assms read_quad_append by (auto simp: graph_quads_def ids_known_def)
  then have "read_asserted_triples (d @ new) (graph_quads st g) = read_asserted_triples d (graph_quads st g)"
    unfolding read_asserted_triples_def by (rule arg_cong)
  then show ?thesis by (simp only: digest_of_def)
qed

text \<open>
  Histories: calls, raw SQL and digest calls that leave no row with an id unknown to the dictionary, and terms
  entered between them. \<open>put_quad\<close> itself takes any id.
\<close>

definition identity_step ::
    "(string \<Rightarrow> string) \<Rightarrow> (triple list \<Rightarrow> string list) \<Rightarrow> dict_row list \<times> store \<Rightarrow> dict_row list \<times> store \<Rightarrow> bool" where
  "identity_step sha korder x y \<longleftrightarrow>
     fst y = fst x \<and> digest_step sha korder (fst x) (snd x) (snd y) \<and> ids_known (fst y) (snd y) \<or>
     snd y = snd x \<and> (\<exists>new. fst y = fst x @ new)"

interpretation digests: step_invariant "\<lambda>x. snd x = fresh_store" "identity_step sha korder"
  "\<lambda>x. cache_true sha korder (fst x) (snd x) \<and> ids_known (fst x) (snd x)" for sha korder
proof unfold_locales
  fix x y
  assume i: "cache_true sha korder (fst x) (snd x) \<and> ids_known (fst x) (snd x)" and s: "identity_step sha korder x y"
  show "cache_true sha korder (fst y) (snd y) \<and> ids_known (fst y) (snd y)"
  proof (cases "snd y = snd x \<and> (\<exists>new. fst y = fst x @ new)")
    case True
    then show ?thesis using i digest_of_append ids_known_append unfolding cache_true_def by metis
  next
    case False
    then show ?thesis using i s digest_step_cache_true unfolding identity_step_def by metis
  qed
qed (use fresh_store_ok in \<open>auto simp: cache_true_def cached_def fresh_store_def custody_def ids_known_def\<close>)

text \<open>C6: whatever calls of the type \<open>call\<close>, lock changes, raw SQL at the quads, dropped triggers and new dictionary
  rows came before, \<open>graph_digest\<close> answers with the canonical digest of the quads the graph holds now, whether it
  computes it or serves it from the cache, provided no call left a row whose ids the dictionary did not know.\<close>

theorem digest_cache_sound:
  assumes "(identity_step sha korder)\<^sup>*\<^sup>* (d0, fresh_store) (dict, st)"
    and "graph_digest sha korder dict can_cache g st = Inr (d, st')"
  shows "\<exists>lines. canonicalize sha (korder (read_asserted_triples dict (graph_quads st g)))
    (read_asserted_triples dict (graph_quads st g)) = Some (lines, d)"
proof -
  have "cache_true sha korder dict st" using digests.reachable_inv[OF _ assms(1)] by simp
  from graph_digest_answer[OF this assms(2)] show ?thesis by (auto simp: digest_of_def Let_def)
qed

section \<open>Absent and clean graphs\<close>

text \<open>An absent graph has no digest, no structural digest, no export and no manifest: each call
  refuses with 42704; an empty registered graph answers.\<close>

theorem absent_graph_refuses:
  assumes "g \<noteq> 0" "find_graph st g = None"
  shows "graph_digest sha korder dict b g st = Inl Undefined_Object \<and>
    structural_digest sha dict g st = Inl Undefined_Object \<and>
    export_graph dict g st = Inl Undefined_Object \<and>
    graph_manifest sha korder dict b g st = Inl Undefined_Object"
  using assms
  by (simp add: graph_digest_def structural_digest_def export_graph_def require_graph_def
      graph_manifest_def graph_exists_def)

text \<open>C38: on a graph that \<open>graph_integrity\<close> reports clean, the reader behind digest and export
  drops nothing: it yields one triple per asserted quad, each with an IRI predicate (the term
  types of the dictionary being 1, 2 and 3).\<close>

theorem clean_graph_reads_all:
  assumes "graph_integrity dict g st = Inr i" "clean i"
    and "\<forall>r \<in> set dict. fst (row_key r) \<in> {1, 2, 3}"
  shows "length (read_asserted_triples dict (graph_quads st g)) = asserted_count st g \<and>
    (\<forall>t \<in> set (read_asserted_triples dict (graph_quads st g)). pred_ok t)"
proof -
  have tty: "fst k \<in> {1, 2, 3}" if "dict_row_of dict x = Some k" for x k
    using that assms(3) find_SomeD by (fastforce simp: dict_row_of_def)
  have sl: "map_option fst (dict_row_of dict (qs q)) \<noteq> Some 3"
    and dg: "dict_row_of dict (qs q) \<noteq> None" "dict_row_of dict (qp q) \<noteq> None" "dict_row_of dict (qo q) \<noteq> None"
    if "q \<in> set (graph_quads st g)" for q
    using assms(1,2) that
    by (auto simp: graph_integrity_def Let_def count_type_def count_dangling_def filter_empty_conv
        split: if_splits)
  have r: "read_quad dict q \<noteq> None" if q: "q \<in> set (graph_quads st g)" for q
  proof -
    obtain s p k where d: "dict_row_of dict (qs q) = Some s" "dict_row_of dict (qp q) = Some p"
      "dict_row_of dict (qo q) = Some k" using dg[OF q] by auto
    have "fst s \<in> {1, 2}" using tty[OF d(1)] sl[OF q] d(1) by auto
    then have "read_subject s \<noteq> None" by (auto simp: read_subject_def split: prod.splits)
    moreover have "read_object dict k \<noteq> None"
      using tty[OF d(3)] by (auto simp: read_object_def split: prod.splits)
    ultimately show ?thesis using d by (auto simp: read_quad_def)
  qed
  have "filter (\<lambda>x. x \<noteq> None) (map (read_quad dict) (filter (\<lambda>q. \<not> qinf q) (graph_quads st g)))
      = map (read_quad dict) (filter (\<lambda>q. \<not> qinf q) (graph_quads st g))"
    using r by (intro filter_True) auto
  then have "length (read_asserted_triples dict (graph_quads st g)) = asserted_count st g"
    by (simp add: read_asserted_triples_def flatten_opts_def asserted_count_def)
  moreover have "pred_ok t" if "read_quad dict q = Some t" for q t
    using that by (auto simp: read_quad_def split: option.splits)
  then have "\<forall>t \<in> set (read_asserted_triples dict (graph_quads st g)). pred_ok t"
    by (auto simp: read_asserted_triples_def simp del: split_paired_All) (metis pred_ok.simps)
  ultimately show ?thesis by simp
qed

section \<open>The exported bytes\<close>

definition export_file :: "triple list \<Rightarrow> string" where
  "export_file ts = concat (map (\<lambda>l. l @ [CHR 0x0A]) (export_lines ts))"

lemma export_file_nt:
  "export_file ts = concat (map (nt_triple (\<lambda>b. b)) (sort_key export_line ts))"
  by (simp add: export_file_def export_lines_def sort_map comp_def export_line_eq)

lemma export_file_determines:
  assumes "export_file ts = export_file us" "\<forall>t \<in> set ts \<union> set us. triple_ok t"
  shows "mset (map lit_norm3 ts) = mset (map lit_norm3 us)"
proof -
  have "map (\<lambda>t. lit_norm3 (relabel3 (\<lambda>b. b) t)) (sort_key export_line ts)
      = map (\<lambda>t. lit_norm3 (relabel3 (\<lambda>b. b) t)) (sort_key export_line us)"
    by (rule nt_document_determines)
      (use assms in \<open>simp_all add: export_file_nt relabel3_id\<close>)
  then show ?thesis by (metis (no_types, lifting) mset_map mset_sort map_eq_conv relabel3_id)
qed

lemma manifest_bytes:
  assumes "graph_manifest sha korder dict b g st = Inr (m, st')"
  shows "m_bytes m = sha (export_file (read_asserted_triples dict (graph_quads st g)))"
  using assms by (auto simp: graph_manifest_def export_graph_def export_file_def)

text \<open>Two manifests with the same bytes digest describe the same content: the asserted triples
  that the two graphs export are equal as multisets, blank-node labels included, up to the spelling
  of plain literals (assuming SHA-256 does not collide on the two files).\<close>

theorem manifest_bytes_identify:
  assumes "graph_manifest sha korder dict b g st = Inr (m, st1)"
    and "graph_manifest sha korder dict' b' h st' = Inr (m', st2)"
    and "m_bytes m = m_bytes m'"
    and "ts = read_asserted_triples dict (graph_quads st g)"
    and "us = read_asserted_triples dict' (graph_quads st' h)"
    and "sha (export_file ts) = sha (export_file us) \<Longrightarrow> export_file ts = export_file us"
    and "\<forall>t \<in> set ts \<union> set us. triple_ok t"
  shows "mset (map lit_norm3 ts) = mset (map lit_norm3 us)"
proof (rule export_file_determines[OF _ assms(7)])
  show "export_file ts = export_file us"
    using manifest_bytes[OF assms(1)] manifest_bytes[OF assms(2)] assms(3-6) by simp
qed

section \<open>Concrete graphs\<close>

definition demo_dict :: "dict_row list" where
  "demo_dict =
     [\<lparr>row_id = 1, row_key = (2, ''b0'', None, None)\<rparr>, \<lparr>row_id = 2, row_key = (1, ''urn:p'', None, None)\<rparr>,
      \<lparr>row_id = 3, row_key = (1, ''urn:o'', None, None)\<rparr>, \<lparr>row_id = 4, row_key = (3, ''v'', Some 5, None)\<rparr>,
      \<lparr>row_id = 5, row_key = (1, ''urn:dt'', None, None)\<rparr>]"

definition one_key :: "triple list \<Rightarrow> string list" where
  "one_key ts = graph_bnodes ts"

theorem absent_graph_refuses_witness: "export_graph demo_dict 99 demo_store = Inl Undefined_Object"
proof -
  have "find_graph demo_store 99 = None" by code_simp
  then show ?thesis using absent_graph_refuses[of 99 demo_store id one_key demo_dict True] by simp
qed

definition after_call :: "call \<Rightarrow> store \<Rightarrow> store" where
  "after_call c st = projr (exec_call all_privs demo_dict id c st)"

lemma after_call_step:
  "\<not> isl (exec_call all_privs demo_dict id c st) \<Longrightarrow> ids_known demo_dict (after_call c st) \<Longrightarrow>
   identity_step id one_key (demo_dict, st) (demo_dict, after_call c st)"
  unfolding identity_step_def digest_step_def call_step_def after_call_def using result_is by fastforce

text \<open>A graph created, filled, locked and digested once: the next digest comes from the cache.\<close>

definition locked_run :: store where
  "locked_run = after_call (Lock_Graph 5 ''release'') (after_call (Put_Quad 1 2 3 5) (after_call (Add_Graph 5) fresh_store))"

definition cached_run :: store where
  "cached_run = snd (projr (graph_digest id one_key demo_dict True 5 locked_run))"

text \<open>The terms are entered after the graph is created, and another one after its digest is cached.\<close>

definition more_dict :: "dict_row list" where
  "more_dict = demo_dict @ [\<lparr>row_id = 6, row_key = (1, ''urn:late'', None, None)\<rparr>]"

lemma cached_run_reached: "(identity_step id one_key)\<^sup>*\<^sup>* ([], fresh_store) (more_dict, cached_run)"
proof -
  let ?a = "after_call (Add_Graph 5) fresh_store" and ?b = "after_call (Put_Quad 1 2 3 5) (after_call (Add_Graph 5) fresh_store)"
  have s1: "identity_step id one_key ([], fresh_store) (demo_dict, fresh_store)" by (simp add: identity_step_def)
  have s2: "identity_step id one_key (demo_dict, fresh_store) (demo_dict, ?a)" by (rule after_call_step) code_simp+
  have s3: "identity_step id one_key (demo_dict, ?a) (demo_dict, ?b)" by (rule after_call_step) code_simp+
  have s4: "identity_step id one_key (demo_dict, ?b) (demo_dict, locked_run)"
    unfolding locked_run_def by (rule after_call_step) code_simp+
  have s5: "identity_step id one_key (demo_dict, locked_run) (demo_dict, cached_run)"
  proof -
    have r: "\<not> isl (graph_digest id one_key demo_dict True 5 locked_run)" and k: "ids_known demo_dict cached_run" by code_simp+
    have "digest_step id one_key demo_dict locked_run cached_run"
      unfolding digest_step_def cached_run_def using pair_result_is[OF r] by blast
    then show ?thesis using k by (simp add: identity_step_def)
  qed
  have s6: "identity_step id one_key (demo_dict, cached_run) (more_dict, cached_run)" by (simp add: identity_step_def more_dict_def)
  note step = converse_rtranclp_into_rtranclp[where r = "identity_step id one_key"]
  show ?thesis by (rule step[OF s1], rule step[OF s2], rule step[OF s3], rule step[OF s4], rule step[OF s5], rule step[OF s6]) simp
qed

theorem digest_cache_sound_witness:
  "\<exists>lines d. map_option gdigest (find_graph cached_run 5) = Some (Some d) \<and>
     canonicalize id [''b0''] [(BNode ''b0'', Iri ''urn:p'', Iri ''urn:o'')] = Some (lines, d)"
proof -
  have r: "graph_digest id one_key more_dict True 5 cached_run
      = Inr (fst (projr (graph_digest id one_key more_dict True 5 cached_run)),
             snd (projr (graph_digest id one_key more_dict True 5 cached_run)))"
    by (rule pair_result_is) code_simp
  have t: "read_asserted_triples more_dict (graph_quads cached_run 5)
      = [(BNode ''b0'', Iri ''urn:p'', Iri ''urn:o'')]"
    "one_key [(BNode ''b0'', Iri ''urn:p'', Iri ''urn:o'')] = [''b0'']" by code_simp+
  have "map_option gdigest (find_graph cached_run 5)
      = Some (Some (fst (projr (graph_digest id one_key more_dict True 5 cached_run))))" by code_simp
  then show ?thesis using digest_cache_sound[OF cached_run_reached r] unfolding t by blast
qed

text \<open>Without the proviso the cache goes stale: a row with an unknown id is left out of the digest, the digest is
  cached under the lock, and the id is then given to a term.\<close>

definition dangling_run :: store where
  "dangling_run = after_call (Lock_Graph 5 ''release'') (after_call (Put_Quad 1 2 6 5) (after_call (Put_Quad 1 2 3 5) (after_call (Add_Graph 5) fresh_store)))"

definition stale_run :: store where
  "stale_run = snd (projr (graph_digest id one_key demo_dict True 5 dangling_run))"

lemma dangling_row_stales_cache:
  "graph_digest id one_key more_dict True 5 stale_run = graph_digest id one_key demo_dict True 5 stale_run"
  "digest_of id one_key more_dict (graph_quads stale_run 5) \<noteq> digest_of id one_key demo_dict (graph_quads stale_run 5)"
  "Some (fst (projr (graph_digest id one_key more_dict True 5 stale_run))) \<noteq> digest_of id one_key more_dict (graph_quads stale_run 5)"
  by code_simp+

theorem clean_graph_reads_all_witness:
  "length (read_asserted_triples demo_dict (graph_quads demo_store 5)) = 2"
proof -
  have "\<not> isl (graph_integrity demo_dict 5 demo_store)" by code_simp
  then have i: "graph_integrity demo_dict 5 demo_store = Inr (projr (graph_integrity demo_dict 5 demo_store))"
    by (rule result_is)
  have c: "clean (projr (graph_integrity demo_dict 5 demo_store))" by code_simp
  have d: "\<forall>r \<in> set demo_dict. fst (row_key r) \<in> {1, 2, 3}" by (simp add: demo_dict_def)
  have n: "asserted_count demo_store 5 = 2" by code_simp
  show ?thesis using clean_graph_reads_all[OF i c d] n by simp
qed

theorem manifest_bytes_identify_witness:
  "mset (map lit_norm3 (read_asserted_triples demo_dict (graph_quads demo_store 5)))
     = mset (map lit_norm3 (read_asserted_triples demo_dict (graph_quads locked_store 5)))"
proof -
  have a: "graph_manifest id one_key demo_dict True 5 demo_store
      = Inr (fst (projr (graph_manifest id one_key demo_dict True 5 demo_store)),
             snd (projr (graph_manifest id one_key demo_dict True 5 demo_store)))"
    by (rule pair_result_is) code_simp
  have b: "graph_manifest id one_key demo_dict True 5 locked_store
      = Inr (fst (projr (graph_manifest id one_key demo_dict True 5 locked_store)),
             snd (projr (graph_manifest id one_key demo_dict True 5 locked_store)))"
    by (rule pair_result_is) code_simp
  have e: "m_bytes (fst (projr (graph_manifest id one_key demo_dict True 5 demo_store)))
      = m_bytes (fst (projr (graph_manifest id one_key demo_dict True 5 locked_store)))" by code_simp
  have ts: "[(BNode ''b0'', Iri ''urn:p'', Iri ''urn:o''), (Iri ''urn:o'', Iri ''urn:p'', Lit ''v'' (Some ''urn:dt'') None)]
      = read_asserted_triples demo_dict (graph_quads demo_store 5)"
    "[(BNode ''b0'', Iri ''urn:p'', Iri ''urn:o''), (Iri ''urn:o'', Iri ''urn:p'', Lit ''v'' (Some ''urn:dt'') None)]
      = read_asserted_triples demo_dict (graph_quads locked_store 5)" by code_simp+
  show ?thesis
    unfolding ts[symmetric]
    by (rule manifest_bytes_identify[OF a b e ts]) (auto simp: ts[symmetric])
qed

end
