(* ===== verification/Diff.thy ===== *)
theory Diff
  imports Components Graph_Identity "HOL-Library.Product_Lexorder"
begin

text \<open>
  The blank-node-aware difference of two graphs (\<open>src/storage/diff.rs\<close>): ground triples by set
  difference over dictionary ids, blank-node components by the multiset of their RDFC-1.0 digests,
  the narrowing by predicate and class, the row budget and the summary. The main theorem is the
  soundness half of the module's claim: an empty difference proves that the graphs are isomorphic.
\<close>

section \<open>Components with their digests\<close>

record component =
  c_digest :: string
  c_triples :: "triple list"
  c_labels :: "string \<Rightarrow> string option"

definition component_label :: "component \<Rightarrow> string \<Rightarrow> string" where
  "component_label c b =
     take 12 (c_digest c) @ ''_'' @ (case c_labels c b of Some l \<Rightarrow> l | None \<Rightarrow> ''unlabelled'')"

definition canonical_component ::
    "(string \<Rightarrow> string) \<Rightarrow> (triple list \<Rightarrow> string list) \<Rightarrow> triple list \<Rightarrow> component option" where
  "canonical_component sha korder g =
     map_option (\<lambda>(_, digest, labels). \<lparr>c_digest = digest, c_triples = g, c_labels = labels\<rparr>)
       (canonicalize_labeled sha (korder g) g)"

definition budget :: "int \<Rightarrow> nat" where
  "budget diff_max_rows = nat (max diff_max_rows 1)"

definition bnode_triples :: "dict_row list \<Rightarrow> quad list \<Rightarrow> triple list" where
  "bnode_triples dict qs' =
     filter (\<lambda>(s, _, o'). is_bnode s \<or> is_bnode o') (read_asserted_triples dict qs')"

definition components ::
    "(string \<Rightarrow> string) \<Rightarrow> (triple list \<Rightarrow> string list) \<Rightarrow> int \<Rightarrow> triple list \<Rightarrow> component list res" where
  "components sha korder max_rows ts =
     (if length ts > budget max_rows then Inl Program_Limit_Exceeded
      else
        (case fold_opt (\<lambda>g out. map_option (\<lambda>c. out @ [c]) (canonical_component sha korder g))
                (component_groups ts) [] of
           None \<Rightarrow> Inl Internal_Error
         | Some cs \<Rightarrow> Inr cs))"

text \<open>The comparison: both sides grouped by digest, what is not shared is removed or added.\<close>

definition compare_components ::
    "component list \<Rightarrow> component list \<Rightarrow> component list \<times> component list \<times> nat" where
  "compare_components a b =
     (let by_a = bt_group c_digest a; by_b = bt_group c_digest b;
          shared = (\<lambda>(d, ca). min (length ca) (length (bt_get d by_b)));
          removed = concat (map (\<lambda>e. drop (shared e) (snd e)) by_a);
          added = concat (map (\<lambda>e. drop (shared e) (bt_get (fst e) by_b)) by_a);
          rest = concat (map snd (filter (\<lambda>e. fst e \<notin> fst ` set by_a) by_b))
      in (removed, added @ rest, sum_list (map shared by_a)))"

section \<open>Ground triples\<close>

definition iri_id :: "dict_row list \<Rightarrow> string \<Rightarrow> int option" where
  "iri_id dict iri =
     map_option row_id (find (\<lambda>r. fst (row_key r) = 1 \<and> fst (snd (row_key r)) = iri) dict)"

text \<open>\<open>Narrow::ground_sql\<close> as the condition it adds, and the ground set of a graph.\<close>

definition ground_cond :: "dict_row list \<Rightarrow> string option \<Rightarrow> string option \<Rightarrow> quad \<Rightarrow> bool" where
  "ground_cond dict predicate class q \<longleftrightarrow>
     (case predicate of
        None \<Rightarrow> True
      | Some p \<Rightarrow> (case iri_id dict p of Some i \<Rightarrow> qp q = i | None \<Rightarrow> False)) \<and>
     (case class of
        None \<Rightarrow> True
      | Some c \<Rightarrow>
          (case (iri_id dict rdf_type_iri, iri_id dict c) of
             (Some t, Some k) \<Rightarrow> qp q = t \<and> qo q = k
           | _ \<Rightarrow> False))"

definition not_bnode :: "dict_row list \<Rightarrow> int \<Rightarrow> bool" where
  "not_bnode dict i \<longleftrightarrow> (case dict_row_of dict i of Some k \<Rightarrow> fst k \<noteq> 2 | None \<Rightarrow> False)"

definition ground_set :: "dict_row list \<Rightarrow> string option \<Rightarrow> string option \<Rightarrow> quad list \<Rightarrow> (int \<times> int \<times> int) list" where
  "ground_set dict predicate class qs' =
     map (\<lambda>q. (qs q, qp q, qo q))
       (filter (\<lambda>q. \<not> qinf q \<and> not_bnode dict (qs q) \<and> not_bnode dict (qo q) \<and>
                    ground_cond dict predicate class q) qs')"

definition sql_except :: "'a list \<Rightarrow> 'a list \<Rightarrow> 'a list" where
  "sql_except a b = remdups (filter (\<lambda>x. x \<notin> set b) a)"

definition sql_intersect :: "'a list \<Rightarrow> 'a list \<Rightarrow> 'a list" where
  "sql_intersect a b = remdups (filter (\<lambda>x. x \<in> set b) a)"

definition ground_term :: "dict_row list \<Rightarrow> bool \<Rightarrow> dict_key \<Rightarrow> cterm" where
  "ground_term dict is_object k = (case k of (t, v, dt, lang) \<Rightarrow>
     if t = 1 then Iri v else if t = 2 then BNode v
     else if is_object then Lit v (lexical_of dict dt) lang else Lit v None None)"

section \<open>The difference\<close>

fun narrow_matches :: "string option \<Rightarrow> string option \<Rightarrow> triple \<Rightarrow> bool" where
  "narrow_matches predicate class (s, p, o') \<longleftrightarrow>
     (case predicate of Some i \<Rightarrow> p = Iri i | None \<Rightarrow> True) \<and>
     (case class of Some c \<Rightarrow> p = Iri rdf_type_iri \<and> o' = Iri c | None \<Rightarrow> True)"

record diff_row =
  d_rank :: nat
  d_line :: string
  d_side :: string
  d_subject :: string
  d_predicate :: string
  d_object :: string
  d_component :: "string option"

definition mk_row :: "string \<Rightarrow> (string \<Rightarrow> string) \<Rightarrow> string option \<Rightarrow> triple \<Rightarrow> diff_row" where
  "mk_row sd label cid t =
     (let st = nt_term label (fst t); pt = nt_term label (fst (snd t)); ot = nt_term label (snd (snd t)) in
      \<lparr>d_rank = (if sd = ''+'' then 1 else 0), d_line = st @ '' '' @ pt @ '' '' @ ot @ '' .'',
       d_side = sd, d_subject = st, d_predicate = pt, d_object = ot, d_component = cid\<rparr>)"

definition ground_row :: "dict_row list \<Rightarrow> string \<times> (int \<times> int \<times> int) \<Rightarrow> diff_row option" where
  "ground_row dict d =
     (let (sd, (s, p, o')) = d in
      case (dict_row_of dict s, dict_row_of dict p, dict_row_of dict o') of
        (Some s, Some p, Some k) \<Rightarrow>
          Some (mk_row sd (\<lambda>x. x) None (ground_term dict False s, Iri (fst (snd p)), ground_term dict True k))
      | _ \<Rightarrow> None)"

text \<open>Rows are pushed against the budget: a ground row at a time, a component at a time.\<close>

definition push_rows :: "nat \<Rightarrow> diff_row list \<Rightarrow> diff_row list \<Rightarrow> diff_row list option" where
  "push_rows lim new out = (if length (out @ new) > lim then None else Some (out @ new))"

definition wanted :: "string option \<Rightarrow> string \<Rightarrow> bool" where
  "wanted side sd \<longleftrightarrow> (case side of None \<Rightarrow> True | Some w \<Rightarrow> w = sd)"

definition push_component ::
    "nat \<Rightarrow> string option \<Rightarrow> string option \<Rightarrow> string \<times> component \<Rightarrow> diff_row list \<Rightarrow> diff_row list option" where
  "push_component lim predicate class sc out =
     (let (sd, c) = sc in
      if \<not> list_ex (narrow_matches predicate class) (c_triples c) then Some out
      else push_rows lim (map (mk_row sd (component_label c) (Some (c_digest c))) (c_triples c)) out)"

definition graph_diff ::
    "(string \<Rightarrow> string) \<Rightarrow> (triple list \<Rightarrow> string list) \<Rightarrow> dict_row list \<Rightarrow> int \<Rightarrow> store \<Rightarrow> int \<Rightarrow> int
      \<Rightarrow> string option \<Rightarrow> string option \<Rightarrow> string option \<Rightarrow> diff_row list res" where
  "graph_diff sha korder dict max_rows st a b side predicate class =
     (if side \<notin> {None, Some ''-'', Some ''+''} then Inl Invalid_Parameter_Value
      else if \<not> graph_exists a st \<or> \<not> graph_exists b st then Inl Undefined_Object
      else
        (let qa = graph_quads st a; qb = graph_quads st b; lim = budget max_rows;
             ga = ground_set dict predicate class qa; gb = ground_set dict predicate class qb;
             ground = map (Pair ''-'') (sql_except ga gb) @ map (Pair ''+'') (sql_except gb ga);
             rows = filter (\<lambda>r. wanted side (d_side r)) (flatten_opts (map (ground_row dict) ground))
         in case fold_opt (\<lambda>r. push_rows lim [r]) rows [] of
              None \<Rightarrow> Inl Program_Limit_Exceeded
            | Some out \<Rightarrow>
                res_bind (components sha korder max_rows (bnode_triples dict qa)) (\<lambda>ca.
                res_bind (components sha korder max_rows (bnode_triples dict qb)) (\<lambda>cb.
                  (let (removed, added, _) = compare_components ca cb;
                       work = (if wanted side ''-'' then map (Pair ''-'') removed else []) @
                              (if wanted side ''+'' then map (Pair ''+'') added else [])
                   in case fold_opt (push_component lim predicate class) work out of
                        None \<Rightarrow> Inl Program_Limit_Exceeded
                      | Some out \<Rightarrow> Inr (sort_key (\<lambda>r. (d_rank r, d_line r)) out))))))"

section \<open>The summary\<close>

definition term_key :: "component \<Rightarrow> cterm \<Rightarrow> string" where
  "term_key c t = (case t of Iri i \<Rightarrow> i | _ \<Rightarrow> nt_term (component_label c) t)"

text \<open>A \<open>BTreeMap\<close> from key to (removed, added), filled by adding events.\<close>

type_synonym event = "string \<times> nat \<times> nat"

definition tally :: "event list \<Rightarrow> (string \<times> nat \<times> nat) list" where
  "tally es =
     map (\<lambda>(k, es). (k, sum_list (map (\<lambda>e. fst (snd e)) es), sum_list (map (\<lambda>e. snd (snd e)) es)))
       (bt_group fst es)"

record diff_summary =
  g_removed :: nat
  g_added :: nat
  g_common :: nat
  comp_removed :: nat
  comp_added :: nat
  comp_common :: nat
  triples_removed :: nat
  triples_added :: nat
  by_predicate :: "(string \<times> nat \<times> nat) list"
  by_type :: "(string \<times> nat \<times> nat) list"

definition side_event :: "bool \<Rightarrow> string \<Rightarrow> event" where
  "side_event removed k = (k, if removed then (1, 0) else (0, 1))"

definition ground_pred_events :: "dict_row list \<Rightarrow> bool \<Rightarrow> (int \<times> int \<times> int) list \<Rightarrow> event list" where
  "ground_pred_events dict removed xs =
     flatten_opts (map (\<lambda>(s, p, o'). map_option (\<lambda>k. side_event removed (fst (snd k))) (dict_row_of dict p)) xs)"

definition ground_type_events :: "dict_row list \<Rightarrow> bool \<Rightarrow> (int \<times> int \<times> int) list \<Rightarrow> event list" where
  "ground_type_events dict removed xs =
     (let type_id = (case iri_id dict rdf_type_iri of Some i \<Rightarrow> i | None \<Rightarrow> - 1) in
      flatten_opts (map (\<lambda>(s, p, o'). map_option (\<lambda>k. side_event removed (fst (snd k))) (dict_row_of dict o'))
        (filter (\<lambda>(s, p, o'). p = type_id) xs)))"

definition comp_pred_events :: "bool \<Rightarrow> component list \<Rightarrow> event list" where
  "comp_pred_events removed cs =
     concat (map (\<lambda>c. map (\<lambda>t. side_event removed (term_key c (fst (snd t)))) (c_triples c)) cs)"

definition comp_type_events :: "bool \<Rightarrow> component list \<Rightarrow> event list" where
  "comp_type_events removed cs =
     concat (map (\<lambda>c. map (\<lambda>t. side_event removed (term_key c (snd (snd t))))
       (filter (\<lambda>t. fst (snd t) = Iri rdf_type_iri) (c_triples c))) cs)"

definition graph_diff_summary ::
    "(string \<Rightarrow> string) \<Rightarrow> (triple list \<Rightarrow> string list) \<Rightarrow> dict_row list \<Rightarrow> int \<Rightarrow> store \<Rightarrow> int \<Rightarrow> int
      \<Rightarrow> diff_summary res" where
  "graph_diff_summary sha korder dict max_rows st a b =
     (if \<not> graph_exists a st \<or> \<not> graph_exists b st then Inl Undefined_Object
      else
        (let qa = graph_quads st a; qb = graph_quads st b;
             ga = ground_set dict None None qa; gb = ground_set dict None None qb;
             rm = sql_except ga gb; ad = sql_except gb ga
         in res_bind (components sha korder max_rows (bnode_triples dict qa)) (\<lambda>ca.
            res_bind (components sha korder max_rows (bnode_triples dict qb)) (\<lambda>cb.
              (let (removed, added, common) = compare_components ca cb in
               Inr \<lparr>g_removed = length rm, g_added = length ad, g_common = length (sql_intersect ga gb),
                    comp_removed = length removed, comp_added = length added, comp_common = common,
                    triples_removed = sum_list (map (\<lambda>c. length (c_triples c)) removed),
                    triples_added = sum_list (map (\<lambda>c. length (c_triples c)) added),
                    by_predicate = tally (ground_pred_events dict True rm @ ground_pred_events dict False ad @
                                          comp_pred_events True removed @ comp_pred_events False added),
                    by_type = tally (ground_type_events dict True rm @ ground_type_events dict False ad @
                                     comp_type_events True removed @ comp_type_events False added)\<rparr>)))))"

section \<open>What components computes\<close>

lemma canonical_all:
  assumes "fold_opt (\<lambda>g out. map_option (\<lambda>c. out @ [c]) (f g)) gs out = Some cs"
  shows "\<exists>ds. cs = out @ ds \<and> map f gs = map Some ds"
  using assms
proof (induction gs arbitrary: out)
  case (Cons g gs)
  then obtain c where c: "f g = Some c" "fold_opt (\<lambda>g out. map_option (\<lambda>c. out @ [c]) (f g)) gs (out @ [c]) = Some cs"
    by (auto split: option.splits)
  obtain ds where "cs = (out @ [c]) @ ds" "map f gs = map Some ds" using Cons.IH[OF c(2)] by blast
  then show ?case using c(1) by (intro exI[of _ "c # ds"]) simp
qed simp

lemma canonical_component_triples: "canonical_component sha korder g = Some c \<Longrightarrow> c_triples c = g"
  by (auto simp: canonical_component_def)

lemma components_spec:
  assumes "components sha korder max_rows ts = Inr cs"
  shows "map (canonical_component sha korder) (component_groups ts) = map Some cs \<and>
    map c_triples cs = component_groups ts \<and> length ts \<le> budget max_rows"
proof -
  have f: "fold_opt (\<lambda>g out. map_option (\<lambda>c. out @ [c]) (canonical_component sha korder g))
      (component_groups ts) [] = Some cs" and l: "length ts \<le> budget max_rows"
    using assms by (auto simp: components_def split: if_splits option.splits)
  have m: "map (canonical_component sha korder) (component_groups ts) = map Some cs"
    using canonical_all[OF f] by simp
  have "length cs = length (component_groups ts)" using m by (metis length_map)
  moreover have "c_triples (cs ! i) = component_groups ts ! i" if "i < length cs" for i
    using m that calculation canonical_component_triples by (metis nth_map)
  ultimately show ?thesis using m l by (simp add: list_eq_iff_nth_eq)
qed

section \<open>The comparison is a multiset difference\<close>

lemma filter_concat_keys:
  assumes "distinct ks" "\<And>k x. k \<in> set ks \<Longrightarrow> x \<in> set (h k) \<Longrightarrow> f x = k"
  shows "filter (\<lambda>x. f x = k) (concat (map h ks)) = (if k \<in> set ks then h k else [])"
  using assms
proof (induction ks)
  case (Cons j ks)
  have "filter (\<lambda>x. f x = k) (h j) = (if k = j then h j else [])"
    using Cons.prems(2)[of j] by (auto simp: filter_empty_conv filter_id_conv)
  then show ?case using Cons by auto
qed simp

text \<open>The number of components with digest \<open>k\<close> on each side.\<close>

lemma compare_components_filter:
  assumes "compare_components a b = (removed, added, common)"
  defines "na \<equiv> \<lambda>k. length (filter (\<lambda>c. c_digest c = k) a)"
    and "nb \<equiv> \<lambda>k. length (filter (\<lambda>c. c_digest c = k) b)"
  shows "filter (\<lambda>c. c_digest c = k) removed = drop (min (na k) (nb k)) (filter (\<lambda>c. c_digest c = k) a)"
    and "filter (\<lambda>c. c_digest c = k) added = drop (min (na k) (nb k)) (filter (\<lambda>c. c_digest c = k) b)"
    and "common = (\<Sum>k \<in> c_digest ` set a. min (na k) (nb k))"
proof -
  let ?ka = "sorted_list_of_set (c_digest ` set a)" and ?kb = "sorted_list_of_set (c_digest ` set b)"
  let ?A = "\<lambda>k. filter (\<lambda>c. c_digest c = k) a" and ?B = "\<lambda>k. filter (\<lambda>c. c_digest c = k) b"
  let ?s = "\<lambda>k. min (na k) (nb k)"
  have ga: "bt_group c_digest a = map (\<lambda>k. (k, ?A k)) ?ka" by (rule bt_group_eq)
  have gb: "bt_group c_digest b = map (\<lambda>k. (k, ?B k)) ?kb" by (rule bt_group_eq)
  have get: "bt_get k (bt_group c_digest b) = ?B k" for k by (rule bt_group_get)
  have r: "removed = concat (map (\<lambda>k. drop (?s k) (?A k)) ?ka)"
    using assms(1) unfolding compare_components_def Let_def get na_def nb_def
    by (simp add: ga comp_def)
  have ad: "added = concat (map (\<lambda>k. drop (?s k) (?B k)) ?ka) @
      concat (map ?B (filter (\<lambda>k. k \<notin> c_digest ` set a) ?kb))"
    using assms(1) unfolding compare_components_def Let_def get na_def nb_def
    by (simp add: ga gb comp_def filter_map image_image)
  have c: "common = sum_list (map ?s ?ka)"
    using assms(1) unfolding compare_components_def Let_def get na_def nb_def
    by (simp add: ga comp_def)
  show "common = (\<Sum>k \<in> c_digest ` set a. ?s k)"
    unfolding c by (simp add: sum_list_distinct_conv_sum_set)
  have none: "k \<notin> c_digest ` set a \<Longrightarrow> ?A k = []" "k \<notin> c_digest ` set b \<Longrightarrow> ?B k = []" for k
    by (auto simp: filter_empty_conv)
  show "filter (\<lambda>c. c_digest c = k) removed = drop (?s k) (?A k)"
    unfolding r by (subst filter_concat_keys) (auto simp: none dest!: in_set_dropD)
  have "filter (\<lambda>c. c_digest c = k) (concat (map (\<lambda>k. drop (?s k) (?B k)) ?ka))
      = (if k \<in> set ?ka then drop (?s k) (?B k) else [])"
    by (rule filter_concat_keys) (auto dest!: in_set_dropD)
  moreover have "filter (\<lambda>c. c_digest c = k) (concat (map ?B (filter (\<lambda>k. k \<notin> c_digest ` set a) ?kb)))
      = (if k \<in> set (filter (\<lambda>k. k \<notin> c_digest ` set a) ?kb) then ?B k else [])"
    by (rule filter_concat_keys) auto
  ultimately show "filter (\<lambda>c. c_digest c = k) added = drop (?s k) (?B k)"
    unfolding ad using none[of k] by (auto simp: na_def)
qed

lemma count_digests: "count (mset (map f xs)) k = length (filter (\<lambda>x. f x = k) xs)"
  by (induction xs) auto

lemma compare_components_multiset:
  assumes "compare_components a b = (removed, added, common)"
  shows "mset (map c_digest removed) = mset (map c_digest a) - mset (map c_digest b) \<and>
    mset (map c_digest added) = mset (map c_digest b) - mset (map c_digest a) \<and>
    common = size (mset (map c_digest a) \<inter># mset (map c_digest b)) \<and>
    common + length removed = length a \<and> common + length added = length b"
proof -
  let ?a = "mset (map c_digest a)" and ?b = "mset (map c_digest b)"
  note f = compare_components_filter[OF assms]
  have r: "mset (map c_digest removed) = ?a - ?b"
    by (rule multiset_eqI) (simp add: count_digests f(1) del: mset_map)
  have ad: "mset (map c_digest added) = ?b - ?a"
    by (rule multiset_eqI) (simp add: count_digests f(2) del: mset_map)
  have "count (?a \<inter># ?b) k = min (length (filter (\<lambda>c. c_digest c = k) a)) (length (filter (\<lambda>c. c_digest c = k) b))" for k
    by (simp add: count_digests del: mset_map)
  moreover have "size (?a \<inter># ?b) = (\<Sum>k \<in> c_digest ` set a. count (?a \<inter># ?b) k)"
    unfolding size_multiset_overloaded_eq
    by (rule sum.mono_neutral_left) (auto simp: not_in_iff)
  ultimately have c: "common = size (?a \<inter># ?b)" using f(3) by simp
  have "size ?a = size (?a - ?b) + size (?a \<inter># ?b)"
    by (metis diff_intersect_left_idem inter_subset_eq_union size_union subset_mset.diff_add subset_mset.inf_le1 add.commute union_commute)
  moreover have "size ?b = size (?b - ?a) + size (?a \<inter># ?b)"
    by (metis diff_intersect_left_idem size_union subset_mset.diff_add subset_mset.inf_le1 subset_mset.inf_commute)
  ultimately have "length a = length removed + common" "length b = length added + common"
    using arg_cong[OF r, of size] arg_cong[OF ad, of size] c by simp_all
  then show ?thesis using r ad c by simp
qed

lemma mset_concat_mset: "mset xss = mset yss \<Longrightarrow> mset (concat xss) = mset (concat yss)"
  by (metis mset_concat_map list.map_id0 id_apply list.map_id)

text \<open>The component comparison is exact as multisets of digests: what is reported removed is the
  first graph's multiset minus the second's, what is reported added the converse, and the common
  count is the size of the intersection; so no component is lost or counted twice.\<close>

theorem compare_components_exact:
  assumes "compare_components a b = (removed, added, common)"
  shows "mset (map c_digest removed) = mset (map c_digest a) - mset (map c_digest b) \<and>
    mset (map c_digest added) = mset (map c_digest b) - mset (map c_digest a) \<and>
    common = size (mset (map c_digest a) \<inter># mset (map c_digest b)) \<and>
    common + length removed = length a \<and> common + length added = length b"
  by (rule compare_components_multiset[OF assms])

section \<open>Isomorphism, component by component\<close>

lemma isomorphic_append:
  assumes "isomorphic a c" "isomorphic b d"
    and "all_bnodes a \<inter> all_bnodes b = {}" "all_bnodes c \<inter> all_bnodes d = {}"
    and "\<forall>t \<in> set a \<union> set b. pred_ok t"
  shows "isomorphic (a @ b) (c @ d)"
proof -
  obtain f where f: "bij_betw f (all_bnodes a) (all_bnodes c)"
    "mset (map (\<lambda>t. lit_norm3 (relabel3 f t)) a) = mset (map lit_norm3 c)"
    using assms(1) by (auto simp: isomorphic_def)
  obtain g where g: "bij_betw g (all_bnodes b) (all_bnodes d)"
    "mset (map (\<lambda>t. lit_norm3 (relabel3 g t)) b) = mset (map lit_norm3 d)"
    using assms(2) by (auto simp: isomorphic_def)
  let ?h = "\<lambda>x. if x \<in> all_bnodes a then f x else g x"
  have app: "all_bnodes (x @ y) = all_bnodes x \<union> all_bnodes y" for x y by (auto simp: all_bnodes_def)
  have bh: "bij_betw ?h (all_bnodes (a @ b)) (all_bnodes (c @ d))"
    unfolding app using f(1) g(1) assms(3,4) bij_betw_disjoint_Un by blast
  have "relabel3 ?h t = relabel3 f t" if "t \<in> set a" for t
    using assms(5) that mem_all_bnodes[OF that] by (intro relabel3_cong) auto
  then have 1: "map (\<lambda>t. lit_norm3 (relabel3 ?h t)) a = map (\<lambda>t. lit_norm3 (relabel3 f t)) a"
    by (metis (no_types, lifting) map_cong)
  have "relabel3 ?h t = relabel3 g t" if "t \<in> set b" for t
    using assms(3,5) that mem_all_bnodes[OF that] by (intro relabel3_cong) auto
  then have 2: "map (\<lambda>t. lit_norm3 (relabel3 ?h t)) b = map (\<lambda>t. lit_norm3 (relabel3 g t)) b"
    by (metis (no_types, lifting) map_cong)
  have "mset (map (\<lambda>t. lit_norm3 (relabel3 ?h t)) (a @ b)) = mset (map lit_norm3 (c @ d))"
    unfolding map_append mset_append 1 2 f(2) g(2) ..
  then show ?thesis using bh unfolding isomorphic_def by blast
qed

lemma isomorphic_mset:
  assumes "isomorphic a c" "mset a = mset b" "mset c = mset d"
  shows "isomorphic b d"
  using assms all_bnodes_mset[OF assms(2)] all_bnodes_mset[OF assms(3)]
  unfolding isomorphic_def by (metis mset_map)

text \<open>Groups that share no blank node, kept under reordering.\<close>

definition apart :: "triple list list \<Rightarrow> bool" where
  "apart gs \<longleftrightarrow> distinct gs \<and> (\<forall>g \<in> set gs. \<forall>h \<in> set gs. g \<noteq> h \<longrightarrow> all_bnodes g \<inter> all_bnodes h = {})"

lemma apart_mset: "mset gs = mset hs \<Longrightarrow> apart gs \<longleftrightarrow> apart hs"
  unfolding apart_def by (metis mset_eq_imp_distinct_iff mset_eq_setD)

lemma apart_Cons: "apart (g # gs) \<Longrightarrow> apart gs \<and> all_bnodes g \<inter> all_bnodes (concat gs) = {}"
proof
  assume a: "apart (g # gs)"
  then show "apart gs" by (auto simp: apart_def)
  have "all_bnodes g \<inter> all_bnodes h = {}" if "h \<in> set gs" for h
    using a that unfolding apart_def by (metis distinct.simps(2) list.set_intros)
  moreover have "all_bnodes (concat gs) = (\<Union>h \<in> set gs. all_bnodes h)" by (auto simp: all_bnodes_def)
  ultimately show "all_bnodes g \<inter> all_bnodes (concat gs) = {}" by auto
qed

lemma isomorphic_concat:
  assumes "list_all2 isomorphic gs hs" "apart gs" "apart hs" "\<forall>g \<in> set gs. \<forall>t \<in> set g. pred_ok t"
  shows "isomorphic (concat gs) (concat hs)"
  using assms
proof (induction rule: list_all2_induct)
  case Nil
  then show ?case by (simp add: isomorphic_def all_bnodes_def bij_betw_def)
next
  case (Cons g gs h hs)
  have "isomorphic (g @ concat gs) (h @ concat hs)"
    by (rule isomorphic_append) (use Cons apart_Cons in \<open>auto simp del: split_paired_All\<close>)
  then show ?case by simp
qed

lemma component_groups_apart:
  assumes "\<forall>t \<in> set ts. bnodes_of t \<noteq> {}"
  shows "apart (component_groups ts)" "\<forall>g \<in> set (component_groups ts). g \<noteq> []"
    "mset (concat (component_groups ts)) = mset ts"
proof -
  let ?gs = "component_groups ts"
  note p = component_groups_facts[OF assms]
  show m: "mset (concat ?gs) = mset ts" and ne: "\<forall>g \<in> set ?gs. g \<noteq> []" using p by blast+
  have "set (concat ?gs) = set ts" using m by (metis set_mset_mset)
  then have bn: "all_bnodes g \<noteq> {}" if g: "g \<in> set ?gs" for g
  proof -
    obtain t where "t \<in> set g" using ne g by (cases g) auto
    then have "t \<in> set ts" using g \<open>set (concat ?gs) = set ts\<close> by (metis UN_I set_concat)
    then show ?thesis using assms mem_all_bnodes[OF \<open>t \<in> set g\<close>] by blast
  qed
  have disj: "all_bnodes (?gs ! i) \<inter> all_bnodes (?gs ! j) = {}"
    if "i < length ?gs" "j < length ?gs" "i \<noteq> j" for i j using p that by blast
  have "distinct ?gs"
    unfolding distinct_conv_nth using disj bn by (metis Int_absorb nth_mem)
  moreover have "all_bnodes g \<inter> all_bnodes h = {}" if "g \<in> set ?gs" "h \<in> set ?gs" "g \<noteq> h" for g h
    using that disj by (metis in_set_conv_nth)
  ultimately show "apart ?gs" by (simp add: apart_def)
qed

text \<open>Two lists with the same multiset of keys can be aligned.\<close>

lemma align_keys:
  assumes "mset (map f xs) = mset (map f ys)"
  shows "\<exists>zs. mset zs = mset ys \<and> map f xs = map f zs"
  using assms
proof (induction xs arbitrary: ys)
  case (Cons x xs)
  have "f x \<in># mset (map f ys)" using Cons.prems by (metis list.set_intros(1) list.simps(9) set_mset_mset)
  then obtain y where y: "y \<in> set ys" "f y = f x" by auto
  then have "mset (map f (remove1 y ys)) = mset (map f xs)"
    using arg_cong[OF Cons.prems, of "\<lambda>M. M - {#f x#}"] by (simp add: image_mset_Diff)
  then obtain zs where "mset zs = mset (remove1 y ys)" "map f xs = map f zs" using Cons.IH by metis
  then show ?case using y by (intro exI[of _ "y # zs"]) simp
qed auto

text \<open>The document whose digest a component carries.\<close>

definition component_doc :: "(string \<Rightarrow> string) \<Rightarrow> (triple list \<Rightarrow> string list) \<Rightarrow> triple list \<Rightarrow> string" where
  "component_doc sha korder g =
     (case canonicalize_labeled sha (korder g) g of Some (lines, _) \<Rightarrow> concat lines | None \<Rightarrow> [])"

lemma digest_isomorphic:
  assumes "canonical_component sha korder g = Some c" "canonical_component sha korder h = Some d"
    and "c_digest c = c_digest d" "key_order g (korder g)" "key_order h (korder h)"
    and "inj_on sha (component_doc sha korder ` D)" "g \<in> D" "h \<in> D"
    and "\<forall>t \<in> set g. triple_ok t \<and> pred_ok t" "\<forall>t \<in> set h. triple_ok t \<and> pred_ok t"
  shows "isomorphic g h"
proof -
  obtain i where i: "canonical_issuer sha (korder g) g = Some i"
    "component_doc sha korder g = concat (sort (map (nt_triple (canonical_label i)) g))"
    "c_digest c = sha (component_doc sha korder g)"
    using assms(1) by (auto simp: canonical_component_def canonicalize_labeled_def Let_def component_doc_def)
  obtain j where j: "canonical_issuer sha (korder h) h = Some j"
    "component_doc sha korder h = concat (sort (map (nt_triple (canonical_label j)) h))"
    "c_digest d = sha (component_doc sha korder h)"
    using assms(2) by (auto simp: canonical_component_def canonicalize_labeled_def Let_def component_doc_def)
  have "component_doc sha korder g = component_doc sha korder h"
    using assms(3,6-8) i(3) j(3) by (auto dest: inj_onD)
  then have "concat (sort (map (nt_triple (canonical_label i)) g)) = concat (sort (map (nt_triple (canonical_label j)) h))"
    using i(2) j(2) by simp
  then show ?thesis
    by (rule equal_documents_isomorphic[OF i(1) assms(4) j(1) assms(5) _ assms(9,10)])
qed

lemma components_isomorphic:
  assumes "components sha korder m ts = Inr ca" "components sha korder m us = Inr cb"
    and eq: "mset (map c_digest ca) = mset (map c_digest cb)"
    and "\<forall>t \<in> set ts \<union> set us. bnodes_of t \<noteq> {} \<and> triple_ok t \<and> pred_ok t"
    and ko: "\<And>g. key_order g (korder g)"
    and "inj_on sha (component_doc sha korder ` (set (component_groups ts) \<union> set (component_groups us)))"
  shows "isomorphic ts us"
proof -
  let ?gs = "component_groups ts" and ?hs = "component_groups us"
  let ?D = "set ?gs \<union> set ?hs"
  note A = components_spec[OF assms(1)] and B = components_spec[OF assms(2)]
  have bt: "\<forall>t \<in> set ts. bnodes_of t \<noteq> {}" and bu: "\<forall>t \<in> set us. bnodes_of t \<noteq> {}"
    using assms(4) by (auto simp del: split_paired_All)
  note ga = component_groups_apart[OF bt] and gb = component_groups_apart[OF bu]
  obtain cz where cz: "mset cz = mset cb" "map c_digest ca = map c_digest cz"
    using align_keys[OF eq] by blast
  have mz: "mset (map c_triples cz) = mset ?hs" using cz(1) B by (metis mset_map)
  have mem: "canonical_component sha korder (c_triples c) = Some c" if "c \<in> set ca \<union> set cb" for c
  proof -
    have "\<exists>g. canonical_component sha korder g = Some c"
      using that A B by (metis Un_iff image_eqI image_iff list.set_map)
    then show ?thesis using canonical_component_triples by metis
  qed
  have ok: "\<forall>t \<in> set g. triple_ok t \<and> pred_ok t" if "g \<in> ?D" for g
  proof -
    have "set (concat ?gs) = set ts" "set (concat ?hs) = set us" using ga(3) gb(3) by (metis set_mset_mset)+
    then have "set g \<subseteq> set ts \<union> set us" using that by auto
    then show ?thesis using assms(4) by blast
  qed
  have len: "length ca = length cz" using cz(2) by (metis length_map)
  have "isomorphic (c_triples (ca ! i)) (c_triples (cz ! i))" if i: "i < length ca" for i
  proof -
    have m: "ca ! i \<in> set ca" "cz ! i \<in> set cb" using i len cz(1) by (metis nth_mem mset_eq_setD)+
    have D: "c_triples (ca ! i) \<in> ?D" "c_triples (cz ! i) \<in> ?D"
      using m A B by (metis UnCI image_eqI list.set_map)+
    have "c_digest (ca ! i) = c_digest (cz ! i)" using cz(2) i len by (metis nth_map)
    then show ?thesis
      using digest_isomorphic[OF mem mem _ ko ko assms(6) D ok[OF D(1)] ok[OF D(2)]] m by blast
  qed
  then have "list_all2 isomorphic (map c_triples ca) (map c_triples cz)"
    using len by (simp add: list_all2_conv_all_nth)
  then have l: "list_all2 isomorphic ?gs (map c_triples cz)" using A by simp
  have "apart (map c_triples cz)" using apart_mset[OF mz] gb(1) by simp
  then have "isomorphic (concat ?gs) (concat (map c_triples cz))"
    using isomorphic_concat[OF l ga(1)] ok by blast
  moreover have "mset (concat (map c_triples cz)) = mset us"
    using mz gb(3) by (metis mset_concat_mset)
  ultimately show ?thesis using isomorphic_mset ga(3) by blast
qed

section \<open>The rows of a difference\<close>

lemma push_rows_Some: "push_rows lim new out = Some out' \<Longrightarrow> out' = out @ new"
  by (auto simp: push_rows_def split: if_splits)

lemma push_ground: "fold_opt (\<lambda>r. push_rows lim [r]) rs out = Some out' \<Longrightarrow> out' = out @ rs"
proof (induction rs arbitrary: out)
  case (Cons r rs)
  then obtain out1 where o: "push_rows lim [r] out = Some out1"
    "fold_opt (\<lambda>r. push_rows lim [r]) rs out1 = Some out'"
    by (auto split: option.splits)
  show ?case unfolding Cons.IH[OF o(2)] push_rows_Some[OF o(1)] by simp
qed simp

definition component_rows :: "string \<times> component \<Rightarrow> diff_row list" where
  "component_rows sc =
     map (mk_row (fst sc) (component_label (snd sc)) (Some (c_digest (snd sc)))) (c_triples (snd sc))"

lemma push_component_Some:
  "push_component lim predicate class sc out = Some out' \<Longrightarrow>
   out' = out @ (if list_ex (narrow_matches predicate class) (c_triples (snd sc)) then component_rows sc else [])"
  by (auto simp: push_component_def push_rows_def component_rows_def split: if_splits prod.splits)

lemma push_components:
  "fold_opt (push_component lim predicate class) work out = Some out' \<Longrightarrow>
   out' = out @ concat (map component_rows
     (filter (\<lambda>sc. list_ex (narrow_matches predicate class) (c_triples (snd sc))) work))"
proof (induction work arbitrary: out)
  case (Cons sc work)
  then obtain out1 where o: "push_component lim predicate class sc out = Some out1"
    "fold_opt (push_component lim predicate class) work out1 = Some out'"
    by (auto split: option.splits)
  show ?case unfolding Cons.IH[OF o(2)] push_component_Some[OF o(1)] by simp
qed simp

text \<open>The parts of a difference that succeeds.\<close>

lemma graph_diff_parts:
  assumes "graph_diff sha korder dict max_rows st a b None predicate class = Inr out"
  obtains ca cb removed added common where
    "components sha korder max_rows (bnode_triples dict (graph_quads st a)) = Inr ca"
    "components sha korder max_rows (bnode_triples dict (graph_quads st b)) = Inr cb"
    "compare_components ca cb = (removed, added, common)"
    "mset out = mset (flatten_opts (map (ground_row dict)
         (map (Pair ''-'') (sql_except (ground_set dict predicate class (graph_quads st a))
                              (ground_set dict predicate class (graph_quads st b))) @
          map (Pair ''+'') (sql_except (ground_set dict predicate class (graph_quads st b))
                              (ground_set dict predicate class (graph_quads st a))))) @
       concat (map component_rows
         (filter (\<lambda>sc. list_ex (narrow_matches predicate class) (c_triples (snd sc)))
            (map (Pair ''-'') removed @ map (Pair ''+'') added))))"
proof -
  define ga where "ga = ground_set dict predicate class (graph_quads st a)"
  define gb where "gb = ground_set dict predicate class (graph_quads st b)"
  define rs where "rs = flatten_opts (map (ground_row dict)
    (map (Pair ''-'') (sql_except ga gb) @ map (Pair ''+'') (sql_except gb ga)))"
  obtain out1 ca cb where
    f1: "fold_opt (\<lambda>r. push_rows (budget max_rows) [r]) rs [] = Some out1" and
    c: "components sha korder max_rows (bnode_triples dict (graph_quads st a)) = Inr ca"
    "components sha korder max_rows (bnode_triples dict (graph_quads st b)) = Inr cb" and
    R: "(let (removed, added, _) = compare_components ca cb;
          work = map (Pair ''-'') removed @ map (Pair ''+'') added
        in case fold_opt (push_component (budget max_rows) predicate class) work out1 of
             None \<Rightarrow> Inl Program_Limit_Exceeded
           | Some out \<Rightarrow> Inr (sort_key (\<lambda>r. (d_rank r, d_line r)) out)) = Inr out"
    using assms
    unfolding graph_diff_def Let_def wanted_def ga_def[symmetric] gb_def[symmetric] rs_def
    by (auto split: if_splits option.splits)
  obtain removed added common where cmp: "compare_components ca cb = (removed, added, common)"
    by (metis prod_cases3)
  obtain out2 where f2: "fold_opt (push_component (budget max_rows) predicate class)
      (map (Pair ''-'') removed @ map (Pair ''+'') added) out1 = Some out2"
    and o: "out = sort_key (\<lambda>r. (d_rank r, d_line r)) out2"
    using R cmp by (auto simp: Let_def split: option.splits)
  have "mset out = mset (rs @ concat (map component_rows
      (filter (\<lambda>sc. list_ex (narrow_matches predicate class) (c_triples (snd sc)))
        (map (Pair ''-'') removed @ map (Pair ''+'') added))))"
    using push_ground[OF f1] push_components[OF f2] o by simp
  then show thesis using that c cmp unfolding rs_def ga_def gb_def by blast
qed

text \<open>C8: an empty difference proves that the graphs are the same: their ground triples are equal as
  sets of id triples, and their blank-node triples are isomorphic. The conditions: SHA-256 does not
  collide on the canonical documents of the components, no quad has an unresolvable predicate, and the
  terms of the blank-node triples are ones the parsers admit: no IRI or datatype holds \<open>>\<close> or a
  line feed, no blank-node label or language tag a space or a line feed (a term that \<open>put_term\<close>
  took from SQL can violate the last one; the digests then no longer tell graphs apart, see
  \<open>unescaped_iri_forges_digest\<close> in Canon).\<close>

theorem empty_diff_isomorphic:
  assumes "graph_diff sha korder dict max_rows st a b None None None = Inr []"
    and "ta = bnode_triples dict (graph_quads st a)" "tb = bnode_triples dict (graph_quads st b)"
    and "\<And>g. key_order g (korder g)"
    and "inj_on sha (component_doc sha korder ` (set (component_groups ta) \<union> set (component_groups tb)))"
    and "\<forall>t \<in> set ta \<union> set tb. triple_ok t"
    and "\<forall>q \<in> set (graph_quads st a) \<union> set (graph_quads st b). dict_row_of dict (qp q) \<noteq> None"
  shows "set (ground_set dict None None (graph_quads st a)) = set (ground_set dict None None (graph_quads st b)) \<and>
    isomorphic ta tb"
proof -
  let ?ga = "ground_set dict None None (graph_quads st a)" and ?gb = "ground_set dict None None (graph_quads st b)"
  obtain ca cb removed added common where
    A: "components sha korder max_rows ta = Inr ca" and B: "components sha korder max_rows tb = Inr cb" and
    C: "compare_components ca cb = (removed, added, common)" and
    O: "mset [] = mset (flatten_opts (map (ground_row dict)
         (map (Pair ''-'') (sql_except ?ga ?gb) @ map (Pair ''+'') (sql_except ?gb ?ga))) @
       concat (map component_rows (filter (\<lambda>sc. list_ex (narrow_matches None None) (c_triples (snd sc)))
            (map (Pair ''-'') removed @ map (Pair ''+'') added))))"
    using graph_diff_parts[OF assms(1)] assms(2,3) by metis
  have rows: "ground_row dict (sd, x) \<noteq> None" if "x \<in> set ?ga \<union> set ?gb" for sd x
    using that assms(7)
    by (auto simp: ground_set_def ground_row_def not_bnode_def split: option.splits)
  have none: "flatten_opts (map (ground_row dict) (map (Pair sd) xs)) = [] \<Longrightarrow> set xs \<subseteq> set ?ga \<union> set ?gb \<Longrightarrow> xs = []" for sd xs
    using rows by (cases xs) (auto simp: flatten_opts_def)
  have sub: "set (sql_except x y) \<subseteq> set x" for x y :: "(int \<times> int \<times> int) list" by (auto simp: sql_except_def)
  have fl: "flatten_opts (map (ground_row dict) (map (Pair ''-'') (sql_except ?ga ?gb))) = []"
    "flatten_opts (map (ground_row dict) (map (Pair ''+'') (sql_except ?gb ?ga))) = []"
    using O by (auto simp: flatten_opts_def)
  have "sql_except ?ga ?gb = []" "sql_except ?gb ?ga = []"
    using none[OF fl(1)] none[OF fl(2)] sub by blast+
  then have ground: "set ?ga = set ?gb" by (auto simp: sql_except_def filter_empty_conv)
  have bn: "\<forall>t \<in> set ta \<union> set tb. bnodes_of t \<noteq> {}"
    using assms(2,3) by (auto simp: bnode_triples_def is_bnode_label)
  have pr: "\<forall>t \<in> set ta \<union> set tb. pred_ok t"
  proof -
    have "pred_ok t" if "read_quad dict q = Some t" for q t
      using that by (auto simp: read_quad_def split: option.splits)
    then show ?thesis using assms(2,3)
      by (auto simp: bnode_triples_def read_asserted_triples_def simp del: pred_ok.simps)
  qed
  have "c_triples c \<noteq> []" if "c \<in> set removed \<union> set added" for c
  proof -
    note f = compare_components_filter[OF C]
    have filter_mem: "x \<in> set (filter (\<lambda>c. c_digest c = d) xs) \<longleftrightarrow> c_digest x = d \<and> x \<in> set xs"
      for x d and xs :: "component list" by auto
    have "c \<in> set ca \<union> set cb"
      using that filter_mem[of c "c_digest c"] f(1)[of "c_digest c"] f(2)[of "c_digest c"]
      by (metis Un_iff in_set_dropD)
    then have "c_triples c \<in> set (component_groups ta) \<union> set (component_groups tb)"
      using components_spec[OF A] components_spec[OF B] by (metis Un_iff image_eqI list.set_map)
    then show ?thesis
      using component_groups_apart(2)[of ta] component_groups_apart(2)[of tb] bn by blast
  qed
  then have m: "list_ex (narrow_matches None None) (c_triples c)" "component_rows (sd, c) \<noteq> []"
    if "c \<in> set removed \<union> set added" for sd c
    using that by (force simp: component_rows_def neq_Nil_conv list_ex_iff)+
  have "removed = [] \<and> added = []"
  proof (rule ccontr)
    assume "\<not> (removed = [] \<and> added = [])"
    then obtain sd c where "(sd, c) \<in> set (map (Pair ''-'') removed @ map (Pair ''+'') added)"
      "c \<in> set removed \<union> set added" by (cases removed; cases added) fastforce+
    then show False using O m by (auto simp: filter_empty_conv)
  qed
  then have "mset (map c_digest ca) - mset (map c_digest cb) = {#}"
    "mset (map c_digest cb) - mset (map c_digest ca) = {#}"
    using compare_components_multiset[OF C] by simp_all
  then have "mset (map c_digest ca) = mset (map c_digest cb)"
    by (simp add: Diff_eq_empty_iff_mset subset_mset.antisym)
  then have "isomorphic ta tb"
    using components_isomorphic[OF A B _ _ assms(4,5)] bn pr assms(6) by blast
  then show ?thesis using ground by blast
qed

text \<open>Two graphs that hold the same triples under different blank nodes.\<close>

definition twin_dict :: "dict_row list" where
  "twin_dict = demo_dict @ [\<lparr>row_id = 6, row_key = (2, ''b1'', None, None)\<rparr>]"

definition twin_store :: store where
  "twin_store = demo_store\<lparr>quads :=
     [\<lparr>qs = 1, qp = 2, qo = 3, qg = 5, qinf = False\<rparr>, \<lparr>qs = 3, qp = 2, qo = 4, qg = 5, qinf = False\<rparr>,
      \<lparr>qs = 3, qp = 2, qo = 4, qg = 7, qinf = False\<rparr>, \<lparr>qs = 6, qp = 2, qo = 3, qg = 7, qinf = False\<rparr>]\<rparr>"

lemma key_order_one_key: "key_order g (one_key g)"
  by (simp add: key_order_def one_key_def graph_bnodes_set graph_bnodes_distinct)

theorem empty_diff_isomorphic_witness:
  "isomorphic [(BNode ''b0'', Iri ''urn:p'', Iri ''urn:o'')] [(BNode ''b1'', Iri ''urn:p'', Iri ''urn:o'')]"
proof -
  have e: "graph_diff id one_key twin_dict 100 twin_store 5 7 None None None = Inr []" by code_simp
  have t: "[(BNode ''b0'', Iri ''urn:p'', Iri ''urn:o'')] = bnode_triples twin_dict (graph_quads twin_store 5)"
    "[(BNode ''b1'', Iri ''urn:p'', Iri ''urn:o'')] = bnode_triples twin_dict (graph_quads twin_store 7)"
    by code_simp+
  have q: "\<forall>q \<in> set (graph_quads twin_store 5) \<union> set (graph_quads twin_store 7). dict_row_of twin_dict (qp q) \<noteq> None"
    by code_simp
  show ?thesis
    using empty_diff_isomorphic[OF e t key_order_one_key _ _ q] by (simp add: inj_on_def)
qed

theorem compare_components_exact_witness:
  "let c = \<lambda>d. \<lparr>c_digest = d, c_triples = [], c_labels = (\<lambda>_. None)\<rparr> in
   mset (map c_digest (fst (compare_components [c ''x'', c ''y'', c ''x''] [c ''x'', c ''z'']))) = {#''y'', ''x''#}"
proof -
  define c where "c = (\<lambda>d. \<lparr>c_digest = d, c_triples = [], c_labels = (\<lambda>_. None)\<rparr>)"
  have "compare_components [c ''x'', c ''y'', c ''x''] [c ''x'', c ''z''] =
     (fst (compare_components [c ''x'', c ''y'', c ''x''] [c ''x'', c ''z'']),
      fst (snd (compare_components [c ''x'', c ''y'', c ''x''] [c ''x'', c ''z''])),
      snd (snd (compare_components [c ''x'', c ''y'', c ''x''] [c ''x'', c ''z''])))" by simp
  from compare_components_exact[OF this]
  have "mset (map c_digest (fst (compare_components [c ''x'', c ''y'', c ''x''] [c ''x'', c ''z'']))) =
    mset (map c_digest [c ''x'', c ''y'', c ''x'']) - mset (map c_digest [c ''x'', c ''z''])" by blast
  then show ?thesis by (simp add: c_def Let_def)
qed

end
