(* ===== verification/Property_Path.thy ===== *)
theory Property_Path
  imports Prelude
begin

text \<open>
  The classification of SPARQL property paths (\<open>src/query/path.rs\<close>, first half): which paths the
  translator runs, and the plan each becomes. A plan walks one set of predicates in one direction;
  the reference is the W3C relation of the path, and a plan is right when it denotes that relation.
  The expression type is the source's view of \<open>spargebra::algebra::PropertyPathExpression\<close>; term
  patterns are only moved around, so their type is a parameter.
\<close>

datatype path_expr =
    Named_Node string
  | Reverse path_expr
  | Sequence path_expr path_expr
  | Alternative path_expr path_expr
  | Zero_Or_More path_expr
  | One_Or_More path_expr
  | Zero_Or_One path_expr
  | Negated_Property_Set "string list"

datatype 't path_plan =
    Triple_Plan 't string 't
  | One_Or_More_Plan "string list" bool
  | Zero_Or_More_Plan "string list" bool
  | Zero_Or_One_Plan "string list" bool
  | Alternation_Plan "string list" bool

text \<open>The three stable panics.\<close>

datatype path_panic = One_Or_More_Nested | Negated | Sequence_Path

fun fold_plain_predicate :: "path_expr \<Rightarrow> bool \<Rightarrow> (string \<times> bool) option" where
  "fold_plain_predicate (Reverse b) swapped = fold_plain_predicate b (\<not> swapped)"
| "fold_plain_predicate (Named_Node p) swapped = Some (p, swapped)"
| "fold_plain_predicate _ swapped = None"

text \<open>The inner \<open>walk\<close>: the predicates and the direction found so far, and whether to go on.\<close>

fun alt_walk :: "path_expr \<Rightarrow> bool \<Rightarrow> string list \<times> bool option \<Rightarrow> bool \<times> string list \<times> bool option" where
  "alt_walk (Alternative l r) start acc =
     (let (ok, acc) = alt_walk l start acc in if ok then alt_walk r start acc else (False, acc))"
| "alt_walk e start acc =
     (case fold_plain_predicate e start of
        None \<Rightarrow> (False, acc)
      | Some (p, sw) \<Rightarrow>
          (let (preds, dir) = acc in
           case dir of
             None \<Rightarrow> (True, preds @ [p], Some sw)
           | Some d \<Rightarrow> if d = sw then (True, preds @ [p], Some d) else (False, acc)))"

definition flatten_alternation :: "path_expr \<Rightarrow> bool \<Rightarrow> (string list \<times> bool) option" where
  "flatten_alternation e start =
     (let (ok, preds, dir) = alt_walk e start ([], None) in
      if ok \<and> preds \<noteq> [] then Some (preds, case dir of Some d \<Rightarrow> d | None \<Rightarrow> start) else None)"

fun is_alternative :: "path_expr \<Rightarrow> bool" where
  "is_alternative (Alternative _ _) = True"
| "is_alternative _ = False"

definition fold_inner_predicates :: "path_expr \<Rightarrow> bool \<Rightarrow> path_panic + (string list \<times> bool)" where
  "fold_inner_predicates inner outer_swapped =
     (case fold_plain_predicate inner outer_swapped of
        Some (p, sw) \<Rightarrow> Inr ([p], sw)
      | None \<Rightarrow>
          (case (if is_alternative inner then flatten_alternation inner outer_swapped else None) of
             Some r \<Rightarrow> Inr r
           | None \<Rightarrow> Inl One_Or_More_Nested))"

text \<open>The loop of \<open>classify_path\<close>, with its \<open>swapped\<close> flag.\<close>

fun classify_loop :: "'t \<Rightarrow> path_expr \<Rightarrow> 't \<Rightarrow> bool \<Rightarrow> path_panic + 't path_plan" where
  "classify_loop s (Reverse inner) k swapped = classify_loop s inner k (\<not> swapped)"
| "classify_loop s (Named_Node p) k swapped =
     Inr (if swapped then Triple_Plan k p s else Triple_Plan s p k)"
| "classify_loop s (One_Or_More inner) k swapped =
     map_sum id (\<lambda>(ps, sw). One_Or_More_Plan ps sw) (fold_inner_predicates inner swapped)"
| "classify_loop s (Zero_Or_More inner) k swapped =
     map_sum id (\<lambda>(ps, sw). Zero_Or_More_Plan ps sw) (fold_inner_predicates inner swapped)"
| "classify_loop s (Zero_Or_One inner) k swapped =
     map_sum id (\<lambda>(ps, sw). Zero_Or_One_Plan ps sw) (fold_inner_predicates inner swapped)"
| "classify_loop s (Alternative l r) k swapped =
     (case flatten_alternation (Alternative l r) swapped of
        Some (ps, sw) \<Rightarrow> Inr (Alternation_Plan ps sw)
      | None \<Rightarrow> Inl One_Or_More_Nested)"
| "classify_loop s (Negated_Property_Set ps) k swapped = Inl Negated"
| "classify_loop s (Sequence a b) k swapped = Inl Sequence_Path"

definition classify_path :: "'t \<Rightarrow> path_expr \<Rightarrow> 't \<Rightarrow> path_panic + 't path_plan" where
  "classify_path subject path object = classify_loop subject path object False"

definition inner_is_plain_or_alternation :: "path_expr \<Rightarrow> bool" where
  "inner_is_plain_or_alternation inner \<longleftrightarrow>
     fold_plain_predicate inner False \<noteq> None \<or>
     is_alternative inner \<and> flatten_alternation inner False \<noteq> None"

fun is_executable :: "path_expr \<Rightarrow> bool" where
  "is_executable (Reverse inner) \<longleftrightarrow> is_executable inner"
| "is_executable (Named_Node _) \<longleftrightarrow> True"
| "is_executable (One_Or_More inner) \<longleftrightarrow> inner_is_plain_or_alternation inner"
| "is_executable (Zero_Or_More inner) \<longleftrightarrow> inner_is_plain_or_alternation inner"
| "is_executable (Zero_Or_One inner) \<longleftrightarrow> inner_is_plain_or_alternation inner"
| "is_executable (Alternative l r) \<longleftrightarrow> flatten_alternation (Alternative l r) False \<noteq> None"
| "is_executable _ \<longleftrightarrow> False"

text \<open>
  \<open>analysis_triple\<close>: the outer \<open>None\<close> is the answer "not executable", the inner sum the panics the
  calls may raise (a panic of \<open>classify_path\<close>, or the empty predicate set).
\<close>

definition plan_triple :: "'t \<Rightarrow> 't \<Rightarrow> string list \<Rightarrow> bool \<Rightarrow> path_panic + ('t \<times> string \<times> 't)" where
  "plan_triple subject object predicates swapped =
     (case predicates of
        [] \<Rightarrow> Inl One_Or_More_Nested
      | p # _ \<Rightarrow> Inr (if swapped then (object, p, subject) else (subject, p, object)))"

definition analysis_triple :: "'t \<Rightarrow> path_expr \<Rightarrow> 't \<Rightarrow> (path_panic + ('t \<times> string \<times> 't)) option" where
  "analysis_triple subject path object =
     (if \<not> is_executable path then None
      else Some
        (case classify_path subject path object of
           Inl e \<Rightarrow> Inl e
         | Inr (Triple_Plan s p k) \<Rightarrow> Inr (s, p, k)
         | Inr (One_Or_More_Plan ps sw) \<Rightarrow> plan_triple subject object ps sw
         | Inr (Zero_Or_More_Plan ps sw) \<Rightarrow> plan_triple subject object ps sw
         | Inr (Zero_Or_One_Plan ps sw) \<Rightarrow> plan_triple subject object ps sw
         | Inr (Alternation_Plan ps sw) \<Rightarrow> plan_triple subject object ps sw))"

section \<open>The reference: the relation of a path\<close>

text \<open>
  \<open>E p\<close> is the set of the edges with predicate \<open>p\<close> and \<open>N\<close> the nodes of the active scope
  (SPARQL 1.1, section 9.3); \<open>P\<close> are all predicates, for negated sets.
\<close>

fun path_rel :: "string set \<Rightarrow> (string \<Rightarrow> ('n \<times> 'n) set) \<Rightarrow> 'n set \<Rightarrow> path_expr \<Rightarrow> ('n \<times> 'n) set" where
  "path_rel P E N (Named_Node p) = E p"
| "path_rel P E N (Reverse b) = (path_rel P E N b)\<inverse>"
| "path_rel P E N (Sequence a b) = path_rel P E N a O path_rel P E N b"
| "path_rel P E N (Alternative a b) = path_rel P E N a \<union> path_rel P E N b"
| "path_rel P E N (Zero_Or_More b) = Id_on N \<union> (path_rel P E N b)\<^sup>+"
| "path_rel P E N (One_Or_More b) = (path_rel P E N b)\<^sup>+"
| "path_rel P E N (Zero_Or_One b) = Id_on N \<union> path_rel P E N b"
| "path_rel P E N (Negated_Property_Set ps) = (\<Union>p \<in> P - set ps. E p)"

text \<open>One step over a set of predicates, in a direction; the relation of a plan.\<close>

definition step_rel :: "(string \<Rightarrow> ('n \<times> 'n) set) \<Rightarrow> string list \<Rightarrow> bool \<Rightarrow> ('n \<times> 'n) set" where
  "step_rel E ps swapped = (if swapped then (\<Union>p \<in> set ps. E p)\<inverse> else (\<Union>p \<in> set ps. E p))"

fun plan_holds ::
    "(string \<Rightarrow> ('n \<times> 'n) set) \<Rightarrow> 'n set \<Rightarrow> 't \<Rightarrow> 't \<Rightarrow> ('t \<Rightarrow> 'n) \<Rightarrow> 't path_plan \<Rightarrow> bool" where
  "plan_holds E N s k v (Triple_Plan a p b) \<longleftrightarrow> (v a, v b) \<in> E p"
| "plan_holds E N s k v (One_Or_More_Plan ps sw) \<longleftrightarrow> (v s, v k) \<in> (step_rel E ps sw)\<^sup>+"
| "plan_holds E N s k v (Zero_Or_More_Plan ps sw) \<longleftrightarrow> (v s, v k) \<in> Id_on N \<union> (step_rel E ps sw)\<^sup>+"
| "plan_holds E N s k v (Zero_Or_One_Plan ps sw) \<longleftrightarrow> (v s, v k) \<in> Id_on N \<union> step_rel E ps sw"
| "plan_holds E N s k v (Alternation_Plan ps sw) \<longleftrightarrow> (v s, v k) \<in> step_rel E ps sw"

definition turn :: "bool \<Rightarrow> ('n \<times> 'n) set \<Rightarrow> ('n \<times> 'n) set" where
  "turn swapped R = (if swapped then R\<inverse> else R)"

lemma turn_simps [simp]:
  "turn False R = R" "turn True R = R\<inverse>" "turn (\<not> sw) R = turn sw (R\<inverse>)"
  by (auto simp: turn_def)

lemma turn_union: "turn sw (R \<union> S) = turn sw R \<union> turn sw S" by (auto simp: turn_def)

lemma turn_trancl: "turn sw (R\<^sup>+) = (turn sw R)\<^sup>+" by (simp add: turn_def trancl_converse)

lemma turn_Id_on: "turn sw (Id_on N) = Id_on N" by (auto simp: turn_def)

lemma step_rel_turn: "step_rel E ps sw = turn sw (\<Union>p \<in> set ps. E p)"
  by (simp add: step_rel_def turn_def)

lemma turn_UN: "turn sw (\<Union>p \<in> A. E p) = (\<Union>p \<in> A. turn sw (E p))" by (auto simp: turn_def)

section \<open>Folding is sound\<close>

lemma fold_plain_predicate_sound:
  "fold_plain_predicate e sw = Some (p, d) \<Longrightarrow> turn sw (path_rel P E N e) = turn d (E p)"
  by (induction e sw rule: fold_plain_predicate.induct) auto

text \<open>What a successful alternation walk adds is the relation of the expression, in one direction.\<close>

lemma alt_walk_sound:
  assumes "alt_walk e sw (ps, dir) = (True, ps', dir')"
  shows "\<exists>qs d. ps' = ps @ qs \<and> qs \<noteq> [] \<and> dir' = Some d \<and> (dir = None \<or> dir = Some d) \<and>
    turn sw (path_rel P E N e) = step_rel E qs d"
  using assms
proof (induction e arbitrary: ps dir ps' dir')
  case (Alternative l r)
  obtain ps1 dir1 where l: "alt_walk l sw (ps, dir) = (True, ps1, dir1)"
    and r: "alt_walk r sw (ps1, dir1) = (True, ps', dir')"
    using Alternative.prems by (auto split: prod.splits if_splits)
  obtain qs d where 1: "ps1 = ps @ qs" "qs \<noteq> []" "dir1 = Some d" "dir = None \<or> dir = Some d"
    "turn sw (path_rel P E N l) = step_rel E qs d" using Alternative.IH(1)[OF l] by blast
  obtain qs' d' where 2: "ps' = ps1 @ qs'" "dir' = Some d'" "dir1 = None \<or> dir1 = Some d'"
    "turn sw (path_rel P E N r) = step_rel E qs' d'" using Alternative.IH(2)[OF r] by blast
  have "turn sw (path_rel P E N (Alternative l r)) = step_rel E (qs @ qs') d"
    using 1(3,5) 2(3,4) by (simp add: turn_union step_rel_turn UN_Un)
  then show ?case using 1 2 by auto
next
  case (Reverse e)
  then show ?case
    using fold_plain_predicate_sound[of "Reverse e" sw]
    by (fastforce simp: step_rel_turn split: option.splits prod.splits if_splits)
qed (auto simp: step_rel_turn split: option.splits prod.splits if_splits)

lemma flatten_alternation_sound:
  assumes "flatten_alternation e sw = Some (ps, d)"
  shows "turn sw (path_rel P E N e) = step_rel E ps d" "ps \<noteq> []"
proof -
  obtain dir where w: "alt_walk e sw ([], None) = (True, ps, dir)"
    and d: "d = (case dir of Some d \<Rightarrow> d | None \<Rightarrow> sw)"
    using assms by (auto simp: flatten_alternation_def split: prod.splits if_splits)
  obtain d' where "ps \<noteq> []" "dir = Some d'" "turn sw (path_rel P E N e) = step_rel E ps d'"
    using alt_walk_sound[OF w, of P E N] by auto
  then show "turn sw (path_rel P E N e) = step_rel E ps d" "ps \<noteq> []" using d by simp_all
qed

lemma fold_inner_predicates_sound:
  assumes "fold_inner_predicates e sw = Inr (ps, d)"
  shows "turn sw (path_rel P E N e) = step_rel E ps d" "ps \<noteq> []"
  using assms fold_plain_predicate_sound[of e sw _ _ P E N] flatten_alternation_sound[of e sw ps d]
  by (auto simp: fold_inner_predicates_def step_rel_turn split: option.splits if_splits)

section \<open>Plans denote their paths\<close>

lemma classify_loop_sound:
  assumes "classify_loop s path k swapped = Inr plan"
  shows "plan_holds E N s k v plan \<longleftrightarrow> (v s, v k) \<in> turn swapped (path_rel P E N path)"
  using assms
proof (induction s path k swapped rule: classify_loop.induct)
  case (3 s inner k swapped)
  then obtain ps d where f: "fold_inner_predicates inner swapped = Inr (ps, d)"
    and p: "plan = One_Or_More_Plan ps d" by (cases "fold_inner_predicates inner swapped") auto
  show ?case using fold_inner_predicates_sound(1)[OF f, of P E N] by (simp add: p turn_trancl)
next
  case (4 s inner k swapped)
  then obtain ps d where f: "fold_inner_predicates inner swapped = Inr (ps, d)"
    and p: "plan = Zero_Or_More_Plan ps d" by (cases "fold_inner_predicates inner swapped") auto
  show ?case using fold_inner_predicates_sound(1)[OF f, of P E N]
    by (simp add: p turn_union turn_trancl turn_Id_on)
next
  case (5 s inner k swapped)
  then obtain ps d where f: "fold_inner_predicates inner swapped = Inr (ps, d)"
    and p: "plan = Zero_Or_One_Plan ps d" by (cases "fold_inner_predicates inner swapped") auto
  show ?case using fold_inner_predicates_sound(1)[OF f, of P E N] by (simp add: p turn_union turn_Id_on)
next
  case (6 s l r k swapped)
  then obtain ps d where f: "flatten_alternation (Alternative l r) swapped = Some (ps, d)"
    and p: "plan = Alternation_Plan ps d" by (auto split: option.splits)
  show ?case using flatten_alternation_sound(1)[OF f, of P E N] by (simp add: p)
qed (auto simp: turn_def split: if_splits)

text \<open>C10: a path the translator accepts is translated faithfully: under every valuation of the term
  patterns, the plan holds between the two ends exactly when they are related by the path, for
  every inverse, closure, optional and alternation form.\<close>

theorem classify_path_faithful:
  assumes "classify_path s path k = Inr plan"
  shows "plan_holds E N s k v plan \<longleftrightarrow> (v s, v k) \<in> path_rel P E N path"
  using classify_loop_sound[of s path k False plan E N v P] assms by (simp add: classify_path_def)

theorem classify_path_faithful_witness:
  "plan_holds (\<lambda>p. if p = ''a'' then {(1::nat, 2)} else {(3, 2)}) {} (0::nat) 1 (\<lambda>x. if x = 0 then 2 else 3)
     (One_Or_More_Plan [''a'', ''b''] True)
   \<longleftrightarrow> (2, 3) \<in> path_rel {} (\<lambda>p. if p = ''a'' then {(1::nat, 2)} else {(3, 2)}) {}
        (Reverse (One_Or_More (Alternative (Named_Node ''a'') (Named_Node ''b''))))"
proof -
  have c: "classify_path (0::nat) (Reverse (One_Or_More (Alternative (Named_Node ''a'') (Named_Node ''b'')))) 1 =
    Inr (One_Or_More_Plan [''a'', ''b''] True)" by code_simp
  show ?thesis
    using classify_path_faithful[OF c, of "\<lambda>p. if p = ''a'' then {(1::nat, 2)} else {(3, 2)}" "{}"
        "\<lambda>x. if x = 0 then 2 else 3" "{}"] by simp
qed

section \<open>What the parser reports is what the executor runs\<close>

lemma fold_plain_predicate_flip:
  "fold_plain_predicate e (\<not> sw) = map_option (\<lambda>(p, d). (p, \<not> d)) (fold_plain_predicate e sw)"
  by (induction e sw rule: fold_plain_predicate.induct) auto

lemma alt_walk_flip:
  "alt_walk e (\<not> sw) (ps, map_option Not dir) =
     (case alt_walk e sw (ps, dir) of (ok, ps', dir') \<Rightarrow> (ok, ps', map_option Not dir'))"
proof (induction e arbitrary: ps dir)
  case (Alternative l r)
  then show ?case by (auto split: prod.splits)
next
  case (Reverse e)
  then show ?case using fold_plain_predicate_flip[of e "\<not> sw"] by (auto split: option.splits)
qed (auto split: option.splits)

lemma flatten_alternation_flip:
  "flatten_alternation e (\<not> sw) = map_option (\<lambda>(ps, d). (ps, \<not> d)) (flatten_alternation e sw)"
  using alt_walk_flip[of e sw "[]" None]
  by (auto simp: flatten_alternation_def split: prod.splits option.splits)

lemma flatten_alternation_any: "flatten_alternation e sw = None \<longleftrightarrow> flatten_alternation e False = None"
  using flatten_alternation_flip[of e False] by (cases sw) auto

lemma fold_plain_predicate_any: "fold_plain_predicate e sw = None \<longleftrightarrow> fold_plain_predicate e False = None"
  using fold_plain_predicate_flip[of e False] by (cases sw) auto

lemma fold_inner_predicates_ok:
  "isl (fold_inner_predicates e sw) \<longleftrightarrow> \<not> inner_is_plain_or_alternation e"
  using fold_plain_predicate_any[of e sw] flatten_alternation_any[of e sw]
  by (auto simp: fold_inner_predicates_def inner_is_plain_or_alternation_def split: option.splits)

lemma isl_map_sum [simp]: "isl (map_sum f g x) = isl x" by (cases x) auto

lemma classify_loop_ok: "isl (classify_loop s path k sw) \<longleftrightarrow> \<not> is_executable path"
proof (induction s path k sw rule: classify_loop.induct)
  case (6 s l r k sw)
  then show ?case using flatten_alternation_any[of "Alternative l r" sw] by (auto split: option.splits)
qed (simp_all add: fold_inner_predicates_ok)

text \<open>Every plan walks at least one predicate, and a triple plan has the ends of the path.\<close>

fun plan_shape :: "'t \<Rightarrow> 't \<Rightarrow> 't path_plan \<Rightarrow> bool" where
  "plan_shape s k (Triple_Plan a p b) \<longleftrightarrow> a = s \<and> b = k \<or> a = k \<and> b = s"
| "plan_shape s k (One_Or_More_Plan ps sw) \<longleftrightarrow> ps \<noteq> []"
| "plan_shape s k (Zero_Or_More_Plan ps sw) \<longleftrightarrow> ps \<noteq> []"
| "plan_shape s k (Zero_Or_One_Plan ps sw) \<longleftrightarrow> ps \<noteq> []"
| "plan_shape s k (Alternation_Plan ps sw) \<longleftrightarrow> ps \<noteq> []"

lemma map_sum_Inr_iff: "map_sum id f x = Inr y \<longleftrightarrow> (\<exists>z. x = Inr z \<and> y = f z)"
  by (cases x) auto

lemma classify_loop_shape: "classify_loop s path k sw = Inr plan \<Longrightarrow> plan_shape s k plan"
  by (induction s path k sw rule: classify_loop.induct)
    (auto simp: map_sum_Inr_iff dest: fold_inner_predicates_sound(2) flatten_alternation_sound(2)
      split: if_splits option.splits)

lemma plan_triple_ends:
  "ps \<noteq> [] \<Longrightarrow> \<exists>p. plan_triple s k ps sw = Inr (s, p, k) \<or> plan_triple s k ps sw = Inr (k, p, s)"
  by (cases ps) (auto simp: plan_triple_def)

lemma analysis_triple_ends:
  assumes "is_executable path"
  shows "\<exists>p. analysis_triple s path k = Some (Inr (s, p, k)) \<or> analysis_triple s path k = Some (Inr (k, p, s))"
proof -
  obtain plan where c: "classify_path s path k = Inr plan"
    using classify_loop_ok[of s path k False] assms
    by (cases "classify_path s path k") (auto simp: classify_path_def)
  have "plan_shape s k plan" using c classify_loop_shape[of s path k False plan] by (simp add: classify_path_def)
  then show ?thesis
    using assms c plan_triple_ends by (cases plan) (auto simp: analysis_triple_def)
qed

text \<open>The parse-time check and the translator agree: a path is reported executable exactly when
  \<open>classify_path\<close> does not panic, whatever its ends; and exactly then the analysis triple exists,
  is computed without a panic, and carries the two ends of the path and no other term.\<close>

theorem executable_iff_classified:
  "(is_executable path \<longleftrightarrow> (\<exists>plan. classify_path s path k = Inr plan)) \<and>
   (is_executable path \<longleftrightarrow>
      (\<exists>p. analysis_triple s path k = Some (Inr (s, p, k)) \<or> analysis_triple s path k = Some (Inr (k, p, s))))"
proof
  show "is_executable path \<longleftrightarrow> (\<exists>plan. classify_path s path k = Inr plan)"
    using classify_loop_ok[of s path k False]
    by (cases "classify_path s path k") (auto simp: classify_path_def)
  show "is_executable path \<longleftrightarrow>
      (\<exists>p. analysis_triple s path k = Some (Inr (s, p, k)) \<or> analysis_triple s path k = Some (Inr (k, p, s)))"
    using analysis_triple_ends[of path s k] by (auto simp: analysis_triple_def split: if_splits)
qed

end
