(* ===== verification/Path_Walk.thy ===== *)
theory Path_Walk
  imports Graph_Store
begin

text \<open>
  The breadth-first walk behind the property paths \<open>+\<close> and \<open>*\<close> (\<open>src/query/walk.rs\<close>). Every start
  node advances together, one expansion of the whole frontier per level, with one visited set per
  start. A SELECT is the list of its rows over the quad table; a HashSet is the list of its elements.
  The locale states what the search needs of the expansion; the interpretation discharges it for
  the three SQL forms, and the properties follow for the code's walk.
\<close>

section \<open>Definitions\<close>

definition edge_ends :: "bool \<Rightarrow> quad \<Rightarrow> int \<times> int" where
  "edge_ends follow_inverse q = (if follow_inverse then (qo q, qs q) else (qs q, qo q))"

fun in_graph :: "int option \<Rightarrow> quad \<Rightarrow> bool" where
  "in_graph None q \<longleftrightarrow> True"
| "in_graph (Some g) q \<longleftrightarrow> qg q = g"

text \<open>The starts: a node and the graph of its walk.\<close>

definition walk_starts ::
    "quad list \<Rightarrow> int list \<Rightarrow> int option \<Rightarrow> int option \<Rightarrow> bool \<Rightarrow> bool \<Rightarrow> (int \<times> int option) list" where
  "walk_starts qt preds gr seed bwd per_graph =
     (case seed of
        Some s \<Rightarrow> [(s, gr)]
      | None \<Rightarrow>
          if per_graph
          then remdups (map (\<lambda>q. (fst (edge_ends bwd q), Some (qg q)))
                 (filter (\<lambda>q. qp q \<in> set preds \<and> qg q \<noteq> 0) qt))
          else map (\<lambda>n. (n, gr))
                 (remdups (map (\<lambda>q. fst (edge_ends bwd q))
                    (filter (\<lambda>q. qp q \<in> set preds \<and> in_graph gr q) qt))))"

text \<open>The graph the edges of a walk must be in, \<open>h\<close> being the graph of its start.\<close>

definition walk_graph :: "int option \<Rightarrow> bool \<Rightarrow> int option \<Rightarrow> int option" where
  "walk_graph gr per_graph h =
     (if per_graph then Some (case h of Some g \<Rightarrow> g | None \<Rightarrow> 0) else gr)"

definition expand ::
    "quad list \<Rightarrow> int list \<Rightarrow> int option \<Rightarrow> bool \<Rightarrow> bool \<Rightarrow> (int \<times> int option) list
      \<Rightarrow> (nat \<times> int) list \<Rightarrow> (nat \<times> int) list" where
  "expand qt preds gr bwd per_graph starts frontier =
     concat (map (\<lambda>(w, n). map (\<lambda>q. (w, snd (edge_ends bwd q)))
       (filter (\<lambda>q. fst (edge_ends bwd q) = n \<and> qp q \<in> set preds \<and>
                    in_graph (walk_graph gr per_graph (snd (starts ! w))) q) qt)) frontier)"

type_synonym walk_row = "int \<times> int \<times> int option"
type_synonym walk_state = "int list list \<times> walk_row list \<times> (nat \<times> int) list"

text \<open>One expanded edge: what was not visited becomes a row and joins the next frontier.\<close>

definition visit :: "(int \<times> int option) list \<Rightarrow> nat \<times> int \<Rightarrow> walk_state \<Rightarrow> walk_state" where
  "visit starts e st =
     (let (w, n) = e; (visited, out, next) = st in
      if n \<in> set (visited ! w) then st
      else (visited[w := n # visited ! w],
            out @ [(fst (starts ! w), n, snd (starts ! w))], next @ [(w, n)]))"

text \<open>The level loop, by the number of levels the depth cap still allows.\<close>

primrec walk_levels ::
    "nat \<Rightarrow> ((nat \<times> int) list \<Rightarrow> (nat \<times> int) list) \<Rightarrow> (int \<times> int option) list \<Rightarrow> nat
      \<Rightarrow> (nat \<times> int) list \<Rightarrow> int list list \<Rightarrow> walk_row list
      \<Rightarrow> ((nat \<times> int) list \<times> int list list \<times> walk_row list) res" where
  "walk_levels 0 ex starts pairs frontier visited out = Inr (frontier, visited, out)"
| "walk_levels (Suc d) ex starts pairs frontier visited out =
     (if frontier = [] then Inr (frontier, visited, out)
      else
        (let (visited', out', next) = fold (visit starts) (ex frontier) (visited, out, []) in
         if length out' > pairs then Inl Program_Limit_Exceeded
         else walk_levels d ex starts pairs next visited' out'))"

text \<open>
  \<open>_path_walk\<close>. The last argument is the backend's set TRUNCATED of path ids; \<open>max_pairs\<close> is the
  setting \<open>pgrdf.path_max_pairs\<close>.
\<close>

definition path_walk ::
    "quad list \<Rightarrow> int \<Rightarrow> int list \<Rightarrow> int option \<Rightarrow> int option \<Rightarrow> bool \<Rightarrow> int \<Rightarrow> int \<Rightarrow> bool \<Rightarrow> int list
      \<Rightarrow> (walk_row list \<times> int list) res" where
  "path_walk qt max_pairs preds gr seed follow_inverse max_depth path_id per_graph truncated =
     (let starts = walk_starts qt preds gr seed follow_inverse per_graph;
          ex = expand qt preds gr follow_inverse per_graph starts in
      res_bind
        (walk_levels (nat max_depth) ex starts (nat (max max_pairs 1))
           (map (\<lambda>(w, s). (w, fst s)) (enumerate 0 starts)) (replicate (length starts) []) [])
        (\<lambda>(frontier, visited, out).
           Inr (out,
                if frontier \<noteq> [] \<and> list_ex (\<lambda>(w, n). n \<notin> set (visited ! w)) (ex frontier)
                then List.insert path_id truncated else truncated)))"

definition was_truncated :: "int \<Rightarrow> int list \<Rightarrow> bool" where
  "was_truncated path_id truncated \<longleftrightarrow> path_id \<in> set truncated"

section \<open>Reachability within a number of steps\<close>

definition within :: "('n \<times> 'n) set \<Rightarrow> 'n \<Rightarrow> nat \<Rightarrow> 'n set" where
  "within R s d = {n. \<exists>i. 1 \<le> i \<and> i \<le> d \<and> (s, n) \<in> R ^^ i}"

lemma within_0 [simp]: "within R s 0 = {}" by (auto simp: within_def)

lemma within_Suc: "within R s (Suc d) = R `` {s} \<union> R `` within R s d"
proof
  show "within R s (Suc d) \<subseteq> R `` {s} \<union> R `` within R s d"
  proof
    fix n assume "n \<in> within R s (Suc d)"
    then obtain i where i: "1 \<le> i" "i \<le> Suc d" "(s, n) \<in> R ^^ i" by (auto simp: within_def)
    then obtain j where j: "i = Suc j" by (cases i) auto
    then obtain m where m: "(s, m) \<in> R ^^ j" "(m, n) \<in> R" using i(3) by auto
    show "n \<in> R `` {s} \<union> R `` within R s d"
    proof (cases "j = 0")
      case False
      then have "m \<in> within R s d" using m(1) j i(2) by (auto simp: within_def Suc_le_eq)
      then show ?thesis using m(2) by blast
    qed (use m in simp)
  qed
  have "n \<in> within R s (Suc d)" if m: "m \<in> within R s d" and n: "(m, n) \<in> R" for m n
  proof -
    obtain i where "1 \<le> i" "i \<le> d" "(s, m) \<in> R ^^ i" using m by (auto simp: within_def)
    then show ?thesis using n by (auto simp: within_def intro!: exI[of _ "Suc i"])
  qed
  moreover have "R `` {s} \<subseteq> within R s (Suc d)" by (auto simp: within_def intro!: exI[of _ 1])
  ultimately show "R `` {s} \<union> R `` within R s d \<subseteq> within R s (Suc d)" by blast
qed

lemma within_mono: "d \<le> e \<Longrightarrow> within R s d \<subseteq> within R s e"
  by (auto simp: within_def intro: le_trans)

lemma within_trancl: "(\<Union>d. within R s d) = R\<^sup>+ `` {s}"
  by (auto simp: within_def trancl_power) (metis Suc_leI le_refl less_Suc_eq_le not_less_eq)+

lemma trancl_within: "(s, n) \<in> R\<^sup>+ \<longleftrightarrow> (\<exists>d. n \<in> within R s d)"
  using within_trancl[of R s] by blast

lemma within_stable:
  assumes "within R s (Suc d) \<subseteq> within R s d"
  shows "R\<^sup>+ `` {s} = within R s d"
proof -
  have "within R s e \<subseteq> within R s d" for e
  proof (induction e)
    case (Suc e)
    then have "within R s (Suc e) \<subseteq> within R s (Suc d)" unfolding within_Suc by blast
    then show ?case using assms by blast
  qed simp
  then show ?thesis using within_trancl[of R s] by blast
qed

text \<open>A visited set grows with every level or is final: at most one level per node is needed.\<close>

lemma within_grows:
  assumes "finite (Range R)"
  shows "d \<le> card (within R s d) \<or> R\<^sup>+ `` {s} = within R s d"
proof (induction d)
  case (Suc d)
  have sub: "within R s e \<subseteq> Range R" for e by (cases e) (auto simp: within_Suc)
  have mono: "within R s d \<subseteq> within R s (Suc d)" by (rule within_mono) simp
  show ?case
  proof (cases "within R s (Suc d) \<subseteq> within R s d")
    case True
    then show ?thesis using within_stable[OF True] mono by auto
  next
    case False
    then have "within R s d \<subset> within R s (Suc d)" using mono by blast
    then have "card (within R s d) < card (within R s (Suc d))"
      using finite_subset[OF sub assms] psubset_card_mono by blast
    moreover have "d \<le> card (within R s d)"
      using Suc False within_trancl[of R s] by blast
    ultimately show ?thesis by simp
  qed
qed simp

lemma within_card:
  assumes "finite (Range R)" "card (Range R) \<le> d"
  shows "R\<^sup>+ `` {s} = within R s d"
proof -
  have sub: "within R s d \<subseteq> Range R" by (cases d) (auto simp: within_Suc)
  have R: "R\<^sup>+ `` {s} \<subseteq> Range R" by (auto elim: tranclE)
  show ?thesis
  proof (cases "d \<le> card (within R s d)")
    case True
    then have "card (Range R) \<le> card (within R s d)" using assms(2) by simp
    then have "within R s d = Range R" using card_seteq[OF assms(1) sub] by simp
    then show ?thesis using R within_trancl[of R s] by blast
  qed (use within_grows[OF assms(1), of d s] in blast)
qed

text \<open>The frontier of a breadth-first search: only the newest nodes need expanding.\<close>

lemma within_step:
  "within R s (Suc (Suc d)) = within R s (Suc d) \<union> R `` (within R s (Suc d) - within R s d)"
proof -
  let ?A = "within R s (Suc d)" and ?B = "within R s d"
  have A: "?A = R `` {s} \<union> R `` ?B" by (rule within_Suc)
  have "?B \<subseteq> ?A" by (rule within_mono) simp
  then have "R `` {s} \<union> R `` ?A = ?A \<union> R `` (?A - ?B)"
    by (subst (2) A) blast
  then show ?thesis by (simp only: within_Suc[of R s "Suc d"])
qed

lemma visit_seen: "n \<in> set (V ! w) \<Longrightarrow> visit starts (w, n) (V, out, nx) = (V, out, nx)"
  by (simp add: visit_def)

lemma visit_new:
  "n \<notin> set (V ! w) \<Longrightarrow> visit starts (w, n) (V, out, nx) =
     (V[w := n # V ! w], out @ [(fst (starts ! w), n, snd (starts ! w))], nx @ [(w, n)])"
  by (simp add: visit_def)

section \<open>The search, for any expansion\<close>

locale expansion =
  fixes ex :: "(nat \<times> int) list \<Rightarrow> (nat \<times> int) list"
    and starts :: "(int \<times> int option) list"
    and rel :: "nat \<Rightarrow> (int \<times> int) set"
  assumes ex_set: "set (ex fr) = {(w, m). \<exists>n. (w, n) \<in> set fr \<and> (n, m) \<in> rel w}"
    and distinct_starts: "distinct starts"
    and finite_rel: "finite (rel w)"
begin

definition front :: "nat \<Rightarrow> nat \<Rightarrow> int set" where
  "front d w = (if d = 0 then {fst (starts ! w)} else within (rel w) (fst (starts ! w)) d - within (rel w) (fst (starts ! w)) (d - 1))"

definition level_inv :: "nat \<Rightarrow> (nat \<times> int) list \<Rightarrow> int list list \<Rightarrow> walk_row list \<Rightarrow> bool" where
  "level_inv d fr visited out \<longleftrightarrow>
     length visited = length starts \<and>
     set fr = {(w, n). w < length starts \<and> n \<in> front d w} \<and>
     (\<forall>w < length starts. set (visited ! w) = within (rel w) (fst (starts ! w)) d) \<and>
     set out = {(fst (starts ! w), n, snd (starts ! w)) | w n. w < length starts \<and> n \<in> set (visited ! w)} \<and>
     distinct out"

lemma next_within:
  "within (rel w) (fst (starts ! w)) (Suc d) = within (rel w) (fst (starts ! w)) d \<union> rel w `` front d w"
  using within_Suc[of "rel w" "fst (starts ! w)" d] within_step[of "rel w" "fst (starts ! w)" "d - 1"]
  by (cases d) (auto simp: front_def)

lemma visit_all:
  assumes "length V = length starts" "\<forall>(w, n) \<in> set es. w < length starts"
    and "set out = {(fst (starts ! w), n, snd (starts ! w)) | w n. w < length starts \<and> n \<in> set (V ! w)}" "distinct out"
    and "fold (visit starts) es (V, out, nx) = (V', out', nx')"
  shows "length V' = length starts \<and>
    (\<forall>w < length starts. set (V' ! w) = set (V ! w) \<union> {n. (w, n) \<in> set es}) \<and>
    set nx' = set nx \<union> {(w, n) \<in> set es. n \<notin> set (V ! w)} \<and>
    set out' = {(fst (starts ! w), n, snd (starts ! w)) | w n. w < length starts \<and> n \<in> set (V' ! w)} \<and> distinct out'"
  using assms
proof (induction es arbitrary: V out nx)
  case (Cons e es)
  obtain w n where e: "e = (w, n)" by force
  have w: "w < length starts" using Cons.prems(2) e by auto
  show ?case
  proof (cases "n \<in> set (V ! w)")
    case True
    then have "fold (visit starts) es (V, out, nx) = (V', out', nx')"
      using Cons.prems(5) by (simp add: e visit_seen)
    from Cons.IH[OF Cons.prems(1) _ Cons.prems(3,4) this] Cons.prems(2) show ?thesis
      using True by (auto simp: e)
  next
    case False
    let ?V = "V[w := n # V ! w]" and ?row = "(fst (starts ! w), n, snd (starts ! w))"
    have f: "fold (visit starts) es (?V, out @ [?row], nx @ [(w, n)]) = (V', out', nx')"
      using Cons.prems(5) False by (simp add: e visit_new)
    have nth: "?V ! u = (if u = w then n # V ! w else V ! u)" for u
      using w Cons.prems(1) by (simp add: nth_list_update)
    have out: "set (out @ [?row]) =
        {(fst (starts ! w), n, snd (starts ! w)) | w n. w < length starts \<and> n \<in> set (?V ! w)}"
      unfolding nth using Cons.prems(3) w by (auto split: if_splits)
    have "?row \<notin> set out"
    proof
      assume "?row \<in> set out"
      then obtain u where "u < length starts" "starts ! u = starts ! w" "n \<in> set (V ! u)"
        using Cons.prems(3) by (auto simp: prod_eq_iff)
      then show False using False w distinct_starts nth_eq_iff_index_eq by blast
    qed
    then have d: "distinct (out @ [?row])" using Cons.prems(4) by simp
    have l: "length ?V = length starts" "\<forall>(w, n) \<in> set es. w < length starts"
      using Cons.prems(1,2) by auto
    show ?thesis using Cons.IH[OF l out d f] False w by (auto simp: e nth split: if_splits)
  qed
qed auto

lemma level_step:
  assumes "level_inv d fr V out" "fold (visit starts) (ex fr) (V, out, []) = (V', out', nx)"
  shows "level_inv (Suc d) nx V' out'"
proof -
  have es: "set (ex fr) = {(w, m). w < length starts \<and> m \<in> rel w `` front d w}"
    using assms(1) unfolding ex_set level_inv_def by auto
  then have bound: "\<forall>(w, n) \<in> set (ex fr). w < length starts" by auto
  note v = visit_all[OF _ bound _ _ assms(2)]
  have V: "\<forall>w < length starts. set (V ! w) = within (rel w) (fst (starts ! w)) d"
    using assms(1) by (simp add: level_inv_def)
  have V': "length V' = length starts"
    "\<forall>w < length starts. set (V' ! w) = set (V ! w) \<union> {n. (w, n) \<in> set (ex fr)}"
    "set nx = {(w, n) \<in> set (ex fr). n \<notin> set (V ! w)}"
    "set out' = {(fst (starts ! w), n, snd (starts ! w)) | w n. w < length starts \<and> n \<in> set (V' ! w)}"
    "distinct out'"
    using v assms(1) by (simp_all add: level_inv_def)
  have W: "\<forall>w < length starts. set (V' ! w) = within (rel w) (fst (starts ! w)) (Suc d)"
    using V V'(2) es next_within by simp
  have "set nx = {(w, n). w < length starts \<and> n \<in> front (Suc d) w}"
    unfolding V'(3) es using V next_within by (auto simp: front_def)
  then show ?thesis using V' W unfolding level_inv_def by blast
qed

text \<open>When the level loop returns, the invariant holds at the depth reached, which is the cap
  unless the frontier ran dry before.\<close>

lemma walk_levels_inv:
  assumes "walk_levels k ex starts pairs fr V out = Inr (fr', V', out')" "level_inv d fr V out"
  shows "\<exists>e. level_inv e fr' V' out' \<and> e \<le> d + k \<and> (fr' = [] \<or> e = d + k)"
  using assms
proof (induction k arbitrary: d fr V out)
  case (Suc k)
  show ?case
  proof (cases "fr = []")
    case False
    obtain V1 out1 nx where f: "fold (visit starts) (ex fr) (V, out, []) = (V1, out1, nx)"
      by (metis prod_cases3)
    then have "walk_levels k ex starts pairs nx V1 out1 = Inr (fr', V', out')"
      using Suc.prems(1) False by (auto split: if_splits)
    then show ?thesis using Suc.IH[OF _ level_step[OF Suc.prems(2) f]] by auto
  qed (use Suc.prems in auto)
qed auto

lemma level_inv_init:
  "level_inv 0 (map (\<lambda>(w, s). (w, fst s)) (enumerate 0 starts)) (replicate (length starts) []) []"
  by (auto simp: level_inv_def front_def in_set_enumerate_eq image_iff)

text \<open>A dry frontier means that nothing more is reachable.\<close>

lemma dry:
  assumes "level_inv d [] V out" "w < length starts"
  shows "(rel w)\<^sup>+ `` {fst (starts ! w)} = within (rel w) (fst (starts ! w)) d"
proof (rule within_stable)
  have "front d w = {}" using assms by (auto simp: level_inv_def)
  then show "within (rel w) (fst (starts ! w)) (Suc d) \<subseteq> within (rel w) (fst (starts ! w)) d"
    using next_within[of w d] by simp
qed

text \<open>At the cap: the extra expansion finds a new node exactly when something stays unreached.\<close>

lemma capped:
  assumes "level_inv d fr V out"
  shows "list_ex (\<lambda>(w, n). n \<notin> set (V ! w)) (ex fr) \<longleftrightarrow>
    (\<exists>w < length starts. \<not> (rel w)\<^sup>+ `` {fst (starts ! w)} \<subseteq> within (rel w) (fst (starts ! w)) d)"
proof -
  have V: "set (V ! w) = within (rel w) (fst (starts ! w)) d" if "w < length starts" for w
    using assms that by (simp add: level_inv_def)
  have E: "set (ex fr) = {(w, m). w < length starts \<and> m \<in> rel w `` front d w}"
    using assms unfolding ex_set level_inv_def by auto
  have "list_ex (\<lambda>(w, n). n \<notin> set (V ! w)) (ex fr) \<longleftrightarrow>
      (\<exists>w m. w < length starts \<and> m \<in> rel w `` front d w \<and> m \<notin> within (rel w) (fst (starts ! w)) d)"
    unfolding list_ex_iff E using V by (simp del: Image_iff) blast
  then have "list_ex (\<lambda>(w, n). n \<notin> set (V ! w)) (ex fr) \<longleftrightarrow>
      (\<exists>w < length starts. \<not> rel w `` front d w \<subseteq> within (rel w) (fst (starts ! w)) d)"
    by blast
  also have "\<dots> \<longleftrightarrow> (\<exists>w < length starts. \<not> within (rel w) (fst (starts ! w)) (Suc d) \<subseteq> within (rel w) (fst (starts ! w)) d)"
    unfolding next_within by blast
  also have "\<dots> \<longleftrightarrow> (\<exists>w < length starts. \<not> (rel w)\<^sup>+ `` {fst (starts ! w)} \<subseteq> within (rel w) (fst (starts ! w)) d)"
  proof -
    have "within (rel w) s (Suc d) \<subseteq> within (rel w) s d \<longleftrightarrow> (rel w)\<^sup>+ `` {s} \<subseteq> within (rel w) s d" for w s
      using within_stable[of "rel w" s d] within_trancl[of "rel w" s] by blast
    then show ?thesis by blast
  qed
  finally show ?thesis .
qed

text \<open>The rows of a depth.\<close>

definition rows_at :: "nat \<Rightarrow> walk_row set" where
  "rows_at d = {(fst (starts ! w), n, snd (starts ! w)) | w n.
     w < length starts \<and> n \<in> within (rel w) (fst (starts ! w)) d}"

lemma rows_at_level: "level_inv d fr V out \<Longrightarrow> set out = rows_at d \<and> length out = card (rows_at d)"
proof -
  assume l: "level_inv d fr V out"
  then have "set out = rows_at d" unfolding level_inv_def rows_at_def by (simp cong: conj_cong)
  then show ?thesis using l distinct_card[of out] by (simp add: level_inv_def)
qed

lemma rows_at_mono: "d \<le> e \<Longrightarrow> rows_at d \<subseteq> rows_at e"
  unfolding rows_at_def using within_mono[of d e] by (fastforce dest: subsetD)

lemma rows_at_finite: "finite (rows_at d)"
proof (rule finite_subset)
  have "n \<in> Range (rel w)" if "n \<in> within (rel w) s d" for n w s
    using that by (cases d) (auto simp: within_Suc)
  then show "rows_at d \<subseteq> (\<Union>w < length starts. (\<lambda>n. (fst (starts ! w), n, snd (starts ! w))) ` Range (rel w))"
    by (auto simp: rows_at_def)
qed (simp add: finite_rel finite_Range)

text \<open>The walk is refused exactly when the rows of some level are more than the budget.\<close>

lemma walk_levels_refused:
  assumes "level_inv d fr V out" "length out \<le> pairs"
  shows "(walk_levels k ex starts pairs fr V out = Inl Program_Limit_Exceeded \<longleftrightarrow> card (rows_at (d + k)) > pairs) \<and>
    (isl (walk_levels k ex starts pairs fr V out) \<longleftrightarrow> card (rows_at (d + k)) > pairs)"
  using assms
proof (induction k arbitrary: d fr V out)
  case 0
  then show ?case using rows_at_level by auto
next
  case (Suc k)
  show ?case
  proof (cases "fr = []")
    case True
    have "within (rel w) (fst (starts ! w)) (d + Suc k) \<subseteq> within (rel w) (fst (starts ! w)) d"
      if "w < length starts" for w
      using dry[of d V out w] within_trancl[of "rel w" "fst (starts ! w)"] Suc.prems(1) True that by auto
    then have "rows_at (d + Suc k) \<subseteq> rows_at d" unfolding rows_at_def by blast
    then have "rows_at (d + Suc k) = rows_at d" using rows_at_mono[of d "d + Suc k"] by auto
    then show ?thesis using True Suc.prems rows_at_level by auto
  next
    case False
    obtain V1 out1 nx where f: "fold (visit starts) (ex fr) (V, out, []) = (V1, out1, nx)"
      by (metis prod_cases3)
    note l = level_step[OF Suc.prems(1) f]
    show ?thesis
    proof (cases "length out1 > pairs")
      case True
      then have "card (rows_at (d + Suc k)) > pairs"
        using rows_at_level[OF l] card_mono[OF rows_at_finite rows_at_mono, of "Suc d" "d + Suc k"] by simp
      then show ?thesis using True False f by simp
    next
      case small: False
      then have "walk_levels (Suc k) ex starts pairs fr V out = walk_levels k ex starts pairs nx V1 out1"
        using False f by simp
      then show ?thesis using Suc.IH[OF l] small by simp
    qed
  qed
qed

end

section \<open>The walk of the code\<close>

definition walk_rel :: "quad list \<Rightarrow> int list \<Rightarrow> bool \<Rightarrow> int option \<Rightarrow> (int \<times> int) set" where
  "walk_rel qt preds bwd g =
     {e. \<exists>q \<in> set qt. qp q \<in> set preds \<and> in_graph g q \<and> edge_ends bwd q = e}"

lemma expand_set:
  "set (expand qt preds gr bwd per_graph starts fr) =
     {(w, m). \<exists>n. (w, n) \<in> set fr \<and> (n, m) \<in> walk_rel qt preds bwd (walk_graph gr per_graph (snd (starts ! w)))}"
  by (auto simp: expand_def walk_rel_def prod_eq_iff) (metis fst_conv prod.collapse snd_conv)+

lemma walk_starts_distinct: "distinct (walk_starts qt preds gr seed bwd per_graph)"
  by (auto simp: walk_starts_def distinct_map inj_on_def split: option.splits)

lemma walk_rel_finite: "finite (walk_rel qt preds bwd g)"
  by (rule finite_subset[of _ "edge_ends bwd ` set qt"]) (auto simp: walk_rel_def intro: rev_image_eqI)

interpretation walk: expansion
    "expand qt preds gr bwd per_graph (walk_starts qt preds gr seed bwd per_graph)"
    "walk_starts qt preds gr seed bwd per_graph"
    "\<lambda>w. walk_rel qt preds bwd
       (walk_graph gr per_graph (snd (walk_starts qt preds gr seed bwd per_graph ! w)))"
  for qt preds gr seed bwd per_graph
  by unfold_locales (simp_all add: expand_set walk_starts_distinct walk_rel_finite)

text \<open>The rows within a depth, for all starts.\<close>

definition reach_rows ::
    "quad list \<Rightarrow> int list \<Rightarrow> int option \<Rightarrow> int option \<Rightarrow> bool \<Rightarrow> bool \<Rightarrow> nat \<Rightarrow> walk_row set" where
  "reach_rows qt preds gr seed bwd per_graph d =
     {(s, n, h). (s, h) \<in> set (walk_starts qt preds gr seed bwd per_graph) \<and>
        n \<in> within (walk_rel qt preds bwd (walk_graph gr per_graph h)) s d}"

definition all_rows ::
    "quad list \<Rightarrow> int list \<Rightarrow> int option \<Rightarrow> int option \<Rightarrow> bool \<Rightarrow> bool \<Rightarrow> walk_row set" where
  "all_rows qt preds gr seed bwd per_graph =
     {(s, n, h). (s, h) \<in> set (walk_starts qt preds gr seed bwd per_graph) \<and>
        (s, n) \<in> (walk_rel qt preds bwd (walk_graph gr per_graph h))\<^sup>+}"

lemma rows_at_reach: "walk.rows_at qt preds gr seed bwd per_graph d = reach_rows qt preds gr seed bwd per_graph d"
  unfolding walk.rows_at_def reach_rows_def by (force simp: in_set_conv_nth)

lemma all_rows_union: "all_rows qt preds gr seed bwd per_graph = (\<Union>d. reach_rows qt preds gr seed bwd per_graph d)"
  by (auto simp: all_rows_def reach_rows_def trancl_within)

lemma path_walk_result:
  assumes "path_walk qt max_pairs preds gr seed bwd max_depth pid per_graph tr = Inr (out, tr')"
  shows "distinct out \<and> set out = reach_rows qt preds gr seed bwd per_graph (nat max_depth) \<and>
    tr' = (if reach_rows qt preds gr seed bwd per_graph (nat max_depth) \<subset> all_rows qt preds gr seed bwd per_graph
           then List.insert pid tr else tr)"
proof -
  let ?st = "walk_starts qt preds gr seed bwd per_graph"
  let ?ex = "expand qt preds gr bwd per_graph ?st"
  let ?R = "\<lambda>w. walk_rel qt preds bwd (walk_graph gr per_graph (snd (?st ! w)))"
  let ?rows = "reach_rows qt preds gr seed bwd per_graph" and ?all = "all_rows qt preds gr seed bwd per_graph"
  obtain fr V where w: "walk_levels (nat max_depth) ?ex ?st (nat (max max_pairs 1))
      (map (\<lambda>(w, s). (w, fst s)) (enumerate 0 ?st)) (replicate (length ?st) []) [] = Inr (fr, V, out)"
    and tr: "tr' = (if fr \<noteq> [] \<and> list_ex (\<lambda>(w, n). n \<notin> set (V ! w)) (?ex fr) then List.insert pid tr else tr)"
    using assms unfolding path_walk_def Let_def by auto
  obtain e where e: "walk.level_inv qt preds gr seed bwd per_graph e fr V out" "e \<le> nat max_depth"
    "fr = [] \<or> e = nat max_depth"
    using walk.walk_levels_inv[OF w walk.level_inv_init] by auto
  note rows = walk.rows_at_level[OF e(1), unfolded rows_at_reach]
  have sub: "?rows d \<subseteq> ?all" for d unfolding all_rows_union by blast
  have dry: "?rows e = ?all" if "fr = []"
  proof -
    have "(s, n) \<in> (?R w)\<^sup>+ \<longleftrightarrow> n \<in> within (?R w) s e" if "w < length ?st" "?st ! w = (s, h)" for w s h n
      using walk.dry[of qt preds gr seed bwd per_graph e V out w] e(1) that \<open>fr = []\<close> by auto
    then show ?thesis unfolding reach_rows_def all_rows_def by (force simp: in_set_conv_nth)
  qed
  have set: "set out = ?rows (nat max_depth)"
  proof (cases "fr = []")
    case True
    have "?rows e \<subseteq> ?rows (nat max_depth)"
      using walk.rows_at_mono[OF e(2)] unfolding rows_at_reach .
    then show ?thesis using rows dry[OF True] sub by blast
  qed (use rows e(3) in auto)
  have "(fr \<noteq> [] \<and> list_ex (\<lambda>(w, n). n \<notin> set (V ! w)) (?ex fr)) \<longleftrightarrow> ?rows (nat max_depth) \<subset> ?all"
  proof (cases "fr = []")
    case True
    then show ?thesis using dry set rows by auto
  next
    case False
    then have d: "e = nat max_depth" using e(3) by simp
    have "list_ex (\<lambda>(w, n). n \<notin> set (V ! w)) (?ex fr) \<longleftrightarrow> \<not> ?all \<subseteq> ?rows e"
      unfolding walk.capped[OF e(1)] reach_rows_def all_rows_def
      by (force simp: in_set_conv_nth subset_iff)
    then show ?thesis using False sub d by blast
  qed
  then show ?thesis using tr set e(1) by (auto simp: walk.level_inv_def)
qed

text \<open>C2: a walk that is not refused returns each pair once, and returns exactly the pairs whose
  distance (at least one edge, inside the graph of the walk) is at most the depth cap; it records
  the truncation of its path exactly when some pair is reachable only beyond the cap.\<close>

theorem path_walk_exact:
  assumes "path_walk qt max_pairs preds gr seed bwd max_depth pid per_graph tr = Inr (out, tr')"
  shows "distinct out \<and>
    set out = reach_rows qt preds gr seed bwd per_graph (nat max_depth) \<and>
    (was_truncated pid tr' \<longleftrightarrow> was_truncated pid tr \<or>
       reach_rows qt preds gr seed bwd per_graph (nat max_depth) \<noteq> all_rows qt preds gr seed bwd per_graph)"
  using path_walk_result[OF assms] by (auto simp: was_truncated_def all_rows_union)

text \<open>The walk is refused, with the program-limit class and no other, exactly when the pairs
  within the depth cap outnumber \<open>pgrdf.path_max_pairs\<close>; otherwise it returns.\<close>

theorem path_walk_refusal:
  "path_walk qt max_pairs preds gr seed bwd max_depth pid per_graph tr =
      Inl Program_Limit_Exceeded \<longleftrightarrow>
    max max_pairs 1 < int (card (reach_rows qt preds gr seed bwd per_graph (nat max_depth)))"
proof -
  let ?st = "walk_starts qt preds gr seed bwd per_graph"
  let ?w = "walk_levels (nat max_depth) (expand qt preds gr bwd per_graph ?st) ?st (nat (max max_pairs 1))
      (map (\<lambda>(w, s). (w, fst s)) (enumerate 0 ?st)) (replicate (length ?st) []) []"
  have "(?w = Inl Program_Limit_Exceeded \<longleftrightarrow>
      nat (max max_pairs 1) < card (walk.rows_at qt preds gr seed bwd per_graph (0 + nat max_depth))) \<and>
    (isl ?w \<longleftrightarrow> nat (max max_pairs 1) < card (walk.rows_at qt preds gr seed bwd per_graph (0 + nat max_depth)))"
    by (rule walk.walk_levels_refused[OF walk.level_inv_init]) simp
  then have "?w = Inl Program_Limit_Exceeded \<longleftrightarrow>
      nat (max max_pairs 1) < card (reach_rows qt preds gr seed bwd per_graph (nat max_depth))"
    by (simp add: rows_at_reach)
  moreover have "path_walk qt max_pairs preds gr seed bwd max_depth pid per_graph tr =
      Inl Program_Limit_Exceeded \<longleftrightarrow> ?w = Inl Program_Limit_Exceeded"
    unfolding path_walk_def Let_def by (cases ?w) auto
  moreover have "nat (max max_pairs 1) < n \<longleftrightarrow> max max_pairs 1 < int n" for n by linarith
  ultimately show ?thesis by simp
qed

text \<open>C11: cycles never reach the depth cap: once the cap is at least the number of distinct nodes
  that edges lead to, a walk that is not refused returns the whole transitive closure and records
  no truncation.\<close>

theorem path_walk_complete:
  assumes "path_walk qt max_pairs preds gr seed bwd max_depth pid per_graph tr = Inr (out, tr')"
    and "card ((\<lambda>q. snd (edge_ends bwd q)) ` set qt) \<le> nat max_depth"
  shows "set out = all_rows qt preds gr seed bwd per_graph \<and> tr' = tr"
proof -
  have "(s, n) \<in> (walk_rel qt preds bwd g)\<^sup>+ \<longleftrightarrow> n \<in> within (walk_rel qt preds bwd g) s (nat max_depth)" for s n g
  proof -
    have "Range (walk_rel qt preds bwd g) \<subseteq> (\<lambda>q. snd (edge_ends bwd q)) ` set qt"
      by (force simp: walk_rel_def)
    then have "card (Range (walk_rel qt preds bwd g)) \<le> nat max_depth"
      using assms(2) card_mono[OF finite_imageI[OF finite_set]] by (metis le_trans)
    then have "(walk_rel qt preds bwd g)\<^sup>+ `` {s} = within (walk_rel qt preds bwd g) s (nat max_depth)"
      by (intro within_card) (simp_all add: walk_rel_finite finite_Range)
    then show ?thesis by blast
  qed
  then have "reach_rows qt preds gr seed bwd per_graph (nat max_depth) = all_rows qt preds gr seed bwd per_graph"
    by (auto simp: reach_rows_def all_rows_def)
  note eq = this
  show ?thesis using path_walk_result[OF assms(1)] unfolding eq by simp
qed

section \<open>A concrete graph\<close>

text \<open>A cycle of three nodes with a tail.\<close>

definition loop_quads :: "quad list" where
  "loop_quads = map (\<lambda>(s, k). \<lparr>qs = s, qp = 9, qo = k, qg = 5, qinf = False\<rparr>) [(1, 2), (2, 3), (3, 1), (3, 4)]"

definition loop_walk :: "int \<Rightarrow> walk_row list \<times> int list" where
  "loop_walk depth = projr (path_walk loop_quads 100 [9] None (Some 1) False depth 7 False [])"

lemma loop_walk_ok:
  "path_walk loop_quads 100 [9] None (Some 1) False 2 7 False [] = Inr (fst (loop_walk 2), snd (loop_walk 2))"
  "path_walk loop_quads 100 [9] None (Some 1) False 4 7 False [] = Inr (fst (loop_walk 4), snd (loop_walk 4))"
  by code_simp+

theorem path_walk_exact_witness:
  "set (fst (loop_walk 2)) = reach_rows loop_quads [9] None (Some 1) False False 2 \<and> was_truncated 7 (snd (loop_walk 2))"
proof -
  have "was_truncated 7 (snd (loop_walk 2))" by code_simp
  then show ?thesis using path_walk_exact[OF loop_walk_ok(1)] by simp
qed

theorem path_walk_complete_witness:
  "all_rows loop_quads [9] None (Some 1) False False = {(1, 2, None), (1, 3, None), (1, 1, None), (1, 4, None)}"
proof -
  have "card ((\<lambda>q. snd (edge_ends False q)) ` set loop_quads) \<le> nat 4"
    by (simp add: loop_quads_def edge_ends_def)
  moreover have "set (fst (loop_walk 4)) = {(1, 2, None), (1, 3, None), (1, 1, None), (1, 4, None)}" by code_simp
  ultimately show ?thesis using path_walk_complete[OF loop_walk_ok(2)] by simp
qed

end
