(* ===== verification/Path_Relation.thy ===== *)
theory Path_Relation
  imports Property_Path Path_Walk
begin

text \<open>
  From the plan of a path to the relation the query joins: the second half of
  \<open>src/query/path.rs\<close> (WalkSpec and the four relation builders) and \<open>scoped_triple_from_path\<close>,
  \<open>path_from_fragment\<close> of \<open>src/query/executor.rs\<close>. A fragment of SQL is modelled by the query it
  denotes: a function of the quad table, of \<open>pgrdf.path_max_pairs\<close> and of the truncation set,
  which returns its rows \<open>(src, dst, gid)\<close> (\<open>gid\<close> only where the column is surfaced) or refuses.
  A placeholder is modelled by its value, so the numbering of the parameters is left out.
\<close>

section \<open>Relations\<close>

datatype path_graph_scope = All_Graphs | Literal_Graph int | Variable_Graph

text \<open>A seed carries the run-time value of its SQL expression, \<open>None\<close> for NULL.\<close>

datatype seed = Seed_Subject "int option" | Seed_Object "int option"

type_synonym path_row = "int \<times> int \<times> int option"
type_synonym query = "quad list \<Rightarrow> int \<Rightarrow> int list \<Rightarrow> (path_row list \<times> int list) res"

definition select_query :: "(quad list \<Rightarrow> path_row list) \<Rightarrow> query" where
  "select_query f = (\<lambda>qt _ tr. Inr (f qt, tr))"

definition sql_union :: "'a list \<Rightarrow> 'a list \<Rightarrow> 'a list" where
  "sql_union xs ys = remdups (xs @ ys)"

record walk_spec =
  ws_path_id :: int
  ws_preds :: "int list"
  ws_graph :: "int option"
  ws_variable :: bool
  ws_swapped :: bool
  ws_max_depth :: int
  ws_reflexive :: bool
  ws_zero_unseeded :: "quad list \<Rightarrow> path_row list"
  ws_const_seeded :: bool

record path_relation =
  pr_fragment :: query
  pr_gid :: bool                   \<comment> \<open>columns: is \<open>graph_id\<close> among them\<close>
  pr_walk :: "walk_spec option"

definition seedable :: "walk_spec \<Rightarrow> bool" where
  "seedable ws \<longleftrightarrow> \<not> ws_const_seeded ws \<and> \<not> ws_variable ws"

text \<open>The value of the seed expression, \<open>COALESCE(e, -1)\<close>.\<close>

fun seed_value :: "seed \<Rightarrow> int" where
  "seed_value (Seed_Subject e) = (case e of Some x \<Rightarrow> x | None \<Rightarrow> -1)"
| "seed_value (Seed_Object e) = (case e of Some x \<Rightarrow> x | None \<Rightarrow> -1)"

fun is_object_seed :: "seed \<Rightarrow> bool" where
  "is_object_seed (Seed_Subject _) \<longleftrightarrow> False"
| "is_object_seed (Seed_Object _) \<longleftrightarrow> True"

definition render :: "walk_spec \<Rightarrow> seed option \<Rightarrow> query" where
  "render ws seed =
     (let seeded = seed \<noteq> None \<and> \<not> ws_variable ws;
          sval = (case seed of Some s \<Rightarrow> seed_value s | None \<Rightarrow> -1);
          from_object = seeded \<and> (case seed of Some s \<Rightarrow> is_object_seed s | None \<Rightarrow> False);
          follow_inverse = (ws_swapped ws \<noteq> from_object) in
      (\<lambda>qt max_pairs tr.
         res_bind (path_walk qt max_pairs (ws_preds ws) (ws_graph ws) (if seeded then Some sval else None)
                     follow_inverse (ws_max_depth ws) (ws_path_id ws) (ws_variable ws) tr)
           (\<lambda>(rs, tr').
              let walked = map (\<lambda>(start, reached, gid).
                    ((if from_object then reached else start), (if from_object then start else reached),
                     (if ws_variable ws then gid else None))) rs in
              Inr (if \<not> ws_reflexive ws then walked
                   else sql_union walked (if seeded then [(sval, sval, None)] else ws_zero_unseeded ws qt),
                   tr'))))"

definition zero_length_node_set :: "path_graph_scope \<Rightarrow> int list \<Rightarrow> quad list \<Rightarrow> path_row list" where
  "zero_length_node_set scope bound qt =
     (case scope of
        All_Graphs \<Rightarrow>
          remdups (map (\<lambda>q. (qs q, qs q, None)) qt @ map (\<lambda>q. (qo q, qo q, None)) qt @
                   map (\<lambda>x. (x, x, None)) bound)
      | Literal_Graph g \<Rightarrow>
          (let qg' = filter (\<lambda>q. qg q = g) qt in
           remdups (map (\<lambda>q. (qs q, qs q, None)) qg' @ map (\<lambda>q. (qo q, qo q, None)) qg' @
                    map (\<lambda>x. (x, x, None)) bound))
      | Variable_Graph \<Rightarrow>
          (let qn = filter (\<lambda>q. qg q \<noteq> 0) qt in
           remdups (map (\<lambda>q. (qs q, qs q, Some (qg q))) qn @ map (\<lambda>q. (qo q, qo q, Some (qg q))) qn)))"

definition walk_relation ::
    "int list \<Rightarrow> int option \<Rightarrow> path_graph_scope \<Rightarrow> bool \<Rightarrow> int \<Rightarrow> int \<Rightarrow> seed option \<Rightarrow> bool \<Rightarrow> path_relation" where
  "walk_relation preds graph scope swapped max_depth path_id const_seed reflexive =
     (let variable_scope = (scope = Variable_Graph);
          ws = \<lparr>ws_path_id = path_id, ws_preds = preds,
                ws_graph = (case scope of Literal_Graph _ \<Rightarrow> graph | _ \<Rightarrow> None),
                ws_variable = variable_scope, ws_swapped = swapped, ws_max_depth = max_depth,
                ws_reflexive = reflexive,
                ws_zero_unseeded = (if reflexive then zero_length_node_set scope [] else (\<lambda>_. [])),
                ws_const_seeded = (const_seed \<noteq> None \<and> \<not> variable_scope)\<rparr>
      in \<lparr>pr_fragment = render ws const_seed, pr_gid = variable_scope, pr_walk = Some ws\<rparr>)"

definition build_one_or_more ::
    "int list \<Rightarrow> int option \<Rightarrow> path_graph_scope \<Rightarrow> bool \<Rightarrow> int \<Rightarrow> int \<Rightarrow> seed option \<Rightarrow> path_relation" where
  "build_one_or_more preds graph scope swapped max_depth path_id const_seed =
     walk_relation preds graph scope swapped max_depth path_id const_seed False"

definition build_zero_or_more ::
    "int list \<Rightarrow> int option \<Rightarrow> path_graph_scope \<Rightarrow> bool \<Rightarrow> int \<Rightarrow> int \<Rightarrow> seed option \<Rightarrow> path_relation" where
  "build_zero_or_more preds graph scope swapped max_depth path_id const_seed =
     walk_relation preds graph scope swapped max_depth path_id const_seed True"

text \<open>The direct edges of a scope.\<close>

definition direct_rows :: "int list \<Rightarrow> int option \<Rightarrow> path_graph_scope \<Rightarrow> bool \<Rightarrow> quad list \<Rightarrow> path_row list" where
  "direct_rows preds graph scope swapped qt =
     map (\<lambda>q. (fst (edge_ends swapped q), snd (edge_ends swapped q),
               (if scope = Variable_Graph then Some (qg q) else None)))
       (filter (\<lambda>q. qp q \<in> set preds \<and>
          (case scope of All_Graphs \<Rightarrow> True
           | Literal_Graph _ \<Rightarrow> (case graph of Some g \<Rightarrow> qg q = g | None \<Rightarrow> False)
           | Variable_Graph \<Rightarrow> qg q \<noteq> 0)) qt)"

definition build_zero_or_one ::
    "int list \<Rightarrow> int option \<Rightarrow> path_graph_scope \<Rightarrow> bool \<Rightarrow> int list \<Rightarrow> path_relation" where
  "build_zero_or_one preds graph scope swapped bound =
     \<lparr>pr_fragment = select_query (\<lambda>qt. sql_union (direct_rows preds graph scope swapped qt)
                                          (zero_length_node_set scope bound qt)),
      pr_gid = (scope = Variable_Graph), pr_walk = None\<rparr>"

definition build_alternation :: "int list \<Rightarrow> int option \<Rightarrow> path_graph_scope \<Rightarrow> bool \<Rightarrow> path_relation" where
  "build_alternation preds graph scope swapped =
     \<lparr>pr_fragment = select_query (\<lambda>qt. remdups (direct_rows preds graph scope swapped qt)),
      pr_gid = (scope = Variable_Graph), pr_walk = None\<rparr>"

section \<open>The lowering of a path pattern\<close>

datatype term_pattern = TP_Named string | TP_Blank string | TP_Literal string | TP_Variable string

text \<open>\<open>GraphScope\<close> of the pattern.\<close>

datatype graph_scope = GS_Literal int | GS_Variable string nat

fun path_scope :: "graph_scope option \<Rightarrow> path_graph_scope" where
  "path_scope None = All_Graphs"
| "path_scope (Some (GS_Literal g)) = Literal_Graph g"
| "path_scope (Some (GS_Variable _ _)) = Variable_Graph"

definition lookup_iri_id :: "nat \<Rightarrow> string \<Rightarrow> world \<Rightarrow> int option" where
  "lookup_iri_id b iri w =
     map_option row_id (find (\<lambda>r. fst (row_key r) = 1 \<and> fst (snd (row_key r)) = iri) (visible w b))"

definition pred_id :: "nat \<Rightarrow> world \<Rightarrow> string \<Rightarrow> int" where
  "pred_id b w iri = (case lookup_iri_id b iri w of Some i \<Rightarrow> i | None \<Rightarrow> -1)"

definition intern_named_node :: "hasher \<Rightarrow> nat \<Rightarrow> string \<Rightarrow> world \<Rightarrow> int \<times> world" where
  "intern_named_node hasher b iri w = put_term_full hasher b (1, iri, None, None) w"

definition is_well_known_transitive :: "string \<Rightarrow> bool" where
  "is_well_known_transitive iri \<longleftrightarrow>
     iri \<in> {''http://www.w3.org/2000/01/rdf-schema#subClassOf'',
            ''http://www.w3.org/2000/01/rdf-schema#subPropertyOf'',
            ''http://www.w3.org/2002/07/owl#sameAs''}"

definition inferred_closure_present :: "int \<Rightarrow> graph_scope option \<Rightarrow> quad list \<Rightarrow> bool" where
  "inferred_closure_present pred scope qt \<longleftrightarrow>
     \<not> pred < 0 \<and>
     list_ex (\<lambda>q. qp q = pred \<and> qinf q \<and>
       (case scope of None \<Rightarrow> True | Some (GS_Literal g) \<Rightarrow> qg q = g | Some (GS_Variable _ _) \<Rightarrow> qg q \<noteq> 0)) qt"

fun plan_predicates :: "'t path_plan \<Rightarrow> string list \<times> bool" where
  "plan_predicates (Triple_Plan s p k) = ([p], False)"
| "plan_predicates (One_Or_More_Plan ps sw) = (ps, sw)"
| "plan_predicates (Zero_Or_More_Plan ps sw) = (ps, sw)"
| "plan_predicates (Zero_Or_One_Plan ps sw) = (ps, sw)"
| "plan_predicates (Alternation_Plan ps sw) = (ps, sw)"

text \<open>\<open>resolve_endpoint\<close> on a term pattern: only IRIs have an id; a reflexive operator interns.\<close>

fun resolve_endpoint :: "hasher \<Rightarrow> nat \<Rightarrow> bool \<Rightarrow> term_pattern \<Rightarrow> world \<Rightarrow> int option \<times> world" where
  "resolve_endpoint hasher b reflexive (TP_Named iri) w =
     (if reflexive then (let (i, w') = intern_named_node hasher b iri w in (Some i, w'))
      else (Some (pred_id b w iri), w))"
| "resolve_endpoint hasher b reflexive _ w = (None, w)"

text \<open>\<open>bound_self_pairs\<close>: the subject, then the object.\<close>

definition bound_self_pairs ::
    "hasher \<Rightarrow> nat \<Rightarrow> path_graph_scope \<Rightarrow> bool \<Rightarrow> term_pattern \<Rightarrow> term_pattern \<Rightarrow> world \<Rightarrow> int list \<times> world" where
  "bound_self_pairs hasher b scope reflexive subject object w =
     (if reflexive \<and> scope \<noteq> Variable_Graph
      then (let (s, w1) = resolve_endpoint hasher b reflexive subject w;
                (k, w2) = resolve_endpoint hasher b reflexive object w1
            in ((case s of Some i \<Rightarrow> [i] | None \<Rightarrow> []) @ (case k of Some i \<Rightarrow> [i] | None \<Rightarrow> []), w2))
      else ([], w))"

text \<open>The constant seed of a closure: the subject if it is an IRI, else the object.\<close>

definition const_seed ::
    "hasher \<Rightarrow> nat \<Rightarrow> bool \<Rightarrow> term_pattern \<Rightarrow> term_pattern \<Rightarrow> world \<Rightarrow> seed option \<times> world" where
  "const_seed hasher b reflexive subject object w =
     (case resolve_endpoint hasher b reflexive subject w of
        (Some i, w') \<Rightarrow> (Some (Seed_Subject (Some i)), w')
      | (None, _) \<Rightarrow>
          (case resolve_endpoint hasher b reflexive object w of
             (Some i, w') \<Rightarrow> (Some (Seed_Object (Some i)), w')
           | (None, _) \<Rightarrow> (None, w)))"

datatype scoped_triple =
    Plain_Triple term_pattern string term_pattern "graph_scope option"
  | Path_Triple term_pattern string term_pattern "graph_scope option" path_relation

text \<open>
  The lowering. \<open>next_path\<close> is the statement's path counter; the result carries it on, with the
  dictionary after the interning of constant ends.
\<close>

definition closure_materialised :: "nat \<Rightarrow> graph_scope option \<Rightarrow> quad list \<Rightarrow> string list \<Rightarrow> world \<Rightarrow> bool" where
  "closure_materialised b scope qt predicates w \<longleftrightarrow>
     length predicates = 1 \<and> is_well_known_transitive (hd predicates) \<and>
     inferred_closure_present (pred_id b w (hd predicates)) scope qt"

definition path_relation_of ::
    "hasher \<Rightarrow> nat \<Rightarrow> int \<Rightarrow> term_pattern \<Rightarrow> term_pattern \<Rightarrow> graph_scope option \<Rightarrow> quad list
      \<Rightarrow> term_pattern path_plan \<Rightarrow> world \<Rightarrow> int \<Rightarrow> path_relation \<times> world \<times> int" where
  "path_relation_of hasher b max_depth subject object scope qt plan w next_path =
     (let (predicates, swapped) = plan_predicates plan;
          ids = map (pred_id b w) predicates;
          ps = path_scope scope;
          graph = (case ps of Literal_Graph g \<Rightarrow> Some g | _ \<Rightarrow> None);
          materialised = closure_materialised b scope qt predicates w
      in case plan of
           One_Or_More_Plan _ _ \<Rightarrow>
             (let (sd, w1) = const_seed hasher b False subject object w in
              if materialised then (build_alternation ids graph ps swapped, w1, next_path)
              else (build_one_or_more ids graph ps swapped max_depth next_path sd, w1, next_path + 1))
         | Zero_Or_More_Plan _ _ \<Rightarrow>
             (let (sd, w1) = const_seed hasher b True subject object w in
              if materialised
              then (let (bound, w2) = bound_self_pairs hasher b ps True subject object w1 in
                    (build_zero_or_one ids graph ps swapped bound, w2, next_path))
              else (build_zero_or_more ids graph ps swapped max_depth next_path sd, w1, next_path + 1))
         | Zero_Or_One_Plan _ _ \<Rightarrow>
             (let (bound, w1) = bound_self_pairs hasher b ps True subject object w in
              (build_zero_or_one ids graph ps swapped bound, w1, next_path))
         | _ \<Rightarrow> (build_alternation ids graph ps swapped, w, next_path))"

definition scoped_triple_from_path ::
    "hasher \<Rightarrow> nat \<Rightarrow> int \<Rightarrow> term_pattern \<Rightarrow> path_expr \<Rightarrow> term_pattern \<Rightarrow> graph_scope option \<Rightarrow> quad list
      \<Rightarrow> world \<Rightarrow> int \<Rightarrow> (scoped_triple \<times> world \<times> int) res" where
  "scoped_triple_from_path hasher b max_depth subject path object scope qt w next_path =
     (case classify_path subject path object of
        Inl _ \<Rightarrow> Inl Feature_Not_Supported
      | Inr (Triple_Plan s p k) \<Rightarrow> Inr (Plain_Triple s p k scope, w, next_path)
      | Inr plan \<Rightarrow>
          (let (rel, w', next') = path_relation_of hasher b max_depth subject object scope qt plan w next_path
           in Inr (Path_Triple subject (hd (fst (plan_predicates plan))) object scope rel, w', next')))"

text \<open>
  \<open>path_from_fragment\<close>: a walk that no constant seeds is seeded from an end an earlier pattern
  bound. \<open>anchors v\<close> is the value of the anchor column of the row being joined, the inner
  \<open>None\<close> being NULL.
\<close>

fun anchor_of :: "(string \<Rightarrow> int option option) \<Rightarrow> term_pattern \<Rightarrow> int option option" where
  "anchor_of anchors (TP_Variable v) = anchors v"
| "anchor_of anchors _ = None"

definition path_from_fragment ::
    "path_relation \<Rightarrow> term_pattern \<Rightarrow> term_pattern \<Rightarrow> (string \<Rightarrow> int option option) \<Rightarrow> query" where
  "path_from_fragment rel subject object anchors =
     (case pr_walk rel of
        None \<Rightarrow> pr_fragment rel
      | Some ws \<Rightarrow>
          if \<not> seedable ws then pr_fragment rel
          else
            (case anchor_of anchors subject of
               Some x \<Rightarrow> render ws (Some (Seed_Subject x))
             | None \<Rightarrow>
                 (case anchor_of anchors object of
                    Some x \<Rightarrow> render ws (Some (Seed_Object x))
                  | None \<Rightarrow> pr_fragment rel)))"

section \<open>Rows of a walk\<close>

text \<open>The edges of a set of predicate ids in the scope of a graph, and the nodes of that scope.\<close>

definition id_edges :: "quad list \<Rightarrow> int option \<Rightarrow> int list \<Rightarrow> (int \<times> int) set" where
  "id_edges qt g ids = {(qs q, qo q) | q. q \<in> set qt \<and> qp q \<in> set ids \<and> in_graph g q}"

definition scope_nodes :: "quad list \<Rightarrow> int option \<Rightarrow> int set" where
  "scope_nodes qt g = (\<Union>q \<in> {q \<in> set qt. in_graph g q}. {qs q, qo q})"

lemma walk_rel_edges: "walk_rel qt ids sw g = turn sw (id_edges qt g ids)"
  by (auto simp: walk_rel_def id_edges_def edge_ends_def turn_def)

lemma relpow_inverse:
  fixes R :: "('n \<times> 'n) set"
  shows "(x, y) \<in> (R\<inverse>) ^^ n \<longleftrightarrow> (y, x) \<in> R ^^ n"
proof (induction n arbitrary: x y)
  case (Suc n)
  have "(x, y) \<in> (R\<inverse>) ^^ Suc n \<longleftrightarrow> (\<exists>z. (y, z) \<in> R \<and> (z, x) \<in> R ^^ n)" using Suc by auto
  also have "\<dots> \<longleftrightarrow> (y, x) \<in> R ^^ Suc n" using relpow_Suc_D2 relpow_Suc_I2 by metis
  finally show ?case .
qed auto

lemma within_converse: "n \<in> within (R\<inverse>) s d \<longleftrightarrow> s \<in> within R n d"
  by (auto simp: within_def relpow_inverse)

lemma within_turn: "n \<in> within (turn (\<not> sw) R) s d \<longleftrightarrow> s \<in> within (turn sw R) n d"
  by (cases sw) (auto simp: within_converse)

lemma within_start: "n \<in> within R s d \<Longrightarrow> s \<in> Domain R"
proof -
  assume "n \<in> within R s d"
  then obtain i where "1 \<le> i" "(s, n) \<in> R ^^ i" by (auto simp: within_def)
  then show ?thesis using relpow_Suc_D2[of s n "i - 1" R] by auto
qed

lemma start_is_domain:
  "(s, h) \<in> set (walk_starts qt ids g seed sw False) \<longleftrightarrow>
     h = g \<and> (case seed of None \<Rightarrow> s \<in> Domain (turn sw (id_edges qt g ids)) | Some v \<Rightarrow> s = v)"
  unfolding walk_rel_edges[symmetric]
  by (auto simp: walk_starts_def walk_rel_def image_iff Domain_iff split: option.splits)
    (metis fst_conv prod.collapse)+

definition starts_at :: "int option \<Rightarrow> int \<Rightarrow> bool" where
  "starts_at seed s \<longleftrightarrow> (case seed of None \<Rightarrow> True | Some v \<Rightarrow> s = v)"

text \<open>What \<open>_path_walk\<close> returns, as pairs, when the scope is not a graph variable.\<close>

lemma walk_pairs:
  assumes "path_walk qt mp ids g seed sw depth pid False tr = Inr (rs, tr')"
  shows "(\<exists>h. (s, n, h) \<in> set rs) \<longleftrightarrow> starts_at seed s \<and> n \<in> within (turn sw (id_edges qt g ids)) s (nat depth)"
    and "pid \<notin> set tr' \<Longrightarrow> starts_at seed s \<Longrightarrow>
      n \<in> within (turn sw (id_edges qt g ids)) s (nat depth) \<longleftrightarrow> (s, n) \<in> (turn sw (id_edges qt g ids))\<^sup>+"
proof -
  let ?R = "turn sw (id_edges qt g ids)"
  note r = path_walk_result[OF assms]
  have reach: "(s, n, h) \<in> reach_rows qt ids g seed sw False d \<longleftrightarrow> h = g \<and> starts_at seed s \<and> n \<in> within ?R s d" for s n h d
    using within_start[of n ?R s d]
    by (auto simp: reach_rows_def start_is_domain starts_at_def walk_graph_def walk_rel_edges split: option.splits)
  have all: "(s, n, h) \<in> all_rows qt ids g seed sw False \<longleftrightarrow> h = g \<and> starts_at seed s \<and> (s, n) \<in> ?R\<^sup>+" for s n h
    unfolding all_rows_union trancl_within by (auto simp: reach)
  show "(\<exists>h. (s, n, h) \<in> set rs) \<longleftrightarrow> starts_at seed s \<and> n \<in> within ?R s (nat depth)"
    using r by (auto simp: reach)
  assume "pid \<notin> set tr'" "starts_at seed s"
  moreover from this(1) r have "reach_rows qt ids g seed sw False (nat depth) = all_rows qt ids g seed sw False"
    by (auto simp: all_rows_union split: if_splits)
  ultimately show "n \<in> within ?R s (nat depth) \<longleftrightarrow> (s, n) \<in> ?R\<^sup>+"
    using reach[of s n g "nat depth"] all[of s n g] by simp
qed

text \<open>The pairs a rendered walk relates, seeded or not.\<close>

definition spec_plus :: "walk_spec \<Rightarrow> quad list \<Rightarrow> int \<Rightarrow> int \<Rightarrow> bool" where
  "spec_plus ws qt x y \<longleftrightarrow>
     y \<in> within (turn (ws_swapped ws) (id_edges qt (ws_graph ws) (ws_preds ws))) x (nat (ws_max_depth ws))"

fun seed_allows :: "seed option \<Rightarrow> int \<Rightarrow> int \<Rightarrow> bool" where
  "seed_allows None x y \<longleftrightarrow> True"
| "seed_allows (Some (Seed_Subject e)) x y \<longleftrightarrow> x = seed_value (Seed_Subject e)"
| "seed_allows (Some (Seed_Object e)) x y \<longleftrightarrow> y = seed_value (Seed_Object e)"

fun seed_zero :: "walk_spec \<Rightarrow> quad list \<Rightarrow> seed option \<Rightarrow> int \<Rightarrow> int \<Rightarrow> bool" where
  "seed_zero ws qt None x y \<longleftrightarrow> (x, y, None) \<in> set (ws_zero_unseeded ws qt)"
| "seed_zero ws qt (Some sd) x y \<longleftrightarrow> x = seed_value sd \<and> y = seed_value sd"

text \<open>The walk inside a rendered statement.\<close>

lemma render_walk:
  assumes "render ws seed qt mp tr = Inr (rs, tr')" "\<not> ws_variable ws"
  defines "sval \<equiv> case seed of Some s \<Rightarrow> seed_value s | None \<Rightarrow> -1"
    and "obj \<equiv> case seed of Some s \<Rightarrow> is_object_seed s | None \<Rightarrow> False"
  obtains wrs where
    "path_walk qt mp (ws_preds ws) (ws_graph ws) (if seed \<noteq> None then Some sval else None) (ws_swapped ws \<noteq> obj)
      (ws_max_depth ws) (ws_path_id ws) False tr = Inr (wrs, tr')"
    "rs = (let walked = map (\<lambda>(start, reached, gid).
        ((if obj then reached else start), (if obj then start else reached), None)) wrs in
      if \<not> ws_reflexive ws then walked
      else sql_union walked (if seed \<noteq> None then [(sval, sval, None)] else ws_zero_unseeded ws qt))"
  using assms(1,2) that unfolding sval_def obj_def by (cases seed) (auto simp: render_def Let_def)

text \<open>A walk that was not truncated has the pairs of the transitive closure.\<close>

lemma render_complete:
  assumes "render ws seed qt mp tr = Inr (rs, tr')" "\<not> ws_variable ws" "ws_path_id ws \<notin> set tr'"
    and "seed_allows seed x y"
  shows "spec_plus ws qt x y \<longleftrightarrow> (x, y) \<in> (turn (ws_swapped ws) (id_edges qt (ws_graph ws) (ws_preds ws)))\<^sup>+"
proof -
  let ?E = "id_edges qt (ws_graph ws) (ws_preds ws)"
  obtain wrs where w: "path_walk qt mp (ws_preds ws) (ws_graph ws)
      (if seed \<noteq> None then Some (case seed of Some s \<Rightarrow> seed_value s | None \<Rightarrow> -1) else None)
      (ws_swapped ws \<noteq> (case seed of Some s \<Rightarrow> is_object_seed s | None \<Rightarrow> False))
      (ws_max_depth ws) (ws_path_id ws) False tr = Inr (wrs, tr')"
    by (rule render_walk[OF assms(1,2)])
  note c = walk_pairs(2)[OF w assms(3)]
  have conv: "(y, x) \<in> (turn (\<not> ws_swapped ws) ?E)\<^sup>+ \<longleftrightarrow> (x, y) \<in> (turn (ws_swapped ws) ?E)\<^sup>+"
    by (cases "ws_swapped ws") (auto simp: trancl_converse)
  show ?thesis
  proof (cases seed)
    case (Some sd)
    then show ?thesis
      using assms(4) c[of x y] c[of y x] conv within_turn[of x "ws_swapped ws" ?E y]
      by (cases sd) (auto simp: starts_at_def spec_plus_def)
  qed (use c[of x y] in \<open>auto simp: starts_at_def spec_plus_def\<close>)
qed

lemma render_rows:
  assumes "render ws seed qt mp tr = Inr (rs, tr')" "\<not> ws_variable ws"
  shows "(x, y, None) \<in> set rs \<longleftrightarrow>
    seed_allows seed x y \<and> spec_plus ws qt x y \<or> ws_reflexive ws \<and> seed_zero ws qt seed x y"
proof -
  let ?sval = "case seed of Some s \<Rightarrow> seed_value s | None \<Rightarrow> -1"
  let ?obj = "case seed of Some s \<Rightarrow> is_object_seed s | None \<Rightarrow> False"
  let ?seed = "if seed \<noteq> None then Some ?sval else None"
  obtain wrs where w: "path_walk qt mp (ws_preds ws) (ws_graph ws) ?seed (ws_swapped ws \<noteq> ?obj)
      (ws_max_depth ws) (ws_path_id ws) False tr = Inr (wrs, tr')"
    and rs: "rs = (let walked = map (\<lambda>(start, reached, gid).
        ((if ?obj then reached else start), (if ?obj then start else reached), None)) wrs in
      if \<not> ws_reflexive ws then walked
      else sql_union walked (if seed \<noteq> None then [(?sval, ?sval, None)] else ws_zero_unseeded ws qt))"
    by (rule render_walk[OF assms])
  define walked where "walked = map (\<lambda>(start, reached, gid :: int option).
        ((if ?obj then reached else start), (if ?obj then start else reached), None :: int option)) wrs"
  have r: "set rs = (if ws_reflexive ws
      then set walked \<union> set (if seed \<noteq> None then [(?sval, ?sval, None)] else ws_zero_unseeded ws qt)
      else set walked)"
    unfolding rs walked_def[symmetric] Let_def by (simp add: sql_union_def)
  have "(x, y, None) \<in> set walked \<longleftrightarrow> (if ?obj then \<exists>h. (y, x, h) \<in> set wrs else \<exists>h. (x, y, h) \<in> set wrs)"
    unfolding walked_def by force
  also have "\<dots> \<longleftrightarrow> seed_allows seed x y \<and> spec_plus ws qt x y"
  proof (cases seed)
    case (Some sd)
    then show ?thesis
      using walk_pairs(1)[OF w]
        within_turn[of _ "ws_swapped ws" "id_edges qt (ws_graph ws) (ws_preds ws)"]
      by (cases sd) (auto simp: starts_at_def spec_plus_def)
  qed (use walk_pairs(1)[OF w] in \<open>auto simp: starts_at_def spec_plus_def\<close>)
  finally show ?thesis unfolding r by (cases seed) auto
qed

text \<open>Seeding a walk does not change its answers: for the same statement and depth cap, the rows
  of a relation seeded at an end are the rows of the unseeded relation that have this end, plus for
  \<open>*\<close> the zero-length pair of the end itself (which holds even when it is no node of the graph).\<close>

theorem seeding_restricts:
  assumes "render ws (Some sd) qt mp tr = Inr (rs, tr')" "render ws None qt mp' tr'' = Inr (rs', tr3)"
    and "\<not> ws_variable ws" "set (ws_zero_unseeded ws qt) \<subseteq> {(n, n, None) | n. True}"
  shows "(x, y, None) \<in> set rs \<longleftrightarrow>
    (x, y, None) \<in> set rs' \<and> seed_allows (Some sd) x y \<or> ws_reflexive ws \<and> x = seed_value sd \<and> y = seed_value sd"
  using render_rows[OF assms(1,3)] render_rows[OF assms(2,3)] assms(4) by (cases sd) auto

section \<open>The relation of a path pattern\<close>

text \<open>The edges of a predicate IRI, and the nodes a zero-length path may sit on: those of the scope
  and the constant ends.\<close>

definition iri_edges :: "nat \<Rightarrow> world \<Rightarrow> quad list \<Rightarrow> int option \<Rightarrow> string \<Rightarrow> (int \<times> int) set" where
  "iri_edges b w qt g p = id_edges qt g [pred_id b w p]"

fun is_named :: "term_pattern \<Rightarrow> bool" where
  "is_named (TP_Named _) \<longleftrightarrow> True"
| "is_named _ \<longleftrightarrow> False"

definition zero_nodes ::
    "quad list \<Rightarrow> int option \<Rightarrow> (term_pattern \<Rightarrow> int) \<Rightarrow> term_pattern \<Rightarrow> term_pattern \<Rightarrow> int set" where
  "zero_nodes qt g v s k = scope_nodes qt g \<union> {v t | t. t \<in> {s, k} \<and> is_named t}"

text \<open>The graph of a scope that is not a graph variable.\<close>

fun scope_graph :: "graph_scope option \<Rightarrow> int option" where
  "scope_graph (Some (GS_Literal g)) = Some g"
| "scope_graph _ = None"

fun variable_scope :: "graph_scope option \<Rightarrow> bool" where
  "variable_scope (Some (GS_Variable _ _)) \<longleftrightarrow> True"
| "variable_scope _ \<longleftrightarrow> False"

fun reflexive_plan :: "'t path_plan \<Rightarrow> bool" where
  "reflexive_plan (Zero_Or_More_Plan _ _) \<longleftrightarrow> True"
| "reflexive_plan (Zero_Or_One_Plan _ _) \<longleftrightarrow> True"
| "reflexive_plan _ \<longleftrightarrow> False"

text \<open>The valuation gives the constant ends the ids the lowering resolves them to.\<close>

definition ends_resolved ::
    "hasher \<Rightarrow> nat \<Rightarrow> bool \<Rightarrow> world \<Rightarrow> term_pattern \<Rightarrow> term_pattern \<Rightarrow> (term_pattern \<Rightarrow> int) \<Rightarrow> bool" where
  "ends_resolved hasher b rfx w s k v \<longleftrightarrow>
     fst (resolve_endpoint hasher b rfx s w) \<in> {None, Some (v s)} \<and>
     fst (resolve_endpoint hasher b rfx k (snd (resolve_endpoint hasher b rfx s w))) \<in> {None, Some (v k)}"

lemma iri_edges_step:
  "step_rel (iri_edges b w qt g) ps sw = turn sw (id_edges qt g (map (pred_id b w) ps))"
proof -
  have "(\<Union>p \<in> set ps. iri_edges b w qt g p) = id_edges qt g (map (pred_id b w) ps)"
    by (auto simp: iri_edges_def id_edges_def)
  then show ?thesis by (simp add: step_rel_turn)
qed

lemma resolve_named: "fst (resolve_endpoint hasher b rfx t w) = None \<longleftrightarrow> \<not> is_named t"
  by (cases t) (auto split: prod.splits)

lemma resolve_unnamed: "\<not> is_named t \<Longrightarrow> resolve_endpoint hasher b rfx t w = (None, w)"
  by (cases t) auto

text \<open>The seed names the constant end it came from, and there is none only for variable ends.\<close>

lemma const_seed_ends:
  assumes "const_seed hasher b rfx s k w = (sd, w')" "ends_resolved hasher b rfx w s k v"
  shows "sd = (if is_named s then Some (Seed_Subject (Some (v s)))
               else if is_named k then Some (Seed_Object (Some (v k))) else None)"
  using assms resolve_named[of hasher b rfx s w] resolve_named[of hasher b rfx k w] resolve_unnamed[of s hasher b rfx w]
  by (auto simp: const_seed_def ends_resolved_def split: option.splits prod.splits if_splits)

lemma bound_ends:
  assumes "bound_self_pairs hasher b sc True s k w = (bound, w')" "ends_resolved hasher b True w s k v" "sc \<noteq> Variable_Graph"
  shows "set bound = {v t | t. t \<in> {s, k} \<and> is_named t}"
  using assms resolve_named[of hasher b True s w]
    resolve_named[of hasher b True k "snd (resolve_endpoint hasher b True s w)"]
  by (fastforce simp: bound_self_pairs_def ends_resolved_def Let_def split: option.splits prod.splits if_splits)

lemma zero_set:
  assumes "\<not> variable_scope scope"
  shows "(x, y, None) \<in> set (zero_length_node_set (path_scope scope) bound qt) \<longleftrightarrow>
    x = y \<and> (x \<in> scope_nodes qt (scope_graph scope) \<or> x \<in> set bound)"
  using assms
  by (cases scope rule: path_scope.cases) (auto simp: zero_length_node_set_def scope_nodes_def Let_def image_iff)

lemma direct_set:
  assumes "\<not> variable_scope scope"
  shows "(x, y, None) \<in> set (direct_rows ids (scope_graph scope) (path_scope scope) sw qt) \<longleftrightarrow>
    (x, y) \<in> turn sw (id_edges qt (scope_graph scope) ids)"
  using assms
  by (cases scope rule: path_scope.cases)
    (auto simp: direct_rows_def id_edges_def turn_def edge_ends_def image_iff split: if_splits)

lemma scope_graph_eq:
  "(case path_scope scope of Literal_Graph g \<Rightarrow> Some g | _ \<Rightarrow> None) = scope_graph scope"
  by (cases scope rule: path_scope.cases) auto

lemma path_scope_variable [simp]: "path_scope scope = Variable_Graph \<longleftrightarrow> variable_scope scope"
  by (cases scope rule: path_scope.cases) auto

text \<open>A walked closure, seeded by its constant end.\<close>

lemma walk_relation_holds:
  assumes "rel = walk_relation ids (scope_graph scope) (path_scope scope) sw depth pid sd rfx"
    and "pr_fragment rel qt mp tr = Inr (rs, tr')" "pid \<notin> set tr'" "\<not> variable_scope scope"
    and "sd = (if is_named s then Some (Seed_Subject (Some (v s)))
               else if is_named k then Some (Seed_Object (Some (v k))) else None)"
  shows "(v s, v k, None) \<in> set rs \<longleftrightarrow>
    (v s, v k) \<in> (turn sw (id_edges qt (scope_graph scope) ids))\<^sup>+ \<or>
    rfx \<and> (v s, v k) \<in> Id_on (zero_nodes qt (scope_graph scope) v s k)"
proof -
  define ws where "ws = the (pr_walk rel)"
  have ws: "ws_path_id ws = pid" "ws_preds ws = ids" "ws_graph ws = scope_graph scope" "\<not> ws_variable ws"
    "ws_swapped ws = sw" "ws_reflexive ws = rfx"
    "rfx \<Longrightarrow> ws_zero_unseeded ws = zero_length_node_set (path_scope scope) []"
    "pr_fragment rel = render ws sd"
    using assms(1,4) unfolding ws_def
    by (cases scope rule: path_scope.cases; simp add: walk_relation_def Let_def)+
  have r: "render ws sd qt mp tr = Inr (rs, tr')" using assms(2) ws(8) by simp
  have allows: "seed_allows sd (v s) (v k)" using assms(5) by auto
  have "rfx \<Longrightarrow> seed_zero ws qt sd (v s) (v k) \<longleftrightarrow> (v s, v k) \<in> Id_on (zero_nodes qt (scope_graph scope) v s k)"
    using assms(5) ws(7) zero_set[OF assms(4), of _ _ "[]" qt] by (auto simp: zero_nodes_def)
  then show ?thesis
    using render_rows[OF r ws(4)] render_complete[OF r ws(4) _ allows] allows ws assms(3) by auto
qed

lemma zero_or_one_holds:
  assumes "pr_fragment (build_zero_or_one ids (scope_graph scope) (path_scope scope) sw bound) qt mp tr = Inr (rs, tr')"
    and "\<not> variable_scope scope" "set bound = {v t | t. t \<in> {s, k} \<and> is_named t}"
  shows "(v s, v k, None) \<in> set rs \<longleftrightarrow>
    (v s, v k) \<in> turn sw (id_edges qt (scope_graph scope) ids) \<or>
    (v s, v k) \<in> Id_on (zero_nodes qt (scope_graph scope) v s k)"
proof -
  have "set rs = set (direct_rows ids (scope_graph scope) (path_scope scope) sw qt) \<union>
      set (zero_length_node_set (path_scope scope) bound qt)"
    using assms(1) by (auto simp: build_zero_or_one_def select_query_def sql_union_def)
  then have "(v s, v k, None) \<in> set rs \<longleftrightarrow> (v s, v k) \<in> turn sw (id_edges qt (scope_graph scope) ids) \<or>
      v s = v k \<and> v s \<in> scope_nodes qt (scope_graph scope) \<union> set bound"
    by (simp add: zero_set[OF assms(2)] direct_set[OF assms(2)])
  then show ?thesis unfolding assms(3) zero_nodes_def Id_on_iff by (simp add: conj_commute)
qed

lemma alternation_holds:
  assumes "pr_fragment (build_alternation ids (scope_graph scope) (path_scope scope) sw) qt mp tr = Inr (rs, tr')"
    and "\<not> variable_scope scope"
  shows "(x, y, None) \<in> set rs \<longleftrightarrow> (x, y) \<in> turn sw (id_edges qt (scope_graph scope) ids)"
  using assms direct_set[OF assms(2), of x y ids sw qt] by (auto simp: build_alternation_def select_query_def)

text \<open>The relation of a plan holds between two ends exactly when the plan does.\<close>

lemma path_relation_of_holds:
  assumes "path_relation_of hasher b depth s k scope qt plan w pid = (rel, w', pid')"
    and "pr_fragment rel qt mp tr = Inr (rs, tr')" "pid \<notin> set tr'"
    and "\<not> variable_scope scope" "\<not> closure_materialised b scope qt (fst (plan_predicates plan)) w"
    and "ends_resolved hasher b (reflexive_plan plan) w s k v" "\<forall>a p c. plan \<noteq> Triple_Plan a p c"
  shows "(v s, v k, None) \<in> set rs \<longleftrightarrow>
    plan_holds (iri_edges b w qt (scope_graph scope)) (zero_nodes qt (scope_graph scope) v s k) s k v plan"
proof (cases plan)
  case (One_Or_More_Plan ps sw)
  obtain sd w1 where c: "const_seed hasher b False s k w = (sd, w1)" by force
  have "rel = walk_relation (map (pred_id b w) ps) (scope_graph scope) (path_scope scope) sw depth pid sd False"
    using assms(1,5) One_Or_More_Plan c
    by (simp add: path_relation_of_def Let_def build_one_or_more_def scope_graph_eq)
  note rel = this
  have "ends_resolved hasher b False w s k v" using assms(6) One_Or_More_Plan by simp
  from walk_relation_holds[where v = v, OF rel assms(2-4) const_seed_ends[OF c this]]
  show ?thesis by (simp add: One_Or_More_Plan iri_edges_step)
next
  case (Zero_Or_More_Plan ps sw)
  obtain sd w1 where c: "const_seed hasher b True s k w = (sd, w1)" by force
  have "rel = walk_relation (map (pred_id b w) ps) (scope_graph scope) (path_scope scope) sw depth pid sd True"
    using assms(1,5) Zero_Or_More_Plan c
    by (simp add: path_relation_of_def Let_def build_zero_or_more_def scope_graph_eq)
  note rel = this
  have "ends_resolved hasher b True w s k v" using assms(6) Zero_Or_More_Plan by simp
  from walk_relation_holds[where v = v, OF rel assms(2-4) const_seed_ends[OF c this]]
  show ?thesis by (auto simp: Zero_Or_More_Plan iri_edges_step)
next
  case (Zero_Or_One_Plan ps sw)
  obtain bound w1 where c: "bound_self_pairs hasher b (path_scope scope) True s k w = (bound, w1)" by force
  have "rel = build_zero_or_one (map (pred_id b w) ps) (scope_graph scope) (path_scope scope) sw bound"
    using assms(1) Zero_Or_One_Plan c by (simp add: path_relation_of_def Let_def scope_graph_eq)
  note rel = this
  have e: "ends_resolved hasher b True w s k v" using assms(6) Zero_Or_One_Plan by simp
  have "path_scope scope \<noteq> Variable_Graph" using assms(4) by simp
  from zero_or_one_holds[where v = v, OF assms(2)[unfolded rel] assms(4) bound_ends[OF c e this]]
  show ?thesis by (auto simp: Zero_Or_One_Plan iri_edges_step)
next
  case (Alternation_Plan ps sw)
  have "rel = build_alternation (map (pred_id b w) ps) (scope_graph scope) (path_scope scope) sw"
    using assms(1) Alternation_Plan by (auto simp: path_relation_of_def Let_def scope_graph_eq)
  from alternation_holds[OF assms(2)[unfolded this] assms(4)]
  show ?thesis by (simp add: Alternation_Plan iri_edges_step)
qed (use assms(7) in blast)

text \<open>C1: the whole way of a recursive, optional or alternation path, from the expression to the joined
  rows: outside \<open>GRAPH ?g\<close>, when the closure is walked (no materialised-closure shortcut) and the
  walk neither refused nor recorded a truncation, a pair of ends is a row of the relation exactly
  when SPARQL's relation of the path holds between them, the zero-length pairs being those of the
  nodes of the scope and of the constant ends.\<close>

theorem path_pattern_correct:
  assumes "scoped_triple_from_path hasher b depth s path k scope qt w pid = Inr (Path_Triple s p k scope rel, w', pid')"
    and "classify_path s path k = Inr plan" "pr_fragment rel qt mp tr = Inr (rs, tr')"
    and "\<not> was_truncated pid tr'" "\<not> variable_scope scope"
    and "\<not> closure_materialised b scope qt (fst (plan_predicates plan)) w"
    and "ends_resolved hasher b (reflexive_plan plan) w s k v"
  shows "(v s, v k, None) \<in> set rs \<longleftrightarrow>
    (v s, v k) \<in> path_rel UNIV (iri_edges b w qt (scope_graph scope)) (zero_nodes qt (scope_graph scope) v s k) path"
proof -
  have r: "path_relation_of hasher b depth s k scope qt plan w pid = (rel, w', pid')"
    and n: "\<forall>a p c. plan \<noteq> Triple_Plan a p c"
    using assms(1,2) by (auto simp: scoped_triple_from_path_def split: path_plan.splits prod.splits)
  have "(v s, v k, None) \<in> set rs \<longleftrightarrow>
      plan_holds (iri_edges b w qt (scope_graph scope)) (zero_nodes qt (scope_graph scope) v s k) s k v plan"
    using path_relation_of_holds[OF r assms(3) _ assms(5-7) n] assms(4) by (simp add: was_truncated_def)
  then show ?thesis
    using classify_loop_sound[of s path k False plan _ _ v UNIV] assms(2) by (simp add: classify_path_def)
qed

text \<open>Seeding a walk late, from an end that an earlier pattern of the join bound, keeps the rows of
  the join: for a non-reflexive path always, for \<open>*\<close> when the bound term is a node of the scope.\<close>

theorem late_seeding_keeps_join:
  assumes "path_from_fragment rel s k anchors qt mp tr = Inr (rs, tr')" "pr_fragment rel qt mp' tr'' = Inr (rs', tr3)"
    and "rel = walk_relation ids (scope_graph scope) (path_scope scope) sw depth pid None rfx" "\<not> variable_scope scope"
    and "anchor_of anchors s \<in> {None, Some (Some (v s))}" "anchor_of anchors k \<in> {None, Some (Some (v k))}"
    and "rfx \<Longrightarrow> v s \<in> scope_nodes qt (scope_graph scope)"
  shows "(v s, v k, None) \<in> set rs \<longleftrightarrow> (v s, v k, None) \<in> set rs'"
proof -
  define ws where "ws = the (pr_walk rel)"
  have ws: "pr_walk rel = Some ws" "seedable ws" "\<not> ws_variable ws" "ws_reflexive ws = rfx"
    "rfx \<Longrightarrow> ws_zero_unseeded ws = zero_length_node_set (path_scope scope) []"
    "pr_fragment rel = render ws None"
    using assms(3,4) unfolding ws_def
    by (cases scope rule: path_scope.cases; simp add: walk_relation_def Let_def seedable_def)+
  define sd where "sd = (case anchor_of anchors s of Some x \<Rightarrow> Some (Seed_Subject x)
    | None \<Rightarrow> (case anchor_of anchors k of Some x \<Rightarrow> Some (Seed_Object x) | None \<Rightarrow> None))"
  have r: "render ws sd qt mp tr = Inr (rs, tr')"
    using assms(1) ws(1,2,6) by (simp add: path_from_fragment_def sd_def split: option.splits)
  have a: "seed_allows sd (v s) (v k)"
    using assms(5,6) by (auto simp: sd_def split: option.splits)
  have z: "seed_zero ws qt sd (v s) (v k) \<longleftrightarrow> v s = v k" if "sd \<noteq> None"
    using assms(5,6) that by (auto simp: sd_def split: option.splits)
  have u: "render ws None qt mp' tr'' = Inr (rs', tr3)" using assms(2) ws(6) by simp
  have Z: "seed_zero ws qt None (v s) (v k) \<longleftrightarrow> v s = v k" if rfx
    using ws(5)[OF that] zero_set[OF assms(4), of "v s" "v k" "[]" qt] assms(7)[OF that] by simp
  have L: "(v s, v k, None) \<in> set rs \<longleftrightarrow> spec_plus ws qt (v s) (v k) \<or> rfx \<and> seed_zero ws qt sd (v s) (v k)"
    using render_rows[OF r ws(3), of "v s" "v k"] a ws(4) by simp
  have R: "(v s, v k, None) \<in> set rs' \<longleftrightarrow> spec_plus ws qt (v s) (v k) \<or> rfx \<and> seed_zero ws qt None (v s) (v k)"
    using render_rows[OF u ws(3), of "v s" "v k"] ws(4) by simp
  show ?thesis
  proof (cases rfx)
    case True
    then show ?thesis unfolding L R using Z z by (cases "sd = None") simp_all
  next
    case False
    then show ?thesis unfolding L R by simp
  qed
qed

text \<open>Under \<open>GRAPH ?g\<close> every walk starts in a named graph.\<close>

lemma per_graph_starts:
  "(s, h) \<in> set (walk_starts qt ids None None sw True) \<longleftrightarrow>
     (\<exists>g. h = Some g \<and> g \<noteq> 0 \<and> s \<in> Domain (turn sw (id_edges qt (Some g) ids)))"
  unfolding walk_rel_edges[symmetric]
  by (auto simp: walk_starts_def walk_rel_def image_iff Domain_iff) (metis fst_conv prod.collapse)+

text \<open>Under \<open>GRAPH ?g\<close> a walked path stays inside one named graph: a row \<open>(x, y, g)\<close> is there
  exactly when \<open>g\<close> is not the default graph and the path leads from \<open>x\<close> to \<open>y\<close> over edges of
  \<open>g\<close> alone, the zero-length pairs of \<open>*\<close> being those of the nodes of \<open>g\<close>; a constant end
  never seeds it.\<close>

theorem graph_variable_rows:
  assumes "pr_fragment (walk_relation ids graph Variable_Graph sw depth pid sd rfx) qt mp tr = Inr (rs, tr')"
    and "\<not> was_truncated pid tr'"
  shows "(x, y, Some g) \<in> set rs \<longleftrightarrow>
    g \<noteq> 0 \<and> ((x, y) \<in> (turn sw (id_edges qt (Some g) ids))\<^sup>+ \<or>
              rfx \<and> (x, y) \<in> Id_on (scope_nodes qt (Some g)))"
proof -
  obtain wrs where w: "path_walk qt mp ids None None sw depth pid True tr = Inr (wrs, tr')"
    and rs: "set rs = set wrs \<union> (if rfx then set (zero_length_node_set Variable_Graph [] qt) else {})"
    using assms(1) by (auto simp: walk_relation_def Let_def render_def sql_union_def case_prod_beta image_iff)
  note r = path_walk_result[OF w]
  have full: "reach_rows qt ids None None sw True (nat depth) = all_rows qt ids None None sw True"
    using r assms(2) by (auto simp: was_truncated_def all_rows_union split: if_splits)
  have dom: "(x, y) \<in> R\<^sup>+ \<Longrightarrow> x \<in> Domain R" for R by (metis DomainI tranclD)
  have "(x, y, Some g) \<in> set wrs \<longleftrightarrow> g \<noteq> 0 \<and> (x, y) \<in> (turn sw (id_edges qt (Some g) ids))\<^sup>+"
    using r dom[of "turn sw (id_edges qt (Some g) ids)"] unfolding full
    by (auto simp: all_rows_def per_graph_starts walk_graph_def walk_rel_edges)
  moreover have "(x, y, Some g) \<in> set (zero_length_node_set Variable_Graph [] qt) \<longleftrightarrow>
      g \<noteq> 0 \<and> x = y \<and> x \<in> scope_nodes qt (Some g)"
    by (auto simp: zero_length_node_set_def scope_nodes_def Let_def image_iff)
  ultimately show ?thesis unfolding rs Id_on_iff by auto
qed

section \<open>Concrete patterns\<close>

definition p_world :: world where
  "p_world = (init_world (\<lambda>_. 1))\<lparr>rows := (\<lambda>_. [\<lparr>row_id = 9, row_key = (1, ''urn:p'', None, None)\<rparr>,
     \<lparr>row_id = 1, row_key = (1, ''urn:a'', None, None)\<rparr>,
     \<lparr>row_id = 8, row_key = (1, ''http://www.w3.org/2000/01/rdf-schema#subClassOf'', None, None)\<rparr>])\<rparr>"

definition flat_hasher :: hasher where
  "flat_hasher = (\<lambda>_ _ _. 0)"

lemma p_world_ids: "pred_id 0 p_world ''urn:p'' = 9" "pred_id 0 p_world ''urn:a'' = 1"
  by code_simp+

lemma plus_pattern_ok:
  "scoped_triple_from_path flat_hasher 0 64 (TP_Named ''urn:a'') (One_Or_More (Named_Node ''urn:p''))
     (TP_Variable ''o'') None loop_quads p_world 0 =
   Inr (Path_Triple (TP_Named ''urn:a'') ''urn:p'' (TP_Variable ''o'') None
     (build_one_or_more [9] None All_Graphs False 64 0 (Some (Seed_Subject (Some 1)))), p_world, 1)"
  by (simp add: scoped_triple_from_path_def classify_path_def fold_inner_predicates_def path_relation_of_def
      const_seed_def closure_materialised_def is_well_known_transitive_def p_world_ids)

text \<open>The rows of a fragment that is not refused.\<close>

definition fragment_rows :: "query \<Rightarrow> quad list \<Rightarrow> path_row list" where
  "fragment_rows f qt = fst (projr (f qt 100 []))"

text \<open>Late seeding of \<open>*\<close> does change the join when the bound term is not a node of the scope of
  the path: with \<open>?s\<close> bound to a term of another graph, the unseeded relation of
  \<open>GRAPH <g> { ?s p* ?o }\<close> has no row for it, the seeded one has the zero-length pair.\<close>

theorem late_seed_adds_pair:
  "let rel = build_zero_or_more [9] (Some 5) (Literal_Graph 5) False 64 0 None;
       s = TP_Variable ''s''; k = TP_Variable ''o''
   in (77, 77, None) \<notin> set (fragment_rows (pr_fragment rel) loop_quads) \<and>
      (77, 77, None) \<in> set (fragment_rows (path_from_fragment rel s k (\<lambda>x. if x = ''s'' then Some (Some 77) else None)) loop_quads)"
  by code_simp

definition sub_class_quads :: "quad list" where
  "sub_class_quads =
     [\<lparr>qs = 1, qp = 8, qo = 2, qg = 5, qinf = False\<rparr>, \<lparr>qs = 2, qp = 8, qo = 3, qg = 5, qinf = False\<rparr>,
      \<lparr>qs = 4, qp = 8, qo = 4, qg = 7, qinf = True\<rparr>]"

text \<open>The materialised-closure shortcut can lose answers: an unscoped \<open>rdfs:subClassOf+\<close> over two
  graphs, of which only one was materialised, takes the shortcut because of the one inferred row
  and misses the transitive pair of the other graph, which the walk returns.\<close>

theorem shortcut_loses_pair:
  "closure_materialised 0 None sub_class_quads [''http://www.w3.org/2000/01/rdf-schema#subClassOf''] p_world \<and>
   (1, 3, None) \<notin> set (fragment_rows (pr_fragment (build_alternation [8] None All_Graphs False)) sub_class_quads) \<and>
   (1, 3, None) \<in> set (fragment_rows (pr_fragment (build_one_or_more [8] None All_Graphs False 64 0 None)) sub_class_quads)"
  by code_simp

theorem path_pattern_correct_witness:
  "(1, 4) \<in> path_rel UNIV (iri_edges 0 p_world loop_quads None) (zero_nodes loop_quads None (\<lambda>t. if is_named t then 1 else 4)
      (TP_Named ''urn:a'') (TP_Variable ''o'')) (One_Or_More (Named_Node ''urn:p''))"
proof -
  let ?rel = "build_one_or_more [9] None All_Graphs False 64 0 (Some (Seed_Subject (Some 1)))"
  define r where "r = projr (pr_fragment ?rel loop_quads 100 [])"
  have "\<not> isl (pr_fragment ?rel loop_quads 100 [])" by code_simp
  then have f: "pr_fragment ?rel loop_quads 100 [] = Inr (fst r, snd r)" unfolding r_def by (cases "pr_fragment ?rel loop_quads 100 []") auto
  have t: "\<not> was_truncated 0 (snd r)" "(1, 4, None) \<in> set (fst r)" unfolding r_def by code_simp+
  have c: "classify_path (TP_Named ''urn:a'') (One_Or_More (Named_Node ''urn:p'')) (TP_Variable ''o'') =
      Inr (One_Or_More_Plan [''urn:p''] False)" by code_simp
  have m: "\<not> closure_materialised 0 None loop_quads (fst (plan_predicates (One_Or_More_Plan [''urn:p''] False :: term_pattern path_plan))) p_world"
    by code_simp
  have e: "ends_resolved flat_hasher 0 (reflexive_plan (One_Or_More_Plan [''urn:p''] False :: term_pattern path_plan)) p_world
      (TP_Named ''urn:a'') (TP_Variable ''o'') (\<lambda>t. if is_named t then 1 else 4)" by code_simp
  show ?thesis using path_pattern_correct[OF plus_pattern_ok c f t(1) _ m e] t(2) by simp
qed

definition star_relation :: path_relation where
  "star_relation = walk_relation [9] None All_Graphs False 64 0 None True"

lemma star_rows:
  "path_from_fragment star_relation (TP_Variable ''s'') (TP_Variable ''o'') (\<lambda>x. if x = ''s'' then Some (Some 1) else None) loop_quads 100 [] =
     Inr (fragment_rows (path_from_fragment star_relation (TP_Variable ''s'') (TP_Variable ''o'') (\<lambda>x. if x = ''s'' then Some (Some 1) else None)) loop_quads, [])"
  "pr_fragment star_relation loop_quads 100 [] = Inr (fragment_rows (pr_fragment star_relation) loop_quads, [])"
  by code_simp+

theorem late_seeding_keeps_join_witness:
  "(1, 4, None) \<in> set (fragment_rows (pr_fragment star_relation) loop_quads) \<longleftrightarrow>
   (1, 4, None) \<in> set (fragment_rows (path_from_fragment star_relation (TP_Variable ''s'') (TP_Variable ''o'')
      (\<lambda>x. if x = ''s'' then Some (Some 1) else None)) loop_quads)"
proof -
  have "star_relation = walk_relation [9] (scope_graph None) (path_scope None) False 64 0 None True"
    by (simp add: star_relation_def)
  moreover have "1 \<in> scope_nodes loop_quads (scope_graph None)" by (force simp: scope_nodes_def loop_quads_def)
  ultimately show ?thesis
    using late_seeding_keeps_join[OF star_rows(1) star_rows(2), of "[9]" None False 64 0 True
        "\<lambda>t. if t = TP_Variable ''s'' then 1 else 4"] by simp
qed

theorem seeding_restricts_witness:
  "(3, 4, None) \<in> set (fragment_rows (render (the (pr_walk star_relation)) (Some (Seed_Object (Some 4)))) loop_quads) \<longleftrightarrow>
   (3, 4, None) \<in> set (fragment_rows (pr_fragment star_relation) loop_quads)"
proof -
  have a: "render (the (pr_walk star_relation)) (Some (Seed_Object (Some 4))) loop_quads 100 [] =
      Inr (fragment_rows (render (the (pr_walk star_relation)) (Some (Seed_Object (Some 4)))) loop_quads, [])"
    "render (the (pr_walk star_relation)) None loop_quads 100 [] = Inr (fragment_rows (pr_fragment star_relation) loop_quads, [])"
    by code_simp+
  have v: "\<not> ws_variable (the (pr_walk star_relation))"
    "set (ws_zero_unseeded (the (pr_walk star_relation)) loop_quads) \<subseteq> {(n, n, None) | n. True}"
    by (auto simp: star_relation_def walk_relation_def zero_length_node_set_def loop_quads_def Let_def)
  show ?thesis using seeding_restricts[OF a v, of 3 4] by simp
qed

definition graph_star :: path_relation where
  "graph_star = walk_relation [9] None Variable_Graph True 64 0 (Some (Seed_Subject (Some 1))) True"

theorem graph_variable_rows_witness:
  "(4, 1, Some 5) \<in> set (fragment_rows (pr_fragment graph_star) loop_quads) \<and>
   (4, 1) \<in> (turn True (id_edges loop_quads (Some 5) [9]))\<^sup>+"
proof -
  have "pr_fragment (walk_relation [9] None Variable_Graph True 64 0 (Some (Seed_Subject (Some 1))) True) loop_quads 100 [] =
      Inr (fragment_rows (pr_fragment graph_star) loop_quads, [])"
    "(4, 1, Some 5) \<in> set (fragment_rows (pr_fragment graph_star) loop_quads)" by code_simp+
  moreover from this(1) have "\<not> was_truncated 0 []" by (simp add: was_truncated_def)
  ultimately show ?thesis using graph_variable_rows[where x = 4 and y = 1 and g = 5] by fastforce
qed

end
