(* ===== verification/Line_Ranges.thy ===== *)
theory Line_Ranges
  imports Prelude
begin

text \<open>
  How the parallel loaders cut a file: the newline-snapped chunks of
  \<open>ingest_turtle_parallel_bulk\<close> (\<open>src/storage/loader.rs\<close>) and \<open>snap_byte_ranges\<close> of
  \<open>src/storage/staged/phases.rs\<close>, whose search for a newline reads the file in bounded buffers.
  Also the text primitives of Rust's standard library that the loaders read files with: UTF-8
  decoding with replacement, \<open>read_line\<close>, \<open>str::lines\<close> and trimming. A file is a list of bytes;
  offsets are unbounded (the code multiplies a 64-bit length by a worker index).
\<close>

section \<open>UTF-8\<close>

definition byte_at :: "string \<Rightarrow> nat \<Rightarrow> nat" where
  "byte_at s i = (if i < length s then of_char (s ! i) else 0)"

definition cont_byte :: "nat \<Rightarrow> bool" where
  "cont_byte x \<longleftrightarrow> 0x80 \<le> x \<and> x \<le> 0xBF"

text \<open>One step of \<open>Utf8Chunks\<close>: the bytes consumed, and whether they are a character.\<close>

definition utf8_step :: "string \<Rightarrow> nat \<times> bool" where
  "utf8_step s =
     (let a = byte_at s 0; x = byte_at s 1; y = byte_at s 2; z = byte_at s 3 in
      if a < 0x80 then (1, True)
      else if 0xC2 \<le> a \<and> a \<le> 0xDF then (if cont_byte x then (2, True) else (1, False))
      else if 0xE0 \<le> a \<and> a \<le> 0xEF then
        (if \<not> (if a = 0xE0 then 0xA0 \<le> x \<and> x \<le> 0xBF else if a = 0xED then 0x80 \<le> x \<and> x \<le> 0x9F else cont_byte x)
         then (1, False)
         else if cont_byte y then (3, True) else (2, False))
      else if 0xF0 \<le> a \<and> a \<le> 0xF4 then
        (if \<not> (if a = 0xF0 then 0x90 \<le> x \<and> x \<le> 0xBF else if a = 0xF4 then 0x80 \<le> x \<and> x \<le> 0x8F else cont_byte x)
         then (1, False)
         else if \<not> cont_byte y then (2, False)
         else if cont_byte z then (4, True) else (3, False))
      else (1, False))"

lemma utf8_step_pos [simp]: "0 < fst (utf8_step s)"
  by (simp add: utf8_step_def Let_def)

function from_utf8_lossy :: "string \<Rightarrow> string" where
  "from_utf8_lossy s =
     (if s = [] then []
      else (case utf8_step s of (n, ok) \<Rightarrow>
        (if ok then take n s else [CHR 0xEF, CHR 0xBF, CHR 0xBD]) @ from_utf8_lossy (drop n s)))"
  by pat_completeness auto
termination
  by (relation "measure length") (auto dest: arg_cong[where f = fst] intro: diff_less)

function valid_utf8 :: "string \<Rightarrow> bool" where
  "valid_utf8 s =
     (if s = [] then True
      else (case utf8_step s of (n, ok) \<Rightarrow> ok \<and> valid_utf8 (drop n s)))"
  by pat_completeness auto
termination
  by (relation "measure length") (auto dest: arg_cong[where f = fst])

declare from_utf8_lossy.simps [simp del] valid_utf8.simps [simp del]

lemma from_utf8_lossy_valid: "valid_utf8 s \<Longrightarrow> from_utf8_lossy s = s"
proof (induction s rule: valid_utf8.induct)
  case (1 s)
  show ?case
  proof (cases "s = []")
    case False
    obtain n ok where n: "utf8_step s = (n, ok)" by fastforce
    with False 1 show ?thesis
      by (simp add: valid_utf8.simps[of s] from_utf8_lossy.simps[of s])
  qed (simp add: from_utf8_lossy.simps)
qed

section \<open>Lines and trimming\<close>

definition LF :: char where "LF = CHR 0x0A"

text \<open>The successive results of \<open>read_line\<close>: the lines with their terminators.\<close>

function split_lines :: "string \<Rightarrow> string list" where
  "split_lines s =
     (if s = [] then []
      else if LF \<in> set s
      then (takeWhile (\<lambda>c. c \<noteq> LF) s @ [LF]) # split_lines (tl (dropWhile (\<lambda>c. c \<noteq> LF) s))
      else [s])"
  by pat_completeness auto
termination
proof (relation "measure length")
  fix s :: string assume "s \<noteq> []" "LF \<in> set s"
  have "length (tl (dropWhile (\<lambda>c. c \<noteq> LF) s)) \<le> length (dropWhile (\<lambda>c. c \<noteq> LF) s) - 1" by simp
  also have "\<dots> < length s"
    using length_dropWhile_le[of "\<lambda>c. c \<noteq> LF" s] \<open>s \<noteq> []\<close> by (cases s) auto
  finally show "(tl (dropWhile (\<lambda>c. c \<noteq> LF) s), s) \<in> measure length" by simp
qed simp

declare split_lines.simps [simp del]

lemma split_lines_Nil [simp]: "split_lines [] = []"
  by (simp add: split_lines.simps)

lemma split_lines_line: "LF \<notin> set l \<Longrightarrow> split_lines (l @ LF # s) = (l @ [LF]) # split_lines s"
proof -
  assume l: "LF \<notin> set l"
  then have "takeWhile (\<lambda>c. c \<noteq> LF) (l @ LF # s) = l" "dropWhile (\<lambda>c. c \<noteq> LF) (l @ LF # s) = LF # s"
    by (auto simp: takeWhile_append dropWhile_append)
  then show ?thesis by (simp add: split_lines.simps[of "l @ LF # s"])
qed

text \<open>Text that ends in a newline can be cut off: its lines are whole.\<close>

lemma split_lines_append:
  assumes "a = [] \<or> last a = LF"
  shows "split_lines (a @ s) = split_lines a @ split_lines s"
  using assms
proof (induction a rule: split_lines.induct)
  case (1 a)
  show ?case
  proof (cases "a = []")
    case False
    then have lf: "LF \<in> set a" using 1(2) last_in_set by metis
    then obtain l r where a: "a = l @ LF # r" "LF \<notin> set l" by (meson split_list_first)
    have tl: "tl (dropWhile (\<lambda>c. c \<noteq> LF) a) = r" using a by (auto simp: dropWhile_append)
    have "r = [] \<or> last r = LF" using 1(2) a by (auto split: if_splits)
    then have "split_lines (r @ s) = split_lines r @ split_lines s"
      using 1(1)[OF False lf] tl by simp
    then show ?thesis using a by (simp add: split_lines_line)
  qed simp
qed

text \<open>\<open>str::lines\<close>: without terminators, a \<open>\r\<close> before the newline dropped too.\<close>

definition strip_eol :: "string \<Rightarrow> string" where
  "strip_eol l =
     (if l \<noteq> [] \<and> last l = LF
      then (let m = butlast l in if m \<noteq> [] \<and> last m = CHR 0x0D then butlast m else m)
      else l)"

definition str_lines :: "string \<Rightarrow> string list" where
  "str_lines s = map strip_eol (split_lines s)"

function trim_start :: "string \<Rightarrow> string" where
  "trim_start s = (if s = [] \<or> ws_bytes s = 0 then s else trim_start (drop (ws_bytes s) s))"
  by pat_completeness auto
termination by (relation "measure length") auto

fun trim_end :: "string \<Rightarrow> string" where
  "trim_end [] = []"
| "trim_end (c # s) = (if blank (c # s) then [] else c # trim_end s)"

definition trim :: "string \<Rightarrow> string" where
  "trim s = trim_end (trim_start s)"

declare trim_start.simps [simp del]

section \<open>Cutting at line boundaries\<close>

definition line_boundary :: "string \<Rightarrow> nat \<Rightarrow> bool" where
  "line_boundary bs k \<longleftrightarrow> k = 0 \<or> k = length bs \<or> (0 < k \<and> k \<le> length bs \<and> bs ! (k - 1) = LF)"

text \<open>The chunks of the bulk loader: scan from the raw cut to the next newline and step over it.\<close>

function scan_newline :: "string \<Rightarrow> nat \<Rightarrow> nat" where
  "scan_newline bs i = (if i < length bs \<and> bs ! i \<noteq> LF then scan_newline bs (i + 1) else i)"
  by pat_completeness auto
termination by (relation "measure (\<lambda>(bs, i). length bs - i)") auto

declare scan_newline.simps [simp del]

definition bulk_cut :: "string \<Rightarrow> nat \<Rightarrow> nat" where
  "bulk_cut bs raw =
     (let i = scan_newline bs raw in min (if i < length bs then i + 1 else i) (length bs))"

definition bulk_bounds :: "string \<Rightarrow> nat \<Rightarrow> nat list" where
  "bulk_bounds bs n = 0 # map (\<lambda>k. bulk_cut bs (length bs * k div n)) [1..<n] @ [length bs]"

definition windows2 :: "nat list \<Rightarrow> (nat \<times> nat) list" where
  "windows2 bounds = zip bounds (tl bounds)"

definition bulk_chunks :: "string \<Rightarrow> nat \<Rightarrow> (nat \<times> nat) list" where
  "bulk_chunks bs n = filter (\<lambda>(a, b). a < b) (windows2 (bulk_bounds bs n))"

text \<open>
  The staged loader's search: \<open>rd pos want\<close> is the number of bytes one read returns, 0 for a
  failed read or seek.
\<close>

definition READ_BUF :: nat where "READ_BUF = 65536"

function find_newline_from :: "(nat \<Rightarrow> nat \<Rightarrow> nat) \<Rightarrow> string \<Rightarrow> nat \<Rightarrow> nat" where
  "find_newline_from rd bs pos =
     (if length bs \<le> pos then length bs
      else
        (let want = min (length bs - pos) READ_BUF; got = min (rd pos want) want;
             chunk = take got (drop pos bs)
         in if got = 0 then length bs
            else if LF \<in> set chunk then pos + length (takeWhile (\<lambda>c. c \<noteq> LF) chunk) + 1
            else find_newline_from rd bs (pos + got)))"
  by pat_completeness auto
termination by (relation "measure (\<lambda>(rd, bs, pos). length bs - pos)") auto

declare find_newline_from.simps [simp del]

definition push_bound :: "(nat \<Rightarrow> nat \<Rightarrow> nat) \<Rightarrow> string \<Rightarrow> nat \<Rightarrow> nat \<Rightarrow> nat list \<Rightarrow> nat list" where
  "push_bound rd bs n i bounds =
     (let raw = length bs * i div n; prev = last bounds;
          snapped = max (find_newline_from rd bs raw) prev
      in bounds @ [min snapped (length bs)])"

definition snap_bounds :: "(nat \<Rightarrow> nat \<Rightarrow> nat) \<Rightarrow> string \<Rightarrow> nat \<Rightarrow> nat list" where
  "snap_bounds rd bs n = fold (push_bound rd bs n) [1..<n] [0] @ [length bs]"

definition snap_byte_ranges :: "(nat \<Rightarrow> nat \<Rightarrow> nat) \<Rightarrow> string \<Rightarrow> nat \<Rightarrow> (nat \<times> nat) list" where
  "snap_byte_ranges rd bs n =
     (let n = max n 1 in
      if n = 1 \<or> bs = [] then [(0, length bs)]
      else (let ranges = filter (\<lambda>(lo, hi). lo < hi) (windows2 (snap_bounds rd bs n))
            in if ranges = [] then [(0, length bs)] else ranges))"

definition slice :: "string \<Rightarrow> nat \<times> nat \<Rightarrow> string" where
  "slice bs r = take (snd r - fst r) (drop (fst r) bs)"


section \<open>Any cut at line boundaries keeps every line whole\<close>

text \<open>
  What a loader owes its workers: bounds that rise from the start of the file to its end, each at
  a line boundary.
\<close>

locale line_bounds =
  fixes bounds :: "string \<Rightarrow> nat list"
  assumes bounds_sorted: "sorted (bounds bs)"
    and bounds_ends: "bounds bs \<noteq> []" "hd (bounds bs) = 0" "last (bounds bs) = length bs"
    and bounds_lines: "k \<in> set (bounds bs) \<Longrightarrow> line_boundary bs k"

lemma slice_append: "a \<le> b \<Longrightarrow> b \<le> c \<Longrightarrow> slice bs (a, b) @ slice bs (b, c) = slice bs (a, c)"
proof -
  assume "a \<le> b" "b \<le> c"
  then have "take (c - a) (drop a bs) = take ((b - a) + (c - b)) (drop a bs)" by simp
  also have "\<dots> = take (b - a) (drop a bs) @ take (c - b) (drop (b - a) (drop a bs))" by (rule take_add)
  finally show ?thesis using \<open>a \<le> b\<close> by (simp add: slice_def)
qed

lemma slice_boundary:
  assumes "a \<le> b" "line_boundary bs b" "b < length bs"
  shows "slice bs (a, b) = [] \<or> last (slice bs (a, b)) = LF"
proof (cases "a < b")
  case True
  then have "length (slice bs (a, b)) = b - a" "slice bs (a, b) \<noteq> []" using assms(3) by (simp_all add: slice_def)
  moreover have "slice bs (a, b) ! (b - a - 1) = bs ! (b - 1)"
    using True assms(3) by (simp add: slice_def)
  ultimately show ?thesis using assms(2,3) True by (simp add: last_conv_nth line_boundary_def)
qed (use assms(1) in \<open>simp add: slice_def\<close>)

lemma windows2_Cons: "windows2 (a # b # ks) = (a, b) # windows2 (b # ks)"
  by (simp add: windows2_def)

lemma slices_of_windows:
  assumes "sorted (a # ks)" "\<forall>k \<in> set (a # ks). line_boundary bs k \<and> k \<le> length bs"
  shows "concat (map (slice bs) (windows2 (a # ks))) = slice bs (a, last (a # ks)) \<and>
    concat (map (\<lambda>r. split_lines (slice bs r)) (windows2 (a # ks))) = split_lines (slice bs (a, last (a # ks)))"
  using assms
proof (induction ks arbitrary: a)
  case Nil
  then show ?case by (simp add: windows2_def slice_def)
next
  case (Cons b ks)
  have le: "a \<le> b" "b \<le> last (b # ks)" using Cons.prems(1) by (auto simp: last_in_set)
  note IH = Cons.IH[of b] and app = slice_append[OF le, of bs]
  have "split_lines (slice bs (a, b)) @ split_lines (slice bs (b, last (b # ks)))
      = split_lines (slice bs (a, last (b # ks)))"
  proof (cases "b < length bs")
    case True
    then have "slice bs (a, b) = [] \<or> last (slice bs (a, b)) = LF"
      using slice_boundary[OF le(1)] Cons.prems(2) by simp
    then show ?thesis unfolding app[symmetric] by (rule split_lines_append[symmetric])
  next
    case False
    then have "slice bs (b, last (b # ks)) = []" by (simp add: slice_def)
    then show ?thesis using app by simp
  qed
  then show ?case using IH app Cons.prems unfolding windows2_Cons by simp
qed

lemma slices_drop_empty:
  "concat (map (slice bs) (filter (\<lambda>(a, b). a < b) rs)) = concat (map (slice bs) rs)"
  "concat (map (\<lambda>r. split_lines (slice bs r)) (filter (\<lambda>(a, b). a < b) rs))
     = concat (map (\<lambda>r. split_lines (slice bs r)) rs)"
  by (induction rs) (auto simp: slice_def)

context line_bounds
begin

lemma boundary_le: "k \<in> set (bounds bs) \<Longrightarrow> k \<le> length bs"
  using bounds_lines[of k bs] by (auto simp: line_boundary_def)

text \<open>The slices are the file, and their lines are the file's lines: none split, none twice.\<close>

lemma slices_cover:
  "concat (map (slice bs) (filter (\<lambda>(a, b). a < b) (windows2 (bounds bs)))) = bs \<and>
   concat (map (\<lambda>r. split_lines (slice bs r)) (filter (\<lambda>(a, b). a < b) (windows2 (bounds bs)))) = split_lines bs"
proof -
  obtain ks where ks: "bounds bs = 0 # ks" using bounds_ends(1,2)[of bs] by (cases "bounds bs") auto
  have "sorted (0 # ks)" "\<forall>k \<in> set (0 # ks). line_boundary bs k \<and> k \<le> length bs"
    using bounds_sorted[of bs] bounds_lines[of _ bs] boundary_le[of _ bs] unfolding ks by auto
  from slices_of_windows[OF this] show ?thesis
    using bounds_ends(3)[of bs] unfolding ks slices_drop_empty by (simp add: slice_def)
qed

end

subsection \<open>The bulk loader's bounds\<close>

lemma scan_newline_spec:
  "i \<le> length bs \<Longrightarrow> i \<le> scan_newline bs i \<and> scan_newline bs i \<le> length bs \<and>
     (scan_newline bs i < length bs \<longrightarrow> bs ! scan_newline bs i = LF) \<and>
     (\<forall>j. i \<le> j \<and> j < scan_newline bs i \<longrightarrow> bs ! j \<noteq> LF)"
proof (induction bs i rule: scan_newline.induct)
  case (1 bs i)
  show ?case
  proof (cases "i < length bs \<and> bs ! i \<noteq> LF")
    case True
    with 1 have IH: "i + 1 \<le> scan_newline bs (i + 1) \<and> scan_newline bs (i + 1) \<le> length bs \<and>
      (scan_newline bs (i + 1) < length bs \<longrightarrow> bs ! scan_newline bs (i + 1) = LF) \<and>
      (\<forall>j. i + 1 \<le> j \<and> j < scan_newline bs (i + 1) \<longrightarrow> bs ! j \<noteq> LF)" by simp
    have "scan_newline bs i = scan_newline bs (i + 1)" using True by (subst scan_newline.simps) simp
    then show ?thesis using IH True by (metis Suc_eq_plus1 Suc_leD Suc_leI le_neq_implies_less)
  next
    case False
    then have "scan_newline bs i = i" by (subst scan_newline.simps) (simp only: if_False)
    with False 1(2) show ?thesis by auto
  qed
qed

lemma bulk_cut_boundary: "i \<le> length bs \<Longrightarrow> line_boundary bs (bulk_cut bs i)"
  using scan_newline_spec[of i bs] by (auto simp: bulk_cut_def line_boundary_def Let_def min_def)

lemma bulk_cut_mono:
  assumes "i \<le> j" "j \<le> length bs"
  shows "bulk_cut bs i \<le> bulk_cut bs j"
proof (cases "scan_newline bs i < j")
  case True
  then show ?thesis using scan_newline_spec[of j bs] assms(2) by (auto simp: bulk_cut_def Let_def)
next
  case False
  have "\<not> scan_newline bs j < scan_newline bs i"
    using scan_newline_spec[of i bs] scan_newline_spec[of j bs] assms False by fastforce
  then show ?thesis by (auto simp: bulk_cut_def Let_def)
qed

lemma raw_cut_le: "k < n \<Longrightarrow> (m::nat) * k div n \<le> m"
  by (metis div_le_mono less_imp_le_nat mult_le_mono2 nonzero_mult_div_cancel_right not_less_zero)

interpretation bulk: line_bounds "\<lambda>bs. bulk_bounds bs n" for n
proof unfold_locales
  fix bs k
  have le: "bulk_cut bs i \<le> length bs" for i by (simp add: bulk_cut_def Let_def)
  have "sorted_wrt (\<lambda>i j. bulk_cut bs (length bs * i div n) \<le> bulk_cut bs (length bs * j div n)) [1..<n]"
    by (rule sorted_wrt_mono_rel[of _ "(\<le>)"]) (auto intro!: bulk_cut_mono div_le_mono raw_cut_le)
  then have "sorted (map (\<lambda>k. bulk_cut bs (length bs * k div n)) [1..<n])" by (simp add: sorted_wrt_map)
  then show "sorted (bulk_bounds bs n)" using le by (auto simp: bulk_bounds_def sorted_append)
  show "bulk_bounds bs n \<noteq> []" "hd (bulk_bounds bs n) = 0" "last (bulk_bounds bs n) = length bs"
    by (simp_all add: bulk_bounds_def)
  assume "k \<in> set (bulk_bounds bs n)"
  then show "line_boundary bs k"
    using raw_cut_le by (auto simp: bulk_bounds_def intro!: bulk_cut_boundary) (simp_all add: line_boundary_def)
qed

subsection \<open>The staged loader's bounds\<close>

text \<open>However the reads come back, the search ends on a line boundary.\<close>

lemma find_newline_boundary: "line_boundary bs (find_newline_from rd bs pos) \<and> find_newline_from rd bs pos \<le> length bs"
proof (induction rd bs pos rule: find_newline_from.induct)
  case (1 rd bs pos)
  define want where "want = min (length bs - pos) READ_BUF"
  define got where "got = min (rd pos want) want"
  define chunk where "chunk = take got (drop pos bs)"
  have step: "find_newline_from rd bs pos =
      (if length bs \<le> pos then length bs else if got = 0 then length bs
       else if LF \<in> set chunk then pos + length (takeWhile (\<lambda>c. c \<noteq> LF) chunk) + 1
       else find_newline_from rd bs (pos + got))"
    unfolding find_newline_from.simps[of rd bs pos] Let_def want_def got_def chunk_def by (rule refl)
  show ?case
  proof (cases "length bs \<le> pos \<or> got = 0")
    case True
    then show ?thesis unfolding step by (auto simp: line_boundary_def)
  next
    case False
    show ?thesis
    proof (cases "LF \<in> set chunk")
      case True
      let ?k = "length (takeWhile (\<lambda>c. c \<noteq> LF) chunk)"
      have "takeWhile (\<lambda>c. c \<noteq> LF) chunk \<noteq> chunk" using True by (auto simp: takeWhile_eq_all_conv)
      then have k: "?k < length chunk"
        by (metis takeWhile_eq_take length_takeWhile_le le_neq_implies_less take_all order_refl)
      then have "chunk ! ?k = LF" using nth_length_takeWhile[of "\<lambda>c. c \<noteq> LF" chunk] by simp
      moreover have "chunk ! ?k = bs ! (pos + ?k)" "pos + ?k < length bs"
        using k by (auto simp: chunk_def)
      ultimately show ?thesis unfolding step using False True by (simp add: line_boundary_def)
    next
      case noLF: False
      have "line_boundary bs (find_newline_from rd bs (pos + got)) \<and>
          find_newline_from rd bs (pos + got) \<le> length bs"
        using 1[OF _ want_def got_def chunk_def] False noLF by auto
      then show ?thesis unfolding step using False noLF by simp
    qed
  qed
qed

lemma push_bound_ok:
  assumes "sorted bounds" "bounds \<noteq> []" "hd bounds = 0" "\<forall>k \<in> set bounds. line_boundary bs k \<and> k \<le> length bs"
  shows "sorted (push_bound rd bs n i bounds) \<and> push_bound rd bs n i bounds \<noteq> [] \<and>
    hd (push_bound rd bs n i bounds) = 0 \<and>
    (\<forall>k \<in> set (push_bound rd bs n i bounds). line_boundary bs k \<and> k \<le> length bs)"
proof -
  have le: "k \<le> last bounds" if "k \<in> set bounds" for k
    using assms(1,2) that by (metis append_butlast_last_id sorted_append list.set_intros(1) Un_iff
        set_append le_refl in_set_conv_decomp set_ConsD list.set(1) empty_iff)
  have last: "line_boundary bs (last bounds)" "last bounds \<le> length bs" using assms(2,4) by simp_all
  let ?f = "find_newline_from rd bs (length bs * i div n)"
  have f: "line_boundary bs ?f" "?f \<le> length bs" using find_newline_boundary by blast+
  have new: "min (max ?f (last bounds)) (length bs) \<in> {?f, last bounds}" using f(2) last(2) by (auto simp: min_def max_def)
  have ge: "last bounds \<le> min (max ?f (last bounds)) (length bs)" using last(2) by simp
  have "\<forall>k \<in> set bounds. k \<le> min (max ?f (last bounds)) (length bs)"
    using order_trans[OF le ge] by blast
  then have "sorted (bounds @ [min (max ?f (last bounds)) (length bs)])"
    using assms(1) by (simp only: sorted_append) simp
  then show ?thesis using assms new f last by (auto simp: push_bound_def Let_def)
qed

interpretation staged: line_bounds "\<lambda>bs. snap_bounds rd bs n" for rd n
proof unfold_locales
  fix bs k
  let ?P = "\<lambda>bounds. sorted bounds \<and> bounds \<noteq> [] \<and> hd bounds = 0 \<and>
      (\<forall>k \<in> set bounds. line_boundary bs k \<and> k \<le> length bs)"
  have p: "?P (fold (push_bound rd bs n) [1..<n] [0])"
  proof (rule fold_invariant[where P = ?P])
    show "?P [0]" by (simp add: line_boundary_def)
    fix i s assume "?P s"
    then show "?P (push_bound rd bs n i s)" using push_bound_ok[of s bs rd n i] by blast
  qed
  then show "sorted (snap_bounds rd bs n)" "snap_bounds rd bs n \<noteq> []" "hd (snap_bounds rd bs n) = 0"
    "last (snap_bounds rd bs n) = length bs"
    by (simp_all add: snap_bounds_def sorted_append)
  have "line_boundary bs (length bs)" by (simp add: line_boundary_def)
  then show "k \<in> set (snap_bounds rd bs n) \<Longrightarrow> line_boundary bs k" using p by (auto simp: snap_bounds_def)
qed

lemma ranges_cover:
  "concat (map (slice bs) (snap_byte_ranges rd bs n)) = bs \<and>
   concat (map (\<lambda>r. split_lines (slice bs r)) (snap_byte_ranges rd bs n)) = split_lines bs \<and>
   concat (map (slice bs) (bulk_chunks bs n)) = bs \<and>
   concat (map (\<lambda>r. split_lines (slice bs r)) (bulk_chunks bs n)) = split_lines bs"
proof -
  have whole: "slice bs (0, length bs) = bs" by (simp add: slice_def)
  let ?rs = "filter (\<lambda>(lo, hi). lo < hi) (windows2 (snap_bounds rd bs (max n 1)))"
  have s: "concat (map (slice bs) ?rs) = bs \<and> concat (map (\<lambda>r. split_lines (slice bs r)) ?rs) = split_lines bs"
    by (rule staged.slices_cover)
  then have "concat (map (slice bs) (snap_byte_ranges rd bs n)) = bs \<and>
      concat (map (\<lambda>r. split_lines (slice bs r)) (snap_byte_ranges rd bs n)) = split_lines bs"
    using whole by (auto simp: snap_byte_ranges_def Let_def)
  then show ?thesis using bulk.slices_cover[of bs n] by (simp add: bulk_chunks_def)
qed

section \<open>Properties\<close>

text \<open>C30: The byte ranges handed to the staged workers and the chunks of the bulk loader are the file,
  in order and without gap or overlap, and no line is split: read range by range, the lines are
  those of the file, each exactly once. This holds for any number of workers, lines of any length
  and however the reads of the staged search come back, failed reads included.
\<close>

theorem every_line_once:
  "concat (map (slice bs) (snap_byte_ranges rd bs n)) = bs \<and>
   concat (map (\<lambda>r. split_lines (slice bs r)) (snap_byte_ranges rd bs n)) = split_lines bs \<and>
   concat (map (slice bs) (bulk_chunks bs n)) = bs \<and>
   concat (map (\<lambda>r. split_lines (slice bs r)) (bulk_chunks bs n)) = split_lines bs"
  by (rule ranges_cover)

end
