(* ===== verification/Sniff.thy ===== *)
theory Sniff
  imports Line_Ranges Rdf_Terms
begin

text \<open>
  The format sniff of \<open>load_turtle\<close> (\<open>src/storage/loader.rs\<close>): whether the head of a file looks like
  N-Triples, so that it may be read by the line-oriented parser of the staged loader. A line is
  scanned by bytes; the position in the line is the rest of it.
\<close>

section \<open>One line\<close>

definition SNIFF_SAMPLE_BYTES :: nat where "SNIFF_SAMPLE_BYTES = 64 * 1024"
definition SNIFF_MAX_LINES :: nat where "SNIFF_MAX_LINES = 200"

definition BSL :: char where "BSL = CHR 0x5C"

text \<open>To the first closing character that no backslash precedes; \<open>None\<close> when the line ends first.\<close>

fun skip_to :: "char \<Rightarrow> string \<Rightarrow> string option" where
  "skip_to q [] = None"
| "skip_to q [c] = (if c = BSL then None else if c = q then Some [] else None)"
| "skip_to q (c # d # s) =
     (if c = BSL then skip_to q s else if c = q then Some (d # s) else skip_to q (d # s))"

definition line_space :: "char \<Rightarrow> bool" where
  "line_space c \<longleftrightarrow> c \<in> {CHR '' '', CHR 0x09, CHR 0x0D, CHR 0x0A}"

definition label_byte :: "char \<Rightarrow> bool" where
  "label_byte c \<longleftrightarrow>
     c \<notin> {CHR '' '', CHR 0x09, CHR 0x0A, CHR 0x0C, CHR 0x0D} \<and> c \<notin> {CHR ''.'', CHR ''<'', CHR 0x22, CHR 0x27, CHR ''#''}"

definition tag_byte :: "char \<Rightarrow> bool" where
  "tag_byte c \<longleftrightarrow> (CHR ''a'' \<le> c \<and> c \<le> CHR ''z'') \<or> (CHR ''A'' \<le> c \<and> c \<le> CHR ''Z'') \<or> (CHR ''0'' \<le> c \<and> c \<le> CHR ''9'') \<or> c = CHR ''-''"

lemma skip_to_length: "skip_to q s = Some r \<Longrightarrow> length r < length s"
  by (induction q s rule: skip_to.induct) (auto split: if_splits)

function scan_line :: "string \<Rightarrow> bool \<Rightarrow> bool \<Rightarrow> bool" where
  "scan_line s terminated after_literal =
     (case s of [] \<Rightarrow> terminated \<and> \<not> after_literal | c # s \<Rightarrow>
        if line_space c then scan_line s terminated after_literal
        else if c = CHR ''#'' then terminated \<and> \<not> after_literal
        else if terminated then False
        else if c = CHR ''<'' then
          (case skip_to (CHR ''>'') s of None \<Rightarrow> False | Some r \<Rightarrow> scan_line r terminated False)
        else if c = CHR ''_'' \<and> take 1 s = '':'' then scan_line (dropWhile label_byte (drop 1 s)) terminated False
        else if c = CHR 0x22 \<or> c = CHR 0x27 then
          (if take 2 s = [c, c] then False
           else (case skip_to c s of None \<Rightarrow> False | Some r \<Rightarrow> scan_line r terminated True))
        else if c = CHR ''@'' \<and> after_literal then
          (if takeWhile tag_byte s = [] then False else scan_line (dropWhile tag_byte s) terminated False)
        else if c = CHR ''^'' \<and> after_literal \<and> take 1 s = ''^'' then
          (let r = dropWhile (\<lambda>c. c = CHR '' '' \<or> c = CHR 0x09) (drop 1 s) in
           if take 1 r = ''<'' then scan_line r terminated False else False)
        else if c = CHR ''.'' then scan_line s True False
        else False)"
  by pat_completeness auto
termination
proof (relation "measure (\<lambda>(s, t, l). length s)", goal_cases)
  case 1 then show ?case by simp
next
  case 2 then show ?case by simp
next
  case (3 s t l x xs x2) then show ?case by (auto dest!: skip_to_length)
next
  case (4 s t l x xs) then show ?case using length_dropWhile_le[of label_byte "drop 1 xs"] by simp
next
  case (5 s t l x xs x2) then show ?case by (auto dest!: skip_to_length)
next
  case (6 s t l x xs) then show ?case using length_dropWhile_le[of tag_byte xs] by simp
next
  case (7 s t l x xs r)
  then show ?case using length_dropWhile_le[of "\<lambda>c. c = CHR '' '' \<or> c = CHR 0x09" "drop 1 xs"] by simp
next
  case 8 then show ?case by simp
qed

declare scan_line.simps [simp del]

lemma scan_line_Nil: "scan_line [] t l \<longleftrightarrow> t \<and> \<not> l" by (simp add: scan_line.simps)
lemmas scan_line_Cons = scan_line.simps[of "c # s" for c s, simplified]

definition line_is_bare_ntriples :: "string \<Rightarrow> bool" where
  "line_is_bare_ntriples l = scan_line l False False"

section \<open>The sample\<close>

fun sniff_lines :: "string list \<Rightarrow> nat \<Rightarrow> bool \<Rightarrow> bool" where
  "sniff_lines [] inspected saw = saw"
| "sniff_lines (l # ls) inspected saw =
     (let t = trim l in
      if t = [] \<or> hd t = CHR ''#'' then sniff_lines ls inspected saw
      else if SNIFF_MAX_LINES < inspected + 1 then saw
      else if \<not> line_is_bare_ntriples t then False
      else sniff_lines ls (inspected + 1) True)"

definition sniff_is_ntriples :: "string \<Rightarrow> bool" where
  "sniff_is_ntriples sample =
     (let text = from_utf8_lossy sample;
          ends_clean = (text \<noteq> [] \<and> last text = LF);
          lines = str_lines text;
          lines = (if \<not> ends_clean \<and> 1 < length lines then butlast lines else lines)
      in sniff_lines lines 0 False)"

text \<open>A file that cannot be read is \<open>None\<close>.\<close>

definition file_sniffs_as_ntriples :: "string option \<Rightarrow> bool option" where
  "file_sniffs_as_ntriples file = map_option (\<lambda>content. sniff_is_ntriples (take SNIFF_SAMPLE_BYTES content)) file"
section \<open>What the exporter writes sniffs as N-Triples\<close>

text \<open>Terms the scanner reads as a unit: no escape in an IRI, no dot in a blank-node label, a plain language tag.\<close>

fun sniffable :: "cterm \<Rightarrow> bool" where
  "sniffable (Iri i) \<longleftrightarrow> CHR ''>'' \<notin> set i \<and> BSL \<notin> set i \<and> LF \<notin> set i"
| "sniffable (BNode b) \<longleftrightarrow> list_all label_byte b"
| "sniffable (Lit v dt lang) \<longleftrightarrow>
     (case lang of Some l \<Rightarrow> l \<noteq> [] \<and> list_all tag_byte l
      | None \<Rightarrow> (case dt of None \<Rightarrow> True | Some d \<Rightarrow> CHR ''>'' \<notin> set d \<and> BSL \<notin> set d \<and> LF \<notin> set d))"

fun sniffable_triple :: "triple \<Rightarrow> bool" where
  "sniffable_triple (s, p, o') \<longleftrightarrow>
     sniffable s \<and> sniffable p \<and> sniffable o' \<and> (case p of Iri i \<Rightarrow> True | _ \<Rightarrow> False) \<and> (case s of Lit v dt l \<Rightarrow> False | _ \<Rightarrow> True)"

lemma skip_to_plain:
  "q \<notin> set i \<Longrightarrow> BSL \<notin> set i \<Longrightarrow> q \<noteq> BSL \<Longrightarrow> skip_to q (i @ q # r) = Some r"
proof (induction i)
  case Nil then show ?case by (cases r) auto
next
  case (Cons c i)
  then show ?case by (cases "i @ q # r") auto
qed

lemma skip_to_skip: "c \<noteq> q \<Longrightarrow> c \<noteq> BSL \<Longrightarrow> skip_to q (c # d # r) = skip_to q (d # r)" by simp

lemma skip_to_escaped: "skip_to (CHR 0x22) (nt_escape v @ CHR 0x22 # r) = Some r"
proof (induction v)
  case Nil then show ?case by (cases r) (auto simp: BSL_def)
next
  case (Cons c v)
  obtain d s where ds: "nt_escape v @ CHR 0x22 # r = d # s" by (cases "nt_escape v @ CHR 0x22 # r") auto
  show ?case
    using Cons.IH unfolding nt_escape.simps append.assoc ds
    by (auto simp: esc_char_def BSL_def)
qed

lemma nt_escape_first: "take 2 (nt_escape v @ CHR 0x22 # c # r) = [CHR 0x22, CHR 0x22] \<Longrightarrow> c = CHR 0x22"
  by (cases v) (auto simp: esc_char_def split: if_splits)

lemma scan_space: "scan_line (CHR '' '' # s) t l = scan_line s t l"
  by (simp add: scan_line_Cons line_space_def)

lemma scan_iri: "CHR ''>'' \<notin> set i \<Longrightarrow> BSL \<notin> set i \<Longrightarrow> scan_line (CHR ''<'' # i @ CHR ''>'' # r) False l = scan_line r False False"
  by (simp add: scan_line_Cons line_space_def skip_to_plain BSL_def)

lemma scan_bnode: "list_all label_byte b \<Longrightarrow> scan_line (CHR ''_'' # CHR '':'' # b @ CHR '' '' # r) False l = scan_line (CHR '' '' # r) False False"
proof -
  assume "list_all label_byte b"
  then have "dropWhile label_byte (b @ CHR '' '' # r) = CHR '' '' # r"
    by (induction b) (auto simp: label_byte_def)
  then show ?thesis by (simp add: scan_line_Cons[of _ "CHR '':'' # b @ CHR '' '' # r"] line_space_def)
qed

lemma scan_quoted:
  "c \<noteq> CHR 0x22 \<Longrightarrow> scan_line (CHR 0x22 # nt_escape v @ CHR 0x22 # c # r) False l = scan_line (c # r) False True"
  using nt_escape_first[of v c r] by (auto simp: scan_line_Cons[of "CHR 0x22"] line_space_def skip_to_escaped)

lemma scan_tag:
  "t \<noteq> [] \<Longrightarrow> list_all tag_byte t \<Longrightarrow> scan_line (CHR ''@'' # t @ CHR '' '' # r) False True = scan_line (CHR '' '' # r) False False"
proof -
  assume t: "t \<noteq> []" "list_all tag_byte t"
  have "\<not> tag_byte (CHR '' '')" by code_simp
  with t(2) have "takeWhile tag_byte (t @ CHR '' '' # r) = t" "dropWhile tag_byte (t @ CHR '' '' # r) = CHR '' '' # r"
    by (induction t) auto
  with t(1) show ?thesis by (simp add: scan_line_Cons[of "CHR ''@''"] line_space_def)
qed

lemma scan_datatype: "scan_line (CHR ''^'' # CHR ''^'' # CHR ''<'' # r) False True = scan_line (CHR ''<'' # r) False False"
  by (simp add: scan_line_Cons[of "CHR ''^''"] line_space_def)

lemma scan_term: "sniffable t \<Longrightarrow> scan_line (export_term t @ CHR '' '' # r) False l = scan_line (CHR '' '' # r) False (case t of Lit v dt lang \<Rightarrow> lang = None \<and> (dt = None \<or> dt = Some xsd_string) | _ \<Rightarrow> False)"
  by (cases t)
    (auto simp: export_term_eq scan_iri scan_bnode scan_quoted scan_tag scan_datatype simp del: export_term.simps split: option.splits)

lemma scan_dot: "scan_line (CHR '' '' # [CHR ''.'']) False l"
  by (simp add: scan_line_Cons scan_line_Nil line_space_def)

lemma line_accepted: "sniffable_triple t \<Longrightarrow> line_is_bare_ntriples (export_line t)"
proof -
  assume t: "sniffable_triple t"
  obtain s i o' where s: "t = (s, Iri i, o')" using t by (cases t) (auto split: cterm.splits)
  have "scan_line (export_line t) False False =
      scan_line (CHR '' '' # CHR ''<'' # i @ CHR ''>'' # CHR '' '' # export_term o' @ [CHR '' '', CHR ''.'']) False False"
    using t scan_term[of s "CHR ''<'' # i @ CHR ''>'' # CHR '' '' # export_term o' @ [CHR '' '', CHR ''.'']" False]
    unfolding s by (cases s) (simp_all del: export_term.simps add: export_term.simps(1))
  also have "\<dots> = scan_line (export_term o' @ [CHR '' '', CHR ''.'']) False False"
    using t unfolding s by (simp add: scan_space scan_iri)
  finally show ?thesis
    using t scan_term[of o' "[CHR ''.'']" False] scan_dot unfolding s line_is_bare_ntriples_def by simp
qed

lemma line_shape:
  assumes "sniffable_triple t"
  shows "export_line t \<noteq> []" "last (export_line t) = CHR ''.''" "hd (export_line t) \<in> {CHR ''<'', CHR ''_''}" "LF \<notin> set (export_line t)"
proof -
  obtain s i o' where s: "t = (s, Iri i, o')" using assms by (cases t) (auto split: cterm.splits)
  have esc: "LF \<notin> set (nt_escape v)" for v using nt_escape_no_newline by (simp add: LF_def)
  have lab: "\<not> label_byte LF" "\<not> tag_byte LF" by code_simp+
  have nolf: "sniffable x \<Longrightarrow> LF \<notin> set (export_term x)" for x
    using esc lab by (cases x) (auto simp: export_term_eq list_all_iff LF_def simp del: export_term.simps split: option.splits)
  show "export_line t \<noteq> []" "last (export_line t) = CHR ''.''" unfolding s by simp_all
  show "hd (export_line t) \<in> {CHR ''<'', CHR ''_''}" using assms unfolding s by (cases s) auto
  show "LF \<notin> set (export_line t)" using assms nolf unfolding s by (auto simp: LF_def simp del: export_term.simps)
qed

text \<open>Trimming leaves such a line alone.\<close>

lemma ws_bytes_dot:
  assumes "s \<noteq> []" "ws_bytes s \<noteq> 0" "length s \<le> ws_bytes s"
  shows "last s \<noteq> CHR ''.''"
proof
  assume l: "last s = CHR ''.''"
  have "length s = 1 \<or> length s = 2 \<or> length s = 3"
    using assms by (cases s) (auto simp: ws_bytes_def Let_def split: if_splits)
  then consider c where "s = [c]" | c d where "s = [c, d]" | c d e where "s = [c, d, e]"
    by (auto simp: length_Suc_conv eval_nat_numeral)
  then show False using assms l by cases (auto simp: ws_bytes_def Let_def split: if_splits)
qed

lemma blank_no_dot: "blank s \<Longrightarrow> s \<noteq> [] \<Longrightarrow> last s \<noteq> CHR ''.''"
proof (induction s rule: blank.induct)
  case (1 s)
  then have w: "ws_bytes s \<noteq> 0" and b: "blank (drop (ws_bytes s) s)" by (auto simp: blank.simps[of s] split: if_splits)
  show ?case
  proof (cases "length s \<le> ws_bytes s")
    case True with ws_bytes_dot[OF 1(3) w] show ?thesis .
  next
    case False then show ?thesis using 1(1)[OF 1(3) w b] by (simp add: last_drop)
  qed
qed

lemma trim_end_dot: "last s = CHR ''.'' \<Longrightarrow> s \<noteq> [] \<Longrightarrow> trim_end s = s"
proof (induction s)
  case (Cons c s)
  then show ?case using blank_no_dot[of "c # s"] by (cases "s = []") auto
qed simp

lemma trim_line: "sniffable_triple t \<Longrightarrow> trim (export_line t) = export_line t"
proof -
  assume t: "sniffable_triple t"
  note sh = line_shape[OF t]
  have w: "c \<in> {CHR ''<'', CHR ''_''} \<Longrightarrow> ws_bytes (c # s) = 0" for c s
    unfolding ws_bytes_def Let_def by (elim insertE emptyE) simp_all
  have "ws_bytes (export_line t) = 0"
    using w[OF sh(3), of "tl (export_line t)"] sh(1) by (metis list.collapse)
  then have "trim_start (export_line t) = export_line t" by (rule trim_start.simps[THEN trans, OF if_P, OF disjI2])
  then show ?thesis unfolding trim_def using trim_end_dot[OF sh(2,1)] by simp
qed

text \<open>Decoding valid text does not look past its end.\<close>

lemma byte_at_append: "i < length a \<Longrightarrow> byte_at (a @ p) i = byte_at a i"
  by (simp add: byte_at_def nth_append)

lemma utf8_step_append:
  assumes "a \<noteq> []" "utf8_step a = (n, True)"
  shows "utf8_step (a @ p) = (n, True) \<and> n \<le> length a"
proof -
  have c0: "\<not> cont_byte 0" by code_simp
  have b: "byte_at a i = 0" if "length a \<le> i" for i using that by (simp add: byte_at_def)
  have z: "byte_at a i \<noteq> 0 \<Longrightarrow> byte_at (a @ p) i = byte_at a i \<and> i < length a" for i
    using byte_at_append[of i a p] b[of i] by fastforce
  have zc: "cont_byte (byte_at a i) \<Longrightarrow> byte_at (a @ p) i = byte_at a i \<and> i < length a" for i
    using z[of i] c0 by metis
  have z0: "byte_at (a @ p) 0 = byte_at a 0" "a \<noteq> []" "0 < length a" using assms(1) byte_at_append[of 0 a p] by auto
  show ?thesis
    using assms(2) z0 zc[of 1] zc[of 2] zc[of 3] z[of 1]
    unfolding utf8_step_def Let_def z0
    by (auto simp: Suc_le_eq split: if_splits)
qed

lemma valid_decode: "valid_utf8 a \<Longrightarrow> from_utf8_lossy (a @ p) = a @ from_utf8_lossy p"
proof (induction a rule: valid_utf8.induct)
  case (1 a)
  show ?case
  proof (cases "a = []")
    case False
    obtain n ok where n: "utf8_step a = (n, ok)" by fastforce
    with False 1(2) have ok: ok "valid_utf8 (drop n a)" by (simp_all add: valid_utf8.simps[of a])
    have s: "utf8_step (a @ p) = (n, True)" "n \<le> length a" using utf8_step_append[OF False] n ok by auto
    from 1(1)[OF False n[symmetric] ok(2)] s False show ?thesis
      by (simp add: from_utf8_lossy.simps[of "a @ p"])
  qed simp
qed

lemma valid_append: "valid_utf8 a \<Longrightarrow> valid_utf8 b \<Longrightarrow> valid_utf8 (a @ b)"
proof (induction a rule: valid_utf8.induct)
  case (1 a)
  show ?case
  proof (cases "a = []")
    case False
    obtain n ok where n: "utf8_step a = (n, ok)" by fastforce
    with False 1(2) have ok: ok "valid_utf8 (drop n a)" by (simp_all add: valid_utf8.simps[of a])
    have s: "utf8_step (a @ b) = (n, True)" "n \<le> length a" using utf8_step_append[OF False] n ok by auto
    from 1(1)[OF False n[symmetric] ok(2) 1(3)] s False show ?thesis
      by (simp add: valid_utf8.simps[of "a @ b"])
  qed (simp add: 1(3))
qed

lemma decode_no_newline: "LF \<notin> set p \<Longrightarrow> LF \<notin> set (from_utf8_lossy p)"
proof (induction p rule: from_utf8_lossy.induct)
  case (1 s)
  obtain n ok where n: "utf8_step s = (n, ok)" by fastforce
  show ?case
  proof (cases "s = []")
    case False
    have "LF \<notin> set (drop n s)" "LF \<notin> set (take n s)" using 1(2) in_set_dropD in_set_takeD by fast+
    with 1(1)[OF False n[symmetric]] n False show ?thesis
      by (auto simp: from_utf8_lossy.simps[of s] LF_def)
  qed (simp add: from_utf8_lossy.simps)
qed

section \<open>The sample of a document of whole lines\<close>

definition document :: "string list \<Rightarrow> string" where
  "document ls = concat (map (\<lambda>l. l @ [LF]) ls)"

lemma document_simps [simp]: "document [] = []" "document (l # ls) = l @ LF # document ls"
  by (simp_all add: document_def)

lemma document_end: "document ls = [] \<or> last (document ls) = LF"
proof (induction ls)
  case (Cons l ls) then show ?case by (cases "document ls = []") auto
qed simp

lemma document_split:
  "\<exists>k p. take n (document ls) = document (take k ls) @ p \<and> k \<le> length ls \<and> (p \<noteq> [] \<longrightarrow> k < length ls \<and> p = take (length p) (ls ! k))
     \<and> (ls \<noteq> [] \<and> length (hd ls) < n \<longrightarrow> 0 < k)"
proof (induction ls arbitrary: n)
  case Nil then show ?case by simp
next
  case (Cons l ls)
  show ?case
  proof (cases "length l < n")
    case True
    then obtain m where n: "n = Suc (length l + m)" using less_iff_Suc_add by auto
    from Cons.IH[of m] obtain k p where k: "take m (document ls) = document (take k ls) @ p" "k \<le> length ls"
      "p \<noteq> [] \<longrightarrow> k < length ls \<and> p = take (length p) (ls ! k)" by blast
    show ?thesis
    proof (intro exI conjI impI)
      show "take n (document (l # ls)) = document (take (Suc k) (l # ls)) @ p" by (simp add: n k(1))
    qed (use k(2,3) in auto)
  next
    case False
    show ?thesis
    proof (intro exI conjI impI)
      show "take n (document (l # ls)) = document (take 0 (l # ls)) @ take n l" using False by simp
      show "take n l = take (length (take n l)) ((l # ls) ! 0)" using False by simp
    qed (use False in auto)
  qed
qed

lemma document_lines: "\<forall>l \<in> set ls. LF \<notin> set l \<Longrightarrow> split_lines (document ls) = map (\<lambda>l. l @ [LF]) ls"
  by (induction ls) (auto simp: split_lines_line)

lemma document_valid: "\<forall>l \<in> set ls. valid_utf8 l \<Longrightarrow> valid_utf8 (document ls)"
proof (induction ls)
  case (Cons l ls)
  have "valid_utf8 [LF]" by code_simp
  then show ?case using Cons valid_append[of "[LF]" "document ls"] valid_append[of l "LF # document ls"] by simp
qed (simp add: valid_utf8.simps)

lemma sniff_lines_accept:
  "\<forall>l \<in> set ls. trim l = l \<and> l \<noteq> [] \<and> hd l \<noteq> CHR ''#'' \<and> line_is_bare_ntriples l \<Longrightarrow> saw \<or> (ls \<noteq> [] \<and> n < SNIFF_MAX_LINES) \<Longrightarrow>
     sniff_lines ls n saw"
  by (induction ls n saw rule: sniff_lines.induct) (auto simp: Let_def)

lemma sniff_document:
  assumes acc: "\<forall>l \<in> set ls. trim l = l \<and> l \<noteq> [] \<and> hd l \<noteq> CHR ''#'' \<and> line_is_bare_ntriples l"
    and ok: "\<forall>l \<in> set ls. valid_utf8 l \<and> LF \<notin> set l \<and> last l \<noteq> CHR 0x0D"
    and ne: "ls \<noteq> []" "length (hd ls) < n"
  shows "sniff_is_ntriples (take n (document ls))"
proof -
  obtain k p where k: "take n (document ls) = document (take k ls) @ p" "k \<le> length ls"
    "p \<noteq> [] \<longrightarrow> k < length ls \<and> p = take (length p) (ls ! k)" "0 < k"
    using document_split[of n ls] ne by blast
  define A where "A = take k ls"
  have A: "A \<noteq> []" "set A \<subseteq> set ls" using k(4) ne(1) by (auto simp: A_def dest: in_set_takeD)
  have lfp: "LF \<notin> set p"
    using k(3) ok by (metis in_set_takeD nth_mem length_greater_0_conv empty_iff list.set(1))
  define q where "q = from_utf8_lossy p"
  have decoded: "from_utf8_lossy (take n (document ls)) = document A @ q"
    unfolding k(1) A_def[symmetric] q_def
    by (intro valid_decode document_valid ballI) (use ok A in blast)
  have lfq: "LF \<notin> set q" unfolding q_def by (rule decode_no_newline[OF lfp])
  have "split_lines (document A @ q) = map (\<lambda>l. l @ [LF]) A @ split_lines q"
    using split_lines_append[OF document_end] document_lines[of A] ok A(2) by auto
  moreover have "split_lines q = (if q = [] then [] else [q])" using lfq by (simp add: split_lines.simps)
  moreover have "map strip_eol (map (\<lambda>l. l @ [LF]) A) = A"
    using ok acc A(2) by (intro map_idI[THEN trans[OF map_map]]) (auto simp: strip_eol_def Let_def)
  moreover have "strip_eol q = q" using lfq last_in_set[of q] by (metis strip_eol_def)
  ultimately have lines: "str_lines (document A @ q) = A @ (if q = [] then [] else [q])"
    unfolding str_lines_def by simp
  have dA: "document A \<noteq> []" "last (document A) = LF" using A(1) document_end[of A] by (cases A; auto)+
  have "(if \<not> (document A @ q \<noteq> [] \<and> last (document A @ q) = LF) \<and> 1 < length (str_lines (document A @ q))
      then butlast (str_lines (document A @ q)) else str_lines (document A @ q)) = A"
  proof (cases "q = []")
    case False
    then have "last q \<noteq> LF" using lfq last_in_set by metis
    with False show ?thesis unfolding lines using A(1) by (simp add: butlast_append)
  qed (use dA lines in simp)
  moreover have "sniff_lines A 0 False"
    using acc A by (intro sniff_lines_accept) (auto simp: SNIFF_MAX_LINES_def)
  ultimately show ?thesis unfolding sniff_is_ntriples_def decoded Let_def by simp
qed

text \<open>C32: A document the exporter writes is recognised as N-Triples, also when the sample cuts it in
  the middle of a line or of a character: provided the first line fits the sample, no term uses an
  escape inside an IRI, a dot in a blank-node label or a tag outside letters, digits and hyphens.
\<close>

theorem export_sniffs:
  assumes "ts \<noteq> []" "list_all sniffable_triple ts" "list_all (\<lambda>t. valid_utf8 (export_line t)) ts"
    and "length (hd (export_lines ts)) < SNIFF_SAMPLE_BYTES"
  shows "file_sniffs_as_ntriples (Some (document (export_lines ts))) = Some True"
proof -
  have "sniff_is_ntriples (take SNIFF_SAMPLE_BYTES (document (export_lines ts)))"
  proof (rule sniff_document[OF _ _ _ assms(4)])
    have s: "l \<in> set (export_lines ts) \<Longrightarrow> \<exists>t \<in> set ts. l = export_line t" for l by (auto simp: export_lines_def)
    show "\<forall>l \<in> set (export_lines ts). trim l = l \<and> l \<noteq> [] \<and> hd l \<noteq> CHR ''#'' \<and> line_is_bare_ntriples l"
    proof
      fix l assume "l \<in> set (export_lines ts)"
      with s obtain t where t: "t \<in> set ts" "l = export_line t" by blast
      with assms(2) have st: "sniffable_triple t" by (simp add: list_all_iff)
      from line_shape(3)[OF st] have "hd l \<noteq> CHR ''#''" unfolding t(2) by auto
      with trim_line[OF st] line_shape(1)[OF st] line_accepted[OF st]
      show "trim l = l \<and> l \<noteq> [] \<and> hd l \<noteq> CHR ''#'' \<and> line_is_bare_ntriples l" unfolding t(2) by blast
    qed
    show "\<forall>l \<in> set (export_lines ts). valid_utf8 l \<and> LF \<notin> set l \<and> last l \<noteq> CHR 0x0D"
    proof
      fix l assume "l \<in> set (export_lines ts)"
      with s obtain t where "t \<in> set ts" "l = export_line t" by blast
      with assms(2,3) line_shape(2,4)[of t] show "valid_utf8 l \<and> LF \<notin> set l \<and> last l \<noteq> CHR 0x0D"
        unfolding list_all_iff by (simp del: export_line.simps)
    qed
    show "export_lines ts \<noteq> []" using assms(1) by (simp add: export_lines_def flip: set_empty)
  qed
  then show ?thesis by (simp add: file_sniffs_as_ntriples_def)
qed

definition sniff_sample :: "triple list" where
  "sniff_sample =
     [(Iri ''http://a/s'', Iri ''http://a/p'', Lit ''1; 2, [x]'' None None), (BNode ''b0'', Iri ''http://a/p'', Lit ''x'' None (Some ''en''))]"

theorem export_sniffs_witness: "file_sniffs_as_ntriples (Some (document (export_lines sniff_sample))) = Some True"
proof -
  have "sniff_sample \<noteq> []" "list_all sniffable_triple sniff_sample"
    "list_all (\<lambda>t. valid_utf8 (export_line t)) sniff_sample" "length (hd (export_lines sniff_sample)) < 64"
    by code_simp+
  then show ?thesis by (intro export_sniffs) (simp_all add: SNIFF_SAMPLE_BYTES_def)
qed

text \<open>
  The gate also lets lines through that are not N-Triples: a fourth term, a quoted literal in
  apostrophes, a space before the language tag; and a Turtle document after the sample.
\<close>

lemma sniff_accepts_more:
  "line_is_bare_ntriples ''<a> <b> <c> <g> .''" "line_is_bare_ntriples ([CHR ''<'', CHR ''a'', CHR ''>'', CHR '' '', CHR ''<'', CHR ''b'', CHR ''>'', CHR 0x27, CHR ''x'', CHR 0x27, CHR ''.''])"
  "line_is_bare_ntriples (''<a> <b> '' @ [CHR 0x22, CHR ''x'', CHR 0x22] @ '' @en .'')"
  by code_simp+

end
