(* ===== verification/Ingest.thy ===== *)
theory Ingest
  imports Graph_Read
begin

text \<open>
  The Turtle loaders of \<open>src/storage/loader.rs\<close> that go through the shared dictionary: the
  baseline loop (one \<open>put_term_full\<close> per term), the two-pass batched route, the combined route
  (hash map, shared cache, defer queue) and the dispatch over them. oxttl is the parameter
  \<open>turtle\<close>: for a base IRI and a text it gives the parse results in order, \<open>None\<close> standing for a
  syntax error, or \<open>None\<close> as a whole if the base IRI is invalid. The iteration order of the
  loader's hash sets is the parameter \<open>hs\<close>. The three column vectors of a quad batch are one list of
  id triples; the prepared statement that writes them is reused through \<open>plan_cache.rs\<close>, which
  does not change what it does. Timers are not modelled.
\<close>

section \<open>Terms as the parser gives them\<close>

datatype named_or_blank = NamedNode string | BlankNode string
datatype ox_term = NodeTerm named_or_blank | Literal string "string option" string
  \<comment> \<open>val, language, datatype\<close>

type_synonym ox_triple = "named_or_blank \<times> string \<times> ox_term"
type_synonym turtle_parser = "string option \<Rightarrow> string \<Rightarrow> ox_triple option list option"

fun as_node :: "named_or_blank \<Rightarrow> cterm" where
  "as_node (NamedNode i) = Iri i"
| "as_node (BlankNode l) = BNode l"

text \<open>The triple a parse result denotes; a language-tagged literal stores no datatype.\<close>

fun as_term :: "ox_term \<Rightarrow> cterm" where
  "as_term (NodeTerm n) = as_node n"
| "as_term (Literal v (Some l) dt) = Lit v None (Some l)"
| "as_term (Literal v None dt) = Lit v (Some dt) None"

fun as_triple :: "ox_triple \<Rightarrow> triple" where
  "as_triple (s, p, t) = (as_node s, Iri p, as_term t)"

section \<open>The state of a load\<close>

definition BATCH_SIZE :: nat where "BATCH_SIZE = 1000"

record loader_stats =
  n_triples :: int
  n_parse_skipped :: int
  n_cache_hits :: int        \<comment> \<open>dict_cache_hits\<close>
  n_shmem_hits :: int        \<comment> \<open>shmem_cache_hits\<close>
  n_db_calls :: int          \<comment> \<open>dict_db_calls\<close>
  n_quad_batches :: int
  n_windows :: int
  n_dict_terms :: int
  st_defer_index :: bool
  st_path :: string

definition zero_stats :: loader_stats where
  "zero_stats = \<lparr>n_triples = 0, n_parse_skipped = 0, n_cache_hits = 0, n_shmem_hits = 0,
                 n_db_calls = 0, n_quad_batches = 0, n_windows = 0, n_dict_terms = 0,
                 st_defer_index = False, st_path = []\<rparr>"

record loader =
  hm :: "dict_key \<Rightarrow> int option"    \<comment> \<open>the per-call HashMap\<close>
  lworld :: world
  lstore :: store
  lstats :: loader_stats

definition start_load :: "world \<Rightarrow> store \<Rightarrow> loader" where
  "start_load w st = \<lparr>hm = Map.empty, lworld = w, lstore = st, lstats = zero_stats\<rparr>"

definition tick :: "(loader_stats \<Rightarrow> loader_stats) \<Rightarrow> loader \<Rightarrow> loader" where
  "tick f st = st\<lparr>lstats := f (lstats st)\<rparr>"

definition hit_cache :: "loader_stats \<Rightarrow> loader_stats" where
  "hit_cache s = s\<lparr>n_cache_hits := n_cache_hits s + 1\<rparr>"

definition hit_shmem :: "loader_stats \<Rightarrow> loader_stats" where
  "hit_shmem s = s\<lparr>n_shmem_hits := n_shmem_hits s + 1\<rparr>"

definition call_db :: "int \<Rightarrow> loader_stats \<Rightarrow> loader_stats" where
  "call_db n s = s\<lparr>n_db_calls := n_db_calls s + n\<rparr>"

definition count_triple :: "loader_stats \<Rightarrow> loader_stats" where
  "count_triple s = s\<lparr>n_triples := n_triples s + 1\<rparr>"

definition count_batch :: "loader_stats \<Rightarrow> loader_stats" where
  "count_batch s = s\<lparr>n_quad_batches := n_quad_batches s + 1\<rparr>"

section \<open>Interning\<close>

text \<open>\<open>HITS\<close>, zero while the shared memory is not set up.\<close>

definition shmem_hits :: "world \<Rightarrow> u64" where
  "shmem_hits w = (if ready (cache w) then hits (cache w) else 0)"

definition intern_term :: "hasher \<Rightarrow> nat \<Rightarrow> dict_key \<Rightarrow> loader \<Rightarrow> int \<times> loader" where
  "intern_term hasher b k st =
     (case hm st k of
        Some i \<Rightarrow> (i, tick hit_cache st)
      | None \<Rightarrow>
          (let hits_before = shmem_hits (lworld st);
               (i, w) = put_term_full hasher b k (lworld st);
               hits_after = shmem_hits w
           in (i, tick (if hits_before < hits_after then hit_shmem else call_db 1)
                    (st\<lparr>lworld := w, hm := (hm st)(k \<mapsto> i)\<rparr>))))"

fun node_key :: "named_or_blank \<Rightarrow> dict_key" where
  "node_key (NamedNode i) = (1, i, None, None)"
| "node_key (BlankNode l) = (2, l, None, None)"

definition iri_key :: "string \<Rightarrow> dict_key" where
  "iri_key i = (1, i, None, None)"

definition subject_to_id :: "(dict_key \<Rightarrow> 's \<Rightarrow> int \<times> 's) \<Rightarrow> named_or_blank \<Rightarrow> 's \<Rightarrow> int \<times> 's" where
  "subject_to_id intern s st = intern (node_key s) st"

fun object_to_id :: "(dict_key \<Rightarrow> 's \<Rightarrow> int \<times> 's) \<Rightarrow> ox_term \<Rightarrow> 's \<Rightarrow> int \<times> 's" where
  "object_to_id intern (NodeTerm n) st = intern (node_key n) st"
| "object_to_id intern (Literal v (Some l) dt) st = intern (3, v, None, Some l) st"
| "object_to_id intern (Literal v None dt) st =
     (let (d, st) = intern (iri_key dt) st in intern (3, v, Some d, None) st)"

definition triple_to_ids ::
    "(dict_key \<Rightarrow> 's \<Rightarrow> int \<times> 's) \<Rightarrow> ox_triple \<Rightarrow> 's \<Rightarrow> (int \<times> int \<times> int) \<times> 's" where
  "triple_to_ids intern t st =
     (case t of (s, p, ob) \<Rightarrow>
        (let (si, st) = subject_to_id intern s st;
             (pi, st) = intern (iri_key p) st;
             (oi, st) = object_to_id intern ob st
         in ((si, pi, oi), st)))"

section \<open>Writing quads\<close>

definition asserted_quad :: "int \<Rightarrow> int \<times> int \<times> int \<Rightarrow> quad" where
  "asserted_quad g ids = (case ids of (s, p, ob) \<Rightarrow> \<lparr>qs = s, qp = p, qo = ob, qg = g, qinf = False\<rparr>)"

definition flush_batch :: "int \<Rightarrow> (int \<times> int \<times> int) list \<Rightarrow> loader \<Rightarrow> loader res" where
  "flush_batch g buf st =
     (if buf = [] then Inr st
      else res_bind (insert_quads (map (asserted_quad g) buf) (lstore st))
             (\<lambda>s. Inr (tick count_batch (st\<lparr>lstore := s\<rparr>))))"

section \<open>The baseline route\<close>

fun baseline_loop ::
    "hasher \<Rightarrow> nat \<Rightarrow> int \<Rightarrow> ox_triple option list \<Rightarrow> (int \<times> int \<times> int) list \<Rightarrow> loader \<Rightarrow> loader res" where
  "baseline_loop hasher b g [] buf st = flush_batch g buf st"
| "baseline_loop hasher b g (None # items) buf st = Inl Internal_Error"
| "baseline_loop hasher b g (Some t # items) buf st =
     (let (ids, st) = triple_to_ids (intern_term hasher b) t st;
          buf = buf @ [ids]; st = tick count_triple st
      in if BATCH_SIZE \<le> length buf
         then res_bind (flush_batch g buf st) (baseline_loop hasher b g items [])
         else baseline_loop hasher b g items buf st)"

definition ingest_turtle_with_stats ::
    "hasher \<Rightarrow> nat \<Rightarrow> turtle_parser \<Rightarrow> string \<Rightarrow> int \<Rightarrow> string option \<Rightarrow> world \<Rightarrow> store \<Rightarrow> loader res" where
  "ingest_turtle_with_stats hasher b turtle content g base w st =
     (case turtle base content of
        None \<Rightarrow> Inl Invalid_Parameter_Value
      | Some items \<Rightarrow> baseline_loop hasher b g items [] (start_load w st))"

section \<open>The batched route\<close>

text \<open>\<open>slice::chunks\<close>, which panics on a zero size: the routes are called with a positive one.\<close>

function chunks :: "nat \<Rightarrow> 'a list \<Rightarrow> 'a list list" where
  "chunks n xs = (if n = 0 \<or> xs = [] then [] else take n xs # chunks n (drop n xs))"
  by pat_completeness auto
termination by (relation "measure (\<lambda>(n, xs). length xs)") auto

declare chunks.simps [simp del]

text \<open>Pass 1: the parsed triples, a syntax error being a panic, and the set of their terms.\<close>

fun literal_terms :: "ox_term \<Rightarrow> dict_key list" where
  "literal_terms (NodeTerm n) = [node_key n]"
| "literal_terms (Literal v lang dt) = [(3, v, None, lang)]"

definition unique_terms :: "ox_triple list \<Rightarrow> dict_key list" where
  "unique_terms ts =
     remdups (concat (map (\<lambda>(s, p, t). node_key s # iri_key p # literal_terms t) ts))"

fun plain_datatype :: "ox_term \<Rightarrow> string list" where
  "plain_datatype (Literal v None dt) = [dt]"
| "plain_datatype _ = []"

definition datatype_iris :: "ox_triple list \<Rightarrow> string list" where
  "datatype_iris ts = remdups (concat (map (\<lambda>(s, p, t). plain_datatype t) ts))"

definition learn :: "(dict_key \<times> int) list \<Rightarrow> (dict_key \<Rightarrow> int option) \<Rightarrow> dict_key \<Rightarrow> int option" where
  "learn kvs m = fold (\<lambda>(k, i) m. m(k \<mapsto> i)) kvs m"

definition resolve_chunk ::
    "nat \<Rightarrow> dict_key list \<Rightarrow> (dict_key \<Rightarrow> int option) \<times> world \<Rightarrow> (dict_key \<Rightarrow> int option) \<times> world" where
  "resolve_chunk b chunk mw =
     (case mw of (m, w) \<Rightarrow>
        (let (ids, w) = put_terms_batch b chunk w in (learn (zip chunk ids) m, w)))"

text \<open>The key of an object once the datatype IRIs have ids.\<close>

fun keyed_object :: "(dict_key \<Rightarrow> int option) \<Rightarrow> ox_term \<Rightarrow> dict_key" where
  "keyed_object dts (NodeTerm n) = node_key n"
| "keyed_object dts (Literal v (Some l) dt) = (3, v, None, Some l)"
| "keyed_object dts (Literal v None dt) = (3, v, dts (iri_key dt), None)"

fun is_literal :: "ox_term \<Rightarrow> bool" where
  "is_literal (NodeTerm n) = False"
| "is_literal (Literal v lang dt) = True"

definition full_terms :: "(dict_key \<Rightarrow> int option) \<Rightarrow> ox_triple list \<Rightarrow> dict_key list" where
  "full_terms dts ts =
     remdups (filter (\<lambda>k. fst k \<noteq> 3) (unique_terms ts)
              @ map iri_key (datatype_iris ts)
              @ map (\<lambda>(s, p, t). keyed_object dts t) (filter (\<lambda>(s, p, t). is_literal t) ts))"

text \<open>Pass 3: every term is looked up in the map; a miss is a panic.\<close>

definition look_up3 ::
    "(dict_key \<Rightarrow> int option) \<Rightarrow> dict_key \<times> dict_key \<times> dict_key \<Rightarrow> (int \<times> int \<times> int) option" where
  "look_up3 m ks =
     (case ks of (s, p, t) \<Rightarrow>
        (case (m s, m p, m t) of (Some i, Some j, Some k) \<Rightarrow> Some (i, j, k) | _ \<Rightarrow> None))"

fun batched_insert ::
    "int \<Rightarrow> (dict_key \<times> dict_key \<times> dict_key) list \<Rightarrow> (int \<times> int \<times> int) list \<Rightarrow> loader \<Rightarrow> loader res" where
  "batched_insert g [] buf st = flush_batch g buf st"
| "batched_insert g (ks # rest) buf st =
     (case look_up3 (hm st) ks of
        None \<Rightarrow> Inl Internal_Error
      | Some ids \<Rightarrow>
          (let buf = buf @ [ids] in
           if BATCH_SIZE \<le> length buf
           then res_bind (flush_batch g buf st) (batched_insert g rest [])
           else batched_insert g rest buf st))"

definition ingest_turtle_dict_batched ::
    "(dict_key list \<Rightarrow> dict_key list) \<Rightarrow> nat \<Rightarrow> turtle_parser \<Rightarrow> string \<Rightarrow> int \<Rightarrow> string option \<Rightarrow> nat
      \<Rightarrow> world \<Rightarrow> store \<Rightarrow> loader res" where
  "ingest_turtle_dict_batched hs b turtle content g base dict_batch_size w st =
     (case turtle base content of
        None \<Rightarrow> Inl Invalid_Parameter_Value
      | Some items \<Rightarrow>
          if None \<in> set items then Inl Internal_Error
          else
            (let ts = map the items;
                 (dts, w) = fold (resolve_chunk b)
                   (chunks dict_batch_size (hs (map iri_key (datatype_iris ts)))) (Map.empty, w);
                 unresolved = filter (\<lambda>k. dts k = None) (hs (full_terms dts ts));
                 cs = chunks dict_batch_size unresolved;
                 (m, w) = fold (resolve_chunk b) cs (dts, w);
                 stats = zero_stats\<lparr>n_triples := int (length ts), n_db_calls := 2 * int (length cs),
                           n_cache_hits := int (length ts) * 3 - int (length unresolved)\<rparr>
             in batched_insert g (map (\<lambda>(s, p, t). (node_key s, iri_key p, keyed_object dts t)) ts) []
                  \<lparr>hm = m, lworld = w, lstore = st, lstats = stats\<rparr>))"

section \<open>The combined route\<close>

definition try_resolve_or_defer ::
    "hasher \<Rightarrow> nat \<Rightarrow> dict_key \<Rightarrow> dict_key list \<times> loader \<Rightarrow> dict_key list \<times> loader" where
  "try_resolve_or_defer hasher b k dqst =
     (case dqst of (dq, st) \<Rightarrow>
        if hm st k \<noteq> None \<or> k \<in> set dq then (dq, tick hit_cache st)
        else
          (let w = lworld st in
           case lookup hasher (bdb (backends w b)) k (cache w) of
             (Some i, c) \<Rightarrow> (dq, tick hit_shmem (st\<lparr>lworld := w\<lparr>cache := c\<rparr>, hm := (hm st)(k \<mapsto> i)\<rparr>))
           | (None, c) \<Rightarrow> (dq @ [k], st\<lparr>lworld := w\<lparr>cache := c\<rparr>\<rparr>)))"

definition resolve_datatype_iri_sync :: "hasher \<Rightarrow> nat \<Rightarrow> dict_key \<Rightarrow> loader \<Rightarrow> int \<times> loader" where
  "resolve_datatype_iri_sync hasher b k st =
     (case hm st k of
        Some i \<Rightarrow> (i, tick hit_cache st)
      | None \<Rightarrow>
          (let w = lworld st in
           case lookup hasher (bdb (backends w b)) k (cache w) of
             (Some i, c) \<Rightarrow>
               (i, tick hit_shmem (st\<lparr>lworld := w\<lparr>cache := c\<rparr>, hm := (hm st)(k \<mapsto> i)\<rparr>))
           | (None, c) \<Rightarrow>
               (let w = w\<lparr>cache := c\<rparr>;
                    hits_before = shmem_hits w;
                    (i, w') = put_term_full hasher b k w;
                    hits_after = shmem_hits w'
                in (i, tick (if hits_before < hits_after then hit_shmem else call_db 1)
                         (st\<lparr>lworld := w', hm := (hm st)(k \<mapsto> i)\<rparr>)))))"

fun object_key :: "hasher \<Rightarrow> nat \<Rightarrow> ox_term \<Rightarrow> loader \<Rightarrow> dict_key \<times> loader" where
  "object_key hasher b (NodeTerm n) st = (node_key n, st)"
| "object_key hasher b (Literal v (Some l) dt) st = ((3, v, None, Some l), st)"
| "object_key hasher b (Literal v None dt) st =
     (let (d, st) = resolve_datatype_iri_sync hasher b (iri_key dt) st in ((3, v, Some d, None), st))"

definition publish :: "hasher \<Rightarrow> nat \<Rightarrow> dict_key \<times> int \<Rightarrow> loader \<Rightarrow> loader" where
  "publish hasher b ki st =
     st\<lparr>hm := (hm st)(fst ki \<mapsto> snd ki),
        lworld := stage_for_commit hasher b (fst ki) (snd ki) (lworld st)\<rparr>"

definition flush_defer :: "hasher \<Rightarrow> nat \<Rightarrow> dict_key list \<Rightarrow> loader \<Rightarrow> loader" where
  "flush_defer hasher b dq st =
     (if dq = [] then st
      else
        (let (ids, w) = put_terms_batch b dq (lworld st);
             st = fold (publish hasher b) (zip dq ids) (st\<lparr>lworld := w\<rparr>)
         in tick (call_db (int (length dq))) st))"

definition drain_pending ::
    "(dict_key \<Rightarrow> int option) \<Rightarrow> (dict_key \<times> dict_key \<times> dict_key) list \<Rightarrow> (int \<times> int \<times> int) list option" where
  "drain_pending m waiting =
     (if list_all (\<lambda>ks. look_up3 m ks \<noteq> None) waiting
      then Some (map (\<lambda>ks. the (look_up3 m ks)) waiting) else None)"

definition drain_and_flush ::
    "int \<Rightarrow> (dict_key \<times> dict_key \<times> dict_key) list \<Rightarrow> loader \<Rightarrow> loader res" where
  "drain_and_flush g waiting st =
     (case drain_pending (hm st) waiting of
        None \<Rightarrow> Inl Internal_Error
      | Some buf \<Rightarrow> flush_batch g buf st)"

definition defer_triple ::
    "hasher \<Rightarrow> nat \<Rightarrow> ox_triple \<Rightarrow> dict_key list \<times> loader
      \<Rightarrow> (dict_key \<times> dict_key \<times> dict_key) \<times> dict_key list \<times> loader" where
  "defer_triple hasher b t dqst =
     (case (t, dqst) of ((s, p, ob), (dq, st)) \<Rightarrow>
        (let s_key = node_key s; p_key = iri_key p;
             (o_key, st) = object_key hasher b ob st;
             (dq, st) = fold (try_resolve_or_defer hasher b) [s_key, p_key, o_key] (dq, st)
         in ((s_key, p_key, o_key), dq, tick count_triple st)))"

fun combined_loop ::
    "hasher \<Rightarrow> nat \<Rightarrow> nat \<Rightarrow> int \<Rightarrow> ox_triple option list \<Rightarrow> (dict_key \<times> dict_key \<times> dict_key) list
      \<Rightarrow> dict_key list \<Rightarrow> loader \<Rightarrow> loader res" where
  "combined_loop hasher b n g [] waiting dq st =
     (let st = flush_defer hasher b dq st in
      if waiting = [] then Inr st else drain_and_flush g waiting st)"
| "combined_loop hasher b n g (None # items) waiting dq st = Inl Internal_Error"
| "combined_loop hasher b n g (Some t # items) waiting dq st =
     (let (ks, dq, st) = defer_triple hasher b t (dq, st);
          waiting = waiting @ [ks];
          (dq, st) = (if n \<le> length dq then ([], flush_defer hasher b dq st) else (dq, st))
      in if BATCH_SIZE \<le> length waiting
         then res_bind (drain_and_flush g waiting (flush_defer hasher b dq st))
                (combined_loop hasher b n g items [] [])
         else combined_loop hasher b n g items waiting dq st)"

definition ingest_turtle_combined ::
    "hasher \<Rightarrow> nat \<Rightarrow> turtle_parser \<Rightarrow> string \<Rightarrow> int \<Rightarrow> string option \<Rightarrow> nat \<Rightarrow> world \<Rightarrow> store \<Rightarrow> loader res" where
  "ingest_turtle_combined hasher b turtle content g base dict_batch_size w st =
     (case turtle base content of
        None \<Rightarrow> Inl Invalid_Parameter_Value
      | Some items \<Rightarrow> combined_loop hasher b dict_batch_size g items [] [] (start_load w st))"

section \<open>Dispatch\<close>

datatype dict_path = Baseline | Batched | ShmemWarm | Combined

fun path_str :: "dict_path \<Rightarrow> string" where
  "path_str Baseline = ''baseline''"
| "path_str Batched = ''batched''"
| "path_str ShmemWarm = ''shmem_warm''"
| "path_str Combined = ''combined''"

record ingest_conf =
  guc_dict_path :: dict_path
  guc_dict_batch_size :: int
  guc_prewarm_on_init :: bool

definition ingest_dict_path :: "ingest_conf \<Rightarrow> dict_path" where
  "ingest_dict_path cf = (if guc_dict_batch_size cf = 0 then Baseline else guc_dict_path cf)"

definition dict_batch_size :: "ingest_conf \<Rightarrow> nat" where
  "dict_batch_size cf = (if guc_dict_batch_size cf \<le> 0 then 500 else nat (guc_dict_batch_size cf))"

text \<open>The prewarm runs once per backend; the flag is the backend's latch.\<close>

definition maybe_prewarm_once :: "hasher \<Rightarrow> nat \<Rightarrow> bool \<times> world \<Rightarrow> bool \<times> world" where
  "maybe_prewarm_once hasher b dw =
     (case dw of (prewarmed, w) \<Rightarrow>
        if prewarmed then (prewarmed, w)
        else (True, snd (shmem_cache_prewarm hasher b 100000 w)))"

definition ingest_dispatch ::
    "hasher \<Rightarrow> (dict_key list \<Rightarrow> dict_key list) \<Rightarrow> (string \<Rightarrow> string) \<Rightarrow> nat \<Rightarrow> turtle_parser \<Rightarrow> ingest_conf
      \<Rightarrow> string \<Rightarrow> int \<Rightarrow> string option \<Rightarrow> bool \<times> world \<Rightarrow> store \<Rightarrow> (bool \<times> loader) res" where
  "ingest_dispatch hasher hs sha b turtle cf content g base dw st =
     res_bind (require_unlocked g st) (\<lambda>_.
       (let route = ingest_dict_path cf;
            (prewarmed, w) = (if guc_prewarm_on_init cf \<or> route = ShmemWarm
                         then maybe_prewarm_once hasher b dw else dw);
            st = begin_source_record g st
        in res_bind
             (case route of
                Batched \<Rightarrow>
                  ingest_turtle_dict_batched hs b turtle content g base (dict_batch_size cf) w st
              | Combined \<Rightarrow>
                  ingest_turtle_combined hasher b turtle content g base (dict_batch_size cf) w st
              | _ \<Rightarrow> ingest_turtle_with_stats hasher b turtle content g base w st)
             (\<lambda>ld. Inr (prewarmed, tick (\<lambda>s. s\<lparr>st_path := path_str route\<rparr>)
                          (ld\<lparr>lstore := finish_source_record sha g content (lstore ld)\<rparr>)))))"

text \<open>The spike UDF calls the batched route directly.\<close>

definition parse_turtle_dict_batched ::
    "(dict_key list \<Rightarrow> dict_key list) \<Rightarrow> nat \<Rightarrow> turtle_parser \<Rightarrow> string \<Rightarrow> int \<Rightarrow> string option \<Rightarrow> int
      \<Rightarrow> world \<Rightarrow> store \<Rightarrow> loader res" where
  "parse_turtle_dict_batched hs b turtle content g base n w st =
     ingest_turtle_dict_batched hs b turtle content g
       (if base = Some [] then None else base) (nat (max n 1)) w st"


section \<open>The contract of interning\<close>

text \<open>
  What a route needs of whatever turns a key into an id: the id reads back as the key in the
  dictionary the call leaves, and the dictionary only grows.
\<close>

locale interner =
  fixes intern :: "dict_key \<Rightarrow> 's \<Rightarrow> int \<times> 's" and dict :: "'s \<Rightarrow> dict_row list"
    and ok :: "'s \<Rightarrow> bool" and clear :: "dict_key \<Rightarrow> bool"
  assumes intern_ok: "ok s \<Longrightarrow> clear k \<Longrightarrow> intern k s = (i, s') \<Longrightarrow> ok s'"
    and intern_reads: "ok s \<Longrightarrow> clear k \<Longrightarrow> intern k s = (i, s') \<Longrightarrow> dict_row_of (dict s') i = Some k"
    and intern_grows: "ok s \<Longrightarrow> clear k \<Longrightarrow> intern k s = (i, s') \<Longrightarrow> \<exists>new. dict s' = dict s @ new"

text \<open>Ids that stand for a parsed triple in a dictionary.\<close>

fun term_denoted :: "dict_row list \<Rightarrow> int \<Rightarrow> ox_term \<Rightarrow> bool" where
  "term_denoted d i (NodeTerm n) \<longleftrightarrow> dict_row_of d i = Some (node_key n)"
| "term_denoted d i (Literal v (Some l) dt) \<longleftrightarrow> dict_row_of d i = Some (3, v, None, Some l)"
| "term_denoted d i (Literal v None dt) \<longleftrightarrow>
     (\<exists>e. dict_row_of d i = Some (3, v, Some e, None) \<and> dict_row_of d e = Some (iri_key dt))"

definition denotes :: "dict_row list \<Rightarrow> int \<times> int \<times> int \<Rightarrow> ox_triple \<Rightarrow> bool" where
  "denotes d ids t \<longleftrightarrow>
     (case (ids, t) of ((si, pi, oi), (s, p, ob)) \<Rightarrow>
        dict_row_of d si = Some (node_key s) \<and> dict_row_of d pi = Some (iri_key p) \<and>
        term_denoted d oi ob)"

lemma term_denoted_append: "term_denoted d i t \<Longrightarrow> term_denoted (d @ new) i t"
  by (induction d i t rule: term_denoted.induct) (auto intro: dict_row_of_append)

lemma denotes_append: "denotes d ids t \<Longrightarrow> denotes (d @ new) ids t"
  by (auto simp: denotes_def intro: dict_row_of_append term_denoted_append)

lemma denoted_list_append:
  "list_all2 (denotes d) idss ts \<Longrightarrow> list_all2 (denotes (d @ new)) idss ts"
  by (erule list_all2_mono) (rule denotes_append)

lemma read_subject_node: "read_subject (node_key n) = Some (as_node n)"
  by (cases n) (simp_all add: read_subject_def)

lemma read_object_node: "read_object d (node_key n) = Some (as_node n)"
  by (cases n) (simp_all add: read_object_def)

lemma read_object_literal: "read_object d (3, v, dt, l) = Some (Lit v (lexical_of d dt) l)"
  by (simp add: read_object_def)

lemma denotes_read: "denotes d ids t \<Longrightarrow> read_quad d (asserted_quad g ids) = Some (as_triple t)"
proof -
  assume d: "denotes d ids t"
  obtain si pi oi s p ob where [simp]: "ids = (si, pi, oi)" "t = (s, p, ob)" by (metis prod_cases3)
  have "\<exists>k. dict_row_of d oi = Some k \<and> read_object d k = Some (as_term ob)"
  proof (cases ob)
    case (NodeTerm n)
    with d show ?thesis by (simp add: denotes_def read_object_node)
  next
    case (Literal v lang dt)
    with d show ?thesis
      by (cases lang) (auto simp: denotes_def read_object_literal lexical_of_def iri_key_def)
  qed
  with d show ?thesis
    by (auto simp: denotes_def read_quad_def asserted_quad_def read_subject_node iri_key_def)
qed

text \<open>The keys a triple can make the loader resolve.\<close>

fun term_keys :: "ox_term \<Rightarrow> dict_key set" where
  "term_keys (NodeTerm n) = {node_key n}"
| "term_keys (Literal v (Some l) dt) = {(3, v, None, Some l)}"
| "term_keys (Literal v None dt) = insert (iri_key dt) (range (\<lambda>e. (3, v, Some e, None)))"

definition triple_keys :: "ox_triple \<Rightarrow> dict_key set" where
  "triple_keys t = (case t of (s, p, ob) \<Rightarrow> {node_key s, iri_key p} \<union> term_keys ob)"

context interner
begin

lemma object_to_id_reads:
  assumes "ok s" "\<forall>k \<in> term_keys ob. clear k" "object_to_id intern ob s = (i, s')"
  shows "ok s' \<and> (\<exists>new. dict s' = dict s @ new) \<and> term_denoted (dict s') i ob"
proof (cases ob)
  case (NodeTerm n)
  with assms show ?thesis using intern_ok intern_reads intern_grows by simp
next
  case (Literal v lang dt)
  show ?thesis
  proof (cases lang)
    case (Some l)
    with assms Literal show ?thesis using intern_ok intern_reads intern_grows by simp
  next
    case None
    obtain e s1 where e: "intern (iri_key dt) s = (e, s1)" by fastforce
    with assms(3) Literal None have i: "intern (3, v, Some e, None) s1 = (i, s')" by simp
    have c: "clear (iri_key dt)" "clear (3, v, Some e, None)"
      using assms(2) Literal None by auto
    have s1: "ok s1" using intern_ok[OF assms(1) c(1) e] .
    obtain n1 where n1: "dict s1 = dict s @ n1" using intern_grows[OF assms(1) c(1) e] by blast
    obtain n2 where n2: "dict s' = dict s1 @ n2" using intern_grows[OF s1 c(2) i] by blast
    have "dict_row_of (dict s') e = Some (iri_key dt)"
      unfolding n2 using intern_reads[OF assms(1) c(1) e] by (rule dict_row_of_append)
    then show ?thesis
      using intern_ok[OF s1 c(2) i] intern_reads[OF s1 c(2) i] n1 n2 Literal None by auto
  qed
qed

lemma triple_to_ids_reads:
  assumes "ok s" "\<forall>k \<in> triple_keys t. clear k" "triple_to_ids intern t s = (ids, s')"
  shows "ok s' \<and> (\<exists>new. dict s' = dict s @ new) \<and> denotes (dict s') ids t"
proof -
  obtain sn p ob where t: "t = (sn, p, ob)" by (metis prod_cases3)
  obtain si s1 where 1: "intern (node_key sn) s = (si, s1)" by fastforce
  obtain pi s2 where 2: "intern (iri_key p) s1 = (pi, s2)" by fastforce
  obtain oi where 3: "object_to_id intern ob s2 = (oi, s')" and ids: "ids = (si, pi, oi)"
    using assms(3) 1 2 by (auto simp: triple_to_ids_def t subject_to_id_def split: prod.splits)
  have c: "clear (node_key sn)" "clear (iri_key p)" "\<forall>k \<in> term_keys ob. clear k"
    using assms(2) by (auto simp: t triple_keys_def)
  note o1 = intern_ok[OF assms(1) c(1) 1] and o2 = intern_ok[OF intern_ok[OF assms(1) c(1) 1] c(2) 2]
  obtain n1 where n1: "dict s1 = dict s @ n1" using intern_grows[OF assms(1) c(1) 1] by blast
  obtain n2 where n2: "dict s2 = dict s1 @ n2" using intern_grows[OF o1 c(2) 2] by blast
  obtain n3 where n3: "dict s' = dict s2 @ n3" using object_to_id_reads[OF o2 c(3) 3] by blast
  have "dict_row_of (dict s') si = Some (node_key sn)"
    using intern_reads[OF assms(1) c(1) 1] by (simp add: n2 n3 dict_row_of_append)
  moreover have "dict_row_of (dict s') pi = Some (iri_key p)"
    using intern_reads[OF o1 c(2) 2] by (simp add: n3 dict_row_of_append)
  ultimately show ?thesis
    using object_to_id_reads[OF o2 c(3) 3] by (auto simp: denotes_def t ids n1 n2 n3)
qed

end

section \<open>The dictionary provides the contract\<close>

text \<open>
  The committed rows \<open>R\<close> of every database stay as they are during a load; a key is clear if its
  128-bit fingerprint is that of no other committed row.
\<close>

definition key_clear :: "hasher \<Rightarrow> (32 word \<Rightarrow> dict_row list) \<Rightarrow> 32 word \<Rightarrow> dict_key \<Rightarrow> bool" where
  "key_clear hasher R db k \<longleftrightarrow>
     (\<forall>db'. \<forall>r \<in> set (R db'). fingerprint hasher db' (row_key r) = fingerprint hasher db k
        \<longrightarrow> db' = db \<and> row_key r = k)"

definition dict_ok :: "hasher \<Rightarrow> nat \<Rightarrow> (32 word \<Rightarrow> dict_row list) \<Rightarrow> 32 word \<Rightarrow> world \<Rightarrow> bool" where
  "dict_ok hasher b R db w \<longleftrightarrow>
     world_ok hasher w \<and> ids_ok w \<and> rows w = R \<and> bdb (backends w b) = db"

lemma key_clear_no_collision:
  "dict_ok hasher b R db w \<Longrightarrow> key_clear hasher R db k \<Longrightarrow> no_collision hasher w (bdb (backends w b)) k"
  by (simp add: key_clear_def no_collision_def dict_ok_def)

lemma stage_frame [simp]:
  "rows (stage_for_commit hasher b k v w) = rows w"
  "bdb (backends (stage_for_commit hasher b k v w) b') = bdb (backends w b')"
  by (simp_all add: stage_for_commit_def Let_def)

lemma insert_row_frame [simp]:
  "rows (snd (insert_row b k w)) = rows w"
  "bdb (backends (snd (insert_row b k w)) b') = bdb (backends w b')"
  by (simp_all add: insert_row_def Let_def)

lemma visible_cache [simp]: "visible (w\<lparr>cache := c\<rparr>) b = visible w b"
  by (simp add: visible_def)

lemma put_frame:
  assumes "put_term_full hasher b k w = (i, w')"
  shows "rows w' = rows w" "bdb (backends w' b') = bdb (backends w b')"
    "\<exists>new. visible w' b = visible w b @ new"
proof -
  obtain res c where l: "lookup hasher (bdb (backends w b)) k (cache w) = (res, c)" by fastforce
  have ir: "insert_row b k w1 = (j, w2) \<Longrightarrow>
      rows w2 = rows w1 \<and> bdb (backends w2 b') = bdb (backends w1 b') \<and>
      (\<exists>new. visible w2 b = visible w1 b @ new)" for w1 j w2
    using insert_row_frame[of b k w1] insert_row_eq[of b k w1] by auto
  have all: "rows w' = rows w \<and> bdb (backends w' b') = bdb (backends w b') \<and>
      (\<exists>new. visible w' b = visible w b @ new)"
  proof (cases "res = None \<and> find (\<lambda>r. row_key r = k) (visible w b) = None")
    case True
    then obtain j w2 where "insert_row b k (w\<lparr>cache := c\<rparr>) = (j, w2)"
      "w' = stage_for_commit hasher b k j w2"
      using assms l by (auto simp: put_term_full_def Let_def split: prod.splits)
    then show ?thesis using ir[of "w\<lparr>cache := c\<rparr>" j w2] by (simp add: stage_visible)
  next
    case False
    then show ?thesis
      using assms l by (auto simp: put_term_full_def Let_def stage_visible split: option.splits)
  qed
  then show "rows w' = rows w" "bdb (backends w' b') = bdb (backends w b')"
    "\<exists>new. visible w' b = visible w b @ new" by auto
qed

lemma dict_ok_put: "dict_ok hasher b R db w \<Longrightarrow> put_term_full hasher b k w = (i, w') \<Longrightarrow> dict_ok hasher b R db w'"
  using put_world_ok[of hasher w b k] put_ids_ok[of w hasher b k] put_frame(1,2)[of hasher b k w i w']
  by (simp add: dict_ok_def)

lemma dict_ok_look:
  "dict_ok hasher b R db w \<Longrightarrow> dict_ok hasher b R db (w\<lparr>cache := snd (lookup hasher db' k (cache w))\<rparr>)"
  using lookup_world_ok[of hasher w "fingerprint hasher db' k"] same_ids_ok[OF cache_same_ids, of w]
  by (simp add: dict_ok_def lookup_def)

lemma dict_ok_stage:
  "dict_ok hasher b R db w \<Longrightarrow> dict_row_of (visible w b) i = Some k \<Longrightarrow>
   dict_ok hasher b R db (stage_for_commit hasher b k i w)"
proof -
  assume ok: "dict_ok hasher b R db w" and "dict_row_of (visible w b) i = Some k"
  then obtain r where "r \<in> set (visible w b)" "row_id r = i" "row_key r = k"
    unfolding dict_row_of_def using find_SomeD[of "\<lambda>r. row_id r = i" "visible w b"] by auto
  then show ?thesis
    using ok stage_world_ok[of hasher w r b] same_ids_ok[OF stage_same_ids, of w hasher b k i]
    by (simp add: dict_ok_def)
qed

lemma dict_ok_reads:
  "dict_ok hasher b R db w \<Longrightarrow> r \<in> set (visible w b) \<Longrightarrow> dict_row_of (visible w b) (row_id r) = Some (row_key r)"
  by (rule dict_row_of_mem) (simp_all add: dict_ok_def ids_ok_visible)

interpretation put: interner "put_term_full hasher b" "\<lambda>w. visible w b" "dict_ok hasher b R db"
    "key_clear hasher R db" for hasher b R db
proof unfold_locales
  fix w k i w' assume a: "dict_ok hasher b R db w" "key_clear hasher R db k" "put_term_full hasher b k w = (i, w')"
  show ok: "dict_ok hasher b R db w'" using dict_ok_put[OF a(1,3)] .
  obtain r where "r \<in> set (visible w' b)" "row_id r = i" "row_key r = k"
    using put_row[OF _ key_clear_no_collision[OF a(1,2)] a(3)] a(1) by (auto simp: dict_ok_def)
  then show "dict_row_of (visible w' b) i = Some k" using dict_ok_reads[OF ok] by blast
  show "\<exists>new. visible w' b = visible w b @ new" using put_frame(3)[OF a(3)] .
qed


section \<open>The routes' own interning\<close>

definition load_ok :: "hasher \<Rightarrow> nat \<Rightarrow> (32 word \<Rightarrow> dict_row list) \<Rightarrow> 32 word \<Rightarrow> loader \<Rightarrow> bool" where
  "load_ok hasher b R db st \<longleftrightarrow>
     dict_ok hasher b R db (lworld st) \<and>
     (\<forall>k i. hm st k = Some i \<longrightarrow> dict_row_of (visible (lworld st) b) i = Some k)"

lemma tick_simps [simp]:
  "hm (tick f st) = hm st" "lworld (tick f st) = lworld st" "lstore (tick f st) = lstore st"
  "lstats (tick f st) = f (lstats st)" "load_ok hasher b R db (tick f st) = load_ok hasher b R db st"
  by (simp_all add: tick_def load_ok_def)

lemma load_okD:
  assumes "load_ok hasher b R db st"
  shows "dict_ok hasher b R db (lworld st)"
    "hm st k = Some i \<Longrightarrow> dict_row_of (visible (lworld st) b) i = Some k"
  using assms unfolding load_ok_def by blast+

text \<open>Learning one pair that the dictionary backs.\<close>

lemma load_ok_learn:
  assumes "load_ok hasher b R db st" "dict_ok hasher b R db w"
    and "visible w b = visible (lworld st) b @ new" "dict_row_of (visible w b) i = Some k"
  shows "load_ok hasher b R db (st\<lparr>lworld := w, hm := (hm st)(k \<mapsto> i)\<rparr>)"
  using assms by (auto simp: load_ok_def intro: dict_row_of_append)

lemma shared_lookup_reads:
  assumes "dict_ok hasher b R db w" "key_clear hasher R db k"
    and "lookup hasher (bdb (backends w b)) k (cache w) = (Some i, c)"
  shows "dict_row_of (visible w b) i = Some k"
proof -
  have "no_collision hasher w (bdb (backends w b)) k" using key_clear_no_collision assms(1,2) by blast
  then obtain r where "r \<in> set (rows w (bdb (backends w b)))" "row_id r = i" "row_key r = k"
    using cached_id_is_committed_aux[of hasher w "bdb (backends w b)" k i] assms(1,3)
    by (auto simp: dict_ok_def)
  then show ?thesis using dict_ok_reads[OF assms(1), of r] by (simp add: visible_def)
qed

interpretation per_call: interner "intern_term hasher b" "\<lambda>st. visible (lworld st) b"
    "load_ok hasher b R db" "key_clear hasher R db" for hasher b R db
proof unfold_locales
  fix st k i st'
  assume a: "load_ok hasher b R db st" "key_clear hasher R db k" "intern_term hasher b k st = (i, st')"
  note ok = load_okD(1)[OF a(1)]
  have all: "load_ok hasher b R db st' \<and> dict_row_of (visible (lworld st') b) i = Some k \<and>
      (\<exists>new. visible (lworld st') b = visible (lworld st) b @ new)"
  proof (cases "hm st k")
    case (Some j)
    with a(1,3) show ?thesis by (auto simp: intern_term_def dest: load_okD(2))
  next
    case None
    obtain j w where p: "put_term_full hasher b k (lworld st) = (j, w)" by fastforce
    obtain f where st': "st' = tick f (st\<lparr>lworld := w, hm := (hm st)(k \<mapsto> i)\<rparr>)" "j = i"
      using a(3) None p by (auto simp: intern_term_def Let_def)
    obtain new where "visible w b = visible (lworld st) b @ new"
      using put.intern_grows[OF ok a(2) p] by blast
    then show ?thesis
      using load_ok_learn[OF a(1) put.intern_ok[OF ok a(2) p]] put.intern_reads[OF ok a(2) p] st'
      by auto
  qed
  then show "load_ok hasher b R db st'" "dict_row_of (visible (lworld st') b) i = Some k"
    "\<exists>new. visible (lworld st') b = visible (lworld st) b @ new" by auto
qed

interpretation datatype_sync: interner "resolve_datatype_iri_sync hasher b" "\<lambda>st. visible (lworld st) b"
    "load_ok hasher b R db" "key_clear hasher R db" for hasher b R db
proof unfold_locales
  fix st k i st'
  assume a: "load_ok hasher b R db st" "key_clear hasher R db k"
    "resolve_datatype_iri_sync hasher b k st = (i, st')"
  note ok = load_okD(1)[OF a(1)]
  let ?w = "lworld st"
  obtain res c where l: "lookup hasher (bdb (backends ?w b)) k (cache ?w) = (res, c)" by fastforce
  have okc: "dict_ok hasher b R db (?w\<lparr>cache := c\<rparr>)"
    using dict_ok_look[OF ok, of "bdb (backends ?w b)" k] l by simp
  have all: "load_ok hasher b R db st' \<and> dict_row_of (visible (lworld st') b) i = Some k \<and>
      (\<exists>new. visible (lworld st') b = visible ?w b @ new)"
  proof (cases "hm st k")
    case (Some j)
    with a(1,3) show ?thesis by (auto simp: resolve_datatype_iri_sync_def dest: load_okD(2))
  next
    case hmN: None
    show ?thesis
    proof (cases res)
      case (Some j)
      then have st': "st' = tick hit_shmem (st\<lparr>lworld := ?w\<lparr>cache := c\<rparr>, hm := (hm st)(k \<mapsto> i)\<rparr>)" "j = i"
        using a(3) hmN l by (auto simp: resolve_datatype_iri_sync_def Let_def)
      have "dict_row_of (visible ?w b) i = Some k"
        using shared_lookup_reads[OF ok a(2)] l Some st'(2) by simp
      then show ?thesis using load_ok_learn[OF a(1) okc, of "[]" i k] st' by simp
    next
      case None
      obtain j w where p: "put_term_full hasher b k (?w\<lparr>cache := c\<rparr>) = (j, w)" by fastforce
      obtain f where st': "st' = tick f (st\<lparr>lworld := w, hm := (hm st)(k \<mapsto> i)\<rparr>)" "j = i"
        using a(3) hmN None l p by (auto simp: resolve_datatype_iri_sync_def Let_def)
      obtain new where "visible w b = visible ?w b @ new"
        using put.intern_grows[OF okc a(2) p] by auto
      then show ?thesis
        using load_ok_learn[OF a(1) put.intern_ok[OF okc a(2) p]] put.intern_reads[OF okc a(2) p] st'
        by auto
    qed
  qed
  then show "load_ok hasher b R db st'" "dict_row_of (visible (lworld st') b) i = Some k"
    "\<exists>new. visible (lworld st') b = visible ?w b @ new" by auto
qed

section \<open>What a route has written\<close>

definition written :: "int \<Rightarrow> store \<Rightarrow> loader \<Rightarrow> (int \<times> int \<times> int) list \<Rightarrow> bool" where
  "written g s0 st idss \<longleftrightarrow> lstore st = s0\<lparr>quads := quads s0 @ map (asserted_quad g) idss\<rparr>"

lemma written_tick [simp]: "written g s0 (tick f st) idss = written g s0 st idss"
  by (simp add: written_def)

lemma flush_batch_written:
  assumes "written g s0 st idss" "g \<notin> set (trow s0)"
  shows "\<exists>st'. flush_batch g buf st = Inr st' \<and> written g s0 st' (idss @ buf) \<and> hm st' = hm st \<and>
    lworld st' = lworld st \<and> n_triples (lstats st') = n_triples (lstats st)"
proof (cases "buf = []")
  case True
  with assms show ?thesis by (simp add: flush_batch_def)
next
  case False
  have "\<not> list_ex (\<lambda>q. qg q \<in> set (trow (lstore st))) (map (asserted_quad g) buf)"
    using assms by (auto simp: list_ex_iff written_def asserted_quad_def)
  with False assms show ?thesis
    by (simp add: flush_batch_def insert_quads_def written_def count_batch_def)
qed

lemma load_ok_cong: "hm st' = hm st \<Longrightarrow> lworld st' = lworld st \<Longrightarrow>
    load_ok hasher b R db st' = load_ok hasher b R db st"
  by (simp add: load_ok_def)

lemma intern_term_frame:
  "intern_term hasher b k st = (i, st') \<Longrightarrow>
     lstore st' = lstore st \<and> n_triples (lstats st') = n_triples (lstats st)"
  by (auto simp: intern_term_def Let_def hit_cache_def hit_shmem_def call_db_def
      split: option.splits prod.splits if_splits)

lemma object_to_id_frame:
  "object_to_id (intern_term hasher b) ob st = (i, st') \<Longrightarrow>
     lstore st' = lstore st \<and> n_triples (lstats st') = n_triples (lstats st)"
  by (induction "intern_term hasher b" ob st rule: object_to_id.induct)
    (auto dest!: intern_term_frame split: prod.splits)

lemma triple_to_ids_frame:
  "triple_to_ids (intern_term hasher b) t st = (ids, st') \<Longrightarrow>
     lstore st' = lstore st \<and> n_triples (lstats st') = n_triples (lstats st)"
  by (cases t) (auto simp: triple_to_ids_def subject_to_id_def
      dest!: intern_term_frame object_to_id_frame split: prod.splits)

text \<open>A finished route: every triple is written, in order, under ids that denote it.\<close>

definition loaded ::
    "hasher \<Rightarrow> nat \<Rightarrow> (32 word \<Rightarrow> dict_row list) \<Rightarrow> 32 word \<Rightarrow> int \<Rightarrow> store \<Rightarrow> ox_triple list \<Rightarrow> loader \<Rightarrow> bool" where
  "loaded hasher b R db g s0 ts st \<longleftrightarrow>
     load_ok hasher b R db st \<and> n_triples (lstats st) = int (length ts) \<and>
     (\<exists>idss. written g s0 st idss \<and> list_all2 (denotes (visible (lworld st) b)) idss ts)"

lemma baseline_loop_loaded:
  assumes "g \<notin> set (trow s0)"
  shows "\<lbrakk>load_ok hasher b R db st; written g s0 st idss;
      list_all2 (denotes (visible (lworld st) b)) (idss @ buf) seen;
      n_triples (lstats st) = int (length seen); \<forall>t \<in> set ts. \<forall>k \<in> triple_keys t. key_clear hasher R db k\<rbrakk>
    \<Longrightarrow> \<exists>st'. baseline_loop hasher b g (map Some ts) buf st = Inr st' \<and>
          loaded hasher b R db g s0 (seen @ ts) st'"
proof (induction ts arbitrary: buf st idss seen)
  case Nil
  obtain st' where "flush_batch g buf st = Inr st'" "written g s0 st' (idss @ buf)" "hm st' = hm st"
    "lworld st' = lworld st" "n_triples (lstats st') = n_triples (lstats st)"
    using flush_batch_written[OF Nil(2) assms] by blast
  with Nil show ?case using load_ok_cong[of st' st] by (auto simp: loaded_def)
next
  case (Cons t ts)
  obtain ids st1 where t: "triple_to_ids (intern_term hasher b) t st = (ids, st1)" by fastforce
  obtain new where 1: "load_ok hasher b R db st1" "visible (lworld st1) b = visible (lworld st) b @ new"
    "denotes (visible (lworld st1) b) ids t"
    using per_call.triple_to_ids_reads[OF Cons.prems(1) _ t] Cons.prems(5) by auto
  let ?st = "tick count_triple st1" and ?buf = "buf @ [ids]"
  have w: "written g s0 ?st idss"
    using Cons.prems(2) triple_to_ids_frame[OF t] by (simp add: written_def)
  have d: "list_all2 (denotes (visible (lworld ?st) b)) (idss @ ?buf) (seen @ [t])"
    using denoted_list_append[OF Cons.prems(3), of new] 1(2,3)
    by (simp add: list_all2_appendI flip: append_assoc)
  have n: "n_triples (lstats ?st) = int (length (seen @ [t]))"
    using Cons.prems(4) triple_to_ids_frame[OF t] by (simp add: count_triple_def)
  have k: "\<forall>t \<in> set ts. \<forall>k \<in> triple_keys t. key_clear hasher R db k" using Cons.prems(5) by simp
  show ?case
  proof (cases "BATCH_SIZE \<le> length ?buf")
    case True
    obtain st2 where f: "flush_batch g ?buf ?st = Inr st2" "written g s0 st2 (idss @ ?buf)" "hm st2 = hm ?st"
      "lworld st2 = lworld ?st" "n_triples (lstats st2) = n_triples (lstats ?st)"
      using flush_batch_written[OF w assms] by blast
    have "load_ok hasher b R db st2" using 1(1) f(3,4) load_ok_cong[of st2 st1] by simp
    then show ?thesis
      using Cons.IH[of st2 "idss @ ?buf" "[]" "seen @ [t]"] f d n k t True by simp
  next
    case False
    then show ?thesis
      using Cons.IH[of ?st idss ?buf "seen @ [t]"] 1(1) w d n k t by simp
  qed
qed

section \<open>Keys and maps\<close>

text \<open>A map from keys to ids that the dictionary backs, and the keys a parsed triple is put down under.\<close>

definition backs :: "dict_row list \<Rightarrow> (dict_key \<Rightarrow> int option) \<Rightarrow> bool" where
  "backs d m \<longleftrightarrow> (\<forall>k i. m k = Some i \<longrightarrow> dict_row_of d i = Some k)"

fun term_keyed :: "dict_row list \<Rightarrow> dict_key \<Rightarrow> ox_term \<Rightarrow> bool" where
  "term_keyed d k (NodeTerm n) \<longleftrightarrow> k = node_key n"
| "term_keyed d k (Literal v (Some l) dt) \<longleftrightarrow> k = (3, v, None, Some l)"
| "term_keyed d k (Literal v None dt) \<longleftrightarrow>
     (\<exists>e. k = (3, v, Some e, None) \<and> dict_row_of d e = Some (iri_key dt))"

definition keyed :: "dict_row list \<Rightarrow> dict_key \<times> dict_key \<times> dict_key \<Rightarrow> ox_triple \<Rightarrow> bool" where
  "keyed d ks t \<longleftrightarrow>
     (case (ks, t) of ((sk, pk, ok), (s, p, ob)) \<Rightarrow>
        sk = node_key s \<and> pk = iri_key p \<and> term_keyed d ok ob)"

definition keys3 :: "dict_key \<times> dict_key \<times> dict_key \<Rightarrow> dict_key set" where
  "keys3 ks = (case ks of (a, b, c) \<Rightarrow> {a, b, c})"

lemma backsD: "backs d m \<Longrightarrow> m k = Some i \<Longrightarrow> dict_row_of d i = Some k"
  by (simp only: backs_def)

lemma backs_append: "backs d m \<Longrightarrow> backs (d @ new) m"
  by (auto simp: backs_def intro: dict_row_of_append)

lemma term_keyed_append: "term_keyed d k ob \<Longrightarrow> term_keyed (d @ new) k ob"
  by (induction d k ob rule: term_keyed.induct) (auto intro: dict_row_of_append)

lemma keyed_append: "keyed d ks t \<Longrightarrow> keyed (d @ new) ks t"
  by (auto simp: keyed_def term_keyed_append)

lemma keyed_clear: "keyed d ks t \<Longrightarrow> keys3 ks \<subseteq> triple_keys t"
proof -
  have "term_keyed d k ob \<Longrightarrow> k \<in> term_keys ob" for k ob
    by (induction d k ob rule: term_keyed.induct) auto
  then show "keyed d ks t \<Longrightarrow> keys3 ks \<subseteq> triple_keys t"
    by (auto simp: keyed_def keys3_def triple_keys_def)
qed

lemma look_up3_some: "keys3 ks \<subseteq> dom m \<Longrightarrow> \<exists>ids. look_up3 m ks = Some ids"
  by (auto simp: look_up3_def keys3_def split: prod.splits)

lemma look_up3_denotes:
  assumes "backs d m" "keyed d ks t" "look_up3 m ks = Some ids"
  shows "denotes d ids t"
proof -
  obtain s p ob where t: "t = (s, p, ob)" by (metis prod_cases3)
  obtain ok where ks: "ks = (node_key s, iri_key p, ok)" and k: "term_keyed d ok ob"
    using assms(2) by (auto simp: keyed_def t)
  obtain si pi oi where m: "m (node_key s) = Some si" "m (iri_key p) = Some pi" "m ok = Some oi"
    "ids = (si, pi, oi)"
    using assms(3) by (auto simp: look_up3_def ks split: option.splits)
  note b = backsD[OF assms(1)]
  have r: "dict_row_of d oi = Some ok" using b[OF m(3)] .
  have "term_denoted d oi ob"
  proof (cases ob)
    case (NodeTerm n)
    with r k show ?thesis by simp
  next
    case (Literal v lang dt)
    with r k show ?thesis by (cases lang) auto
  qed
  then show ?thesis using b[OF m(1)] b[OF m(2)] m(4) by (simp add: denotes_def t)
qed

section \<open>Chunks and the batch\<close>

lemma concat_chunks: "0 < n \<Longrightarrow> concat (chunks n xs) = xs"
  by (induction n xs rule: chunks.induct) (subst chunks.simps, auto)

lemma learn_dom: "dom (learn kvs m) = dom m \<union> fst ` set kvs"
  unfolding learn_def by (induction kvs arbitrary: m) auto

lemma learn_mem: "learn kvs m k = Some i \<Longrightarrow> (k, i) \<in> set kvs \<or> m k = Some i"
  unfolding learn_def by (induction kvs arbitrary: m) (fastforce split: if_splits)+

lemma batch_frame:
  assumes "put_terms_batch b ks w = (ids, w')"
  shows "rows w' = rows w" "bdb (backends w' b') = bdb (backends w b')"
    "\<exists>new. visible w' b = visible w b @ new"
proof -
  let ?P = "\<lambda>w'. rows w' = rows w \<and> bdb (backends w' b') = bdb (backends w b') \<and>
      (\<exists>new. visible w' b = visible w b @ new)"
  have "?P (fold (\<lambda>k w. snd (insert_row b k w)) xs w)" for xs
    by (rule fold_invariant[where P = ?P]) (auto simp: insert_row_eq)
  then have "?P w'" using assms by (auto simp: put_terms_batch_def Let_def split: if_splits)
  then show "rows w' = rows w" "bdb (backends w' b') = bdb (backends w b')"
    "\<exists>new. visible w' b = visible w b @ new" by auto
qed

lemma batch_ok:
  assumes "dict_ok hasher b R db w" "put_terms_batch b ks w = (ids, w')"
  shows "dict_ok hasher b R db w'" "length ids = length ks"
    "(k, i) \<in> set (zip ks ids) \<Longrightarrow> dict_row_of (visible w' b) i = Some k"
proof -
  have "wstep hasher w (snd (put_terms_batch b ks w))" by (rule wstep.batch)
  then have "world_ok hasher w'" "ids_ok w'"
    using wstep_world_ok wstep_ids_ok assms by (auto simp: dict_ok_def)
  then show ok: "dict_ok hasher b R db w'"
    using batch_frame(1,2)[OF assms(2)] assms(1) by (simp add: dict_ok_def)
  note r = batch_resolves_aux[OF assms(2)]
  show len: "length ids = length ks" using r by blast
  assume "(k, i) \<in> set (zip ks ids)"
  then obtain j where "j < length ks" "ks ! j = k" "ids ! j = i"
    using len by (auto simp: in_set_zip)
  then show "dict_row_of (visible w' b) i = Some k"
    using r dict_ok_reads[OF ok] by metis
qed

lemma resolve_chunks_ok:
  "\<lbrakk>dict_ok hasher b R db w; backs (visible w b) m; fold (resolve_chunk b) cs (m, w) = (m', w')\<rbrakk>
    \<Longrightarrow> dict_ok hasher b R db w' \<and> backs (visible w' b) m' \<and> dom m' = dom m \<union> set (concat cs) \<and>
        (\<exists>new. visible w' b = visible w b @ new)"
proof (induction cs arbitrary: m w)
  case Nil
  then show ?case by simp
next
  case (Cons c cs)
  obtain ids w1 where b: "put_terms_batch b c w = (ids, w1)" by fastforce
  let ?m1 = "learn (zip c ids) m"
  obtain n1 where n1: "visible w1 b = visible w b @ n1" using batch_frame(3)[OF b] by blast
  have "backs (visible w1 b) ?m1"
    using Cons.prems(2) batch_ok(3)[OF Cons.prems(1) b] learn_mem[of "zip c ids" m]
    unfolding backs_def n1 by (metis dict_row_of_append)
  moreover have "dom ?m1 = dom m \<union> set c"
    using batch_ok(2)[OF Cons.prems(1) b] by (simp add: learn_dom flip: set_map)
  moreover have "fold (resolve_chunk b) cs (?m1, w1) = (m', w')"
    using Cons.prems(3) b by (simp add: resolve_chunk_def[of b c])
  ultimately show ?case
    using Cons.IH[OF batch_ok(1)[OF Cons.prems(1) b], of ?m1] n1 by auto
qed

section \<open>The batched route\<close>

lemma load_ok_backs: "load_ok hasher b R db st \<longleftrightarrow>
    dict_ok hasher b R db (lworld st) \<and> backs (visible (lworld st) b) (hm st)"
  by (simp add: load_ok_def backs_def)

lemma batched_insert_loaded:
  assumes "g \<notin> set (trow s0)"
  shows "\<lbrakk>load_ok hasher b R db st; written g s0 st idss;
      list_all2 (denotes (visible (lworld st) b)) (idss @ buf) seen;
      list_all2 (keyed (visible (lworld st) b)) kss ts; \<forall>ks \<in> set kss. keys3 ks \<subseteq> dom (hm st);
      n_triples (lstats st) = int (length (seen @ ts))\<rbrakk>
    \<Longrightarrow> \<exists>st'. batched_insert g kss buf st = Inr st' \<and> loaded hasher b R db g s0 (seen @ ts) st'"
proof (induction kss arbitrary: buf st idss seen ts)
  case Nil
  obtain st' where "flush_batch g buf st = Inr st'" "written g s0 st' (idss @ buf)" "hm st' = hm st"
    "lworld st' = lworld st" "n_triples (lstats st') = n_triples (lstats st)"
    using flush_batch_written[OF Nil(2) assms] by blast
  with Nil show ?case using load_ok_cong[of st' st] by (auto simp: loaded_def)
next
  case (Cons ks kss)
  obtain t ts' where ts: "ts = t # ts'" "keyed (visible (lworld st) b) ks t"
    "list_all2 (keyed (visible (lworld st) b)) kss ts'"
    using Cons.prems(4) by (auto simp: list_all2_Cons1)
  obtain ids where ids: "look_up3 (hm st) ks = Some ids"
    using look_up3_some Cons.prems(5) by (meson list.set_intros(1))
  have "denotes (visible (lworld st) b) ids t"
    using look_up3_denotes[OF _ ts(2) ids] Cons.prems(1) by (simp add: load_ok_backs)
  then have d: "list_all2 (denotes (visible (lworld st) b)) (idss @ buf @ [ids]) (seen @ [t])"
    using Cons.prems(3) by (simp add: list_all2_appendI flip: append_assoc)
  show ?case
  proof (cases "BATCH_SIZE \<le> length (buf @ [ids])")
    case True
    obtain st2 where f: "flush_batch g (buf @ [ids]) st = Inr st2" "written g s0 st2 (idss @ buf @ [ids])"
      "hm st2 = hm st" "lworld st2 = lworld st" "n_triples (lstats st2) = n_triples (lstats st)"
      using flush_batch_written[OF Cons.prems(2) assms, of "buf @ [ids]"] by auto
    have "load_ok hasher b R db st2" using Cons.prems(1) f(3,4) load_ok_cong[of st2 st] by simp
    then show ?thesis
      using Cons.IH[of st2 "idss @ buf @ [ids]" "[]" "seen @ [t]" ts'] Cons.prems(5,6) f d ts ids True
      by (simp add: Let_def)
  next
    case False
    then show ?thesis
      using Cons.IH[of st idss "buf @ [ids]" "seen @ [t]" ts'] Cons.prems(1,2,5,6) d ts ids
      by (simp add: Let_def)
  qed
qed

text \<open>A hash set is iterated in some order, each element once.\<close>

definition hash_order :: "('a list \<Rightarrow> 'a list) \<Rightarrow> bool" where
  "hash_order hs \<longleftrightarrow> (\<forall>ks. distinct ks \<longrightarrow> distinct (hs ks) \<and> set (hs ks) = set ks)"

lemma hash_orderD: "hash_order hs \<Longrightarrow> distinct ks \<Longrightarrow> set (hs ks) = set ks"
  by (simp add: hash_order_def)

lemma keyed_object_keyed:
  assumes "backs d dts" "set (plain_datatype ob) \<subseteq> {i. iri_key i \<in> dom dts}"
  shows "term_keyed d (keyed_object dts ob) ob"
proof (cases ob)
  case (Literal v lang dt)
  with assms show ?thesis by (cases lang) (auto dest: backsD)
qed simp

lemma unique_terms_mem:
  "(s, p, ob) \<in> set ts \<Longrightarrow> k \<in> {node_key s, iri_key p} \<union> set (literal_terms ob) \<Longrightarrow> k \<in> set (unique_terms ts)"
  by (auto simp: unique_terms_def intro!: bexI[of _ "(s, p, ob)"])

lemma node_key_nonliteral [simp]: "fst (node_key n) \<noteq> 3" "fst (iri_key i) \<noteq> 3"
  by (cases n) (simp_all add: iri_key_def)

lemma full_terms_mem:
  assumes "(s, p, ob) \<in> set ts"
  shows "keys3 (node_key s, iri_key p, keyed_object dts ob) \<subseteq> set (full_terms dts ts)"
proof -
  have "keyed_object dts ob \<in> set (full_terms dts ts)"
  proof (cases ob)
    case (NodeTerm n)
    then show ?thesis using unique_terms_mem[OF assms, of "node_key n"] by (simp add: full_terms_def)
  next
    case (Literal v lang dt)
    then show ?thesis using assms by (force simp: full_terms_def)
  qed
  then show ?thesis
    using unique_terms_mem[OF assms] by (simp add: keys3_def full_terms_def)
qed

lemma iri_keys_distinct: "distinct is \<Longrightarrow> distinct (map iri_key is)"
  by (simp add: distinct_map inj_on_def iri_key_def)

lemma datatype_iris_mem: "(s, p, ob) \<in> set ts \<Longrightarrow> set (plain_datatype ob) \<subseteq> set (datatype_iris ts)"
  by (force simp: datatype_iris_def)

lemma batched_loaded:
  assumes parse: "turtle base content = Some (map Some ts)" and w: "dict_ok hasher b R db w"
    and g: "g \<notin> set (trow s0)" and hs: "hash_order hs" and n: "0 < n"
  shows "\<exists>st'. ingest_turtle_dict_batched hs b turtle content g base n w s0 = Inr st' \<and>
           loaded hasher b R db g s0 ts st'"
proof -
  obtain dts w1 where r1: "fold (resolve_chunk b) (chunks n (hs (map iri_key (datatype_iris ts))))
      (Map.empty, w) = (dts, w1)" by fastforce
  define unres where "unres = filter (\<lambda>k. dts k = None) (hs (full_terms dts ts))"
  obtain m w2 where r2: "fold (resolve_chunk b) (chunks n unres) (dts, w1) = (m, w2)" by fastforce
  have dt: "set (hs (map iri_key (datatype_iris ts))) = iri_key ` set (datatype_iris ts)"
    using hash_orderD[OF hs iri_keys_distinct] by (simp add: datatype_iris_def)
  have 1: "dict_ok hasher b R db w1" "backs (visible w1 b) dts" "dom dts = iri_key ` set (datatype_iris ts)"
    using resolve_chunks_ok[OF w _ r1, unfolded concat_chunks[OF n] dt] by (simp_all add: backs_def)
  obtain new where 2: "dict_ok hasher b R db w2" "backs (visible w2 b) m" "dom m = dom dts \<union> set unres"
    "visible w2 b = visible w1 b @ new"
    using resolve_chunks_ok[OF 1(1,2) r2, unfolded concat_chunks[OF n]] by auto
  let ?kss = "map (\<lambda>(s, p, t). (node_key s, iri_key p, keyed_object dts t)) ts"
  have "distinct (full_terms dts ts)" by (simp add: full_terms_def)
  then have full: "set (full_terms dts ts) \<subseteq> dom m"
    unfolding 2(3) unres_def using hash_orderD[OF hs, of "full_terms dts ts"] by auto
  have keys: "\<forall>ks \<in> set ?kss. keys3 ks \<subseteq> dom m"
    using full_terms_mem[of _ _ _ ts dts] full by fastforce
  have "term_keyed (visible w1 b) (keyed_object dts ob) ob" if "(s, p, ob) \<in> set ts" for s p ob
  proof (rule keyed_object_keyed[OF 1(2)])
    show "set (plain_datatype ob) \<subseteq> {i. iri_key i \<in> dom dts}"
      using datatype_iris_mem[OF that] unfolding 1(3) by blast
  qed
  then have kd: "list_all2 (keyed (visible w2 b)) ?kss ts"
    unfolding 2(4) list_all2_map1 list_all2_same by (auto simp: keyed_def term_keyed_append)
  let ?st = "\<lparr>hm = m, lworld = w2, lstore = s0,
    lstats = zero_stats\<lparr>n_triples := int (length ts), n_db_calls := 2 * int (length (chunks n unres)),
                        n_cache_hits := int (length ts) * 3 - int (length unres)\<rparr>\<rparr>"
  have run: "ingest_turtle_dict_batched hs b turtle content g base n w s0 = batched_insert g ?kss [] ?st"
    using parse r1 r2 by (simp add: ingest_turtle_dict_batched_def Let_def comp_def unres_def image_iff)
  have "load_ok hasher b R db ?st" using 2(1,2) by (simp add: load_ok_backs)
  then show ?thesis
    unfolding run using batched_insert_loaded[OF g, of hasher b R db ?st "[]" "[]" "[]" ?kss ts] kd keys
    by (simp add: written_def)
qed

section \<open>The combined route\<close>

lemma try_resolve_ok:
  assumes "load_ok hasher b R db st" "key_clear hasher R db k"
    and "try_resolve_or_defer hasher b k (dq, st) = (dq', st')"
  shows "load_ok hasher b R db st' \<and> visible (lworld st') b = visible (lworld st) b \<and>
    dom (hm st) \<union> set dq \<union> {k} = dom (hm st') \<union> set dq' \<and> lstore st' = lstore st \<and>
    n_triples (lstats st') = n_triples (lstats st)"
proof (cases "hm st k \<noteq> None \<or> k \<in> set dq")
  case True
  with assms show ?thesis by (auto simp: try_resolve_or_defer_def hit_cache_def)
next
  case False
  note ok = load_okD(1)[OF assms(1)]
  obtain res c where l: "lookup hasher (bdb (backends (lworld st) b)) k (cache (lworld st)) = (res, c)"
    by fastforce
  have okc: "dict_ok hasher b R db ((lworld st)\<lparr>cache := c\<rparr>)"
    using dict_ok_look[OF ok, of "bdb (backends (lworld st) b)" k] l by simp
  show ?thesis
  proof (cases res)
    case None
    with False l assms(3) have "dq' = dq @ [k]" "st' = st\<lparr>lworld := (lworld st)\<lparr>cache := c\<rparr>\<rparr>"
      by (auto simp: try_resolve_or_defer_def Let_def)
    with assms(1) okc show ?thesis by (auto simp: load_ok_backs)
  next
    case (Some i)
    with False l assms(3) have st': "dq' = dq"
      "st' = tick hit_shmem (st\<lparr>lworld := (lworld st)\<lparr>cache := c\<rparr>, hm := (hm st)(k \<mapsto> i)\<rparr>)"
      by (auto simp: try_resolve_or_defer_def Let_def)
    have "dict_row_of (visible (lworld st) b) i = Some k"
      using shared_lookup_reads[OF ok assms(2)] l Some by simp
    then show ?thesis using load_ok_learn[OF assms(1) okc, of "[]" i k] st'
      by (auto simp: hit_shmem_def)
  qed
qed

lemma try_all_ok:
  "\<lbrakk>load_ok hasher b R db st; \<forall>k \<in> set ks. key_clear hasher R db k;
    fold (try_resolve_or_defer hasher b) ks (dq, st) = (dq', st')\<rbrakk>
   \<Longrightarrow> load_ok hasher b R db st' \<and> visible (lworld st') b = visible (lworld st) b \<and>
    dom (hm st) \<union> set dq \<union> set ks = dom (hm st') \<union> set dq' \<and> lstore st' = lstore st \<and>
    n_triples (lstats st') = n_triples (lstats st)"
proof (induction ks arbitrary: dq st)
  case Nil
  then show ?case by simp
next
  case (Cons k ks)
  obtain dq1 st1 where 1: "try_resolve_or_defer hasher b k (dq, st) = (dq1, st1)" by fastforce
  have f: "fold (try_resolve_or_defer hasher b) ks (dq1, st1) = (dq', st')"
    using Cons.prems(3) 1 by simp
  note s = try_resolve_ok[OF Cons.prems(1) _ 1]
  have i: "load_ok hasher b R db st' \<and> visible (lworld st') b = visible (lworld st1) b \<and>
      dom (hm st1) \<union> set dq1 \<union> set ks = dom (hm st') \<union> set dq' \<and> lstore st' = lstore st1 \<and>
      n_triples (lstats st') = n_triples (lstats st1)"
    using Cons.IH[OF _ _ f] s Cons.prems(2) by simp
  moreover have "dom (hm st) \<union> set dq \<union> {k} = dom (hm st1) \<union> set dq1" using s Cons.prems(2) by simp
  moreover have "dom (hm st) \<union> set dq \<union> set (k # ks) = (dom (hm st) \<union> set dq \<union> {k}) \<union> set ks" by simp
  ultimately have "dom (hm st) \<union> set dq \<union> set (k # ks) = dom (hm st') \<union> set dq'" by simp
  with i s Cons.prems(2) show ?case by simp
qed

lemma publish_load_ok:
  assumes "load_ok hasher b R db st" "dict_row_of (visible (lworld st) b) (snd ki) = Some (fst ki)"
  shows "load_ok hasher b R db (publish hasher b ki st)"
  using assms dict_ok_stage[OF load_okD(1)[OF assms(1)] assms(2)]
  by (auto simp: load_ok_def publish_def stage_visible)

lemma publish_simps [simp]:
  "visible (lworld (publish hasher b ki st)) b = visible (lworld st) b"
  "lstore (publish hasher b ki st) = lstore st" "lstats (publish hasher b ki st) = lstats st"
  "dom (hm (publish hasher b ki st)) = insert (fst ki) (dom (hm st))"
  by (simp_all add: publish_def stage_visible)

lemma publish_all_ok:
  "\<lbrakk>load_ok hasher b R db st;
    \<forall>ki \<in> set kis. dict_row_of (visible (lworld st) b) (snd ki) = Some (fst ki)\<rbrakk> \<Longrightarrow>
   load_ok hasher b R db (fold (publish hasher b) kis st) \<and>
   visible (lworld (fold (publish hasher b) kis st)) b = visible (lworld st) b \<and>
   dom (hm (fold (publish hasher b) kis st)) = dom (hm st) \<union> fst ` set kis \<and>
   lstore (fold (publish hasher b) kis st) = lstore st \<and> lstats (fold (publish hasher b) kis st) = lstats st"
proof (induction kis arbitrary: st)
  case Nil
  then show ?case by simp
next
  case (Cons ki kis)
  have "load_ok hasher b R db (publish hasher b ki st)"
    using publish_load_ok[OF Cons.prems(1)] Cons.prems(2) by simp
  then show ?case using Cons.IH[of "publish hasher b ki st"] Cons.prems(2) by simp
qed

lemma flush_defer_ok:
  assumes "load_ok hasher b R db st"
  shows "load_ok hasher b R db (flush_defer hasher b dq st) \<and>
    (\<exists>new. visible (lworld (flush_defer hasher b dq st)) b = visible (lworld st) b @ new) \<and>
    dom (hm (flush_defer hasher b dq st)) = dom (hm st) \<union> set dq \<and>
    lstore (flush_defer hasher b dq st) = lstore st \<and>
    n_triples (lstats (flush_defer hasher b dq st)) = n_triples (lstats st)"
proof (cases "dq = []")
  case True
  with assms show ?thesis by (simp add: flush_defer_def)
next
  case False
  obtain ids w where p: "put_terms_batch b dq (lworld st) = (ids, w)" by fastforce
  note ok = batch_ok[OF load_okD(1)[OF assms] p]
  obtain new where new: "visible w b = visible (lworld st) b @ new" using batch_frame(3)[OF p] by blast
  have start: "load_ok hasher b R db (st\<lparr>lworld := w\<rparr>)"
    using assms ok(1) backs_append new by (simp add: load_ok_backs)
  have "\<forall>ki \<in> set (zip dq ids). dict_row_of (visible w b) (snd ki) = Some (fst ki)"
    using ok(3) by (metis prod.collapse)
  moreover have "fst ` set (zip dq ids) = set dq" using ok(2) by (metis map_fst_zip set_map)
  ultimately show ?thesis
    using publish_all_ok[OF start, of "zip dq ids"] new False p
    by (simp add: flush_defer_def Let_def call_db_def)
qed


lemma object_key_ok:
  assumes "load_ok hasher b R db st" "\<forall>k \<in> term_keys ob. key_clear hasher R db k"
    and "object_key hasher b ob st = (k, st')"
  shows "load_ok hasher b R db st' \<and> (\<exists>new. visible (lworld st') b = visible (lworld st) b @ new) \<and>
    dom (hm st) \<subseteq> dom (hm st') \<and> term_keyed (visible (lworld st') b) k ob \<and> lstore st' = lstore st \<and>
    n_triples (lstats st') = n_triples (lstats st)"
proof (cases "\<exists>v dt. ob = Literal v None dt")
  case False
  then consider n where "ob = NodeTerm n" | v l dt where "ob = Literal v (Some l) dt"
    by (metis ox_term.exhaust option.exhaust)
  then show ?thesis using assms(1,3) by cases auto
next
  case True
  then obtain v dt where ob: "ob = Literal v None dt" by blast
  obtain d where d: "resolve_datatype_iri_sync hasher b (iri_key dt) st = (d, st')" "k = (3, v, Some d, None)"
    using assms(3) ob by (auto split: prod.splits)
  have c: "key_clear hasher R db (iri_key dt)" using assms(2) ob by simp
  have "dom (hm st) \<subseteq> dom (hm st') \<and> lstore st' = lstore st \<and> n_triples (lstats st') = n_triples (lstats st)"
    using d(1) by (auto simp: resolve_datatype_iri_sync_def Let_def hit_cache_def hit_shmem_def call_db_def
        split: option.splits prod.splits if_splits)
  then show ?thesis
    using datatype_sync.intern_ok[OF assms(1) c d(1)] datatype_sync.intern_reads[OF assms(1) c d(1)]
      datatype_sync.intern_grows[OF assms(1) c d(1)] ob d(2) by simp
qed

lemma defer_triple_ok:
  assumes "load_ok hasher b R db st" "\<forall>k \<in> triple_keys t. key_clear hasher R db k"
    and "defer_triple hasher b t (dq, st) = (ks, dq', st')"
  shows "load_ok hasher b R db st' \<and> (\<exists>new. visible (lworld st') b = visible (lworld st) b @ new) \<and>
    keyed (visible (lworld st') b) ks t \<and>
    dom (hm st) \<union> set dq \<union> keys3 ks \<subseteq> dom (hm st') \<union> set dq' \<and>
    lstore st' = lstore st \<and> n_triples (lstats st') = n_triples (lstats st) + 1"
proof -
  obtain s p ob where t: "t = (s, p, ob)" by (metis prod_cases3)
  obtain ok st1 where o: "object_key hasher b ob st = (ok, st1)" by fastforce
  obtain dq2 st2 where f: "fold (try_resolve_or_defer hasher b) [node_key s, iri_key p, ok] (dq, st1) = (dq2, st2)"
    by fastforce
  have res: "ks = (node_key s, iri_key p, ok)" "dq' = dq2" "st' = tick count_triple st2"
    using assms(3) o f by (auto simp: defer_triple_def t Let_def)
  have c: "\<forall>k \<in> term_keys ob. key_clear hasher R db k" using assms(2) by (auto simp: t triple_keys_def)
  note 1 = object_key_ok[OF assms(1) c o]
  have "keyed (visible (lworld st1) b) ks t" using 1 by (simp add: keyed_def t res)
  then have k: "keyed (visible (lworld st1) b) ks t" "\<forall>k \<in> keys3 ks. key_clear hasher R db k"
    using keyed_clear assms(2) by blast+
  have c2: "\<forall>k \<in> set [node_key s, iri_key p, ok]. key_clear hasher R db k"
    using k(2) by (simp add: keys3_def res)
  have l1: "load_ok hasher b R db st1" using 1 by blast
  have set: "dom (hm st1) \<union> set dq \<union> keys3 ks = dom (hm st2) \<union> set dq2"
    using try_all_ok[OF l1 c2 f] by (simp add: keys3_def res)
  have "dom (hm st) \<union> set dq \<union> keys3 ks \<subseteq> dom (hm st1) \<union> set dq \<union> keys3 ks" using 1 by blast
  then have sub: "dom (hm st) \<union> set dq \<union> keys3 ks \<subseteq> dom (hm st2) \<union> set dq2" unfolding set .
  show ?thesis using try_all_ok[OF l1 c2 f] 1 k(1) sub by (simp add: res count_triple_def)
qed

text \<open>Draining never misses: every waiting key has been resolved.\<close>

lemma drain_and_flush_loaded:
  assumes "load_ok hasher b R db st" "written g s0 st idss" "g \<notin> set (trow s0)"
    and "list_all2 (denotes (visible (lworld st) b)) idss seen"
    and "list_all2 (keyed (visible (lworld st) b)) waiting ts" "\<forall>ks \<in> set waiting. keys3 ks \<subseteq> dom (hm st)"
  shows "\<exists>st' new. drain_and_flush g waiting st = Inr st' \<and> hm st' = hm st \<and> lworld st' = lworld st \<and>
    n_triples (lstats st') = n_triples (lstats st) \<and> written g s0 st' (idss @ new) \<and>
    list_all2 (denotes (visible (lworld st) b)) (idss @ new) (seen @ ts)"
proof -
  let ?buf = "map (\<lambda>ks. the (look_up3 (hm st) ks)) waiting"
  have some: "\<exists>ids. look_up3 (hm st) ks = Some ids" if "ks \<in> set waiting" for ks
    using look_up3_some assms(6) that by blast
  then have drain: "drain_pending (hm st) waiting = Some ?buf"
    by (auto simp: drain_pending_def list_all_iff)
  have "list_all2 (denotes (visible (lworld st) b)) ?buf ts"
    unfolding list_all2_map1
  proof (rule list_all2_all_nthI)
    show "length waiting = length ts" using assms(5) by (rule list_all2_lengthD)
    fix i assume "i < length waiting"
    then show "denotes (visible (lworld st) b) (the (look_up3 (hm st) (waiting ! i))) (ts ! i)"
      using some[of "waiting ! i"] list_all2_nthD[OF assms(5), of i] assms(1)
        look_up3_denotes[of "visible (lworld st) b" "hm st" "waiting ! i" "ts ! i"]
      by (auto simp: load_ok_backs)
  qed
  then have "list_all2 (denotes (visible (lworld st) b)) (idss @ ?buf) (seen @ ts)"
    by (rule list_all2_appendI[OF assms(4)])
  moreover obtain st' where "flush_batch g ?buf st = Inr st'" "written g s0 st' (idss @ ?buf)" "hm st' = hm st"
    "lworld st' = lworld st" "n_triples (lstats st') = n_triples (lstats st)"
    using flush_batch_written[OF assms(2,3)] by blast
  ultimately show ?thesis using drain by (auto simp: drain_and_flush_def)
qed

text \<open>
  The invariant of the combined loop: what is written denotes the triples already drained, the
  waiting keys stand for the triples after them, and each of those keys is resolved or queued.
\<close>

definition combined_inv ::
    "hasher \<Rightarrow> nat \<Rightarrow> (32 word \<Rightarrow> dict_row list) \<Rightarrow> 32 word \<Rightarrow> int \<Rightarrow> store \<Rightarrow> ox_triple list
      \<Rightarrow> (dict_key \<times> dict_key \<times> dict_key) list \<Rightarrow> dict_key list \<Rightarrow> loader \<Rightarrow> bool" where
  "combined_inv hasher b R db g s0 seen waiting dq st \<longleftrightarrow>
     load_ok hasher b R db st \<and> n_triples (lstats st) = int (length seen) \<and>
     (\<forall>ks \<in> set waiting. keys3 ks \<subseteq> dom (hm st) \<union> set dq) \<and>
     (\<exists>idss fin ts. seen = fin @ ts \<and> written g s0 st idss \<and>
        list_all2 (denotes (visible (lworld st) b)) idss fin \<and>
        list_all2 (keyed (visible (lworld st) b)) waiting ts)"

lemma combined_inv_flush:
  assumes "combined_inv hasher b R db g s0 seen waiting dq st"
  shows "combined_inv hasher b R db g s0 seen waiting [] (flush_defer hasher b dq st)"
proof -
  from assms have l: "load_ok hasher b R db st" by (simp add: combined_inv_def)
  obtain new where new: "visible (lworld (flush_defer hasher b dq st)) b = visible (lworld st) b @ new"
    using flush_defer_ok[OF l, of dq] by blast
  obtain idss fin ts where i: "seen = fin @ ts" "written g s0 st idss"
    "list_all2 (denotes (visible (lworld st) b)) idss fin"
    "list_all2 (keyed (visible (lworld st) b)) waiting ts"
    using assms by (auto simp: combined_inv_def)
  have "list_all2 (keyed (visible (lworld st) b @ new)) waiting ts"
    using i(4) by (rule list_all2_mono) (rule keyed_append)
  moreover have "list_all2 (denotes (visible (lworld st) b @ new)) idss fin"
    using i(3) by (rule denoted_list_append)
  ultimately show ?thesis
    using assms flush_defer_ok[OF l, of dq] i(1,2) unfolding combined_inv_def new
    by (auto simp: written_def)
qed

lemma combined_inv_drain:
  assumes "combined_inv hasher b R db g s0 seen waiting [] st" "g \<notin> set (trow s0)"
  shows "\<exists>st'. drain_and_flush g waiting st = Inr st' \<and> combined_inv hasher b R db g s0 seen [] [] st'"
proof -
  obtain idss fin ts where i: "seen = fin @ ts" "written g s0 st idss"
    "list_all2 (denotes (visible (lworld st) b)) idss fin"
    "list_all2 (keyed (visible (lworld st) b)) waiting ts"
    and l: "load_ok hasher b R db st" "\<forall>ks \<in> set waiting. keys3 ks \<subseteq> dom (hm st)"
    and n: "n_triples (lstats st) = int (length seen)"
    using assms(1) by (auto simp: combined_inv_def)
  obtain st' new where "drain_and_flush g waiting st = Inr st'" "hm st' = hm st" "lworld st' = lworld st"
    "n_triples (lstats st') = n_triples (lstats st)" "written g s0 st' (idss @ new)"
    "list_all2 (denotes (visible (lworld st) b)) (idss @ new) (fin @ ts)"
    using drain_and_flush_loaded[OF l(1) i(2) assms(2) i(3,4) l(2)] by blast
  then show ?thesis using n i(1) load_ok_cong[of st' st] l(1) by (auto simp: combined_inv_def)
qed

lemma combined_inv_loaded: "combined_inv hasher b R db g s0 seen [] dq st \<Longrightarrow> loaded hasher b R db g s0 seen st"
  by (auto simp: combined_inv_def loaded_def)

lemma combined_inv_defer:
  assumes "combined_inv hasher b R db g s0 seen waiting dq st" "\<forall>k \<in> triple_keys t. key_clear hasher R db k"
    and "defer_triple hasher b t (dq, st) = (ks, dq', st')"
  shows "combined_inv hasher b R db g s0 (seen @ [t]) (waiting @ [ks]) dq' st'"
proof -
  obtain idss fin ts where i: "seen = fin @ ts" "written g s0 st idss"
    "list_all2 (denotes (visible (lworld st) b)) idss fin"
    "list_all2 (keyed (visible (lworld st) b)) waiting ts"
    and l: "load_ok hasher b R db st" "\<forall>ks \<in> set waiting. keys3 ks \<subseteq> dom (hm st) \<union> set dq"
    and n: "n_triples (lstats st) = int (length seen)"
    using assms(1) by (auto simp: combined_inv_def)
  obtain new where d: "load_ok hasher b R db st'" "visible (lworld st') b = visible (lworld st) b @ new"
    "keyed (visible (lworld st') b) ks t" "dom (hm st) \<union> set dq \<union> keys3 ks \<subseteq> dom (hm st') \<union> set dq'"
    "lstore st' = lstore st" "n_triples (lstats st') = n_triples (lstats st) + 1"
    using defer_triple_ok[OF l(1) assms(2,3)] by blast
  have "list_all2 (keyed (visible (lworld st') b)) waiting ts"
    using i(4) unfolding d(2) by (rule list_all2_mono) (rule keyed_append)
  then have w: "list_all2 (keyed (visible (lworld st') b)) (waiting @ [ks]) (ts @ [t])"
    using d(3) by (simp add: list_all2_appendI)
  have dn: "list_all2 (denotes (visible (lworld st') b)) idss fin"
    using i(3) unfolding d(2) by (rule denoted_list_append)
  have kk: "\<forall>k \<in> set (waiting @ [ks]). keys3 k \<subseteq> dom (hm st') \<union> set dq'"
  proof
    fix k assume "k \<in> set (waiting @ [ks])"
    then have "keys3 k \<subseteq> dom (hm st) \<union> set dq \<union> keys3 ks" using l(2) by auto
    then show "keys3 k \<subseteq> dom (hm st') \<union> set dq'" using d(4) by (rule subset_trans)
  qed
  have "seen @ [t] = fin @ ts @ [t]" "written g s0 st' idss" using i(1,2) d(5) by (simp_all add: written_def)
  then show ?thesis unfolding combined_inv_def using d(1,6) n kk w dn by auto
qed

lemma combined_loop_loaded:
  assumes "g \<notin> set (trow s0)"
  shows "\<lbrakk>combined_inv hasher b R db g s0 seen waiting dq st;
      \<forall>t \<in> set ts. \<forall>k \<in> triple_keys t. key_clear hasher R db k\<rbrakk>
    \<Longrightarrow> \<exists>st'. combined_loop hasher b n g (map Some ts) waiting dq st = Inr st' \<and>
          loaded hasher b R db g s0 (seen @ ts) st'"
proof (induction ts arbitrary: waiting dq st seen)
  case Nil
  note f = combined_inv_flush[OF Nil(1)]
  show ?case
  proof (cases "waiting = []")
    case True
    with f show ?thesis by (simp add: combined_inv_loaded Let_def)
  next
    case False
    with combined_inv_drain[OF f assms] show ?thesis by (auto simp: Let_def dest: combined_inv_loaded)
  qed
next
  case (Cons t ts)
  obtain ks dq1 st1 where d: "defer_triple hasher b t (dq, st) = (ks, dq1, st1)" by (metis prod_cases3)
  have 1: "combined_inv hasher b R db g s0 (seen @ [t]) (waiting @ [ks]) dq1 st1"
    using combined_inv_defer[OF Cons.prems(1) _ d] Cons.prems(2) by simp
  define r where "r = (if n \<le> length dq1 then ([], flush_defer hasher b dq1 st1) else (dq1, st1))"
  have 2: "combined_inv hasher b R db g s0 (seen @ [t]) (waiting @ [ks]) (fst r) (snd r)"
    using 1 combined_inv_flush[OF 1] by (simp add: r_def)
  have k: "\<forall>t \<in> set ts. \<forall>k \<in> triple_keys t. key_clear hasher R db k" using Cons.prems(2) by simp
  have run: "combined_loop hasher b n g (map Some (t # ts)) waiting dq st =
      (if BATCH_SIZE \<le> length (waiting @ [ks])
       then res_bind (drain_and_flush g (waiting @ [ks]) (flush_defer hasher b (fst r) (snd r)))
              (combined_loop hasher b n g (map Some ts) [] [])
       else combined_loop hasher b n g (map Some ts) (waiting @ [ks]) (fst r) (snd r))"
    by (simp add: d r_def Let_def split_beta)
  show ?case
  proof (cases "BATCH_SIZE \<le> length (waiting @ [ks])")
    case True
    obtain st2 where "drain_and_flush g (waiting @ [ks]) (flush_defer hasher b (fst r) (snd r)) = Inr st2"
      "combined_inv hasher b R db g s0 (seen @ [t]) [] [] st2"
      using combined_inv_drain[OF combined_inv_flush[OF 2] assms] by blast
    then show ?thesis unfolding run using Cons.IH[of "seen @ [t]" "[]" "[]" st2] k True by simp
  next
    case False
    then show ?thesis unfolding run using Cons.IH[OF 2 k] by simp
  qed
qed

section \<open>Every route loads the same triples\<close>

lemma prewarm_dict_ok:
  assumes "dict_ok hasher b R db w"
  shows "dict_ok hasher b R db (snd (shmem_cache_prewarm hasher b n w))"
proof -
  have "wstep hasher w (snd (shmem_cache_prewarm hasher b n w))" by (rule wstep.prewarm)
  moreover have "rows (fold (\<lambda>r. stage_for_commit hasher b (row_key r) (row_id r)) rs w) = rows w \<and>
      bdb (backends (fold (\<lambda>r. stage_for_commit hasher b (row_key r) (row_id r)) rs w) b) = bdb (backends w b)" for rs
    by (rule fold_invariant) simp_all
  ultimately show ?thesis
    using assms wstep_world_ok wstep_ids_ok
    by (auto simp: dict_ok_def shmem_cache_prewarm_def Let_def)
qed

lemma maybe_prewarm_dict_ok:
  "dict_ok hasher b R db w \<Longrightarrow> dict_ok hasher b R db (snd (maybe_prewarm_once hasher b (d, w)))"
  by (simp add: maybe_prewarm_once_def prewarm_dict_ok)

lemma start_load_ok: "dict_ok hasher b R db w \<Longrightarrow> load_ok hasher b R db (start_load w st)"
  by (simp add: load_ok_def start_load_def)

lemma written_start: "written g s0 (start_load w s0) []"
  by (simp add: written_def start_load_def)

lemma n_triples_start: "n_triples (lstats (start_load w st)) = 0"
  by (simp add: start_load_def zero_stats_def)

lemma baseline_loaded:
  assumes "turtle base content = Some (map Some ts)" "dict_ok hasher b R db w" "g \<notin> set (trow s0)"
    and "\<forall>t \<in> set ts. \<forall>k \<in> triple_keys t. key_clear hasher R db k"
  shows "\<exists>st'. ingest_turtle_with_stats hasher b turtle content g base w s0 = Inr st' \<and>
           loaded hasher b R db g s0 ts st'"
  using baseline_loop_loaded[OF assms(3) start_load_ok[OF assms(2)] written_start, of "[]" "[]" ts] assms(1,4)
  by (simp add: ingest_turtle_with_stats_def n_triples_start)

lemma combined_loaded:
  assumes "turtle base content = Some (map Some ts)" "dict_ok hasher b R db w" "g \<notin> set (trow s0)"
    and "\<forall>t \<in> set ts. \<forall>k \<in> triple_keys t. key_clear hasher R db k"
  shows "\<exists>st'. ingest_turtle_combined hasher b turtle content g base n w s0 = Inr st' \<and>
           loaded hasher b R db g s0 ts st'"
proof -
  have "combined_inv hasher b R db g s0 [] [] [] (start_load w s0)"
    using start_load_ok[OF assms(2), of s0] written_start[of g s0 w]
    by (auto simp: combined_inv_def n_triples_start)
  then show ?thesis
    using combined_loop_loaded[OF assms(3), of hasher b R db "[]" "[]" "[]" "start_load w s0" ts n] assms(1,4)
    by (simp add: ingest_turtle_combined_def)
qed

lemma dict_batch_size_pos: "0 < dict_batch_size cf"
  by (simp add: dict_batch_size_def)

lemma begin_record_frame [simp]:
  "trow (begin_source_record g st) = trow st" "quads (begin_source_record g st) = quads st"
  by (simp_all add: begin_source_record_def update_graph_def)

lemma finish_record_frame:
  "finish_source_record sha g c (st\<lparr>quads := qs'\<rparr>) = (finish_source_record sha g c st)\<lparr>quads := qs'\<rparr>"
  by (simp add: finish_source_record_def update_graph_def)

lemma reachable_dict_ok:
  "reachable hasher db_of w \<Longrightarrow> dict_ok hasher b (rows w) (bdb (backends w b)) w"
  by (simp add: dict_ok_def reachable_world_ok reachable_ids_ok)

lemma loaded_reads:
  assumes "loaded hasher b R db g s0 ts st"
  shows "\<exists>idss. lstore st = s0\<lparr>quads := quads s0 @ map (asserted_quad g) idss\<rparr> \<and>
    map (read_quad (visible (lworld st) b)) (map (asserted_quad g) idss) = map (\<lambda>t. Some (as_triple t)) ts"
proof -
  obtain idss where i: "written g s0 st idss" "list_all2 (denotes (visible (lworld st) b)) idss ts"
    using assms by (auto simp: loaded_def)
  have "map (\<lambda>ids. read_quad (visible (lworld st) b) (asserted_quad g ids)) idss = map (\<lambda>t. Some (as_triple t)) ts"
    using i(2) by (induction rule: list_all2_induct) (simp_all add: denotes_read)
  then show ?thesis using i(1) by (auto simp: written_def comp_def)
qed

lemma ingest_faithful_aux:
  assumes "reachable hasher db_of w" "\<not> locked st g" "g \<notin> set (trow st)" "hash_order hs"
    and "turtle base content = Some (map Some ts)"
    and "\<forall>t \<in> set ts. \<forall>k \<in> triple_keys t. no_collision hasher w (bdb (backends w b)) k"
  shows "\<exists>d ld idss. ingest_dispatch hasher hs sha b turtle cf content g base (prewarmed, w) st = Inr (d, ld) \<and>
     n_triples (lstats ld) = int (length ts) \<and>
     lstore ld = (finish_source_record sha g content (begin_source_record g st))
                   \<lparr>quads := quads st @ map (asserted_quad g) idss\<rparr> \<and>
     map (read_quad (visible (lworld ld) b)) (map (asserted_quad g) idss) = map (\<lambda>t. Some (as_triple t)) ts"
proof -
  let ?R = "rows w" and ?db = "bdb (backends w b)" and ?st = "begin_source_record g st"
  obtain d w1 where w1: "(if guc_prewarm_on_init cf \<or> ingest_dict_path cf = ShmemWarm
      then maybe_prewarm_once hasher b (prewarmed, w) else (prewarmed, w)) = (d, w1)" by fastforce
  have ok: "dict_ok hasher b ?R ?db w1"
    using reachable_dict_ok[OF assms(1), of b] maybe_prewarm_dict_ok[of hasher b ?R ?db w prewarmed] w1
    by (auto split: if_splits)
  have k: "\<forall>t \<in> set ts. \<forall>k \<in> triple_keys t. key_clear hasher ?R ?db k"
    using assms(6) by (simp add: key_clear_def no_collision_def)
  have g: "g \<notin> set (trow ?st)" using assms(3) by simp
  define run where "run = (case ingest_dict_path cf of
      Batched \<Rightarrow> ingest_turtle_dict_batched hs b turtle content g base (dict_batch_size cf) w1 ?st
    | Combined \<Rightarrow> ingest_turtle_combined hasher b turtle content g base (dict_batch_size cf) w1 ?st
    | _ \<Rightarrow> ingest_turtle_with_stats hasher b turtle content g base w1 ?st)"
  obtain ld where ld: "run = Inr ld" "loaded hasher b ?R ?db g ?st ts ld"
    using batched_loaded[where turtle = turtle and base = base and content = content and ts = ts, OF assms(5) ok g assms(4) dict_batch_size_pos]
      combined_loaded[where turtle = turtle and base = base and content = content and ts = ts, OF assms(5) ok g k] baseline_loaded[where turtle = turtle and base = base and content = content and ts = ts, OF assms(5) ok g k]
    unfolding run_def by (cases "ingest_dict_path cf") auto
  have disp: "ingest_dispatch hasher hs sha b turtle cf content g base (prewarmed, w) st =
      Inr (d, tick (\<lambda>s. s\<lparr>st_path := path_str (ingest_dict_path cf)\<rparr>)
        (ld\<lparr>lstore := finish_source_record sha g content (lstore ld)\<rparr>))"
    using ld(1) w1 assms(2) require_unlocked_Inr[of g st "()"]
    by (simp add: ingest_dispatch_def Let_def run_def)
  obtain idss where i: "lstore ld = ?st\<lparr>quads := quads ?st @ map (asserted_quad g) idss\<rparr>"
    "map (read_quad (visible (lworld ld) b)) (map (asserted_quad g) idss) = map (\<lambda>t. Some (as_triple t)) ts"
    using loaded_reads[OF ld(2)] by blast
  have "n_triples (lstats ld) = int (length ts)" using ld(2) by (simp add: loaded_def)
  then show ?thesis
    using i unfolding disp by (auto simp: finish_record_frame intro!: exI[of _ idss])
qed

text \<open>C12: Whatever route the settings select (per-term interning, the two-pass batch, the prewarmed
  cache or the defer queue), loading a text that parses into an unlocked graph succeeds, writes one
  asserted quad per parsed triple in document order, records the load, changes nothing else in the
  store, and each quad read back through the dictionary is the parsed triple. So the four routes
  cannot be told apart by what they load.
\<close>

theorem ingest_faithful:
  assumes "reachable hasher db_of w" "\<not> locked st g" "g \<notin> set (trow st)" "hash_order hs"
    and "turtle base content = Some (map Some ts)"
    and "\<forall>t \<in> set ts. \<forall>k \<in> triple_keys t. no_collision hasher w (bdb (backends w b)) k"
  shows "\<exists>d ld idss. ingest_dispatch hasher hs sha b turtle cf content g base (prewarmed, w) st = Inr (d, ld) \<and>
     n_triples (lstats ld) = int (length ts) \<and>
     lstore ld = (finish_source_record sha g content (begin_source_record g st))
                   \<lparr>quads := quads st @ map (asserted_quad g) idss\<rparr> \<and>
     map (read_quad (visible (lworld ld) b)) (map (asserted_quad g) idss) = map (\<lambda>t. Some (as_triple t)) ts"
  using assms by (rule ingest_faithful_aux)

definition toy_doc :: "ox_triple list" where
  "toy_doc = [(BlankNode ''b'', ''ex:p'', Literal ''x'' None ''dt'')]"

lemma hash_order_id: "hash_order id"
  by (simp add: hash_order_def)

lemma toy_db [simp]: "bdb (backends toy_world 0) = 1"
  by (simp add: toy_world_def xact_commit_def Let_def put_term_full_def stage_for_commit_def
      insert_row_def init_world_def idle_backend_def split: option.splits prod.splits)

lemma toy_doc_clear: "\<forall>t \<in> set toy_doc. \<forall>k \<in> triple_keys t. no_collision toy_hasher toy_world 1 k"
  by (auto simp: toy_doc_def triple_keys_def no_collision_def toy_world_eval(1) fingerprint_def
      toy_hasher_def iri_key_def)

theorem ingest_faithful_witness:
  "\<exists>d ld idss. ingest_dispatch toy_hasher id id 0 (\<lambda>_ _. Some (map Some toy_doc))
       \<lparr>guc_dict_path = Combined, guc_dict_batch_size = 500, guc_prewarm_on_init = True\<rparr>
       ''doc'' 7 None (False, toy_world) fresh_store = Inr (d, ld) \<and>
     n_triples (lstats ld) = int (length toy_doc) \<and>
     lstore ld = (finish_source_record id 7 ''doc'' (begin_source_record 7 fresh_store))
                   \<lparr>quads := quads fresh_store @ map (asserted_quad 7) idss\<rparr> \<and>
     map (read_quad (visible (lworld ld) 0)) (map (asserted_quad 7) idss) = map (\<lambda>t. Some (as_triple t)) toy_doc"
  by (rule ingest_faithful[OF toy_reachable])
    (simp_all add: toy_doc_clear hash_order_id,
      simp_all add: locked_def fresh_store_def find_graph_def new_row_def)

lemma ingest_succeeds_toy:
  "\<exists>d ld. ingest_dispatch toy_hasher id id 0 (\<lambda>_ _. Some (map Some toy_doc))
       \<lparr>guc_dict_path = Combined, guc_dict_batch_size = 500, guc_prewarm_on_init = True\<rparr>
       ''doc'' 7 None (False, toy_world) fresh_store = Inr (d, ld)"
proof -
  have l: "\<not> locked fresh_store 7" "7 \<notin> set (trow fresh_store)"
    by (simp_all add: locked_def fresh_store_def find_graph_def new_row_def)
  show ?thesis
    using ingest_faithful_aux[OF toy_reachable l hash_order_id refl toy_doc_clear[folded toy_db]] by blast
qed

section \<open>The accounting of term references\<close>

text \<open>Every reference to a term is counted once, on whichever layer satisfied it.\<close>

definition refs :: "loader_stats \<Rightarrow> int" where
  "refs s = n_cache_hits s + n_shmem_hits s + n_db_calls s"

definition triple_refs :: "ox_triple \<Rightarrow> int" where
  "triple_refs t = 3 + int (length (plain_datatype (snd (snd t))))"

lemma refs_simps [simp]:
  "refs (hit_cache s) = refs s + 1" "refs (hit_shmem s) = refs s + 1" "refs (call_db n s) = refs s + n"
  "refs (count_triple s) = refs s" "refs (count_batch s) = refs s"
  by (simp_all add: refs_def hit_cache_def hit_shmem_def call_db_def count_triple_def count_batch_def)

lemma intern_term_refs: "intern_term hasher b k st = (i, st') \<Longrightarrow> refs (lstats st') = refs (lstats st) + 1"
  by (auto simp: intern_term_def Let_def split: option.splits prod.splits if_splits)

lemma datatype_sync_refs:
  "resolve_datatype_iri_sync hasher b k st = (i, st') \<Longrightarrow> refs (lstats st') = refs (lstats st) + 1"
  by (auto simp: resolve_datatype_iri_sync_def Let_def split: option.splits prod.splits if_splits)

lemma object_to_id_refs:
  "object_to_id (intern_term hasher b) ob st = (i, st') \<Longrightarrow>
     refs (lstats st') = refs (lstats st) + 1 + int (length (plain_datatype ob))"
  by (induction "intern_term hasher b" ob st rule: object_to_id.induct)
    (auto dest!: intern_term_refs split: prod.splits)

lemma triple_to_ids_refs:
  "triple_to_ids (intern_term hasher b) t st = (ids, st') \<Longrightarrow>
     refs (lstats st') = refs (lstats st) + triple_refs t"
  by (cases t) (auto simp: triple_to_ids_def subject_to_id_def triple_refs_def
      dest!: intern_term_refs object_to_id_refs split: prod.splits)

lemma flush_batch_refs: "flush_batch g buf st = Inr st' \<Longrightarrow> refs (lstats st') = refs (lstats st)"
  by (auto simp: flush_batch_def split: if_splits)

lemma baseline_loop_refs:
  "baseline_loop hasher b g (map Some ts) buf st = Inr st' \<Longrightarrow>
     refs (lstats st') = refs (lstats st) + sum_list (map triple_refs ts)"
proof (induction ts arbitrary: buf st)
  case Nil
  then show ?case using flush_batch_refs by simp
next
  case (Cons t ts)
  obtain ids st1 where t: "triple_to_ids (intern_term hasher b) t st = (ids, st1)" by fastforce
  show ?case
    using Cons.prems Cons.IH triple_to_ids_refs[OF t] t
    by (fastforce simp: Let_def dest: flush_batch_refs split: if_splits)
qed

definition known_refs :: "dict_key list \<times> loader \<Rightarrow> int" where
  "known_refs x = refs (lstats (snd x)) + int (length (fst x))"

lemma try_resolve_refs: "known_refs (try_resolve_or_defer hasher b k x) = known_refs x + 1"
  by (cases x) (auto simp: known_refs_def try_resolve_or_defer_def Let_def split: option.splits prod.splits)

lemma try_all_refs: "known_refs (fold (try_resolve_or_defer hasher b) ks x) = known_refs x + int (length ks)"
  by (induction ks arbitrary: x) (simp_all add: try_resolve_refs)

lemma object_key_refs:
  "object_key hasher b ob st = (k, st') \<Longrightarrow>
     refs (lstats st') = refs (lstats st) + int (length (plain_datatype ob))"
  by (induction hasher b ob st rule: object_key.induct)
    (auto dest!: datatype_sync_refs split: prod.splits)

lemma defer_triple_refs:
  assumes "defer_triple hasher b t (dq, st) = (ks, dq', st')"
  shows "refs (lstats st') + int (length dq') = refs (lstats st) + int (length dq) + triple_refs t"
proof -
  obtain s p ob where t: "t = (s, p, ob)" by (metis prod_cases3)
  obtain ok st1 where o: "object_key hasher b ob st = (ok, st1)" by fastforce
  let ?x = "fold (try_resolve_or_defer hasher b) [node_key s, iri_key p, ok] (dq, st1)"
  have "dq' = fst ?x" "st' = tick count_triple (snd ?x)"
    using assms o by (simp_all add: defer_triple_def t Let_def split_beta)
  moreover have "known_refs ?x = known_refs (dq, st1) + 3"
    using try_all_refs[of hasher b "[node_key s, iri_key p, ok]" "(dq, st1)"] by simp
  ultimately show ?thesis
    using object_key_refs[OF o] by (simp add: known_refs_def triple_refs_def t)
qed

lemma publish_all_stats: "lstats (fold (publish hasher b) kis st) = lstats st"
  by (induction kis arbitrary: st) simp_all

lemma flush_defer_refs: "refs (lstats (flush_defer hasher b dq st)) = refs (lstats st) + int (length dq)"
  by (auto simp: flush_defer_def Let_def publish_all_stats split: prod.splits)

lemma drain_and_flush_refs: "drain_and_flush g waiting st = Inr st' \<Longrightarrow> refs (lstats st') = refs (lstats st)"
  by (auto simp: drain_and_flush_def dest: flush_batch_refs split: option.splits)

lemma combined_loop_refs:
  "combined_loop hasher b n g (map Some ts) waiting dq st = Inr st' \<Longrightarrow>
     refs (lstats st') = refs (lstats st) + int (length dq) + sum_list (map triple_refs ts)"
proof (induction ts arbitrary: waiting dq st)
  case Nil
  then show ?case
    by (auto simp: Let_def flush_defer_refs dest: drain_and_flush_refs split: if_splits)
next
  case (Cons t ts)
  obtain ks dq1 st1 where d: "defer_triple hasher b t (dq, st) = (ks, dq1, st1)" by (metis prod_cases3)
  show ?case
    using Cons.prems defer_triple_refs[OF d] d
    by (auto simp: Let_def flush_defer_refs split: if_splits dest!: Cons.IH drain_and_flush_refs)
qed

text \<open>On the per-term and the combined routes the three counters of the verbose statistics add
  up exactly: three references for each triple, and one more, for the datatype, for each literal
  without a language tag. No reference is lost or counted twice, whether it was satisfied by the
  call's map, by the shared cache, by the table or in a batch.
\<close>

theorem references_accounted:
  assumes "ingest_dispatch hasher hs sha b turtle cf content g base dw st = Inr (d, ld)"
    and "ingest_dict_path cf \<noteq> Batched" "turtle base content = Some (map Some ts)"
  shows "n_cache_hits (lstats ld) + n_shmem_hits (lstats ld) + n_db_calls (lstats ld)
    = 3 * int (length ts) + int (length (filter (\<lambda>(s, p, ob). plain_datatype ob \<noteq> []) ts))"
proof -
  have start: "refs (lstats (start_load w s)) = 0" for w s
    by (simp add: refs_def start_load_def zero_stats_def)
  let ?s = "begin_source_record g st"
  obtain d1 w1 where w1: "(if guc_prewarm_on_init cf \<or> ingest_dict_path cf = ShmemWarm
      then maybe_prewarm_once hasher b dw else dw) = (d1, w1)" by fastforce
  define run where "run = (if ingest_dict_path cf = Combined
      then combined_loop hasher b (dict_batch_size cf) g (map Some ts) [] [] (start_load w1 ?s)
      else baseline_loop hasher b g (map Some ts) [] (start_load w1 ?s))"
  have "\<exists>ld'. run = Inr ld' \<and> refs (lstats ld) = refs (lstats ld')"
    using assms w1 by (cases "ingest_dict_path cf")
      (auto simp: ingest_dispatch_def ingest_turtle_with_stats_def ingest_turtle_combined_def refs_def run_def)
  then have "refs (lstats ld) = sum_list (map triple_refs ts)"
    unfolding run_def using baseline_loop_refs combined_loop_refs
    by (fastforce simp: start split: if_splits)
  moreover have "sum_list (map triple_refs ts)
      = 3 * int (length ts) + int (length (filter (\<lambda>(s, p, ob). plain_datatype ob \<noteq> []) ts))"
  proof (induction ts)
    case (Cons t ts)
    obtain s p ob where t: "t = (s, p, ob)" by (metis prod_cases3)
    have "length (plain_datatype ob) = (if plain_datatype ob = [] then 0 else 1)"
      by (cases ob rule: plain_datatype.cases) simp_all
    with Cons t show ?case by (simp add: triple_refs_def)
  qed simp
  ultimately show ?thesis by (simp add: refs_def)
qed

text \<open>The doc of \<open>try_resolve_or_defer\<close> gives the sum as three per triple; a typed literal adds one.\<close>

theorem references_accounted_witness:
  "let ld = snd (projr (ingest_dispatch toy_hasher id id 0 (\<lambda>_ _. Some (map Some toy_doc))
       \<lparr>guc_dict_path = Combined, guc_dict_batch_size = 500, guc_prewarm_on_init = True\<rparr>
       ''doc'' 7 None (False, toy_world) fresh_store))
   in n_cache_hits (lstats ld) + n_shmem_hits (lstats ld) + n_db_calls (lstats ld) = 4"
proof -
  let ?cf = "\<lparr>guc_dict_path = Combined, guc_dict_batch_size = 500, guc_prewarm_on_init = True\<rparr>"
  let ?r = "ingest_dispatch toy_hasher id id 0 (\<lambda>_ _. Some (map Some toy_doc)) ?cf ''doc'' 7 None (False, toy_world) fresh_store"
  obtain d ld where r: "?r = Inr (d, ld)"
    using ingest_succeeds_toy by blast
  have "ingest_dict_path ?cf \<noteq> Batched" by (simp add: ingest_dict_path_def)
  from references_accounted[OF r this refl] show ?thesis
    unfolding r Let_def by (simp add: toy_doc_def)
qed

section \<open>The lock and the spike loader\<close>

definition frozen_store :: store where
  "frozen_store = projr (lock_graph 0 ''frozen'' fresh_store)"

lemma frozen_store_locked: "lock_graph 0 ''frozen'' fresh_store = Inr frozen_store"
  "locked frozen_store 0" "0 \<notin> set (trow frozen_store)" "quads frozen_store = []"
proof -
  have "\<not> blank ''frozen''" by (simp add: ws_bytes_def)
  then show l: "lock_graph 0 ''frozen'' fresh_store = Inr frozen_store"
    by (simp add: frozen_store_def lock_graph_def fresh_store_def find_graph_def new_row_def
        install_lock_triggers_def dedicated_partition_def update_graph_def)
  then have fs: "frozen_store = fresh_store\<lparr>graphs :=
      map (\<lambda>r. r\<lparr>glocked := True, greason := Some ''frozen'', gdigest := None\<rparr>) (graphs fresh_store)\<rparr>"
    using \<open>\<not> blank ''frozen''\<close> by (simp add: lock_graph_def fresh_store_def find_graph_def new_row_def
        install_lock_triggers_def dedicated_partition_def update_graph_def)
  show "locked frozen_store 0" "0 \<notin> set (trow frozen_store)" "quads frozen_store = []"
    by (simp_all add: fs fresh_store_def find_graph_def new_row_def locked_def)
qed



end
