(* ===== verification/Rdfs_Closure.thy ===== *)
theory Rdfs_Closure
  imports Ingest
begin

text \<open>
  The RDFS profile of \<open>materialize\<close> (\<open>rdfs_closure\<close> in \<open>src/inference/reasonable.rs\<close>): six entailment rules
  applied round by round to a set of triples until nothing new appears. The set is a list without
  repetition; what a round adds does not depend on the order in which it visits the set. Whether a
  string is an IRI is oxrdf's decision (\<open>NamedNode::new\<close>), the parameter \<open>valid\<close>. The result is compared with
  the rules of RDF 1.1 Semantics, an \<open>inductive\<close> set.
\<close>

section \<open>Code\<close>

definition RDF_TYPE :: string where "RDF_TYPE = ''http://www.w3.org/1999/02/22-rdf-syntax-ns#type''"
definition RDFS_SUBCLASSOF :: string where "RDFS_SUBCLASSOF = ''http://www.w3.org/2000/01/rdf-schema#subClassOf''"
definition RDFS_SUBPROPERTYOF :: string where "RDFS_SUBPROPERTYOF = ''http://www.w3.org/2000/01/rdf-schema#subPropertyOf''"
definition RDFS_DOMAIN :: string where "RDFS_DOMAIN = ''http://www.w3.org/2000/01/rdf-schema#domain''"
definition RDFS_RANGE :: string where "RDFS_RANGE = ''http://www.w3.org/2000/01/rdf-schema#range''"

fun named_str :: "named_or_blank \<Rightarrow> string option" where
  "named_str (NamedNode n) = Some n"
| "named_str (BlankNode b) = None"

fun term_named_str :: "ox_term \<Rightarrow> string option" where
  "term_named_str (NodeTerm (NamedNode n)) = Some n"
| "term_named_str ob = None"

fun term_as_subject :: "ox_term \<Rightarrow> named_or_blank option" where
  "term_as_subject (NodeTerm n) = Some n"
| "term_as_subject (Literal v l dt) = None"

text \<open>One of the four maps of a round, as its list of entries.\<close>

definition schema_entry :: "string \<Rightarrow> ox_triple \<Rightarrow> (string \<times> string) option" where
  "schema_entry prop t =
     (case t of (s, p, ob) \<Rightarrow>
        if p = prop then (case (named_str s, term_named_str ob) of (Some a, Some b) \<Rightarrow> Some (a, b) | _ \<Rightarrow> None) else None)"

definition schema :: "string \<Rightarrow> ox_triple list \<Rightarrow> (string \<times> string) list" where
  "schema prop ts = flatten_opts (map (schema_entry prop) ts)"

definition get :: "string \<Rightarrow> (string \<times> string) list \<Rightarrow> string list" where
  "get k m = map snd (filter (\<lambda>x. fst x = k) m)"

definition named_triple :: "(string \<Rightarrow> bool) \<Rightarrow> named_or_blank \<Rightarrow> string \<Rightarrow> string \<Rightarrow> ox_triple list" where
  "named_triple valid s p c = (if valid c then [(s, p, NodeTerm (NamedNode c))] else [])"

definition transitive_rule :: "(string \<Rightarrow> bool) \<Rightarrow> string \<Rightarrow> (string \<times> string) list \<Rightarrow> ox_triple list" where
  "transitive_rule valid prop m =
     concat (map (\<lambda>x. concat (map (\<lambda>e. if valid (fst x) then named_triple valid (NamedNode (fst x)) prop e else []) (get (snd x) m))) m)"

definition type_triples :: "(string \<Rightarrow> bool) \<Rightarrow> named_or_blank \<Rightarrow> string list \<Rightarrow> ox_triple list" where
  "type_triples valid s cs = concat (map (named_triple valid s RDF_TYPE) cs)"

definition data_rules ::
    "(string \<Rightarrow> bool) \<Rightarrow> (string \<times> string) list \<Rightarrow> (string \<times> string) list \<Rightarrow> (string \<times> string) list \<Rightarrow> (string \<times> string) list
      \<Rightarrow> ox_triple \<Rightarrow> ox_triple list" where
  "data_rules valid subclass subprop doms rngs t =
     (case t of (s, p, ob) \<Rightarrow>
        map (\<lambda>q. (s, q, ob)) (filter valid (get p subprop)) @
        (if p = RDF_TYPE
         then (case term_named_str ob of Some c \<Rightarrow> type_triples valid s (get c subclass) | None \<Rightarrow> [])
         else type_triples valid s (get p doms) @
           (case term_as_subject ob of Some n \<Rightarrow> type_triples valid n (get p rngs) | None \<Rightarrow> [])))"

definition rdfs_round :: "(string \<Rightarrow> bool) \<Rightarrow> ox_triple list \<Rightarrow> ox_triple list" where
  "rdfs_round valid ts =
     (let subclass = schema RDFS_SUBCLASSOF ts; subprop = schema RDFS_SUBPROPERTYOF ts;
          doms = schema RDFS_DOMAIN ts; rngs = schema RDFS_RANGE ts
      in transitive_rule valid RDFS_SUBCLASSOF subclass @ transitive_rule valid RDFS_SUBPROPERTYOF subprop @
         concat (map (data_rules valid subclass subprop doms rngs) ts))"

text \<open>\<open>HashSet::insert\<close>; \<open>grew\<close> if some insertion was new.\<close>

definition set_insert :: "'a \<Rightarrow> 'a list \<Rightarrow> 'a list" where
  "set_insert x xs = (if x \<in> set xs then xs else xs @ [x])"

definition insert_all :: "'a list \<Rightarrow> 'a list \<Rightarrow> 'a list" where
  "insert_all new xs = fold set_insert new xs"

section \<open>The terms a closure can use\<close>

definition triple_nodes :: "ox_triple set \<Rightarrow> named_or_blank set" where
  "triple_nodes T = fst ` T \<union> {n. \<exists>s p. (s, p, NodeTerm n) \<in> T}"

definition triple_preds :: "ox_triple set \<Rightarrow> string set" where
  "triple_preds T = (fst \<circ> snd) ` T \<union> {i. NamedNode i \<in> triple_nodes T} \<union> {RDF_TYPE, RDFS_SUBCLASSOF, RDFS_SUBPROPERTYOF}"

definition triple_objects :: "ox_triple set \<Rightarrow> ox_term set" where
  "triple_objects T = (snd \<circ> snd) ` T \<union> NodeTerm ` triple_nodes T"

definition herbrand :: "ox_triple set \<Rightarrow> ox_triple set" where
  "herbrand T = triple_nodes T \<times> triple_preds T \<times> triple_objects T"

lemma triple_nodes_finite: "finite T \<Longrightarrow> finite (triple_nodes T)"
proof -
  assume "finite T"
  have "triple_nodes T \<subseteq> fst ` T \<union> (\<lambda>t. case snd (snd t) of NodeTerm n \<Rightarrow> n | _ \<Rightarrow> fst t) ` T"
    by (force simp: triple_nodes_def)
  then show ?thesis using \<open>finite T\<close> finite_subset by blast
qed

lemma herbrand_finite: "finite T \<Longrightarrow> finite (herbrand T)"
proof -
  assume f: "finite T"
  have "finite (NamedNode -` triple_nodes T)" by (rule finite_vimageI[OF triple_nodes_finite[OF f]]) (simp add: inj_def)
  then show ?thesis using triple_nodes_finite[OF f] f by (simp add: herbrand_def triple_preds_def triple_objects_def vimage_def)
qed

lemma herbrand_base: "T \<subseteq> herbrand T"
  by (force simp: herbrand_def triple_preds_def triple_objects_def triple_nodes_def)

text \<open>Triples over the terms of \<open>T\<close> add no term.\<close>

lemma herbrand_closed:
  assumes "T \<subseteq> T'" "T' \<subseteq> herbrand T"
  shows "herbrand T' = herbrand T"
proof -
  have n: "triple_nodes T' = triple_nodes T"
  proof
    show "triple_nodes T \<subseteq> triple_nodes T'" using assms(1) by (auto simp: triple_nodes_def)
    show "triple_nodes T' \<subseteq> triple_nodes T"
    proof
      fix n assume "n \<in> triple_nodes T'"
      then consider t where "t \<in> T'" "n = fst t" | s p where "(s, p, NodeTerm n) \<in> T'" by (auto simp: triple_nodes_def)
      then show "n \<in> triple_nodes T"
      proof cases
        case 1
        then show ?thesis using assms(2) by (auto simp: herbrand_def)
      next
        case 2
        then have "NodeTerm n \<in> triple_objects T" using assms(2) by (auto simp: herbrand_def)
        then show ?thesis by (auto simp: triple_objects_def triple_nodes_def image_iff)
      qed
    qed
  qed
  have "triple_preds T' = triple_preds T"
    using assms unfolding triple_preds_def n by (auto simp: herbrand_def triple_preds_def)
  moreover have "triple_objects T' = triple_objects T"
    using assms unfolding triple_objects_def n by (auto simp: herbrand_def triple_objects_def)
  ultimately show ?thesis by (simp add: herbrand_def n)
qed

section \<open>Rounds\<close>

lemma schema_iff: "(a, b) \<in> set (schema prop ts) \<longleftrightarrow> (NamedNode a, prop, NodeTerm (NamedNode b)) \<in> set ts"
proof -
  have "schema_entry prop t = Some (a, b) \<longleftrightarrow> t = (NamedNode a, prop, NodeTerm (NamedNode b))" for t
    by (cases t) (auto simp: schema_entry_def split: option.splits elim!: named_str.elims term_named_str.elims)
  then show ?thesis by (simp only: schema_def flatten_opts_set set_map image_iff eq_commute[of "Some (a, b)"]) blast
qed

lemma get_iff: "b \<in> set (get a m) \<longleftrightarrow> (a, b) \<in> set m"
  by (force simp: get_def)

lemma named_triple_iff: "t \<in> set (named_triple valid s p c) \<longleftrightarrow> valid c \<and> t = (s, p, NodeTerm (NamedNode c))"
  by (auto simp: named_triple_def)

lemma transitive_rule_iff:
  "t \<in> set (transitive_rule valid prop (schema prop ts)) \<longleftrightarrow>
     (\<exists>c d e. (NamedNode c, prop, NodeTerm (NamedNode d)) \<in> set ts \<and> (NamedNode d, prop, NodeTerm (NamedNode e)) \<in> set ts \<and>
        valid c \<and> valid e \<and> t = (NamedNode c, prop, NodeTerm (NamedNode e)))"
proof -
  have if_set: "x \<in> set (if P then xs else []) \<longleftrightarrow> P \<and> x \<in> set xs" for x :: ox_triple and P xs by simp
  show ?thesis
    by (simp add: transitive_rule_def Bex_def split_paired_Ex get_iff schema_iff if_set named_triple_iff) blast
qed

lemma type_triples_iff: "t \<in> set (type_triples valid s cs) \<longleftrightarrow> (\<exists>c \<in> set cs. valid c \<and> t = (s, RDF_TYPE, NodeTerm (NamedNode c)))"
  by (auto simp: type_triples_def named_triple_iff)

lemma data_rules_iff:
  "t \<in> set (data_rules valid (schema RDFS_SUBCLASSOF ts) (schema RDFS_SUBPROPERTYOF ts) (schema RDFS_DOMAIN ts) (schema RDFS_RANGE ts) (s, p, ob)) \<longleftrightarrow>
     (\<exists>q. (NamedNode p, RDFS_SUBPROPERTYOF, NodeTerm (NamedNode q)) \<in> set ts \<and> valid q \<and> t = (s, q, ob)) \<or>
     (p = RDF_TYPE \<and> (\<exists>c d. ob = NodeTerm (NamedNode c) \<and> (NamedNode c, RDFS_SUBCLASSOF, NodeTerm (NamedNode d)) \<in> set ts \<and> valid d \<and>
        t = (s, RDF_TYPE, NodeTerm (NamedNode d)))) \<or>
     (p \<noteq> RDF_TYPE \<and> (\<exists>c. (NamedNode p, RDFS_DOMAIN, NodeTerm (NamedNode c)) \<in> set ts \<and> valid c \<and> t = (s, RDF_TYPE, NodeTerm (NamedNode c)))) \<or>
     (p \<noteq> RDF_TYPE \<and> (\<exists>c n. ob = NodeTerm n \<and> (NamedNode p, RDFS_RANGE, NodeTerm (NamedNode c)) \<in> set ts \<and> valid c \<and>
        t = (n, RDF_TYPE, NodeTerm (NamedNode c))))"
  by (cases ob rule: term_named_str.cases) (auto simp: data_rules_def get_iff schema_iff type_triples_iff)

lemma rdfs_round_set:
  "t \<in> set (rdfs_round valid ts) \<longleftrightarrow>
     t \<in> set (transitive_rule valid RDFS_SUBCLASSOF (schema RDFS_SUBCLASSOF ts)) \<or>
     t \<in> set (transitive_rule valid RDFS_SUBPROPERTYOF (schema RDFS_SUBPROPERTYOF ts)) \<or>
     (\<exists>s p ob. (s, p, ob) \<in> set ts \<and>
        t \<in> set (data_rules valid (schema RDFS_SUBCLASSOF ts) (schema RDFS_SUBPROPERTYOF ts) (schema RDFS_DOMAIN ts) (schema RDFS_RANGE ts) (s, p, ob)))"
  by (simp add: rdfs_round_def Let_def Bex_def split_paired_Ex)

lemma rdfs_roundE:
  assumes "t \<in> set (rdfs_round valid ts)"
  obtains (trans) sub c d e where "sub \<in> {RDFS_SUBCLASSOF, RDFS_SUBPROPERTYOF}"
      "(NamedNode c, sub, NodeTerm (NamedNode d)) \<in> set ts" "(NamedNode d, sub, NodeTerm (NamedNode e)) \<in> set ts"
      "t = (NamedNode c, sub, NodeTerm (NamedNode e))"
  | (subp) s p ob q where "(s, p, ob) \<in> set ts" "(NamedNode p, RDFS_SUBPROPERTYOF, NodeTerm (NamedNode q)) \<in> set ts" "t = (s, q, ob)"
  | (subc) s c d where "(s, RDF_TYPE, NodeTerm (NamedNode c)) \<in> set ts"
      "(NamedNode c, RDFS_SUBCLASSOF, NodeTerm (NamedNode d)) \<in> set ts" "t = (s, RDF_TYPE, NodeTerm (NamedNode d))"
  | (doms) s p ob c where "(s, p, ob) \<in> set ts" "(NamedNode p, RDFS_DOMAIN, NodeTerm (NamedNode c)) \<in> set ts"
      "t = (s, RDF_TYPE, NodeTerm (NamedNode c))"
  | (rngs) s p n c where "(s, p, NodeTerm n) \<in> set ts" "(NamedNode p, RDFS_RANGE, NodeTerm (NamedNode c)) \<in> set ts"
      "t = (n, RDF_TYPE, NodeTerm (NamedNode c))"
proof -
  from assms consider "t \<in> set (transitive_rule valid RDFS_SUBCLASSOF (schema RDFS_SUBCLASSOF ts))"
    | "t \<in> set (transitive_rule valid RDFS_SUBPROPERTYOF (schema RDFS_SUBPROPERTYOF ts))"
    | s p ob where "(s, p, ob) \<in> set ts"
      "t \<in> set (data_rules valid (schema RDFS_SUBCLASSOF ts) (schema RDFS_SUBPROPERTYOF ts) (schema RDFS_DOMAIN ts) (schema RDFS_RANGE ts) (s, p, ob))"
    unfolding rdfs_round_set by blast
  then show thesis
  proof cases
    case 1
    then show thesis unfolding transitive_rule_iff using trans[of RDFS_SUBCLASSOF] by blast
  next
    case 2
    then show thesis unfolding transitive_rule_iff using trans[of RDFS_SUBPROPERTYOF] by blast
  next
    case (3 s p ob)
    from 3(2) show thesis unfolding data_rules_iff by (elim disjE exE conjE) (use 3(1) subp subc doms rngs in blast)+
  qed
qed

text \<open>What a set that a round does not change is closed under.\<close>

lemma saturatedD:
  assumes "set (rdfs_round valid ts) \<subseteq> set ts"
  shows "\<lbrakk>prop \<in> {RDFS_SUBCLASSOF, RDFS_SUBPROPERTYOF}; (NamedNode c, prop, NodeTerm (NamedNode d)) \<in> set ts;
      (NamedNode d, prop, NodeTerm (NamedNode e)) \<in> set ts; valid c; valid e\<rbrakk> \<Longrightarrow> (NamedNode c, prop, NodeTerm (NamedNode e)) \<in> set ts"
    and "\<lbrakk>(s, p, ob) \<in> set ts; (NamedNode p, RDFS_SUBPROPERTYOF, NodeTerm (NamedNode q)) \<in> set ts; valid q\<rbrakk> \<Longrightarrow> (s, q, ob) \<in> set ts"
    and "\<lbrakk>(s, RDF_TYPE, NodeTerm (NamedNode c)) \<in> set ts; (NamedNode c, RDFS_SUBCLASSOF, NodeTerm (NamedNode d)) \<in> set ts; valid d\<rbrakk>
      \<Longrightarrow> (s, RDF_TYPE, NodeTerm (NamedNode d)) \<in> set ts"
    and "\<lbrakk>(s, p, ob) \<in> set ts; p \<noteq> RDF_TYPE; (NamedNode p, RDFS_DOMAIN, NodeTerm (NamedNode c)) \<in> set ts; valid c\<rbrakk>
      \<Longrightarrow> (s, RDF_TYPE, NodeTerm (NamedNode c)) \<in> set ts"
    and "\<lbrakk>(s, p, NodeTerm n) \<in> set ts; p \<noteq> RDF_TYPE; (NamedNode p, RDFS_RANGE, NodeTerm (NamedNode c)) \<in> set ts; valid c\<rbrakk>
      \<Longrightarrow> (n, RDF_TYPE, NodeTerm (NamedNode c)) \<in> set ts"
proof -
  have r: "t \<in> set (rdfs_round valid ts) \<Longrightarrow> t \<in> set ts" for t using assms by blast
  show "(NamedNode c, prop, NodeTerm (NamedNode e)) \<in> set ts" if "prop \<in> {RDFS_SUBCLASSOF, RDFS_SUBPROPERTYOF}"
      "(NamedNode c, prop, NodeTerm (NamedNode d)) \<in> set ts" "(NamedNode d, prop, NodeTerm (NamedNode e)) \<in> set ts" "valid c" "valid e"
  proof (rule r)
    have "(NamedNode c, prop, NodeTerm (NamedNode e)) \<in> set (transitive_rule valid prop (schema prop ts))"
      unfolding transitive_rule_iff using that(2-5) by blast
    then show "(NamedNode c, prop, NodeTerm (NamedNode e)) \<in> set (rdfs_round valid ts)" unfolding rdfs_round_set using that(1) by blast
  qed
  let ?D = "data_rules valid (schema RDFS_SUBCLASSOF ts) (schema RDFS_SUBPROPERTYOF ts) (schema RDFS_DOMAIN ts) (schema RDFS_RANGE ts)"
  have d: "\<lbrakk>(s, p, ob) \<in> set ts; t \<in> set (?D (s, p, ob))\<rbrakk> \<Longrightarrow> t \<in> set ts" for s p ob t
    by (rule r) (use rdfs_round_set in blast)
  show "(s, q, ob) \<in> set ts" if "(s, p, ob) \<in> set ts" "(NamedNode p, RDFS_SUBPROPERTYOF, NodeTerm (NamedNode q)) \<in> set ts" "valid q"
    by (rule d[OF that(1)], unfold data_rules_iff) (use that(2,3) in blast)
  show "(s, RDF_TYPE, NodeTerm (NamedNode d)) \<in> set ts" if "(s, RDF_TYPE, NodeTerm (NamedNode c)) \<in> set ts"
      "(NamedNode c, RDFS_SUBCLASSOF, NodeTerm (NamedNode d)) \<in> set ts" "valid d"
    by (rule d[OF that(1)], unfold data_rules_iff) (use that(2,3) in blast)
  show "(s, RDF_TYPE, NodeTerm (NamedNode c)) \<in> set ts" if "(s, p, ob) \<in> set ts" "p \<noteq> RDF_TYPE"
      "(NamedNode p, RDFS_DOMAIN, NodeTerm (NamedNode c)) \<in> set ts" "valid c"
    by (rule d[OF that(1)], unfold data_rules_iff) (use that(2-4) in blast)
  show "(n, RDF_TYPE, NodeTerm (NamedNode c)) \<in> set ts" if "(s, p, NodeTerm n) \<in> set ts" "p \<noteq> RDF_TYPE"
      "(NamedNode p, RDFS_RANGE, NodeTerm (NamedNode c)) \<in> set ts" "valid c"
    by (rule d[OF that(1)], unfold data_rules_iff) (use that(2-4) in blast)
qed

lemma in_herbrandI:
  assumes "s \<in> triple_nodes T" "p \<in> triple_preds T" "ob \<in> triple_objects T"
  shows "(s, p, ob) \<in> herbrand T"
  using assms by (simp add: herbrand_def)

lemma herbrand_parts:
  assumes "(s, p, ob) \<in> T"
  shows "s \<in> triple_nodes T" "p \<in> triple_preds T" "ob \<in> triple_objects T" "NamedNode i = s \<Longrightarrow> i \<in> triple_preds T"
    "ob = NodeTerm n \<Longrightarrow> n \<in> triple_nodes T" "ob = NodeTerm (NamedNode i) \<Longrightarrow> i \<in> triple_preds T"
  using assms by (force simp: triple_nodes_def triple_preds_def triple_objects_def)+

lemma rdfs_round_herbrand: "set (rdfs_round valid ts) \<subseteq> herbrand (set ts)"
proof
  fix t assume "t \<in> set (rdfs_round valid ts)"
  moreover have v: "RDF_TYPE \<in> triple_preds T" "RDFS_SUBCLASSOF \<in> triple_preds T" "RDFS_SUBPROPERTYOF \<in> triple_preds T" for T
    by (simp_all add: triple_preds_def)
  moreover note h = herbrand_parts[where T = "set ts"]
  ultimately show "t \<in> herbrand (set ts)"
    by (elim rdfs_roundE) (auto intro!: in_herbrandI intro: h)
qed

lemma insert_all_set [simp]: "set (insert_all new xs) = set xs \<union> set new"
  by (induction new arbitrary: xs) (auto simp: insert_all_def set_insert_def)

lemma insert_all_distinct: "distinct xs \<Longrightarrow> distinct (insert_all new xs)"
  by (induction new arbitrary: xs) (auto simp: insert_all_def set_insert_def)

lemma insert_all_mono: "length xs \<le> length (insert_all new xs) \<and> (length (insert_all new xs) = length xs \<longrightarrow> set new \<subseteq> set xs)"
proof (induction new arbitrary: xs)
  case (Cons x new)
  have "insert_all (x # new) xs = insert_all new (set_insert x xs)" by (simp add: insert_all_def)
  then show ?case using Cons.IH[of "set_insert x xs"] by (auto simp: set_insert_def split: if_splits)
qed (simp add: insert_all_def)

section \<open>The loop\<close>

function rdfs_loop :: "(string \<Rightarrow> bool) \<Rightarrow> ox_triple list \<Rightarrow> ox_triple list" where
  "rdfs_loop valid ts =
     (if length (insert_all (rdfs_round valid ts) ts) = length ts then ts
      else rdfs_loop valid (insert_all (rdfs_round valid ts) ts))"
  by pat_completeness auto
termination
proof (relation "measure (\<lambda>(valid, ts). card (herbrand (set ts) - set ts))")
  fix valid ts
  let ?ts = "insert_all (rdfs_round valid ts) ts"
  assume grew: "length ?ts \<noteq> length ts"
  have sub: "set ts \<subseteq> set ?ts" "set ?ts \<subseteq> herbrand (set ts)"
    using rdfs_round_herbrand herbrand_base by auto
  have "\<not> set (rdfs_round valid ts) \<subseteq> set ts"
  proof
    assume a: "set (rdfs_round valid ts) \<subseteq> set ts"
    then have "set new \<subseteq> set ts \<Longrightarrow> insert_all new ts = ts" for new
      by (induction new) (auto simp: insert_all_def set_insert_def)
    with a grew show False by simp
  qed
  then have "set ts \<subset> set ?ts" by auto
  then have "herbrand (set ?ts) - set ?ts \<subset> herbrand (set ts) - set ts"
    using sub unfolding herbrand_closed[OF sub] by blast
  then show "((valid, ?ts), valid, ts) \<in> measure (\<lambda>(valid, ts). card (herbrand (set ts) - set ts))"
    using herbrand_finite[of "set ts"] by (simp add: psubset_card_mono)
qed simp

declare rdfs_loop.simps [simp del]

definition rdfs_closure :: "(string \<Rightarrow> bool) \<Rightarrow> (ox_triple list \<Rightarrow> ox_triple list) \<Rightarrow> ox_triple list \<Rightarrow> ox_triple list" where
  "rdfs_closure valid hs base = hs (rdfs_loop valid (insert_all base []))"

lemma rdfs_loop_ok:
  "distinct ts \<Longrightarrow> distinct (rdfs_loop valid ts) \<and> set ts \<subseteq> set (rdfs_loop valid ts) \<and>
    set (rdfs_loop valid ts) \<subseteq> herbrand (set ts) \<and> set (rdfs_round valid (rdfs_loop valid ts)) \<subseteq> set (rdfs_loop valid ts)"
proof (induction valid ts rule: rdfs_loop.induct)
  case (1 valid ts)
  let ?ts = "insert_all (rdfs_round valid ts) ts"
  show ?case
  proof (cases "length ?ts = length ts")
    case True
    then have "set (rdfs_round valid ts) \<subseteq> set ts" using insert_all_mono by blast
    with True 1(2) herbrand_base show ?thesis by (simp add: rdfs_loop.simps[of valid ts])
  next
    case False
    have sub: "set ts \<subseteq> set ?ts" "set ?ts \<subseteq> herbrand (set ts)" using rdfs_round_herbrand herbrand_base by auto
    note IH = 1(1)[OF False insert_all_distinct[OF 1(2)]]
    have "rdfs_loop valid ts = rdfs_loop valid ?ts" using False by (simp add: rdfs_loop.simps[of valid ts])
    then show ?thesis using IH sub(1) unfolding herbrand_closed[OF sub] by auto
  qed
qed

section \<open>RDFS entailment\<close>

text \<open>
  The same six rules as RDF 1.1 Semantics states them: classes may be blank nodes and \<open>rdf:type\<close> is a property
  like any other. A literal is no subject.
\<close>

inductive_set rdfs :: "ox_triple set \<Rightarrow> ox_triple set" for T where
  base: "t \<in> T \<Longrightarrow> t \<in> rdfs T"
| rdfs2: "\<lbrakk>(NamedNode a, RDFS_DOMAIN, c) \<in> rdfs T; (s, a, ob) \<in> rdfs T\<rbrakk> \<Longrightarrow> (s, RDF_TYPE, c) \<in> rdfs T"
| rdfs3: "\<lbrakk>(NamedNode a, RDFS_RANGE, c) \<in> rdfs T; (s, a, NodeTerm n) \<in> rdfs T\<rbrakk> \<Longrightarrow> (n, RDF_TYPE, c) \<in> rdfs T"
| rdfs5: "\<lbrakk>(x, RDFS_SUBPROPERTYOF, NodeTerm y) \<in> rdfs T; (y, RDFS_SUBPROPERTYOF, c) \<in> rdfs T\<rbrakk> \<Longrightarrow> (x, RDFS_SUBPROPERTYOF, c) \<in> rdfs T"
| rdfs7: "\<lbrakk>(NamedNode a, RDFS_SUBPROPERTYOF, NodeTerm (NamedNode b)) \<in> rdfs T; (s, a, ob) \<in> rdfs T\<rbrakk> \<Longrightarrow> (s, b, ob) \<in> rdfs T"
| rdfs9: "\<lbrakk>(x, RDFS_SUBCLASSOF, c) \<in> rdfs T; (s, RDF_TYPE, NodeTerm x) \<in> rdfs T\<rbrakk> \<Longrightarrow> (s, RDF_TYPE, c) \<in> rdfs T"
| rdfs11: "\<lbrakk>(x, RDFS_SUBCLASSOF, NodeTerm y) \<in> rdfs T; (y, RDFS_SUBCLASSOF, c) \<in> rdfs T\<rbrakk> \<Longrightarrow> (x, RDFS_SUBCLASSOF, c) \<in> rdfs T"

lemma rdfs_mono: "T \<subseteq> T' \<Longrightarrow> rdfs T \<subseteq> rdfs T'"
proof
  fix t assume "T \<subseteq> T'" "t \<in> rdfs T"
  show "t \<in> rdfs T'" using \<open>t \<in> rdfs T\<close> by (induction rule: rdfs.induct) (use \<open>T \<subseteq> T'\<close> in \<open>blast intro: rdfs.intros\<close>)+
qed

lemma rdfs_idem: "T' \<subseteq> rdfs T \<Longrightarrow> rdfs T' \<subseteq> rdfs T"
proof
  fix t assume "T' \<subseteq> rdfs T" "t \<in> rdfs T'"
  show "t \<in> rdfs T" using \<open>t \<in> rdfs T'\<close> by (induction rule: rdfs.induct) (use \<open>T' \<subseteq> rdfs T\<close> in \<open>blast intro: rdfs.intros\<close>)+
qed

text \<open>Every schema triple is between IRIs, and \<open>rdf:type\<close> has no domain or range.\<close>

definition plain_schema :: "ox_triple set \<Rightarrow> bool" where
  "plain_schema T \<longleftrightarrow>
     (\<forall>t \<in> T. fst (snd t) \<in> {RDFS_SUBCLASSOF, RDFS_SUBPROPERTYOF, RDFS_DOMAIN, RDFS_RANGE} \<longrightarrow>
        named_str (fst t) \<noteq> None \<and> term_named_str (snd (snd t)) \<noteq> None \<and>
        (fst (snd t) \<in> {RDFS_DOMAIN, RDFS_RANGE} \<longrightarrow> named_str (fst t) \<noteq> Some RDF_TYPE))"

lemma plain_schema_triple:
  assumes "plain_schema T" "(s, p, c) \<in> T" "p \<in> {RDFS_SUBCLASSOF, RDFS_SUBPROPERTYOF, RDFS_DOMAIN, RDFS_RANGE}"
  shows "\<exists>a b. s = NamedNode a \<and> c = NodeTerm (NamedNode b) \<and> (p \<in> {RDFS_DOMAIN, RDFS_RANGE} \<longrightarrow> a \<noteq> RDF_TYPE)"
proof -
  have n: "named_str s \<noteq> None" "term_named_str c \<noteq> None" "p \<in> {RDFS_DOMAIN, RDFS_RANGE} \<longrightarrow> named_str s \<noteq> Some RDF_TYPE"
    using bspec[OF assms(1)[unfolded plain_schema_def] assms(2)] assms(3) by (simp_all only: fst_conv snd_conv) blast+
  obtain a where "s = NamedNode a" using n(1) by (cases s) auto
  moreover obtain b where "c = NodeTerm (NamedNode b)" using n(2) by (cases c rule: term_named_str.cases) auto
  ultimately show ?thesis using n(3) by auto
qed

lemma plain_schemaD:
  assumes "plain_schema T"
  shows "(s, RDFS_SUBCLASSOF, c) \<in> T \<Longrightarrow> \<exists>a b. s = NamedNode a \<and> c = NodeTerm (NamedNode b)"
    and "(s, RDFS_SUBPROPERTYOF, c) \<in> T \<Longrightarrow> \<exists>a b. s = NamedNode a \<and> c = NodeTerm (NamedNode b)"
    and "(s, RDFS_DOMAIN, c) \<in> T \<Longrightarrow> \<exists>a b. s = NamedNode a \<and> c = NodeTerm (NamedNode b) \<and> a \<noteq> RDF_TYPE"
    and "(s, RDFS_RANGE, c) \<in> T \<Longrightarrow> \<exists>a b. s = NamedNode a \<and> c = NodeTerm (NamedNode b) \<and> a \<noteq> RDF_TYPE"
  using plain_schema_triple[OF assms] by blast+

definition valid_terms :: "(string \<Rightarrow> bool) \<Rightarrow> ox_triple set \<Rightarrow> bool" where
  "valid_terms valid T \<longleftrightarrow> (\<forall>i. NamedNode i \<in> triple_nodes T \<longrightarrow> valid i)"

lemma rdfs_round_sound: "set ts \<subseteq> rdfs T \<Longrightarrow> set (rdfs_round valid ts) \<subseteq> rdfs T"
proof
  fix t assume sub: "set ts \<subseteq> rdfs T" and "t \<in> set (rdfs_round valid ts)"
  then show "t \<in> rdfs T"
    by (elim rdfs_roundE) (auto intro: rdfs.rdfs11 rdfs.rdfs5 rdfs.rdfs7 rdfs.rdfs9 rdfs.rdfs2 rdfs.rdfs3)
qed

lemma rdfs_loop_sound: "set ts \<subseteq> rdfs T \<Longrightarrow> set (rdfs_loop valid ts) \<subseteq> rdfs T"
proof (induction valid ts rule: rdfs_loop.induct)
  case (1 valid ts)
  then show ?case using rdfs_round_sound[of ts T valid] by (subst rdfs_loop.simps) auto
qed

lemma rdfs_saturated:
  assumes "set (rdfs_round valid ts) \<subseteq> set ts" "valid_terms valid (set ts)" "plain_schema (set ts)"
  shows "rdfs (set ts) \<subseteq> set ts"
proof
  note p = plain_schemaD[OF assms(3)] and r = saturatedD[OF assms(1)]
  have v: "(s, q, NodeTerm (NamedNode i)) \<in> set ts \<Longrightarrow> valid i" "(NamedNode i, q, ob) \<in> set ts \<Longrightarrow> valid i" for i s q ob
    using assms(2) by (force simp: valid_terms_def triple_nodes_def)+
  fix t assume "t \<in> rdfs (set ts)"
  then show "t \<in> set ts"
  proof (induction rule: rdfs.induct)
    case (rdfs2 a c s ob)
    then show ?case using p(3)[OF rdfs2(3)] v(1) r(4)[of s a ob] by blast
  next
    case (rdfs3 a c s n)
    then show ?case using p(4)[OF rdfs3(3)] v(1) r(5)[of s a n] by blast
  next
    case (rdfs5 x y c)
    then show ?case using p(2)[OF rdfs5(3)] p(2)[OF rdfs5(4)] v r(1)[of RDFS_SUBPROPERTYOF] by blast
  next
    case (rdfs7 a b s ob)
    then show ?case using v(1) r(2) by blast
  next
    case (rdfs9 x c s)
    then show ?case using p(1)[OF rdfs9(3)] v(1) r(3) by blast
  next
    case (rdfs11 x y c)
    then show ?case using p(1)[OF rdfs11(3)] p(1)[OF rdfs11(4)] v r(1)[of RDFS_SUBCLASSOF] by blast
  qed
qed

lemma closure_ok:
  assumes "hash_order hs"
  shows "distinct (rdfs_closure valid hs ts)" "set ts \<subseteq> set (rdfs_closure valid hs ts)"
    "set (rdfs_closure valid hs ts) \<subseteq> rdfs (set ts)" "set (rdfs_closure valid hs ts) \<subseteq> herbrand (set ts)"
    "set (rdfs_closure valid hs ts) = set (rdfs_loop valid (insert_all ts []))"
proof -
  have d: "distinct (insert_all ts [])" by (rule insert_all_distinct) simp
  note r = rdfs_loop_ok[OF d, of valid]
  show s: "set (rdfs_closure valid hs ts) = set (rdfs_loop valid (insert_all ts []))"
    using assms r by (simp add: rdfs_closure_def hash_order_def)
  show "distinct (rdfs_closure valid hs ts)" using assms r by (simp add: rdfs_closure_def hash_order_def)
  show "set ts \<subseteq> set (rdfs_closure valid hs ts)" "set (rdfs_closure valid hs ts) \<subseteq> herbrand (set ts)"
    unfolding s using r by auto
  show "set (rdfs_closure valid hs ts) \<subseteq> rdfs (set ts)"
    unfolding s by (rule rdfs_loop_sound) (auto intro: rdfs.base)
qed

lemma closure_complete:
  assumes "hash_order hs" "valid_terms valid (set ts)" "plain_schema (set (rdfs_closure valid hs ts))"
  shows "set (rdfs_closure valid hs ts) = rdfs (set ts)"
proof
  let ?c = "rdfs_loop valid (insert_all ts [])"
  have d: "distinct (insert_all ts [])" by (rule insert_all_distinct) simp
  note c = closure_ok[OF assms(1), where valid = valid and ts = ts] and r = rdfs_loop_ok[OF d, of valid]
  show "set (rdfs_closure valid hs ts) \<subseteq> rdfs (set ts)" by (rule c(3))
  have "triple_nodes (set ?c) \<subseteq> triple_nodes (set ts)"
  proof
    fix n assume "n \<in> triple_nodes (set ?c)"
    then obtain s p ob where "(s, p, ob) \<in> herbrand (set ts)" "s = n \<or> ob = NodeTerm n"
      using r by (fastforce simp: triple_nodes_def)
    then show "n \<in> triple_nodes (set ts)" by (auto simp: herbrand_def triple_objects_def) (auto simp: triple_nodes_def)
  qed
  then have "valid_terms valid (set ?c)" using assms(2) by (auto simp: valid_terms_def)
  then have "rdfs (set ?c) \<subseteq> set ?c" using rdfs_saturated[of valid ?c] r assms(3) c(5) by simp
  moreover have "rdfs (set ts) \<subseteq> rdfs (set ?c)" using c(2,5) by (intro rdfs_mono) simp
  ultimately show "rdfs (set ts) \<subseteq> set (rdfs_closure valid hs ts)" using c(5) by blast
qed

section \<open>Properties\<close>

text \<open>C25: The RDFS profile adds to the triples of a graph only what the RDFS rules entail, over the terms of the graph and the RDFS vocabulary, each triple once; and it adds all of it whenever the schema of its result is plain: schema triples between IRIs, no domain or range on rdf:type. The order of the hash set plays no part.\<close>

theorem rdfs_closure_exact:
  assumes "hash_order hs" "valid_terms valid (set ts)"
  shows "distinct (rdfs_closure valid hs ts) \<and> set ts \<subseteq> set (rdfs_closure valid hs ts) \<and>
    set (rdfs_closure valid hs ts) \<subseteq> rdfs (set ts) \<inter> herbrand (set ts) \<and>
    (plain_schema (set (rdfs_closure valid hs ts)) \<longrightarrow> set (rdfs_closure valid hs ts) = rdfs (set ts))"
  using closure_ok[OF assms(1)] closure_complete[OF assms] by blast

definition small_schema :: "ox_triple list" where
  "small_schema = [(NamedNode ''ex:c'', RDFS_SUBCLASSOF, NodeTerm (NamedNode ''ex:d'')),
     (NamedNode ''ex:p'', RDFS_SUBPROPERTYOF, NodeTerm (NamedNode ''ex:q'')),
     (NamedNode ''ex:q'', RDFS_RANGE, NodeTerm (NamedNode ''ex:c'')),
     (NamedNode ''ex:a'', ''ex:p'', NodeTerm (BlankNode ''b''))]"

theorem rdfs_closure_exact_witness:
  "rdfs (set small_schema) = set (small_schema @
     [(NamedNode ''ex:a'', ''ex:q'', NodeTerm (BlankNode ''b'')), (BlankNode ''b'', RDF_TYPE, NodeTerm (NamedNode ''ex:c'')),
      (BlankNode ''b'', RDF_TYPE, NodeTerm (NamedNode ''ex:d''))])"
proof -
  let ?c = "rdfs_closure (\<lambda>i. True) id small_schema"
  have "hash_order (id :: ox_triple list \<Rightarrow> ox_triple list)" by (simp add: hash_order_def)
  moreover have "valid_terms (\<lambda>i. True) (set small_schema)" by (simp add: valid_terms_def)
  moreover have "plain_schema (set ?c)" by code_simp
  ultimately have "set ?c = rdfs (set small_schema)" using rdfs_closure_exact by blast
  moreover have "?c = small_schema @
     [(NamedNode ''ex:a'', ''ex:q'', NodeTerm (BlankNode ''b'')), (BlankNode ''b'', RDF_TYPE, NodeTerm (NamedNode ''ex:c'')),
      (BlankNode ''b'', RDF_TYPE, NodeTerm (NamedNode ''ex:d''))]" by code_simp
  ultimately show ?thesis by simp
qed

text \<open>A class that is a blank node stops the inheritance, so the closure is not complete in general.\<close>

theorem rdfs_misses_blank_class:
  fixes ts :: "ox_triple list"
  defines "ts \<equiv> [(NamedNode ''ex:c'', RDFS_SUBCLASSOF, NodeTerm (BlankNode ''d'')), (NamedNode ''ex:a'', RDF_TYPE, NodeTerm (NamedNode ''ex:c''))]"
  shows "(NamedNode ''ex:a'', RDF_TYPE, NodeTerm (BlankNode ''d'')) \<in> rdfs (set ts) \<and>
    (NamedNode ''ex:a'', RDF_TYPE, NodeTerm (BlankNode ''d'')) \<notin> set (rdfs_closure (\<lambda>i. True) id ts)"
proof
  have "(NamedNode ''ex:c'', RDFS_SUBCLASSOF, NodeTerm (BlankNode ''d'')) \<in> rdfs (set ts)" "(NamedNode ''ex:a'', RDF_TYPE, NodeTerm (NamedNode ''ex:c'')) \<in> rdfs (set ts)"
    by (simp_all add: ts_def rdfs.base)
  then show "(NamedNode ''ex:a'', RDF_TYPE, NodeTerm (BlankNode ''d'')) \<in> rdfs (set ts)" by (rule rdfs.rdfs9)
  show "(NamedNode ''ex:a'', RDF_TYPE, NodeTerm (BlankNode ''d'')) \<notin> set (rdfs_closure (\<lambda>i. True) id ts)"
    unfolding ts_def by code_simp
qed
end
