(* ===== verification/Materialize.thy ===== *)
theory Materialize
  imports Rdfs_Closure
begin

text \<open>
  \<open>materialize\<close> of \<open>src/inference/reasonable.rs\<close>: the inferred rows of a graph are deleted, its asserted
  quads are read back as oxrdf triples, the profile derives the closure, and what is new is interned in two
  phases and written as inferred rows. What oxrdf accepts as IRI, blank label and language tag, the labels
  it invents, and the OWL 2 RL reasoner (the crate reasonable) are parameters.
\<close>

section \<open>Reading the base\<close>

record oxrdf =
  valid_iri :: "string \<Rightarrow> bool"
  valid_label :: "string \<Rightarrow> bool"
  lang_tag :: "string \<Rightarrow> string option"   \<comment> \<open>the tag as a literal keeps it\<close>
  new_label :: "nat \<Rightarrow> string"

definition INVALID_IRI :: string where "INVALID_IRI = ''urn:pgrdf:invalid-iri''"
definition xsd_string_iri :: string where "xsd_string_iri = ''http://www.w3.org/2001/XMLSchema#string''"
definition rdf_langstring :: string where "rdf_langstring = ''http://www.w3.org/1999/02/22-rdf-syntax-ns#langString''"

definition checked_node :: "oxrdf \<Rightarrow> string \<Rightarrow> named_or_blank" where
  "checked_node ox v = NamedNode (if valid_iri ox v then v else INVALID_IRI)"

definition checked_blank :: "oxrdf \<Rightarrow> nat \<Rightarrow> string \<Rightarrow> named_or_blank" where
  "checked_blank ox i v = BlankNode (if valid_label ox v then v else new_label ox i)"

definition build_subject :: "oxrdf \<Rightarrow> nat \<Rightarrow> int \<Rightarrow> string \<Rightarrow> named_or_blank" where
  "build_subject ox i ty v =
     (if ty = 1 then checked_node ox v else if ty = 2 then checked_blank ox i v else BlankNode (new_label ox i))"

definition build_object :: "oxrdf \<Rightarrow> nat \<Rightarrow> int \<Rightarrow> string \<Rightarrow> string option \<Rightarrow> string option \<Rightarrow> ox_term" where
  "build_object ox i ty v datatype_iri lang =
     (if ty = 1 then NodeTerm (checked_node ox v)
      else if ty = 2 then NodeTerm (checked_blank ox i v)
      else case lang of
        Some l \<Rightarrow> (case lang_tag ox l of Some l' \<Rightarrow> Literal v (Some l') rdf_langstring | None \<Rightarrow> Literal v None xsd_string_iri)
      | None \<Rightarrow>
          (case datatype_iri of
             Some dt \<Rightarrow> if valid_iri ox dt then Literal v None dt else Literal v None xsd_string_iri
           | None \<Rightarrow> Literal v None xsd_string_iri))"

definition base_triple :: "oxrdf \<Rightarrow> dict_row list \<Rightarrow> nat \<times> quad \<Rightarrow> ox_triple option" where
  "base_triple ox dict iq =
     (case (dict_row_of dict (qs (snd iq)), dict_row_of dict (qp (snd iq)), dict_row_of dict (qo (snd iq))) of
        (Some (sty, sv, _), Some (_, p, _), Some (ty, v, dt, lang)) \<Rightarrow>
          if valid_iri ox p
          then Some (build_subject ox (2 * fst iq) sty sv, p, build_object ox (2 * fst iq + 1) ty v (lexical_of dict dt) lang)
          else None
      | _ \<Rightarrow> None)"

definition asserted_in :: "int \<Rightarrow> store \<Rightarrow> quad list" where
  "asserted_in g st = filter (\<lambda>q. qg q = g \<and> \<not> qinf q) (quads st)"

definition load_base_triples :: "oxrdf \<Rightarrow> int \<Rightarrow> dict_row list \<Rightarrow> store \<Rightarrow> ox_triple list" where
  "load_base_triples ox g dict st = flatten_opts (map (base_triple ox dict) (enumerate 0 (asserted_in g st)))"

section \<open>Writing the inferred triples\<close>

definition WRITE_BATCH :: nat where "WRITE_BATCH = 50000"

definition inferred_quad :: "int \<Rightarrow> int \<times> int \<times> int \<Rightarrow> quad" where
  "inferred_quad g ids = (asserted_quad g ids)\<lparr>qinf := True\<rparr>"

definition flush_inferred :: "int \<Rightarrow> (int \<times> int \<times> int) list \<Rightarrow> store \<Rightarrow> (int \<times> store) res" where
  "flush_inferred g buf st =
     (if buf = [] then Inr (0, st)
      else res_bind (insert_quads (map (inferred_quad g) buf) st) (\<lambda>st. Inr (int (length buf), st)))"

fun write_inferred :: "int \<Rightarrow> (int \<times> int \<times> int) list \<Rightarrow> (int \<times> int \<times> int) list \<Rightarrow> int \<Rightarrow> store \<Rightarrow> (int \<times> store) res" where
  "write_inferred g [] buf n st = res_bind (flush_inferred g buf st) (\<lambda>(k, st). Inr (n + k, st))"
| "write_inferred g (ids # rest) buf n st =
     (if WRITE_BATCH \<le> length (buf @ [ids])
      then res_bind (flush_inferred g (buf @ [ids]) st) (\<lambda>(k, st). write_inferred g rest [] (n + k) st)
      else write_inferred g rest (buf @ [ids]) n st)"

text \<open>Phase A: the datatype IRIs in one batch.\<close>

definition datatype_ids :: "(string list \<Rightarrow> string list) \<Rightarrow> nat \<Rightarrow> ox_triple list \<Rightarrow> world \<Rightarrow> (dict_key \<Rightarrow> int option) \<times> world" where
  "datatype_ids hk b inferred w =
     (let dts = hk (datatype_iris inferred) in
      if dts = [] then (Map.empty, w) else resolve_chunk b (map iri_key dts) (Map.empty, w))"

text \<open>Phase B: the distinct terms in order of first use, in chunks. A term without an id is a panic.\<close>

definition triple_key :: "(dict_key \<Rightarrow> int option) \<Rightarrow> ox_triple \<Rightarrow> dict_key \<times> dict_key \<times> dict_key" where
  "triple_key dts t = (case t of (s, p, ob) \<Rightarrow> (node_key s, iri_key p, keyed_object dts ob))"

definition term_order :: "(dict_key \<times> dict_key \<times> dict_key) list \<Rightarrow> dict_key list" where
  "term_order kss = insert_all (concat (map (\<lambda>ks. [fst ks, fst (snd ks), snd (snd ks)]) kss)) []"

definition intern_inferred ::
    "(string list \<Rightarrow> string list) \<Rightarrow> nat \<Rightarrow> ox_triple list \<Rightarrow> world \<Rightarrow> ((int \<times> int \<times> int) list \<times> world) res" where
  "intern_inferred hk b inferred w =
     (let (dts, w) = datatype_ids hk b inferred w in
      if \<not> list_all (\<lambda>d. dts (iri_key d) \<noteq> None) (datatype_iris inferred) then Inl Internal_Error
      else
        (let kss = map (triple_key dts) inferred;
             (m, w) = fold (resolve_chunk b) (chunks WRITE_BATCH (term_order kss)) (Map.empty, w)
         in case drain_pending m kss of None \<Rightarrow> Inl Internal_Error | Some idss \<Rightarrow> Inr (idss, w)))"

section \<open>The verb\<close>

record materialize_stats =
  ms_base :: int
  ms_written :: int
  ms_dropped :: int
  ms_profile :: string
  ms_errors :: "string list"
  ms_analyzed :: bool

definition materialize ::
    "oxrdf \<Rightarrow> (ox_triple list \<Rightarrow> ox_triple list \<times> string list) \<Rightarrow> (ox_triple list \<Rightarrow> ox_triple list) \<Rightarrow> (string list \<Rightarrow> string list)
      \<Rightarrow> bool \<Rightarrow> nat \<Rightarrow> nat \<Rightarrow> int \<Rightarrow> string \<Rightarrow> world \<times> store \<Rightarrow> (materialize_stats \<times> world \<times> store) res" where
  "materialize ox owl hs hk analyze now b g profile ws =
     (case ws of (w, st) \<Rightarrow>
        res_bind (require_unlocked g st) (\<lambda>_.
          if profile \<notin> {''owl-rl'', ''rdfs''} then Inl Invalid_Parameter_Value
          else
            (let dropped = int (length (filter (\<lambda>q. qg q = g \<and> qinf q) (quads st))) in
             res_bind (delete_quads (\<lambda>q. qg q = g \<and> qinf q) st) (\<lambda>st.
               let base = load_base_triples ox g (visible w b) st;
                   (derived, errors) = (if profile = ''owl-rl'' then owl base else (rdfs_closure (valid_iri ox) hs base, []));
                   inferred = filter (\<lambda>t. t \<notin> set base) derived
               in res_bind (intern_inferred hk b inferred w) (\<lambda>(idss, w).
                    res_bind (write_inferred g idss [] 0 st) (\<lambda>(written, st).
                      Inr (\<lparr>ms_base = int (length base), ms_written = written, ms_dropped = dropped, ms_profile = profile,
                             ms_errors = errors, ms_analyzed = (0 < written \<and> analyze)\<rparr>,
                           w, stamp_materialize g (int (length base)) now st)))))))"

section \<open>The base is what the graph says\<close>

text \<open>A triple that oxrdf accepts as it is.\<close>

fun node_accepted :: "oxrdf \<Rightarrow> named_or_blank \<Rightarrow> bool" where
  "node_accepted ox (NamedNode i) \<longleftrightarrow> valid_iri ox i"
| "node_accepted ox (BlankNode l) \<longleftrightarrow> valid_label ox l"

fun term_accepted :: "oxrdf \<Rightarrow> ox_term \<Rightarrow> bool" where
  "term_accepted ox (NodeTerm n) \<longleftrightarrow> node_accepted ox n"
| "term_accepted ox (Literal v (Some l) dt) \<longleftrightarrow> lang_tag ox l = Some l \<and> dt = rdf_langstring"
| "term_accepted ox (Literal v None dt) \<longleftrightarrow> valid_iri ox dt"

definition accepted :: "oxrdf \<Rightarrow> ox_triple \<Rightarrow> bool" where
  "accepted ox t \<longleftrightarrow> (case t of (s, p, ob) \<Rightarrow> node_accepted ox s \<and> valid_iri ox p \<and> term_accepted ox ob)"

definition quad_says :: "oxrdf \<Rightarrow> dict_row list \<Rightarrow> quad \<Rightarrow> ox_triple \<Rightarrow> bool" where
  "quad_says ox d q t \<longleftrightarrow> denotes d (qs q, qp q, qo q) t \<and> accepted ox t"

lemma build_subject_node: "node_accepted ox n \<Longrightarrow> build_subject ox i (fst (node_key n)) (fst (snd (node_key n))) = n"
  by (cases n) (simp_all add: build_subject_def checked_node_def checked_blank_def)

lemma build_object_node: "node_accepted ox n \<Longrightarrow> build_object ox i (fst (node_key n)) (fst (snd (node_key n))) dt l = NodeTerm n"
  by (cases n) (simp_all add: build_object_def checked_node_def checked_blank_def)

lemma base_triple_says: "quad_says ox d q t \<Longrightarrow> base_triple ox d (i, q) = Some t"
proof -
  assume "quad_says ox d q t"
  then obtain s p ob where t: "t = (s, p, ob)" and d: "dict_row_of d (qs q) = Some (node_key s)" "dict_row_of d (qp q) = Some (iri_key p)"
      "term_denoted d (qo q) ob" and a: "node_accepted ox s" "valid_iri ox p" "term_accepted ox ob"
    by (cases t) (auto simp: quad_says_def denotes_def accepted_def)
  obtain k where k: "dict_row_of d (qo q) = Some k"
    using d(3) by (cases "(d, qo q, ob)" rule: term_denoted.cases) auto
  have "build_object ox (2 * i + 1) (fst k) (fst (snd k)) (lexical_of d (fst (snd (snd k)))) (snd (snd (snd k))) = ob"
  proof (cases ob)
    case (NodeTerm n)
    then show ?thesis using d(3) a(3) k by (simp add: build_object_node)
  next
    case (Literal v l dt)
    then show ?thesis using d(3) a(3) k by (cases l) (auto simp: build_object_def lexical_of_def iri_key_def)
  qed
  moreover have "build_subject ox (2 * i) (fst (node_key s)) (fst (snd (node_key s))) = s" by (rule build_subject_node[OF a(1)])
  ultimately show ?thesis using d(1,2) a(2) k by (simp add: base_triple_def t iri_key_def case_prod_beta')
qed

lemma flatten_opts_Some [simp]: "flatten_opts (map Some xs) = xs"
  by (induction xs) (simp_all add: flatten_opts_def)

lemma load_base_says:
  assumes "list_all2 (quad_says ox d) (asserted_in g st) ts"
  shows "load_base_triples ox g d st = ts"
proof -
  have "map (base_triple ox d) (enumerate n qs') = map Some ts" if "list_all2 (quad_says ox d) qs' ts" for n qs' ts
    using that by (induction qs' ts arbitrary: n rule: list_all2_induct) (simp_all add: base_triple_says)
  from this[OF assms] show ?thesis by (simp add: load_base_triples_def)
qed

lemma says_append: "list_all2 (quad_says ox d) qs' ts \<Longrightarrow> list_all2 (quad_says ox (d @ new)) qs' ts"
  by (erule list_all2_mono) (auto simp: quad_says_def intro: denotes_append)

section \<open>What is written\<close>

lemma insert_inferred:
  "g \<notin> set (trow st) \<Longrightarrow> insert_quads (map (inferred_quad g) buf) st = Inr (st\<lparr>quads := quads st @ map (inferred_quad g) buf\<rparr>)"
  by (auto simp: insert_quads_def list_ex_iff inferred_quad_def asserted_quad_def)

lemma flush_inferred_ok:
  "g \<notin> set (trow st) \<Longrightarrow> flush_inferred g buf st = Inr (int (length buf), st\<lparr>quads := quads st @ map (inferred_quad g) buf\<rparr>)"
  by (simp add: flush_inferred_def insert_inferred)

lemma write_inferred_ok:
  "g \<notin> set (trow st) \<Longrightarrow> write_inferred g idss buf n st =
     Inr (n + int (length (buf @ idss)), st\<lparr>quads := quads st @ map (inferred_quad g) (buf @ idss)\<rparr>)"
proof (induction g idss buf n st rule: write_inferred.induct)
  case (2 g ids rest buf n st)
  show ?case
  proof (cases "WRITE_BATCH \<le> length (buf @ [ids])")
    case True
    let ?st = "st\<lparr>quads := quads st @ map (inferred_quad g) (buf @ [ids])\<rparr>"
    have f: "flush_inferred g (buf @ [ids]) st = Inr (int (length (buf @ [ids])), ?st)" by (rule flush_inferred_ok[OF 2(3)])
    have "write_inferred g rest [] (n + int (length (buf @ [ids]))) ?st =
        Inr (n + int (length (buf @ [ids])) + int (length rest), ?st\<lparr>quads := quads ?st @ map (inferred_quad g) rest\<rparr>)"
      using 2(1)[OF True, of ?st "int (length (buf @ [ids]))"] 2(3) by simp
    then show ?thesis using True by (simp del: length_append add: f) (simp add: algebra_simps)
  next
    case False
    then show ?thesis using 2(2)[OF False 2(3)] by simp
  qed
qed (simp add: flush_inferred_ok)

lemma term_order_set: "set (term_order kss) = (\<Union>ks \<in> set kss. keys3 ks)"
  by (auto simp: term_order_def keys3_def)

lemma datatype_ids_ok:
  assumes "dict_ok hasher b R db w" "hash_order hk" "datatype_ids hk b ts w = (dts, w')"
  shows "dict_ok hasher b R db w' \<and> backs (visible w' b) dts \<and> (\<forall>d \<in> set (datatype_iris ts). dts (iri_key d) \<noteq> None) \<and>
    (\<exists>new. visible w' b = visible w b @ new)"
proof -
  have h: "set (hk (datatype_iris ts)) = set (datatype_iris ts)" using assms(2) by (simp add: hash_order_def datatype_iris_def)
  have e: "backs (visible w b) Map.empty" by (simp add: backs_def)
  show ?thesis
  proof (cases "hk (datatype_iris ts) = []")
    case True
    then have "dts = Map.empty" "w' = w" using assms(3) by (simp_all add: datatype_ids_def)
    then show ?thesis using assms(1) h e True by simp
  next
    case False
    then have "fold (resolve_chunk b) [map iri_key (hk (datatype_iris ts))] (Map.empty, w) = (dts, w')"
      using assms(3) by (simp add: datatype_ids_def Let_def)
    from resolve_chunks_ok[OF assms(1) e this] show ?thesis using h by (auto simp: dom_def)
  qed
qed

lemma triple_key_keyed:
  assumes "backs d dts" "\<forall>dt \<in> set (datatype_iris ts). dts (iri_key dt) \<noteq> None" "t \<in> set ts"
  shows "keyed d (triple_key dts t) t"
proof -
  obtain s p ob where t: "t = (s, p, ob)" by (metis prod_cases3)
  have "set (plain_datatype ob) \<subseteq> set (datatype_iris ts)" using assms(3) by (force simp: datatype_iris_def t)
  then have "term_keyed d (keyed_object dts ob) ob" using assms(2) by (intro keyed_object_keyed[OF assms(1)]) auto
  then show ?thesis by (simp add: keyed_def triple_key_def t)
qed

lemma intern_inferred_ok:
  assumes "dict_ok hasher b R db w" "hash_order hk"
  shows "\<exists>idss w'. intern_inferred hk b ts w = Inr (idss, w') \<and> dict_ok hasher b R db w' \<and>
    list_all2 (denotes (visible w' b)) idss ts \<and> (\<exists>new. visible w' b = visible w b @ new)"
proof -
  obtain dts w1 where d: "datatype_ids hk b ts w = (dts, w1)" by fastforce
  note o1 = datatype_ids_ok[OF assms d]
  let ?kss = "map (triple_key dts) ts"
  obtain m w2 where m: "fold (resolve_chunk b) (chunks WRITE_BATCH (term_order ?kss)) (Map.empty, w1) = (m, w2)" by fastforce
  have "backs (visible w1 b) Map.empty" by (simp add: backs_def)
  from resolve_chunks_ok[OF conjunct1[OF o1] this m]
  have o2: "dict_ok hasher b R db w2" "backs (visible w2 b) m" "dom m = (\<Union>ks \<in> set ?kss. keys3 ks)"
      "\<exists>new. visible w2 b = visible w1 b @ new"
    by (simp_all add: concat_chunks WRITE_BATCH_def term_order_set)
  have l: "look_up3 m ks \<noteq> None" if "ks \<in> set ?kss" for ks
    using look_up3_some[of ks m] that o2(3) by auto
  then have dr: "drain_pending m ?kss = Some (map (\<lambda>ks. the (look_up3 m ks)) ?kss)" by (auto simp: drain_pending_def list_all_iff)
  have "denotes (visible w2 b) (the (look_up3 m (triple_key dts t))) t" if t: "t \<in> set ts" for t
  proof (rule look_up3_denotes[OF o2(2)])
    have "keyed (visible w1 b) (triple_key dts t) t" using triple_key_keyed[OF _ _ t] o1 by blast
    then show "keyed (visible w2 b) (triple_key dts t) t" using o2(4) keyed_append by metis
    show "look_up3 m (triple_key dts t) = Some (the (look_up3 m (triple_key dts t)))" using l t by simp
  qed
  then have "list_all2 (denotes (visible w2 b)) (map (\<lambda>ks. the (look_up3 m ks)) ?kss) ts"
    by (simp add: list_all2_conv_all_nth)
  moreover have "list_all (\<lambda>d. dts (iri_key d) \<noteq> None) (datatype_iris ts)" using o1 by (simp add: list_all_iff)
  ultimately show ?thesis using o1 o2(1,4) m d dr by (auto simp: intern_inferred_def)
qed

section \<open>The whole verb\<close>

lemma stamp_frame [simp]:
  "quads (stamp_materialize g n now st) = quads st" "trow (stamp_materialize g n now st) = trow st"
  "locked (stamp_materialize g n now st) h \<longleftrightarrow> locked st h"
  by (simp_all add: stamp_materialize_def update_graph_def locked_def find_graph_def find_map_same split: option.splits)

lemma locked_quads [simp]: "locked (st\<lparr>quads := qs'\<rparr>) g \<longleftrightarrow> locked st g"
  by (simp add: locked_def find_graph_def)

text \<open>
  What a profile derives from a base, and what of it is new. The reasoner of the default profile is the
  parameter \<open>owl\<close>; its errors are reported, not acted on.
\<close>

definition derived_triples ::
    "oxrdf \<Rightarrow> (ox_triple list \<Rightarrow> ox_triple list \<times> string list) \<Rightarrow> (ox_triple list \<Rightarrow> ox_triple list) \<Rightarrow> string
      \<Rightarrow> ox_triple list \<Rightarrow> ox_triple list \<times> string list" where
  "derived_triples ox owl hs profile ts =
     (if profile = ''owl-rl'' then owl ts else (rdfs_closure (valid_iri ox) hs ts, []))"

definition new_triples ::
    "oxrdf \<Rightarrow> (ox_triple list \<Rightarrow> ox_triple list \<times> string list) \<Rightarrow> (ox_triple list \<Rightarrow> ox_triple list) \<Rightarrow> string
      \<Rightarrow> ox_triple list \<Rightarrow> ox_triple list" where
  "new_triples ox owl hs profile ts = filter (\<lambda>t. t \<notin> set ts) (fst (derived_triples ox owl hs profile ts))"

definition profiles :: "string set" where "profiles = {''owl-rl'', ''rdfs''}"

lemma materialize_ok:
  assumes "dict_ok hasher b R db w" "hash_order hk" "\<not> locked st g" "g \<notin> set (trow st)" "profile \<in> profiles"
    and "ts = load_base_triples ox g (visible w b) st"
  shows "\<exists>w' idss. materialize ox owl hs hk analyze now b g profile (w, st) =
      Inr (\<lparr>ms_base = int (length ts), ms_written = int (length idss),
             ms_dropped = int (length (filter (\<lambda>q. qg q = g \<and> qinf q) (quads st))), ms_profile = profile,
             ms_errors = snd (derived_triples ox owl hs profile ts), ms_analyzed = (0 < int (length idss) \<and> analyze)\<rparr>,
        w', stamp_materialize g (int (length ts)) now
              (st\<lparr>quads := filter (\<lambda>q. \<not> (qg q = g \<and> qinf q)) (quads st) @ map (inferred_quad g) idss\<rparr>)) \<and>
    list_all2 (denotes (visible w' b)) idss (new_triples ox owl hs profile ts) \<and> dict_ok hasher b R db w' \<and>
    (\<exists>new. visible w' b = visible w b @ new)"
proof -
  define st1 where "st1 = st\<lparr>quads := filter (\<lambda>q. \<not> (qg q = g \<and> qinf q)) (quads st)\<rparr>"
  have req: "require_unlocked g st = Inr ()" using assms(3) by simp
  have prof: "\<not> profile \<notin> {''owl-rl'', ''rdfs''}" using assms(5) by (simp add: profiles_def)
  have del: "delete_quads (\<lambda>q. qg q = g \<and> qinf q) st = Inr st1"
    using assms(4) by (auto simp: delete_quads_def list_ex_iff st1_def)
  have "asserted_in g st1 = asserted_in g st" by (auto simp: asserted_in_def st1_def intro: filter_cong)
  then have base: "load_base_triples ox g (visible w b) st1 = ts" by (simp add: assms(6) load_base_triples_def)
  obtain derived errors where der: "derived_triples ox owl hs profile ts = (derived, errors)" by fastforce
  then have der': "(if profile = ''owl-rl'' then owl ts else (rdfs_closure (valid_iri ox) hs ts, [])) = (derived, errors)"
    by (simp add: derived_triples_def)
  have nt: "new_triples ox owl hs profile ts = filter (\<lambda>t. t \<notin> set ts) derived" by (simp add: new_triples_def der)
  obtain idss w' where i: "intern_inferred hk b (new_triples ox owl hs profile ts) w = Inr (idss, w')" "dict_ok hasher b R db w'"
      "list_all2 (denotes (visible w' b)) idss (new_triples ox owl hs profile ts)" "\<exists>new. visible w' b = visible w b @ new"
    using intern_inferred_ok[OF assms(1,2)] by blast
  have wr: "write_inferred g idss [] 0 st1 = Inr (int (length idss), st1\<lparr>quads := quads st1 @ map (inferred_quad g) idss\<rparr>)"
    using write_inferred_ok[of g st1 idss "[]" 0] assms(4) by (simp add: st1_def)
  have "materialize ox owl hs hk analyze now b g profile (w, st) =
      Inr (\<lparr>ms_base = int (length ts), ms_written = int (length idss),
             ms_dropped = int (length (filter (\<lambda>q. qg q = g \<and> qinf q) (quads st))), ms_profile = profile, ms_errors = errors,
             ms_analyzed = (0 < int (length idss) \<and> analyze)\<rparr>,
        w', stamp_materialize g (int (length ts)) now (st1\<lparr>quads := quads st1 @ map (inferred_quad g) idss\<rparr>))"
    using prof by (simp only: materialize_def prod.case req res_bind.simps if_False del Let_def base der' i(1)[unfolded nt] wr)
  moreover have "st1\<lparr>quads := quads st1 @ map (inferred_quad g) idss\<rparr> =
      st\<lparr>quads := filter (\<lambda>q. \<not> (qg q = g \<and> qinf q)) (quads st) @ map (inferred_quad g) idss\<rparr>" by (simp add: st1_def)
  ultimately show ?thesis using i(2-4) der by (intro exI[of _ w'] exI[of _ idss]) (simp only: simp_thms snd_conv)
qed

lemma read_inferred: "read_quad d (inferred_quad g ids) = read_quad d (asserted_quad g ids)"
  by (simp add: read_quad_def inferred_quad_def asserted_quad_def split: prod.splits)

lemma denotes_inferred_read:
  "list_all2 (denotes d) idss ts \<Longrightarrow> map (\<lambda>ids. read_quad d (inferred_quad g ids)) idss = map (\<lambda>t. Some (as_triple t)) ts"
  by (induction rule: list_all2_induct) (simp_all add: read_inferred denotes_read)

lemma inferred_fields [simp]: "qinf (inferred_quad g ids)" "qg (inferred_quad g ids) = g"
  by (simp_all add: inferred_quad_def asserted_quad_def split: prod.splits)

definition inferred_in :: "int \<Rightarrow> store \<Rightarrow> quad list" where
  "inferred_in g st = filter (\<lambda>q. qg q = g \<and> qinf q) (quads st)"

lemma after_materialize:
  assumes "st' = stamp_materialize g n now (st\<lparr>quads := filter (\<lambda>q. \<not> (qg q = g \<and> qinf q)) (quads st) @ map (inferred_quad g) idss\<rparr>)"
  shows "asserted_in g st' = asserted_in g st" "inferred_in g st' = map (inferred_quad g) idss"
    "filter (\<lambda>q. qg q \<noteq> g) (quads st') = filter (\<lambda>q. qg q \<noteq> g) (quads st)"
    "\<not> locked st' g \<longleftrightarrow> \<not> locked st g" "trow st' = trow st"
  unfolding assms by (auto simp: asserted_in_def inferred_in_def filter_empty_conv comp_def intro: filter_cong)

lemma new_triples_rdfs:
  assumes "hash_order hs"
  shows "distinct (new_triples ox owl hs ''rdfs'' ts)" "set (new_triples ox owl hs ''rdfs'' ts) \<subseteq> rdfs (set ts) - set ts"
  using closure_ok[OF assms, where valid = "valid_iri ox" and ts = ts] by (auto simp: new_triples_def derived_triples_def)

lemma new_triples_labels [simp]: "new_triples (ox\<lparr>new_label := f\<rparr>) owl hs profile ts = new_triples ox owl hs profile ts"
  by (simp add: new_triples_def derived_triples_def)

lemma node_accepted_labels [simp]: "node_accepted (ox\<lparr>new_label := f\<rparr>) n = node_accepted ox n"
  by (cases n) simp_all

lemma quad_says_labels: "quad_says (ox\<lparr>new_label := f\<rparr>) = quad_says ox"
proof -
  have "term_accepted (ox\<lparr>new_label := f\<rparr>) ob = term_accepted ox ob" for ob
    by (cases "(ox, ob)" rule: term_accepted.cases) simp_all
  then show ?thesis by (simp add: fun_eq_iff quad_says_def accepted_def split: prod.splits)
qed

lemma materialize_run:
  assumes "dict_ok hasher b R db w" "hash_order hk" "\<not> locked st g" "g \<notin> set (trow st)" "profile \<in> profiles"
    and "ts = load_base_triples ox g (visible w b) st"
  shows "\<exists>s w' st' new. materialize ox owl hs hk analyze now b g profile (w, st) = Inr (s, w', st') \<and>
    ms_base s = int (length ts) \<and> ms_written s = int (length (inferred_in g st')) \<and> ms_dropped s = int (length (inferred_in g st)) \<and>
    asserted_in g st' = asserted_in g st \<and> filter (\<lambda>q. qg q \<noteq> g) (quads st') = filter (\<lambda>q. qg q \<noteq> g) (quads st) \<and>
    map (read_quad (visible w' b)) (inferred_in g st') = map (\<lambda>t. Some (as_triple t)) (new_triples ox owl hs profile ts) \<and>
    dict_ok hasher b R db w' \<and> \<not> locked st' g \<and> g \<notin> set (trow st') \<and> visible w' b = visible w b @ new"
proof -
  obtain w' idss new where m: "materialize ox owl hs hk analyze now b g profile (w, st) =
      Inr (\<lparr>ms_base = int (length ts), ms_written = int (length idss),
             ms_dropped = int (length (filter (\<lambda>q. qg q = g \<and> qinf q) (quads st))), ms_profile = profile,
             ms_errors = snd (derived_triples ox owl hs profile ts), ms_analyzed = (0 < int (length idss) \<and> analyze)\<rparr>,
        w', stamp_materialize g (int (length ts)) now
              (st\<lparr>quads := filter (\<lambda>q. \<not> (qg q = g \<and> qinf q)) (quads st) @ map (inferred_quad g) idss\<rparr>))"
    and d: "list_all2 (denotes (visible w' b)) idss (new_triples ox owl hs profile ts)" "dict_ok hasher b R db w'"
      "visible w' b = visible w b @ new" using materialize_ok[OF assms] by blast
  define st' where "st' = stamp_materialize g (int (length ts)) now
      (st\<lparr>quads := filter (\<lambda>q. \<not> (qg q = g \<and> qinf q)) (quads st) @ map (inferred_quad g) idss\<rparr>)"
  note a = after_materialize[OF st'_def]
  have rd: "map (read_quad (visible w' b)) (inferred_in g st') = map (\<lambda>t. Some (as_triple t)) (new_triples ox owl hs profile ts)"
    using denotes_inferred_read[OF d(1)] by (simp add: a(2) comp_def)
  have l: "int (length (filter (\<lambda>q. qg q = g \<and> qinf q) (quads st))) = int (length (inferred_in g st))" by (simp add: inferred_in_def)
  have n: "int (length idss) = int (length (inferred_in g st'))" by (simp add: a(2))
  show ?thesis
    by (rule exI, rule exI[of _ w'], rule exI[of _ st'], rule exI[of _ new], rule conjI, rule m[folded st'_def])
      (use a(1,3,4,5) assms(3,4) rd d(2,3) l n in simp)
qed

text \<open>What stands in for a row that oxrdf does not accept: an invented label differs from run to run.\<close>

lemma literal_subject_renamed:
  "\<lbrakk>base_triple ox d (i, q) = Some t; dict_row_of d (qs q) = Some (3, v, dt, l)\<rbrakk> \<Longrightarrow> fst t = BlankNode (new_label ox (2 * i))"
  by (auto simp: base_triple_def build_subject_def split: option.splits if_splits prod.splits)

section \<open>Properties\<close>

text \<open>C26: Materializing an unlocked graph succeeds under both profiles and leaves, in place of the inferred rows the graph had, one inferred row for each triple the profile derives from the base and the base does not hold. The base is what \<open>load_base_triples\<close> makes of the asserted rows: it is exactly their triples when oxrdf accepts every row as it is; otherwise rows with a malformed predicate are left out, a malformed IRI is read as the sentinel \<open>urn:pgrdf:invalid-iri\<close>, and a malformed label or a literal subject as an invented blank node. Under the RDFS profile each written row follows from the base by the RDFS rules and appears once; what the OWL 2 RL reasoner derives is its own affair. Asserted rows and other graphs are untouched, and the answer counts base, written and dropped rows.\<close>

theorem materialize_exact:
  assumes "reachable hasher db_of w" "hash_order hs" "hash_order hk" "\<not> locked st g" "g \<notin> set (trow st)"
    and "profile \<in> profiles" "ts = load_base_triples ox g (visible w b) st"
  shows "\<exists>s w' st'. materialize ox owl hs hk analyze now b g profile (w, st) = Inr (s, w', st') \<and>
    ms_base s = int (length ts) \<and> ms_written s = int (length (inferred_in g st')) \<and> ms_dropped s = int (length (inferred_in g st)) \<and>
    asserted_in g st' = asserted_in g st \<and> filter (\<lambda>q. qg q \<noteq> g) (quads st') = filter (\<lambda>q. qg q \<noteq> g) (quads st) \<and>
    map (read_quad (visible w' b)) (inferred_in g st') = map (\<lambda>t. Some (as_triple t)) (new_triples ox owl hs profile ts) \<and>
    (profile = ''rdfs'' \<longrightarrow> distinct (new_triples ox owl hs profile ts) \<and> set (new_triples ox owl hs profile ts) \<subseteq> rdfs (set ts) - set ts) \<and>
    (\<forall>us. list_all2 (quad_says ox (visible w b)) (asserted_in g st) us \<longrightarrow> ts = us)"
  using materialize_run[OF reachable_dict_ok[OF assms(1)] assms(3-7), of owl hs analyze now] new_triples_rdfs[OF assms(2), of ox owl ts]
    load_base_says assms(7) by blast

text \<open>C27: Materializing an unlocked graph twice, under the same of the two profiles and with a reasoner that gives the same answer to the same base, is idempotent when oxrdf accepts every asserted row as it is: the second run, whatever labels it invents, drops exactly the rows the first wrote and writes rows that read the same, in number and in content. The condition on the rows is needed: in the base of each run a malformed label or a literal subject stands as a newly invented blank node (\<open>literal_subject_renamed\<close>).\<close>

theorem materialize_idempotent:
  assumes "reachable hasher db_of w" "hash_order hk" "\<not> locked st g" "g \<notin> set (trow st)" "profile \<in> profiles"
    and "list_all2 (quad_says ox (visible w b)) (asserted_in g st) ts"
    and "materialize ox owl hs hk analyze now b g profile (w, st) = Inr (s1, w1, st1)"
  shows "\<exists>s2 w2 st2. materialize (ox\<lparr>new_label := f\<rparr>) owl hs hk analyze' now' b g profile (w1, st1) = Inr (s2, w2, st2) \<and>
    ms_dropped s2 = ms_written s1 \<and> ms_written s2 = ms_written s1 \<and> ms_base s2 = ms_base s1 \<and>
    asserted_in g st2 = asserted_in g st1 \<and>
    map (read_quad (visible w2 b)) (inferred_in g st2) = map (read_quad (visible w1 b)) (inferred_in g st1)"
proof -
  obtain new where m1: "ms_base s1 = int (length ts)" "ms_written s1 = int (length (inferred_in g st1))"
      "map (read_quad (visible w1 b)) (inferred_in g st1) = map (\<lambda>t. Some (as_triple t)) (new_triples ox owl hs profile ts)"
      "dict_ok hasher b (rows w) (bdb (backends w b)) w1" "\<not> locked st1 g" "g \<notin> set (trow st1)"
      "asserted_in g st1 = asserted_in g st" "visible w1 b = visible w b @ new"
    using materialize_run[OF reachable_dict_ok[OF assms(1)] assms(2-5) load_base_says[OF assms(6), symmetric], of owl hs analyze now] assms(7)
    by auto
  have "list_all2 (quad_says (ox\<lparr>new_label := f\<rparr>) (visible w1 b)) (asserted_in g st1) ts"
    using says_append[OF assms(6)] by (simp add: m1(7,8) quad_says_labels)
  note base2 = load_base_says[OF this, symmetric]
  from materialize_run[OF m1(4) assms(2) m1(5,6) assms(5) base2, of owl hs analyze' now'] obtain s2 w2 st2 where
      m2: "materialize (ox\<lparr>new_label := f\<rparr>) owl hs hk analyze' now' b g profile (w1, st1) = Inr (s2, w2, st2)" "ms_base s2 = int (length ts)"
        "ms_written s2 = int (length (inferred_in g st2))" "ms_dropped s2 = int (length (inferred_in g st1))"
        "asserted_in g st2 = asserted_in g st1"
        "map (read_quad (visible w2 b)) (inferred_in g st2) = map (\<lambda>t. Some (as_triple t)) (new_triples ox owl hs profile ts)"
    unfolding new_triples_labels by blast
  have "length (inferred_in g st2) = length (inferred_in g st1)" using m1(3) m2(6) by (metis length_map)
  then show ?thesis using m1 m2 by auto
qed

text \<open>An unknown profile is refused before anything is deleted.\<close>

lemma unknown_profile_refused:
  "\<lbrakk>\<not> locked st g; profile \<notin> {''owl-rl'', ''rdfs''}\<rbrakk> \<Longrightarrow>
     materialize ox owl hs hk analyze now b g profile (w, st) = Inl Invalid_Parameter_Value"
proof -
  assume "\<not> locked st g" "profile \<notin> {''owl-rl'', ''rdfs''}"
  then have "require_unlocked g st = Inr ()" by simp
  then show ?thesis using \<open>profile \<notin> _\<close> by (simp add: materialize_def del: require_unlocked_Inr)
qed

text \<open>The concrete graph: one triple that makes the vocabulary's subPropertyOf a subproperty of \<open>ex:q\<close>.\<close>

definition any_oxrdf :: oxrdf where
  "any_oxrdf = \<lparr>valid_iri = (\<lambda>i. True), valid_label = (\<lambda>l. True), lang_tag = Some, new_label = (\<lambda>i. ''f'')\<rparr>"

definition schema_keys :: "dict_key list" where
  "schema_keys = [(1, RDFS_SUBPROPERTYOF, None, None), (1, ''ex:q'', None, None)]"

definition schema_world :: world where
  "schema_world = snd (put_terms_batch 0 schema_keys toy_world)"

definition schema_store :: store where
  "schema_store = (case fst (put_terms_batch 0 schema_keys toy_world) of
     [i, j] \<Rightarrow> fresh_store\<lparr>quads := [asserted_quad 7 (i, i, j)]\<rparr> | _ \<Rightarrow> fresh_store)"

definition schema_triple :: ox_triple where
  "schema_triple = (NamedNode RDFS_SUBPROPERTYOF, RDFS_SUBPROPERTYOF, NodeTerm (NamedNode ''ex:q''))"

lemma schema_graph:
  "reachable toy_hasher (\<lambda>_. 1) schema_world" "\<not> locked schema_store 7" "7 \<notin> set (trow schema_store)"
  "list_all2 (quad_says any_oxrdf (visible schema_world 0)) (asserted_in 7 schema_store) [schema_triple]"
proof -
  show "reachable toy_hasher (\<lambda>_. 1) schema_world"
    unfolding schema_world_def by (rule reachable.step[OF toy_reachable wstep.batch])
  obtain ids w where p: "put_terms_batch 0 schema_keys toy_world = (ids, w)" by fastforce
  note ok = batch_ok[OF reachable_dict_ok[OF toy_reachable, of 0] p]
  obtain i j where ids: "ids = [i, j]" using ok(2) by (auto simp: schema_keys_def length_Suc_conv)
  have w: "schema_world = w" "schema_store = fresh_store\<lparr>quads := [asserted_quad 7 (i, i, j)]\<rparr>"
    by (simp_all add: schema_world_def schema_store_def p ids)
  have r: "dict_row_of (visible w 0) i = Some (1, RDFS_SUBPROPERTYOF, None, None)" "dict_row_of (visible w 0) j = Some (1, ''ex:q'', None, None)"
    by (auto intro!: ok(3) simp: ids schema_keys_def)
  show "\<not> locked schema_store 7" "7 \<notin> set (trow schema_store)"
    by (simp_all add: w(2)) (simp_all add: locked_def fresh_store_def find_graph_def new_row_def)
  show "list_all2 (quad_says any_oxrdf (visible schema_world 0)) (asserted_in 7 schema_store) [schema_triple]"
    using r by (simp add: w asserted_in_def asserted_quad_def quad_says_def denotes_def schema_triple_def accepted_def any_oxrdf_def iri_key_def)
qed

lemma schema_base: "[schema_triple] = load_base_triples any_oxrdf 7 (visible schema_world 0) schema_store"
  by (rule load_base_says[OF schema_graph(4), symmetric])

lemma rdfs_profile: "''rdfs'' \<in> profiles"
  by (simp add: profiles_def)

lemma schema_new: "new_triples any_oxrdf owl id ''rdfs'' [schema_triple] = [(NamedNode RDFS_SUBPROPERTYOF, ''ex:q'', NodeTerm (NamedNode ''ex:q''))]"
proof -
  have "filter (\<lambda>t. t \<notin> set [schema_triple]) (rdfs_closure (valid_iri any_oxrdf) id [schema_triple])
      = [(NamedNode RDFS_SUBPROPERTYOF, ''ex:q'', NodeTerm (NamedNode ''ex:q''))]" by code_simp
  then show ?thesis by (simp add: new_triples_def derived_triples_def)
qed

theorem materialize_exact_witness:
  "\<exists>s w' st'. materialize any_oxrdf (\<lambda>ts. (ts, [])) id id True 0 0 7 ''rdfs'' (schema_world, schema_store) = Inr (s, w', st') \<and>
    ms_written s = 1 \<and> map (read_quad (visible w' 0)) (inferred_in 7 st') = [Some (Iri RDFS_SUBPROPERTYOF, Iri ''ex:q'', Iri ''ex:q'')]"
proof -
  have h: "hash_order (id :: ox_triple list \<Rightarrow> ox_triple list)" by (simp add: hash_order_def)
  obtain s w' st' where m: "materialize any_oxrdf (\<lambda>ts. (ts, [])) id id True 0 0 7 ''rdfs'' (schema_world, schema_store) = Inr (s, w', st')"
      "ms_written s = int (length (inferred_in 7 st'))"
      "map (read_quad (visible w' 0)) (inferred_in 7 st') = map (\<lambda>t. Some (as_triple t)) (new_triples any_oxrdf (\<lambda>ts. (ts, [])) id ''rdfs'' [schema_triple])"
    using materialize_exact[OF schema_graph(1) h hash_order_id schema_graph(2,3) rdfs_profile schema_base, of "\<lambda>ts. (ts, [])" True 0] by blast
  have "length (inferred_in 7 st') = 1" using arg_cong[OF m(3), of length] by (simp add: schema_new)
  then show ?thesis using m by (simp add: schema_new)
qed

theorem materialize_idempotent_witness:
  "\<exists>s1 w1 st1 s2 w2 st2. materialize any_oxrdf (\<lambda>ts. (ts, [])) id id True 0 0 7 ''rdfs'' (schema_world, schema_store) = Inr (s1, w1, st1) \<and>
    materialize (any_oxrdf\<lparr>new_label := \<lambda>i. ''h''\<rparr>) (\<lambda>ts. (ts, [])) id id True 1 0 7 ''rdfs'' (w1, st1) = Inr (s2, w2, st2) \<and>
    ms_dropped s2 = ms_written s1"
proof -
  obtain s1 w1 st1 where m: "materialize any_oxrdf (\<lambda>ts. (ts, [])) id id True 0 0 7 ''rdfs'' (schema_world, schema_store) = Inr (s1, w1, st1)"
    using materialize_run[OF reachable_dict_ok[OF schema_graph(1)] hash_order_id schema_graph(2,3) rdfs_profile schema_base,
        of "\<lambda>ts. (ts, [])" id True 0] by blast
  from materialize_idempotent[OF schema_graph(1) hash_order_id schema_graph(2,3) rdfs_profile schema_graph(4) m, where analyze' = True and now' = 1] m
  show ?thesis by blast
qed
end
