(* ===== verification/Quad_Ingest.thy ===== *)
theory Quad_Ingest
  imports Ingest
begin

text \<open>
  The quad loaders of \<open>src/storage/loader.rs\<close>: \<open>parse_trig\<close> and \<open>parse_nquads\<close> with their per-graph
  batches, the resolution of graph names (which registers a new graph unless \<open>strict\<close>), the per-term
  and the deferred dictionary route, and the dispatch. The parser is a parameter that gives the
  parse results in order, \<open>None\<close> standing for a syntax error. \<open>HashMap\<close>s whose iteration order the
  code does not use, or sorts, are association lists kept sorted.
\<close>

section \<open>Graph names and batches\<close>

datatype graph_name = Default_Graph | Named_Graph string | Blank_Graph string

type_synonym ox_quad = "ox_triple \<times> graph_name"
type_synonym quad_parser = "string \<Rightarrow> ox_quad option list"
type_synonym graph_batches = "(int \<times> (int \<times> int \<times> int) list) list"

record quad_load =
  qld :: loader
  gcache :: "string \<Rightarrow> int option"        \<comment> \<open>graph_id_cache\<close>
  batches :: graph_batches                 \<comment> \<open>GraphBatches.pending\<close>
  graphs_order :: "int list"               \<comment> \<open>graphs_order, graphs_seen\<close>

definition clear_batch :: "int \<Rightarrow> graph_batches \<Rightarrow> graph_batches" where
  "clear_batch g m = map (\<lambda>(k, buf). (k, if k = g then [] else buf)) m"

definition push_batch :: "int \<Rightarrow> int \<times> int \<times> int \<Rightarrow> quad_load \<Rightarrow> quad_load res" where
  "push_batch g ids ql =
     (let m = bt_push g ids (batches ql); buf = bt_get g m in
      if BATCH_SIZE \<le> length buf
      then res_bind (flush_batch g buf (qld ql)) (\<lambda>ld. Inr (ql\<lparr>qld := ld, batches := clear_batch g m\<rparr>))
      else Inr (ql\<lparr>batches := m\<rparr>))"

fun flush_all :: "graph_batches \<Rightarrow> loader \<Rightarrow> loader res" where
  "flush_all [] ld = Inr ld"
| "flush_all ((g, buf) # m) ld = res_bind (flush_batch g buf ld) (flush_all m)"

definition resolve_graph_id ::
    "privs \<Rightarrow> int \<Rightarrow> bool \<Rightarrow> graph_name \<Rightarrow> quad_load \<Rightarrow> (int \<times> quad_load) res" where
  "resolve_graph_id u default_graph strict gn ql =
     (case gn of
        Default_Graph \<Rightarrow> Inr (default_graph, ql)
      | Blank_Graph l \<Rightarrow> Inl Internal_Error
      | Named_Graph iri \<Rightarrow>
          (case gcache ql iri of
             Some g \<Rightarrow> Inr (g, ql)
           | None \<Rightarrow>
               res_bind
                 (case graph_id iri (lstore (qld ql)) of
                    Some g \<Rightarrow> Inr (g, lstore (qld ql))
                  | None \<Rightarrow> if strict then Inl Undefined_Object else add_graph_iri u iri (lstore (qld ql)))
                 (\<lambda>(g, st). Inr (g, ql\<lparr>qld := (qld ql)\<lparr>lstore := st\<rparr>, gcache := (gcache ql)(iri \<mapsto> g)\<rparr>))))"

definition note_graph :: "int \<Rightarrow> int list \<Rightarrow> int list" where
  "note_graph g gs = (if g \<in> set gs then gs else gs @ [g])"

text \<open>The destination first, then anything of the quad.\<close>

definition route_quad :: "privs \<Rightarrow> int \<Rightarrow> bool \<Rightarrow> graph_name \<Rightarrow> quad_load \<Rightarrow> (int \<times> quad_load) res" where
  "route_quad u default_graph strict gn ql =
     res_bind (resolve_graph_id u default_graph strict gn ql)
       (\<lambda>(g, ql). Inr (g, ql\<lparr>graphs_order := note_graph g (graphs_order ql)\<rparr>))"

definition start_quads :: "world \<Rightarrow> store \<Rightarrow> quad_load" where
  "start_quads w st = \<lparr>qld = start_load w st, gcache = Map.empty, batches = [], graphs_order = []\<rparr>"

definition finish_quads :: "quad_load \<Rightarrow> (loader \<times> int list) res" where
  "finish_quads ql = res_bind (flush_all (batches ql) (qld ql)) (\<lambda>ld. Inr (ld, graphs_order ql))"

section \<open>The per-term route\<close>

fun quads_loop ::
    "hasher \<Rightarrow> nat \<Rightarrow> privs \<Rightarrow> int \<Rightarrow> bool \<Rightarrow> ox_quad option list \<Rightarrow> quad_load \<Rightarrow> quad_load res" where
  "quads_loop hasher b u dg strict [] ql = Inr ql"
| "quads_loop hasher b u dg strict (None # items) ql = Inl Internal_Error"
| "quads_loop hasher b u dg strict (Some (t, gn) # items) ql =
     res_bind (route_quad u dg strict gn ql) (\<lambda>(g, ql).
       (let (ids, ld) = triple_to_ids (intern_term hasher b) t (qld ql) in
        res_bind (push_batch g ids (ql\<lparr>qld := ld\<rparr>)) (\<lambda>ql.
          quads_loop hasher b u dg strict items (ql\<lparr>qld := tick count_triple (qld ql)\<rparr>))))"

definition ingest_quads_with_stats ::
    "hasher \<Rightarrow> nat \<Rightarrow> privs \<Rightarrow> ox_quad option list \<Rightarrow> int \<Rightarrow> bool \<Rightarrow> world \<Rightarrow> store \<Rightarrow> (loader \<times> int list) res" where
  "ingest_quads_with_stats hasher b u items dg strict w st =
     res_bind (quads_loop hasher b u dg strict items (start_quads w st)) finish_quads"

section \<open>The deferred route\<close>

type_synonym waiting_quad = "int \<times> dict_key \<times> dict_key \<times> dict_key"

fun drain_quads :: "waiting_quad list \<Rightarrow> quad_load \<Rightarrow> quad_load res" where
  "drain_quads [] ql = Inr ql"
| "drain_quads ((g, ks) # waiting) ql =
     (case look_up3 (hm (qld ql)) ks of
        None \<Rightarrow> Inl Internal_Error
      | Some ids \<Rightarrow> res_bind (push_batch g ids ql) (drain_quads waiting))"

fun quads_combined_loop ::
    "hasher \<Rightarrow> nat \<Rightarrow> privs \<Rightarrow> nat \<Rightarrow> int \<Rightarrow> bool \<Rightarrow> ox_quad option list \<Rightarrow> waiting_quad list \<Rightarrow> dict_key list
      \<Rightarrow> quad_load \<Rightarrow> quad_load res" where
  "quads_combined_loop hasher b u n dg strict [] waiting dq ql =
     drain_quads waiting (ql\<lparr>qld := flush_defer hasher b dq (qld ql)\<rparr>)"
| "quads_combined_loop hasher b u n dg strict (None # items) waiting dq ql = Inl Internal_Error"
| "quads_combined_loop hasher b u n dg strict (Some (t, gn) # items) waiting dq ql =
     res_bind (route_quad u dg strict gn ql) (\<lambda>(g, ql).
       (let (ks, dq, ld) = defer_triple hasher b t (dq, qld ql);
            waiting = waiting @ [(g, ks)];
            (dq, ld) = (if n \<le> length dq then ([], flush_defer hasher b dq ld) else (dq, ld))
        in if BATCH_SIZE \<le> length waiting
           then res_bind (drain_quads waiting (ql\<lparr>qld := flush_defer hasher b dq ld\<rparr>))
                  (quads_combined_loop hasher b u n dg strict items [] [])
           else quads_combined_loop hasher b u n dg strict items waiting dq (ql\<lparr>qld := ld\<rparr>)))"

definition ingest_quads_combined ::
    "hasher \<Rightarrow> nat \<Rightarrow> privs \<Rightarrow> ox_quad option list \<Rightarrow> int \<Rightarrow> bool \<Rightarrow> nat \<Rightarrow> world \<Rightarrow> store \<Rightarrow> (loader \<times> int list) res" where
  "ingest_quads_combined hasher b u items dg strict n w st =
     res_bind (quads_combined_loop hasher b u n dg strict items [] [] (start_quads w st)) finish_quads"

section \<open>Dispatch and entry points\<close>

definition ingest_quads_dispatch ::
    "hasher \<Rightarrow> nat \<Rightarrow> privs \<Rightarrow> ingest_conf \<Rightarrow> ox_quad option list \<Rightarrow> int \<Rightarrow> bool \<Rightarrow> bool \<times> world \<Rightarrow> store
      \<Rightarrow> (bool \<times> loader \<times> int list) res" where
  "ingest_quads_dispatch hasher b u cf items dg strict dw st =
     (let route = ingest_dict_path cf;
          (prewarmed, w) = (if guc_prewarm_on_init cf \<or> route = ShmemWarm
                       then maybe_prewarm_once hasher b dw else dw)
      in res_bind
           (case route of
              Batched \<Rightarrow> ingest_quads_combined hasher b u items dg strict (dict_batch_size cf) w st
            | Combined \<Rightarrow> ingest_quads_combined hasher b u items dg strict (dict_batch_size cf) w st
            | _ \<Rightarrow> ingest_quads_with_stats hasher b u items dg strict w st)
           (\<lambda>(ld, gs). Inr (prewarmed, tick (\<lambda>s. s\<lparr>st_path := path_str route\<rparr>) ld, gs)))"

fun only_default_graph :: "ox_quad option list \<Rightarrow> bool" where
  "only_default_graph [] = True"
| "only_default_graph (q # items) =
     (case q of Some (t, Default_Graph) \<Rightarrow> only_default_graph items | _ \<Rightarrow> False)"

definition parse_quads ::
    "hasher \<Rightarrow> (string \<Rightarrow> string) \<Rightarrow> nat \<Rightarrow> privs \<Rightarrow> ingest_conf \<Rightarrow> quad_parser \<Rightarrow> string \<Rightarrow> int \<Rightarrow> bool
      \<Rightarrow> bool \<times> world \<Rightarrow> store \<Rightarrow> (bool \<times> loader \<times> int list) res" where
  "parse_quads hasher sha b u cf parser content dg strict dw st =
     res_bind (require_unlocked dg st) (\<lambda>_.
       (let recorded = only_default_graph (parser content);
            st = (if recorded then begin_source_record dg st else st)
        in res_bind (ingest_quads_dispatch hasher b u cf (parser content) dg strict dw st) (\<lambda>(d, ld, gs).
             Inr (d, if recorded then ld\<lparr>lstore := finish_source_record sha dg content (lstore ld)\<rparr> else ld, gs))))"

text \<open>The two entry points differ in the parser alone.\<close>

definition parse_trig ::
    "quad_parser \<Rightarrow> hasher \<Rightarrow> (string \<Rightarrow> string) \<Rightarrow> nat \<Rightarrow> privs \<Rightarrow> ingest_conf \<Rightarrow> string \<Rightarrow> int \<Rightarrow> bool
      \<Rightarrow> bool \<times> world \<Rightarrow> store \<Rightarrow> (bool \<times> loader \<times> int list) res" where
  "parse_trig trig_parser hasher sha b u cf = parse_quads hasher sha b u cf trig_parser"

definition parse_nquads ::
    "quad_parser \<Rightarrow> hasher \<Rightarrow> (string \<Rightarrow> string) \<Rightarrow> nat \<Rightarrow> privs \<Rightarrow> ingest_conf \<Rightarrow> string \<Rightarrow> int \<Rightarrow> bool
      \<Rightarrow> bool \<times> world \<Rightarrow> store \<Rightarrow> (bool \<times> loader \<times> int list) res" where
  "parse_nquads nquads_parser hasher sha b u cf = parse_quads hasher sha b u cf nquads_parser"

section \<open>Batches hold what is not yet written\<close>

definition buffered :: "graph_batches \<Rightarrow> quad list" where
  "buffered m = concat (map (\<lambda>(g, buf). map (asserted_quad g) buf) m)"

lemma buffered_simps [simp]:
  "buffered [] = []" "buffered ((g, buf) # m) = map (asserted_quad g) buf @ buffered m"
  by (simp_all add: buffered_def)

lemma buffered_push: "mset (buffered (bt_push g ids m)) = add_mset (asserted_quad g ids) (mset (buffered m))"
  by (induction g ids m rule: bt_push.induct) auto

lemma clear_absent: "g \<notin> fst ` set m \<Longrightarrow> clear_batch g m = m"
  unfolding clear_batch_def by (rule map_idI) (force simp: split_beta)

lemma clear_keys: "map fst (clear_batch g m) = map fst m"
  by (simp add: clear_batch_def split_beta comp_def)

lemma buffered_clear:
  "bt_wf m \<Longrightarrow> mset (buffered m) = mset (map (asserted_quad g) (bt_get g m)) + mset (buffered (clear_batch g m))"
proof (induction m)
  case (Cons e m)
  obtain k buf where e: "e = (k, buf)" by fastforce
  have tl: "bt_wf m" and k: "k \<notin> fst ` set m" using Cons.prems by (auto simp: bt_wf_def e)
  show ?case
  proof (cases "k = g")
    case True
    have "clear_batch g (e # m) = (k, []) # m"
      using clear_absent[of g m] k True by (simp add: e) (simp add: clear_batch_def)
    then show ?thesis using True by (simp add: e)
  next
    case False
    have "clear_batch g (e # m) = (k, buf) # clear_batch g m" using False by (simp add: e clear_batch_def)
    then show ?thesis using Cons.IH[OF tl] False by (simp add: e)
  qed
qed (simp add: clear_batch_def)

lemma flush_batch_store:
  "flush_batch g buf ld = Inr ld' \<Longrightarrow>
     lstore ld' = (lstore ld)\<lparr>quads := quads (lstore ld) @ map (asserted_quad g) buf\<rparr> \<and>
     hm ld' = hm ld \<and> lworld ld' = lworld ld \<and> n_triples (lstats ld') = n_triples (lstats ld)"
  by (auto simp: flush_batch_def insert_quads_def count_batch_def split: if_splits)

text \<open>What one operation on the batches keeps: everything but the place of the quads.\<close>

definition same_but_quads :: "loader \<Rightarrow> loader \<Rightarrow> bool" where
  "same_but_quads ld ld' \<longleftrightarrow>
     hm ld' = hm ld \<and> lworld ld' = lworld ld \<and> n_triples (lstats ld') = n_triples (lstats ld) \<and>
     (\<exists>qs'. lstore ld' = (lstore ld)\<lparr>quads := qs'\<rparr>)"

lemma same_but_quads_refl [simp]: "same_but_quads ld ld"
  unfolding same_but_quads_def by (auto intro!: exI[of _ "quads (lstore ld)"])

lemma same_but_quads_trans: "same_but_quads a b \<Longrightarrow> same_but_quads b c \<Longrightarrow> same_but_quads a c"
  by (auto simp: same_but_quads_def)

lemma graph_id_quads [simp]: "graph_id i (st\<lparr>quads := qs'\<rparr>) = graph_id i st"
  by (simp add: graph_id_def)

lemma push_batch_ok:
  assumes "push_batch g ids ql = Inr ql'" "bt_wf (batches ql)"
  shows "bt_wf (batches ql') \<and> gcache ql' = gcache ql \<and> graphs_order ql' = graphs_order ql \<and>
    same_but_quads (qld ql) (qld ql') \<and>
    mset (quads (lstore (qld ql'))) + mset (buffered (batches ql')) =
      add_mset (asserted_quad g ids) (mset (quads (lstore (qld ql))) + mset (buffered (batches ql)))"
proof -
  define m where "m = bt_push g ids (batches ql)"
  have wf: "bt_wf m" unfolding m_def by (rule bt_push_wf[OF assms(2)])
  have wfc: "bt_wf (clear_batch g m)" using wf by (simp add: bt_wf_def clear_keys)
  have p: "mset (buffered m) = add_mset (asserted_quad g ids) (mset (buffered (batches ql)))"
    unfolding m_def by (rule buffered_push)
  show ?thesis
  proof (cases "BATCH_SIZE \<le> length (bt_get g m)")
    case False
    with assms(1) have "ql' = ql\<lparr>batches := m\<rparr>" by (simp add: push_batch_def Let_def m_def)
    with wf p show ?thesis by simp
  next
    case True
    with assms(1) obtain ld where f: "flush_batch g (bt_get g m) (qld ql) = Inr ld"
      and ql': "ql' = ql\<lparr>qld := ld, batches := clear_batch g m\<rparr>" by (auto simp: push_batch_def Let_def m_def)
    from flush_batch_store[OF f] have "same_but_quads (qld ql) ld" by (auto simp: same_but_quads_def)
    moreover have "mset (quads (lstore ld)) + mset (buffered (clear_batch g m)) = mset (quads (lstore (qld ql))) + mset (buffered m)"
      using flush_batch_store[OF f] buffered_clear[OF wf, of g] by simp
    ultimately show ?thesis using wfc p ql' by simp
  qed
qed

lemma flush_all_ok:
  "flush_all m ld = Inr ld' \<Longrightarrow> same_but_quads ld ld' \<and>
     mset (quads (lstore ld')) = mset (quads (lstore ld)) + mset (buffered m)"
proof (induction m arbitrary: ld)
  case (Cons e m)
  obtain g buf where e: "e = (g, buf)" by fastforce
  with Cons.prems obtain ld1 where f: "flush_batch g buf ld = Inr ld1" "flush_all m ld1 = Inr ld'" by auto
  from flush_batch_store[OF f(1)] have "same_but_quads ld ld1" by (auto simp: same_but_quads_def)
  with Cons.IH[OF f(2)] flush_batch_store[OF f(1)] show ?case using same_but_quads_trans by (auto simp: e)
qed simp

section \<open>Resolving the destination\<close>

definition target :: "int \<Rightarrow> store \<Rightarrow> graph_name \<Rightarrow> int option" where
  "target dg st gn =
     (case gn of Default_Graph \<Rightarrow> Some dg | Named_Graph i \<Rightarrow> graph_id i st | Blank_Graph l \<Rightarrow> None)"

definition registry_grows :: "store \<Rightarrow> store \<Rightarrow> bool" where
  "registry_grows st st' \<longleftrightarrow> (\<forall>i g. graph_id i st = Some g \<longrightarrow> graph_id i st' = Some g)"

lemma target_grows: "registry_grows st st' \<Longrightarrow> target dg st gn = Some g \<Longrightarrow> target dg st' gn = Some g"
  by (auto simp: registry_grows_def target_def split: graph_name.splits)

lemma add_graph_iri_registry:
  assumes "add_graph_iri u iri st = Inr (g, st')"
  shows "registry_grows st st' \<and> graph_id iri st' = Some g \<and> quads st' = quads st"
proof (cases "graph_id iri st")
  case None
  obtain sq st1 c where s: "gseq st = Some sq" "g = allocate_id sq st"
    "insert_graph g iri (st\<lparr>gseq := Some (g, True)\<rparr>) = Inr st1" "add_graph u g st1 = Inr (c, st')"
    using add_graph_iri_new[OF assms None] .
  have "graph_id x st' = Some h" if "graph_id x st = Some h" for x h
  proof -
    have "graph_id x (st\<lparr>gseq := Some (g, True)\<rparr>) = Some h" using that by (simp add: graph_id_def)
    then show ?thesis using graph_id_mono[OF s(3)] add_graph_registered[OF s(4)] by blast
  qed
  then show ?thesis using add_graph_iri_get_or_create[OF assms] None by (auto simp: registry_grows_def)
next
  case (Some h)
  then have "st' = st \<and> h = g" using assms by (auto simp: add_graph_iri_def split: if_splits)
  then show ?thesis using Some by (simp add: registry_grows_def)
qed

section \<open>What a quad load has written\<close>

text \<open>
  Between two quads: the rows written or buffered are the rows of the quads placed so far, each
  in the graph its name resolves to; \<open>gs\<close> are the destinations met so far, in order.
\<close>

definition firsts :: "int list \<Rightarrow> int list" where
  "firsts gs = fold note_graph gs []"

definition placed :: "dict_row list \<Rightarrow> int \<Rightarrow> store \<Rightarrow> int \<times> int \<times> int \<times> int \<Rightarrow> ox_quad \<Rightarrow> bool" where
  "placed d dg st row q \<longleftrightarrow> denotes d (snd row) (fst q) \<and> target dg st (snd q) = Some (fst row)"

definition row_quad :: "int \<times> int \<times> int \<times> int \<Rightarrow> quad" where
  "row_quad row = asserted_quad (fst row) (snd row)"

definition quads_inv ::
    "hasher \<Rightarrow> nat \<Rightarrow> (32 word \<Rightarrow> dict_row list) \<Rightarrow> 32 word \<Rightarrow> int \<Rightarrow> store \<Rightarrow> ox_quad list \<Rightarrow> int list \<Rightarrow> quad_load \<Rightarrow> bool" where
  "quads_inv hasher b R db dg s0 seen gs ql \<longleftrightarrow>
     load_ok hasher b R db (qld ql) \<and> bt_wf (batches ql) \<and> graphs_order ql = firsts gs \<and>
     (\<forall>i g. gcache ql i = Some g \<longrightarrow> graph_id i (lstore (qld ql)) = Some g) \<and>
     registry_grows s0 (lstore (qld ql)) \<and>
     (\<exists>rs. mset (quads (lstore (qld ql))) + mset (buffered (batches ql)) = mset (quads s0) + mset (map row_quad rs) \<and>
        list_all2 (placed (visible (lworld (qld ql)) b) dg (lstore (qld ql))) rs seen)"

lemma placed_mono:
  "registry_grows st st' \<Longrightarrow> placed d dg st row q \<Longrightarrow> placed (d @ new) dg st' row q"
  by (auto simp: placed_def intro: denotes_append target_grows)

lemma placed_all_mono:
  "registry_grows st st' \<Longrightarrow> list_all2 (placed d dg st) rs seen \<Longrightarrow> list_all2 (placed (d @ new) dg st') rs seen"
  by (erule list_all2_mono) (rule placed_mono)

lemma registry_grows_refl [simp]: "registry_grows st st"
  by (simp add: registry_grows_def)

lemma registry_grows_quads [simp]: "registry_grows st (st'\<lparr>quads := qs'\<rparr>) = registry_grows st st'"
  by (simp add: registry_grows_def)

lemma registry_grows_trans: "registry_grows a b \<Longrightarrow> registry_grows b c \<Longrightarrow> registry_grows a c"
  by (simp add: registry_grows_def)

text \<open>Only the loader changes, the dictionary grows, the store stays.\<close>

lemma quads_inv_loader:
  assumes "quads_inv hasher b R db dg s0 seen gs ql" "load_ok hasher b R db ld"
    and "visible (lworld ld) b = visible (lworld (qld ql)) b @ new" "lstore ld = lstore (qld ql)"
  shows "quads_inv hasher b R db dg s0 seen gs (ql\<lparr>qld := ld\<rparr>)"
proof -
  obtain rs where "mset (quads (lstore (qld ql))) + mset (buffered (batches ql)) = mset (quads s0) + mset (map row_quad rs)"
    "list_all2 (placed (visible (lworld (qld ql)) b) dg (lstore (qld ql))) rs seen"
    using assms(1) by (auto simp: quads_inv_def)
  moreover from this(2) have "list_all2 (placed (visible (lworld ld) b) dg (lstore (qld ql))) rs seen"
    unfolding assms(3) by (rule placed_all_mono[OF registry_grows_refl])
  ultimately show ?thesis using assms(1,2,4) unfolding quads_inv_def by auto
qed

lemma route_quad_ok:
  assumes "quads_inv hasher b R db dg s0 seen gs ql" "route_quad u dg strict gn ql = Inr (g, ql')"
  shows "quads_inv hasher b R db dg s0 seen (gs @ [g]) ql' \<and> target dg (lstore (qld ql')) gn = Some g \<and>
    hm (qld ql') = hm (qld ql) \<and> lworld (qld ql') = lworld (qld ql) \<and> lstats (qld ql') = lstats (qld ql) \<and>
    registry_grows (lstore (qld ql)) (lstore (qld ql')) \<and> (strict \<longrightarrow> lstore (qld ql') = lstore (qld ql))"
proof -
  obtain ql1 where r: "resolve_graph_id u dg strict gn ql = Inr (g, ql1)"
    and ql': "ql' = ql1\<lparr>graphs_order := note_graph g (graphs_order ql1)\<rparr>"
    using assms(2) by (auto simp: route_quad_def)
  have fn: "note_graph g (firsts gs) = firsts (gs @ [g])" by (simp add: firsts_def)
  show ?thesis
  proof (cases gn)
    case Default_Graph
    with r have "ql1 = ql" "g = dg" by (auto simp: resolve_graph_id_def)
    then show ?thesis using assms(1) Default_Graph fn by (simp add: ql' quads_inv_def target_def)
  next
    case (Blank_Graph l)
    with r show ?thesis by (simp add: resolve_graph_id_def)
  next
    case (Named_Graph iri)
    show ?thesis
    proof (cases "gcache ql iri")
      case (Some h)
      with r Named_Graph have "ql1 = ql" "g = h" by (auto simp: resolve_graph_id_def)
      moreover have "graph_id iri (lstore (qld ql)) = Some h" using assms(1) Some by (simp add: quads_inv_def)
      ultimately show ?thesis using assms(1) Named_Graph fn by (simp add: ql' quads_inv_def target_def)
    next
      case None
      let ?found = "case graph_id iri (lstore (qld ql)) of Some g \<Rightarrow> Inr (g, lstore (qld ql))
          | None \<Rightarrow> if strict then Inl Undefined_Object else add_graph_iri u iri (lstore (qld ql))"
      have "res_bind ?found (\<lambda>(g, st). Inr (g, ql\<lparr>qld := (qld ql)\<lparr>lstore := st\<rparr>, gcache := (gcache ql)(iri \<mapsto> g)\<rparr>)) = Inr (g, ql1)"
        using r unfolding resolve_graph_id_def Named_Graph graph_name.case None option.case .
      then obtain st' where m: "?found = Inr (g, st')"
        and st1: "ql1 = ql\<lparr>qld := (qld ql)\<lparr>lstore := st'\<rparr>, gcache := (gcache ql)(iri \<mapsto> g)\<rparr>"
        unfolding res_bind_Inr_iff by (elim exE conjE) (simp split: prod.splits)
      have "registry_grows (lstore (qld ql)) st' \<and> graph_id iri st' = Some g \<and> quads st' = quads (lstore (qld ql))"
      proof (cases "graph_id iri (lstore (qld ql))")
        case (Some h)
        with m have "st' = lstore (qld ql)" "g = h" by simp_all
        then show ?thesis using Some by simp
      qed (use m add_graph_iri_registry in \<open>auto split: if_splits\<close>)
      then have st': "ql1 = ql\<lparr>qld := (qld ql)\<lparr>lstore := st'\<rparr>, gcache := (gcache ql)(iri \<mapsto> g)\<rparr>"
        "registry_grows (lstore (qld ql)) st'" "graph_id iri st' = Some g" "quads st' = quads (lstore (qld ql))"
        using st1 by simp_all
      have strict: "strict \<longrightarrow> st' = lstore (qld ql)" using m by (auto split: option.splits)
      obtain rs where rs: "mset (quads (lstore (qld ql))) + mset (buffered (batches ql)) = mset (quads s0) + mset (map row_quad rs)"
        "list_all2 (placed (visible (lworld (qld ql)) b) dg (lstore (qld ql))) rs seen"
        using assms(1) by (auto simp: quads_inv_def)
      have "list_all2 (placed (visible (lworld (qld ql)) b) dg st') rs seen"
        using placed_all_mono[OF st'(2) rs(2), of "[]"] by simp
      moreover have "registry_grows s0 st'"
        using assms(1) registry_grows_trans[OF _ st'(2)] by (simp add: quads_inv_def)
      moreover have "\<forall>i h. ((gcache ql)(iri \<mapsto> g)) i = Some h \<longrightarrow> graph_id i st' = Some h"
        using assms(1) st'(2,3) by (auto simp: quads_inv_def registry_grows_def)
      ultimately show ?thesis
        using assms(1) st' strict rs(1) fn Named_Graph load_ok_cong[of "(qld ql)\<lparr>lstore := st'\<rparr>" "qld ql"]
        unfolding quads_inv_def ql' st'(1) by (auto simp: target_def)
    qed
  qed
qed

lemma push_batch_inv:
  assumes "quads_inv hasher b R db dg s0 seen gs ql" "push_batch g ids ql = Inr ql'"
    and "denotes (visible (lworld (qld ql)) b) ids t" "target dg (lstore (qld ql)) gn = Some g"
  shows "quads_inv hasher b R db dg s0 (seen @ [(t, gn)]) gs ql' \<and> same_but_quads (qld ql) (qld ql')"
proof -
  have wf: "bt_wf (batches ql)" using assms(1) by (simp add: quads_inv_def)
  note p = push_batch_ok[OF assms(2) wf]
  then obtain qs' where s: "lstore (qld ql') = (lstore (qld ql))\<lparr>quads := qs'\<rparr>" "hm (qld ql') = hm (qld ql)"
    "lworld (qld ql') = lworld (qld ql)" by (auto simp: same_but_quads_def)
  have pl: "placed d dg (st\<lparr>quads := x\<rparr>) = placed d dg st" for d st x
    by (intro ext) (simp add: placed_def target_def split: graph_name.splits)
  obtain rs where rs: "mset (quads (lstore (qld ql))) + mset (buffered (batches ql)) = mset (quads s0) + mset (map row_quad rs)"
    "list_all2 (placed (visible (lworld (qld ql)) b) dg (lstore (qld ql))) rs seen"
    using assms(1) by (auto simp: quads_inv_def)
  have "list_all2 (placed (visible (lworld (qld ql')) b) dg (lstore (qld ql'))) (rs @ [(g, ids)]) (seen @ [(t, gn)])"
    using rs(2) assms(3,4) unfolding s(1,3) pl by (simp add: list_all2_appendI placed_def)
  moreover have "mset (quads (lstore (qld ql'))) + mset (buffered (batches ql')) =
      mset (quads s0) + mset (map row_quad (rs @ [(g, ids)]))"
    using p rs(1) by (simp add: row_quad_def)
  moreover have "load_ok hasher b R db (qld ql')" using assms(1) s(2,3) load_ok_cong[of "qld ql'" "qld ql"] by (simp add: quads_inv_def)
  moreover have "registry_grows s0 (lstore (qld ql'))"
    "\<forall>i g. gcache ql' i = Some g \<longrightarrow> graph_id i (lstore (qld ql')) = Some g"
    using assms(1) p unfolding s(1) quads_inv_def by simp_all
  moreover have "bt_wf (batches ql')" "graphs_order ql' = firsts gs" "same_but_quads (qld ql) (qld ql')"
    using assms(1) p by (simp_all add: quads_inv_def)
  ultimately show ?thesis unfolding quads_inv_def by blast
qed

lemma quads_inv_tick: "quads_inv hasher b R db dg s0 seen gs (ql\<lparr>qld := tick f (qld ql)\<rparr>) = quads_inv hasher b R db dg s0 seen gs ql"
  using load_ok_cong[of "tick f (qld ql)" "qld ql"] by (simp add: quads_inv_def)

definition key_clear_all :: "hasher \<Rightarrow> (32 word \<Rightarrow> dict_row list) \<Rightarrow> 32 word \<Rightarrow> ox_quad list \<Rightarrow> bool" where
  "key_clear_all hasher R db items \<longleftrightarrow> (\<forall>q \<in> set items. \<forall>k \<in> triple_keys (fst q). key_clear hasher R db k)"

lemma key_clear_all_Cons [simp]:
  "key_clear_all hasher R db (q # items) \<longleftrightarrow> (\<forall>k \<in> triple_keys (fst q). key_clear hasher R db k) \<and> key_clear_all hasher R db items"
  by (auto simp: key_clear_all_def)

definition progress :: "bool \<Rightarrow> int \<Rightarrow> quad_load \<Rightarrow> quad_load \<Rightarrow> ox_quad list \<Rightarrow> int list \<Rightarrow> bool" where
  "progress strict dg ql ql' items hs \<longleftrightarrow>
     n_triples (lstats (qld ql')) = n_triples (lstats (qld ql)) + int (length items) \<and>
     map (\<lambda>q. target dg (lstore (qld ql')) (snd q)) items = map Some hs \<and>
     registry_grows (lstore (qld ql)) (lstore (qld ql')) \<and>
     (strict \<longrightarrow> (\<forall>i. graph_id i (lstore (qld ql')) = graph_id i (lstore (qld ql))))"

lemma progress_step:
  assumes "progress strict dg ql2 ql' items hs" "target dg (lstore (qld ql2)) gn = Some g"
    and "n_triples (lstats (qld ql2)) = n_triples (lstats (qld ql)) + 1" "registry_grows (lstore (qld ql)) (lstore (qld ql2))"
    and "strict \<Longrightarrow> \<forall>i. graph_id i (lstore (qld ql2)) = graph_id i (lstore (qld ql))"
  shows "progress strict dg ql ql' ((t, gn) # items) (g # hs)"
  using assms registry_grows_trans[OF assms(4)] by (auto simp: progress_def intro: target_grows)

lemma quads_loop_inv:
  "\<lbrakk>quads_inv hasher b R db dg s0 seen gs ql; key_clear_all hasher R db items;
    quads_loop hasher b u dg strict (map Some items) ql = Inr ql'\<rbrakk>
   \<Longrightarrow> \<exists>hs. quads_inv hasher b R db dg s0 (seen @ items) (gs @ hs) ql' \<and> progress strict dg ql ql' items hs"
proof (induction items arbitrary: ql seen gs)
  case Nil
  then show ?case by (auto simp: progress_def intro!: exI[of _ "[]"])
next
  case (Cons q items)
  obtain t gn where q: "q = (t, gn)" by fastforce
  obtain g ql1 where r: "route_quad u dg strict gn ql = Inr (g, ql1)" using Cons.prems(3) by (auto simp: q)
  obtain ids ld where t: "triple_to_ids (intern_term hasher b) t (qld ql1) = (ids, ld)" by fastforce
  obtain ql2 where p: "push_batch g ids (ql1\<lparr>qld := ld\<rparr>) = Inr ql2"
    and l: "quads_loop hasher b u dg strict (map Some items) (ql2\<lparr>qld := tick count_triple (qld ql2)\<rparr>) = Inr ql'"
    using Cons.prems(3) r t by (auto simp: q)
  note 1 = route_quad_ok[OF Cons.prems(1) r]
  have ok1: "load_ok hasher b R db (qld ql1)" using 1 by (simp add: quads_inv_def)
  obtain new where 2: "load_ok hasher b R db ld" "visible (lworld ld) b = visible (lworld (qld ql1)) b @ new"
    "denotes (visible (lworld ld) b) ids t"
    using per_call.triple_to_ids_reads[OF ok1 _ t] Cons.prems(2) by (auto simp: q)
  note f = triple_to_ids_frame[OF t]
  have inv1: "quads_inv hasher b R db dg s0 seen (gs @ [g]) (ql1\<lparr>qld := ld\<rparr>)"
    using quads_inv_loader[OF _ 2(1,2)] 1 f by blast
  have 3: "quads_inv hasher b R db dg s0 (seen @ [(t, gn)]) (gs @ [g]) ql2" "same_but_quads ld (qld ql2)"
    using push_batch_inv[OF inv1 p, of t gn] 2(3) 1 f by simp_all
  have inv2: "quads_inv hasher b R db dg s0 (seen @ [(t, gn)]) (gs @ [g]) (ql2\<lparr>qld := tick count_triple (qld ql2)\<rparr>)"
    using 3(1) by (simp add: quads_inv_tick)
  let ?ql2 = "ql2\<lparr>qld := tick count_triple (qld ql2)\<rparr>"
  obtain hs where h: "quads_inv hasher b R db dg s0 ((seen @ [(t, gn)]) @ items) ((gs @ [g]) @ hs) ql'"
    "progress strict dg ?ql2 ql' items hs"
    using Cons.IH[OF inv2 _ l] Cons.prems(2) by (auto simp: q)
  have g: "registry_grows (lstore (qld ql1)) (lstore (qld ?ql2))"
    "n_triples (lstats (qld ?ql2)) = n_triples (lstats (qld ql)) + 1"
    "\<And>i. graph_id i (lstore (qld ?ql2)) = graph_id i (lstore (qld ql1))"
    using 3(2) f 1 by (auto simp: same_but_quads_def count_triple_def)
  have "progress strict dg ql ql' ((t, gn) # items) (g # hs)"
    by (rule progress_step[OF h(2)])
      (use 1 g target_grows[OF g(1)] registry_grows_trans[OF _ g(1)] in simp_all)
  then show ?case using h(1) by (intro exI[of _ "g # hs"]) (simp add: q)
qed

section \<open>The deferred route\<close>

definition queued :: "dict_row list \<Rightarrow> int \<Rightarrow> store \<Rightarrow> waiting_quad \<Rightarrow> ox_quad \<Rightarrow> bool" where
  "queued d dg st w q \<longleftrightarrow> keyed d (snd w) (fst q) \<and> target dg st (snd q) = Some (fst w)"

lemma queued_all_mono:
  "registry_grows st st' \<Longrightarrow> list_all2 (queued d dg st) ws later \<Longrightarrow> list_all2 (queued (d @ new) dg st') ws later"
  by (erule list_all2_mono) (auto simp: queued_def intro: keyed_append target_grows)

lemma drain_quads_inv:
  "\<lbrakk>quads_inv hasher b R db dg s0 seen gs ql; list_all2 (queued (visible (lworld (qld ql)) b) dg (lstore (qld ql))) waiting later;
    \<forall>w \<in> set waiting. keys3 (snd w) \<subseteq> dom (hm (qld ql)); drain_quads waiting ql = Inr ql'\<rbrakk>
   \<Longrightarrow> quads_inv hasher b R db dg s0 (seen @ later) gs ql' \<and> same_but_quads (qld ql) (qld ql')"
proof (induction waiting arbitrary: ql seen later)
  case Nil
  then show ?case by simp
next
  case (Cons w waiting)
  obtain g ks where w: "w = (g, ks)" by (cases w)
  obtain t gn rest where l: "later = (t, gn) # rest" "keyed (visible (lworld (qld ql)) b) ks t" "target dg (lstore (qld ql)) gn = Some g"
    "list_all2 (queued (visible (lworld (qld ql)) b) dg (lstore (qld ql))) waiting rest"
  proof -
    obtain qh rest where l: "later = qh # rest" "queued (visible (lworld (qld ql)) b) dg (lstore (qld ql)) w qh"
      "list_all2 (queued (visible (lworld (qld ql)) b) dg (lstore (qld ql))) waiting rest"
      using Cons.prems(2) unfolding list_all2_Cons1 by blast
    obtain t gn where qh: "qh = (t, gn)" by (cases qh)
    have "keyed (visible (lworld (qld ql)) b) ks t" "target dg (lstore (qld ql)) gn = Some g"
      using l(2) by (simp_all only: queued_def w qh fst_conv snd_conv)
    with l(1,3) show thesis unfolding qh by (intro that)
  qed
  have "keys3 ks \<subseteq> dom (hm (qld ql))" using Cons.prems(3) by (simp add: w)
  from look_up3_some[OF this] obtain ids where i: "look_up3 (hm (qld ql)) ks = Some ids" by blast
  obtain ql1 where p: "push_batch g ids ql = Inr ql1" "drain_quads waiting ql1 = Inr ql'"
    using Cons.prems(4) i by (auto simp: w)
  have "backs (visible (lworld (qld ql)) b) (hm (qld ql))" using Cons.prems(1) by (simp add: quads_inv_def load_ok_backs)
  then have "denotes (visible (lworld (qld ql)) b) ids t" using look_up3_denotes l(2) i by blast
  then have 1: "quads_inv hasher b R db dg s0 (seen @ [(t, gn)]) gs ql1" "same_but_quads (qld ql) (qld ql1)"
    using push_batch_inv[OF Cons.prems(1) p(1) _ l(3)] by auto
  have q: "queued d dg (st\<lparr>quads := x\<rparr>) = queued d dg st" for d st x
    by (intro ext) (simp add: queued_def target_def split: graph_name.splits)
  have 2: "list_all2 (queued (visible (lworld (qld ql1)) b) dg (lstore (qld ql1))) waiting rest"
    "\<forall>w \<in> set waiting. keys3 (snd w) \<subseteq> dom (hm (qld ql1))"
    using l(4) 1(2) Cons.prems(3) by (auto simp: same_but_quads_def q)
  show ?case using Cons.IH[OF 1(1) 2 p(2)] same_but_quads_trans[OF 1(2)] by (simp add: l(1))
qed

text \<open>The invariant of the deferred loop.\<close>

definition deferred_inv ::
    "hasher \<Rightarrow> nat \<Rightarrow> (32 word \<Rightarrow> dict_row list) \<Rightarrow> 32 word \<Rightarrow> int \<Rightarrow> store \<Rightarrow> ox_quad list \<Rightarrow> int list
      \<Rightarrow> waiting_quad list \<Rightarrow> dict_key list \<Rightarrow> quad_load \<Rightarrow> bool" where
  "deferred_inv hasher b R db dg s0 seen gs waiting dq ql \<longleftrightarrow>
     (\<exists>fin later. seen = fin @ later \<and> quads_inv hasher b R db dg s0 fin gs ql \<and>
        list_all2 (queued (visible (lworld (qld ql)) b) dg (lstore (qld ql))) waiting later \<and>
        (\<forall>w \<in> set waiting. keys3 (snd w) \<subseteq> dom (hm (qld ql)) \<union> set dq))"

lemma deferred_flush:
  assumes "deferred_inv hasher b R db dg s0 seen gs waiting dq ql"
  shows "deferred_inv hasher b R db dg s0 seen gs waiting [] (ql\<lparr>qld := flush_defer hasher b dq (qld ql)\<rparr>)"
proof -
  obtain fin later where i: "seen = fin @ later" "quads_inv hasher b R db dg s0 fin gs ql"
    "list_all2 (queued (visible (lworld (qld ql)) b) dg (lstore (qld ql))) waiting later"
    "\<forall>w \<in> set waiting. keys3 (snd w) \<subseteq> dom (hm (qld ql)) \<union> set dq"
    using assms by (auto simp: deferred_inv_def)
  have ok: "load_ok hasher b R db (qld ql)" using i(2) by (simp add: quads_inv_def)
  let ?ld = "flush_defer hasher b dq (qld ql)"
  obtain new where f: "load_ok hasher b R db ?ld" "visible (lworld ?ld) b = visible (lworld (qld ql)) b @ new"
    "dom (hm ?ld) = dom (hm (qld ql)) \<union> set dq" "lstore ?ld = lstore (qld ql)"
    using flush_defer_ok[OF ok, of dq] by blast
  have "quads_inv hasher b R db dg s0 fin gs (ql\<lparr>qld := ?ld\<rparr>)" by (rule quads_inv_loader[OF i(2) f(1,2,4)])
  moreover have "list_all2 (queued (visible (lworld ?ld) b) dg (lstore ?ld)) waiting later"
    unfolding f(2,4) by (rule queued_all_mono[OF registry_grows_refl i(3)])
  ultimately show ?thesis using i(1,4) f(3) unfolding deferred_inv_def by auto
qed

lemma deferred_drain:
  assumes "deferred_inv hasher b R db dg s0 seen gs waiting [] ql" "drain_quads waiting ql = Inr ql'"
  shows "deferred_inv hasher b R db dg s0 seen gs [] [] ql' \<and> same_but_quads (qld ql) (qld ql')"
  using assms drain_quads_inv[of hasher b R db dg s0 _ gs ql waiting _ ql'] by (fastforce simp: deferred_inv_def)

lemma deferred_route:
  assumes "deferred_inv hasher b R db dg s0 seen gs waiting dq ql" "route_quad u dg strict gn ql = Inr (g, ql')"
  shows "deferred_inv hasher b R db dg s0 seen (gs @ [g]) waiting dq ql'"
proof -
  obtain fin later where i: "seen = fin @ later" "quads_inv hasher b R db dg s0 fin gs ql"
    "list_all2 (queued (visible (lworld (qld ql)) b) dg (lstore (qld ql))) waiting later"
    "\<forall>w \<in> set waiting. keys3 (snd w) \<subseteq> dom (hm (qld ql)) \<union> set dq"
    using assms(1) by (auto simp: deferred_inv_def)
  note r = route_quad_ok[OF i(2) assms(2)]
  have "list_all2 (queued (visible (lworld (qld ql')) b) dg (lstore (qld ql'))) waiting later"
    using queued_all_mono[OF _ i(3), of "lstore (qld ql')" "[]"] r by simp
  then show ?thesis using i(1,4) r unfolding deferred_inv_def by auto
qed

lemma deferred_defer:
  assumes "deferred_inv hasher b R db dg s0 seen gs waiting dq ql" "\<forall>k \<in> triple_keys t. key_clear hasher R db k"
    and "defer_triple hasher b t (dq, qld ql) = (ks, dq', ld)" "target dg (lstore (qld ql)) gn = Some g"
  shows "deferred_inv hasher b R db dg s0 (seen @ [(t, gn)]) gs (waiting @ [(g, ks)]) dq' (ql\<lparr>qld := ld\<rparr>)"
proof -
  obtain fin later where i: "seen = fin @ later" "quads_inv hasher b R db dg s0 fin gs ql"
    "list_all2 (queued (visible (lworld (qld ql)) b) dg (lstore (qld ql))) waiting later"
    "\<forall>w \<in> set waiting. keys3 (snd w) \<subseteq> dom (hm (qld ql)) \<union> set dq"
    using assms(1) by (auto simp: deferred_inv_def)
  have ok: "load_ok hasher b R db (qld ql)" using i(2) by (simp add: quads_inv_def)
  obtain new where d: "load_ok hasher b R db ld" "visible (lworld ld) b = visible (lworld (qld ql)) b @ new"
    "keyed (visible (lworld ld) b) ks t" "dom (hm (qld ql)) \<union> set dq \<union> keys3 ks \<subseteq> dom (hm ld) \<union> set dq'"
    "lstore ld = lstore (qld ql)"
    using defer_triple_ok[OF ok assms(2,3)] by blast
  have 1: "quads_inv hasher b R db dg s0 fin gs (ql\<lparr>qld := ld\<rparr>)" by (rule quads_inv_loader[OF i(2) d(1,2,5)])
  have "list_all2 (queued (visible (lworld ld) b) dg (lstore ld)) waiting later"
    unfolding d(2,5) by (rule queued_all_mono[OF registry_grows_refl i(3)])
  then have 2: "list_all2 (queued (visible (lworld ld) b) dg (lstore ld)) (waiting @ [(g, ks)]) (later @ [(t, gn)])"
    using d(3,5) assms(4) by (simp add: list_all2_appendI queued_def)
  have 3: "\<forall>w \<in> set (waiting @ [(g, ks)]). keys3 (snd w) \<subseteq> dom (hm ld) \<union> set dq'"
  proof
    fix w assume "w \<in> set (waiting @ [(g, ks)])"
    then have "keys3 (snd w) \<subseteq> dom (hm (qld ql)) \<union> set dq \<union> keys3 ks" using i(4) by auto
    then show "keys3 (snd w) \<subseteq> dom (hm ld) \<union> set dq'" using d(4) by (rule subset_trans)
  qed
  have q: "qld (ql\<lparr>qld := ld\<rparr>) = ld" by simp
  have 4: "seen @ [(t, gn)] = fin @ (later @ [(t, gn)])" using i(1) by simp
  show ?thesis unfolding deferred_inv_def q by (rule exI[of _ fin], rule exI[of _ "later @ [(t, gn)]"], intro conjI 1 2 3 4)
qed

lemma deferred_done: "deferred_inv hasher b R db dg s0 seen gs [] [] ql \<Longrightarrow> quads_inv hasher b R db dg s0 seen gs ql"
  by (auto simp: deferred_inv_def)

lemma combined_quads_inv:
  "\<lbrakk>deferred_inv hasher b R db dg s0 seen gs waiting dq ql; key_clear_all hasher R db items;
    quads_combined_loop hasher b u n dg strict (map Some items) waiting dq ql = Inr ql'\<rbrakk>
   \<Longrightarrow> \<exists>hs. quads_inv hasher b R db dg s0 (seen @ items) (gs @ hs) ql' \<and> progress strict dg ql ql' items hs"
proof (induction items arbitrary: waiting dq ql seen gs)
  case Nil
  note f = deferred_flush[OF Nil(1)]
  have d: "drain_quads waiting (ql\<lparr>qld := flush_defer hasher b dq (qld ql)\<rparr>) = Inr ql'" using Nil(3) by simp
  have ok: "load_ok hasher b R db (qld ql)" using Nil(1) by (auto simp: deferred_inv_def quads_inv_def)
  have "progress strict dg ql ql' [] []"
    using deferred_drain[OF f d] flush_defer_ok[OF ok, of dq] by (auto simp: same_but_quads_def progress_def)
  then show ?case using deferred_drain[OF f d] deferred_done by (intro exI[of _ "[]"]) auto
next
  case (Cons q items)
  obtain t gn where q: "q = (t, gn)" by fastforce
  obtain g ql1 where r: "route_quad u dg strict gn ql = Inr (g, ql1)" using Cons.prems(3) by (auto simp: q)
  obtain ks dq1 ld1 where d: "defer_triple hasher b t (dq, qld ql1) = (ks, dq1, ld1)" by (metis prod_cases3)
  note 1 = deferred_route[OF Cons.prems(1) r]
  obtain fin where fin: "quads_inv hasher b R db dg s0 fin gs ql" using Cons.prems(1) by (auto simp: deferred_inv_def)
  note r1 = route_quad_ok[OF fin r]
  have c: "\<forall>k \<in> triple_keys t. key_clear hasher R db k" "key_clear_all hasher R db items" using Cons.prems(2) by (simp_all add: q)
  have ok1: "load_ok hasher b R db (qld ql1)" using r1 by (simp add: quads_inv_def)
  note d1 = defer_triple_ok[OF ok1 c(1) d]
  have t1: "target dg (lstore (qld ql1)) gn = Some g" using r1 by blast
  have 2: "deferred_inv hasher b R db dg s0 (seen @ [(t, gn)]) (gs @ [g]) (waiting @ [(g, ks)]) dq1 (ql1\<lparr>qld := ld1\<rparr>)"
    by (rule deferred_defer[OF 1 c(1) d t1])
  define dq2 where "dq2 = (if n \<le> length dq1 then [] else dq1)"
  define ld2 where "ld2 = (if n \<le> length dq1 then flush_defer hasher b dq1 ld1 else ld1)"
  have 3: "deferred_inv hasher b R db dg s0 (seen @ [(t, gn)]) (gs @ [g]) (waiting @ [(g, ks)]) dq2 (ql1\<lparr>qld := ld2\<rparr>)"
    using 2 deferred_flush[OF 2] by (simp add: dq2_def ld2_def)
  have frame2: "load_ok hasher b R db ld2" "lstore ld2 = lstore (qld ql1)" "n_triples (lstats ld2) = n_triples (lstats (qld ql)) + 1"
    using d1 r1 flush_defer_ok[of hasher b R db ld1 dq1] by (auto simp: ld2_def)
  have g0: "registry_grows (lstore (qld ql)) (lstore (qld ql1))" "strict \<Longrightarrow> lstore (qld ql1) = lstore (qld ql)" using r1 by blast+
  have run: "quads_combined_loop hasher b u n dg strict (map Some (q # items)) waiting dq ql =
      (if BATCH_SIZE \<le> length (waiting @ [(g, ks)])
       then res_bind (drain_quads (waiting @ [(g, ks)]) (ql1\<lparr>qld := flush_defer hasher b dq2 ld2\<rparr>))
              (quads_combined_loop hasher b u n dg strict (map Some items) [] [])
       else quads_combined_loop hasher b u n dg strict (map Some items) (waiting @ [(g, ks)]) dq2 (ql1\<lparr>qld := ld2\<rparr>))"
    by (simp add: q r d Let_def dq2_def ld2_def)
  show ?case
  proof (cases "BATCH_SIZE \<le> length (waiting @ [(g, ks)])")
    case True
    obtain ql2 where dr: "drain_quads (waiting @ [(g, ks)]) (ql1\<lparr>qld := flush_defer hasher b dq2 ld2\<rparr>) = Inr ql2"
      and l: "quads_combined_loop hasher b u n dg strict (map Some items) [] [] ql2 = Inr ql'"
      using Cons.prems(3) unfolding run if_P[OF True] res_bind_Inr_iff by blast
    have f3: "deferred_inv hasher b R db dg s0 (seen @ [(t, gn)]) (gs @ [g]) (waiting @ [(g, ks)]) []
        (ql1\<lparr>qld := flush_defer hasher b dq2 ld2\<rparr>)" using deferred_flush[OF 3] by simp
    note e = deferred_drain[OF f3 dr]
    then have e1: "deferred_inv hasher b R db dg s0 (seen @ [(t, gn)]) (gs @ [g]) [] [] ql2"
      and s: "same_but_quads (flush_defer hasher b dq2 ld2) (qld ql2)" by simp_all
    obtain hs where h: "quads_inv hasher b R db dg s0 ((seen @ [(t, gn)]) @ items) ((gs @ [g]) @ hs) ql'" "progress strict dg ql2 ql' items hs"
      using Cons.IH[OF e1 c(2) l] by blast
    have s2: "n_triples (lstats (qld ql2)) = n_triples (lstats (qld ql)) + 1" "registry_grows (lstore (qld ql1)) (lstore (qld ql2))"
      "graph_id i (lstore (qld ql2)) = graph_id i (lstore (qld ql1))" for i
      using s flush_defer_ok[OF frame2(1), of dq2] frame2(2,3) by (auto simp: same_but_quads_def)
    have "progress strict dg ql ql' (q # items) (g # hs)"
      using progress_step[OF h(2) target_grows[OF s2(2) t1] s2(1) registry_grows_trans[OF g0(1) s2(2)]] s2(3) g0(2) by (simp add: q)
    then show ?thesis using h(1) by (intro exI[of _ "g # hs"]) (simp add: q)
  next
    case False
    have l: "quads_combined_loop hasher b u n dg strict (map Some items) (waiting @ [(g, ks)]) dq2 (ql1\<lparr>qld := ld2\<rparr>) = Inr ql'"
      using Cons.prems(3) unfolding run if_not_P[OF False] .
    obtain hs where h: "quads_inv hasher b R db dg s0 ((seen @ [(t, gn)]) @ items) ((gs @ [g]) @ hs) ql'"
      "progress strict dg (ql1\<lparr>qld := ld2\<rparr>) ql' items hs"
      using Cons.IH[OF 3 c(2) l] by blast
    have "progress strict dg ql ql' (q # items) (g # hs)"
      using progress_step[OF h(2), of gn g ql t] t1 frame2(2,3) g0 by simp_all (simp add: q)
    then show ?thesis using h(1) by (intro exI[of _ "g # hs"]) (simp add: q)
  qed
qed

section \<open>Both routes place every quad in its graph\<close>

lemma start_quads_inv:
  "dict_ok hasher b R db w \<Longrightarrow> quads_inv hasher b R db dg st [] [] (start_quads w st)"
  using start_load_ok[of hasher b R db w st]
  by (simp add: quads_inv_def start_quads_def firsts_def) (simp add: start_load_def)

lemma finish_quads_ok:
  assumes "quads_inv hasher b R db dg st items hs ql" "progress strict dg (start_quads w st) ql items hs"
    and "finish_quads ql = Inr (ld, gs)"
  shows "n_triples (lstats ld) = int (length items) \<and> gs = firsts hs \<and> registry_grows st (lstore ld) \<and>
    (strict \<longrightarrow> (\<forall>i. graph_id i (lstore ld) = graph_id i st)) \<and>
    (\<exists>rs. mset (quads (lstore ld)) = mset (quads st) + mset (map row_quad rs) \<and> map fst rs = hs \<and>
       list_all2 (placed (visible (lworld ld) b) dg (lstore ld)) rs items)"
proof -
  have f: "flush_all (batches ql) (qld ql) = Inr ld" "gs = graphs_order ql" using assms(3) by (auto simp: finish_quads_def)
  note a = flush_all_ok[OF f(1)]
  have pl: "placed d dg (s\<lparr>quads := x\<rparr>) = placed d dg s" for d s x
    by (intro ext) (simp add: placed_def target_def split: graph_name.splits)
  obtain rs where rs: "mset (quads (lstore (qld ql))) + mset (buffered (batches ql)) = mset (quads st) + mset (map row_quad rs)"
    "list_all2 (placed (visible (lworld (qld ql)) b) dg (lstore (qld ql))) rs items"
    using assms(1) by (auto simp: quads_inv_def)
  have "map Some (map fst rs) = map (\<lambda>q. target dg (lstore (qld ql)) (snd q)) items"
    using rs(2) by (induction rule: list_all2_induct) (simp_all add: placed_def)
  then have "map fst rs = hs" using assms(2) by (metis progress_def inj_Some inj_map_eq_map)
  moreover have "list_all2 (placed (visible (lworld ld) b) dg (lstore ld)) rs items"
    using rs(2) a by (auto simp: same_but_quads_def pl)
  moreover have "mset (quads (lstore ld)) = mset (quads st) + mset (map row_quad rs)" using a rs(1) by simp
  ultimately show ?thesis
    using assms(1,2) a f(2) by (auto simp: same_but_quads_def progress_def quads_inv_def start_quads_def start_load_def zero_stats_def)
qed

lemma quads_dispatch_ok:
  assumes "reachable hasher db_of w" "\<forall>q \<in> set items. \<forall>k \<in> triple_keys (fst q). no_collision hasher w (bdb (backends w b)) k"
    and "ingest_quads_dispatch hasher b u cf (map Some items) dg strict (prewarmed, w) st = Inr (d, ld, gs)"
  shows "n_triples (lstats ld) = int (length items) \<and> registry_grows st (lstore ld) \<and>
    (strict \<longrightarrow> (\<forall>i. graph_id i (lstore ld) = graph_id i st)) \<and>
    (\<exists>rs. mset (quads (lstore ld)) = mset (quads st) + mset (map row_quad rs) \<and> gs = firsts (map fst rs) \<and>
       list_all2 (placed (visible (lworld ld) b) dg (lstore ld)) rs items)"
proof -
  let ?R = "rows w" and ?db = "bdb (backends w b)"
  obtain d1 w1 where w1: "(if guc_prewarm_on_init cf \<or> ingest_dict_path cf = ShmemWarm
      then maybe_prewarm_once hasher b (prewarmed, w) else (prewarmed, w)) = (d1, w1)" by fastforce
  have ok: "dict_ok hasher b ?R ?db w1"
    using reachable_dict_ok[OF assms(1), of b] maybe_prewarm_dict_ok[of hasher b ?R ?db w prewarmed] w1
    by (auto split: if_splits)
  have k: "key_clear_all hasher ?R ?db items" using assms(2) by (simp add: key_clear_all_def key_clear_def no_collision_def)
  note s = start_quads_inv[OF ok, of dg st]
  have sd: "deferred_inv hasher b ?R ?db dg st [] [] [] [] (start_quads w1 st)" using s by (simp add: deferred_inv_def)
  define run where "run = (case ingest_dict_path cf of
      Batched \<Rightarrow> ingest_quads_combined hasher b u (map Some items) dg strict (dict_batch_size cf) w1 st
    | Combined \<Rightarrow> ingest_quads_combined hasher b u (map Some items) dg strict (dict_batch_size cf) w1 st
    | _ \<Rightarrow> ingest_quads_with_stats hasher b u (map Some items) dg strict w1 st)"
  have "res_bind run (\<lambda>(ld, gs). Inr (d1, tick (\<lambda>s. s\<lparr>st_path := path_str (ingest_dict_path cf)\<rparr>) ld, gs)) = Inr (d, ld, gs)"
    using assms(3) w1 by (simp add: ingest_quads_dispatch_def Let_def run_def)
  then obtain ld1 where r: "run = Inr (ld1, gs)" "ld = tick (\<lambda>s. s\<lparr>st_path := path_str (ingest_dict_path cf)\<rparr>) ld1"
    by (auto split: prod.splits)
  have "\<exists>ql hs. quads_inv hasher b ?R ?db dg st items hs ql \<and> progress strict dg (start_quads w1 st) ql items hs \<and> finish_quads ql = Inr (ld1, gs)"
  proof (cases "ingest_dict_path cf = Batched \<or> ingest_dict_path cf = Combined")
    case True
    then have e: "run = ingest_quads_combined hasher b u (map Some items) dg strict (dict_batch_size cf) w1 st"
      by (auto simp: run_def)
    obtain ql where q: "quads_combined_loop hasher b u (dict_batch_size cf) dg strict (map Some items) [] [] (start_quads w1 st) = Inr ql"
      "finish_quads ql = Inr (ld1, gs)" using r(1) unfolding e ingest_quads_combined_def res_bind_Inr_iff by blast
    then show ?thesis using combined_quads_inv[OF sd k q(1)] by auto
  next
    case False
    then have e: "run = ingest_quads_with_stats hasher b u (map Some items) dg strict w1 st"
      by (cases "ingest_dict_path cf") (auto simp: run_def)
    obtain ql where q: "quads_loop hasher b u dg strict (map Some items) (start_quads w1 st) = Inr ql"
      "finish_quads ql = Inr (ld1, gs)" using r(1) unfolding e ingest_quads_with_stats_def res_bind_Inr_iff by blast
    then show ?thesis using quads_loop_inv[OF s k q(1)] by auto
  qed
  then show ?thesis using finish_quads_ok unfolding r(2) by fastforce
qed

lemma graph_id_update: "(\<And>r. gid (f r) = gid r \<and> giri (f r) = giri r) \<Longrightarrow> graph_id i (update_graph g f st) = graph_id i st"
proof -
  assume f: "\<And>r. gid (f r) = gid r \<and> giri (f r) = giri r"
  have "map_option gid (find (\<lambda>r. giri r = i) (map (\<lambda>r. if gid r = g then f r else r) rs)) = map_option gid (find (\<lambda>r. giri r = i) rs)" for rs
    using f by (induction rs) auto
  then show ?thesis by (simp add: graph_id_def update_graph_def)
qed

lemma record_graph_id [simp]:
  "graph_id i (begin_source_record g st) = graph_id i st" "graph_id i (finish_source_record sha g c st) = graph_id i st"
  by (simp_all add: begin_source_record_def finish_source_record_def graph_id_update)

lemma record_target [simp]:
  "placed d dg (finish_source_record sha g c st) = placed d dg st" "registry_grows (begin_source_record g st) st' = registry_grows st st'"
  "registry_grows st (finish_source_record sha g c st') = registry_grows st st'"
  by (auto simp: placed_def target_def registry_grows_def fun_eq_iff split: graph_name.splits)

lemma finish_record_quads [simp]: "quads (finish_source_record sha g c st) = quads st"
  by (simp add: finish_source_record_def update_graph_def)

lemma parse_quads_ok:
  assumes "reachable hasher db_of w" "parser content = map Some items"
    and "\<forall>q \<in> set items. \<forall>k \<in> triple_keys (fst q). no_collision hasher w (bdb (backends w b)) k"
    and "parse_quads hasher sha b u cf parser content dg strict (prewarmed, w) st = Inr (d, ld, gs)"
  shows "n_triples (lstats ld) = int (length items) \<and> registry_grows st (lstore ld) \<and>
    (strict \<longrightarrow> (\<forall>i. graph_id i (lstore ld) = graph_id i st)) \<and>
    (\<exists>rs. mset (quads (lstore ld)) = mset (quads st) + mset (map row_quad rs) \<and> gs = firsts (map fst rs) \<and>
       list_all2 (placed (visible (lworld ld) b) dg (lstore ld)) rs items)"
proof -
  define recorded where "recorded = only_default_graph (map Some items)"
  define st1 where "st1 = (if recorded then begin_source_record dg st else st)"
  obtain ld1 where r: "ingest_quads_dispatch hasher b u cf (map Some items) dg strict (prewarmed, w) st1 = Inr (d, ld1, gs)"
    "ld = (if recorded then ld1\<lparr>lstore := finish_source_record sha dg content (lstore ld1)\<rparr> else ld1)"
    using assms(4) unfolding parse_quads_def assms(2) recorded_def st1_def by (auto simp: Let_def)
  note q = quads_dispatch_ok[OF assms(1,3) r(1)]
  have st1: "quads st1 = quads st" "\<And>i. graph_id i st1 = graph_id i st" "registry_grows st1 = registry_grows st"
    by (auto simp: st1_def fun_eq_iff)
  have ld: "lstats ld = lstats ld1" "lworld ld = lworld ld1" "quads (lstore ld) = quads (lstore ld1)"
    "\<And>i. graph_id i (lstore ld) = graph_id i (lstore ld1)" "registry_grows st (lstore ld) = registry_grows st (lstore ld1)"
    "\<And>x. placed x dg (lstore ld) = placed x dg (lstore ld1)"
    by (simp_all add: r(2))
  show ?thesis using q unfolding ld st1 .
qed

lemma row_quad_simps [simp]: "qg (row_quad row) = fst row" "\<not> qinf (row_quad row)"
  by (simp_all add: row_quad_def asserted_quad_def split_beta)

lemma rows_read:
  assumes "list_all2 (placed d dg st) rs items"
  shows "map (\<lambda>q. target dg st (snd q)) items = map (\<lambda>r. Some (qg (row_quad r))) rs \<and>
    map (\<lambda>r. read_quad d (row_quad r)) rs = map (\<lambda>q. Some (as_triple (fst q))) items"
  using assms
proof (induction rule: list_all2_induct)
  case (Cons row rs q items)
  then have "read_quad d (row_quad row) = Some (as_triple (fst q))" unfolding placed_def row_quad_def using denotes_read by blast
  then show ?case using Cons by (simp add: placed_def)
qed simp

text \<open>C16: A TriG or N-Quads load that succeeds adds exactly one asserted row per parsed quad, reading back
  as its triple, in the graph its name is registered under when the load returns (the parameter
  graph for the default graph); it reports the destinations in the order the document first names
  them; it never rebinds a graph that was registered; and under \<open>strict\<close> it registers none.
\<close>

theorem quads_routed:
  assumes "reachable hasher db_of w" "parser content = map Some items"
    and "\<forall>q \<in> set items. \<forall>k \<in> triple_keys (fst q). no_collision hasher w (bdb (backends w b)) k"
    and "parse_quads hasher sha b u cf parser content dg strict (prewarmed, w) st = Inr (d, ld, gs)"
  shows "\<exists>new. mset (quads (lstore ld)) = mset (quads st) + mset new \<and> n_triples (lstats ld) = int (length items) \<and>
    map (read_quad (visible (lworld ld) b)) new = map (\<lambda>q. Some (as_triple (fst q))) items \<and>
    map (\<lambda>r. Some (qg r)) new = map (\<lambda>q. target dg (lstore ld) (snd q)) items \<and> (\<forall>r \<in> set new. \<not> qinf r) \<and>
    gs = firsts (map qg new) \<and> registry_grows st (lstore ld) \<and> (strict \<longrightarrow> (\<forall>i. graph_id i (lstore ld) = graph_id i st))"
proof -
  note p = parse_quads_ok[OF assms]
  then obtain rs where rs: "mset (quads (lstore ld)) = mset (quads st) + mset (map row_quad rs)" "gs = firsts (map fst rs)"
    "list_all2 (placed (visible (lworld ld) b) dg (lstore ld)) rs items" by blast
  have "\<forall>r \<in> set (map row_quad rs). \<not> qinf r" by auto
  with p rs rows_read[OF rs(3)] show ?thesis
    by (intro exI[of _ "map row_quad rs"]) (simp add: comp_def)
qed

text \<open>Under \<open>strict\<close> a document that names an unregistered graph anywhere is refused as a whole: the
  call returns no state, so no quad, no term and no graph of it survives.
\<close>

theorem strict_refuses_unknown:
  assumes "reachable hasher db_of w" "parser content = map Some items"
    and "\<forall>q \<in> set items. \<forall>k \<in> triple_keys (fst q). no_collision hasher w (bdb (backends w b)) k"
    and "(t, Named_Graph i) \<in> set items" "graph_id i st = None"
  shows "isl (parse_quads hasher sha b u cf parser content dg True (prewarmed, w) st)"
proof (rule ccontr)
  assume "\<not> isl (parse_quads hasher sha b u cf parser content dg True (prewarmed, w) st)"
  then obtain d ld gs where r: "parse_quads hasher sha b u cf parser content dg True (prewarmed, w) st = Inr (d, ld, gs)"
    by (cases "parse_quads hasher sha b u cf parser content dg True (prewarmed, w) st") auto
  from parse_quads_ok[OF assms(1-3) r] obtain rs where
    "list_all2 (placed (visible (lworld ld) b) dg (lstore ld)) rs items" "graph_id i (lstore ld) = None"
    using assms(5) by metis
  moreover obtain k where "k < length items" "items ! k = (t, Named_Graph i)" using assms(4) by (metis in_set_conv_nth)
  ultimately have "placed (visible (lworld ld) b) dg (lstore ld) (rs ! k) (t, Named_Graph i)"
    using list_all2_nthD2[of _ rs items k] by metis
  with \<open>graph_id i (lstore ld) = None\<close> show False by (simp add: placed_def target_def)
qed

section \<open>A load into open graphs succeeds\<close>

definition open_targets :: "int \<Rightarrow> store \<Rightarrow> ox_quad list \<Rightarrow> bool" where
  "open_targets dg st items \<longleftrightarrow> (\<forall>q \<in> set items. \<exists>g. target dg st (snd q) = Some g \<and> g \<notin> set (trow st))"

definition open_batches :: "quad_load \<Rightarrow> bool" where
  "open_batches ql \<longleftrightarrow> (\<forall>k \<in> fst ` set (batches ql). k \<notin> set (trow (lstore (qld ql))))"

lemma open_targets_quads [simp]: "open_targets dg (st\<lparr>quads := x\<rparr>) items = open_targets dg st items"
  by (simp add: open_targets_def target_def split: graph_name.splits)

lemma open_targets_Cons [simp]:
  "open_targets dg st (q # items) \<longleftrightarrow> (\<exists>g. target dg st (snd q) = Some g \<and> g \<notin> set (trow st)) \<and> open_targets dg st items"
  by (simp add: open_targets_def)

lemma flush_batch_succeeds: "g \<notin> set (trow (lstore ld)) \<Longrightarrow> \<exists>ld'. flush_batch g buf ld = Inr ld'"
proof (cases "buf = []")
  case False
  assume "g \<notin> set (trow (lstore ld))"
  then have "\<not> list_ex (\<lambda>q. qg q \<in> set (trow (lstore ld))) (map (asserted_quad g) buf)"
    by (auto simp: list_ex_iff asserted_quad_def)
  then show ?thesis by (simp add: flush_batch_def insert_quads_def)
qed (simp add: flush_batch_def)

lemma flush_all_succeeds:
  "\<forall>k \<in> fst ` set m. k \<notin> set (trow (lstore ld)) \<Longrightarrow> \<exists>ld'. flush_all m ld = Inr ld'"
proof (induction m arbitrary: ld)
  case (Cons e m)
  obtain g buf where e: "e = (g, buf)" by fastforce
  obtain ld1 where f: "flush_batch g buf ld = Inr ld1" using flush_batch_succeeds[of g ld buf] Cons.prems by (auto simp: e)
  from flush_batch_store[OF f] Cons.IH[of ld1] Cons.prems show ?case by (simp add: e f)
qed simp

lemma push_batch_succeeds:
  assumes "g \<notin> set (trow (lstore (qld ql)))" "open_batches ql"
  shows "\<exists>ql'. push_batch g ids ql = Inr ql' \<and> open_batches ql'"
proof -
  define m where "m = bt_push g ids (batches ql)"
  have o: "\<forall>k \<in> fst ` set m. k \<notin> set (trow (lstore (qld ql)))"
    using assms by (simp add: m_def bt_push_keys open_batches_def)
  have ck: "fst ` set (clear_batch g m) = fst ` set m" by (metis clear_keys list.set_map)
  show ?thesis
  proof (cases "BATCH_SIZE \<le> length (bt_get g m)")
    case True
    obtain ld where f: "flush_batch g (bt_get g m) (qld ql) = Inr ld" using flush_batch_succeeds[OF assms(1)] by blast
    have "push_batch g ids ql = Inr (ql\<lparr>qld := ld, batches := clear_batch g m\<rparr>)"
      using True f by (simp add: push_batch_def Let_def m_def)
    moreover have "open_batches (ql\<lparr>qld := ld, batches := clear_batch g m\<rparr>)"
      using o flush_batch_store[OF f] by (simp add: open_batches_def ck)
    ultimately show ?thesis by blast
  next
    case False
    then have "push_batch g ids ql = Inr (ql\<lparr>batches := m\<rparr>)" by (simp add: push_batch_def Let_def m_def)
    then show ?thesis using o by (simp add: open_batches_def)
  qed
qed

lemma route_quad_succeeds:
  assumes "quads_inv hasher b R db dg s0 seen gs ql" "target dg (lstore (qld ql)) gn = Some g"
  shows "\<exists>ql'. route_quad u dg strict gn ql = Inr (g, ql') \<and> lstore (qld ql') = lstore (qld ql) \<and> batches ql' = batches ql"
proof -
  have c: "gcache ql i = Some h \<Longrightarrow> graph_id i (lstore (qld ql)) = Some h" for i h using assms(1) by (simp add: quads_inv_def)
  show ?thesis
  proof (cases gn)
    case (Named_Graph i)
    then show ?thesis using assms(2) c[of i]
      by (cases "gcache ql i") (auto simp: route_quad_def resolve_graph_id_def target_def)
  qed (use assms(2) in \<open>simp_all add: route_quad_def resolve_graph_id_def target_def\<close>)
qed

lemma same_but_quads_open:
  "same_but_quads ld ld' \<Longrightarrow> open_targets dg (lstore ld') items = open_targets dg (lstore ld) items \<and> trow (lstore ld') = trow (lstore ld)"
  by (auto simp: same_but_quads_def)

lemma quads_loop_succeeds:
  "\<lbrakk>quads_inv hasher b R db dg s0 seen gs ql; key_clear_all hasher R db items;
    open_targets dg (lstore (qld ql)) items; open_batches ql\<rbrakk>
   \<Longrightarrow> \<exists>ql'. quads_loop hasher b u dg strict (map Some items) ql = Inr ql' \<and> open_batches ql'"
proof (induction items arbitrary: ql seen gs)
  case (Cons q items)
  obtain t gn where q: "q = (t, gn)" by fastforce
  obtain g where g: "target dg (lstore (qld ql)) gn = Some g" "g \<notin> set (trow (lstore (qld ql)))" using Cons.prems(3) by (auto simp: q)
  obtain ql1 where r: "route_quad u dg strict gn ql = Inr (g, ql1)" "lstore (qld ql1) = lstore (qld ql)" "batches ql1 = batches ql"
    using route_quad_succeeds[OF Cons.prems(1) g(1)] by blast
  obtain ids ld where t: "triple_to_ids (intern_term hasher b) t (qld ql1) = (ids, ld)" by fastforce
  note f = triple_to_ids_frame[OF t]
  note 1 = route_quad_ok[OF Cons.prems(1) r(1)]
  have ok1: "load_ok hasher b R db (qld ql1)" using 1 by (simp add: quads_inv_def)
  obtain new where 2: "load_ok hasher b R db ld" "visible (lworld ld) b = visible (lworld (qld ql1)) b @ new"
    "denotes (visible (lworld ld) b) ids t"
    using per_call.triple_to_ids_reads[OF ok1 _ t] Cons.prems(2) by (auto simp: q)
  have inv1: "quads_inv hasher b R db dg s0 seen (gs @ [g]) (ql1\<lparr>qld := ld\<rparr>)"
    using quads_inv_loader[OF _ 2(1,2)] 1 f by blast
  have o: "open_batches (ql1\<lparr>qld := ld\<rparr>)" using Cons.prems(4) r(2,3) f by (simp add: open_batches_def)
  obtain ql2 where p: "push_batch g ids (ql1\<lparr>qld := ld\<rparr>) = Inr ql2" "open_batches ql2"
    using push_batch_succeeds[OF _ o] g(2) f r(2) by fastforce
  have 3: "quads_inv hasher b R db dg s0 (seen @ [(t, gn)]) (gs @ [g]) ql2" "same_but_quads ld (qld ql2)"
    using push_batch_inv[OF inv1 p(1), of t gn] 2(3) 1 f by simp_all
  let ?ql2 = "ql2\<lparr>qld := tick count_triple (qld ql2)\<rparr>"
  have "quads_inv hasher b R db dg s0 (seen @ [(t, gn)]) (gs @ [g]) ?ql2" using 3(1) by (simp add: quads_inv_tick)
  moreover have "open_targets dg (lstore (qld ?ql2)) items"
    using same_but_quads_open[OF 3(2)] Cons.prems(3) f r(2) by simp
  moreover have "open_batches ?ql2" using p(2) by (simp add: open_batches_def)
  moreover have "key_clear_all hasher R db items" using Cons.prems(2) by simp
  ultimately show ?case using Cons.IH[of "seen @ [(t, gn)]" "gs @ [g]" ?ql2] by (simp add: q r(1) t p(1))
qed simp

lemma drain_quads_succeeds:
  "\<lbrakk>\<forall>w \<in> set waiting. keys3 (snd w) \<subseteq> dom (hm (qld ql)) \<and> fst w \<notin> set (trow (lstore (qld ql))); open_batches ql; bt_wf (batches ql)\<rbrakk>
   \<Longrightarrow> \<exists>ql'. drain_quads waiting ql = Inr ql' \<and> open_batches ql'"
proof (induction waiting arbitrary: ql)
  case (Cons w waiting)
  obtain g ks where w: "w = (g, ks)" by (cases w)
  have "keys3 ks \<subseteq> dom (hm (qld ql))" using Cons.prems(1) by (simp add: w)
  from look_up3_some[OF this] obtain ids where i: "look_up3 (hm (qld ql)) ks = Some ids" by blast
  obtain ql1 where p: "push_batch g ids ql = Inr ql1" "open_batches ql1"
    using push_batch_succeeds[OF _ Cons.prems(2), of g ids] Cons.prems(1) by (auto simp: w)
  note s = push_batch_ok[OF p(1) Cons.prems(3)]
  have "\<exists>ql'. drain_quads waiting ql1 = Inr ql' \<and> open_batches ql'"
    by (rule Cons.IH) (use s p(2) Cons.prems(1) in \<open>auto simp: same_but_quads_def\<close>)
  then show ?case by (simp add: w i p(1))
qed simp

definition open_waiting :: "quad_load \<Rightarrow> waiting_quad list \<Rightarrow> bool" where
  "open_waiting ql waiting \<longleftrightarrow> (\<forall>w \<in> set waiting. fst w \<notin> set (trow (lstore (qld ql))))"

lemma deferred_drain_succeeds:
  assumes "deferred_inv hasher b R db dg s0 seen gs waiting [] ql" "open_batches ql" "open_waiting ql waiting"
  shows "\<exists>ql'. drain_quads waiting ql = Inr ql' \<and> open_batches ql'"
  using assms by (intro drain_quads_succeeds) (auto simp: deferred_inv_def open_waiting_def quads_inv_def)

lemma combined_loop_succeeds:
  "\<lbrakk>deferred_inv hasher b R db dg s0 seen gs waiting dq ql; key_clear_all hasher R db items;
    open_targets dg (lstore (qld ql)) items; open_batches ql; open_waiting ql waiting\<rbrakk>
   \<Longrightarrow> \<exists>ql'. quads_combined_loop hasher b u n dg strict (map Some items) waiting dq ql = Inr ql' \<and> open_batches ql'"
proof (induction items arbitrary: waiting dq ql seen gs)
  case Nil
  have ok: "load_ok hasher b R db (qld ql)" using Nil(1) by (auto simp: deferred_inv_def quads_inv_def)
  have "open_batches (ql\<lparr>qld := flush_defer hasher b dq (qld ql)\<rparr>)" "open_waiting (ql\<lparr>qld := flush_defer hasher b dq (qld ql)\<rparr>) waiting"
    using Nil(4,5) flush_defer_ok[OF ok, of dq] by (simp_all add: open_batches_def open_waiting_def)
  then show ?case using deferred_drain_succeeds[OF deferred_flush[OF Nil(1)]] by simp
next
  case (Cons q items)
  obtain t gn where q: "q = (t, gn)" by fastforce
  obtain g where g: "target dg (lstore (qld ql)) gn = Some g" "g \<notin> set (trow (lstore (qld ql)))" using Cons.prems(3) by (auto simp: q)
  obtain fin where fin: "quads_inv hasher b R db dg s0 fin gs ql" using Cons.prems(1) by (auto simp: deferred_inv_def)
  obtain ql1 where r: "route_quad u dg strict gn ql = Inr (g, ql1)" "lstore (qld ql1) = lstore (qld ql)" "batches ql1 = batches ql"
    using route_quad_succeeds[OF fin g(1)] by blast
  obtain ks dq1 ld1 where d: "defer_triple hasher b t (dq, qld ql1) = (ks, dq1, ld1)" by (metis prod_cases3)
  note 1 = deferred_route[OF Cons.prems(1) r(1)]
  note r1 = route_quad_ok[OF fin r(1)]
  have c: "\<forall>k \<in> triple_keys t. key_clear hasher R db k" "key_clear_all hasher R db items" using Cons.prems(2) by (simp_all add: q)
  have ok1: "load_ok hasher b R db (qld ql1)" using r1 by (simp add: quads_inv_def)
  note d1 = defer_triple_ok[OF ok1 c(1) d]
  have t1: "target dg (lstore (qld ql1)) gn = Some g" using r1 by blast
  have 2: "deferred_inv hasher b R db dg s0 (seen @ [(t, gn)]) (gs @ [g]) (waiting @ [(g, ks)]) dq1 (ql1\<lparr>qld := ld1\<rparr>)"
    by (rule deferred_defer[OF 1 c(1) d t1])
  define dq2 where "dq2 = (if n \<le> length dq1 then [] else dq1)"
  define ld2 where "ld2 = (if n \<le> length dq1 then flush_defer hasher b dq1 ld1 else ld1)"
  have 3: "deferred_inv hasher b R db dg s0 (seen @ [(t, gn)]) (gs @ [g]) (waiting @ [(g, ks)]) dq2 (ql1\<lparr>qld := ld2\<rparr>)"
    using 2 deferred_flush[OF 2] by (simp add: dq2_def ld2_def)
  have l2: "load_ok hasher b R db ld2" "lstore ld2 = lstore (qld ql)"
    using d1 r(2) flush_defer_ok[of hasher b R db ld1 dq1] by (auto simp: ld2_def)
  have o: "open_batches (ql1\<lparr>qld := ld2\<rparr>)" "open_waiting (ql1\<lparr>qld := ld2\<rparr>) (waiting @ [(g, ks)])"
    using Cons.prems(4,5) r(3) l2 g(2) by (auto simp: open_batches_def open_waiting_def)
  have run: "quads_combined_loop hasher b u n dg strict (map Some (q # items)) waiting dq ql =
      (if BATCH_SIZE \<le> length (waiting @ [(g, ks)])
       then res_bind (drain_quads (waiting @ [(g, ks)]) (ql1\<lparr>qld := flush_defer hasher b dq2 ld2\<rparr>))
              (quads_combined_loop hasher b u n dg strict (map Some items) [] [])
       else quads_combined_loop hasher b u n dg strict (map Some items) (waiting @ [(g, ks)]) dq2 (ql1\<lparr>qld := ld2\<rparr>))"
    by (simp add: q r(1) d Let_def dq2_def ld2_def)
  have t2: "open_targets dg (lstore (qld ql)) items" using Cons.prems(3) by simp
  show ?case
  proof (cases "BATCH_SIZE \<le> length (waiting @ [(g, ks)])")
    case True
    let ?ql = "ql1\<lparr>qld := flush_defer hasher b dq2 ld2\<rparr>"
    have f3: "deferred_inv hasher b R db dg s0 (seen @ [(t, gn)]) (gs @ [g]) (waiting @ [(g, ks)]) [] ?ql"
      using deferred_flush[OF 3] by simp
    note fl = flush_defer_ok[OF l2(1), of dq2]
    have "open_batches ?ql" "open_waiting ?ql (waiting @ [(g, ks)])"
      using o fl by (simp_all add: open_batches_def open_waiting_def)
    from deferred_drain_succeeds[OF f3 this] obtain ql2 where
      dr: "drain_quads (waiting @ [(g, ks)]) ?ql = Inr ql2" "open_batches ql2" by blast
    then have e: "deferred_inv hasher b R db dg s0 (seen @ [(t, gn)]) (gs @ [g]) [] [] ql2" "same_but_quads (qld ?ql) (qld ql2)"
      using deferred_drain[OF f3 dr(1)] by simp_all
    have "open_targets dg (lstore (qld ql2)) items" using same_but_quads_open[OF e(2)] t2 fl l2(2) by simp
    then show ?thesis unfolding run if_P[OF True] dr(1) res_bind.simps using Cons.IH[OF e(1) c(2) _ dr(2)] by (simp add: open_waiting_def)
  next
    case False
    then show ?thesis unfolding run if_not_P[OF False] using Cons.IH[OF 3 c(2) _ o] t2 l2(2) by simp
  qed
qed

lemma open_load:
  assumes "reachable hasher db_of w" "parser content = map Some items"
    and "\<forall>q \<in> set items. \<forall>k \<in> triple_keys (fst q). no_collision hasher w (bdb (backends w b)) k"
    and "\<not> locked st dg" "open_targets dg st items"
  shows "\<not> isl (parse_trig parser hasher sha b u cf content dg strict (prewarmed, w) st) \<and>
    \<not> isl (parse_nquads parser hasher sha b u cf content dg strict (prewarmed, w) st)"
proof -
  let ?R = "rows w" and ?db = "bdb (backends w b)"
  obtain d1 w1 where w1: "(if guc_prewarm_on_init cf \<or> ingest_dict_path cf = ShmemWarm
      then maybe_prewarm_once hasher b (prewarmed, w) else (prewarmed, w)) = (d1, w1)" by fastforce
  have ok: "dict_ok hasher b ?R ?db w1"
    using reachable_dict_ok[OF assms(1), of b] maybe_prewarm_dict_ok[of hasher b ?R ?db w prewarmed] w1
    by (auto split: if_splits)
  have k: "key_clear_all hasher ?R ?db items" using assms(3) by (simp add: key_clear_all_def key_clear_def no_collision_def)
  define st1 where "st1 = (if only_default_graph (map Some items) then begin_source_record dg st else st)"
  have "target dg st1 gn = target dg st gn" for gn by (simp add: st1_def target_def split: graph_name.splits)
  moreover have "trow st1 = trow st" by (simp add: st1_def)
  ultimately have st1: "open_targets dg st1 items" using assms(5) by (simp add: open_targets_def)
  note s = start_quads_inv[OF ok, of dg st1]
  have sd: "deferred_inv hasher b ?R ?db dg st1 [] [] [] [] (start_quads w1 st1)" using s by (simp add: deferred_inv_def)
  have q0: "lstore (qld (start_quads w1 st1)) = st1" "open_batches (start_quads w1 st1)" "open_waiting (start_quads w1 st1) []"
    by (simp_all add: start_quads_def start_load_def open_batches_def open_waiting_def)
  have fin: "\<not> isl (finish_quads ql)" if "open_batches ql" for ql
    using that flush_all_succeeds[of "batches ql" "qld ql"] by (auto simp: finish_quads_def open_batches_def)
  have base: "\<not> isl (ingest_quads_with_stats hasher b u (map Some items) dg strict w1 st1)"
    using quads_loop_succeeds[OF s k, of u strict] fin st1 q0 by (auto simp: ingest_quads_with_stats_def)
  have comb: "\<not> isl (ingest_quads_combined hasher b u (map Some items) dg strict n w1 st1)" for n
    using combined_loop_succeeds[OF sd k, of u n strict] fin st1 q0 by (auto simp: ingest_quads_combined_def)
  have nl: "\<not> isl (res_bind m (\<lambda>x. Inr (f x)))" if "\<not> isl m" for m :: "'x res" and f :: "'x \<Rightarrow> 'y"
    using that by (cases m) simp_all
  have run: "\<not> isl (ingest_quads_dispatch hasher b u cf (map Some items) dg strict (prewarmed, w) st1)"
    unfolding ingest_quads_dispatch_def Let_def w1 prod.case split_def
    by (rule nl) (use base comb in \<open>simp split: dict_path.splits\<close>)
  have ul: "require_unlocked dg st = Inr ()" using assms(4) require_unlocked_Inr by blast
  from run have "\<not> isl (parse_quads hasher sha b u cf parser content dg strict (prewarmed, w) st)"
    unfolding parse_quads_def assms(2) ul res_bind.simps Let_def st1_def[symmetric]
    by (cases "ingest_quads_dispatch hasher b u cf (map Some items) dg strict (prewarmed, w) st1") auto
  then show ?thesis by (simp add: parse_trig_def parse_nquads_def)
qed

text \<open>C17: A load returns whenever its graphs are open: if the document parses, every graph it names is
  registered and neither the parameter graph nor any of them is locked, \<open>parse_trig\<close> and \<open>parse_nquads\<close>
  succeed on every route, strict or not.
\<close>

theorem open_load_succeeds:
  assumes "reachable hasher db_of w" "parser content = map Some items"
    and "\<forall>q \<in> set items. \<forall>k \<in> triple_keys (fst q). no_collision hasher w (bdb (backends w b)) k"
    and "\<not> locked st dg" "open_targets dg st items"
  shows "\<not> isl (parse_trig parser hasher sha b u cf content dg strict (prewarmed, w) st) \<and>
    \<not> isl (parse_nquads parser hasher sha b u cf content dg strict (prewarmed, w) st)"
  using assms by (rule open_load)

section \<open>Witnesses\<close>

text \<open>One graph is registered; the second document also names one that is not.\<close>

definition quad_doc :: "ox_quad list" where
  "quad_doc = [((NamedNode ''ex:a1'', ''ex:p'', NodeTerm (NamedNode ''ex:b1'')), Named_Graph ''urn:g''),
     ((BlankNode ''x'', ''ex:p'', NodeTerm (NamedNode ''ex:b1'')), Default_Graph)]"

definition quad_conf :: ingest_conf where
  "quad_conf = \<lparr>guc_dict_path = Combined, guc_dict_batch_size = 500, guc_prewarm_on_init = False\<rparr>"

definition quad_store :: store where
  "quad_store = snd (projr (add_graph_iri all_privs ''urn:g'' fresh_store))"

definition quad_run :: "(bool \<times> loader \<times> int list) res" where
  "quad_run = parse_quads toy_hasher id 0 all_privs quad_conf (\<lambda>_. map Some quad_doc) ''doc'' 7 True (False, toy_world) quad_store"

lemma quad_doc_clear: "\<forall>q \<in> set quad_doc. \<forall>k \<in> triple_keys (fst q). no_collision toy_hasher toy_world (bdb (backends toy_world 0)) k"
  unfolding toy_db by (auto simp: quad_doc_def triple_keys_def no_collision_def toy_world_eval(1) fingerprint_def toy_hasher_def iri_key_def)

lemma quad_store_open: "\<not> locked quad_store 7" "open_targets 7 quad_store quad_doc"
proof -
  show "\<not> locked quad_store 7" unfolding locked_def by code_simp
  have "target 7 quad_store (Named_Graph ''urn:g'') = Some 1 \<and> 1 \<notin> set (trow quad_store) \<and> 7 \<notin> set (trow quad_store)"
    by code_simp
  then show "open_targets 7 quad_store quad_doc" by (simp add: quad_doc_def target_def open_targets_def)
qed

theorem open_load_succeeds_witness:
  "\<not> isl (parse_trig (\<lambda>_. map Some quad_doc) toy_hasher id 0 all_privs quad_conf ''doc'' 7 True (False, toy_world) quad_store)"
  using open_load_succeeds[OF toy_reachable refl quad_doc_clear quad_store_open] by (rule conjunct1)

lemma quad_run_returns: "\<exists>d ld gs. quad_run = Inr (d, ld, gs)"
proof -
  have "\<not> isl quad_run"
  proof (unfold quad_run_def, rule ccontr)
    let ?run = "parse_quads toy_hasher id 0 all_privs quad_conf (\<lambda>_. map Some quad_doc) ''doc'' 7 True (False, toy_world) quad_store"
    assume "\<not> \<not> isl ?run"
    moreover have "\<not> isl (parse_trig (\<lambda>_. map Some quad_doc) toy_hasher id 0 all_privs quad_conf ''doc'' 7 True (False, toy_world) quad_store)"
      using open_load[OF toy_reachable refl quad_doc_clear quad_store_open] by (rule conjunct1)
    ultimately show False by (simp add: parse_trig_def)
  qed
  then show ?thesis by (metis sum.collapse(2) prod.exhaust)
qed

theorem quads_routed_witness:
  "\<exists>d ld gs new. quad_run = Inr (d, ld, gs) \<and> mset (quads (lstore ld)) = mset (quads quad_store) + mset new \<and>
    map (read_quad (visible (lworld ld) 0)) new =
      [Some (Iri ''ex:a1'', Iri ''ex:p'', Iri ''ex:b1''), Some (BNode ''x'', Iri ''ex:p'', Iri ''ex:b1'')] \<and>
    gs = firsts (map qg new)"
proof -
  obtain d ld gs where r: "quad_run = Inr (d, ld, gs)" using quad_run_returns by blast
  from quads_routed[OF toy_reachable refl quad_doc_clear r[unfolded quad_run_def]] obtain new where
    "mset (quads (lstore ld)) = mset (quads quad_store) + mset new"
    "map (read_quad (visible (lworld ld) 0)) new = map (\<lambda>q. Some (as_triple (fst q))) quad_doc" "gs = firsts (map qg new)"
    by blast
  moreover have "map (\<lambda>q. Some (as_triple (fst q))) quad_doc =
      [Some (Iri ''ex:a1'', Iri ''ex:p'', Iri ''ex:b1''), Some (BNode ''x'', Iri ''ex:p'', Iri ''ex:b1'')]" by (simp add: quad_doc_def)
  ultimately show ?thesis using r by metis
qed

theorem strict_refuses_unknown_witness:
  "isl (parse_quads toy_hasher id 0 all_privs quad_conf (\<lambda>_. map Some quad_doc) ''doc'' 7 True (False, toy_world) fresh_store)"
proof (rule strict_refuses_unknown[OF toy_reachable refl quad_doc_clear])
  show "((NamedNode ''ex:a1'', ''ex:p'', NodeTerm (NamedNode ''ex:b1'')), Named_Graph ''urn:g'') \<in> set quad_doc" by (simp add: quad_doc_def)
  show "graph_id ''urn:g'' fresh_store = None" by code_simp
qed

end
