(* ===== verification/Sparql_Update.thy ===== *)
theory Sparql_Update
  imports Materialize Quad_Ingest
begin

text \<open>
  SPARQL UPDATE (\<open>execute_update\<close> and what it calls in \<open>src/query/executor.rs\<close>): ground inserts and deletes,
  templates instantiated for the solutions of a WHERE clause, and the lifecycle operations. The translation
  of the WHERE clause and PostgreSQL's evaluation of it are the parameter \<open>plan\<close>: what \<open>parse_select\<close> says of
  the pattern, which variables have a column, and the rows, read once before the first write. The answer's
  timer is not modelled.
\<close>

section \<open>The algebra of updates\<close>

datatype update_graph_name = Default_Name | Name string

datatype term_pattern = Var string | Node string | Blank_Pattern string | Lit_Pattern string "string option" string
datatype ground_term_pattern = GVar string | GNode string | GLit string "string option" string
datatype pred_pattern = PVar string | PNode string
datatype graph_pattern = Default_Pattern | Graph_Pattern string | Graph_Var string

record quad_pattern =
  qp_subject :: term_pattern
  qp_predicate :: pred_pattern
  qp_object :: term_pattern
  qp_graph :: graph_pattern

record ground_quad_pattern =
  gq_subject :: ground_term_pattern
  gq_predicate :: pred_pattern
  gq_object :: ground_term_pattern
  gq_graph :: graph_pattern

datatype graph_target = Target_Graph string | Target_Default | Target_All | Target_Named

text \<open>A WHERE clause, as written or under a graph.\<close>

datatype 'p where_pattern = Plain 'p | In_Graph string "'p where_pattern"

record dataset =
  ds_default :: "string list"
  ds_named :: "string list option"

datatype 'p update_op =
    Insert_Data "(ox_triple \<times> update_graph_name) list"
  | Delete_Data "((string \<times> string \<times> ox_term) \<times> update_graph_name) list"   \<comment> \<open>the object is no blank node\<close>
  | Delete_Insert "ground_quad_pattern list" "quad_pattern list" "dataset option" "'p where_pattern"
  | Load_Op
  | Clear_Op graph_target bool
  | Create_Op string bool
  | Drop_Op graph_target bool

record where_plan =
  wp_aggregates :: bool
  wp_union :: bool
  wp_bgp_empty :: bool
  wp_anchored :: "string \<Rightarrow> bool"
  wp_rows :: "dict_row list \<Rightarrow> store \<Rightarrow> string list \<Rightarrow> int option list list"

type_synonym 'p planner = "'p where_pattern \<Rightarrow> dict_row list \<Rightarrow> store \<Rightarrow> where_plan res"

section \<open>The state of an update\<close>

record update_run =
  uw :: world
  ust :: store
  n_inserted :: int
  n_deleted :: int
  touched :: "int list"          \<comment> \<open>a set\<close>
  captured :: "string list"      \<comment> \<open>a set\<close>

definition touch_graph :: "int \<Rightarrow> int list \<Rightarrow> store \<Rightarrow> int list res" where
  "touch_graph g seen st =
     (if g \<in> set seen then Inr seen else res_bind (require_unlocked g st) (\<lambda>_. Inr (seen @ [g])))"

definition touch :: "int \<Rightarrow> update_run \<Rightarrow> update_run res" where
  "touch g r = res_bind (touch_graph g (touched r) (ust r)) (\<lambda>seen. Inr (r\<lparr>touched := seen\<rparr>))"

fun touch_list :: "int list \<Rightarrow> update_run \<Rightarrow> update_run res" where
  "touch_list [] r = Inr r"
| "touch_list (g # gs) r = res_bind (touch g r) (touch_list gs)"

section \<open>Terms\<close>

definition update_dict :: "nat \<Rightarrow> update_run \<Rightarrow> dict_row list" where
  "update_dict b r = visible (uw r) b"

definition intern_run :: "hasher \<Rightarrow> nat \<Rightarrow> dict_key \<Rightarrow> update_run \<Rightarrow> int \<times> update_run" where
  "intern_run hasher b k r = (let (i, w) = put_term_full hasher b k (uw r) in (i, r\<lparr>uw := w\<rparr>))"

definition intern_object :: "hasher \<Rightarrow> nat \<Rightarrow> ox_term \<Rightarrow> update_run \<Rightarrow> int \<times> update_run" where
  "intern_object hasher b = object_to_id (intern_run hasher b)"

definition row_with :: "(dict_key \<Rightarrow> bool) \<Rightarrow> dict_row list \<Rightarrow> int option" where
  "row_with P dict = map_option row_id (find (\<lambda>r. P (row_key r)) dict)"

definition lookup_iri_id :: "dict_row list \<Rightarrow> string \<Rightarrow> int option" where
  "lookup_iri_id dict iri = row_with (\<lambda>k. fst k = 1 \<and> fst (snd k) = iri) dict"

definition lookup_literal_id :: "dict_row list \<Rightarrow> string \<Rightarrow> string option \<Rightarrow> string \<Rightarrow> int option" where
  "lookup_literal_id dict v lang dt =
     (case lang of
        Some l \<Rightarrow> row_with (\<lambda>k. k = (3, v, None, Some l)) dict
      | None \<Rightarrow>
          (let dt_id = (case lookup_iri_id dict dt of Some i \<Rightarrow> i | None \<Rightarrow> -1)
           in row_with (\<lambda>k. k = (3, v, Some dt_id, None)) dict))"

fun lookup_ground_term_id :: "dict_row list \<Rightarrow> ox_term \<Rightarrow> int option" where
  "lookup_ground_term_id dict (NodeTerm (NamedNode n)) = lookup_iri_id dict n"
| "lookup_ground_term_id dict (NodeTerm (BlankNode l)) = None"
| "lookup_ground_term_id dict (Literal v lang dt) = lookup_literal_id dict v lang dt"

section \<open>Writing\<close>

fun resolve_or_allocate_graph :: "privs \<Rightarrow> update_graph_name \<Rightarrow> store \<Rightarrow> (int \<times> store) res" where
  "resolve_or_allocate_graph u Default_Name st = Inr (0, st)"
| "resolve_or_allocate_graph u (Name iri) st =
     (case graph_id iri st of Some g \<Rightarrow> Inr (g, st) | None \<Rightarrow> add_graph_iri u iri st)"

text \<open>The row is inserted where no row says the same, inferred or not.\<close>

definition same_spog :: "int \<times> int \<times> int \<Rightarrow> int \<Rightarrow> quad \<Rightarrow> bool" where
  "same_spog ids g q \<longleftrightarrow> qs q = fst ids \<and> qp q = fst (snd ids) \<and> qo q = snd (snd ids) \<and> qg q = g"

definition insert_quad :: "privs \<Rightarrow> int \<times> int \<times> int \<Rightarrow> int \<Rightarrow> store \<Rightarrow> store res" where
  "insert_quad u ids g st =
     res_bind (if g \<noteq> 0 then res_bind (add_graph u g st) (\<lambda>(_, st). Inr st) else Inr st) (\<lambda>st.
       if list_ex (same_spog ids g) (quads st) then Inr st else insert_quads [asserted_quad g ids] st)"

definition delete_spog :: "int \<times> int \<times> int \<Rightarrow> int \<Rightarrow> store \<Rightarrow> (int \<times> store) res" where
  "delete_spog ids g st =
     res_bind (delete_quads (same_spog ids g) st) (\<lambda>st'. Inr (int (length (filter (same_spog ids g) (quads st))), st'))"

text \<open>A written or deleted quad is counted and its graph touched, once the write is done.\<close>

definition insert_step :: "privs \<Rightarrow> int \<times> int \<times> int \<Rightarrow> int \<Rightarrow> update_run \<Rightarrow> update_run res" where
  "insert_step u ids g r =
     res_bind (insert_quad u ids g (ust r)) (\<lambda>st. touch g (r\<lparr>ust := st, n_inserted := n_inserted r + 1\<rparr>))"

definition delete_step :: "int \<times> int \<times> int \<Rightarrow> int \<Rightarrow> update_run \<Rightarrow> update_run res" where
  "delete_step ids g r =
     res_bind (delete_spog ids g (ust r)) (\<lambda>(n, st). touch g (r\<lparr>ust := st, n_deleted := n_deleted r + n\<rparr>))"

fun insert_data :: "hasher \<Rightarrow> nat \<Rightarrow> privs \<Rightarrow> (ox_triple \<times> update_graph_name) list \<Rightarrow> update_run \<Rightarrow> update_run res" where
  "insert_data hasher b u [] r = Inr r"
| "insert_data hasher b u ((t, gn) # data) r =
     res_bind (resolve_or_allocate_graph u gn (ust r)) (\<lambda>(g, st).
       let (ids, r) = triple_to_ids (intern_run hasher b) t (r\<lparr>ust := st\<rparr>)
       in res_bind (insert_step u ids g r) (insert_data hasher b u data))"

fun delete_data :: "nat \<Rightarrow> ((string \<times> string \<times> ox_term) \<times> update_graph_name) list \<Rightarrow> update_run \<Rightarrow> update_run res" where
  "delete_data b [] r = Inr r"
| "delete_data b (((s, p, ob), gn) # data) r =
     (case (case gn of Default_Name \<Rightarrow> Some 0 | Name iri \<Rightarrow> graph_id iri (ust r)) of
        None \<Rightarrow> delete_data b data r
      | Some g \<Rightarrow>
          (let d = update_dict b r in
           case (lookup_iri_id d s, lookup_iri_id d p, lookup_ground_term_id d ob) of
             (Some si, Some pi, Some oi) \<Rightarrow> res_bind (delete_step (si, pi, oi) g r) (delete_data b data)
           | _ \<Rightarrow> res_bind (touch g r) (delete_data b data)))"

section \<open>Templates\<close>

definition with_iri_from_using :: "dataset option \<Rightarrow> string option res" where
  "with_iri_from_using using_ds =
     (case using_ds of
        None \<Rightarrow> Inr None
      | Some ds \<Rightarrow>
          if length (ds_default ds) = 1 \<and> (case ds_named ds of None \<Rightarrow> True | Some v \<Rightarrow> v = [])
          then Inr (Some (hd (ds_default ds))) else Inl Feature_Not_Supported)"

definition scope_pattern_to_graph :: "'p where_pattern \<Rightarrow> string \<Rightarrow> 'p where_pattern" where
  "scope_pattern_to_graph p iri = In_Graph iri p"

definition scoped_where :: "dataset option \<Rightarrow> 'p where_pattern \<Rightarrow> 'p where_pattern res" where
  "scoped_where using_ds p =
     res_bind (with_iri_from_using using_ds) (\<lambda>iri. Inr (case iri of Some i \<Rightarrow> scope_pattern_to_graph p i | None \<Rightarrow> p))"

definition push_var :: "string \<Rightarrow> string list \<Rightarrow> string list" where
  "push_var v out = (if v \<in> set out then out else out @ [v])"

fun term_vars :: "term_pattern \<Rightarrow> string list" where
  "term_vars (Var v) = [v]" | "term_vars _ = []"

fun ground_vars :: "ground_term_pattern \<Rightarrow> string list" where
  "ground_vars (GVar v) = [v]" | "ground_vars _ = []"

fun pred_vars :: "pred_pattern \<Rightarrow> string list" where
  "pred_vars (PVar v) = [v]" | "pred_vars _ = []"

fun graph_vars :: "graph_pattern \<Rightarrow> string list" where
  "graph_vars (Graph_Var v) = [v]" | "graph_vars _ = []"

definition collect_template_vars :: "quad_pattern list \<Rightarrow> string list" where
  "collect_template_vars template =
     fold push_var (concat (map (\<lambda>q. term_vars (qp_subject q) @ pred_vars (qp_predicate q) @ term_vars (qp_object q) @
       graph_vars (qp_graph q)) template)) []"

definition collect_ground_template_vars :: "ground_quad_pattern list \<Rightarrow> string list" where
  "collect_ground_template_vars template =
     fold push_var (concat (map (\<lambda>q. ground_vars (gq_subject q) @ pred_vars (gq_predicate q) @ ground_vars (gq_object q) @
       graph_vars (gq_graph q)) template)) []"

type_synonym binding = "string \<Rightarrow> int option"

definition bound :: "binding \<Rightarrow> string \<Rightarrow> int res" where
  "bound bd v = (case bd v of Some i \<Rightarrow> Inr i | None \<Rightarrow> Inl Internal_Error)"

text \<open>One position of an INSERT template; a blank node or a literal subject is refused.\<close>

fun subject_slot :: "hasher \<Rightarrow> nat \<Rightarrow> binding \<Rightarrow> term_pattern \<Rightarrow> update_run \<Rightarrow> (int \<times> update_run) res" where
  "subject_slot hasher b bd (Var v) r = res_bind (bound bd v) (\<lambda>i. Inr (i, r))"
| "subject_slot hasher b bd (Node n) r = Inr (intern_run hasher b (iri_key n) r)"
| "subject_slot hasher b bd (Blank_Pattern l) r = Inl Internal_Error"
| "subject_slot hasher b bd (Lit_Pattern v l dt) r = Inl Invalid_Parameter_Value"

fun pred_slot :: "hasher \<Rightarrow> nat \<Rightarrow> binding \<Rightarrow> pred_pattern \<Rightarrow> update_run \<Rightarrow> (int \<times> update_run) res" where
  "pred_slot hasher b bd (PVar v) r = res_bind (bound bd v) (\<lambda>i. Inr (i, r))"
| "pred_slot hasher b bd (PNode n) r = Inr (intern_run hasher b (iri_key n) r)"

fun object_slot :: "hasher \<Rightarrow> nat \<Rightarrow> binding \<Rightarrow> term_pattern \<Rightarrow> update_run \<Rightarrow> (int \<times> update_run) res" where
  "object_slot hasher b bd (Var v) r = res_bind (bound bd v) (\<lambda>i. Inr (i, r))"
| "object_slot hasher b bd (Node n) r = Inr (intern_run hasher b (iri_key n) r)"
| "object_slot hasher b bd (Blank_Pattern l) r = Inl Internal_Error"
| "object_slot hasher b bd (Lit_Pattern v l dt) r = Inr (intern_object hasher b (Literal v l dt) r)"

fun graph_slot :: "privs \<Rightarrow> graph_pattern \<Rightarrow> update_run \<Rightarrow> (int \<times> update_run) res" where
  "graph_slot u Default_Pattern r = Inr (0, r)"
| "graph_slot u (Graph_Pattern iri) r =
     res_bind (resolve_or_allocate_graph u (Name iri) (ust r)) (\<lambda>(g, st). Inr (g, r\<lparr>ust := st\<rparr>))"
| "graph_slot u (Graph_Var v) r = Inl Internal_Error"

definition instantiate_template_quad ::
    "hasher \<Rightarrow> nat \<Rightarrow> privs \<Rightarrow> quad_pattern \<Rightarrow> binding \<Rightarrow> update_run \<Rightarrow> (((int \<times> int \<times> int) \<times> int) \<times> update_run) res" where
  "instantiate_template_quad hasher b u q bd r =
     res_bind (subject_slot hasher b bd (qp_subject q) r) (\<lambda>(s, r).
       res_bind (pred_slot hasher b bd (qp_predicate q) r) (\<lambda>(p, r).
         res_bind (object_slot hasher b bd (qp_object q) r) (\<lambda>(ob, r).
           res_bind (graph_slot u (qp_graph q) r) (\<lambda>(g, r). Inr (((s, p, ob), g), r)))))"

text \<open>One position of a DELETE template: nothing is interned, a term or graph that is not known ends it.\<close>

fun ground_subject :: "dict_row list \<Rightarrow> binding \<Rightarrow> ground_term_pattern \<Rightarrow> int option res" where
  "ground_subject d bd (GVar v) = res_bind (bound bd v) (\<lambda>i. Inr (Some i))"
| "ground_subject d bd (GNode n) = Inr (lookup_iri_id d n)"
| "ground_subject d bd (GLit v l dt) = Inl Invalid_Parameter_Value"

fun ground_pred :: "dict_row list \<Rightarrow> binding \<Rightarrow> pred_pattern \<Rightarrow> int option res" where
  "ground_pred d bd (PVar v) = res_bind (bound bd v) (\<lambda>i. Inr (Some i))"
| "ground_pred d bd (PNode n) = Inr (lookup_iri_id d n)"

fun ground_object :: "dict_row list \<Rightarrow> binding \<Rightarrow> ground_term_pattern \<Rightarrow> int option res" where
  "ground_object d bd (GVar v) = res_bind (bound bd v) (\<lambda>i. Inr (Some i))"
| "ground_object d bd (GNode n) = Inr (lookup_iri_id d n)"
| "ground_object d bd (GLit v l dt) = Inr (lookup_literal_id d v l dt)"

fun ground_graph :: "store \<Rightarrow> graph_pattern \<Rightarrow> int option res" where
  "ground_graph st Default_Pattern = Inr (Some 0)"
| "ground_graph st (Graph_Pattern iri) = Inr (graph_id iri st)"
| "ground_graph st (Graph_Var v) = Inl Internal_Error"

text \<open>\<open>?\<close> in a function that also panics.\<close>

definition or_none :: "'a option res \<Rightarrow> ('a \<Rightarrow> 'b option res) \<Rightarrow> 'b option res" where
  "or_none m f = res_bind m (\<lambda>x. case x of None \<Rightarrow> Inr None | Some y \<Rightarrow> f y)"

definition instantiate_ground_template_quad ::
    "dict_row list \<Rightarrow> store \<Rightarrow> ground_quad_pattern \<Rightarrow> binding \<Rightarrow> ((int \<times> int \<times> int) \<times> int) option res" where
  "instantiate_ground_template_quad d st q bd =
     or_none (ground_subject d bd (gq_subject q)) (\<lambda>s.
       or_none (ground_pred d bd (gq_predicate q)) (\<lambda>p.
         or_none (ground_object d bd (gq_object q)) (\<lambda>ob.
           or_none (ground_graph st (gq_graph q)) (\<lambda>g. Inr (Some ((s, p, ob), g))))))"

fun delete_templates :: "nat \<Rightarrow> ground_quad_pattern list \<Rightarrow> binding \<Rightarrow> update_run \<Rightarrow> update_run res" where
  "delete_templates b [] bd r = Inr r"
| "delete_templates b (q # qs') bd r =
     res_bind (instantiate_ground_template_quad (update_dict b r) (ust r) q bd) (\<lambda>x.
       case x of None \<Rightarrow> delete_templates b qs' bd r
       | Some (ids, g) \<Rightarrow> res_bind (delete_step ids g r) (delete_templates b qs' bd))"

fun insert_templates :: "hasher \<Rightarrow> nat \<Rightarrow> privs \<Rightarrow> quad_pattern list \<Rightarrow> binding \<Rightarrow> update_run \<Rightarrow> update_run res" where
  "insert_templates hasher b u [] bd r = Inr r"
| "insert_templates hasher b u (q # qs') bd r =
     res_bind (instantiate_template_quad hasher b u q bd r) (\<lambda>((ids, g), r).
       res_bind (insert_step u ids g r) (insert_templates hasher b u qs' bd))"

text \<open>Row by row: a row in which a template variable has no value is skipped, the DELETE half precedes the INSERT half.\<close>

fun apply_rows ::
    "hasher \<Rightarrow> nat \<Rightarrow> privs \<Rightarrow> ground_quad_pattern list \<Rightarrow> quad_pattern list \<Rightarrow> string list \<Rightarrow> int option list list
      \<Rightarrow> update_run \<Rightarrow> update_run res" where
  "apply_rows hasher b u del ins vars [] r = Inr r"
| "apply_rows hasher b u del ins vars (row # rest) r =
     (if None \<in> set row then apply_rows hasher b u del ins vars rest r
      else
        (let bd = map_of (zip vars (map the row)) in
         res_bind (delete_templates b del bd r) (\<lambda>r.
           res_bind (insert_templates hasher b u ins bd r) (apply_rows hasher b u del ins vars rest))))"

definition execute_delete_insert_where ::
    "'p planner \<Rightarrow> hasher \<Rightarrow> nat \<Rightarrow> privs \<Rightarrow> ground_quad_pattern list \<Rightarrow> quad_pattern list \<Rightarrow> 'p where_pattern
      \<Rightarrow> update_run \<Rightarrow> update_run res" where
  "execute_delete_insert_where plan hasher b u del ins pattern r =
     (let vars = fold push_var (collect_template_vars ins) (collect_ground_template_vars del) in
      res_bind (plan pattern (update_dict b r) (ust r)) (\<lambda>ps.
        if wp_aggregates ps then Inl Internal_Error
        else if wp_union ps then Inl Feature_Not_Supported
        else if wp_bgp_empty ps then Inl Feature_Not_Supported
        else if \<not> list_all (wp_anchored ps) vars then Inl Internal_Error
        else res_bind (apply_rows hasher b u del ins vars (wp_rows ps (update_dict b r) (ust r) vars) (r\<lparr>touched := []\<rparr>))
          (\<lambda>r'. touch_list (touched r') (r'\<lparr>touched := touched r\<rparr>))))"

text \<open>The forms with one template run the same loop without the other half.\<close>

definition execute_insert_where ::
    "'p planner \<Rightarrow> hasher \<Rightarrow> nat \<Rightarrow> privs \<Rightarrow> quad_pattern list \<Rightarrow> 'p where_pattern \<Rightarrow> update_run \<Rightarrow> update_run res" where
  "execute_insert_where plan hasher b u ins = execute_delete_insert_where plan hasher b u [] ins"

definition execute_delete_where ::
    "'p planner \<Rightarrow> hasher \<Rightarrow> nat \<Rightarrow> privs \<Rightarrow> ground_quad_pattern list \<Rightarrow> 'p where_pattern \<Rightarrow> update_run \<Rightarrow> update_run res" where
  "execute_delete_where plan hasher b u del = execute_delete_insert_where plan hasher b u del []"

section \<open>Lifecycle\<close>

definition enumerate_bound_graph_ids :: "bool \<Rightarrow> store \<Rightarrow> int list" where
  "enumerate_bound_graph_ids include_default st =
     filter (\<lambda>g. include_default \<or> g \<noteq> 0) (map gid (sort_key gid (graphs st)))"

definition lookup_graph_iri :: "int \<Rightarrow> store \<Rightarrow> string option" where
  "lookup_graph_iri g st = (if g = 0 then Some ''DEFAULT'' else graph_iri g st)"

definition clear_default_graph_rows :: "update_run \<Rightarrow> update_run res" where
  "clear_default_graph_rows r =
     res_bind (delete_quads (\<lambda>q. qg q = 0) (ust r)) (\<lambda>st.
       touch 0 (r\<lparr>ust := st, n_deleted := n_deleted r + int (length (filter (\<lambda>q. qg q = 0) (quads (ust r))))\<rparr>))"

definition clear_graph_by_id :: "privs \<Rightarrow> int \<Rightarrow> update_run \<Rightarrow> update_run res" where
  "clear_graph_by_id u g r =
     res_bind (clear_graph u g (ust r)) (\<lambda>(n, st). touch g (r\<lparr>ust := st, n_deleted := n_deleted r + int n\<rparr>))"

definition drop_graph_by_id :: "privs \<Rightarrow> int \<Rightarrow> update_run \<Rightarrow> update_run res" where
  "drop_graph_by_id u g r =
     (let r = (case lookup_graph_iri g (ust r) of Some iri \<Rightarrow> r\<lparr>captured := push_var iri (captured r)\<rparr> | None \<Rightarrow> r) in
      res_bind (drop_graph u g True (ust r)) (\<lambda>(n, st). touch g (r\<lparr>ust := st, n_deleted := n_deleted r + int n\<rparr>)))"

fun each_graph :: "(int \<Rightarrow> update_run \<Rightarrow> update_run res) \<Rightarrow> int list \<Rightarrow> update_run \<Rightarrow> update_run res" where
  "each_graph f [] r = Inr r"
| "each_graph f (g # gs) r = res_bind (f g r) (each_graph f gs)"

definition on_target :: "(int \<Rightarrow> update_run \<Rightarrow> update_run res) \<Rightarrow> graph_target \<Rightarrow> bool \<Rightarrow> update_run \<Rightarrow> update_run res" where
  "on_target f tgt silent r =
     (case tgt of
        Target_Graph iri \<Rightarrow>
          (case graph_id iri (ust r) of Some g \<Rightarrow> f g r | None \<Rightarrow> if silent then Inr r else Inl Internal_Error)
      | Target_Default \<Rightarrow> clear_default_graph_rows r
      | Target_All \<Rightarrow> res_bind (clear_default_graph_rows r) (\<lambda>r. each_graph f (enumerate_bound_graph_ids False (ust r)) r)
      | Target_Named \<Rightarrow> each_graph f (enumerate_bound_graph_ids False (ust r)) r)"

definition execute_clear :: "privs \<Rightarrow> graph_target \<Rightarrow> bool \<Rightarrow> update_run \<Rightarrow> update_run res" where
  "execute_clear u = on_target (clear_graph_by_id u)"

definition execute_drop :: "privs \<Rightarrow> graph_target \<Rightarrow> bool \<Rightarrow> update_run \<Rightarrow> update_run res" where
  "execute_drop u = on_target (drop_graph_by_id u)"

definition execute_create :: "privs \<Rightarrow> string \<Rightarrow> bool \<Rightarrow> update_run \<Rightarrow> update_run res" where
  "execute_create u iri silent r =
     (case graph_id iri (ust r) of
        Some g \<Rightarrow> if silent then touch g r else Inl Internal_Error
      | None \<Rightarrow> res_bind (add_graph_iri u iri (ust r)) (\<lambda>(g, st). touch g (r\<lparr>ust := st\<rparr>)))"

section \<open>The update\<close>

fun update_op_name :: "'p update_op \<Rightarrow> string" where
  "update_op_name (Insert_Data data) = ''INSERT_DATA''"
| "update_op_name (Delete_Data data) = ''DELETE_DATA''"
| "update_op_name (Delete_Insert del ins using_ds p) =
     (if del = [] \<and> ins \<noteq> [] then ''INSERT_WHERE'' else if del \<noteq> [] \<and> ins = [] then ''DELETE_WHERE'' else ''DELETE_INSERT_WHERE'')"
| "update_op_name Load_Op = ''LOAD''"
| "update_op_name (Clear_Op tgt silent) = ''CLEAR''"
| "update_op_name (Create_Op iri silent) = ''CREATE''"
| "update_op_name (Drop_Op tgt silent) = ''DROP''"

fun execute_op :: "'p planner \<Rightarrow> hasher \<Rightarrow> nat \<Rightarrow> privs \<Rightarrow> 'p update_op \<Rightarrow> update_run \<Rightarrow> update_run res" where
  "execute_op plan hasher b u (Insert_Data data) r = insert_data hasher b u data r"
| "execute_op plan hasher b u (Delete_Data data) r = delete_data b data r"
| "execute_op plan hasher b u (Delete_Insert del ins using_ds p) r =
     (if del = [] \<and> ins = [] then Inr r
      else res_bind (scoped_where using_ds p) (\<lambda>p.
        if ins = [] then execute_delete_where plan hasher b u del p r
        else if del = [] then execute_insert_where plan hasher b u ins p r
        else execute_delete_insert_where plan hasher b u del ins p r))"
| "execute_op plan hasher b u Load_Op r = Inl Feature_Not_Supported"
| "execute_op plan hasher b u (Clear_Op tgt silent) r = execute_clear u tgt silent r"
| "execute_op plan hasher b u (Create_Op iri silent) r = execute_create u iri silent r"
| "execute_op plan hasher b u (Drop_Op tgt silent) r = execute_drop u tgt silent r"

fun execute_ops :: "'p planner \<Rightarrow> hasher \<Rightarrow> nat \<Rightarrow> privs \<Rightarrow> 'p update_op list \<Rightarrow> update_run \<Rightarrow> update_run res" where
  "execute_ops plan hasher b u [] r = Inr r"
| "execute_ops plan hasher b u (op # ops) r = res_bind (execute_op plan hasher b u op r) (execute_ops plan hasher b u ops)"

definition update_form :: "'p update_op list \<Rightarrow> string" where
  "update_form ops =
     (case ops of [] \<Rightarrow> ''EMPTY''
      | op # rest \<Rightarrow> fold (\<lambda>op form. if form \<noteq> update_op_name op then ''MIXED'' else form) rest (update_op_name op))"

record update_summary =
  us_form :: string
  us_inserted :: int
  us_deleted :: int
  us_graphs :: "string list"

definition execute_update ::
    "'p planner \<Rightarrow> hasher \<Rightarrow> nat \<Rightarrow> privs \<Rightarrow> 'p update_op list \<Rightarrow> world \<times> store \<Rightarrow> (update_summary \<times> world \<times> store) res" where
  "execute_update plan hasher b u ops ws =
     res_bind (execute_ops plan hasher b u ops
        \<lparr>uw = fst ws, ust = snd ws, n_inserted = 0, n_deleted = 0, touched = [], captured = []\<rparr>) (\<lambda>r.
       Inr (\<lparr>us_form = update_form ops, us_inserted = n_inserted r, us_deleted = n_deleted r,
              us_graphs = sort (remdups (flatten_opts (map (\<lambda>g. lookup_graph_iri g (ust r)) (touched r)) @ captured r))\<rparr>,
            uw r, ust r))"

section \<open>Locks\<close>

text \<open>What every operation does to the store: the frame of the registry's calls, and no lock appears.\<close>

definition quiet :: "store \<Rightarrow> store \<Rightarrow> bool" where
  "quiet st st' \<longleftrightarrow> frame st st' \<and> (\<forall>g. locked st' g \<longrightarrow> locked st g)"

lemma quiet_refl [simp, intro]: "quiet st st"
  by (simp add: quiet_def)

lemma quiet_trans: "quiet a b \<Longrightarrow> quiet b c \<Longrightarrow> quiet a c"
  unfolding quiet_def using frame_trans by blast

lemma locked_insert_graph: "insert_graph g iri st = Inr st' \<Longrightarrow> locked st' h \<Longrightarrow> locked st h"
  by (auto simp: insert_graph_def locked_def find_graph_def new_row_def find_append split: if_splits option.splits)

lemma locked_same_graphs: "graphs st' = graphs st \<Longrightarrow> locked st' h = locked st h"
  by (simp add: locked_def find_graph_def)

lemma locked_add_graph: "add_graph u g st = Inr (x, st') \<Longrightarrow> locked st' h \<Longrightarrow> locked st h"
proof -
  assume a: "add_graph u g st = Inr (x, st')" "locked st' h"
  show "locked st h"
  proof (cases "dedicated_partition g st")
    case True
    then show ?thesis using a by (auto simp: add_graph_def split: if_splits)
  next
    case False
    then obtain st1 where c: "create_partition u g st = Inr st1" and i: "st' = st1 \<or> insert_graph g (synthetic_iri g) st1 = Inr st'"
      using a(1) by (auto simp: add_graph_def split: if_splits)
    have "graphs st1 = graphs st" using create_partition_spec[OF c False] by blast
    then have "locked st1 h = locked st h" by (rule locked_same_graphs)
    moreover have "locked st1 h" using i a(2) locked_insert_graph by blast
    ultimately show ?thesis by simp
  qed
qed

lemma add_graph_quiet: "add_graph u g st = Inr (x, st') \<Longrightarrow> quiet st st'"
  using add_graph_frame locked_add_graph by (auto simp: quiet_def)

lemma locked_add_graph_iri: "add_graph_iri u iri st = Inr (g, st') \<Longrightarrow> locked st' h \<Longrightarrow> locked st h"
proof -
  assume a: "add_graph_iri u iri st = Inr (g, st')" "locked st' h"
  show "locked st h"
  proof (cases "graph_id iri st")
    case None
    then obtain sq st2 where "insert_graph g iri (st\<lparr>gseq := sq\<rparr>) = Inr st2" "\<exists>x. add_graph u g st2 = Inr (x, st')"
      using a(1) by (auto simp: add_graph_iri_def Let_def split: if_splits option.splits)
    then have "locked (st\<lparr>gseq := sq\<rparr>) h" using locked_add_graph locked_insert_graph a(2) by metis
    then show ?thesis by (simp add: locked_def find_graph_def)
  next
    case (Some i)
    then show ?thesis using a by (auto simp: add_graph_iri_def split: if_splits)
  qed
qed

lemma add_graph_iri_quiet: "add_graph_iri u iri st = Inr (g, st') \<Longrightarrow> quiet st st'"
  using add_graph_iri_frame locked_add_graph_iri by (auto simp: quiet_def)

lemma clear_graph_quiet: "clear_graph u g st = Inr (n, st') \<Longrightarrow> quiet st st'"
proof -
  assume c: "clear_graph u g st = Inr (n, st')"
  then have "graphs st' = graphs st" by (auto simp: clear_graph_def truncate_partition_def split: if_splits)
  then have "locked st' h = locked st h" for h by (rule locked_same_graphs)
  then show ?thesis using clear_graph_frame[OF c] by (simp add: quiet_def)
qed

lemma drop_graph_quiet: "drop_graph u g c st = Inr (n, st') \<Longrightarrow> quiet st st'"
proof -
  assume c: "drop_graph u g c st = Inr (n, st')"
  have "locked (delete_graph g st) h \<Longrightarrow> locked st h" for st h
    using find_filter_gid[of h g "graphs st"] by (simp add: locked_def find_graph_def delete_graph_def split: if_splits)
  moreover have "locked (drop_partition g st) h = locked st h" for h by (rule locked_same_graphs) (simp add: drop_partition_def)
  ultimately have "locked st' h \<Longrightarrow> locked st h" for h using c by (auto simp: drop_graph_def split: if_splits)
  then show ?thesis using drop_graph_frame[OF c] by (simp add: quiet_def)
qed

lemma resolve_quiet: "resolve_or_allocate_graph u gn st = Inr (g, st') \<Longrightarrow> quiet st st'"
  by (cases gn) (auto simp: add_graph_iri_quiet split: option.splits)

text \<open>Touched graphs are unlocked; a step that keeps that does nothing to a locked graph.\<close>

definition touched_free :: "update_run \<Rightarrow> bool" where
  "touched_free r \<longleftrightarrow> (\<forall>g \<in> set (touched r). \<not> locked (ust r) g)"

definition step_ok :: "update_run \<Rightarrow> update_run \<Rightarrow> bool" where
  "step_ok r r' \<longleftrightarrow> (touched_free r \<longrightarrow> touched_free r' \<and> quiet (ust r) (ust r'))"

lemma step_ok_refl [simp, intro]: "step_ok r r"
  by (simp add: step_ok_def)

lemma step_ok_trans: "step_ok a b \<Longrightarrow> step_ok b c \<Longrightarrow> step_ok a c"
  unfolding step_ok_def using quiet_trans by blast

lemma touch_unlocked:
  assumes "touch g r = Inr r'" "touched_free r"
  shows "\<not> locked (ust r) g" "touched_free r'" "ust r' = ust r"
  using assms by (auto simp: touch_def touch_graph_def touched_free_def split: if_splits)

lemma touch_ok: "touch g r = Inr r' \<Longrightarrow> step_ok r r'"
  by (auto simp: step_ok_def dest: touch_unlocked)

lemma touched_free_quiet:
  "quiet (ust r) st \<Longrightarrow> touched_free r \<Longrightarrow> touched r' = touched r \<Longrightarrow> ust r' = st \<Longrightarrow> touched_free r'"
  by (auto simp: touched_free_def quiet_def)

lemma quiet_then_touch:
  assumes "quiet (ust r) st" "touch g r1 = Inr r'" "touched r1 = touched r" "ust r1 = st"
  shows "step_ok r r'"
  unfolding step_ok_def
proof (intro impI conjI)
  assume f: "touched_free r"
  have f1: "touched_free r1" by (rule touched_free_quiet[OF assms(1) f assms(3,4)])
  show "touched_free r'" "quiet (ust r) (ust r')" using touch_unlocked[OF assms(2) f1] assms(1,4) by simp_all
qed

text \<open>A write of one graph, checked afterwards.\<close>

lemma write_then_touch:
  assumes "touched_free r" "quiet (ust r) st1" "graphs st2 = graphs st1" "\<not> locked st1 g \<Longrightarrow> frame st1 st2"
    and "touch g r2 = Inr r'" "touched r2 = touched r" "ust r2 = st2"
  shows "touched_free r' \<and> quiet (ust r) (ust r')"
proof -
  have l: "locked st2 h = locked st1 h" for h by (rule locked_same_graphs[OF assms(3)])
  have f2: "touched_free r2" using assms(1,2,6,7) l by (auto simp: touched_free_def quiet_def)
  note t = touch_unlocked[OF assms(5) f2]
  have "\<not> locked st1 g" using t(1) assms(7) l by simp
  then have "quiet st1 st2" using assms(4) l by (simp add: quiet_def)
  then show ?thesis using quiet_trans[OF assms(2)] t(2,3) assms(7) by simp
qed

lemma insert_step_ok: "insert_step u ids g r = Inr r' \<Longrightarrow> step_ok r r'"
  unfolding step_ok_def
proof (intro impI)
  assume i: "insert_step u ids g r = Inr r'" and f: "touched_free r"
  obtain st2 where st2: "insert_quad u ids g (ust r) = Inr st2" "touch g (r\<lparr>ust := st2, n_inserted := n_inserted r + 1\<rparr>) = Inr r'"
    using i by (auto simp: insert_step_def)
  obtain st1 where st1: "quiet (ust r) st1" "st2 = st1 \<or> insert_quads [asserted_quad g ids] st1 = Inr st2"
    using st2(1) by (auto simp: insert_quad_def split: if_splits dest: add_graph_quiet)
  have g: "graphs st2 = graphs st1" using st1(2) by (auto simp: insert_quads_def split: if_splits)
  have fr: "frame st1 st2" if "\<not> locked st1 g"
    using st1(2) insert_quads_frame[of "[asserted_quad g ids]" st1 st2] that by (auto simp: asserted_quad_def split: prod.splits)
  show "touched_free r' \<and> quiet (ust r) (ust r')" by (rule write_then_touch[OF f st1(1) g fr st2(2)]) simp_all
qed

lemma delete_quads_frame:
  assumes "delete_quads P st = Inr st'" "\<And>q. P q \<Longrightarrow> \<not> locked st (qg q)"
  shows "frame st st'"
proof (rule frame_quads)
  fix g assume l: "locked st g"
  have "quads st' = filter (\<lambda>q. \<not> P q) (quads st)" using assms(1) by (auto simp: delete_quads_def split: if_splits)
  then have "graph_quads st' g = filter (\<lambda>q. qg q = g \<and> \<not> P q) (quads st)" by (simp add: graph_quads_def conj_commute)
  also have "\<dots> = filter (\<lambda>q. qg q = g) (quads st)" using l assms(2) by (intro filter_cong) auto
  finally show "graph_quads st' g = graph_quads st g" by (simp add: graph_quads_def)
qed (use assms(1) in \<open>auto simp: delete_quads_def split: if_splits\<close>)

lemma delete_graphs: "delete_quads P st = Inr st' \<Longrightarrow> graphs st' = graphs st"
  by (auto simp: delete_quads_def split: if_splits)

lemma delete_step_ok: "delete_step ids g r = Inr r' \<Longrightarrow> step_ok r r'"
  unfolding step_ok_def
proof (intro impI)
  assume i: "delete_step ids g r = Inr r'" and f: "touched_free r"
  obtain n st2 where st2: "delete_quads (same_spog ids g) (ust r) = Inr st2"
      "touch g (r\<lparr>ust := st2, n_deleted := n_deleted r + n\<rparr>) = Inr r'"
    using i by (auto simp: delete_step_def delete_spog_def)
  have fr: "frame (ust r) st2" if "\<not> locked (ust r) g"
    using delete_quads_frame[OF st2(1)] that by (auto simp: same_spog_def)
  show "touched_free r' \<and> quiet (ust r) (ust r')"
    by (rule write_then_touch[OF f quiet_refl delete_graphs[OF st2(1)] fr st2(2)]) simp_all
qed

lemma step_ok_bind:
  assumes "res_bind m f = Inr r'" "\<And>x. m = Inr x \<Longrightarrow> step_ok r x" "\<And>x. f x = Inr r' \<Longrightarrow> step_ok x r'"
  shows "step_ok r r'"
  using assms step_ok_trans by (cases m) auto

lemma delete_data_ok: "delete_data b data r = Inr r' \<Longrightarrow> step_ok r r'"
proof (induction data arbitrary: r)
  case (Cons x data)
  obtain s p ob gn where x: "x = ((s, p, ob), gn)" by (cases x) auto
  define d where "d = update_dict b r"
  define tgt where "tgt = (case gn of Default_Name \<Rightarrow> Some 0 | Name iri \<Rightarrow> graph_id iri (ust r))"
  show ?case
  proof (cases tgt)
    case None
    then show ?thesis using Cons by (simp add: tgt_def x)
  next
    case (Some g)
    have e: "delete_data b (x # data) r =
       (case (lookup_iri_id d s, lookup_iri_id d p, lookup_ground_term_id d ob) of
             (Some si, Some pi, Some oi) \<Rightarrow> res_bind (delete_step (si, pi, oi) g r) (delete_data b data)
           | _ \<Rightarrow> res_bind (touch g r) (delete_data b data))"
      using Some by (simp add: x d_def tgt_def Let_def split: option.splits)
    have "\<exists>m. res_bind m (delete_data b data) = Inr r' \<and> (m = touch g r \<or> (\<exists>ids. m = delete_step ids g r))"
      using Cons.prems unfolding e by (auto simp del: res_bind_Inr_iff split: option.splits)
    then obtain m where m: "res_bind m (delete_data b data) = Inr r'" "m = touch g r \<or> (\<exists>ids. m = delete_step ids g r)" by blast
    show ?thesis by (rule step_ok_bind[OF m(1)]) (use m(2) Cons.IH delete_step_ok touch_ok in metis)+
  qed
qed simp

text \<open>Interning changes the dictionary only.\<close>

definition same_store :: "update_run \<Rightarrow> update_run \<Rightarrow> bool" where
  "same_store r r' \<longleftrightarrow> (\<exists>w. r' = r\<lparr>uw := w\<rparr>)"

lemma same_store_refl [simp]: "same_store r r"
  by (auto simp: same_store_def intro: exI[of _ "uw r"])

lemma same_store_trans: "same_store a b \<Longrightarrow> same_store b c \<Longrightarrow> same_store a c"
  by (auto simp: same_store_def)

lemma same_storeD: "same_store r r' \<Longrightarrow> ust r' = ust r \<and> touched r' = touched r"
  by (auto simp: same_store_def)

lemma same_store_ok: "same_store r r' \<Longrightarrow> step_ok r r'"
  by (auto simp: same_store_def step_ok_def touched_free_def)

lemma intern_run_store: "intern_run hasher b k r = (i, r') \<Longrightarrow> same_store r r'"
  by (auto simp: intern_run_def same_store_def split: prod.splits)

lemma object_to_id_store: "object_to_id (intern_run hasher b) ob r = (i, r') \<Longrightarrow> same_store r r'"
  by (induction "intern_run hasher b" ob r rule: object_to_id.induct)
    (auto split: prod.splits intro: same_store_trans dest: intern_run_store)

lemma triple_to_ids_store: "triple_to_ids (intern_run hasher b) t r = (ids, r') \<Longrightarrow> same_store r r'"
  by (cases t) (auto simp: triple_to_ids_def subject_to_id_def split: prod.splits
      dest!: intern_run_store object_to_id_store intro: same_store_trans)

lemma resolved_ok: "resolve_or_allocate_graph u gn (ust r) = Inr (g, st) \<Longrightarrow> step_ok r (r\<lparr>ust := st\<rparr>)"
  using resolve_quiet[of u gn "ust r" g st] touched_free_quiet[of r st "r\<lparr>ust := st\<rparr>"] by (simp add: step_ok_def)

lemma insert_data_ok: "insert_data hasher b u data r = Inr r' \<Longrightarrow> step_ok r r'"
proof (induction data arbitrary: r)
  case (Cons x data)
  obtain t gn where x: "x = (t, gn)" by (cases x)
  obtain g st ids r1 where 1: "resolve_or_allocate_graph u gn (ust r) = Inr (g, st)"
      "triple_to_ids (intern_run hasher b) t (r\<lparr>ust := st\<rparr>) = (ids, r1)"
      "res_bind (insert_step u ids g r1) (insert_data hasher b u data) = Inr r'"
    using Cons.prems unfolding x insert_data.simps Let_def
    by (auto simp del: resolve_or_allocate_graph.simps simp: case_prod_beta') (metis prod.collapse)
  have "step_ok r1 r'" by (rule step_ok_bind[OF 1(3)]) (use Cons.IH insert_step_ok in auto)
  then show ?case using resolved_ok[OF 1(1)] same_store_ok[OF triple_to_ids_store[OF 1(2)]] step_ok_trans by blast
qed simp

lemma subject_slot_store: "subject_slot hasher b bd p r = Inr (i, r') \<Longrightarrow> same_store r r'"
  by (cases p) (auto dest: intern_run_store)

lemma pred_slot_store: "pred_slot hasher b bd p r = Inr (i, r') \<Longrightarrow> same_store r r'"
  by (cases p) (auto dest: intern_run_store)

lemma object_slot_store: "object_slot hasher b bd p r = Inr (i, r') \<Longrightarrow> same_store r r'"
  by (cases p) (auto simp: intern_object_def simp del: object_to_id.simps dest: intern_run_store object_to_id_store)

lemma graph_slot_ok: "graph_slot u gp r = Inr (g, r') \<Longrightarrow> step_ok r r'"
  by (cases gp) (auto simp: resolved_ok simp del: resolve_or_allocate_graph.simps)

lemma instantiate_ok: "instantiate_template_quad hasher b u q bd r = Inr (x, r') \<Longrightarrow> step_ok r r'"
proof -
  assume i: "instantiate_template_quad hasher b u q bd r = Inr (x, r')"
  obtain s r1 p r2 ob r3 g where "subject_slot hasher b bd (qp_subject q) r = Inr (s, r1)"
      "pred_slot hasher b bd (qp_predicate q) r1 = Inr (p, r2)" "object_slot hasher b bd (qp_object q) r2 = Inr (ob, r3)"
      "graph_slot u (qp_graph q) r3 = Inr (g, r')"
    using i by (auto simp: instantiate_template_quad_def)
  then show ?thesis
    using subject_slot_store pred_slot_store object_slot_store graph_slot_ok same_store_ok step_ok_trans by metis
qed

lemma delete_templates_ok: "delete_templates b del bd r = Inr r' \<Longrightarrow> step_ok r r'"
proof (induction del arbitrary: r)
  case (Cons q del)
  obtain x where x: "(case x of None \<Rightarrow> delete_templates b del bd r
       | Some (ids, g) \<Rightarrow> res_bind (delete_step ids g r) (delete_templates b del bd)) = Inr r'"
    using Cons.prems unfolding delete_templates.simps res_bind_Inr_iff by blast
  show ?case
  proof (cases x)
    case (Some y)
    then have d: "res_bind (delete_step (fst y) (snd y) r) (delete_templates b del bd) = Inr r'"
      using x by (simp add: case_prod_beta' del: res_bind_Inr_iff)
    show ?thesis by (rule step_ok_bind[OF d]) (use Cons.IH delete_step_ok in auto)
  qed (use Cons.IH x in simp)
qed simp

lemma insert_templates_ok: "insert_templates hasher b u ins bd r = Inr r' \<Longrightarrow> step_ok r r'"
proof (induction ins arbitrary: r)
  case (Cons q ins)
  obtain x r1 where x: "instantiate_template_quad hasher b u q bd r = Inr (x, r1)"
      and d: "res_bind (insert_step u (fst x) (snd x) r1) (insert_templates hasher b u ins bd) = Inr r'"
    using Cons.prems unfolding insert_templates.simps res_bind_Inr_iff[of "instantiate_template_quad hasher b u q bd r"]
    by (auto simp: case_prod_beta' simp del: res_bind_Inr_iff)
  have "step_ok r1 r'" by (rule step_ok_bind[OF d]) (use Cons.IH insert_step_ok in auto)
  then show ?case using instantiate_ok[OF x] step_ok_trans by blast
qed simp

lemma apply_rows_ok: "apply_rows hasher b u del ins vars rws r = Inr r' \<Longrightarrow> step_ok r r'"
proof (induction rws arbitrary: r)
  case (Cons row rws)
  show ?case
  proof (cases "None \<in> set row")
    case False
    then obtain bd r1 r2 where "delete_templates b del bd r = Inr r1" "insert_templates hasher b u ins bd r1 = Inr r2"
        "apply_rows hasher b u del ins vars rws r2 = Inr r'"
      using Cons.prems by (auto simp: Let_def)
    then show ?thesis using delete_templates_ok insert_templates_ok Cons.IH step_ok_trans by metis
  qed (use Cons in simp)
qed simp

lemma touch_list_ok: "touch_list gs r = Inr r' \<Longrightarrow> step_ok r r'"
  by (induction gs arbitrary: r) (auto intro: step_ok_trans dest: touch_ok)

lemma touch_list_ust: "touch_list gs r = Inr r' \<Longrightarrow> ust r' = ust r"
  by (induction gs arbitrary: r) (auto simp: touch_def)

lemma execute_where_ok: "execute_delete_insert_where plan hasher b u del ins pattern r = Inr r' \<Longrightarrow> step_ok r r'"
proof -
  assume e: "execute_delete_insert_where plan hasher b u del ins pattern r = Inr r'"
  obtain vars rws r1 where a: "apply_rows hasher b u del ins vars rws (r\<lparr>touched := []\<rparr>) = Inr r1"
      and t: "touch_list (touched r1) (r1\<lparr>touched := touched r\<rparr>) = Inr r'"
    using e by (auto simp: execute_delete_insert_where_def Let_def split: if_splits)
  have "touched_free (r\<lparr>touched := []\<rparr>)" by (simp add: touched_free_def)
  then have q: "quiet (ust r) (ust r1)" using apply_rows_ok[OF a] by (simp add: step_ok_def)
  show ?thesis unfolding step_ok_def
  proof
    assume f: "touched_free r"
    have "touched_free (r1\<lparr>touched := touched r\<rparr>)" using f q by (auto simp: touched_free_def quiet_def)
    then have "touched_free r'" using touch_list_ok[OF t] by (simp add: step_ok_def)
    then show "touched_free r' \<and> quiet (ust r) (ust r')" using q touch_list_ust[OF t] by simp
  qed
qed

lemma clear_default_ok: "clear_default_graph_rows r = Inr r' \<Longrightarrow> step_ok r r'"
  unfolding step_ok_def
proof
  assume c: "clear_default_graph_rows r = Inr r'" and f: "touched_free r"
  obtain n st where st: "delete_quads (\<lambda>q. qg q = 0) (ust r) = Inr st" "touch 0 (r\<lparr>ust := st, n_deleted := n\<rparr>) = Inr r'"
    using c by (auto simp: clear_default_graph_rows_def)
  have fr: "frame (ust r) st" if "\<not> locked (ust r) 0" using delete_quads_frame[OF st(1)] that by auto
  show "touched_free r' \<and> quiet (ust r) (ust r')"
    by (rule write_then_touch[OF f quiet_refl delete_graphs[OF st(1)] fr st(2)]) simp_all
qed

lemma clear_by_id_ok: "clear_graph_by_id u g r = Inr r' \<Longrightarrow> step_ok r r'"
proof -
  assume "clear_graph_by_id u g r = Inr r'"
  then obtain n k st where 1: "clear_graph u g (ust r) = Inr (n, st)" "touch g (r\<lparr>ust := st, n_deleted := k\<rparr>) = Inr r'"
    by (auto simp: clear_graph_by_id_def)
  show ?thesis by (rule quiet_then_touch[OF clear_graph_quiet[OF 1(1)] 1(2)]) simp_all
qed

lemma drop_by_id_ok: "drop_graph_by_id u g r = Inr r' \<Longrightarrow> step_ok r r'"
proof -
  assume d: "drop_graph_by_id u g r = Inr r'"
  define r0 where "r0 = (case lookup_graph_iri g (ust r) of Some iri \<Rightarrow> r\<lparr>captured := push_var iri (captured r)\<rparr> | None \<Rightarrow> r)"
  obtain n k st where 1: "drop_graph u g True (ust r) = Inr (n, st)" "touch g (r0\<lparr>ust := st, n_deleted := k\<rparr>) = Inr r'"
    using d by (auto simp: drop_graph_by_id_def Let_def r0_def split: option.splits)
  show ?thesis by (rule quiet_then_touch[OF drop_graph_quiet[OF 1(1)] 1(2)]) (simp_all add: r0_def split: option.split)
qed

lemma each_graph_ok:
  assumes "\<And>g r r'. f g r = Inr r' \<Longrightarrow> step_ok r r'"
  shows "each_graph f gs r = Inr r' \<Longrightarrow> step_ok r r'"
proof (induction gs arbitrary: r)
  case (Cons g gs)
  show ?case by (rule step_ok_bind[OF Cons.prems[unfolded each_graph.simps]]) (use assms Cons.IH in auto)
qed simp

lemma on_target_ok:
  assumes "\<And>g r r'. f g r = Inr r' \<Longrightarrow> step_ok r r'" "on_target f tgt silent r = Inr r'"
  shows "step_ok r r'"
  using assms(2) each_graph_ok[of f, OF assms(1)] assms(1) clear_default_ok step_ok_trans
  by (cases tgt) (fastforce simp: on_target_def split: option.splits if_splits)+

lemma create_ok: "execute_create u iri silent r = Inr r' \<Longrightarrow> step_ok r r'"
proof (cases "graph_id iri (ust r)")
  case None
  assume "execute_create u iri silent r = Inr r'"
  with None obtain g st where 1: "add_graph_iri u iri (ust r) = Inr (g, st)" "touch g (r\<lparr>ust := st\<rparr>) = Inr r'"
    by (auto simp: execute_create_def)
  show ?thesis by (rule quiet_then_touch[OF add_graph_iri_quiet[OF 1(1)] 1(2)]) simp_all
next
  case (Some g)
  assume "execute_create u iri silent r = Inr r'"
  with Some have "touch g r = Inr r'" by (auto simp: execute_create_def split: if_splits)
  then show ?thesis by (rule touch_ok)
qed

lemma execute_clear_ok: "execute_clear u tgt silent r = Inr r' \<Longrightarrow> step_ok r r'"
  unfolding execute_clear_def by (rule on_target_ok[where f = "clear_graph_by_id u"]) (auto intro: clear_by_id_ok)

lemma execute_drop_ok: "execute_drop u tgt silent r = Inr r' \<Longrightarrow> step_ok r r'"
  unfolding execute_drop_def by (rule on_target_ok[where f = "drop_graph_by_id u"]) (auto intro: drop_by_id_ok)

lemma execute_op_ok: "execute_op plan hasher b u op r = Inr r' \<Longrightarrow> step_ok r r'"
  by (cases op) (auto simp: insert_data_ok delete_data_ok create_ok execute_clear_ok execute_drop_ok
      execute_delete_where_def execute_insert_where_def split: if_splits
      dest: execute_where_ok)

lemma execute_ops_ok: "execute_ops plan hasher b u ops r = Inr r' \<Longrightarrow> step_ok r r'"
  by (induction ops arbitrary: r) (auto intro: step_ok_trans dest: execute_op_ok)

section \<open>What INSERT DATA leaves\<close>

lemma intern_run_put: "intern_run hasher b k r = (i, r') \<Longrightarrow> put_term_full hasher b k (uw r) = (i, uw r')"
  by (auto simp: intern_run_def split: prod.splits)

interpretation update_interner: interner "intern_run hasher b" "\<lambda>r. visible (uw r) b"
    "\<lambda>r. dict_ok hasher b R db (uw r)" "key_clear hasher R db" for hasher b R db
  by unfold_locales (blast dest: intern_run_put put.intern_ok put.intern_reads put.intern_grows)+

definition named_graph :: "store \<Rightarrow> update_graph_name \<Rightarrow> int option" where
  "named_graph st gn = (case gn of Default_Name \<Rightarrow> Some 0 | Name iri \<Rightarrow> graph_id iri st)"

text \<open>A quad that says a triple of the data, in the graph the data names.\<close>

definition datum_says :: "dict_row list \<Rightarrow> store \<Rightarrow> ox_triple \<times> update_graph_name \<Rightarrow> quad \<Rightarrow> bool" where
  "datum_says d st x q \<longleftrightarrow> named_graph st (snd x) = Some (qg q) \<and> denotes d (qs q, qp q, qo q) (fst x)"

lemma datum_says_read: "datum_says d st x q \<Longrightarrow> named_graph st (snd x) = Some (qg q) \<and> read_quad d q = Some (as_triple (fst x))"
  using denotes_read[of d "(qs q, qp q, qo q)" "fst x" 0] by (simp add: datum_says_def read_quad_def asserted_quad_def)

lemma add_graph_registry: "add_graph u g st = Inr (x, st') \<Longrightarrow> registry_grows st st' \<and> quads st' = quads st"
  using add_graph_registered add_graph_quads by (auto simp: registry_grows_def)

lemma resolved_registry:
  "resolve_or_allocate_graph u gn st = Inr (g, st') \<Longrightarrow>
     registry_grows st st' \<and> named_graph st' gn = Some g \<and> quads st' = quads st"
  by (cases gn) (auto simp: named_graph_def dest: add_graph_iri_registry split: option.splits)

lemma named_graph_grows: "registry_grows st st' \<Longrightarrow> named_graph st gn = Some g \<Longrightarrow> named_graph st' gn = Some g"
  by (auto simp: registry_grows_def named_graph_def split: update_graph_name.splits)

lemma same_spog_ids: "same_spog ids g q \<longleftrightarrow> (qs q, qp q, qo q) = ids \<and> qg q = g"
  by (cases ids) (auto simp: same_spog_def)

lemma same_spog_asserted [simp]: "same_spog ids g (asserted_quad g ids)"
  by (cases ids) (simp add: same_spog_def asserted_quad_def)

lemma insert_quad_effect:
  assumes "insert_quad u ids g st = Inr st'"
  shows "registry_grows st st' \<and> (\<exists>q \<in> set (quads st'). same_spog ids g q) \<and>
    (quads st' = quads st \<or> quads st' = quads st @ [asserted_quad g ids] \<and> \<not> list_ex (same_spog ids g) (quads st))"
proof -
  obtain st1 where 1: "registry_grows st st1" "quads st1 = quads st"
      "(if list_ex (same_spog ids g) (quads st1) then Inr st1 else insert_quads [asserted_quad g ids] st1) = Inr st'"
  proof (cases "g = 0")
    case False
    then show thesis using assms that by (auto simp: insert_quad_def dest: add_graph_registry)
  next
    case True
    then have "(if list_ex (same_spog ids g) (quads st) then Inr st else insert_quads [asserted_quad g ids] st) = Inr st'"
      using assms unfolding True by (simp add: insert_quad_def split del: if_split)
    then show thesis by (intro that[of st]) (simp_all only: registry_grows_refl)
  qed
  show ?thesis
  proof (cases "list_ex (same_spog ids g) (quads st)")
    case True
    with 1 show ?thesis by (auto simp: list_ex_iff)
  next
    case False
    with 1 have "st' = st1\<lparr>quads := quads st @ [asserted_quad g ids]\<rparr>" by (auto simp: insert_quads_def split: if_splits)
    with 1 False show ?thesis by simp
  qed
qed

text \<open>What is true of the store after some of the data.\<close>

definition data_inserted ::
    "nat \<Rightarrow> (ox_triple \<times> update_graph_name) list \<Rightarrow> update_run \<Rightarrow> update_run \<Rightarrow> bool" where
  "data_inserted b data r r' \<longleftrightarrow>
     registry_grows (ust r) (ust r') \<and> (\<exists>rows. visible (uw r') b = visible (uw r) b @ rows) \<and>
     n_inserted r' = n_inserted r + int (length data) \<and>
     (\<forall>x \<in> set data. \<exists>q \<in> set (quads (ust r')). datum_says (visible (uw r') b) (ust r') x q) \<and>
     (\<exists>new. quads (ust r') = quads (ust r) @ new \<and>
        (\<forall>q \<in> set new. \<not> qinf q \<and> (\<exists>x \<in> set data. datum_says (visible (uw r') b) (ust r') x q)))"

lemma datum_says_grows:
  "registry_grows st st' \<Longrightarrow> datum_says d st x q \<Longrightarrow> datum_says (d @ new) st' x q"
  by (simp add: datum_says_def named_graph_grows denotes_append)

lemma data_inserted_append:
  assumes "data_inserted b xs r r1" "data_inserted b ys r1 r2"
  shows "data_inserted b (xs @ ys) r r2"
proof -
  note a = assms[unfolded data_inserted_def]
  obtain d where d: "visible (uw r2) b = visible (uw r1) b @ d" using a(2) by blast
  have mono: "datum_says (visible (uw r1) b) (ust r1) x q \<Longrightarrow> datum_says (visible (uw r2) b) (ust r2) x q" for x q
    unfolding d using a(2) datum_says_grows by blast
  obtain new1 where 1: "quads (ust r1) = quads (ust r) @ new1"
      "\<forall>q \<in> set new1. \<not> qinf q \<and> (\<exists>x \<in> set xs. datum_says (visible (uw r1) b) (ust r1) x q)" using a(1) by blast
  obtain new2 where 2: "quads (ust r2) = quads (ust r1) @ new2"
      "\<forall>q \<in> set new2. \<not> qinf q \<and> (\<exists>x \<in> set ys. datum_says (visible (uw r2) b) (ust r2) x q)" using a(2) by blast
  show ?thesis unfolding data_inserted_def
  proof (intro conjI)
    show "registry_grows (ust r) (ust r2)" using a registry_grows_trans by blast
    show "\<exists>rows. visible (uw r2) b = visible (uw r) b @ rows" using a(1) d by auto
    show "n_inserted r2 = n_inserted r + int (length (xs @ ys))" using a by simp
    show "\<forall>x \<in> set (xs @ ys). \<exists>q \<in> set (quads (ust r2)). datum_says (visible (uw r2) b) (ust r2) x q"
    proof
      fix x assume x: "x \<in> set (xs @ ys)"
      show "\<exists>q \<in> set (quads (ust r2)). datum_says (visible (uw r2) b) (ust r2) x q"
      proof (cases "x \<in> set xs")
        case True
        then obtain q where "q \<in> set (quads (ust r1))" "datum_says (visible (uw r1) b) (ust r1) x q" using a(1) by blast
        then have "datum_says (visible (uw r2) b) (ust r2) x q \<and> q \<in> set (quads (ust r2))" using mono 2(1) by simp
        then show ?thesis by blast
      qed (use x a(2) in auto)
    qed
    have "\<not> qinf q \<and> (\<exists>x \<in> set (xs @ ys). datum_says (visible (uw r2) b) (ust r2) x q)" if "q \<in> set (new1 @ new2)" for q
      using that 1(2) 2(2) mono by (auto simp: Bex_def) blast+
    then show "\<exists>new. quads (ust r2) = quads (ust r) @ new \<and>
        (\<forall>q \<in> set new. \<not> qinf q \<and> (\<exists>x \<in> set (xs @ ys). datum_says (visible (uw r2) b) (ust r2) x q))"
      using 1(1) 2(1) by (intro exI[of _ "new1 @ new2"]) simp
  qed
qed

lemma insert_one:
  assumes "dict_ok hasher b R db (uw r)" "\<forall>k \<in> triple_keys t. key_clear hasher R db k"
    and "resolve_or_allocate_graph u gn (ust r) = Inr (g, st)"
    and "triple_to_ids (intern_run hasher b) t (r\<lparr>ust := st\<rparr>) = (ids, r1)" "insert_step u ids g r1 = Inr r2"
  shows "dict_ok hasher b R db (uw r2) \<and> data_inserted b [(t, gn)] r r2"
proof -
  have "dict_ok hasher b R db (uw (r\<lparr>ust := st\<rparr>))" using assms(1) by simp
  note rd = update_interner.triple_to_ids_reads[where hasher = hasher and b = b and R = R and db = db, OF this assms(2,4)]
  have r1: "ust r1 = st" "n_inserted r1 = n_inserted r"
    using triple_to_ids_store[OF assms(4)] by (auto simp: same_store_def)
  obtain st2 where 2: "insert_quad u ids g st = Inr st2" "ust r2 = st2" "uw r2 = uw r1" "n_inserted r2 = n_inserted r + 1"
    using assms(5) r1 by (auto simp: insert_step_def touch_def)
  note g = resolved_registry[OF assms(3)] and e = insert_quad_effect[OF 2(1)]
  have gn: "named_graph st2 gn = Some g" using g e named_graph_grows by blast
  have says: "datum_says (visible (uw r2) b) st2 (t, gn) q" if "same_spog ids g q" for q
    using that rd gn by (simp add: datum_says_def 2(3) same_spog_ids)
  obtain rs where rs: "visible (uw r2) b = visible (uw r) b @ rs" using rd 2(3) by auto
  have new: "\<exists>new. quads st2 = quads (ust r) @ new \<and> (\<forall>q \<in> set new. \<not> qinf q \<and> datum_says (visible (uw r2) b) st2 (t, gn) q)"
  proof (cases "quads st2 = quads st")
    case False
    then have "quads st2 = quads (ust r) @ [asserted_quad g ids]" using e g by auto
    moreover have "\<not> qinf (asserted_quad g ids)" by (cases ids) (simp add: asserted_quad_def)
    ultimately show ?thesis using says by (intro exI[of _ "[asserted_quad g ids]"]) simp
  qed (use g in simp)
  have gr: "registry_grows (ust r) st2" using g e registry_grows_trans by blast
  have ex: "\<exists>q \<in> set (quads st2). datum_says (visible (uw r2) b) st2 (t, gn) q" using e says by blast
  show ?thesis unfolding data_inserted_def 2(2) using rd gr ex new rs 2(3,4) by simp
qed

lemma insert_data_inserts:
  "dict_ok hasher b R db (uw r) \<Longrightarrow> \<forall>x \<in> set data. \<forall>k \<in> triple_keys (fst x). key_clear hasher R db k \<Longrightarrow>
     insert_data hasher b u data r = Inr r' \<Longrightarrow> data_inserted b data r r'"
proof (induction data arbitrary: r)
  case Nil
  then show ?case by (simp add: data_inserted_def)
next
  case (Cons x data)
  obtain t gn where x: "x = (t, gn)" by (cases x)
  obtain g st ids r1 r2 where 1: "resolve_or_allocate_graph u gn (ust r) = Inr (g, st)"
      "triple_to_ids (intern_run hasher b) t (r\<lparr>ust := st\<rparr>) = (ids, r1)"
      "insert_step u ids g r1 = Inr r2" "insert_data hasher b u data r2 = Inr r'"
    using Cons.prems(3) unfolding x insert_data.simps Let_def
    by (auto simp del: resolve_or_allocate_graph.simps simp: case_prod_beta') (metis prod.collapse)
  have k: "\<forall>k \<in> triple_keys t. key_clear hasher R db k" using Cons.prems(2) x by simp
  note o = insert_one[OF Cons.prems(1) k 1(1-3)]
  have "data_inserted b data r2 r'" by (rule Cons.IH) (use o Cons.prems(2) 1(4) in auto)
  then show ?case using data_inserted_append[of b "[(t, gn)]" r r2 data r'] o x by simp
qed

section \<open>What DELETE DATA removes\<close>

text \<open>
  A dictionary in which every term has one row: what the loaders and the interning leave when no two transactions
  intern the same new term at once.
\<close>

definition single_rows :: "dict_row list \<Rightarrow> bool" where
  "single_rows d \<longleftrightarrow> distinct (map row_id d) \<and> distinct (map row_key d) \<and>
     (\<forall>r \<in> set d. 0 < row_id r \<and>
        (case row_key r of (t, v, dt, l) \<Rightarrow>
           (t = 1 \<longrightarrow> dt = None \<and> l = None) \<and> (\<forall>e. dt = Some e \<longrightarrow> (\<exists>x. dict_row_of d e = Some (iri_key x)))))"

lemma dict_row_of_iff:
  "single_rows d \<Longrightarrow> dict_row_of d i = Some k \<longleftrightarrow> (\<exists>r \<in> set d. row_id r = i \<and> row_key r = k)"
  using dict_row_of_mem[of d] find_SomeD[of "\<lambda>r. row_id r = i" d] unfolding dict_row_of_def single_rows_def by auto

lemma row_with_iff:
  assumes "single_rows d" "\<And>r. r \<in> set d \<Longrightarrow> P (row_key r) \<longleftrightarrow> row_key r = k"
  shows "row_with P d = Some i \<longleftrightarrow> dict_row_of d i = Some k"
proof -
  have f: "find (\<lambda>r. P (row_key r)) d = find (\<lambda>r. row_key r = k) d" using assms(2) by (intro find_cong) auto
  have u: "r = r'" if "r \<in> set d" "r' \<in> set d" "row_key r = row_key r'" for r r'
    using that assms(1) by (auto simp: single_rows_def distinct_map dest: inj_onD)
  show ?thesis unfolding dict_row_of_iff[OF assms(1)] row_with_def f
    using u find_SomeD[of "\<lambda>r. row_key r = k" d] find_None_iff[of "\<lambda>r. row_key r = k" d]
    by (cases "find (\<lambda>r. row_key r = k) d") auto
qed

lemma lookup_iri_iff: "single_rows d \<Longrightarrow> lookup_iri_id d n = Some i \<longleftrightarrow> dict_row_of d i = Some (iri_key n)"
  unfolding lookup_iri_id_def by (rule row_with_iff) (auto simp: single_rows_def iri_key_def)

lemma lookup_literal_iff: "single_rows d \<Longrightarrow> lookup_literal_id d v l dt = Some i \<longleftrightarrow> term_denoted d i (Literal v l dt)"
proof (cases l)
  case None
  assume s: "single_rows d"
  have e: "lookup_literal_id d v l dt = Some i \<longleftrightarrow>
      dict_row_of d i = Some (3, v, Some (case lookup_iri_id d dt of Some i \<Rightarrow> i | None \<Rightarrow> -1), None)"
    unfolding lookup_literal_id_def None Let_def option.case by (rule row_with_iff[OF s refl])
  show ?thesis
  proof (cases "lookup_iri_id d dt")
    case (Some j)
    have "dict_row_of d e' = Some (iri_key dt) \<longleftrightarrow> e' = j" for e' using lookup_iri_iff[OF s, of dt e'] Some by auto
    then show ?thesis unfolding e by (simp add: None Some)
  next
    case n: None
    have "dict_row_of d e' \<noteq> Some (iri_key dt)" for e' using lookup_iri_iff[OF s, of dt] n by auto
    moreover have "dict_row_of d i \<noteq> Some (3, v, Some (-1), None)"
    proof
      assume "dict_row_of d i = Some (3, v, Some (-1), None)"
      then obtain r where "r \<in> set d" "row_key r = (3, v, Some (-1), None)" using dict_row_of_iff[OF s] by auto
      then obtain x where "dict_row_of d (-1) = Some (iri_key x)" using s unfolding single_rows_def by fastforce
      then obtain r' where "r' \<in> set d" "row_id r' = -1" using dict_row_of_iff[OF s] by auto
      then show False using s by (auto simp: single_rows_def)
    qed
    ultimately show ?thesis unfolding e by (simp add: None n)
  qed
next
  case (Some x)
  assume "single_rows d"
  then show ?thesis unfolding lookup_literal_id_def Some option.case by (simp add: row_with_iff)
qed

lemma lookup_ground_iff:
  "single_rows d \<Longrightarrow> \<forall>l. ob \<noteq> NodeTerm (BlankNode l) \<Longrightarrow> lookup_ground_term_id d ob = Some i \<longleftrightarrow> term_denoted d i ob"
proof (cases ob)
  case (NodeTerm n)
  assume "single_rows d" "\<forall>l. ob \<noteq> NodeTerm (BlankNode l)"
  with NodeTerm show ?thesis by (cases n) (simp_all add: lookup_iri_iff iri_key_def)
qed (simp add: lookup_literal_iff del: term_denoted.simps)

lemma denotes_lookup:
  assumes "single_rows d" "\<forall>l. ob \<noteq> NodeTerm (BlankNode l)"
  shows "denotes d (si, pi, oi) (NamedNode s, p, ob) \<longleftrightarrow>
    lookup_iri_id d s = Some si \<and> lookup_iri_id d p = Some pi \<and> lookup_ground_term_id d ob = Some oi"
  by (simp add: denotes_def lookup_iri_iff[OF assms(1)] lookup_ground_iff[OF assms] iri_key_def)

text \<open>One datum of DELETE DATA as a triple and a graph.\<close>

fun ground_datum :: "(string \<times> string \<times> ox_term) \<times> update_graph_name \<Rightarrow> ox_triple \<times> update_graph_name" where
  "ground_datum ((s, p, ob), gn) = ((NamedNode s, p, ob), gn)"

lemma delete_data_deletes:
  "single_rows (update_dict b r) \<Longrightarrow> \<forall>x \<in> set data. \<forall>l. snd (snd (fst x)) \<noteq> NodeTerm (BlankNode l) \<Longrightarrow>
     delete_data b data r = Inr r' \<Longrightarrow>
     uw r' = uw r \<and> ust r' = (ust r)\<lparr>quads :=
       filter (\<lambda>q. \<forall>x \<in> set data. \<not> datum_says (update_dict b r) (ust r) (ground_datum x) q) (quads (ust r))\<rparr> \<and>
     n_deleted r' = n_deleted r + int (length (quads (ust r))) - int (length (quads (ust r')))"
proof (induction data arbitrary: r)
  case (Cons x data)
  obtain s p ob gn where x: "x = ((s, p, ob), gn)" by (cases x) auto
  define d where "d = update_dict b r"
  define gone where "gone = (\<lambda>q. datum_says d (ust r) (ground_datum x) q)"
  note sd = Cons.prems(1)[folded d_def]
  have ob: "\<forall>l. ob \<noteq> NodeTerm (BlankNode l)" using Cons.prems(2) by (simp add: x)
  have gone: "gone q \<longleftrightarrow> named_graph (ust r) gn = Some (qg q) \<and> lookup_iri_id d s = Some (qs q) \<and>
      lookup_iri_id d p = Some (qp q) \<and> lookup_ground_term_id d ob = Some (qo q)" for q
    by (simp add: gone_def datum_says_def x denotes_lookup[OF sd ob])
  obtain r1 where r1: "delete_data b data r1 = Inr r'" "uw r1 = uw r" "ust r1 = (ust r)\<lparr>quads := filter (\<lambda>q. \<not> gone q) (quads (ust r))\<rparr>"
      "n_deleted r1 = n_deleted r + int (length (quads (ust r))) - int (length (quads (ust r1)))"
  proof (cases "\<exists>g si pi oi. named_graph (ust r) gn = Some g \<and> lookup_iri_id d s = Some si \<and> lookup_iri_id d p = Some pi \<and>
      lookup_ground_term_id d ob = Some oi")
    case True
    then obtain g si pi oi where k: "named_graph (ust r) gn = Some g" "lookup_iri_id d s = Some si" "lookup_iri_id d p = Some pi"
      "lookup_ground_term_id d ob = Some oi" by blast
    have sel: "gone = same_spog (si, pi, oi) g" by (rule ext) (auto simp: gone k same_spog_def)
    obtain r1 where 1: "delete_step (si, pi, oi) g r = Inr r1" "delete_data b data r1 = Inr r'"
      using Cons.prems(3) k unfolding x named_graph_def by (auto simp: Let_def d_def)
    have "int (length (filter gone (quads (ust r)))) = int (length (quads (ust r))) - int (length (filter (\<lambda>q. \<not> gone q) (quads (ust r))))"
      using sum_length_filter_compl[of gone "quads (ust r)"] by simp
    then show thesis using 1 sel
      by (intro that[of r1]) (auto simp: delete_step_def delete_spog_def delete_quads_def touch_def split: if_splits)
  next
    case False
    then have no: "\<not> gone q" for q using gone by blast
    obtain r1 where 1: "delete_data b data r1 = Inr r'" "r1 = r \<or> (\<exists>g. touch g r = Inr r1)"
      using Cons.prems(3) False unfolding x named_graph_def by (auto simp: Let_def d_def split: option.splits)
    then have "ust r1 = ust r \<and> uw r1 = uw r \<and> n_deleted r1 = n_deleted r" by (auto simp: touch_def)
    then show thesis using 1 no by (intro that[of r1]) simp_all
  qed
  have ng: "named_graph (ust r1) = named_graph (ust r)" unfolding named_graph_def r1(3) by (simp add: graph_id_def)
  have d1: "update_dict b r1 = d" by (simp add: update_dict_def d_def r1(2))
  have says: "datum_says d (ust r1) y q = datum_says d (ust r) y q" for y q by (simp add: datum_says_def ng)
  have q: "filter (\<lambda>q. \<forall>y \<in> set (x # data). \<not> datum_says d (ust r) (ground_datum y) q) (quads (ust r)) =
      filter (\<lambda>q. \<forall>y \<in> set data. \<not> datum_says d (ust r) (ground_datum y) q) (filter (\<lambda>q. \<not> gone q) (quads (ust r)))"
    by (simp add: gone_def conj_commute)
  have nb: "\<forall>x \<in> set data. \<forall>l. snd (snd (fst x)) \<noteq> NodeTerm (BlankNode l)" using Cons.prems(2) by simp
  note ih = Cons.IH[OF _ nb r1(1), unfolded d1 says, OF sd]
  have u: "ust r' = (ust r)\<lparr>quads := filter (\<lambda>q. \<forall>y \<in> set data. \<not> datum_says d (ust r) (ground_datum y) q)
      (filter (\<lambda>q. \<not> gone q) (quads (ust r)))\<rparr>" using ih r1(3) by simp
  show ?case unfolding d_def[symmetric] q using u ih r1(2,4) by simp
qed simp

section \<open>Writes of an unlocked default graph\<close>

lemma touch_default: "\<not> locked (ust r) 0 \<Longrightarrow> \<exists>r'. touch 0 r = Inr r' \<and> ust r' = ust r \<and> uw r' = uw r"
proof -
  assume "\<not> locked (ust r) 0"
  then have "require_unlocked 0 (ust r) = Inr ()" by simp
  then show ?thesis by (simp add: touch_def touch_graph_def del: require_unlocked_Inr)
qed

lemma delete_step_default:
  assumes "\<not> locked (ust r) 0" "0 \<notin> set (trow (ust r))"
  shows "\<exists>r'. delete_step ids 0 r = Inr r' \<and> ust r' = (ust r)\<lparr>quads := filter (\<lambda>q. \<not> same_spog ids 0 q) (quads (ust r))\<rparr>"
proof -
  define st where "st = (ust r)\<lparr>quads := filter (\<lambda>q. \<not> same_spog ids 0 q) (quads (ust r))\<rparr>"
  have d: "delete_quads (same_spog ids 0) (ust r) = Inr st"
    using assms(2) by (auto simp: delete_quads_def st_def list_ex_iff same_spog_def)
  define n where "n = n_deleted r + int (length (filter (same_spog ids 0) (quads (ust r))))"
  have "\<not> locked (ust (r\<lparr>ust := st, n_deleted := n\<rparr>)) 0" using assms(1) by (simp add: st_def)
  from touch_default[OF this] show ?thesis by (auto simp: delete_step_def delete_spog_def d n_def st_def[symmetric])
qed

lemma insert_step_default:
  assumes "\<not> locked (ust r) 0" "0 \<notin> set (trow (ust r))"
  shows "\<exists>r'. insert_step u ids 0 r = Inr r' \<and> ust r' = (ust r)\<lparr>quads :=
    if list_ex (same_spog ids 0) (quads (ust r)) then quads (ust r) else quads (ust r) @ [asserted_quad 0 ids]\<rparr>"
proof -
  define st where "st = (ust r)\<lparr>quads :=
    if list_ex (same_spog ids 0) (quads (ust r)) then quads (ust r) else quads (ust r) @ [asserted_quad 0 ids]\<rparr>"
  have g: "qg (asserted_quad 0 ids) = 0" by (cases ids) (simp add: asserted_quad_def)
  have i: "insert_quad u ids 0 (ust r) = Inr st"
    using assms(2) g by (simp add: insert_quad_def insert_quads_def st_def)
  have "\<not> locked (ust (r\<lparr>ust := st, n_inserted := n_inserted r + 1\<rparr>)) 0" using assms(1) by (simp add: st_def)
  from touch_default[OF this] show ?thesis by (auto simp: insert_step_def i st_def[symmetric])
qed

text \<open>DELETE {?x ?p ?y} INSERT {?y ?p ?x}, for the rows of WHERE {?x ?p ?y}.\<close>

definition swap_rows :: "hasher \<Rightarrow> nat \<Rightarrow> privs \<Rightarrow> (int \<times> int \<times> int) list \<Rightarrow> update_run \<Rightarrow> update_run res" where
  "swap_rows hasher b u found =
     apply_rows hasher b u
      [\<lparr>gq_subject = GVar ''x'', gq_predicate = PVar ''p'', gq_object = GVar ''y'', gq_graph = Default_Pattern\<rparr>]
      [\<lparr>qp_subject = Var ''y'', qp_predicate = PVar ''p'', qp_object = Var ''x'', qp_graph = Default_Pattern\<rparr>]
      [''x'', ''p'', ''y''] (map (\<lambda>(x, p, y). [Some x, Some p, Some y]) found)"

lemma swap_rows_step:
  "swap_rows hasher b u ((x, p, y) # found) r =
     res_bind (delete_step (x, p, y) 0 r) (\<lambda>r. res_bind (insert_step u (y, p, x) 0 r) (swap_rows hasher b u found))"
proof -
  have assoc: "res_bind (res_bind m f) g = res_bind m (\<lambda>x. res_bind (f x) g)" for m :: "update_run res" and f g
    by (cases m) simp_all
  show ?thesis unfolding swap_rows_def
    by (cases "delete_step (x, p, y) 0 r") (simp_all add: bound_def instantiate_ground_template_quad_def or_none_def
        instantiate_template_quad_def Let_def assoc)
qed

section \<open>Properties\<close>

text \<open>C18: A SPARQL update that succeeds has written to no locked graph: whatever operations it ran, in whatever order, the registry and partition invariants hold afterwards, every lock is where it was, and each locked graph has the quads it had.\<close>

theorem update_respects_locks:
  assumes "store_ok st" "execute_update plan hasher b u ops (w, st) = Inr (s, w', st')"
  shows "store_ok st' \<and> locked st' = locked st \<and> (\<forall>g. locked st g \<longrightarrow> graph_quads st' g = graph_quads st g)"
proof -
  let ?r = "\<lparr>uw = w, ust = st, n_inserted = 0, n_deleted = 0, touched = [], captured = []\<rparr>"
  obtain r where r: "execute_ops plan hasher b u ops ?r = Inr r" "st' = ust r" using assms(2) by (auto simp: execute_update_def)
  have "touched_free ?r" by (simp add: touched_free_def)
  then have "quiet st st'" using execute_ops_ok[OF r(1)] by (simp add: step_ok_def r(2))
  then show ?thesis using assms(1) by (auto simp: quiet_def frame_def fenced_def)
qed

text \<open>C19: INSERT DATA leaves every triple of the data readable in the graph the data names, default or resolved by its IRI, and adds nothing else: the old rows stay, each added row is asserted and says a triple of the data.\<close>

theorem insert_data_asserts:
  assumes "reachable hasher db_of w" "\<forall>x \<in> set data. \<forall>k \<in> triple_keys (fst x). no_collision hasher w (bdb (backends w b)) k"
    and "execute_update plan hasher b u [Insert_Data data] (w, st) = Inr (s, w', st')"
  shows "us_inserted s = int (length data) \<and>
    (\<forall>x \<in> set data. \<exists>q \<in> set (quads st'). named_graph st' (snd x) = Some (qg q) \<and>
       read_quad (visible w' b) q = Some (as_triple (fst x))) \<and>
    (\<exists>new. quads st' = quads st @ new \<and>
       (\<forall>q \<in> set new. \<not> qinf q \<and> (\<exists>x \<in> set data. named_graph st' (snd x) = Some (qg q) \<and>
          read_quad (visible w' b) q = Some (as_triple (fst x)))))"
proof -
  let ?r = "\<lparr>uw = w, ust = st, n_inserted = 0, n_deleted = 0, touched = [], captured = []\<rparr>"
  obtain r where r: "insert_data hasher b u data ?r = Inr r" "us_inserted s = n_inserted r" "w' = uw r" "st' = ust r"
    using assms(3) by (auto simp: execute_update_def)
  have ok: "dict_ok hasher b (rows w) (bdb (backends w b)) (uw ?r)" using reachable_dict_ok[OF assms(1)] by simp
  have k: "\<forall>x \<in> set data. \<forall>k \<in> triple_keys (fst x). key_clear hasher (rows w) (bdb (backends w b)) k"
    using assms(2) by (simp add: key_clear_def no_collision_def)
  note i = insert_data_inserts[OF ok k r(1), unfolded data_inserted_def]
  have a: "\<forall>x \<in> set data. \<exists>q \<in> set (quads st'). named_graph st' (snd x) = Some (qg q) \<and>
       read_quad (visible w' b) q = Some (as_triple (fst x))" using i datum_says_read unfolding r(3,4) by blast
  obtain new where "quads st' = quads st @ new"
      "\<forall>q \<in> set new. \<not> qinf q \<and> (\<exists>x \<in> set data. datum_says (visible w' b) st' x q)" using i unfolding r(3,4) by auto
  then show ?thesis using a i r(2) datum_says_read by (intro conjI exI[of _ new]) (simp, blast+)
qed

text \<open>C20: DELETE DATA is exact: in a dictionary with one row to a term it removes the rows, asserted or inferred, that say a triple of the data in the graph the data names, and no other; it interns nothing and registers no graph, and its answer counts the rows.\<close>

theorem delete_data_exact:
  assumes "single_rows (visible w b)" "\<forall>x \<in> set data. \<forall>l. snd (snd (fst x)) \<noteq> NodeTerm (BlankNode l)"
    and "execute_update plan hasher b u [Delete_Data data] (w, st) = Inr (s, w', st')"
  shows "w' = w \<and> us_deleted s = int (length (quads st)) - int (length (quads st')) \<and>
    st' = st\<lparr>quads := filter (\<lambda>q. \<forall>x \<in> set data. \<not> datum_says (visible w b) st (ground_datum x) q) (quads st)\<rparr>"
proof -
  let ?r = "\<lparr>uw = w, ust = st, n_inserted = 0, n_deleted = 0, touched = [], captured = []\<rparr>"
  obtain r where r: "delete_data b data ?r = Inr r" "us_deleted s = n_deleted r" "w' = uw r" "st' = ust r"
    using assms(3) by (auto simp: execute_update_def)
  have d: "update_dict b ?r = visible w b" by (simp add: update_dict_def)
  from delete_data_deletes[OF _ assms(2) r(1), unfolded d, OF assms(1)] show ?thesis by (simp add: r)
qed

text \<open>C24: DELETE and INSERT run row by row, so DELETE {?x ?p ?y} INSERT {?y ?p ?x} over a symmetric pair of edges loses one of them: the second row deletes what the first inserted, where deleting for all rows before inserting for any would leave both.\<close>

theorem swap_loses_edge:
  assumes "x \<noteq> y" "quads (ust r) = [asserted_quad 0 (x, p, y), asserted_quad 0 (y, p, x)]"
    and "\<not> locked (ust r) 0" "0 \<notin> set (trow (ust r))"
  shows "\<exists>r'. swap_rows hasher b u [(x, p, y), (y, p, x)] r = Inr r' \<and> quads (ust r') = [asserted_quad 0 (x, p, y)]"
proof -
  have ne: "\<not> same_spog (x, p, y) 0 (asserted_quad 0 (y, p, x))" "\<not> same_spog (y, p, x) 0 (asserted_quad 0 (x, p, y))"
    using assms(1) by (auto simp: same_spog_def asserted_quad_def)
  obtain r1 where 1: "delete_step (x, p, y) 0 r = Inr r1" "ust r1 = (ust r)\<lparr>quads := [asserted_quad 0 (y, p, x)]\<rparr>"
    using delete_step_default[OF assms(3,4), of "(x, p, y)"] assms(2) ne by auto
  obtain r2 where 2: "insert_step u (y, p, x) 0 r1 = Inr r2" "ust r2 = ust r1"
    using insert_step_default[of r1 u "(y, p, x)"] 1(2) assms(3,4) by auto
  obtain r3 where 3: "delete_step (y, p, x) 0 r2 = Inr r3" "ust r3 = (ust r)\<lparr>quads := []\<rparr>"
    using delete_step_default[of r2 "(y, p, x)"] 1(2) 2(2) assms(3,4) by auto
  obtain r4 where 4: "insert_step u (x, p, y) 0 r3 = Inr r4" "ust r4 = (ust r)\<lparr>quads := [asserted_quad 0 (x, p, y)]\<rparr>"
    using insert_step_default[of r3 u "(x, p, y)"] 3(2) assms(3,4) by auto
  have "swap_rows hasher b u [] r4 = Inr r4" by (simp add: swap_rows_def)
  then show ?thesis by (simp add: swap_rows_step 1(1) 2(1) 3(1) 4)
qed

text \<open>
  The guard of \<open>insert_quad\<close> counts inferred rows: inserting a triple that is present as an inferred row writes nothing,
  so no asserted row survives the next materialization, which drops the inferred ones first.
\<close>

lemma inferred_row_shadows_insert:
  "q \<in> set (quads st) \<Longrightarrow> qinf q \<Longrightarrow> qg q = 0 \<Longrightarrow> insert_quad u (qs q, qp q, qo q) 0 st = Inr st"
  by (auto simp: insert_quad_def list_ex_iff same_spog_def)

text \<open>A variable's value is written whatever its type: a literal that a row binds becomes a subject.\<close>

lemma bound_subject_unchecked: "bd v = Some i \<Longrightarrow> subject_slot hasher b bd (Var v) r = Inr (i, r)"
  by (simp add: bound_def)

section \<open>Witnesses\<close>

lemma default_insert_returns:
  assumes "\<not> locked st 0" "0 \<notin> set (trow st)"
  shows "\<exists>s w' st'. execute_update plan hasher b u [Insert_Data [(t, Default_Name)]] (w, st) = Inr (s, w', st')"
proof -
  let ?r = "\<lparr>uw = w, ust = st, n_inserted = 0, n_deleted = 0, touched = [], captured = []\<rparr>"
  obtain ids r1 where t: "triple_to_ids (intern_run hasher b) t ?r = (ids, r1)" by fastforce
  have "ust r1 = st" using same_storeD[OF triple_to_ids_store[OF t]] by simp
  then obtain r2 where "insert_step u ids 0 r1 = Inr r2" using insert_step_default[of r1 u ids] assms by auto
  then show ?thesis using t by (simp add: execute_update_def)
qed

definition no_plan :: "nat planner" where
  "no_plan p d st = Inl Internal_Error"

definition ex_datum :: "ox_triple \<times> update_graph_name" where
  "ex_datum = ((NamedNode ''ex:a1'', ''ex:q1'', NodeTerm (NamedNode ''ex:b1'')), Default_Name)"

lemma fresh_default: "\<not> locked fresh_store 0" "0 \<notin> set (trow fresh_store)"
  by (simp_all add: locked_def fresh_store_def find_graph_def new_row_def)

theorem insert_data_asserts_witness:
  "\<exists>s w' st' q. execute_update no_plan toy_hasher 0 all_privs [Insert_Data [ex_datum]] (toy_world, fresh_store) = Inr (s, w', st') \<and>
    q \<in> set (quads st') \<and> read_quad (visible w' 0) q = Some (Iri ''ex:a1'', Iri ''ex:q1'', Iri ''ex:b1'')"
proof -
  obtain s w' st' where e: "execute_update no_plan toy_hasher 0 all_privs [Insert_Data [ex_datum]] (toy_world, fresh_store) = Inr (s, w', st')"
    unfolding ex_datum_def using default_insert_returns[OF fresh_default] by blast
  have k: "\<forall>x \<in> set [ex_datum]. \<forall>k \<in> triple_keys (fst x). no_collision toy_hasher toy_world (bdb (backends toy_world 0)) k"
    unfolding toy_db by (auto simp: ex_datum_def triple_keys_def no_collision_def toy_world_eval(1) fingerprint_def toy_hasher_def iri_key_def)
  from insert_data_asserts[OF toy_reachable k e] have
    "\<exists>q \<in> set (quads st'). read_quad (visible w' 0) q = Some (as_triple (fst ex_datum))" by auto
  then show ?thesis using e by (auto simp: ex_datum_def)
qed

theorem update_respects_locks_witness:
  "\<exists>s w' st'. execute_update no_plan toy_hasher 0 all_privs [Drop_Op (Target_Graph ''urn:b'') False, Clear_Op Target_Default False]
      (toy_world, locked_store) = Inr (s, w', st') \<and> locked st' 5 \<and> graph_quads st' 5 = graph_quads demo_store 5 \<and> length (quads st') = 3"
proof -
  let ?ops = "[Drop_Op (Target_Graph ''urn:b'') False, Clear_Op Target_Default False] :: nat update_op list"
  define m where "m = execute_update no_plan toy_hasher 0 all_privs ?ops (toy_world, locked_store)"
  have run: "(case execute_update no_plan toy_hasher 0 all_privs ?ops (w, locked_store) of
      Inl e \<Rightarrow> False | Inr x \<Rightarrow> length (quads (snd (snd x))) = 3)" for w by code_simp
  have "case m of Inl e \<Rightarrow> False | Inr x \<Rightarrow> length (quads (snd (snd x))) = 3" unfolding m_def by (rule run)
  then obtain s w' st' where e: "m = Inr (s, w', st')" "length (quads st') = 3" by (cases m) auto
  note e = e(1)[unfolded m_def] e(2)
  have ok: "store_ok locked_store" and l: "locked locked_store 5" by code_simp+
  have "graph_quads locked_store 5 = graph_quads demo_store 5" by code_simp
  then show ?thesis using update_respects_locks[OF ok e(1)] e l by auto
qed

definition delete_store :: store where
  "delete_store = fresh_store\<lparr>quads := [asserted_quad 0 (1, 1, 1), asserted_quad 0 (1, 1, 2)]\<rparr>"

definition old_datum :: "(string \<times> string \<times> ox_term) \<times> update_graph_name" where
  "old_datum = ((''ex:p'', ''ex:p'', NodeTerm (NamedNode ''ex:p'')), Default_Name)"

lemma toy_visible: "visible toy_world 0 = [\<lparr>row_id = 1, row_key = (1, ''ex:p'', None, None)\<rparr>]"
proof -
  have "inflight (backends toy_world 0) = []" by (simp add: toy_world_def xact_commit_def Let_def)
  then show ?thesis by (simp add: visible_def toy_db toy_world_eval(1))
qed

theorem delete_data_exact_witness:
  "\<exists>s st'. execute_update no_plan toy_hasher 0 all_privs [Delete_Data [old_datum]] (toy_world, delete_store) = Inr (s, toy_world, st') \<and>
    us_deleted s = 1 \<and> quads st' = [asserted_quad 0 (1, 1, 2)]"
proof -
  let ?r = "\<lparr>uw = toy_world, ust = delete_store, n_inserted = 0, n_deleted = 0, touched = [], captured = []\<rparr>"
  have d: "\<not> locked delete_store 0" "0 \<notin> set (trow delete_store)" using fresh_default by (simp_all add: delete_store_def)
  obtain r1 where r1: "delete_step (1, 1, 1) 0 ?r = Inr r1" using delete_step_default[of ?r "(1, 1, 1)"] d by auto
  have "delete_data 0 [old_datum] ?r = Inr r1"
    using r1 by (simp add: old_datum_def update_dict_def toy_visible lookup_iri_id_def row_with_def)
  then obtain s w' st' where e: "execute_update no_plan toy_hasher 0 all_privs [Delete_Data [old_datum]] (toy_world, delete_store) = Inr (s, w', st')"
    by (auto simp: execute_update_def)
  have s: "single_rows (visible toy_world 0)" by (simp add: single_rows_def toy_visible)
  have nb: "\<forall>x \<in> set [old_datum]. \<forall>l. snd (snd (fst x)) \<noteq> NodeTerm (BlankNode l)" by (simp add: old_datum_def)
  note x = delete_data_exact[OF s nb e]
  have "quads st' = [asserted_quad 0 (1, 1, 2)]"
    using x by (simp add: delete_store_def old_datum_def datum_says_def named_graph_def denotes_def toy_visible dict_row_of_def
        asserted_quad_def iri_key_def)
  then show ?thesis using e x by (simp add: delete_store_def)
qed

theorem swap_loses_edge_witness:
  "\<exists>r'. swap_rows toy_hasher 0 all_privs [(1, 2, 3), (3, 2, 1)]
     \<lparr>uw = toy_world, ust = fresh_store\<lparr>quads := [asserted_quad 0 (1, 2, 3), asserted_quad 0 (3, 2, 1)]\<rparr>, n_inserted = 0, n_deleted = 0,
      touched = [], captured = []\<rparr> = Inr r' \<and> quads (ust r') = [asserted_quad 0 (1, 2, 3)]"
  by (rule swap_loses_edge) (simp_all add: fresh_default)
end
