(* ===== verification/Staged_Text.thy ===== *)
theory Staged_Text
  imports Line_Ranges
begin

text \<open>
  The pure text and arithmetic of the staged loader (\<open>src/storage/staged/phases.rs\<close>): the memory
  budget derived from the host, the statements a worker sets its session up with, the gate in front
  of the one interpolated setting, and the COPY text format rows are written in. A reader for that
  format, as PostgreSQL documents it, is part of the proofs: the server's own reader is a parameter
  wherever a file is read back.
\<close>

section \<open>The memory budget\<close>

definition clamp :: "nat \<Rightarrow> nat \<Rightarrow> nat \<Rightarrow> nat" where
  "clamp lo hi x = min (max x lo) hi"

definition WORK_MEM_MIN_KB :: nat where "WORK_MEM_MIN_KB = 64 * 1024"
definition WORK_MEM_MAX_KB :: nat where "WORK_MEM_MAX_KB = 2 * 1024 * 1024"
definition MAINT_MIN_KB :: nat where "MAINT_MIN_KB = 256 * 1024"
definition MAINT_MAX_KB :: nat where "MAINT_MAX_KB = 16 * 1024 * 1024"

definition derive_work_mem_kb :: "nat option \<Rightarrow> nat \<Rightarrow> nat \<times> nat" where
  "derive_work_mem_kb mem_total nproc =
     (case mem_total of
        None \<Rightarrow> (WORK_MEM_MAX_KB, MAINT_MAX_KB)
      | Some bytes \<Rightarrow>
          (let nproc = max nproc 1; mem_total_kb = bytes div 1024
           in (clamp WORK_MEM_MIN_KB WORK_MEM_MAX_KB (mem_total_kb div (12 * nproc)),
               clamp MAINT_MIN_KB MAINT_MAX_KB (mem_total_kb div 8))))"

section \<open>The temporary tablespaces\<close>

text \<open>\<open>str::split\<close> on a character.\<close>

fun split_on :: "char \<Rightarrow> string \<Rightarrow> string list" where
  "split_on c [] = [[]]"
| "split_on c (x # s) =
     (if x = c then [] # split_on c s
      else (case split_on c s of [] \<Rightarrow> [[x]] | p # ps \<Rightarrow> (x # p) # ps))"

definition ascii_alpha :: "char \<Rightarrow> bool" where
  "ascii_alpha c \<longleftrightarrow> (CHR ''a'' \<le> c \<and> c \<le> CHR ''z'') \<or> (CHR ''A'' \<le> c \<and> c \<le> CHR ''Z'')"

definition ascii_digit :: "char \<Rightarrow> bool" where
  "ascii_digit c \<longleftrightarrow> CHR ''0'' \<le> c \<and> c \<le> CHR ''9''"

fun plain_identifier :: "string \<Rightarrow> bool" where
  "plain_identifier [] = False"
| "plain_identifier (c # s) =
     ((ascii_alpha c \<or> c = CHR ''_'') \<and> list_all (\<lambda>c. ascii_alpha c \<or> ascii_digit c \<or> c = CHR ''_'') s)"

definition is_safe_tablespace_list :: "string \<Rightarrow> bool" where
  "is_safe_tablespace_list s = list_all plain_identifier (map trim (split_on (CHR '','') s))"

definition QUOTE :: char where "QUOTE = CHR 0x27"

text \<open>A refused value is \<open>Inl\<close>, nothing to set is \<open>None\<close>.\<close>

definition temp_tablespaces_set_fragment :: "string \<Rightarrow> unit + string option" where
  "temp_tablespaces_set_fragment configured =
     (let v = trim configured in
      if v = [] then Inr None
      else if \<not> is_safe_tablespace_list v then Inl ()
      else Inr (Some (''SET LOCAL temp_tablespaces = '' @ [QUOTE] @ v @ [QUOTE] @ '';'')))"

section \<open>The join strategy\<close>

definition set_local :: "(string \<times> string) list \<Rightarrow> string" where
  "set_local kvs = join_str '' '' (map (\<lambda>(k, v). ''SET LOCAL '' @ k @ '' = '' @ v @ '';'') kvs)"

definition resolve_join_strategy_sql :: "string \<Rightarrow> string \<times> string" where
  "resolve_join_strategy_sql strategy =
     (let hash_sql = set_local [(''enable_nestloop'', ''off''), (''enable_mergejoin'', ''off''), (''enable_indexscan'', ''off''),
            (''enable_indexonlyscan'', ''off''), (''enable_bitmapscan'', ''off''), (''enable_hashjoin'', ''on''), (''hash_mem_multiplier'', ''2'')];
          index_sql = set_local [(''enable_hashjoin'', ''off''), (''enable_mergejoin'', ''off''), (''enable_nestloop'', ''on''),
            (''enable_indexscan'', ''on''), (''enable_indexonlyscan'', ''on''), (''enable_bitmapscan'', ''on''), (''hash_mem_multiplier'', ''2'')];
          auto_sql = set_local [(''hash_mem_multiplier'', ''2'')];
          s = trim strategy
      in if s = ''hash'' then (''hash'', hash_sql)
         else if s = ''index'' then (''index'', index_sql)
         else if s = ''auto'' then (''auto'', auto_sql)
         else (''hash'', hash_sql))"

text \<open>The one statement every phase starts with; a setting that fails the gate is left out.\<close>

definition session_sql :: "nat option \<Rightarrow> nat \<Rightarrow> string \<Rightarrow> string" where
  "session_sql mem_total nproc configured =
     (let nproc = max nproc 1; maint_workers = max (nproc div 2) 1;
          (work_mem_kb, maint_mem_kb) = derive_work_mem_kb mem_total nproc;
          temp_ts_sql = (case temp_tablespaces_set_fragment configured of Inr (Some frag) \<Rightarrow> frag | _ \<Rightarrow> [])
      in set_local [(''max_parallel_workers'', nat_str nproc), (''max_parallel_workers_per_gather'', nat_str nproc),
            (''max_parallel_maintenance_workers'', nat_str maint_workers), (''enable_parallel_hash'', ''on''),
            (''parallel_setup_cost'', ''0''), (''parallel_tuple_cost'', ''0''), (''min_parallel_table_scan_size'', ''0''),
            (''min_parallel_index_scan_size'', ''0''),
            (''work_mem'', [QUOTE] @ nat_str work_mem_kb @ ''kB'' @ [QUOTE]),
            (''maintenance_work_mem'', [QUOTE] @ nat_str maint_mem_kb @ ''kB'' @ [QUOTE])]
         @ '' '' @ temp_ts_sql)"

section \<open>COPY text\<close>

text \<open>A staged row: subject, predicate, object type, object value, datatype, language.\<close>

type_synonym staged_row = "string \<times> string \<times> int \<times> string \<times> string option \<times> string option"

definition TAB :: char where "TAB = CHR 0x09"

fun copy_escape :: "string \<Rightarrow> string" where
  "copy_escape [] = []"
| "copy_escape (c # s) =
     (if c = CHR 0x5C then [CHR 0x5C, CHR 0x5C]
      else if c = CHR 0x0A then [CHR 0x5C, CHR ''n'']
      else if c = CHR 0x0D then [CHR 0x5C, CHR ''r'']
      else if c = CHR 0x09 then [CHR 0x5C, CHR ''t'']
      else [c]) @ copy_escape s"

text \<open>Any other object type is a panic.\<close>

definition itoa_smallint :: "int \<Rightarrow> string option" where
  "itoa_smallint v = (if v = 1 then Some ''1'' else if v = 2 then Some ''2'' else if v = 3 then Some ''3'' else None)"

definition copy_null :: string where "copy_null = [CHR 0x5C, CHR ''N'']"

definition copy_opt :: "string option \<Rightarrow> string" where
  "copy_opt v = (case v of None \<Rightarrow> copy_null | Some s \<Rightarrow> copy_escape s)"

definition write_copy_row :: "staged_row \<Rightarrow> string option" where
  "write_copy_row row =
     (case row of (s, p, o_type, o_val, o_dt, o_lang) \<Rightarrow>
        map_option (\<lambda>ty. copy_escape s @ [TAB] @ copy_escape p @ [TAB] @ ty @ [TAB] @ copy_escape o_val @ [TAB] @
            copy_opt o_dt @ [TAB] @ copy_opt o_lang @ [LF])
          (itoa_smallint o_type))"

definition write_copy_rows :: "staged_row list \<Rightarrow> string option" where
  "write_copy_rows rows_in = map_option concat (those (map write_copy_row rows_in))"

section \<open>A reader of COPY text\<close>

text \<open>
  As documented: lines end in a newline and hold no raw carriage return, fields are separated by tabs, a
  field that is \<open>\N\<close> is NULL, and a backslash before \<open>n\<close>, \<open>r\<close>, \<open>t\<close> or a backslash
  stands for that character.
\<close>

definition unescape_char :: "char \<Rightarrow> char option" where
  "unescape_char c =
     (if c = CHR 0x5C then Some (CHR 0x5C) else if c = CHR ''n'' then Some (CHR 0x0A)
      else if c = CHR ''r'' then Some (CHR 0x0D) else if c = CHR ''t'' then Some (CHR 0x09) else None)"

fun copy_unescape :: "string \<Rightarrow> string option" where
  "copy_unescape [] = Some []"
| "copy_unescape [c] = (if c = CHR 0x5C then None else Some [c])"
| "copy_unescape (c # d # s) =
     (if c = CHR 0x5C
      then (case (unescape_char d, copy_unescape s) of (Some e, Some r) \<Rightarrow> Some (e # r) | _ \<Rightarrow> None)
      else map_option ((#) c) (copy_unescape (d # s)))"

definition read_field :: "string \<Rightarrow> string option option" where
  "read_field f = (if f = copy_null then Some None else map_option Some (copy_unescape f))"

definition read_type :: "string \<Rightarrow> int option" where
  "read_type f = (if f = ''1'' then Some 1 else if f = ''2'' then Some 2 else if f = ''3'' then Some 3 else None)"

definition read_copy_line :: "string \<Rightarrow> staged_row option" where
  "read_copy_line l =
     (if CHR 0x0D \<in> set l then None
      else
        (case map read_field (split_on TAB l) of
           [Some (Some s), Some (Some p), Some (Some ty), Some (Some v), Some dt, Some lang] \<Rightarrow>
             map_option (\<lambda>ty. (s, p, ty, v, dt, lang)) (read_type ty)
         | _ \<Rightarrow> None))"

definition read_copy_text :: "string \<Rightarrow> staged_row list option" where
  "read_copy_text text =
     those (map (\<lambda>l. if l \<noteq> [] \<and> last l = LF then read_copy_line (butlast l) else None) (split_lines text))"

lemma copy_escape_plain: "c \<in> set (copy_escape v) \<Longrightarrow> c \<noteq> TAB \<and> c \<noteq> LF \<and> c \<noteq> CHR 0x0D"
  by (induction v) (auto simp: TAB_def LF_def split: if_splits)

lemma copy_unescape_plain: "c \<noteq> CHR 0x5C \<Longrightarrow> copy_unescape (c # s) = map_option ((#) c) (copy_unescape s)"
  by (cases s) auto

lemma copy_unescape_escape: "copy_unescape (copy_escape v) = Some v"
  by (induction v) (auto simp: copy_unescape_plain unescape_char_def)

lemma copy_escape_not_null: "copy_escape v \<noteq> copy_null"
  by (cases v) (auto simp: copy_null_def split: if_splits)

lemma copy_null_plain: "c \<in> set copy_null \<Longrightarrow> c \<noteq> TAB \<and> c \<noteq> LF \<and> c \<noteq> CHR 0x0D"
  by (auto simp: copy_null_def TAB_def LF_def)

lemma copy_opt_plain: "c \<in> set (copy_opt v) \<Longrightarrow> c \<noteq> TAB \<and> c \<noteq> LF \<and> c \<noteq> CHR 0x0D"
  by (cases v) (auto simp: copy_opt_def dest: copy_escape_plain copy_null_plain)

lemma read_field_escape: "read_field (copy_escape v) = Some (Some v)"
  by (simp add: read_field_def copy_escape_not_null copy_unescape_escape)

lemma read_field_opt: "read_field (copy_opt v) = Some v"
  by (cases v) (simp_all add: copy_opt_def read_field_escape, simp add: read_field_def)

lemma split_on_last: "c \<notin> set a \<Longrightarrow> split_on c a = [a]"
  by (induction a) auto

lemma split_on_append: "c \<notin> set a \<Longrightarrow> split_on c (a @ c # s) = a # split_on c s"
  by (induction a) auto

lemma itoa_read: "itoa_smallint v = Some ty \<Longrightarrow> read_type ty = Some v \<and> read_field ty = Some (Some ty) \<and> TAB \<notin> set ty \<and> LF \<notin> set ty \<and> CHR 0x0D \<notin> set ty"
  by (auto simp: itoa_smallint_def read_type_def read_field_def copy_null_def TAB_def LF_def split: if_splits)

lemma write_copy_row_read:
  assumes "write_copy_row row = Some out"
  shows "\<exists>l. out = l @ [LF] \<and> LF \<notin> set l \<and> read_copy_line l = Some row"
proof -
  obtain s p o_type o_val o_dt o_lang where row: "row = (s, p, o_type, o_val, o_dt, o_lang)" by (metis prod_cases6)
  obtain ty where ty: "itoa_smallint o_type = Some ty"
    and out: "out = copy_escape s @ [TAB] @ copy_escape p @ [TAB] @ ty @ [TAB] @ copy_escape o_val @ [TAB] @
      copy_opt o_dt @ [TAB] @ copy_opt o_lang @ [LF]"
    using assms by (auto simp: write_copy_row_def row)
  let ?l = "copy_escape s @ TAB # copy_escape p @ TAB # ty @ TAB # copy_escape o_val @ TAB # copy_opt o_dt @ TAB # copy_opt o_lang"
  have nt: "TAB \<notin> set (copy_escape v)" "LF \<notin> set (copy_escape v)" "CHR 0x0D \<notin> set (copy_escape v)" for v using copy_escape_plain by blast+
  have no: "TAB \<notin> set (copy_opt v)" "LF \<notin> set (copy_opt v)" "CHR 0x0D \<notin> set (copy_opt v)" for v using copy_opt_plain by blast+
  note i = itoa_read[OF ty]
  have "split_on TAB ?l = [copy_escape s, copy_escape p, ty, copy_escape o_val, copy_opt o_dt, copy_opt o_lang]"
    using i by (simp add: split_on_append split_on_last nt no)
  moreover have "CHR 0x0D \<notin> set ?l" using nt no i by (auto simp: TAB_def)
  ultimately have "read_copy_line ?l = Some row"
    using i by (simp add: read_copy_line_def read_field_escape read_field_opt row)
  moreover have "LF \<notin> set ?l" using nt no i by (auto simp: TAB_def LF_def)
  ultimately show ?thesis by (intro exI[of _ ?l]) (simp add: out)
qed

lemma copy_rows_read:
  assumes "write_copy_rows rs = Some out"
  shows "read_copy_text out = Some rs"
  using assms
proof (induction rs arbitrary: out)
  case Nil
  then show ?case by (simp add: write_copy_rows_def read_copy_text_def)
next
  case (Cons r rs)
  from Cons.prems obtain a rest where a: "write_copy_row r = Some a" "write_copy_rows rs = Some rest" "out = a @ rest"
    by (auto simp: write_copy_rows_def split: option.splits)
  from write_copy_row_read[OF a(1)] obtain l where l: "a = l @ [LF]" "LF \<notin> set l" "read_copy_line l = Some r" by blast
  from Cons.IH[OF a(2)] show ?case by (simp add: a(3) l read_copy_text_def split_lines_line)
qed

text \<open>C31: A row written for COPY is read back byte for byte: whatever bytes its terms contain (tabs, newlines,
  carriage returns, backslashes, the text of a NULL), one line per row, NULL and the empty string kept apart, and the
  reader of the documented format gives the rows again.
\<close>

theorem copy_round_trip:
  assumes "write_copy_rows rs = Some out"
  shows "read_copy_text out = Some rs"
  using assms by (rule copy_rows_read)

definition copy_sample :: "staged_row list" where
  "copy_sample = [(''ex:s'', ''ex:p'', 3, [CHR 0x5C, CHR ''N'', TAB, CHR 0x0D, LF], None, Some ''en''), (''ex:s'', ''ex:p'', 3, [], Some [], None)]"

theorem copy_round_trip_witness: "Option.bind (write_copy_rows copy_sample) read_copy_text = Some copy_sample"
proof -
  have "write_copy_rows copy_sample \<noteq> None" by code_simp
  then obtain out where "write_copy_rows copy_sample = Some out" by blast
  with copy_round_trip[OF this] show ?thesis by simp
qed

section \<open>Bounds\<close>

text \<open>The memory a worker asks for is between the two limits, and unless it sits at the lower one, three
  hash joins over all its processes at twice that size fit in half of the host's memory.
\<close>

theorem work_mem_bounded:
  "let (work, maint) = derive_work_mem_kb mem nproc in
     WORK_MEM_MIN_KB \<le> work \<and> work \<le> WORK_MEM_MAX_KB \<and> MAINT_MIN_KB \<le> maint \<and> maint \<le> MAINT_MAX_KB \<and>
     (mem = None \<or> work = WORK_MEM_MIN_KB \<or> 3 * (2 * work * max nproc 1) * 1024 * 2 \<le> the mem)"
proof (cases mem)
  case (Some bytes)
  let ?n = "max nproc 1" and ?kb = "bytes div 1024"
  let ?w = "clamp WORK_MEM_MIN_KB WORK_MEM_MAX_KB (?kb div (12 * ?n))"
  have le: "WORK_MEM_MIN_KB \<le> WORK_MEM_MAX_KB" "MAINT_MIN_KB \<le> MAINT_MAX_KB"
    by (simp_all add: WORK_MEM_MIN_KB_def WORK_MEM_MAX_KB_def MAINT_MIN_KB_def MAINT_MAX_KB_def)
  have "3 * (2 * ?w * ?n) * 1024 * 2 \<le> bytes" if "?w \<noteq> WORK_MEM_MIN_KB"
  proof -
    have "?w \<le> ?kb div (12 * ?n)" using that le by (auto simp: clamp_def)
    then have "?w * (12 * ?n) \<le> (?kb div (12 * ?n)) * (12 * ?n)" by (rule mult_le_mono1)
    also have "\<dots> \<le> ?kb" by (rule div_times_less_eq_dividend)
    finally have "(?w * (12 * ?n)) * 1024 \<le> ?kb * 1024" by (rule mult_le_mono1)
    also have "\<dots> \<le> bytes" by (rule div_times_less_eq_dividend)
    finally show ?thesis by (simp add: algebra_simps)
  qed
  moreover have "lo \<le> hi \<Longrightarrow> lo \<le> clamp lo hi x \<and> clamp lo hi x \<le> hi" for lo hi x by (simp add: clamp_def)
  ultimately show ?thesis using Some le unfolding derive_work_mem_kb_def Let_def by fastforce
qed (simp add: derive_work_mem_kb_def WORK_MEM_MIN_KB_def WORK_MEM_MAX_KB_def MAINT_MIN_KB_def MAINT_MAX_KB_def)

section \<open>The tablespace setting cannot leave its literal\<close>

definition name_byte :: "char \<Rightarrow> bool" where
  "name_byte c \<longleftrightarrow> ascii_alpha c \<or> ascii_digit c \<or> c = CHR ''_'' \<or> c = CHR '','' \<or>
     (let b = of_char c :: nat in b = 32 \<or> (9 \<le> b \<and> b \<le> 13) \<or> 128 \<le> b)"

lemma ws_bytes_name: "c \<in> set (take (ws_bytes s) s) \<Longrightarrow> name_byte c"
proof -
  assume c: "c \<in> set (take (ws_bytes s) s)"
  have len: "ws_bytes s \<le> 3" by (auto simp: ws_bytes_def Let_def)
  obtain i where i: "i < ws_bytes s" "i < length s" "c = s ! i" using c by (auto simp: in_set_conv_nth)
  then have "of_char (s ! i) = (map of_char s :: nat list) ! i" by simp
  moreover have "i = 0 \<or> i = 1 \<or> i = 2" using i(1) len by auto
  ultimately have "(let b = of_char (s ! i) :: nat in b = 32 \<or> (9 \<le> b \<and> b \<le> 13) \<or> 128 \<le> b)"
    using i(1,2)
    by (cases s; cases "tl s"; cases "tl (tl s)")
      (auto simp: ws_bytes_def Let_def split: if_splits)
  then show ?thesis by (simp add: name_byte_def i(3))
qed

lemma trim_start_bytes: "c \<in> set s \<Longrightarrow> c \<in> set (trim_start s) \<or> name_byte c"
proof (induction s rule: trim_start.induct)
  case (1 s)
  show ?case
  proof (cases "s = [] \<or> ws_bytes s = 0")
    case True with 1(2) show ?thesis by (simp add: trim_start.simps)
  next
    case False
    have "c \<in> set (take (ws_bytes s) s) \<or> c \<in> set (drop (ws_bytes s) s)"
      using 1(2) by (metis append_take_drop_id Un_iff set_append)
    then show ?thesis using False 1(1) ws_bytes_name by (auto simp: trim_start.simps[of s])
  qed
qed

lemma blank_bytes: "blank s \<Longrightarrow> c \<in> set s \<Longrightarrow> name_byte c"
proof (induction s rule: blank.induct)
  case (1 s)
  then have "s \<noteq> []" "ws_bytes s \<noteq> 0" "blank (drop (ws_bytes s) s)" by (auto simp: blank.simps[of s] split: if_splits)
  moreover have "c \<in> set (take (ws_bytes s) s) \<or> c \<in> set (drop (ws_bytes s) s)"
    using 1(3) by (metis append_take_drop_id Un_iff set_append)
  ultimately show ?case using 1(1) ws_bytes_name by blast
qed

lemma trim_end_bytes: "c \<in> set s \<Longrightarrow> c \<in> set (trim_end s) \<or> name_byte c"
  by (induction s) (auto dest: blank_bytes)

lemma split_on_bytes: "x \<in> set s \<Longrightarrow> x = c \<or> (\<exists>p \<in> set (split_on c s). x \<in> set p)"
  by (induction c s rule: split_on.induct) (auto split: list.splits)

lemma plain_identifier_bytes: "plain_identifier p \<Longrightarrow> c \<in> set p \<Longrightarrow> name_byte c"
  by (cases p) (auto simp: name_byte_def list_all_iff)

lemma safe_list_bytes: "is_safe_tablespace_list v \<Longrightarrow> c \<in> set v \<Longrightarrow> name_byte c"
proof -
  assume v: "is_safe_tablespace_list v" and "c \<in> set v"
  then consider "c = CHR '',''" | p where "p \<in> set (split_on (CHR '','') v)" "c \<in> set p"
    using split_on_bytes[of c v "CHR '',''"] by blast
  then show ?thesis
  proof cases
    case 1 then show ?thesis by (simp add: name_byte_def)
  next
    case (2 p)
    then have "plain_identifier (trim p)" using v by (simp add: is_safe_tablespace_list_def list_all_iff)
    moreover have "c \<in> set (trim p) \<or> name_byte c"
      using 2(2) trim_start_bytes[of c p] trim_end_bytes[of c "trim_start p"] by (auto simp: trim_def)
    ultimately show ?thesis using plain_identifier_bytes by blast
  qed
qed

text \<open>The one setting that is pasted into a worker's session statement cannot leave its quotes: when a
  fragment is emitted at all, it is the fixed text around a value without a quote, a backslash or a
  semicolon; everything else is refused or left out.
\<close>

theorem tablespaces_stay_quoted:
  assumes "temp_tablespaces_set_fragment configured = Inr (Some frag)"
  shows "\<exists>v. frag = ''SET LOCAL temp_tablespaces = '' @ [QUOTE] @ v @ [QUOTE] @ '';'' \<and>
    QUOTE \<notin> set v \<and> CHR '';'' \<notin> set v \<and> CHR 0x5C \<notin> set v"
proof -
  let ?v = "trim configured"
  have f: "frag = ''SET LOCAL temp_tablespaces = '' @ [QUOTE] @ ?v @ [QUOTE] @ '';''" "is_safe_tablespace_list ?v"
    using assms by (auto simp: temp_tablespaces_set_fragment_def Let_def split: if_splits)
  have "\<not> name_byte QUOTE" "\<not> name_byte (CHR '';'')" "\<not> name_byte (CHR 0x5C)" by code_simp+
  then show ?thesis using f safe_list_bytes[OF f(2)] by blast
qed

theorem tablespaces_stay_quoted_witness:
  "\<exists>v. the (projr (temp_tablespaces_set_fragment '' fast, ts_b ''))
      = ''SET LOCAL temp_tablespaces = '' @ [QUOTE] @ v @ [QUOTE] @ '';'' \<and>
    QUOTE \<notin> set v \<and> CHR '';'' \<notin> set v \<and> CHR 0x5C \<notin> set v"
proof -
  have "temp_tablespaces_set_fragment '' fast, ts_b '' = Inr (Some (the (projr (temp_tablespaces_set_fragment '' fast, ts_b ''))))"
    by code_simp
  then show ?thesis by (rule tablespaces_stay_quoted)
qed

end
