(* ===== verification/Construct.thy ===== *)
theory Construct
  imports Sparql_Update Staged_Text
begin

text \<open>
  SPARQL CONSTRUCT (\<open>construct\<close> and its encoders in \<open>src/query/executor.rs\<close>) and its inverse
  \<open>put_construct_rows\<close> (\<open>src/storage/construct_ingest.rs\<close>). The parser of queries, and what the translated WHERE
  clause returns, are parameters: the record \<open>construct_plan\<close> says which variables have a column and of what
  shape, and holds the rows. JSON objects are association lists.
\<close>

section \<open>Structured terms\<close>

datatype json = JNull | JBool bool | JNum string | JStr string | JArr "json list" | JObj "(string \<times> json) list"

definition encode_iri_term :: "string \<Rightarrow> json" where
  "encode_iri_term iri = JObj [(''type'', JStr ''iri''), (''value'', JStr iri)]"

definition encode_bnode_term :: "string \<Rightarrow> json" where
  "encode_bnode_term label = JObj [(''type'', JStr ''bnode''), (''value'', JStr label)]"

definition encode_literal_term_parts :: "string \<Rightarrow> string option \<Rightarrow> string option \<Rightarrow> json" where
  "encode_literal_term_parts v dt lang =
     JObj ([(''type'', JStr ''literal''), (''value'', JStr v)] @
       (case lang of
          Some l \<Rightarrow> [(''language'', JStr l), (''datatype'', JStr rdf_langstring)]
        | None \<Rightarrow> [(''datatype'', JStr (case dt of Some d \<Rightarrow> d | None \<Rightarrow> xsd_string))]))"

definition encode_row :: "json \<Rightarrow> json \<Rightarrow> json \<Rightarrow> json" where
  "encode_row s p ob = JObj [(''subject'', s), (''predicate'', p), (''object'', ob)]"

text \<open>A computed value is typed by its looks.\<close>

definition xsd :: "string \<Rightarrow> string" where
  "xsd n = ''http://www.w3.org/2001/XMLSchema#'' @ n"

definition numeric_byte :: "char \<Rightarrow> bool" where
  "numeric_byte c \<longleftrightarrow> ascii_digit c \<or> c \<in> {CHR ''.'', CHR ''e'', CHR ''E'', CHR ''+'', CHR ''-''}"

definition bind_lexical_datatype :: "string \<Rightarrow> string" where
  "bind_lexical_datatype lx =
     (let t = trim lx;
          body = (if t \<noteq> [] \<and> hd t \<in> {CHR ''+'', CHR ''-''} then tl t else t) in
      if t = ''true'' \<or> t = ''false'' then xsd ''boolean''
      else if body \<noteq> [] \<and> list_all ascii_digit body then xsd ''integer''
      else if body \<noteq> [] \<and> list_ex ascii_digit body \<and> list_all numeric_byte body \<and>
              list_ex (\<lambda>c. c \<in> {CHR ''.'', CHR ''e'', CHR ''E''}) body then xsd ''decimal''
      else xsd ''string'')"

section \<open>Terms of the dictionary\<close>

record resolved_term =
  rt_type :: int
  rt_lexical :: string
  rt_datatype :: "string option"
  rt_language :: "string option"

type_synonym term_cache = "int \<Rightarrow> resolved_term option"

definition resolve_dict_term :: "dict_row list \<Rightarrow> int \<Rightarrow> term_cache \<Rightarrow> (resolved_term \<times> term_cache) res" where
  "resolve_dict_term d i tc =
     (case tc i of
        Some t \<Rightarrow> Inr (t, tc)
      | None \<Rightarrow>
          (case dict_row_of d i of
             None \<Rightarrow> Inl Internal_Error
           | Some (ty, v, dt, lang) \<Rightarrow>
               (let t = \<lparr>rt_type = ty, rt_lexical = v, rt_datatype = lexical_of d dt, rt_language = lang\<rparr>
                in Inr (t, tc(i \<mapsto> t)))))"

definition encode_dict_term :: "resolved_term \<Rightarrow> json res" where
  "encode_dict_term t =
     (if rt_type t = 1 then Inr (encode_iri_term (rt_lexical t))
      else if rt_type t = 2 then Inr (encode_bnode_term (rt_lexical t))
      else if rt_type t = 3 then Inr (encode_literal_term_parts (rt_lexical t) (rt_datatype t) (rt_language t))
      else Inl Internal_Error)"

section \<open>Templates\<close>

record triple_pattern =
  tp_subject :: term_pattern
  tp_predicate :: pred_pattern
  tp_object :: term_pattern

datatype term_slot = Slot_Iri string | Slot_Literal string "string option" "string option" | Slot_Var string | Slot_Blank string

record triple_slots =
  slot_s :: term_slot
  slot_p :: term_slot
  slot_o :: term_slot

fun classify_subject :: "term_pattern \<Rightarrow> term_slot res" where
  "classify_subject (Node n) = Inr (Slot_Iri n)"
| "classify_subject (Var v) = Inr (Slot_Var v)"
| "classify_subject (Lit_Pattern v l dt) = Inl Internal_Error"
| "classify_subject (Blank_Pattern l) = Inr (Slot_Blank l)"

fun classify_predicate :: "pred_pattern \<Rightarrow> term_slot" where
  "classify_predicate (PNode n) = Slot_Iri n"
| "classify_predicate (PVar v) = Slot_Var v"

fun classify_object :: "term_pattern \<Rightarrow> term_slot" where
  "classify_object (Node n) = Slot_Iri n"
| "classify_object (Var v) = Slot_Var v"
| "classify_object (Lit_Pattern v (Some l) dt) = Slot_Literal v None (Some l)"
| "classify_object (Lit_Pattern v None dt) = Slot_Literal v (Some dt) None"
| "classify_object (Blank_Pattern l) = Slot_Blank l"

definition classify_template_triple_slots :: "triple_pattern \<Rightarrow> triple_slots res" where
  "classify_template_triple_slots tp =
     res_bind (classify_subject (tp_subject tp)) (\<lambda>s.
       Inr \<lparr>slot_s = s, slot_p = classify_predicate (tp_predicate tp), slot_o = classify_object (tp_object tp)\<rparr>)"

fun classify_template :: "triple_pattern list \<Rightarrow> triple_slots list res" where
  "classify_template [] = Inr []"
| "classify_template (tp # tps) =
     res_bind (classify_template_triple_slots tp) (\<lambda>s. res_bind (classify_template tps) (\<lambda>ss. Inr (s # ss)))"

definition positions :: "triple_slots \<Rightarrow> term_slot list" where
  "positions s = [slot_s s, slot_p s, slot_o s]"

fun slot_vars :: "term_slot \<Rightarrow> string list" where
  "slot_vars (Slot_Var v) = [v]" | "slot_vars _ = []"

definition collect_construct_template_vars :: "triple_slots list \<Rightarrow> string list" where
  "collect_construct_template_vars slots = fold push_var (concat (map slot_vars (concat (map positions slots)))) []"

fun is_blank_slot :: "term_slot \<Rightarrow> bool" where
  "is_blank_slot (Slot_Blank l) = True" | "is_blank_slot _ = False"

definition template_has_bnode :: "triple_slots list \<Rightarrow> bool" where
  "template_has_bnode slots = list_ex (\<lambda>s. list_ex is_blank_slot (positions s)) slots"

fun is_blank_pattern :: "term_pattern \<Rightarrow> bool" where
  "is_blank_pattern (Blank_Pattern l) = True" | "is_blank_pattern _ = False"

definition template_has_blank_node :: "triple_pattern list \<Rightarrow> bool" where
  "template_has_blank_node = list_ex (\<lambda>tp. is_blank_pattern (tp_subject tp) \<or> is_blank_pattern (tp_object tp))"

section \<open>Fresh labels\<close>

record minter =
  solution_idx :: nat
  m_counter :: nat
  m_map :: "string \<Rightarrow> string option"

definition new_minter :: "nat \<Rightarrow> minter" where
  "new_minter i = \<lparr>solution_idx = i, m_counter = 0, m_map = Map.empty\<rparr>"

definition minted_label :: "nat \<Rightarrow> nat \<Rightarrow> string" where
  "minted_label i n = ''b'' @ nat_str i @ ''_'' @ nat_str n"

definition mint :: "string \<Rightarrow> minter \<Rightarrow> string \<times> minter" where
  "mint label m =
     (case m_map m label of
        Some l \<Rightarrow> (l, m)
      | None \<Rightarrow>
          (let n = m_counter m + 1; l = minted_label (solution_idx m) n
           in (l, m\<lparr>m_counter := n, m_map := (m_map m)(label \<mapsto> l)\<rparr>)))"

section \<open>One solution\<close>

datatype bound_value = Dict_Id int | Graph_Iri string | Bind_Lexical string | Unbound
datatype proj_shape = Shape_Id | Shape_Graph | Shape_Bind
datatype sql_value = Null | Int8 int | Text string

fun column_value :: "proj_shape \<Rightarrow> sql_value \<Rightarrow> bound_value" where
  "column_value Shape_Id (Int8 i) = Dict_Id i"
| "column_value Shape_Graph (Text t) = Graph_Iri t"
| "column_value Shape_Bind (Text t) = Bind_Lexical t"
| "column_value shape v = Unbound"

type_synonym solution = "string \<Rightarrow> bound_value option"

fun construct_position_unbound :: "solution \<Rightarrow> term_slot \<Rightarrow> bool" where
  "construct_position_unbound bd (Slot_Var v) \<longleftrightarrow> bd v = None \<or> bd v = Some Unbound"
| "construct_position_unbound bd _ \<longleftrightarrow> False"

definition construct_slot_has_unbound :: "solution \<Rightarrow> triple_slots \<Rightarrow> bool" where
  "construct_slot_has_unbound bd s \<longleftrightarrow> list_ex (construct_position_unbound bd) (positions s)"

type_synonym encoder_state = "term_cache \<times> minter"

fun encode_template_position ::
    "dict_row list \<Rightarrow> solution \<Rightarrow> term_slot \<Rightarrow> encoder_state \<Rightarrow> (json \<times> encoder_state) res" where
  "encode_template_position d bd (Slot_Iri iri) st = Inr (encode_iri_term iri, st)"
| "encode_template_position d bd (Slot_Literal v dt lang) st = Inr (encode_literal_term_parts v dt lang, st)"
| "encode_template_position d bd (Slot_Var v) (tc, m) =
     (case bd v of
        Some (Dict_Id i) \<Rightarrow> res_bind (resolve_dict_term d i tc) (\<lambda>(t, tc). res_bind (encode_dict_term t) (\<lambda>j. Inr (j, tc, m)))
      | Some (Graph_Iri iri) \<Rightarrow> Inr (encode_iri_term iri, tc, m)
      | Some (Bind_Lexical lx) \<Rightarrow> Inr (encode_literal_term_parts lx (Some (bind_lexical_datatype lx)) None, tc, m)
      | _ \<Rightarrow> Inl Internal_Error)"
| "encode_template_position d bd (Slot_Blank l) (tc, m) = (let (fresh, m) = mint l m in Inr (encode_bnode_term fresh, tc, m))"

definition encode_template_triple_for_solution ::
    "dict_row list \<Rightarrow> solution \<Rightarrow> triple_slots \<Rightarrow> encoder_state \<Rightarrow> (json \<times> encoder_state) res" where
  "encode_template_triple_for_solution d bd slots st =
     res_bind (encode_template_position d bd (slot_s slots) st) (\<lambda>(s, st).
       res_bind (encode_template_position d bd (slot_p slots) st) (\<lambda>(p, st).
         res_bind (encode_template_position d bd (slot_o slots) st) (\<lambda>(ob, st). Inr (encode_row s p ob, st))))"

fun encode_solution :: "dict_row list \<Rightarrow> solution \<Rightarrow> triple_slots list \<Rightarrow> encoder_state \<Rightarrow> (json list \<times> encoder_state) res" where
  "encode_solution d bd [] st = Inr ([], st)"
| "encode_solution d bd (s # slots) st =
     (if construct_slot_has_unbound bd s then encode_solution d bd slots st
      else res_bind (encode_template_triple_for_solution d bd s st) (\<lambda>(j, st).
             res_bind (encode_solution d bd slots st) (\<lambda>(js, st). Inr (j # js, st))))"

text \<open>The solutions are numbered from 1; each has a minter of its own.\<close>

fun encode_solutions :: "dict_row list \<Rightarrow> triple_slots list \<Rightarrow> solution list \<Rightarrow> nat \<Rightarrow> term_cache \<Rightarrow> json list res" where
  "encode_solutions d slots [] i tc = Inr []"
| "encode_solutions d slots (bd # bds) i tc =
     res_bind (encode_solution d bd slots (tc, new_minter i)) (\<lambda>(js, st).
       res_bind (encode_solutions d slots bds (i + 1) (fst st)) (\<lambda>rest. Inr (js @ rest)))"

section \<open>The query\<close>

datatype 'p algebra =
    Bgp 'p
  | Graph_Named string "'p algebra"
  | Project "string list" "'p algebra"
  | Slice_Of "'p algebra"
  | Distinct "'p algebra"
  | Reduced "'p algebra"
  | Order_By "'p algebra"
  | Filter_Of "'p algebra"
  | Extend "'p algebra" string "string option"   \<comment> \<open>the constant IRI, if the expression is one\<close>
  | Group "'p algebra"
  | Other_Pattern 'p

fun reject_construct_modifiers :: "'p algebra \<Rightarrow> unit res" where
  "reject_construct_modifiers (Distinct p) = Inl Internal_Error"
| "reject_construct_modifiers (Reduced p) = Inl Internal_Error"
| "reject_construct_modifiers (Order_By p) = Inl Internal_Error"
| "reject_construct_modifiers (Group p) = Inl Internal_Error"
| "reject_construct_modifiers (Project vs p) = reject_construct_modifiers p"
| "reject_construct_modifiers (Slice_Of p) = reject_construct_modifiers p"
| "reject_construct_modifiers _ = Inr ()"

fun pattern_is_pure_bgp :: "'p algebra \<Rightarrow> bool" where
  "pattern_is_pure_bgp (Bgp p) = True"
| "pattern_is_pure_bgp (Project vs p) = pattern_is_pure_bgp p"
| "pattern_is_pure_bgp (Slice_Of p) = pattern_is_pure_bgp p"
| "pattern_is_pure_bgp _ = False"

text \<open>The probe of the query text for the form without a template; a position is the rest of the text.\<close>

definition ascii_whitespace :: "char \<Rightarrow> bool" where
  "ascii_whitespace c \<longleftrightarrow> c \<in> {CHR '' '', CHR 0x09, CHR 0x0A, CHR 0x0C, CHR 0x0D}"

fun skip_line :: "string \<Rightarrow> string" where
  "skip_line [] = []"
| "skip_line (c # s) = (if c = CHR 0x0A then c # s else skip_line s)"

lemma skip_line_length: "length (skip_line s) \<le> length s"
  by (induction s) auto

function skip_ws_and_comments :: "string \<Rightarrow> string" where
  "skip_ws_and_comments s =
     (let s = dropWhile ascii_whitespace s in
      if s \<noteq> [] \<and> hd s = CHR ''#'' then skip_ws_and_comments (skip_line s) else s)"
  by pat_completeness auto
termination
proof (relation "measure length")
  fix s s' assume s': "s' = dropWhile ascii_whitespace s" "s' \<noteq> [] \<and> hd s' = CHR ''#''"
  obtain c r where "s' = c # r" "c = CHR ''#''" using s'(2) by (cases s') auto
  then have "length (skip_line s') < length s'" using skip_line_length[of r] by simp
  then show "(skip_line s', s) \<in> measure length" using s'(1) length_dropWhile_le[of ascii_whitespace s] by simp
qed simp

declare skip_ws_and_comments.simps [simp del]

fun skip_to_byte :: "char \<Rightarrow> string \<Rightarrow> string" where
  "skip_to_byte c [] = []"
| "skip_to_byte c (x # s) = (if x = c then x # s else skip_to_byte c s)"

definition ascii_upper :: "char \<Rightarrow> char" where
  "ascii_upper c = (if CHR ''a'' \<le> c \<and> c \<le> CHR ''z'' then char_of (of_char c - 32 :: nat) else c)"

definition match_keyword_ci :: "string \<Rightarrow> string \<Rightarrow> bool" where
  "match_keyword_ci s keyword \<longleftrightarrow>
     length keyword \<le> length s \<and> map ascii_upper (take (length keyword) s) = map ascii_upper keyword \<and>
     (case drop (length keyword) s of [] \<Rightarrow> True
      | c # _ \<Rightarrow> \<not> (ascii_alpha c \<or> ascii_digit c \<or> c = CHR ''_''))"

lemma skip_ws_length: "length (skip_ws_and_comments s) \<le> length s"
proof (induction s rule: skip_ws_and_comments.induct)
  case (1 s)
  let ?s = "dropWhile ascii_whitespace s"
  have l: "length ?s \<le> length s" by (rule length_dropWhile_le)
  show ?case
  proof (cases "?s \<noteq> [] \<and> hd ?s = CHR ''#''")
    case True
    then show ?thesis
      using 1[OF refl True] skip_line_length[of ?s] l by (subst skip_ws_and_comments.simps) (simp only: Let_def if_True True, simp)
  next
    case False
    then have "skip_ws_and_comments s = ?s" by (subst skip_ws_and_comments.simps) (simp only: Let_def if_False)
    then show ?thesis using l by simp
  qed
qed

lemma skip_to_byte_length: "length (skip_to_byte c s) \<le> length s"
  by (induction s) auto

text \<open>One declaration: to the end of its IRI.\<close>

definition skip_iri :: "string \<Rightarrow> string" where
  "skip_iri s = skip_ws_and_comments (tl (skip_to_byte (CHR ''>'') s))"

lemma skip_iri_length: "s \<noteq> [] \<Longrightarrow> length (skip_iri s) < length s"
proof -
  assume "s \<noteq> []"
  have "length (skip_iri s) \<le> length (tl (skip_to_byte (CHR ''>'') s))" unfolding skip_iri_def by (rule skip_ws_length)
  moreover have "length (tl (skip_to_byte (CHR ''>'') s)) < length s"
    using skip_to_byte_length[of "CHR ''>''" s] \<open>s \<noteq> []\<close> by (cases "skip_to_byte (CHR ''>'') s") auto
  ultimately show ?thesis by simp
qed

lemma match_keyword_nonempty: "match_keyword_ci s (k # ks) \<Longrightarrow> s \<noteq> []"
  by (auto simp: match_keyword_ci_def)

function skip_prologue :: "string \<Rightarrow> string" where
  "skip_prologue s =
     (if match_keyword_ci s ''BASE'' \<or> match_keyword_ci s ''PREFIX'' then skip_prologue (skip_iri s) else s)"
  by pat_completeness auto
termination
  by (relation "measure length") (auto intro: skip_iri_length dest: match_keyword_nonempty)

declare skip_prologue.simps [simp del]

text \<open>One dataset clause after its keyword.\<close>

definition skip_from :: "string \<Rightarrow> string" where
  "skip_from s =
     (let s = skip_ws_and_comments (drop 4 s);
          s = (if match_keyword_ci s ''NAMED'' then skip_ws_and_comments (drop 5 s) else s)
      in if s \<noteq> [] \<and> hd s = CHR ''<'' then skip_iri s
         else skip_ws_and_comments (dropWhile (\<lambda>c. \<not> ascii_whitespace c) s))"

lemma skip_from_length: "match_keyword_ci s ''FROM'' \<Longrightarrow> length (skip_from s) < length s"
proof -
  assume m: "match_keyword_ci s ''FROM''"
  define s1 where "s1 = skip_ws_and_comments (drop 4 s)"
  define s2 where "s2 = (if match_keyword_ci s1 ''NAMED'' then skip_ws_and_comments (drop 5 s1) else s1)"
  have "4 \<le> length s" using m by (simp add: match_keyword_ci_def)
  then have 1: "length s1 < length s" using skip_ws_length[of "drop 4 s"] by (simp add: s1_def)
  have "length (skip_ws_and_comments (drop 5 s1)) \<le> length s1" using skip_ws_length by (rule order_trans) simp
  then have 2: "length s2 \<le> length s1" by (simp add: s2_def)
  have 3: "length (skip_ws_and_comments (dropWhile (\<lambda>c. \<not> ascii_whitespace c) s2)) \<le> length s2"
    using skip_ws_length length_dropWhile_le order_trans by blast
  have "skip_from s = (if s2 \<noteq> [] \<and> hd s2 = CHR ''<'' then skip_iri s2
         else skip_ws_and_comments (dropWhile (\<lambda>c. \<not> ascii_whitespace c) s2))"
    by (simp add: skip_from_def Let_def s1_def[symmetric] s2_def[symmetric])
  then have "length (skip_from s) \<le> length s2" using 3 skip_iri_length[of s2] by auto
  then show ?thesis using 1 2 by simp
qed

function skip_dataset :: "string \<Rightarrow> string" where
  "skip_dataset s = (if match_keyword_ci s ''FROM'' then skip_dataset (skip_from s) else s)"
  by pat_completeness auto
termination
  by (relation "measure length") (auto intro: skip_from_length)

declare skip_dataset.simps [simp del]

definition detect_construct_where_shorthand :: "string \<Rightarrow> bool" where
  "detect_construct_where_shorthand query =
     (let s = skip_prologue (skip_ws_and_comments query) in
      match_keyword_ci s ''CONSTRUCT'' \<and>
      (let s = skip_dataset (skip_ws_and_comments (drop 9 s)) in
       match_keyword_ci s ''WHERE'' \<and>
       (let s = skip_ws_and_comments (drop 5 s) in s \<noteq> [] \<and> hd s = CHR ''{'')))"

section \<open>CONSTRUCT\<close>

record construct_plan =
  cp_empty :: bool                           \<comment> \<open>no triple pattern and no union branch\<close>
  cp_projected :: "string list"
  cp_binds :: "string list"
  cp_translatable :: "string \<Rightarrow> bool"
  cp_scope_var :: "string \<Rightarrow> bool"
  cp_anchored :: "string \<Rightarrow> bool"
  cp_rows :: "(string \<times> proj_shape) list \<Rightarrow> sql_value list list"
  cp_count :: nat

datatype 'p query_form = Construct_Form "triple_pattern list" "'p algebra" | Describe_Form "'p algebra" | Other_Form

definition column_shape :: "construct_plan \<Rightarrow> string \<Rightarrow> proj_shape res" where
  "column_shape ps v =
     (if v \<in> set (cp_binds ps) then if cp_translatable ps v then Inr Shape_Bind else Inl Internal_Error
      else if cp_scope_var ps v then Inr Shape_Graph
      else if cp_anchored ps v then Inr Shape_Id
      else Inl Invalid_Parameter_Value)"

fun column_shapes :: "construct_plan \<Rightarrow> string list \<Rightarrow> (string \<times> proj_shape) list res" where
  "column_shapes ps [] = Inr []"
| "column_shapes ps (v # vs) = res_bind (column_shape ps v) (\<lambda>s. res_bind (column_shapes ps vs) (\<lambda>cs. Inr ((v, s) # cs)))"

definition row_solution :: "(string \<times> proj_shape) list \<Rightarrow> sql_value list \<Rightarrow> solution" where
  "row_solution cols row = map_of (map (\<lambda>((v, shape), x). (v, column_value shape x)) (zip cols row))"

definition execute_construct_per_solution_path ::
    "dict_row list \<Rightarrow> construct_plan \<Rightarrow> triple_slots list \<Rightarrow> string list \<Rightarrow> json list res" where
  "execute_construct_per_solution_path d ps slots vars =
     res_bind (column_shapes ps vars) (\<lambda>cols.
       encode_solutions d slots (map (row_solution cols) (cp_rows ps cols)) 1 Map.empty)"

fun encode_constant_position :: "term_slot \<Rightarrow> json res" where
  "encode_constant_position (Slot_Iri iri) = Inr (encode_iri_term iri)"
| "encode_constant_position (Slot_Literal v dt lang) = Inr (encode_literal_term_parts v dt lang)"
| "encode_constant_position _ = Inl Internal_Error"

definition encode_constant_slots :: "triple_slots \<Rightarrow> json res" where
  "encode_constant_slots s =
     res_bind (encode_constant_position (slot_s s)) (\<lambda>js.
       res_bind (encode_constant_position (slot_p s)) (\<lambda>jp.
         res_bind (encode_constant_position (slot_o s)) (\<lambda>jo. Inr (encode_row js jp jo))))"

fun encode_constants :: "triple_slots list \<Rightarrow> json list res" where
  "encode_constants [] = Inr []"
| "encode_constants (s # ss) = res_bind (encode_constant_slots s) (\<lambda>j. res_bind (encode_constants ss) (\<lambda>js. Inr (j # js)))"

definition expand_template_per_solution :: "json list \<Rightarrow> nat \<Rightarrow> json list" where
  "expand_template_per_solution rws n = concat (replicate n rws)"

text \<open>The first of equal rows stays. Rows are compared as serialized text, which determines them.\<close>

definition dedup_construct_rows :: "json list \<Rightarrow> json list" where
  "dedup_construct_rows rws = fold (\<lambda>j out. if j \<in> set out then out else out @ [j]) rws []"

definition construct ::
    "(string \<Rightarrow> 'p query_form option) \<Rightarrow> ('p algebra \<Rightarrow> construct_plan res) \<Rightarrow> dict_row list \<Rightarrow> string \<Rightarrow> json list res" where
  "construct parse plan d query =
     (case parse query of
        Some (Construct_Form template pattern) \<Rightarrow>
          res_bind (reject_construct_modifiers pattern) (\<lambda>_.
            if detect_construct_where_shorthand query \<and> (\<not> pattern_is_pure_bgp pattern \<or> template_has_blank_node template)
            then Inl Internal_Error
            else if template = [] then Inl Invalid_Parameter_Value
            else res_bind (classify_template template) (\<lambda>slots.
              res_bind (plan pattern) (\<lambda>ps.
                (let vars = collect_construct_template_vars slots in
                 if cp_empty ps then Inl Invalid_Parameter_Value
                 else if \<not> list_all (\<lambda>v. v \<in> set (cp_projected ps) \<or> v \<in> set (cp_binds ps)) vars then Inl Invalid_Parameter_Value
                 else if vars = [] \<and> \<not> template_has_bnode slots
                 then res_bind (encode_constants slots) (\<lambda>js. Inr (dedup_construct_rows (expand_template_per_solution js (cp_count ps))))
                 else res_bind (execute_construct_per_solution_path d ps slots vars) (\<lambda>js. Inr (dedup_construct_rows js))))))
      | _ \<Rightarrow> Inl Invalid_Parameter_Value)"

section \<open>Terms and labels\<close>

fun encode_term :: "cterm \<Rightarrow> json" where
  "encode_term (Iri i) = encode_iri_term i"
| "encode_term (BNode l) = encode_bnode_term l"
| "encode_term (Lit v dt lang) = encode_literal_term_parts v dt lang"

definition encode_triple :: "triple \<Rightarrow> json" where
  "encode_triple t = encode_row (encode_term (fst t)) (encode_term (fst (snd t))) (encode_term (snd (snd t)))"

text \<open>The term a position stands for in a solution, blank nodes being named by \<open>lab\<close>.\<close>

fun slot_term :: "dict_row list \<Rightarrow> solution \<Rightarrow> (string \<Rightarrow> string) \<Rightarrow> term_slot \<Rightarrow> cterm option" where
  "slot_term d bd lab (Slot_Iri i) = Some (Iri i)"
| "slot_term d bd lab (Slot_Literal v dt lang) = Some (Lit v dt lang)"
| "slot_term d bd lab (Slot_Blank l) = Some (BNode (lab l))"
| "slot_term d bd lab (Slot_Var v) =
     (case bd v of
        Some (Dict_Id i) \<Rightarrow> Option.bind (dict_row_of d i) (read_object d)
      | Some (Graph_Iri iri) \<Rightarrow> Some (Iri iri)
      | Some (Bind_Lexical lx) \<Rightarrow> Some (Lit lx (Some (bind_lexical_datatype lx)) None)
      | _ \<Rightarrow> None)"

definition slots_triple :: "dict_row list \<Rightarrow> solution \<Rightarrow> (string \<Rightarrow> string) \<Rightarrow> triple_slots \<Rightarrow> triple option" where
  "slots_triple d bd lab s =
     Option.bind (slot_term d bd lab (slot_s s)) (\<lambda>a. Option.bind (slot_term d bd lab (slot_p s)) (\<lambda>b.
       Option.bind (slot_term d bd lab (slot_o s)) (\<lambda>c. Some (a, b, c))))"

text \<open>The cache holds what the dictionary says.\<close>

definition says_term :: "dict_row list \<Rightarrow> int \<Rightarrow> resolved_term \<Rightarrow> bool" where
  "says_term d i t \<longleftrightarrow> (\<exists>dt. dict_row_of d i = Some (rt_type t, rt_lexical t, dt, rt_language t) \<and> rt_datatype t = lexical_of d dt)"

definition cache_says :: "dict_row list \<Rightarrow> term_cache \<Rightarrow> bool" where
  "cache_says d tc \<longleftrightarrow> (\<forall>i t. tc i = Some t \<longrightarrow> says_term d i t)"

lemma resolve_says:
  assumes "cache_says d tc" "resolve_dict_term d i tc = Inr (t, tc')"
  shows "cache_says d tc'" "says_term d i t"
  using assms by (auto simp: resolve_dict_term_def cache_says_def says_term_def Let_def split: option.splits prod.splits if_splits)

lemma encode_dict_term_says:
  "says_term d i t \<Longrightarrow> encode_dict_term t = Inr j \<Longrightarrow>
     \<exists>x. Option.bind (dict_row_of d i) (read_object d) = Some x \<and> j = encode_term x"
  by (auto simp: says_term_def encode_dict_term_def read_object_def split: if_splits)

lemma digits_inj:
  "\<forall>c \<in> set a. c \<noteq> x \<Longrightarrow> \<forall>c \<in> set b. c \<noteq> x \<Longrightarrow> a @ x # r = b @ x # r' \<Longrightarrow> a = b \<and> r = r'"
  by (induction a arbitrary: b) (case_tac b; auto)+

lemma nat_str_no_underscore: "\<forall>c \<in> set (nat_str m). c \<noteq> CHR ''_''"
  using nat_str_digits[where n = m and c = "CHR ''_''"] by auto

lemma minted_label_inj: "minted_label i n = minted_label j k \<Longrightarrow> i = j \<and> n = k"
proof -
  assume "minted_label i n = minted_label j k"
  then have "nat_str i @ CHR ''_'' # nat_str n = nat_str j @ CHR ''_'' # nat_str k" by (simp add: minted_label_def)
  then have "nat_str i = nat_str j \<and> nat_str n = nat_str k" using digits_inj[OF nat_str_no_underscore nat_str_no_underscore] by blast
  then show ?thesis using nat_str_inj by blast
qed

definition minter_ok :: "nat \<Rightarrow> minter \<Rightarrow> bool" where
  "minter_ok i m \<longleftrightarrow> solution_idx m = i \<and> inj_on (m_map m) (dom (m_map m)) \<and>
     (\<forall>l x. m_map m l = Some x \<longrightarrow> (\<exists>n \<le> m_counter m. x = minted_label i n))"

lemma new_minter_ok: "minter_ok i (new_minter i)"
  by (simp add: minter_ok_def new_minter_def)

lemma mint_ok:
  assumes "minter_ok i m" "mint l m = (x, m')"
  shows "minter_ok i m' \<and> m_map m \<subseteq>\<^sub>m m_map m' \<and> m_map m' l = Some x"
proof (cases "m_map m l")
  case (Some y)
  then show ?thesis using assms by (simp add: mint_def)
next
  case None
  have m': "m' = m\<lparr>m_counter := m_counter m + 1, m_map := (m_map m)(l \<mapsto> x)\<rparr>" "x = minted_label i (m_counter m + 1)"
    using assms None by (auto simp: mint_def Let_def minter_ok_def)
  have new: "m_map m k \<noteq> Some x" for k
    using assms(1) minted_label_inj m'(2) by (fastforce simp: minter_ok_def)
  have "inj_on ((m_map m)(l \<mapsto> x)) (insert l (dom (m_map m)))"
    using assms(1) new None by (auto simp: minter_ok_def inj_on_def)
  moreover have "\<exists>n \<le> m_counter m + 1. y = minted_label i n" if km: "m_map m k = Some y" for k y
  proof -
    obtain n where "n \<le> m_counter m" "y = minted_label i n" using assms(1) km unfolding minter_ok_def by blast
    then show ?thesis by (intro exI[of _ n]) simp
  qed
  ultimately show ?thesis using assms(1) None m' by (auto simp: minter_ok_def map_le_def)
qed

text \<open>\<open>lab\<close> names the labels minted so far as the minter does.\<close>

definition agrees :: "(string \<Rightarrow> string) \<Rightarrow> minter \<Rightarrow> bool" where
  "agrees lab m \<longleftrightarrow> (\<forall>l x. m_map m l = Some x \<longrightarrow> lab l = x)"

lemma agrees_le: "m_map m \<subseteq>\<^sub>m m_map m' \<Longrightarrow> agrees lab m' \<Longrightarrow> agrees lab m"
  by (auto simp: agrees_def map_le_def dom_def)

definition encoder_ok :: "dict_row list \<Rightarrow> nat \<Rightarrow> encoder_state \<Rightarrow> bool" where
  "encoder_ok d i st \<longleftrightarrow> cache_says d (fst st) \<and> minter_ok i (snd st)"

definition grows :: "encoder_state \<Rightarrow> encoder_state \<Rightarrow> bool" where
  "grows st st' \<longleftrightarrow> m_map (snd st) \<subseteq>\<^sub>m m_map (snd st')"

lemma grows_refl [simp]: "grows st st"
  by (simp add: grows_def)

lemma grows_trans: "grows a b \<Longrightarrow> grows b c \<Longrightarrow> grows a c"
  using map_le_trans by (auto simp: grows_def)

lemma encode_position_ok:
  assumes "encoder_ok d i st" "encode_template_position d bd s st = Inr (j, st')"
  shows "encoder_ok d i st' \<and> grows st st' \<and> (\<forall>lab. agrees lab (snd st') \<longrightarrow> (\<exists>t. slot_term d bd lab s = Some t \<and> j = encode_term t))"
proof (cases s)
  case (Slot_Var v)
  obtain tc m where st: "st = (tc, m)" by (cases st)
  have ok: "cache_says d tc" "minter_ok i m" using assms(1) by (simp_all add: encoder_ok_def st)
  show ?thesis
  proof (cases "\<exists>k. bd v = Some (Dict_Id k)")
    case True
    then obtain k where k: "bd v = Some (Dict_Id k)" by blast
    then obtain t tc' where r: "resolve_dict_term d k tc = Inr (t, tc')" "encode_dict_term t = Inr j" "st' = (tc', m)"
      using assms(2) by (auto simp: Slot_Var st)
    note s = resolve_says[OF ok(1) r(1)]
    obtain x where "Option.bind (dict_row_of d k) (read_object d) = Some x" "j = encode_term x"
      using encode_dict_term_says[OF s(2) r(2)] by blast
    then show ?thesis using s(1) ok(2) k by (simp add: Slot_Var encoder_ok_def grows_def r(3) st)
  next
    case False
    then show ?thesis
      using assms ok by (auto simp: Slot_Var st split: option.splits bound_value.splits)
  qed
next
  case (Slot_Blank l)
  obtain tc m where st: "st = (tc, m)" by (cases st)
  obtain x m' where m: "mint l m = (x, m')" by fastforce
  have r: "st' = (tc, m')" "j = encode_bnode_term x" using assms(2) m by (simp_all add: Slot_Blank st)
  have "minter_ok i m' \<and> m_map m \<subseteq>\<^sub>m m_map m' \<and> m_map m' l = Some x"
    using mint_ok[OF _ m, of i] assms(1) by (simp add: encoder_ok_def st)
  then show ?thesis using assms(1) r by (auto simp: Slot_Blank encoder_ok_def grows_def agrees_def st)
qed (use assms in auto)

lemma encode_triple_ok:
  assumes "encoder_ok d i st" "encode_template_triple_for_solution d bd s st = Inr (j, st')"
  shows "encoder_ok d i st' \<and> grows st st' \<and>
    (\<forall>lab. agrees lab (snd st') \<longrightarrow> (\<exists>t. slots_triple d bd lab s = Some t \<and> j = encode_triple t))"
proof -
  obtain js st1 jp st2 jo where e: "encode_template_position d bd (slot_s s) st = Inr (js, st1)"
      "encode_template_position d bd (slot_p s) st1 = Inr (jp, st2)" "encode_template_position d bd (slot_o s) st2 = Inr (jo, st')"
      "j = encode_row js jp jo"
    using assms(2) by (auto simp: encode_template_triple_for_solution_def)
  have 1: "encoder_ok d i st1" "grows st st1"
      "agrees lab (snd st1) \<Longrightarrow> \<exists>t. slot_term d bd lab (slot_s s) = Some t \<and> js = encode_term t" for lab
    using encode_position_ok[OF assms(1) e(1)] by blast+
  have 2: "encoder_ok d i st2" "grows st1 st2"
      "agrees lab (snd st2) \<Longrightarrow> \<exists>t. slot_term d bd lab (slot_p s) = Some t \<and> jp = encode_term t" for lab
    using encode_position_ok[OF 1(1) e(2)] by blast+
  have 3: "encoder_ok d i st'" "grows st2 st'"
      "agrees lab (snd st') \<Longrightarrow> \<exists>t. slot_term d bd lab (slot_o s) = Some t \<and> jo = encode_term t" for lab
    using encode_position_ok[OF 2(1) e(3)] by blast+
  have "\<exists>t. slots_triple d bd lab s = Some t \<and> j = encode_triple t" if a: "agrees lab (snd st')" for lab
  proof -
    have a2: "agrees lab (snd st2)" using agrees_le a 3(2) by (auto simp: grows_def)
    have a1: "agrees lab (snd st1)" using agrees_le a2 2(2) by (auto simp: grows_def)
    show ?thesis using 1(3)[OF a1] 2(3)[OF a2] 3(3)[OF a] e(4) by (auto simp: slots_triple_def encode_triple_def)
  qed
  then show ?thesis using 1 2 3 grows_trans by blast
qed

lemma encode_solution_ok:
  "encoder_ok d i st \<Longrightarrow> encode_solution d bd slots st = Inr (js, st') \<Longrightarrow>
     encoder_ok d i st' \<and> grows st st' \<and>
     (\<forall>lab. agrees lab (snd st') \<longrightarrow>
        list_all2 (\<lambda>s j. \<exists>t. slots_triple d bd lab s = Some t \<and> j = encode_triple t)
          (filter (\<lambda>s. \<not> construct_slot_has_unbound bd s) slots) js)"
proof (induction slots arbitrary: st js)
  case (Cons s slots)
  show ?case
  proof (cases "construct_slot_has_unbound bd s")
    case False
    then obtain j st1 rest where e: "encode_template_triple_for_solution d bd s st = Inr (j, st1)"
        "encode_solution d bd slots st1 = Inr (rest, st')" "js = j # rest"
      using Cons.prems(2) by auto
    note t = encode_triple_ok[OF Cons.prems(1) e(1)]
    note r = Cons.IH[OF conjunct1[OF t] e(2)]
    have "agrees lab (snd st') \<Longrightarrow> agrees lab (snd st1)" for lab using agrees_le r by (auto simp: grows_def)
    moreover have "grows st st'" using t r grows_trans[of st st1 st'] by blast
    ultimately show ?thesis using t r False e(3) by auto
  qed (use Cons in simp)
qed simp

text \<open>One naming of the template's labels for each solution, no two the same.\<close>

definition label_of :: "nat \<Rightarrow> minter \<Rightarrow> string \<Rightarrow> string" where
  "label_of i m l = (case m_map m l of Some x \<Rightarrow> x | None \<Rightarrow> ''x'' @ nat_str i @ ''_'' @ l)"

lemma label_of_agrees: "agrees (label_of i m) m"
  by (simp add: agrees_def label_of_def)

lemma unminted_inj: "''x'' @ nat_str i @ ''_'' @ l = ''x'' @ nat_str j @ ''_'' @ k \<Longrightarrow> i = j \<and> l = k"
proof -
  assume "''x'' @ nat_str i @ ''_'' @ l = ''x'' @ nat_str j @ ''_'' @ k"
  then have "nat_str i @ CHR ''_'' # l = nat_str j @ CHR ''_'' # k" by simp
  then have "nat_str i = nat_str j \<and> l = k" using digits_inj[OF nat_str_no_underscore nat_str_no_underscore] by blast
  then show ?thesis using nat_str_inj by blast
qed

lemma label_of_inj:
  assumes "minter_ok i m" "minter_ok j m'" "i = j \<Longrightarrow> m = m'" "label_of i m l = label_of j m' k"
  shows "i = j \<and> l = k"
proof -
  have minted: "\<exists>n. x = minted_label i n" if "minter_ok i m" "m_map m l = Some x" for i m l x
    using that by (auto simp: minter_ok_def)
  have ne: "minted_label i n \<noteq> ''x'' @ r" for i n r by (simp add: minted_label_def)
  show ?thesis
  proof (cases "m_map m l")
    case None
    have n: "m_map m' k = None"
    proof (cases "m_map m' k")
      case (Some a)
      then obtain n where "a = minted_label j n" using minted[OF assms(2)] by blast
      with Some have "label_of j m' k = minted_label j n" by (simp add: label_of_def)
      moreover have "label_of i m l = ''x'' @ nat_str i @ ''_'' @ l" using None by (simp add: label_of_def)
      ultimately show ?thesis using assms(4) ne by metis
    qed
    show ?thesis by (rule unminted_inj) (use assms(4) None n in \<open>simp add: label_of_def\<close>)
  next
    case (Some x)
    then obtain n where x: "x = minted_label i n" using minted[OF assms(1)] by blast
    have "m_map m' k = Some x"
      using assms(4) ne[of i n] Some by (cases "m_map m' k") (auto simp: label_of_def x)
    moreover from this obtain n' where "x = minted_label j n'" using minted[OF assms(2)] by blast
    ultimately have "i = j" "m_map m' k = m_map m l" using x minted_label_inj Some by auto
    then show ?thesis using assms(1,3) Some by (auto simp: minter_ok_def inj_on_def dom_def)
  qed
qed


text \<open>What an answer is: the template's triples, for the solutions in which their variables are bound.\<close>

definition template_answer :: "dict_row list \<Rightarrow> triple_slots list \<Rightarrow> solution list \<Rightarrow> (nat \<Rightarrow> string \<Rightarrow> string) \<Rightarrow> json set" where
  "template_answer d slots bds lab =
     {encode_triple t | k s t. k < length bds \<and> s \<in> set slots \<and> \<not> construct_slot_has_unbound (bds ! k) s \<and>
        slots_triple d (bds ! k) (lab k) s = Some t}"

lemma list_all2_image: "list_all2 (\<lambda>x y. \<exists>t. f x = Some t \<and> y = g t) xs ys \<Longrightarrow> set ys = {g t | x t. x \<in> set xs \<and> f x = Some t}"
  by (induction rule: list_all2_induct) auto

lemma template_answer_Cons:
  "template_answer d slots (bd # bds) lab =
     {encode_triple t | s t. s \<in> set slots \<and> \<not> construct_slot_has_unbound bd s \<and> slots_triple d bd (lab 0) s = Some t} \<union>
     template_answer d slots bds (\<lambda>k. lab (Suc k))" (is "_ = ?A \<union> ?B")
proof (rule set_eqI, rule iffI)
  fix j assume "j \<in> template_answer d slots (bd # bds) lab"
  then obtain k s t where k: "k < Suc (length bds)" "s \<in> set slots" "\<not> construct_slot_has_unbound ((bd # bds) ! k) s"
      "slots_triple d ((bd # bds) ! k) (lab k) s = Some t" "j = encode_triple t" by (auto simp: template_answer_def)
  show "j \<in> ?A \<union> ?B"
  proof (cases k)
    case 0
    then have "j \<in> ?A" using k by (intro CollectI exI[of _ s] exI[of _ t]) simp
    then show ?thesis ..
  next
    case (Suc n)
    then have "j \<in> ?B" using k unfolding template_answer_def by (intro CollectI exI[of _ n] exI[of _ s] exI[of _ t]) simp
    then show ?thesis ..
  qed
next
  fix j assume "j \<in> ?A \<union> ?B"
  then show "j \<in> template_answer d slots (bd # bds) lab"
  proof
    assume "j \<in> ?A"
    then obtain s t where "s \<in> set slots" "\<not> construct_slot_has_unbound bd s" "slots_triple d bd (lab 0) s = Some t" "j = encode_triple t"
      by auto
    then show ?thesis unfolding template_answer_def by (intro CollectI exI[of _ 0] exI[of _ s] exI[of _ t]) simp
  next
    assume "j \<in> ?B"
    then obtain k s t where "k < length bds" "s \<in> set slots" "\<not> construct_slot_has_unbound (bds ! k) s"
        "slots_triple d (bds ! k) (lab (Suc k)) s = Some t" "j = encode_triple t" unfolding template_answer_def by auto
    then show ?thesis unfolding template_answer_def by (intro CollectI exI[of _ "Suc k"] exI[of _ s] exI[of _ t]) simp
  qed
qed

lemma encode_solutions_ok:
  "cache_says d tc \<Longrightarrow> encode_solutions d slots bds i tc = Inr js \<Longrightarrow>
     \<exists>ms. (\<forall>k < length bds. minter_ok (i + k) (ms k)) \<and>
       set js = template_answer d slots bds (\<lambda>k. label_of (i + k) (ms k))"
proof (induction bds arbitrary: i tc js)
  case Nil
  then show ?case by (simp add: template_answer_def)
next
  case (Cons bd bds)
  obtain js1 tc1 m rest where e: "encode_solution d bd slots (tc, new_minter i) = Inr (js1, tc1, m)"
      "encode_solutions d slots bds (i + 1) tc1 = Inr rest" "js = js1 @ rest"
    using Cons.prems(2) by (auto simp: case_prod_beta')
  have "encoder_ok d i (tc, new_minter i)" using Cons.prems(1) new_minter_ok by (simp add: encoder_ok_def)
  note h = encode_solution_ok[OF this e(1)]
  have "cache_says d tc1" using h by (simp add: encoder_ok_def)
  then obtain ms where ms: "\<And>k. k < length bds \<Longrightarrow> minter_ok (i + 1 + k) (ms k)"
      "set rest = template_answer d slots bds (\<lambda>k. label_of (i + 1 + k) (ms k))"
    using Cons.IH[OF _ e(2)] by blast
  define ms' where "ms' = case_nat m ms"
  have first: "list_all2 (\<lambda>s j. \<exists>t. slots_triple d bd (label_of i m) s = Some t \<and> j = encode_triple t)
      (filter (\<lambda>s. \<not> construct_slot_has_unbound bd s) slots) js1" using h label_of_agrees by simp
  have js1: "set js1 = {encode_triple t | s t. s \<in> set slots \<and> \<not> construct_slot_has_unbound bd s \<and> slots_triple d bd (label_of i m) s = Some t}"
    using list_all2_image[OF first] by auto
  show ?case
  proof (intro exI[of _ ms'] conjI)
    show "\<forall>k < length (bd # bds). minter_ok (i + k) (ms' k)"
      using h ms(1) by (auto simp: ms'_def encoder_ok_def split: nat.split)
    show "set js = template_answer d slots (bd # bds) (\<lambda>k. label_of (i + k) (ms' k))"
      unfolding template_answer_Cons e(3) set_append js1 ms(2) by (simp add: ms'_def)
  qed
qed

lemma inj_labels:
  assumes "\<And>k. k < n \<Longrightarrow> minter_ok (1 + k) (ms k)"
  shows "\<exists>lab. inj (\<lambda>(k, l). lab k l) \<and> (\<forall>k < n. lab k = label_of (1 + k) (ms k))"
proof -
  define ms' where "ms' = (\<lambda>k. if k < n then ms k else new_minter (1 + k))"
  have ok: "minter_ok (1 + k) (ms' k)" for k using assms new_minter_ok by (simp add: ms'_def)
  have "inj (\<lambda>(k, l). label_of (1 + k) (ms' k) l)"
  proof (rule injI, clarify)
    fix k l k' l' assume "label_of (1 + k) (ms' k) l = label_of (1 + k') (ms' k') l'"
    from label_of_inj[OF ok ok _ this] show "k = k' \<and> l = l'" by simp
  qed
  then show ?thesis by (intro exI[of _ "\<lambda>k. label_of (1 + k) (ms' k)"]) (simp add: ms'_def)
qed

lemma dedup_set_distinct: "set (dedup_construct_rows js) = set js \<and> distinct (dedup_construct_rows js)"
proof -
  have "set (fold (\<lambda>j out. if j \<in> set out then out else out @ [j]) js out) = set out \<union> set js \<and>
      (distinct out \<longrightarrow> distinct (fold (\<lambda>j out. if j \<in> set out then out else out @ [j]) js out))" for out
    by (induction js arbitrary: out) auto
  then show ?thesis by (simp add: dedup_construct_rows_def)
qed

lemma per_solution_answer:
  assumes "execute_construct_per_solution_path d ps slots vars = Inr js" "column_shapes ps vars = Inr cols"
  shows "\<exists>lab. inj (\<lambda>(k, l). lab k l) \<and> set js = template_answer d slots (map (row_solution cols) (cp_rows ps cols)) lab"
proof -
  let ?bds = "map (row_solution cols) (cp_rows ps cols)"
  have "encode_solutions d slots ?bds 1 Map.empty = Inr js"
    using assms by (simp add: execute_construct_per_solution_path_def)
  from encode_solutions_ok[OF _ this] obtain ms where ms: "\<forall>k < length ?bds. minter_ok (1 + k) (ms k)"
      "set js = template_answer d slots ?bds (\<lambda>k. label_of (1 + k) (ms k))" by (auto simp: cache_says_def)
  obtain lab where lab: "inj (\<lambda>(k, l). lab k l)" "\<forall>k < length ?bds. lab k = label_of (1 + k) (ms k)"
    using inj_labels[of "length ?bds" ms] ms(1) by blast
  have "template_answer d slots ?bds (\<lambda>k. label_of (1 + k) (ms k)) = template_answer d slots ?bds lab"
    unfolding template_answer_def using lab(2) by (intro Collect_cong) metis
  then show ?thesis using lab(1) ms(2) by blast
qed

lemma constant_answer:
  assumes "encode_constants slots = Inr js"
  shows "set (expand_template_per_solution js (length bds)) = template_answer d slots bds lab"
proof -
  have pos: "encode_constant_position s = Inr j \<Longrightarrow>
      \<exists>t. slot_term d bd lab' s = Some t \<and> j = encode_term t \<and> \<not> construct_position_unbound bd s" for s j bd lab'
    by (cases s) auto
  have slots: "\<exists>t. slots_triple d bd lab' s = Some t \<and> j = encode_triple t \<and> \<not> construct_slot_has_unbound bd s"
    if "encode_constant_slots s = Inr j" for s j bd lab'
    using that pos[of "slot_s s" _ bd lab'] pos[of "slot_p s" _ bd lab'] pos[of "slot_o s" _ bd lab']
    by (fastforce simp: encode_constant_slots_def slots_triple_def encode_triple_def construct_slot_has_unbound_def positions_def)
  have all: "list_all2 (\<lambda>s j. encode_constant_slots s = Inr j) slots js"
    using assms by (induction slots arbitrary: js) auto
  have one: "{encode_triple t | s t. s \<in> set slots \<and> \<not> construct_slot_has_unbound bd s \<and> slots_triple d bd lab' s = Some t} = set js" for bd lab'
  proof -
    define f where "f = (\<lambda>s. if construct_slot_has_unbound bd s then None else slots_triple d bd lab' s)"
    have "list_all2 (\<lambda>s j. \<exists>t. f s = Some t \<and> j = encode_triple t) slots js"
    proof (rule list_all2_mono[OF all])
      fix s j assume "encode_constant_slots s = Inr j"
      from slots[OF this, of bd lab'] show "\<exists>t. f s = Some t \<and> j = encode_triple t" unfolding f_def by (elim exE conjE) simp
    qed
    from list_all2_image[OF this] show ?thesis by (simp add: f_def if_split_eq1 conj_ac cong: conj_cong) 
  qed
  show ?thesis
  proof (induction bds arbitrary: lab)
    case (Cons bd bds)
    have "set (expand_template_per_solution js (length (bd # bds))) = set js \<union> set (expand_template_per_solution js (length bds))"
      by (simp add: expand_template_per_solution_def)
    then show ?case unfolding template_answer_Cons one using Cons.IH[of "\<lambda>k. lab (Suc k)"] by simp
  qed (simp add: template_answer_def expand_template_per_solution_def)
qed

section \<open>Taking an answer back in\<close>

datatype cell_position = Subject_Cell | Predicate_Cell | Object_Cell

type_synonym bnode_ids = "string \<Rightarrow> int option"

definition str_field :: "string \<Rightarrow> (string \<times> json) list \<Rightarrow> string option" where
  "str_field k kvs = (case map_of kvs k of Some (JStr s) \<Rightarrow> Some s | _ \<Rightarrow> None)"

definition decode_literal ::
    "hasher \<Rightarrow> nat \<Rightarrow> (string \<times> json) list \<Rightarrow> string \<Rightarrow> world \<Rightarrow> int \<times> world" where
  "decode_literal hasher b kvs v w =
     (case str_field ''language'' kvs of
        Some l \<Rightarrow> put_term_full hasher b (3, v, None, Some l) w
      | None \<Rightarrow>
          (let dt = (case str_field ''datatype'' kvs of Some dt \<Rightarrow> dt | None \<Rightarrow> xsd_string);
               (e, w) = put_term_full hasher b (iri_key dt) w
           in put_term_full hasher b (3, v, Some e, None) w))"

definition decode_term_cell ::
    "hasher \<Rightarrow> nat \<Rightarrow> cell_position \<Rightarrow> json \<Rightarrow> bnode_ids \<times> world \<Rightarrow> (int \<times> bnode_ids \<times> world) res" where
  "decode_term_cell hasher b pos cell mw =
     (case cell of
        JObj kvs \<Rightarrow>
          (case (str_field ''type'' kvs, str_field ''value'' kvs) of
             (Some ty, Some v) \<Rightarrow>
               if ty = ''iri'' then (let (i, w) = put_term_full hasher b (iri_key v) (snd mw) in Inr (i, fst mw, w))
               else if ty = ''bnode'' then
                 (case fst mw v of
                    Some i \<Rightarrow> Inr (i, mw)
                  | None \<Rightarrow> (let (i, w) = put_term_full hasher b (2, v, None, None) (snd mw) in Inr (i, (fst mw)(v \<mapsto> i), w)))
               else if ty = ''literal'' then
                 (if pos \<noteq> Object_Cell then Inl Internal_Error
                  else (let (i, w) = decode_literal hasher b kvs v (snd mw) in Inr (i, fst mw, w)))
               else Inl Invalid_Parameter_Value
           | _ \<Rightarrow> Inl Internal_Error)
      | _ \<Rightarrow> Inl Invalid_Parameter_Value)"

definition insert_construct_quad :: "privs \<Rightarrow> int \<times> int \<times> int \<Rightarrow> int \<Rightarrow> store \<Rightarrow> (bool \<times> store) res" where
  "insert_construct_quad u ids g st =
     res_bind (if g \<noteq> 0 then res_bind (add_graph u g st) (\<lambda>(_, st). Inr st) else Inr st) (\<lambda>st.
       if list_ex (same_spog ids g) (quads st) then Inr (False, st)
       else res_bind (insert_quads [asserted_quad g ids] st) (\<lambda>st. Inr (True, st)))"

definition ingest_one ::
    "hasher \<Rightarrow> nat \<Rightarrow> privs \<Rightarrow> int \<Rightarrow> json \<Rightarrow> bnode_ids \<times> world \<Rightarrow> store \<Rightarrow> (int \<times> (bnode_ids \<times> world) \<times> store) res" where
  "ingest_one hasher b u g row mw st =
     (case row of
        JObj kvs \<Rightarrow>
          (case (map_of kvs ''subject'', map_of kvs ''predicate'', map_of kvs ''object'') of
             (Some s, Some p, Some ob) \<Rightarrow>
               res_bind (decode_term_cell hasher b Subject_Cell s mw) (\<lambda>(si, mw).
                 res_bind (decode_term_cell hasher b Predicate_Cell p mw) (\<lambda>(pi, mw).
                   res_bind (decode_term_cell hasher b Object_Cell ob mw) (\<lambda>(oi, mw).
                     res_bind (insert_construct_quad u (si, pi, oi) g st) (\<lambda>(fresh, st).
                       Inr (if fresh then 1 else 0, mw, st)))))
           | _ \<Rightarrow> Inl Internal_Error)
      | _ \<Rightarrow> Inl Invalid_Parameter_Value)"

definition put_construct_row ::
    "hasher \<Rightarrow> nat \<Rightarrow> privs \<Rightarrow> json \<Rightarrow> int \<Rightarrow> world \<times> store \<Rightarrow> (int \<times> world \<times> store) res" where
  "put_construct_row hasher b u row g ws =
     (if g < 0 then Inl Invalid_Parameter_Value
      else res_bind (require_unlocked g (snd ws)) (\<lambda>_.
        res_bind (ingest_one hasher b u g row (Map.empty, fst ws) (snd ws)) (\<lambda>(n, mw, st). Inr (n, snd mw, st))))"

fun ingest_rows ::
    "hasher \<Rightarrow> nat \<Rightarrow> privs \<Rightarrow> int \<Rightarrow> json option list \<Rightarrow> bnode_ids \<times> world \<Rightarrow> store \<Rightarrow> int \<Rightarrow> (int \<times> world \<times> store) res" where
  "ingest_rows hasher b u g [] mw st n = Inr (n, snd mw, st)"
| "ingest_rows hasher b u g (None # rws) mw st n = Inl Internal_Error"
| "ingest_rows hasher b u g (Some row # rws) mw st n =
     res_bind (ingest_one hasher b u g row mw st) (\<lambda>(k, mw, st). ingest_rows hasher b u g rws mw st (n + k))"

definition put_construct_rows ::
    "hasher \<Rightarrow> nat \<Rightarrow> privs \<Rightarrow> json option list option \<Rightarrow> int \<Rightarrow> world \<times> store \<Rightarrow> (int \<times> world \<times> store) res" where
  "put_construct_rows hasher b u rws g ws =
     (if g < 0 then Inl Invalid_Parameter_Value
      else res_bind (require_unlocked g (snd ws)) (\<lambda>_.
        case rws of None \<Rightarrow> Inr (0, ws) | Some rws \<Rightarrow> ingest_rows hasher b u g rws (Map.empty, fst ws) (snd ws) 0))"

section \<open>Decoding undoes encoding\<close>

definition ingest_ok ::
    "hasher \<Rightarrow> nat \<Rightarrow> (32 word \<Rightarrow> dict_row list) \<Rightarrow> 32 word \<Rightarrow> bnode_ids \<times> world \<Rightarrow> bool" where
  "ingest_ok hasher b R db mw \<longleftrightarrow> dict_ok hasher b R db (snd mw) \<and>
     (\<forall>l i. fst mw l = Some i \<longrightarrow> dict_row_of (visible (snd mw) b) i = Some (2, l, None, None))"

lemma ingest_ok_put:
  assumes "ingest_ok hasher b R db (m, w)" "key_clear hasher R db k" "put_term_full hasher b k w = (i, w')"
  shows "ingest_ok hasher b R db (m, w')" "dict_row_of (visible w' b) i = Some k" "\<exists>new. visible w' b = visible w b @ new"
proof -
  have ok: "dict_ok hasher b R db w" using assms(1) by (simp add: ingest_ok_def)
  show "dict_row_of (visible w' b) i = Some k" by (rule put.intern_reads[OF ok assms(2,3)])
  show g: "\<exists>new. visible w' b = visible w b @ new" by (rule put.intern_grows[OF ok assms(2,3)])
  show "ingest_ok hasher b R db (m, w')"
    using put.intern_ok[OF ok assms(2,3)] g assms(1) by (auto simp: ingest_ok_def dict_row_of_append)
qed

lemma cell_fields [simp]:
  "str_field ''type'' ((''type'', JStr t) # kvs) = Some t" "str_field ''value'' ((''type'', j) # (''value'', JStr v) # kvs) = Some v"
  by (simp_all add: str_field_def)

lemma decode_node:
  assumes "ingest_ok hasher b R db mw" "key_clear hasher R db (node_key n)"
  shows "\<exists>i mw'. decode_term_cell hasher b pos (encode_term (as_node n)) mw = Inr (i, mw') \<and> ingest_ok hasher b R db mw' \<and>
    dict_row_of (visible (snd mw') b) i = Some (node_key n) \<and> (\<exists>new. visible (snd mw') b = visible (snd mw) b @ new)"
proof (cases n)
  case (NamedNode iri)
  obtain m w where mw: "mw = (m, w)" by (cases mw)
  obtain i w' where p: "put_term_full hasher b (iri_key iri) w = (i, w')" by fastforce
  have k: "key_clear hasher R db (iri_key iri)" using assms(2) by (simp add: NamedNode iri_key_def)
  note o = ingest_ok_put[OF assms(1)[unfolded mw] k p]
  show ?thesis using o p
    by (intro exI[of _ i] exI[of _ "(m, w')"]) (simp add: NamedNode mw encode_iri_term_def decode_term_cell_def iri_key_def)
next
  case (BlankNode l)
  obtain m w where mw: "mw = (m, w)" by (cases mw)
  show ?thesis
  proof (cases "m l")
    case None
    obtain i w' where p: "put_term_full hasher b (2, l, None, None) w = (i, w')" by fastforce
    have k: "key_clear hasher R db (2, l, None, None)" using assms(2) by (simp add: BlankNode)
    note o = ingest_ok_put[OF assms(1)[unfolded mw] k p]
    have "ingest_ok hasher b R db (m(l \<mapsto> i), w')" using o(1,2) by (simp add: ingest_ok_def)
    then show ?thesis using o(2,3) p None
      by (intro exI[of _ i] exI[of _ "(m(l \<mapsto> i), w')"]) (simp add: BlankNode mw encode_bnode_term_def decode_term_cell_def)
  next
    case (Some i)
    then have "dict_row_of (visible w b) i = Some (2, l, None, None)" using assms(1) by (simp add: ingest_ok_def mw)
    then show ?thesis using Some assms(1)
      by (intro exI[of _ i] exI[of _ mw]) (simp add: BlankNode mw encode_bnode_term_def decode_term_cell_def)
  qed
qed

lemma decode_object:
  assumes "ingest_ok hasher b R db mw" "\<forall>k \<in> term_keys ob. key_clear hasher R db k"
  shows "\<exists>i mw'. decode_term_cell hasher b Object_Cell (encode_term (as_term ob)) mw = Inr (i, mw') \<and> ingest_ok hasher b R db mw' \<and>
    term_denoted (visible (snd mw') b) i ob \<and> (\<exists>new. visible (snd mw') b = visible (snd mw) b @ new)"
proof (cases ob)
  case (NodeTerm n)
  then show ?thesis using decode_node[OF assms(1), of n Object_Cell] assms(2) by simp
next
  case (Literal v lang dt)
  obtain m w where mw: "mw = (m, w)" by (cases mw)
  show ?thesis
  proof (cases lang)
    case (Some l)
    obtain i w' where p: "put_term_full hasher b (3, v, None, Some l) w = (i, w')" by fastforce
    have k: "key_clear hasher R db (3, v, None, Some l)" using assms(2) by (simp add: Literal Some)
    note o = ingest_ok_put[OF assms(1)[unfolded mw] k p]
    show ?thesis using o p
      by (intro exI[of _ i] exI[of _ "(m, w')"])
        (simp add: Literal Some mw encode_literal_term_parts_def decode_term_cell_def decode_literal_def str_field_def)
  next
    case None
    obtain e w1 where e: "put_term_full hasher b (iri_key dt) w = (e, w1)" by fastforce
    obtain i w' where p: "put_term_full hasher b (3, v, Some e, None) w1 = (i, w')" by fastforce
    have k: "key_clear hasher R db (iri_key dt)" "key_clear hasher R db (3, v, Some e, None)"
      using assms(2) by (auto simp: Literal None)
    note o1 = ingest_ok_put[OF assms(1)[unfolded mw] k(1) e]
    note o2 = ingest_ok_put[OF o1(1) k(2) p]
    obtain n1 n2 where n: "visible w1 b = visible w b @ n1" "visible w' b = visible w1 b @ n2" using o1(3) o2(3) by blast
    have "dict_row_of (visible w' b) e = Some (iri_key dt)" unfolding n(2) using o1(2) by (rule dict_row_of_append)
    then show ?thesis using o2 e p n
      by (intro exI[of _ i] exI[of _ "(m, w')"])
        (simp add: Literal None mw encode_literal_term_parts_def decode_term_cell_def decode_literal_def str_field_def)
  qed
qed

text \<open>An open graph: no lock stands in the way and no partition is to be made.\<close>

definition open_graph :: "int \<Rightarrow> store \<Rightarrow> bool" where
  "open_graph g st \<longleftrightarrow> 0 \<le> g \<and> \<not> locked st g \<and> g \<notin> set (trow st) \<and> (g \<noteq> 0 \<longrightarrow> dedicated_partition g st)"

lemma open_graph_quads [simp]: "open_graph g (st\<lparr>quads := qs'\<rparr>) = open_graph g st"
  by (simp add: open_graph_def dedicated_partition_def)

lemma insert_construct_quad_ok:
  assumes "open_graph g st"
  shows "insert_construct_quad u ids g st =
    (if list_ex (same_spog ids g) (quads st) then Inr (False, st) else Inr (True, st\<lparr>quads := quads st @ [asserted_quad g ids]\<rparr>))"
proof -
  have "(if g \<noteq> 0 then res_bind (add_graph u g st) (\<lambda>(_, st). Inr st) else Inr st) = Inr st"
    using assms by (simp add: open_graph_def add_graph_def)
  moreover have "qg (asserted_quad g ids) = g" by (cases ids) (simp add: asserted_quad_def)
  ultimately show ?thesis using assms by (simp add: insert_construct_quad_def insert_quads_def open_graph_def)
qed

lemma ingest_one_ok:
  assumes "ingest_ok hasher b R db mw" "\<forall>k \<in> triple_keys t. key_clear hasher R db k" "open_graph g st"
  shows "\<exists>ids mw' new. ingest_one hasher b u g (encode_triple (as_triple t)) mw st
      = Inr (int (length new), mw', st\<lparr>quads := quads st @ new\<rparr>) \<and> ingest_ok hasher b R db mw' \<and>
    denotes (visible (snd mw') b) ids t \<and> (\<exists>rs. visible (snd mw') b = visible (snd mw) b @ rs) \<and>
    (new = [] \<and> list_ex (same_spog ids g) (quads st) \<or> new = [asserted_quad g ids])"
proof -
  obtain s p ob where t: "t = (s, p, ob)" by (metis prod_cases3)
  have k: "key_clear hasher R db (node_key s)" "key_clear hasher R db (node_key (NamedNode p))" "\<forall>k \<in> term_keys ob. key_clear hasher R db k"
    using assms(2) by (auto simp: t triple_keys_def iri_key_def)
  obtain si mw1 n1 where 1: "decode_term_cell hasher b Subject_Cell (encode_term (as_node s)) mw = Inr (si, mw1)" "ingest_ok hasher b R db mw1"
      "dict_row_of (visible (snd mw1) b) si = Some (node_key s)" "visible (snd mw1) b = visible (snd mw) b @ n1"
    using decode_node[OF assms(1) k(1)] by blast
  obtain pi mw2 n2 where 2: "decode_term_cell hasher b Predicate_Cell (encode_term (as_node (NamedNode p))) mw1 = Inr (pi, mw2)" "ingest_ok hasher b R db mw2"
      "dict_row_of (visible (snd mw2) b) pi = Some (node_key (NamedNode p))" "visible (snd mw2) b = visible (snd mw1) b @ n2"
    using decode_node[OF 1(2) k(2)] by blast
  obtain oi mw3 n3 where 3: "decode_term_cell hasher b Object_Cell (encode_term (as_term ob)) mw2 = Inr (oi, mw3)" "ingest_ok hasher b R db mw3"
      "term_denoted (visible (snd mw3) b) oi ob" "visible (snd mw3) b = visible (snd mw2) b @ n3"
    using decode_object[OF 2(2) k(3)] by blast
  have den: "denotes (visible (snd mw3) b) (si, pi, oi) t"
    using 3(3) dict_row_of_append[OF 2(3), of n3] dict_row_of_append[OF 1(3), of "n2 @ n3"]
    by (simp add: denotes_def t 2(4) 3(4) iri_key_def)
  have vis: "visible (snd mw3) b = visible (snd mw) b @ (n1 @ n2 @ n3)" by (simp add: 1(4) 2(4) 3(4))
  define new where "new = (if list_ex (same_spog (si, pi, oi) g) (quads st) then [] else [asserted_quad g (si, pi, oi)])"
  have one: "ingest_one hasher b u g (encode_triple (as_triple t)) mw st = Inr (int (length new), mw3, st\<lparr>quads := quads st @ new\<rparr>)"
    using 1(1) 2(1) 3(1) insert_construct_quad_ok[OF assms(3), of u "(si, pi, oi)"]
    by (simp add: ingest_one_def encode_triple_def encode_row_def t new_def) auto
  show ?thesis
    by (rule exI[of _ "(si, pi, oi)"], rule exI[of _ mw3], rule exI[of _ new]) (use one 3(2) den vis in \<open>auto simp: new_def\<close>)
qed

text \<open>Rows that are encoded triples, taken in from any state.\<close>

lemma ingest_rows_ok:
  "ingest_ok hasher b R db mw \<Longrightarrow> \<forall>t \<in> set ts. \<forall>k \<in> triple_keys t. key_clear hasher R db k \<Longrightarrow> open_graph g st \<Longrightarrow>
   \<exists>w' new. ingest_rows hasher b u g (map (\<lambda>t. Some (encode_triple (as_triple t))) ts) mw st n
       = Inr (n + int (length new), w', st\<lparr>quads := quads st @ new\<rparr>) \<and>
     (\<exists>rs. visible w' b = visible (snd mw) b @ rs) \<and>
     (\<forall>q \<in> set new. \<not> qinf q \<and> qg q = g \<and> (\<exists>t \<in> set ts. denotes (visible w' b) (qs q, qp q, qo q) t)) \<and>
     (\<forall>t \<in> set ts. \<exists>q \<in> set (quads st @ new). qg q = g \<and> denotes (visible w' b) (qs q, qp q, qo q) t)"
proof (induction ts arbitrary: mw st n)
  case Nil
  then show ?case by (intro exI[of _ "snd mw"] exI[of _ "[]"]) simp
next
  case (Cons t ts)
  have k: "\<forall>k \<in> triple_keys t. key_clear hasher R db k" "\<forall>t \<in> set ts. \<forall>k \<in> triple_keys t. key_clear hasher R db k"
    using Cons.prems(2) by simp_all
  obtain ids mw1 new1 rs1 where 1: "ingest_one hasher b u g (encode_triple (as_triple t)) mw st
        = Inr (int (length new1), mw1, st\<lparr>quads := quads st @ new1\<rparr>)" "ingest_ok hasher b R db mw1"
      "denotes (visible (snd mw1) b) ids t" "visible (snd mw1) b = visible (snd mw) b @ rs1"
      "new1 = [] \<and> list_ex (same_spog ids g) (quads st) \<or> new1 = [asserted_quad g ids]"
    using ingest_one_ok[OF Cons.prems(1) k(1) Cons.prems(3)] by blast
  define st1 where "st1 = st\<lparr>quads := quads st @ new1\<rparr>"
  have op: "open_graph g st1" using Cons.prems(3) by (simp add: st1_def)
  obtain w' new2 rs2 where 2: "ingest_rows hasher b u g (map (\<lambda>t. Some (encode_triple (as_triple t))) ts) mw1 st1 (n + int (length new1))
        = Inr (n + int (length new1) + int (length new2), w', st1\<lparr>quads := quads st1 @ new2\<rparr>)"
      "visible w' b = visible (snd mw1) b @ rs2"
      "\<forall>q \<in> set new2. \<not> qinf q \<and> qg q = g \<and> (\<exists>t \<in> set ts. denotes (visible w' b) (qs q, qp q, qo q) t)"
      "\<forall>t \<in> set ts. \<exists>q \<in> set (quads st1 @ new2). qg q = g \<and> denotes (visible w' b) (qs q, qp q, qo q) t"
    using Cons.IH[OF 1(2) k(2) op, of "n + int (length new1)"] by blast
  have d: "denotes (visible w' b) ids t" unfolding 2(2) using 1(3) by (rule denotes_append)
  have a: "(qs (asserted_quad g ids), qp (asserted_quad g ids), qo (asserted_quad g ids)) = ids" "qg (asserted_quad g ids) = g"
      "\<not> qinf (asserted_quad g ids)" by (cases ids; simp add: asserted_quad_def)+
  have run: "ingest_rows hasher b u g (map (\<lambda>t. Some (encode_triple (as_triple t))) (t # ts)) mw st n
      = Inr (n + int (length (new1 @ new2)), w', st\<lparr>quads := quads st @ (new1 @ new2)\<rparr>)"
    using 1(1) 2(1) by (simp add: st1_def add.assoc)
  have n1: "q \<in> set new1 \<Longrightarrow> q = asserted_quad g ids" for q using 1(5) by auto
  have new: "\<forall>q \<in> set (new1 @ new2). \<not> qinf q \<and> qg q = g \<and> (\<exists>t \<in> set (t # ts). denotes (visible w' b) (qs q, qp q, qo q) t)"
    using n1 d a 2(3) by fastforce
  have "\<exists>q \<in> set (quads st @ new1). same_spog ids g q" using 1(5) by (auto simp: list_ex_iff)
  then have "\<exists>q \<in> set (quads st @ (new1 @ new2)). qg q = g \<and> denotes (visible w' b) (qs q, qp q, qo q) t"
    using d by (auto simp: same_spog_ids)
  then have said: "\<forall>t \<in> set (t # ts). \<exists>q \<in> set (quads st @ (new1 @ new2)). qg q = g \<and> denotes (visible w' b) (qs q, qp q, qo q) t"
    using 2(4) by (simp add: st1_def)
  have vis: "\<exists>rs. visible w' b = visible (snd mw) b @ rs" by (simp add: 1(4) 2(2))
  show ?case by (rule exI[of _ w'], rule exI[of _ "new1 @ new2"]) (intro conjI run vis new said)
qed

section \<open>Properties\<close>

text \<open>C21: A CONSTRUCT that returns answers with a set: each row once, and the rows are exactly the template's triples instantiated for the solutions in which their variables are bound, every blank node of the template being given one label per solution, distinct from its labels in other solutions and from those of other blank nodes. A solution leaves out the triples of the template that have an unbound variable and no others; a triple whose subject or predicate comes out as a literal is a row like any other; and the solutions are the rows of the translated WHERE clause, which the path for templates with a variable or a blank node runs without the LIMIT and OFFSET of the query. On the first of these the comments in \<open>executor.rs\<close> say otherwise (they leave out the whole template), and on the set a test description does (three equal rows for a constant template); both are among the reported divergences.\<close>

theorem construct_exact:
  assumes "construct parse plan d query = Inr out" "parse query = Some (Construct_Form template pattern)"
    and "classify_template template = Inr slots" "plan pattern = Inr ps"
    and "column_shapes ps (collect_construct_template_vars slots) = Inr cols" "cp_count ps = length (cp_rows ps cols)"
  shows "distinct out \<and> (\<exists>lab. inj (\<lambda>(k, l). lab k l) \<and>
    set out = template_answer d slots (map (row_solution cols) (cp_rows ps cols)) lab)"
proof -
  let ?bds = "map (row_solution cols) (cp_rows ps cols)"
  obtain js where js: "out = dedup_construct_rows js"
      "(\<exists>cs. encode_constants slots = Inr cs \<and> js = expand_template_per_solution cs (cp_count ps)) \<or>
       execute_construct_per_solution_path d ps slots (collect_construct_template_vars slots) = Inr js"
    using assms(1-4) by (auto simp: construct_def Let_def split: if_splits)
  have "\<exists>lab. inj (\<lambda>(k, l). lab k l) \<and> set js = template_answer d slots ?bds lab"
    using js(2)
  proof
    assume "\<exists>cs. encode_constants slots = Inr cs \<and> js = expand_template_per_solution cs (cp_count ps)"
    then obtain cs where cs: "encode_constants slots = Inr cs" "js = expand_template_per_solution cs (length ?bds)"
      using assms(6) by auto
    obtain lab :: "nat \<Rightarrow> string \<Rightarrow> string" where "inj (\<lambda>(k, l). lab k l)" using inj_labels[of 0] by auto
    then show ?thesis using constant_answer[OF cs(1), of ?bds d lab] cs(2) by auto
  qed (use per_solution_answer assms(5) in blast)
  then show ?thesis using dedup_set_distinct[of js] js(1) by auto
qed

text \<open>C22: Taking rows back in is the inverse of encoding, for rows that encode RDF triples (subject an IRI or a blank node, predicate an IRI, object any term): into an open graph \<open>put_construct_rows\<close> succeeds on any list of such rows, adds asserted quads of that graph only, each reading back as one of the encoded triples, leaves every one of them readable there, and returns how many quads it added. Not every row of an answer is of that kind: a template such as \<open>{?o ex:p ex:c}\<close> gives rows with a literal for subject (\<open>construct_keeps_literal_subject\<close>), and \<open>put_construct_rows\<close> refuses such a row and with it the whole call (\<open>literal_subject_refused\<close>).\<close>

theorem construct_round_trip:
  assumes "reachable hasher db_of w" "\<forall>t \<in> set ts. \<forall>k \<in> triple_keys t. no_collision hasher w (bdb (backends w b)) k"
    and "open_graph g st"
  shows "\<exists>w' new. put_construct_rows hasher b u (Some (map (\<lambda>t. Some (encode_triple (as_triple t))) ts)) g (w, st)
      = Inr (int (length new), w', st\<lparr>quads := quads st @ new\<rparr>) \<and>
    (\<forall>q \<in> set new. \<not> qinf q \<and> qg q = g \<and> (\<exists>t \<in> set ts. read_quad (visible w' b) q = Some (as_triple t))) \<and>
    (\<forall>t \<in> set ts. \<exists>q \<in> set (quads st @ new). qg q = g \<and> read_quad (visible w' b) q = Some (as_triple t))"
proof -
  have ok: "ingest_ok hasher b (rows w) (bdb (backends w b)) (Map.empty, w)"
    using reachable_dict_ok[OF assms(1)] by (simp add: ingest_ok_def)
  have k: "\<forall>t \<in> set ts. \<forall>k \<in> triple_keys t. key_clear hasher (rows w) (bdb (backends w b)) k"
    using assms(2) by (simp add: key_clear_def no_collision_def)
  have rd: "denotes d (qs q, qp q, qo q) t \<Longrightarrow> read_quad d q = Some (as_triple t)" for d q t
    using denotes_read[of d "(qs q, qp q, qo q)" t 0] by (simp add: read_quad_def asserted_quad_def)
  obtain w' new where r: "ingest_rows hasher b u g (map (\<lambda>t. Some (encode_triple (as_triple t))) ts) (Map.empty, w) st 0
        = Inr (0 + int (length new), w', st\<lparr>quads := quads st @ new\<rparr>)"
      "\<forall>q \<in> set new. \<not> qinf q \<and> qg q = g \<and> (\<exists>t \<in> set ts. denotes (visible w' b) (qs q, qp q, qo q) t)"
      "\<forall>t \<in> set ts. \<exists>q \<in> set (quads st @ new). qg q = g \<and> denotes (visible w' b) (qs q, qp q, qo q) t"
    using ingest_rows_ok[OF ok k assms(3)] by blast
  have "require_unlocked g st = Inr ()" using assms(3) by (simp add: open_graph_def)
  then have "put_construct_rows hasher b u (Some (map (\<lambda>t. Some (encode_triple (as_triple t))) ts)) g (w, st)
      = Inr (int (length new), w', st\<lparr>quads := quads st @ new\<rparr>)"
    using r(1) assms(3) by (simp add: put_construct_rows_def open_graph_def del: require_unlocked_Inr)
  then show ?thesis using r(2,3) rd by (intro exI[of _ w'] exI[of _ new]) blast
qed

text \<open>
  A minted label is not fresh for the dictionary: a stored blank node may have it, for one because
  \<open>put_construct_rows\<close> stores the labels of an earlier answer. The template's node and the one bound to \<open>v\<close> then
  come out as one node.
\<close>

lemma minted_label_clashes:
  assumes "dict_row_of d i = Some (2, minted_label 1 1, None, None)"
  shows "encode_solutions d [\<lparr>slot_s = Slot_Blank x, slot_p = Slot_Iri p, slot_o = Slot_Var v\<rparr>] [[v \<mapsto> Dict_Id i]] 1 Map.empty =
    Inr [encode_triple (BNode (minted_label 1 1), Iri p, BNode (minted_label 1 1))]"
  using assms by (simp add: construct_slot_has_unbound_def positions_def encode_template_triple_for_solution_def mint_def new_minter_def
      resolve_dict_term_def encode_dict_term_def encode_triple_def Let_def)

section \<open>Witnesses\<close>

definition demo_template :: "triple_pattern list" where
  "demo_template = [\<lparr>tp_subject = Blank_Pattern ''x'', tp_predicate = PNode ''ex:p'', tp_object = Var ''o''\<rparr>]"

definition demo_slots :: "triple_slots list" where
  "demo_slots = [\<lparr>slot_s = Slot_Blank ''x'', slot_p = Slot_Iri ''ex:p'', slot_o = Slot_Var ''o''\<rparr>]"

definition demo_plan :: construct_plan where
  "demo_plan = \<lparr>cp_empty = False, cp_projected = [''s'', ''o''], cp_binds = [], cp_translatable = (\<lambda>v. False), cp_scope_var = (\<lambda>v. False),
     cp_anchored = (\<lambda>v. True), cp_rows = (\<lambda>cols. [[Int8 1], [Int8 1], [Null]]), cp_count = 3\<rparr>"

definition demo_dict :: "dict_row list" where
  "demo_dict = [\<lparr>row_id = 1, row_key = (1, ''ex:b'', None, None)\<rparr>]"

definition demo_parse :: "string \<Rightarrow> nat query_form option" where
  "demo_parse q = Some (Construct_Form demo_template (Project [] (Bgp 0)))"

definition demo_rows :: "json list" where
  "demo_rows = [encode_triple (BNode ''b1_1'', Iri ''ex:p'', Iri ''ex:b''), encode_triple (BNode ''b2_1'', Iri ''ex:p'', Iri ''ex:b'')]"

lemma demo_runs:
  "construct demo_parse (\<lambda>p. Inr demo_plan) demo_dict ''CONSTRUCT {'' = Inr demo_rows"
  "classify_template demo_template = Inr demo_slots" "collect_construct_template_vars demo_slots = [''o'']"
  "column_shapes demo_plan [''o''] = Inr [(''o'', Shape_Id)]"
  "map (row_solution [(''o'', Shape_Id)]) (cp_rows demo_plan [(''o'', Shape_Id)]) =
     [[''o'' \<mapsto> Dict_Id 1], [''o'' \<mapsto> Dict_Id 1], [''o'' \<mapsto> Unbound]]"
proof -
  show "construct demo_parse (\<lambda>p. Inr demo_plan) demo_dict ''CONSTRUCT {'' = Inr demo_rows" by code_simp
  show "classify_template demo_template = Inr demo_slots" "collect_construct_template_vars demo_slots = [''o'']"
    "column_shapes demo_plan [''o''] = Inr [(''o'', Shape_Id)]" by code_simp+
  show "map (row_solution [(''o'', Shape_Id)]) (cp_rows demo_plan [(''o'', Shape_Id)]) =
     [[''o'' \<mapsto> Dict_Id 1], [''o'' \<mapsto> Dict_Id 1], [''o'' \<mapsto> Unbound]]" by (simp add: demo_plan_def row_solution_def)
qed

text \<open>
  A variable in subject position may be bound to a literal. The row is emitted, against what the
  comment at the decoder says, and taking it back in is refused.
\<close>

definition literal_template :: "triple_pattern list" where
  "literal_template = [\<lparr>tp_subject = Var ''o'', tp_predicate = PNode ''ex:p'', tp_object = Node ''ex:c''\<rparr>]"

definition literal_parse :: "string \<Rightarrow> nat query_form option" where
  "literal_parse q = Some (Construct_Form literal_template (Project [] (Bgp 0)))"

definition literal_dict :: "dict_row list" where
  "literal_dict = [\<lparr>row_id = 1, row_key = (3, ''v'', None, Some ''en'')\<rparr>]"

lemma construct_keeps_literal_subject:
  "construct literal_parse (\<lambda>p. Inr demo_plan) literal_dict ''CONSTRUCT {'' =
     Inr [encode_triple (Lit ''v'' None (Some ''en''), Iri ''ex:p'', Iri ''ex:c'')]"
  by code_simp

lemma literal_subject_refused:
  assumes "0 \<le> g" "require_unlocked g st = Inr ()"
  shows "put_construct_rows hasher b u (Some (Some (encode_triple (Lit v dt lang, p, ob)) # rws)) g (w, st) = Inl Internal_Error"
proof -
  have "decode_term_cell hasher b Subject_Cell (encode_term (Lit v dt lang)) mw = Inl Internal_Error" for mw
    by (auto simp: decode_term_cell_def encode_literal_term_parts_def str_field_def split: option.splits)
  then show ?thesis
    using assms by (simp add: put_construct_rows_def ingest_one_def encode_triple_def encode_row_def
        del: encode_term.simps require_unlocked_Inr)
qed

theorem construct_exact_witness:
  "length demo_rows = 2 \<and> distinct demo_rows \<and> (\<exists>lab. inj (\<lambda>(k, l). lab k l) \<and>
    set demo_rows = template_answer demo_dict demo_slots [[''o'' \<mapsto> Dict_Id 1], [''o'' \<mapsto> Dict_Id 1], [''o'' \<mapsto> Unbound]] lab)"
proof -
  have p: "demo_parse ''CONSTRUCT {'' = Some (Construct_Form demo_template (Project [] (Bgp 0)))" by (simp add: demo_parse_def)
  have c: "column_shapes demo_plan (collect_construct_template_vars demo_slots) = Inr [(''o'', Shape_Id)]" using demo_runs(3,4) by simp
  have n: "cp_count demo_plan = length (cp_rows demo_plan [(''o'', Shape_Id)])" by (simp add: demo_plan_def)
  have l: "length demo_rows = 2" by (simp add: demo_rows_def)
  from construct_exact[where plan = "\<lambda>p. Inr demo_plan", OF demo_runs(1) p demo_runs(2) refl c n] l show ?thesis
    unfolding demo_runs(5) by blast
qed

theorem construct_round_trip_witness:
  "\<exists>w' new q. put_construct_rows toy_hasher 0 all_privs (Some [Some (encode_triple (as_triple (fst ex_datum)))]) 0 (toy_world, fresh_store)
      = Inr (int (length new), w', fresh_store\<lparr>quads := new\<rparr>) \<and>
    q \<in> set new \<and> read_quad (visible w' 0) q = Some (Iri ''ex:a1'', Iri ''ex:q1'', Iri ''ex:b1'')"
proof -
  have k: "\<forall>t \<in> set [fst ex_datum]. \<forall>k \<in> triple_keys t. no_collision toy_hasher toy_world (bdb (backends toy_world 0)) k"
    unfolding toy_db by (auto simp: ex_datum_def triple_keys_def no_collision_def toy_world_eval(1) fingerprint_def toy_hasher_def iri_key_def)
  have o: "open_graph 0 fresh_store" using fresh_default by (simp add: open_graph_def)
  have q0: "quads fresh_store = []" by (simp add: fresh_store_def)
  have t: "as_triple (fst ex_datum) = (Iri ''ex:a1'', Iri ''ex:q1'', Iri ''ex:b1'')" by (simp add: ex_datum_def)
  from construct_round_trip[where u = all_privs, OF toy_reachable k o, unfolded q0] show ?thesis unfolding t[symmetric] by force
qed
end
