(* ===== verification/Describe.thy ===== *)
theory Describe
  imports Construct
begin

text \<open>
  SPARQL DESCRIBE (\<open>describe\<close> and what it calls in \<open>src/query/executor.rs\<close>): which resources are described, and
  the closure of each, which follows blank-node objects. The parser and the rows of the WHERE clause are
  parameters, as in \<open>Construct\<close>.
\<close>

section \<open>The resources\<close>

fun literal_graph_scope :: "store \<Rightarrow> 'p algebra \<Rightarrow> int option" where
  "literal_graph_scope st (Graph_Named iri p) = Some (case graph_id iri st of Some g \<Rightarrow> g | None \<Rightarrow> -1)"
| "literal_graph_scope st (Project vs p) = literal_graph_scope st p"
| "literal_graph_scope st (Slice_Of p) = literal_graph_scope st p"
| "literal_graph_scope st (Distinct p) = literal_graph_scope st p"
| "literal_graph_scope st (Reduced p) = literal_graph_scope st p"
| "literal_graph_scope st (Order_By p) = literal_graph_scope st p"
| "literal_graph_scope st (Filter_Of p) = literal_graph_scope st p"
| "literal_graph_scope st _ = None"

text \<open>The layers that bind a described term to a constant: the IRIs, the variables used up, and the pattern below.\<close>

fun peel_constants :: "string list \<Rightarrow> 'p algebra \<Rightarrow> string list \<times> string list \<times> 'p algebra" where
  "peel_constants proj (Extend p v (Some iri)) =
     (if v \<in> set proj then (let (iris, used, rest) = peel_constants proj p in (iri # iris, v # used, rest))
      else ([], [], Extend p v (Some iri)))"
| "peel_constants proj p = ([], [], p)"

definition lookup_iri_dict_id :: "dict_row list \<Rightarrow> string \<Rightarrow> int option" where
  "lookup_iri_dict_id d iri = row_with (\<lambda>k. fst k = 1 \<and> fst (snd k) = iri) d"

record describe_plan =
  dp_empty :: bool
  dp_projected :: "string list"
  dp_scope_var :: "string \<Rightarrow> bool"
  dp_anchored :: "string \<Rightarrow> bool"
  dp_rows :: "string list \<Rightarrow> int option list list"

definition collect_describe_var_bindings :: "('p algebra \<Rightarrow> describe_plan res) \<Rightarrow> 'p algebra \<Rightarrow> string list \<Rightarrow> int list res" where
  "collect_describe_var_bindings plan pattern vars =
     res_bind (plan pattern) (\<lambda>ps.
       let cols = filter (\<lambda>v. \<not> dp_scope_var ps v \<and> dp_anchored ps v) (filter (\<lambda>v. v \<in> set (dp_projected ps)) vars)
       in Inr (if dp_empty ps \<or> cols = [] then [] else flatten_opts (concat (dp_rows ps cols))))"

definition add_new :: "'a \<Rightarrow> 'a list \<Rightarrow> 'a list" where
  "add_new x xs = (if x \<in> set xs then xs else xs @ [x])"

section \<open>The closure of a resource\<close>

definition in_scope :: "int option \<Rightarrow> quad \<Rightarrow> bool" where
  "in_scope scope q \<longleftrightarrow> (case scope of None \<Rightarrow> True | Some g \<Rightarrow> qg q = g)"

definition closure_one_hop :: "store \<Rightarrow> int option \<Rightarrow> int \<Rightarrow> (int \<times> int) list" where
  "closure_one_hop st scope s =
     sort_key fst (sort_key snd (remdups (map (\<lambda>q. (qp q, qo q)) (filter (\<lambda>q. qs q = s \<and> in_scope scope q) (quads st)))))"

record describe_run =
  dr_frontier :: "int list"                  \<comment> \<open>a stack, its top last\<close>
  dr_visited :: "int list"                   \<comment> \<open>a set\<close>
  dr_emitted :: "(int \<times> int \<times> int) list"      \<comment> \<open>a set\<close>
  dr_out :: "json list"
  dr_cache :: term_cache

definition emit_triple :: "dict_row list \<Rightarrow> int \<times> int \<times> int \<Rightarrow> describe_run \<Rightarrow> describe_run res" where
  "emit_triple d t x =
     (case t of (s, p, ob) \<Rightarrow>
        res_bind (resolve_dict_term d s (dr_cache x)) (\<lambda>(ts, tc).
          res_bind (resolve_dict_term d p tc) (\<lambda>(tp, tc).
            res_bind (resolve_dict_term d ob tc) (\<lambda>(tob, tc).
              res_bind (encode_dict_term ts) (\<lambda>js.
                res_bind (encode_dict_term tp) (\<lambda>jp.
                  res_bind (encode_dict_term tob) (\<lambda>jo.
                    (let new = (if rt_type tob = 2 \<and> ob \<notin> set (dr_visited x) then [ob] else [])
                     in Inr \<lparr>dr_frontier = dr_frontier x @ new, dr_visited = dr_visited x @ new,
                           dr_emitted = dr_emitted x @ [t], dr_out = dr_out x @ [encode_row js jp jo], dr_cache = tc\<rparr>))))))))"

fun emit_hops :: "dict_row list \<Rightarrow> int \<Rightarrow> (int \<times> int) list \<Rightarrow> describe_run \<Rightarrow> describe_run res" where
  "emit_hops d s [] x = Inr x"
| "emit_hops d s (h # hops) x =
     (if (s, h) \<in> set (dr_emitted x) then emit_hops d s hops x
      else res_bind (emit_triple d (s, h) x) (emit_hops d s hops))"

text \<open>What a subject adds to the stack is marked visited, so the stack grows only as the unvisited objects shrink.\<close>

definition pushed :: "int set \<Rightarrow> describe_run \<Rightarrow> describe_run \<Rightarrow> bool" where
  "pushed obs x x' \<longleftrightarrow>
     (\<exists>new. dr_frontier x' = dr_frontier x @ new \<and> dr_visited x' = dr_visited x @ new \<and> set new \<subseteq> obs \<and>
       distinct new \<and> set new \<inter> set (dr_visited x) = {})"

lemma pushed_trans: "pushed A x y \<Longrightarrow> pushed B y z \<Longrightarrow> A \<subseteq> C \<Longrightarrow> B \<subseteq> C \<Longrightarrow> pushed C x z"
proof -
  assume a: "pushed A x y" "pushed B y z" "A \<subseteq> C" "B \<subseteq> C"
  obtain m where m: "dr_frontier y = dr_frontier x @ m" "dr_visited y = dr_visited x @ m" "set m \<subseteq> A" "distinct m"
      "set m \<inter> set (dr_visited x) = {}" using a(1) unfolding pushed_def by blast
  obtain n where n: "dr_frontier z = dr_frontier y @ n" "dr_visited z = dr_visited y @ n" "set n \<subseteq> B" "distinct n"
      "set n \<inter> set (dr_visited y) = {}" using a(2) unfolding pushed_def by blast
  show ?thesis unfolding pushed_def
    by (intro exI[of _ "m @ n"]) (use m n a(3,4) in auto)
qed

lemma pushed_mono: "pushed A x y \<Longrightarrow> A \<subseteq> B \<Longrightarrow> pushed B x y"
  unfolding pushed_def by (meson order_trans)

lemma emit_triple_pushed: "emit_triple d (s, p, ob) x = Inr x' \<Longrightarrow> pushed {ob} x x'"
  by (auto simp: emit_triple_def pushed_def Let_def)

lemma emit_hops_pushed: "emit_hops d s hops x = Inr x' \<Longrightarrow> pushed (snd ` set hops) x x'"
proof (induction hops arbitrary: x)
  case Nil
  then show ?case by (simp add: pushed_def)
next
  case (Cons h hops)
  show ?case
  proof (cases "(s, h) \<in> set (dr_emitted x)")
    case True
    then have "pushed (snd ` set hops) x x'" using Cons by simp
    then show ?thesis by (rule pushed_mono) auto
  next
    case False
    then obtain x1 where x1: "emit_triple d (s, h) x = Inr x1" "emit_hops d s hops x1 = Inr x'" using Cons.prems by auto
    have "pushed {snd h} x x1" using emit_triple_pushed[of d s "fst h" "snd h"] x1(1) by simp
    then show ?thesis by (rule pushed_trans[OF _ Cons.IH[OF x1(2)]]) auto
  qed
qed

lemma closure_one_hop_set: "set (closure_one_hop st scope s) = {(qp q, qo q) | q. q \<in> set (quads st) \<and> qs q = s \<and> in_scope scope q}"
  by (auto simp: closure_one_hop_def)

text \<open>The search.\<close>

definition unvisited :: "store \<Rightarrow> describe_run \<Rightarrow> nat" where
  "unvisited st x = card (qo ` set (quads st) - set (dr_visited x))"

lemma pushed_measure:
  assumes "pushed (qo ` set (quads st)) (x\<lparr>dr_frontier := butlast (dr_frontier x)\<rparr>) x'" "dr_frontier x \<noteq> []"
  shows "(x', x) \<in> measures [unvisited st, length \<circ> dr_frontier]"
proof -
  obtain new where n: "dr_frontier x' = butlast (dr_frontier x) @ new" "dr_visited x' = dr_visited x @ new"
      "set new \<subseteq> qo ` set (quads st)" "set new \<inter> set (dr_visited x) = {}" using assms(1) by (auto simp: pushed_def)
  show ?thesis
  proof (cases new)
    case Nil
    then show ?thesis using n assms(2) by (simp add: unvisited_def)
  next
    case (Cons a as)
    have "qo ` set (quads st) - set (dr_visited x') \<subset> qo ` set (quads st) - set (dr_visited x)"
      using n(2-4) Cons by auto
    then have "unvisited st x' < unvisited st x" unfolding unvisited_def by (intro psubset_card_mono) auto
    then show ?thesis by simp
  qed
qed

function describe_loop :: "dict_row list \<Rightarrow> store \<Rightarrow> int option \<Rightarrow> describe_run \<Rightarrow> describe_run res" where
  "describe_loop d st scope x =
     (if dr_frontier x = [] then Inr x
      else
        (let s = last (dr_frontier x) in
         case emit_hops d s (closure_one_hop st scope s) (x\<lparr>dr_frontier := butlast (dr_frontier x)\<rparr>) of
           Inl e \<Rightarrow> Inl e
         | Inr x' \<Rightarrow> describe_loop d st scope x'))"
  by pat_completeness auto
termination
proof (relation "inv_image (measures [\<lambda>(st, x). unvisited st x, \<lambda>(st, x). length (dr_frontier x)]) (\<lambda>(d, st, scope, x). (st, x))")
  fix d st scope x s x'
  assume a: "dr_frontier x \<noteq> []" "s = last (dr_frontier x)"
    "emit_hops d s (closure_one_hop st scope s) (x\<lparr>dr_frontier := butlast (dr_frontier x)\<rparr>) = Inr x'"
  have "snd ` set (closure_one_hop st scope s) \<subseteq> qo ` set (quads st)" by (auto simp: closure_one_hop_set)
  then have "pushed (qo ` set (quads st)) (x\<lparr>dr_frontier := butlast (dr_frontier x)\<rparr>) x'"
    by (rule pushed_mono[OF emit_hops_pushed[OF a(3)]])
  from pushed_measure[OF this a(1)]
  show "((d, st, scope, x'), d, st, scope, x) \<in>
     inv_image (measures [\<lambda>(st, x). unvisited st x, \<lambda>(st, x). length (dr_frontier x)]) (\<lambda>(d, st, scope, x). (st, x))"
    by simp
qed simp

declare describe_loop.simps [simp del]

type_synonym described = "term_cache \<times> (int \<times> int \<times> int) list \<times> json list"

definition describe_closure :: "dict_row list \<Rightarrow> store \<Rightarrow> int option \<Rightarrow> int \<Rightarrow> described \<Rightarrow> described res" where
  "describe_closure d st scope root y =
     (case y of (tc, emitted, out) \<Rightarrow>
        res_bind (describe_loop d st scope
            \<lparr>dr_frontier = [root], dr_visited = [root], dr_emitted = emitted, dr_out = out, dr_cache = tc\<rparr>) (\<lambda>x.
          Inr (dr_cache x, dr_emitted x, dr_out x)))"

fun describe_closures :: "dict_row list \<Rightarrow> store \<Rightarrow> int option \<Rightarrow> int list \<Rightarrow> described \<Rightarrow> described res" where
  "describe_closures d st scope [] y = Inr y"
| "describe_closures d st scope (root # roots) y =
     res_bind (describe_closure d st scope root y) (describe_closures d st scope roots)"

definition described_ids ::
    "('p algebra \<Rightarrow> describe_plan res) \<Rightarrow> dict_row list \<Rightarrow> string list \<Rightarrow> 'p algebra \<Rightarrow> int list res" where
  "described_ids plan d proj inner =
     (case peel_constants proj inner of (iris, used, pattern) \<Rightarrow>
        (let constants = flatten_opts (map (lookup_iri_dict_id d) (fold add_new iris []));
             vars = filter (\<lambda>v. v \<notin> set used) proj
         in res_bind (if vars = [] then Inr [] else collect_describe_var_bindings plan pattern vars) (\<lambda>bindings.
              Inr (fold add_new (constants @ bindings) []))))"

definition describe ::
    "(string \<Rightarrow> 'p query_form option) \<Rightarrow> ('p algebra \<Rightarrow> describe_plan res) \<Rightarrow> dict_row list \<Rightarrow> store \<Rightarrow> string \<Rightarrow> json list res" where
  "describe parse plan d st query =
     (case parse query of
        Some (Describe_Form (Project proj inner)) \<Rightarrow>
          res_bind (described_ids plan d proj inner) (\<lambda>roots.
            res_bind (describe_closures d st (literal_graph_scope st (snd (snd (peel_constants proj inner)))) roots (Map.empty, [], [])) (\<lambda>y.
              Inr (snd (snd y))))
      | _ \<Rightarrow> Inl Internal_Error)"

section \<open>What is described\<close>

definition term_at :: "dict_row list \<Rightarrow> int \<Rightarrow> cterm option" where
  "term_at d i = Option.bind (dict_row_of d i) (read_object d)"

definition blank_at :: "dict_row list \<Rightarrow> int \<Rightarrow> bool" where
  "blank_at d i \<longleftrightarrow> (\<exists>l. term_at d i = Some (BNode l))"

definition json_at :: "dict_row list \<Rightarrow> int \<times> int \<times> int \<Rightarrow> json" where
  "json_at d t = encode_triple (the (term_at d (fst t)), the (term_at d (fst (snd t))), the (term_at d (snd (snd t))))"

definition scoped :: "store \<Rightarrow> int option \<Rightarrow> (int \<times> int \<times> int) set" where
  "scoped st scope = {(qs q, qp q, qo q) | q. q \<in> set (quads st) \<and> in_scope scope q}"

text \<open>From a node to the blank nodes it has as objects.\<close>

definition blank_edges :: "dict_row list \<Rightarrow> store \<Rightarrow> int option \<Rightarrow> (int \<times> int) set" where
  "blank_edges d st scope = {(fst t, snd (snd t)) | t. t \<in> scoped st scope \<and> blank_at d (snd (snd t))}"

definition described_triples :: "dict_row list \<Rightarrow> store \<Rightarrow> int option \<Rightarrow> int set \<Rightarrow> (int \<times> int \<times> int) set" where
  "described_triples d st scope roots = {t \<in> scoped st scope. \<exists>r \<in> roots. (r, fst t) \<in> (blank_edges d st scope)\<^sup>*}"

definition readable :: "dict_row list \<Rightarrow> store \<Rightarrow> bool" where
  "readable d st \<longleftrightarrow> (\<forall>q \<in> set (quads st). term_at d (qs q) \<noteq> None \<and> term_at d (qp q) \<noteq> None \<and> term_at d (qo q) \<noteq> None)"

lemma readable_scoped:
  "readable d st \<Longrightarrow> t \<in> scoped st scope \<Longrightarrow>
     term_at d (fst t) \<noteq> None \<and> term_at d (fst (snd t)) \<noteq> None \<and> term_at d (snd (snd t)) \<noteq> None"
  by (auto simp: readable_def scoped_def)

lemma says_blank:
  "says_term d i t \<Longrightarrow> term_at d i = Some x \<Longrightarrow> encode_dict_term t = Inr (encode_term x) \<and> (rt_type t = 2 \<longleftrightarrow> blank_at d i)"
  by (auto simp: says_term_def term_at_def blank_at_def encode_dict_term_def read_object_def split: if_splits)

lemma resolve_total:
  assumes "cache_says d tc" "term_at d i \<noteq> None"
  shows "\<exists>t tc'. resolve_dict_term d i tc = Inr (t, tc') \<and> cache_says d tc' \<and>
    encode_dict_term t = Inr (encode_term (the (term_at d i))) \<and> (rt_type t = 2 \<longleftrightarrow> blank_at d i)"
proof -
  obtain x where x: "term_at d i = Some x" using assms(2) by blast
  obtain k where "dict_row_of d i = Some k" using x by (auto simp: term_at_def bind_eq_Some_conv)
  then have "\<exists>t tc'. resolve_dict_term d i tc = Inr (t, tc')"
    by (auto simp: resolve_dict_term_def Let_def split: option.split prod.splits)
  then obtain t tc' where r: "resolve_dict_term d i tc = Inr (t, tc')" by blast
  from resolve_says[OF assms(1) r] says_blank x r show ?thesis by fastforce
qed

text \<open>Emitting one triple, and all of a subject.\<close>

lemma emit_triple_total:
  assumes "cache_says d (dr_cache x)" "term_at d (fst t) \<noteq> None" "term_at d (fst (snd t)) \<noteq> None" "term_at d (snd (snd t)) \<noteq> None"
  shows "\<exists>x' new. emit_triple d t x = Inr x' \<and> cache_says d (dr_cache x') \<and> dr_emitted x' = dr_emitted x @ [t] \<and>
    dr_out x' = dr_out x @ [json_at d t] \<and> dr_frontier x' = dr_frontier x @ new \<and> dr_visited x' = dr_visited x @ new \<and>
    new = (if blank_at d (snd (snd t)) \<and> snd (snd t) \<notin> set (dr_visited x) then [snd (snd t)] else [])"
proof -
  obtain s p ob where t: "t = (s, p, ob)" by (metis prod_cases3)
  note a = assms(2-4)[unfolded t fst_conv snd_conv]
  obtain ts tc1 where 1: "resolve_dict_term d s (dr_cache x) = Inr (ts, tc1)" "cache_says d tc1"
      "encode_dict_term ts = Inr (encode_term (the (term_at d s)))" using resolve_total[OF assms(1) a(1)] by blast
  obtain tp tc2 where 2: "resolve_dict_term d p tc1 = Inr (tp, tc2)" "cache_says d tc2"
      "encode_dict_term tp = Inr (encode_term (the (term_at d p)))" using resolve_total[OF 1(2) a(2)] by blast
  obtain tob tc3 where 3: "resolve_dict_term d ob tc2 = Inr (tob, tc3)" "cache_says d tc3"
      "encode_dict_term tob = Inr (encode_term (the (term_at d ob)))" "rt_type tob = 2 \<longleftrightarrow> blank_at d ob"
    using resolve_total[OF 2(2) a(3)] by blast
  show ?thesis
    by (simp add: emit_triple_def t 1 2 3 json_at_def encode_triple_def Let_def)
qed

lemma emit_hops_total:
  "cache_says d (dr_cache x) \<Longrightarrow> distinct (dr_emitted x) \<Longrightarrow>
   \<forall>h \<in> set hops. term_at d s \<noteq> None \<and> term_at d (fst h) \<noteq> None \<and> term_at d (snd h) \<noteq> None \<Longrightarrow>
   \<exists>x' ts new. emit_hops d s hops x = Inr x' \<and> cache_says d (dr_cache x') \<and> dr_emitted x' = dr_emitted x @ ts \<and>
     dr_out x' = dr_out x @ map (json_at d) ts \<and> dr_frontier x' = dr_frontier x @ new \<and> dr_visited x' = dr_visited x @ new \<and>
     distinct (dr_emitted x') \<and> set (dr_emitted x') = set (dr_emitted x) \<union> Pair s ` set hops \<and> set ts \<subseteq> Pair s ` set hops \<and>
     (\<forall>t \<in> set ts. blank_at d (snd (snd t)) \<longrightarrow> snd (snd t) \<in> set (dr_visited x')) \<and>
     (\<forall>b \<in> set new. blank_at d b \<and> b \<in> snd ` set hops)"
proof (induction hops arbitrary: x)
  case Nil
  then show ?case by (intro exI[of _ x] exI[of _ "[]"]) simp
next
  case (Cons h hops)
  have rest: "\<forall>h \<in> set hops. term_at d s \<noteq> None \<and> term_at d (fst h) \<noteq> None \<and> term_at d (snd h) \<noteq> None" using Cons.prems(3) by simp
  show ?case
  proof (cases "(s, h) \<in> set (dr_emitted x)")
    case True
    obtain x' ts new where i: "emit_hops d s hops x = Inr x'" "cache_says d (dr_cache x')" "dr_emitted x' = dr_emitted x @ ts"
       "dr_out x' = dr_out x @ map (json_at d) ts" "dr_frontier x' = dr_frontier x @ new" "dr_visited x' = dr_visited x @ new"
       "distinct (dr_emitted x')" "set (dr_emitted x') = set (dr_emitted x) \<union> Pair s ` set hops" "set ts \<subseteq> Pair s ` set hops"
       "\<forall>t \<in> set ts. blank_at d (snd (snd t)) \<longrightarrow> snd (snd t) \<in> set (dr_visited x')"
       "\<forall>b \<in> set new. blank_at d b \<and> b \<in> snd ` set hops"
      using Cons.IH[OF Cons.prems(1,2) rest] by blast
    show ?thesis
      by (rule exI[of _ x'], rule exI[of _ ts], rule exI[of _ new]) (use i True in auto)
  next
    case False
    have r: "term_at d (fst (s, h)) \<noteq> None" "term_at d (fst (snd (s, h))) \<noteq> None" "term_at d (snd (snd (s, h))) \<noteq> None"
      using Cons.prems(3) by simp_all
    obtain x1 n1 where 1: "emit_triple d (s, h) x = Inr x1" "cache_says d (dr_cache x1)" "dr_emitted x1 = dr_emitted x @ [(s, h)]"
        "dr_out x1 = dr_out x @ [json_at d (s, h)]" "dr_frontier x1 = dr_frontier x @ n1" "dr_visited x1 = dr_visited x @ n1"
        "n1 = (if blank_at d (snd h) \<and> snd h \<notin> set (dr_visited x) then [snd h] else [])"
      using emit_triple_total[OF Cons.prems(1) r] by auto
    have dist: "distinct (dr_emitted x1)" using Cons.prems(2) False by (simp add: 1(3))
    obtain x' ts new where i: "emit_hops d s hops x1 = Inr x'" "cache_says d (dr_cache x')" "dr_emitted x' = dr_emitted x1 @ ts"
       "dr_out x' = dr_out x1 @ map (json_at d) ts" "dr_frontier x' = dr_frontier x1 @ new" "dr_visited x' = dr_visited x1 @ new"
       "distinct (dr_emitted x')" "set (dr_emitted x') = set (dr_emitted x1) \<union> Pair s ` set hops" "set ts \<subseteq> Pair s ` set hops"
       "\<forall>t \<in> set ts. blank_at d (snd (snd t)) \<longrightarrow> snd (snd t) \<in> set (dr_visited x')"
       "\<forall>b \<in> set new. blank_at d b \<and> b \<in> snd ` set hops"
      using Cons.IH[OF 1(2) dist rest] by blast
    have v: "blank_at d (snd h) \<Longrightarrow> snd h \<in> set (dr_visited x')" using 1(6,7) i(6) by auto
    have b: "\<forall>c \<in> set (n1 @ new). blank_at d c \<and> c \<in> snd ` set (h # hops)" using 1(7) i(11) by auto
    have set: "set (dr_emitted x') = set (dr_emitted x) \<union> Pair s ` set (h # hops)" using i(8) 1(3) by simp
    have ts: "set ((s, h) # ts) \<subseteq> Pair s ` set (h # hops)" using i(9) by auto
    have t: "\<forall>t \<in> set ((s, h) # ts). blank_at d (snd (snd t)) \<longrightarrow> snd (snd t) \<in> set (dr_visited x')" using i(10) v by simp
    show ?thesis
    proof (intro exI conjI)
      show "emit_hops d s (h # hops) x = Inr x'" using False 1(1) i(1) by simp
      show "dr_emitted x' = dr_emitted x @ ((s, h) # ts)" using i(3) 1(3) by simp
      show "dr_out x' = dr_out x @ map (json_at d) ((s, h) # ts)" using i(4) 1(4) by simp
      show "dr_frontier x' = dr_frontier x @ (n1 @ new)" using i(5) 1(5) by simp
      show "dr_visited x' = dr_visited x @ (n1 @ new)" using i(6) 1(6) by simp
    qed (use i(2,7) set ts t b in blast)+
  qed
qed

section \<open>The search is complete\<close>

definition closed :: "dict_row list \<Rightarrow> store \<Rightarrow> int option \<Rightarrow> (int \<times> int \<times> int) set \<Rightarrow> bool" where
  "closed d st scope E \<longleftrightarrow>
     (\<forall>t \<in> E. blank_at d (snd (snd t)) \<longrightarrow> (\<forall>t' \<in> scoped st scope. fst t' = snd (snd t) \<longrightarrow> t' \<in> E))"

definition searching ::
    "dict_row list \<Rightarrow> store \<Rightarrow> int option \<Rightarrow> int \<Rightarrow> (int \<times> int \<times> int) list \<Rightarrow> json list \<Rightarrow> describe_run \<Rightarrow> bool" where
  "searching d st scope root E0 out0 x \<longleftrightarrow>
     cache_says d (dr_cache x) \<and> distinct (dr_emitted x) \<and> root \<in> set (dr_visited x) \<and> set (dr_frontier x) \<subseteq> set (dr_visited x) \<and>
     (\<forall>v \<in> set (dr_visited x). (root, v) \<in> (blank_edges d st scope)\<^sup>*) \<and>
     (\<exists>ts. dr_emitted x = E0 @ ts \<and> dr_out x = out0 @ map (json_at d) ts \<and>
        (\<forall>t \<in> set ts. t \<in> scoped st scope \<and> fst t \<in> set (dr_visited x) \<and>
           (blank_at d (snd (snd t)) \<longrightarrow> snd (snd t) \<in> set (dr_visited x)))) \<and>
     (\<forall>v \<in> set (dr_visited x) - set (dr_frontier x). \<forall>t \<in> scoped st scope. fst t = v \<longrightarrow> t \<in> set (dr_emitted x))"

lemma hops_scoped: "Pair s ` set (closure_one_hop st scope s) = {t \<in> scoped st scope. fst t = s}"
proof (rule set_eqI)
  fix t
  have "t \<in> Pair s ` set (closure_one_hop st scope s) \<longleftrightarrow> fst t = s \<and> snd t \<in> set (closure_one_hop st scope s)"
    by (cases t) auto
  then show "t \<in> Pair s ` set (closure_one_hop st scope s) \<longleftrightarrow> t \<in> {t \<in> scoped st scope. fst t = s}"
    by (cases t) (auto simp: closure_one_hop_set scoped_def)
qed

lemma last_notin_butlast_cases: "v \<notin> set (butlast xs) \<Longrightarrow> xs \<noteq> [] \<Longrightarrow> v = last xs \<or> v \<notin> set xs"
  by (induction xs) (auto split: if_splits)

lemma searching_step:
  assumes "searching d st scope root E0 out0 x" "dr_frontier x \<noteq> []" "readable d st"
  shows "\<exists>x'. emit_hops d (last (dr_frontier x)) (closure_one_hop st scope (last (dr_frontier x))) (x\<lparr>dr_frontier := butlast (dr_frontier x)\<rparr>)
      = Inr x' \<and> searching d st scope root E0 out0 x'"
proof -
  define s where "s = last (dr_frontier x)"
  define hops where "hops = closure_one_hop st scope s"
  define x0 where "x0 = x\<lparr>dr_frontier := butlast (dr_frontier x)\<rparr>"
  note inv = assms(1)[unfolded searching_def]
  have sv: "s \<in> set (dr_visited x)" using inv assms(2) by (auto simp: s_def)
  have H: "Pair s ` set hops = {t \<in> scoped st scope. fst t = s}" unfolding hops_def by (rule hops_scoped)
  have rd: "\<forall>h \<in> set hops. term_at d s \<noteq> None \<and> term_at d (fst h) \<noteq> None \<and> term_at d (snd h) \<noteq> None"
  proof
    fix h assume "h \<in> set hops"
    then have "(s, h) \<in> scoped st scope" using H by blast
    from readable_scoped[OF assms(3) this] show "term_at d s \<noteq> None \<and> term_at d (fst h) \<noteq> None \<and> term_at d (snd h) \<noteq> None" by simp
  qed
  have c0: "cache_says d (dr_cache x0)" "distinct (dr_emitted x0)" using inv by (simp_all add: x0_def)
  obtain x' ts new where e: "emit_hops d s hops x0 = Inr x'" "cache_says d (dr_cache x')" "dr_emitted x' = dr_emitted x @ ts"
     "dr_out x' = dr_out x @ map (json_at d) ts" "dr_frontier x' = butlast (dr_frontier x) @ new" "dr_visited x' = dr_visited x @ new"
     "distinct (dr_emitted x')" "set (dr_emitted x') = set (dr_emitted x) \<union> Pair s ` set hops" "set ts \<subseteq> Pair s ` set hops"
     "\<forall>t \<in> set ts. blank_at d (snd (snd t)) \<longrightarrow> snd (snd t) \<in> set (dr_visited x')"
     "\<forall>b \<in> set new. blank_at d b \<and> b \<in> snd ` set hops"
    using emit_hops_total[OF c0 rd] unfolding x0_def by auto
  obtain ts0 where t0: "dr_emitted x = E0 @ ts0" "dr_out x = out0 @ map (json_at d) ts0"
      "\<forall>t \<in> set ts0. t \<in> scoped st scope \<and> fst t \<in> set (dr_visited x) \<and>
           (blank_at d (snd (snd t)) \<longrightarrow> snd (snd t) \<in> set (dr_visited x))" using inv by blast
  have reach: "(root, v) \<in> (blank_edges d st scope)\<^sup>*" if "v \<in> set (dr_visited x')" for v
  proof (cases "v \<in> set (dr_visited x)")
    case False
    then have "v \<in> set new" using that e(6) by simp
    then obtain h where h: "h \<in> set hops" "v = snd h" "blank_at d v" using e(11) by auto
    then have "(s, h) \<in> scoped st scope" using H by blast
    then have "(s, v) \<in> blank_edges d st scope" using h by (auto simp: blank_edges_def intro!: exI[of _ s] exI[of _ "fst h"])
    moreover have "(root, s) \<in> (blank_edges d st scope)\<^sup>*" using inv sv by blast
    ultimately show ?thesis by (rule rtrancl_into_rtrancl[rotated])
  qed (use inv in blast)
  have new: "\<forall>t \<in> set (ts0 @ ts). t \<in> scoped st scope \<and> fst t \<in> set (dr_visited x') \<and>
           (blank_at d (snd (snd t)) \<longrightarrow> snd (snd t) \<in> set (dr_visited x'))"
  proof
    fix t assume "t \<in> set (ts0 @ ts)"
    then consider "t \<in> set ts0" | "t \<in> set ts" by auto
    then show "t \<in> scoped st scope \<and> fst t \<in> set (dr_visited x') \<and> (blank_at d (snd (snd t)) \<longrightarrow> snd (snd t) \<in> set (dr_visited x'))"
    proof cases
      case 1
      then show ?thesis using t0(3) e(6) by simp
    next
      case 2
      then have "t \<in> scoped st scope \<and> fst t = s" using e(9) H by blast
      then show ?thesis using 2 e(6,10) sv by simp
    qed
  qed
  have fin: "t \<in> set (dr_emitted x')" if v: "v \<in> set (dr_visited x') - set (dr_frontier x')" "t \<in> scoped st scope" "fst t = v" for v t
  proof (cases "v = s")
    case True
    then show ?thesis using that(2,3) H e(8) by blast
  next
    case False
    have "v \<notin> set new" "v \<notin> set (butlast (dr_frontier x))" using v(1) e(5) by auto
    then have "v \<in> set (dr_visited x) - set (dr_frontier x)"
      using last_notin_butlast_cases[OF _ assms(2)] False v(1) e(6) by (auto simp: s_def)
    then show ?thesis using inv that(2,3) e(8) by blast
  qed
  have "searching d st scope root E0 out0 x'" unfolding searching_def
  proof (intro conjI)
    show "\<exists>ts. dr_emitted x' = E0 @ ts \<and> dr_out x' = out0 @ map (json_at d) ts \<and>
        (\<forall>t \<in> set ts. t \<in> scoped st scope \<and> fst t \<in> set (dr_visited x') \<and>
           (blank_at d (snd (snd t)) \<longrightarrow> snd (snd t) \<in> set (dr_visited x')))"
      by (rule exI[of _ "ts0 @ ts"]) (use new t0 e(3,4) in simp)
    show "set (dr_frontier x') \<subseteq> set (dr_visited x')" using inv e(5,6) by (auto dest: in_set_butlastD)
    show "root \<in> set (dr_visited x')" using inv e(6) by simp
  qed (use e(2,7) reach fin in blast)+
  then show ?thesis using e(1) unfolding s_def[symmetric] hops_def[symmetric] x0_def[symmetric] by blast
qed

lemma searching_loop:
  "searching d st scope root E0 out0 x \<Longrightarrow> readable d st \<Longrightarrow>
   \<exists>x'. describe_loop d st scope x = Inr x' \<and> searching d st scope root E0 out0 x' \<and> dr_frontier x' = []"
proof (induction d st scope x rule: describe_loop.induct)
  case (1 d st scope x)
  show ?case
  proof (cases "dr_frontier x = []")
    case True
    then show ?thesis using "1.prems"(1) by (simp add: describe_loop.simps[of d st scope x])
  next
    case False
    obtain x1 where x1: "emit_hops d (last (dr_frontier x)) (closure_one_hop st scope (last (dr_frontier x)))
        (x\<lparr>dr_frontier := butlast (dr_frontier x)\<rparr>) = Inr x1" "searching d st scope root E0 out0 x1"
      using searching_step[OF "1.prems"(1) False "1.prems"(2)] by blast
    from "1.IH"[OF False refl x1 "1.prems"(2)] show ?thesis
      using False x1(1) by (simp add: describe_loop.simps[of d st scope x])
  qed
qed

definition described_so_far ::
    "dict_row list \<Rightarrow> store \<Rightarrow> int option \<Rightarrow> (int \<times> int \<times> int) set \<Rightarrow> described \<Rightarrow> bool" where
  "described_so_far d st scope E y \<longleftrightarrow>
     cache_says d (fst y) \<and> distinct (fst (snd y)) \<and> set (fst (snd y)) = E \<and> closed d st scope E \<and>
     snd (snd y) = map (json_at d) (fst (snd y))"

lemma described_triples_Un:
  "described_triples d st scope (A \<union> B) = described_triples d st scope A \<union> described_triples d st scope B"
  by (auto simp: described_triples_def)

text \<open>A search ends with everything the root describes, and what it has emitted is closed again.\<close>

lemma searching_complete:
  assumes "searching d st scope root E0 out0 x" "dr_frontier x = []" "closed d st scope (set E0)"
  shows "set (dr_emitted x) = set E0 \<union> described_triples d st scope {root}" "closed d st scope (set (dr_emitted x))"
proof -
  note inv = assms(1)[unfolded searching_def]
  obtain ts where ts: "dr_emitted x = E0 @ ts"
      "\<And>t. t \<in> set ts \<Longrightarrow> t \<in> scoped st scope \<and> fst t \<in> set (dr_visited x) \<and>
         (blank_at d (snd (snd t)) \<longrightarrow> snd (snd t) \<in> set (dr_visited x))" using inv by blast
  have seen: "t \<in> set (dr_emitted x)" if "v \<in> set (dr_visited x)" "t \<in> scoped st scope" "fst t = v" for v t
    using inv that assms(2) by auto
  have clo: "t' \<in> set (dr_emitted x)"
    if "t \<in> set (dr_emitted x)" "blank_at d (snd (snd t))" "t' \<in> scoped st scope" "fst t' = snd (snd t)" for t t'
  proof (cases "t \<in> set E0")
    case True
    then have "t' \<in> set E0" using assms(3) that(2-4) unfolding closed_def by blast
    then show ?thesis by (simp add: ts(1))
  next
    case False
    then have "t \<in> set ts" using that(1) by (simp add: ts(1))
    then show ?thesis using ts(2) that(2-4) seen by blast
  qed
  then show "closed d st scope (set (dr_emitted x))" unfolding closed_def by blast
  have all: "\<forall>t \<in> scoped st scope. fst t = v \<longrightarrow> t \<in> set (dr_emitted x)" if "(root, v) \<in> (blank_edges d st scope)\<^sup>*" for v
    using that
  proof (induction rule: rtrancl_induct)
    case base
    then show ?case using seen inv by blast
  next
    case (step u v)
    then obtain t where t: "t \<in> scoped st scope" "blank_at d (snd (snd t))" "u = fst t" "v = snd (snd t)"
      unfolding blank_edges_def by blast
    have "t \<in> set (dr_emitted x)" using step.IH t(1,3) by blast
    then show ?case using clo t(2,4) by blast
  qed
  have "described_triples d st scope {root} \<subseteq> set (dr_emitted x)"
    using all by (auto simp: described_triples_def)
  moreover have "set ts \<subseteq> described_triples d st scope {root}"
  proof
    fix t assume "t \<in> set ts"
    then show "t \<in> described_triples d st scope {root}" using ts(2) inv unfolding described_triples_def by blast
  qed
  ultimately show "set (dr_emitted x) = set E0 \<union> described_triples d st scope {root}" by (auto simp: ts(1))
qed

lemma describe_closure_so_far:
  assumes "described_so_far d st scope E y" "readable d st"
  shows "\<exists>y'. describe_closure d st scope root y = Inr y' \<and>
    described_so_far d st scope (E \<union> described_triples d st scope {root}) y'"
proof -
  obtain tc em out where y: "y = (tc, em, out)" by (metis prod_cases3)
  note a = assms(1)[unfolded described_so_far_def y fst_conv snd_conv]
  have "searching d st scope root em out \<lparr>dr_frontier = [root], dr_visited = [root], dr_emitted = em, dr_out = out, dr_cache = tc\<rparr>"
    using a by (simp add: searching_def)
  from searching_loop[OF this assms(2)] obtain x where
    x: "describe_loop d st scope \<lparr>dr_frontier = [root], dr_visited = [root], dr_emitted = em, dr_out = out, dr_cache = tc\<rparr> = Inr x"
       "searching d st scope root em out x" "dr_frontier x = []" by blast
  have "closed d st scope (set em)" using a by simp
  note done' = searching_complete[OF x(2,3) this]
  have "dr_out x = map (json_at d) (dr_emitted x)" "cache_says d (dr_cache x)" "distinct (dr_emitted x)"
    using x(2)[unfolded searching_def] a by auto
  then have "described_so_far d st scope (E \<union> described_triples d st scope {root}) (dr_cache x, dr_emitted x, dr_out x)"
    using done' a by (simp add: described_so_far_def)
  then show ?thesis using x(1) by (simp add: describe_closure_def y)
qed

lemma describe_closures_so_far:
  "described_so_far d st scope E y \<Longrightarrow> readable d st \<Longrightarrow>
   \<exists>y'. describe_closures d st scope roots y = Inr y' \<and>
     described_so_far d st scope (E \<union> described_triples d st scope (set roots)) y'"
proof (induction roots arbitrary: E y)
  case Nil
  then show ?case by (simp add: described_triples_def)
next
  case (Cons r roots)
  obtain y1 where y1: "describe_closure d st scope r y = Inr y1"
      "described_so_far d st scope (E \<union> described_triples d st scope {r}) y1"
    using describe_closure_so_far[OF Cons.prems] by blast
  from Cons.IH[OF y1(2) Cons.prems(2)] show ?case
    using y1(1) described_triples_Un[of d st scope "{r}" "set roots"] by (simp add: Un_assoc)
qed

text \<open>C23: a DESCRIBE ends without an error when every stored term is readable, and its rows are the triples in
  scope whose subject is a resource it was asked for or a blank node reached from one through blank-node
  objects, each of them once.\<close>

theorem describe_exact:
  assumes "readable d st" "parse query = Some (Describe_Form (Project proj inner))"
    "described_ids plan d proj inner = Inr roots"
  shows "\<exists>ts. describe parse plan d st query = Inr (map (json_at d) ts) \<and> distinct ts \<and>
    set ts = described_triples d st (literal_graph_scope st (snd (snd (peel_constants proj inner)))) (set roots)"
proof -
  let ?g = "literal_graph_scope st (snd (snd (peel_constants proj inner)))"
  have "described_so_far d st ?g {} (Map.empty, [], [])"
    by (simp add: described_so_far_def closed_def cache_says_def)
  from describe_closures_so_far[OF this assms(1), of roots] obtain y where
    y: "describe_closures d st ?g roots (Map.empty, [], []) = Inr y" "described_so_far d st ?g (described_triples d st ?g (set roots)) y"
    unfolding Un_empty_left by blast
  show ?thesis using y assms(2,3) by (auto simp: describe_def described_so_far_def)
qed

definition knot_dict :: "dict_row list" where
  "knot_dict = map (\<lambda>(i, t, v). \<lparr>row_id = i, row_key = (t, v, None, None)\<rparr>)
     [(1, 1, ''ex:a''), (2, 1, ''ex:p''), (3, 2, ''x''), (4, 2, ''y'')]"

definition knot_store :: store where
  "knot_store = fresh_store\<lparr>quads := map (\<lambda>(s, ob). \<lparr>qs = s, qp = 2, qo = ob, qg = 0, qinf = False\<rparr>) [(1, 3), (3, 4), (4, 3), (1, 3)]\<rparr>"

definition knot_query :: "string \<Rightarrow> nat query_form option" where
  "knot_query q = Some (Describe_Form (Project [''c''] (Extend (Bgp 0) ''c'' (Some ''ex:a''))))"

theorem describe_exact_witness:
  "\<exists>ts. describe knot_query (\<lambda>p. Inl Internal_Error) knot_dict knot_store ''DESCRIBE <ex:a>'' = Inr (map (json_at knot_dict) ts) \<and>
     distinct ts \<and> set ts = described_triples knot_dict knot_store None {1} \<and> (4, 2, 3) \<in> set ts"
proof -
  have r: "readable knot_dict knot_store" by (simp add: readable_def knot_store_def knot_dict_def term_at_def dict_row_of_def read_object_def)
  have p: "knot_query ''DESCRIBE <ex:a>'' = Some (Describe_Form (Project [''c''] (Extend (Bgp 0) ''c'' (Some ''ex:a''))))"
    by (simp add: knot_query_def)
  have i: "described_ids (\<lambda>p. Inl Internal_Error) knot_dict [''c''] (Extend (Bgp (0::nat)) ''c'' (Some ''ex:a'')) = Inr [1]"
    by (simp add: described_ids_def knot_dict_def lookup_iri_dict_id_def row_with_def add_new_def flatten_opts_def)
  have b: "blank_at knot_dict 3" "blank_at knot_dict 4"
    by (simp_all add: blank_at_def term_at_def dict_row_of_def knot_dict_def read_object_def)
  have s: "scoped knot_store None = {(1, 2, 3), (3, 2, 4), (4, 2, 3)}"
  proof -
    have "scoped knot_store None = (\<lambda>q. (qs q, qp q, qo q)) ` set (quads knot_store)" by (auto simp: scoped_def in_scope_def)
    then show ?thesis by (simp add: knot_store_def insert_commute)
  qed
  have "(1, 3) \<in> blank_edges knot_dict knot_store None" "(3, 4) \<in> blank_edges knot_dict knot_store None"
    unfolding blank_edges_def s using b by auto
  then have "(1, 4) \<in> (blank_edges knot_dict knot_store None)\<^sup>*" by (meson r_into_rtrancl rtrancl_trans)
  then have m: "(4, 2, 3) \<in> described_triples knot_dict knot_store None {1}" by (simp add: described_triples_def s)
  from describe_exact[where parse = knot_query and plan = "\<lambda>p. Inl Internal_Error", OF r p i] m show ?thesis by (simp, blast)
qed
end
