(* ===== verification/Bulk_Load.thy ===== *)
theory Bulk_Load
  imports Ingest Line_Ranges
begin

text \<open>
  The empty-database fast paths of \<open>src/storage/loader.rs\<close>: the parallel bulk loader (the whole
  file, cut at newlines, parsed chunk by chunk), the streaming loader (windows of lines, one map
  kept across them) and the guards that fall through to \<open>ingest_dispatch\<close>. A chunk that does not
  parse is skipped statement by statement and counted. The term-to-id maps of the two tiers are one
  map over dictionary keys, whose key spaces are disjoint. The names of the indexes and of the
  \<open>unique_term\<close> constraint that exist are a list. Ids come from the identity sequence of the
  database, with no other session drawing from it during the call.
\<close>

section \<open>Raw terms\<close>

text \<open>A literal's datatype is its IRI until the second pass.\<close>

type_synonym raw_key = "int \<times> string \<times> string option \<times> string option"
type_synonym raw_triple = "raw_key \<times> raw_key \<times> raw_key"

fun raw_node :: "named_or_blank \<Rightarrow> raw_key" where
  "raw_node (NamedNode i) = (1, i, None, None)"
| "raw_node (BlankNode l) = (2, l, None, None)"

fun raw_object :: "ox_term \<Rightarrow> raw_key" where
  "raw_object (NodeTerm n) = raw_node n"
| "raw_object (Literal v (Some l) dt) = (3, v, None, Some l)"
| "raw_object (Literal v None dt) = (3, v, Some dt, None)"

fun raw_triple :: "ox_triple \<Rightarrow> raw_triple" where
  "raw_triple (s, p, ob) = (raw_node s, (1, p, None, None), raw_object ob)"

text \<open>The lenient parse: the triples, and how many statements were skipped. No base IRI is given.\<close>

definition parse_items :: "turtle_parser \<Rightarrow> string \<Rightarrow> ox_triple option list" where
  "parse_items turtle bs = (case turtle None bs of None \<Rightarrow> [] | Some items \<Rightarrow> items)"

definition parse_chunk :: "turtle_parser \<Rightarrow> string \<Rightarrow> raw_triple list \<times> int" where
  "parse_chunk turtle bs =
     (let items = parse_items turtle bs
      in (map raw_triple (flatten_opts items), int (length (filter (\<lambda>i. i = None) items))))"

section \<open>Keys\<close>

definition plain_key :: "raw_key \<Rightarrow> dict_key" where
  "plain_key r = (case r of (tt, lv, dt, lang) \<Rightarrow> (tt, lv, None, None))"

definition tier1_keys :: "raw_triple \<Rightarrow> dict_key list" where
  "tier1_keys t =
     (case t of (s, p, ob) \<Rightarrow>
        (if fst s \<noteq> 3 then [plain_key s] else []) @ [plain_key p] @
        (if fst ob \<noteq> 3 then [plain_key ob]
         else case fst (snd (snd ob)) of Some dt \<Rightarrow> [iri_key dt] | None \<Rightarrow> []))"

text \<open>The key of a term once the first tier is in the map; indexing the map with a stranger panics.\<close>

definition full_key :: "(dict_key \<Rightarrow> int option) \<Rightarrow> raw_key \<Rightarrow> dict_key option" where
  "full_key m r =
     (case r of (tt, lv, dt, lang) \<Rightarrow>
        if tt = 3
        then (case dt of
                None \<Rightarrow> Some (3, lv, None, lang)
              | Some d \<Rightarrow> map_option (\<lambda>e. (3, lv, Some e, lang)) (m (iri_key d)))
        else Some (tt, lv, None, None))"

definition tier2_keys :: "(dict_key \<Rightarrow> int option) \<Rightarrow> raw_triple list \<Rightarrow> dict_key list option" where
  "tier2_keys m ts =
     those (map (full_key m) (filter (\<lambda>r. fst r = 3) (map (\<lambda>(s, p, ob). ob) ts)))"

definition resolve_raw :: "(dict_key \<Rightarrow> int option) \<Rightarrow> raw_key \<Rightarrow> int option" where
  "resolve_raw m r = Option.bind (full_key m r) m"

definition resolve_triple :: "(dict_key \<Rightarrow> int option) \<Rightarrow> raw_triple \<Rightarrow> (int \<times> int \<times> int) option" where
  "resolve_triple m t =
     (case t of (s, p, ob) \<Rightarrow>
        (case (resolve_raw m s, resolve_raw m p, resolve_raw m ob) of
           (Some i, Some j, Some k) \<Rightarrow> Some (i, j, k)
         | _ \<Rightarrow> None))"

section \<open>Reserved ids\<close>

definition reserve :: "nat \<Rightarrow> nat \<Rightarrow> world \<Rightarrow> int list \<times> world" where
  "reserve b n w =
     (let db = bdb (backends w b); lo = next_id w db
      in (map (\<lambda>j. lo + int j) [0..<n], w\<lparr>next_id := (next_id w)(db := lo + int n)\<rparr>))"

text \<open>\<open>INSERT ... OVERRIDING SYSTEM VALUE\<close>: rows under ids of the caller's choice.\<close>

fun row_of :: "int \<times> dict_key \<Rightarrow> dict_row" where
  "row_of (i, k) = \<lparr>row_id = i, row_key = k\<rparr>"

definition ins_rows :: "nat \<Rightarrow> (int \<times> dict_key) list \<Rightarrow> world \<Rightarrow> world" where
  "ins_rows b kvs w =
     (let bk = backends w b
      in set_backend b
           (bk\<lparr>inflight := inflight bk @ map (\<lambda>kv. (row_of kv, hd (subs bk))) kvs\<rparr>) w)"

section \<open>Indexes\<close>

definition quad_indexes :: "string list" where
  "quad_indexes = [''_pgrdf_idx_spo'', ''_pgrdf_idx_pos'', ''_pgrdf_idx_osp'', ''_pgrdf_dict_val_idx'']"

definition unique_term :: string where "unique_term = ''unique_term''"

definition bulk_drop_indexes :: "string list \<Rightarrow> string list" where
  "bulk_drop_indexes idx = filter (\<lambda>i. i \<noteq> unique_term) (filter (\<lambda>i. i \<notin> set quad_indexes) idx)"

definition create_index :: "string \<Rightarrow> string list \<Rightarrow> string list res" where
  "create_index i idx = (if i \<in> set idx then Inl Duplicate_Object else Inr (idx @ [i]))"

text \<open>
  \<open>UNIQUE (term_type, lexical_md5, datatype_iri_id, language_tag)\<close>: PostgreSQL compares NULLs as
  distinct, so only rows with all four columns set can clash.
\<close>

definition clashes :: "(string \<Rightarrow> string) \<Rightarrow> dict_key \<Rightarrow> dict_key \<Rightarrow> bool" where
  "clashes md5 k k' =
     (case (k, k') of ((tt, lv, dt, lang), (tt', lv', dt', lang')) \<Rightarrow>
        tt = tt' \<and> md5 lv = md5 lv' \<and> dt = dt' \<and> dt \<noteq> None \<and> lang = lang' \<and> lang \<noteq> None)"

fun some_clash :: "(string \<Rightarrow> string) \<Rightarrow> dict_key list \<Rightarrow> bool" where
  "some_clash md5 [] = False"
| "some_clash md5 (k # ks) = (list_ex (clashes md5 k) ks \<or> some_clash md5 ks)"

definition add_unique_term :: "(string \<Rightarrow> string) \<Rightarrow> dict_row list \<Rightarrow> string list \<Rightarrow> string list res" where
  "add_unique_term md5 dict idx =
     (if unique_term \<in> set idx then Inl Duplicate_Object
      else if some_clash md5 (map row_key dict) then Inl Unique_Violation
      else Inr (idx @ [unique_term]))"

fun create_indexes :: "string list \<Rightarrow> string list \<Rightarrow> string list res" where
  "create_indexes [] idx = Inr idx"
| "create_indexes (i # is) idx = res_bind (create_index i idx) (create_indexes is)"

definition bulk_rebuild_indexes :: "(string \<Rightarrow> string) \<Rightarrow> dict_row list \<Rightarrow> string list \<Rightarrow> string list res" where
  "bulk_rebuild_indexes md5 dict idx =
     res_bind (create_indexes quad_indexes idx) (add_unique_term md5 dict)"

section \<open>Writing the quads\<close>

definition BULK_QUAD_BATCH :: nat where "BULK_QUAD_BATCH = 50000"

fun push_ids ::
    "int \<Rightarrow> (int \<times> int \<times> int) list \<Rightarrow> (int \<times> int \<times> int) list \<times> loader \<Rightarrow> ((int \<times> int \<times> int) list \<times> loader) res" where
  "push_ids g [] bst = Inr bst"
| "push_ids g (i # is) (buf, st) =
     (let buf = buf @ [i] in
      if BULK_QUAD_BATCH \<le> length buf
      then res_bind (flush_batch g buf st) (\<lambda>st. push_ids g is ([], st))
      else push_ids g is (buf, st))"

section \<open>The bulk loader\<close>

definition bulk_chunk ::
    "nat \<Rightarrow> dict_key list \<Rightarrow> (dict_key \<Rightarrow> int option) \<times> world \<Rightarrow> (dict_key \<Rightarrow> int option) \<times> world" where
  "bulk_chunk b chunk mw =
     (case mw of (m, w) \<Rightarrow>
        (let (ids, w) = reserve b (length chunk) w
         in (learn (zip chunk ids) m, ins_rows b (zip ids chunk) w)))"

definition bulk_tier ::
    "nat \<Rightarrow> dict_key list \<Rightarrow> (dict_key \<Rightarrow> int option) \<times> world \<Rightarrow> (dict_key \<Rightarrow> int option) \<times> world" where
  "bulk_tier b keys mw = fold (bulk_chunk b) (chunks 500000 keys) mw"

definition ingest_turtle_parallel_bulk ::
    "(string \<Rightarrow> string) \<Rightarrow> (dict_key list \<Rightarrow> dict_key list) \<Rightarrow> nat \<Rightarrow> turtle_parser \<Rightarrow> nat \<Rightarrow> int
      \<Rightarrow> string \<Rightarrow> int \<Rightarrow> world \<Rightarrow> store \<Rightarrow> string list \<Rightarrow> (loader \<times> string list) res" where
  "ingest_turtle_parallel_bulk md5 hs b turtle nthreads bulk_defer_index_min bytes g w st idx =
     (let parsed = map (\<lambda>r. parse_chunk turtle (slice bytes r)) (bulk_chunks bytes (max nthreads 1));
          ts = concat (map fst parsed);
          defer = (bulk_defer_index_min \<le> int (length ts));
          stats = zero_stats\<lparr>st_path := ''parallel_bulk'', n_triples := int (length ts),
                    n_parse_skipped := sum_list (map snd parsed), st_defer_index := defer\<rparr>;
          idx = (if defer then bulk_drop_indexes idx else idx);
          (m, w) = bulk_tier b (hs (remdups (concat (map tier1_keys ts)))) (Map.empty, w)
      in case tier2_keys m ts of
           None \<Rightarrow> Inl Internal_Error
         | Some keys \<Rightarrow>
             (let (m, w) = bulk_tier b (hs (remdups keys)) (m, w) in
              case those (map (resolve_triple m) ts) of
                None \<Rightarrow> Inl Internal_Error
              | Some ids \<Rightarrow>
                  res_bind (push_ids g ids ([], \<lparr>hm = m, lworld = w, lstore = st, lstats = stats\<rparr>)) (\<lambda>(buf, ld).
                    res_bind (flush_batch g buf ld) (\<lambda>ld.
                      if defer
                      then res_bind (bulk_rebuild_indexes md5 (visible (lworld ld) b) idx) (\<lambda>idx. Inr (ld, idx))
                      else Inr (ld, idx)))))"

section \<open>The streaming loader\<close>

text \<open>One window: lines that are not blank and no comment, until it is full or the file ends.\<close>

definition skippable :: "string \<Rightarrow> bool" where
  "skippable l \<longleftrightarrow> (let t = trim_start l in t = [] \<or> hd t = CHR ''#'')"

fun read_window :: "nat \<Rightarrow> string list \<Rightarrow> string list \<Rightarrow> (string list \<times> string list \<times> bool) option" where
  "read_window n [] win = Some (win, [], length win < n)"
| "read_window n (l # ls) win =
     (if length win < n
      then (if \<not> valid_utf8 l then None
            else if skippable l then read_window n ls win
            else read_window n ls (win @ [l]))
      else Some (win, l # ls, False))"

text \<open>The id block in use, \<open>next_id\<close> and \<open>id_hi\<close>, the map, and the rows not yet written.\<close>

record stream_state =
  sdict :: "dict_key \<Rightarrow> int option"
  scount :: int              \<comment> \<open>\<open>dict.len()\<close>\<close>
  sblock :: "int \<times> int"
  srows :: "(int \<times> dict_key) list"
  sworld :: world

definition alloc_id :: "nat \<Rightarrow> nat \<Rightarrow> stream_state \<Rightarrow> int \<times> stream_state" where
  "alloc_id b block_sz s =
     (let s = (if snd (sblock s) \<le> fst (sblock s)
               then (let (ids, w) = reserve b block_sz (sworld s); lo = Min (set ids)
                     in s\<lparr>sblock := (lo, lo + int block_sz), sworld := w\<rparr>)
               else s)
      in (fst (sblock s), s\<lparr>sblock := (fst (sblock s) + 1, snd (sblock s))\<rparr>))"

definition intern_new :: "nat \<Rightarrow> nat \<Rightarrow> dict_key \<Rightarrow> stream_state \<Rightarrow> stream_state" where
  "intern_new b block_sz k s =
     (if sdict s k \<noteq> None then s
      else (let (i, s) = alloc_id b block_sz s
            in s\<lparr>srows := srows s @ [(i, k)], sdict := (sdict s)(k \<mapsto> i), scount := scount s + 1\<rparr>))"

definition stream_ins :: "nat \<Rightarrow> stream_state \<Rightarrow> stream_state" where
  "stream_ins b s =
     (if srows s = [] then s else s\<lparr>sworld := ins_rows b (srows s) (sworld s), srows := []\<rparr>)"

definition stream_tier :: "nat \<Rightarrow> nat \<Rightarrow> dict_key list \<Rightarrow> stream_state \<Rightarrow> stream_state" where
  "stream_tier b block_sz keys s = stream_ins b (fold (intern_new b block_sz) keys s)"

definition count_window :: "int \<Rightarrow> int \<Rightarrow> loader_stats \<Rightarrow> loader_stats" where
  "count_window triples skipped s =
     s\<lparr>n_triples := n_triples s + triples, n_parse_skipped := n_parse_skipped s + skipped\<rparr>"

definition stream_window ::
    "nat \<Rightarrow> turtle_parser \<Rightarrow> nat \<Rightarrow> int \<Rightarrow> string list
      \<Rightarrow> stream_state \<times> (int \<times> int \<times> int) list \<times> loader \<Rightarrow> (stream_state \<times> (int \<times> int \<times> int) list \<times> loader) res" where
  "stream_window b turtle block_sz g win sbl =
     (case sbl of (s, buf, ld) \<Rightarrow>
        (let parsed = map (parse_chunk turtle) win; ts = concat (map fst parsed);
             ld = tick (count_window (int (length ts)) (sum_list (map snd parsed))) ld;
             s = stream_tier b block_sz (concat (map tier1_keys ts)) s
         in case tier2_keys (sdict s) ts of
              None \<Rightarrow> Inl Internal_Error
            | Some keys \<Rightarrow>
                (let s = stream_tier b block_sz keys s in
                 case those (map (resolve_triple (sdict s)) ts) of
                   None \<Rightarrow> Inl Internal_Error
                 | Some ids \<Rightarrow>
                     res_bind (push_ids g ids (buf, ld)) (\<lambda>(buf, ld).
                       Inr (s, buf, tick (\<lambda>x. x\<lparr>n_windows := n_windows x + 1\<rparr>) ld)))))"

lemma read_window_shrinks:
  "read_window n ls win = Some (win', rest, eof) \<Longrightarrow>
     length rest + length win' \<le> length ls + length win"
  by (induction n ls win rule: read_window.induct) (auto split: if_splits)

function stream_loop ::
    "nat \<Rightarrow> turtle_parser \<Rightarrow> nat \<Rightarrow> nat \<Rightarrow> int \<Rightarrow> string list
      \<Rightarrow> stream_state \<times> (int \<times> int \<times> int) list \<times> loader \<Rightarrow> (stream_state \<times> (int \<times> int \<times> int) list \<times> loader) res" where
  "stream_loop b turtle window_triples block_sz g ls sbl =
     (case read_window window_triples ls [] of
        None \<Rightarrow> Inl Internal_Error
      | Some (win, rest, eof) \<Rightarrow>
          if win = [] then Inr sbl
          else res_bind (stream_window b turtle block_sz g win sbl) (\<lambda>sbl.
                 if eof then Inr sbl else stream_loop b turtle window_triples block_sz g rest sbl))"
  by pat_completeness auto
termination
proof (relation "measure (\<lambda>(b, turtle, n, block_sz, g, ls, sbl). length ls)")
  fix n :: nat and ls win rest :: "string list" and eof :: bool and p q
  fix b :: nat and turtle :: turtle_parser and block_sz :: nat and g :: int
  fix sbl x :: "stream_state \<times> (int \<times> int \<times> int) list \<times> loader"
  assume "read_window n ls [] = Some p" "(win, q) = p" "(rest, eof) = q" "win \<noteq> []"
  then have "length rest < length ls" using read_window_shrinks[of n ls "[]" win rest eof] by (cases win) auto
  then show "((b, turtle, n, block_sz, g, rest, x), (b, turtle, n, block_sz, g, ls, sbl))
      \<in> measure (\<lambda>(b, turtle, n, block_sz, g, ls, sbl). length ls)" by simp
qed simp

declare stream_loop.simps [simp del]

definition ingest_turtle_streaming ::
    "(string \<Rightarrow> string) \<Rightarrow> nat \<Rightarrow> turtle_parser \<Rightarrow> string \<Rightarrow> int \<Rightarrow> nat \<Rightarrow> nat \<Rightarrow> world \<Rightarrow> store \<Rightarrow> string list
      \<Rightarrow> (loader \<times> string list) res" where
  "ingest_turtle_streaming md5 b turtle content g window_triples id_reserve_block w st idx =
     (let idx = bulk_drop_indexes idx;
          s = \<lparr>sdict = Map.empty, scount = 0, sblock = (0, 0), srows = [], sworld = w\<rparr>;
          ld = start_load w st;
          ld = tick (\<lambda>x. x\<lparr>st_path := ''streaming'', st_defer_index := True\<rparr>) ld
      in res_bind (stream_loop b turtle window_triples (max id_reserve_block 1) g (split_lines content) (s, [], ld))
           (\<lambda>(s, buf, ld). res_bind (flush_batch g buf ld) (\<lambda>ld.
              (let ld = tick (\<lambda>x. x\<lparr>n_dict_terms := scount s\<rparr>) (ld\<lparr>lworld := sworld s, hm := sdict s\<rparr>)
               in res_bind (bulk_rebuild_indexes md5 (visible (sworld s) b) idx) (\<lambda>idx.
                    Inr (ld, idx))))))"

section \<open>The guards\<close>

text \<open>Anything but an empty dictionary and the owner of the tables takes the standard path.\<close>

definition dictionary_empty :: "nat \<Rightarrow> world \<Rightarrow> bool" where
  "dictionary_empty b w \<longleftrightarrow> visible w b = []"

definition bulk_load_guarded ::
    "hasher \<Rightarrow> (dict_key list \<Rightarrow> dict_key list) \<Rightarrow> (string \<Rightarrow> string) \<Rightarrow> (string \<Rightarrow> string) \<Rightarrow> nat \<Rightarrow> turtle_parser
      \<Rightarrow> ingest_conf \<Rightarrow> nat \<Rightarrow> int \<Rightarrow> bool \<Rightarrow> string \<Rightarrow> int \<Rightarrow> string option \<Rightarrow> bool \<times> world \<Rightarrow> store \<Rightarrow> string list
      \<Rightarrow> (bool \<times> loader \<times> string list) res" where
  "bulk_load_guarded hasher hs sha md5 b turtle cf nthreads defer_min owns_storage content g base dw st idx =
     (if dictionary_empty b (snd dw) \<and> owns_storage
      then res_bind (ingest_turtle_parallel_bulk md5 hs b turtle nthreads defer_min content g (snd dw) st idx)
             (\<lambda>(ld, idx). Inr (fst dw, ld, idx))
      else res_bind (ingest_dispatch hasher hs sha b turtle cf content g base dw st) (\<lambda>(d, ld). Inr (d, ld, idx)))"

definition streaming_load_guarded ::
    "hasher \<Rightarrow> (dict_key list \<Rightarrow> dict_key list) \<Rightarrow> (string \<Rightarrow> string) \<Rightarrow> (string \<Rightarrow> string) \<Rightarrow> nat \<Rightarrow> turtle_parser
      \<Rightarrow> ingest_conf \<Rightarrow> nat \<Rightarrow> nat \<Rightarrow> bool \<Rightarrow> string \<Rightarrow> int \<Rightarrow> string option \<Rightarrow> bool \<times> world \<Rightarrow> store \<Rightarrow> string list
      \<Rightarrow> (bool \<times> loader \<times> string list) res" where
  "streaming_load_guarded hasher hs sha md5 b turtle cf window_triples id_reserve_block owns_storage content g base dw st idx =
     (if dictionary_empty b (snd dw) \<and> owns_storage
      then res_bind (ingest_turtle_streaming md5 b turtle content g window_triples id_reserve_block (snd dw) st idx)
             (\<lambda>(ld, idx). Inr (fst dw, ld, idx))
      else res_bind (ingest_dispatch hasher hs sha b turtle cf content g base dw st) (\<lambda>(d, ld). Inr (d, ld, idx)))"

text \<open>The UDF asks for the privilege to read server files, and for the lock.\<close>

definition require_server_file_read :: "bool \<Rightarrow> unit res" where
  "require_server_file_read allowed = (if allowed then Inr () else Inl Insufficient_Privilege)"

definition nonempty_base :: "string option \<Rightarrow> string option" where
  "nonempty_base base = (case base of None \<Rightarrow> None | Some s \<Rightarrow> if s = [] then None else Some s)"

definition load_turtle_streaming ::
    "hasher \<Rightarrow> (dict_key list \<Rightarrow> dict_key list) \<Rightarrow> (string \<Rightarrow> string) \<Rightarrow> (string \<Rightarrow> string) \<Rightarrow> nat \<Rightarrow> turtle_parser
      \<Rightarrow> ingest_conf \<Rightarrow> bool \<Rightarrow> bool \<Rightarrow> string \<Rightarrow> int \<Rightarrow> int \<Rightarrow> int \<Rightarrow> string option \<Rightarrow> bool \<times> world \<Rightarrow> store \<Rightarrow> string list
      \<Rightarrow> (bool \<times> loader \<times> string list) res" where
  "load_turtle_streaming hasher hs sha md5 b turtle cf may_read owns_storage content g window_triples id_reserve_block base dw st idx =
     res_bind (require_server_file_read may_read) (\<lambda>_.
       res_bind (require_unlocked g st) (\<lambda>_.
         streaming_load_guarded hasher hs sha md5 b turtle cf (nat (max window_triples 1)) (nat (max id_reserve_block 1))
           owns_storage content g (nonempty_base base) dw st idx))"
section \<open>Reserving and inserting\<close>

lemma those_map_Some: "those (map f xs) = Some ys \<longleftrightarrow> list_all2 (\<lambda>x y. f x = Some y) xs ys"
proof (induction xs arbitrary: ys)
  case (Cons x xs)
  then show ?case by (cases ys) (auto split: option.splits simp: list_all2_Cons1)
qed auto

lemma those_map_ex: "\<forall>x \<in> set xs. f x \<noteq> None \<Longrightarrow> \<exists>ys. those (map f xs) = Some ys"
  by (induction xs) auto

lemma those_map_set: "those (map f xs) = Some ys \<Longrightarrow> set ys = (the \<circ> f) ` set xs"
  by (induction xs arbitrary: ys) (auto split: option.splits)

text \<open>An id handed out by the sequence that no row carries yet.\<close>

definition free_id :: "nat \<Rightarrow> world \<Rightarrow> int \<Rightarrow> bool" where
  "free_id b w i \<longleftrightarrow>
     (let db = bdb (backends w b) in
      i < next_id w db \<and> (\<forall>r \<in> set (rows w db). row_id r \<noteq> i) \<and>
      (\<forall>b'. bdb (backends w b') = db \<longrightarrow> i \<notin> set (own_ids w b')))"

lemma free_idD:
  assumes "free_id b w i"
  shows "i < next_id w (bdb (backends w b))" "r \<in> set (rows w (bdb (backends w b))) \<Longrightarrow> row_id r \<noteq> i"
    "bdb (backends w b') = bdb (backends w b) \<Longrightarrow> i \<notin> set (own_ids w b')"
  using assms by (auto simp: free_id_def Let_def)

lemma free_not_visible: "free_id b w i \<Longrightarrow> i \<notin> row_id ` set (visible w b)"
  by (auto simp: free_id_def Let_def visible_def own_ids_def)

lemma row_of_simps [simp]: "row_id (row_of kv) = fst kv" "row_key (row_of kv) = snd kv"
  by (cases kv, simp)+

lemma reserve_ok:
  assumes "dict_ok hasher b R db w" "reserve b n w = (ids, w')"
  shows "dict_ok hasher b R db w'" "visible w' b = visible w b" "distinct ids"
    "length ids = n" "i \<in> set ids \<Longrightarrow> free_id b w' i" "free_id b w i \<Longrightarrow> free_id b w' i \<and> i \<notin> set ids"
    "set ids = {next_id w db ..< next_id w db + int n}"
proof -
  let ?lo = "next_id w db"
  have db: "bdb (backends w b) = db" and ok: "ids_ok w" "world_ok hasher w" "rows w = R"
    using assms(1) by (simp_all add: dict_ok_def)
  have ids: "ids = map (\<lambda>j. ?lo + int j) [0..<n]" and w': "w' = w\<lparr>next_id := (next_id w)(db := ?lo + int n)\<rparr>"
    using assms(2) by (auto simp: reserve_def Let_def db)
  have same: "rows w' = rows w" "backends w' = backends w" "cache w' = cache w"
    "next_id w' d = (if d = db then ?lo + int n else next_id w d)" for d by (simp_all add: w')
  have own: "own_ids w' c = own_ids w c" for c by (simp add: own_ids_def same)
  have "ids_ok w'"
  proof (rule ids_okI, goal_cases)
    case (1 d) then show ?case using ids_okD(1)[OF ok(1)] by (simp add: same)
  next
    case (2 d r) then show ?case using ids_okD(2)[OF ok(1), of r d] by (auto simp: same)
  next
    case (3 c) then show ?case using ids_okD(3)[OF ok(1)] by (simp add: own)
  next
    case (4 c i) then show ?case using ids_okD(4)[OF ok(1), of i c] by (auto simp: own same)
  next
    case (5 c i r) then show ?case using ids_okD(5)[OF ok(1), of i c r] by (simp add: own same)
  next
    case (6 c c' i) then show ?case using ids_okD(6)[OF ok(1), of c c' i] by (simp add: own same)
  qed
  moreover have "world_ok hasher w'"
    using world_ok_update[OF ok(2), of w' b] backend_ok_mono[of hasher w b w'] ok(2)
    by (simp add: same world_ok_def)
  ultimately show "dict_ok hasher b R db w'" using ok(3) db by (simp add: dict_ok_def same)
  show "visible w' b = visible w b" by (simp add: visible_def w')
  show "distinct ids" "length ids = n" by (simp_all add: ids distinct_map inj_on_def)
  show set: "set ids = {?lo ..< ?lo + int n}"
  proof -
    have "i \<in> set ids" if "?lo \<le> i" "i < ?lo + int n" for i
      using that by (auto simp: ids image_iff intro!: bexI[of _ "nat (i - ?lo)"])
    then show ?thesis by (auto simp: ids)
  qed
  show "free_id b w' i" if "i \<in> set ids"
  proof -
    have i: "?lo \<le> i" "i < ?lo + int n" using that set by auto
    have "\<forall>r \<in> set (rows w db). row_id r \<noteq> i" using ids_okD(2)[OF ok(1), of _ db] i(1) by force
    moreover have "\<forall>b'. bdb (backends w b') = db \<longrightarrow> i \<notin> set (own_ids w b')"
      using ids_okD(4)[OF ok(1), of i] i(1) by force
    ultimately show ?thesis using i(2) by (simp add: free_id_def Let_def same db own)
  qed
  show "free_id b w' i \<and> i \<notin> set ids" if "free_id b w i"
    using that set by (auto simp: free_id_def Let_def same db own)
qed

lemma ins_rows_ok:
  assumes "dict_ok hasher b R db w" "distinct (map fst kvs)" "\<forall>i \<in> fst ` set kvs. free_id b w i"
  shows "dict_ok hasher b R db (ins_rows b kvs w)"
    "visible (ins_rows b kvs w) b = visible w b @ map row_of kvs"
    "free_id b w i \<Longrightarrow> i \<notin> fst ` set kvs \<Longrightarrow> free_id b (ins_rows b kvs w) i"
proof -
  let ?w = "ins_rows b kvs w"
  have db: "bdb (backends w b) = db" and ok: "ids_ok w" "world_ok hasher w" "rows w = R"
    using assms(1) by (simp_all add: dict_ok_def)
  have same: "rows ?w = rows w" "next_id ?w = next_id w" "bdb (backends ?w c) = bdb (backends w c)" for c
    by (simp_all add: ins_rows_def Let_def)
  have own: "own_ids ?w c = (if c = b then own_ids w b @ map fst kvs else own_ids w c)" for c
    by (simp add: own_ids_def ins_rows_def Let_def comp_def)
  have "ids_ok ?w"
  proof (rule ids_okI, goal_cases)
    case (1 d) then show ?case using ids_okD(1)[OF ok(1)] by (simp add: same)
  next
    case (2 d r) then show ?case using ids_okD(2)[OF ok(1), of r d] by (simp add: same)
  next
    case (3 c) then show ?case
      using ids_okD(3)[OF ok(1), of c] assms(2,3) free_idD(3)[of b w _ b] by (auto simp: own)
  next
    case (4 c i) then show ?case
      using ids_okD(4)[OF ok(1), of i c] assms(3) free_idD(1)[of b w i] by (auto simp: own same split: if_splits)
  next
    case (5 c i r) then show ?case
      using ids_okD(5)[OF ok(1), of i c r] assms(3) free_idD(2)[of b w i r] by (auto simp: own same split: if_splits)
  next
    case (6 c c' i) then show ?case
      using ids_okD(6)[OF ok(1), of c c' i] assms(3) free_idD(3)[of b w i c] free_idD(3)[of b w i c']
      by (auto simp: own same split: if_splits)
  qed
  moreover have "backend_ok hasher ?w b"
    using backend_okD[OF ok(2), of b] hd_in_set
    unfolding backend_ok_def ins_rows_def entry_ok_def backed_def Let_def by auto fastforce+
  then have "world_ok hasher ?w"
    by (intro world_ok_update[OF ok(2), of ?w b]) (simp_all add: ins_rows_def Let_def)
  ultimately show "dict_ok hasher b R db ?w" using ok(3) db by (simp add: dict_ok_def same)
  show "visible ?w b = visible w b @ map row_of kvs"
    by (simp add: visible_def ins_rows_def Let_def comp_def)
  show "free_id b w i \<Longrightarrow> i \<notin> fst ` set kvs \<Longrightarrow> free_id b ?w i"
    by (auto simp: free_id_def Let_def same own image_iff)
qed
section \<open>The contract of a tier\<close>

text \<open>
  A tier gives every key of a list an id and a row, or finds the id it already has: the map then
  covers the list, every pair of it is a row of the dictionary, and the dictionary holds one row
  per key of the map.
\<close>

definition indexes :: "dict_row list \<Rightarrow> (dict_key \<Rightarrow> int option) \<Rightarrow> bool" where
  "indexes d m \<longleftrightarrow> backs d m \<and> distinct (map row_key d) \<and> row_key ` set d = dom m"

locale tier_writer =
  fixes run :: "dict_key list \<Rightarrow> 's \<Rightarrow> 's" and dict :: "'s \<Rightarrow> dict_row list"
    and mp :: "'s \<Rightarrow> dict_key \<Rightarrow> int option" and ok :: "'s \<Rightarrow> bool" and takes :: "dict_key list \<Rightarrow> 's \<Rightarrow> bool"
  assumes run_ok: "ok s \<Longrightarrow> takes ks s \<Longrightarrow> ok (run ks s)"
    and ok_indexes: "ok s \<Longrightarrow> indexes (dict s) (mp s)"
    and run_dom: "ok s \<Longrightarrow> takes ks s \<Longrightarrow> dom (mp (run ks s)) = dom (mp s) \<union> set ks"
    and run_keeps: "ok s \<Longrightarrow> takes ks s \<Longrightarrow> mp s k = Some i \<Longrightarrow> mp (run ks s) k = Some i"
    and run_grows: "ok s \<Longrightarrow> takes ks s \<Longrightarrow> \<exists>new. dict (run ks s) = dict s @ new"

lemma resolve_node:
  "backs d m \<Longrightarrow> resolve_raw m (raw_node n) = Some i \<Longrightarrow> dict_row_of d i = Some (node_key n)"
  by (cases n) (auto simp: resolve_raw_def full_key_def dest: backsD)

lemma resolve_object:
  assumes "backs d m" "resolve_raw m (raw_object ob) = Some i"
  shows "term_denoted d i ob"
proof (cases ob)
  case (NodeTerm n)
  then show ?thesis using assms resolve_node by simp
next
  case (Literal v lang dt)
  then show ?thesis
    using assms by (cases lang) (auto simp: resolve_raw_def full_key_def bind_eq_Some_conv dest: backsD)
qed

lemma resolve_triple_denotes:
  assumes "backs d m" "resolve_triple m (raw_triple t) = Some ids"
  shows "denotes d ids t"
proof -
  obtain s p ob where t: "t = (s, p, ob)" by (metis prod_cases3)
  obtain i j k where r: "resolve_raw m (raw_node s) = Some i" "resolve_raw m (1, p, None, None) = Some j"
    "resolve_raw m (raw_object ob) = Some k" "ids = (i, j, k)"
    using assms(2) by (auto simp: resolve_triple_def t split: option.splits)
  have "dict_row_of d j = Some (iri_key p)"
    using resolve_node[OF assms(1), of "NamedNode p" j] r(2) by (simp add: iri_key_def)
  then show ?thesis
    using resolve_node[OF assms(1) r(1)] resolve_object[OF assms(1) r(3)] r(4) by (simp add: denotes_def t)
qed

lemma raw_object_literal: "fst (raw_object ob) = 3 \<longleftrightarrow> is_literal ob"
proof (cases ob)
  case (NodeTerm n)
  then show ?thesis by (cases n) simp_all
next
  case (Literal v lang dt)
  then show ?thesis by (cases lang) simp_all
qed

lemma full_key_mono:
  assumes "\<And>k i. m k = Some i \<Longrightarrow> m' k = Some i" "full_key m r = Some k"
  shows "full_key m' r = Some k"
proof -
  obtain tt lv dt lang where r: "r = (tt, lv, dt, lang)" by (metis prod_cases4)
  have "tt = 3 \<Longrightarrow> dt = Some d \<Longrightarrow> m' (iri_key d) = m (iri_key d)" for d
    using assms(2) assms(1)[of "iri_key d"] by (auto simp: full_key_def r)
  then show ?thesis using assms(2) by (cases dt) (auto simp: full_key_def r)
qed

lemma tier1_mem:
  "t \<in> set ts \<Longrightarrow> set (concat (map tier1_keys (map raw_triple ts))) \<subseteq> X \<Longrightarrow> set (tier1_keys (raw_triple t)) \<subseteq> X"
  by fastforce

lemma tier1_covers:
  assumes "set (tier1_keys (raw_triple (s, p, ob))) \<subseteq> dom m"
  shows "resolve_raw m (raw_node s) \<noteq> None" "resolve_raw m (1, p, None, None) \<noteq> None"
    "\<not> is_literal ob \<Longrightarrow> resolve_raw m (raw_object ob) \<noteq> None" "full_key m (raw_object ob) \<noteq> None"
proof -
  show "resolve_raw m (raw_node s) \<noteq> None" "resolve_raw m (1, p, None, None) \<noteq> None"
    using assms by (cases s; auto simp: tier1_keys_def resolve_raw_def full_key_def plain_key_def)+
  show "\<not> is_literal ob \<Longrightarrow> resolve_raw m (raw_object ob) \<noteq> None"
    using assms by (induction ob rule: is_literal.induct, rename_tac n, case_tac n)
      (auto simp: tier1_keys_def resolve_raw_def full_key_def plain_key_def)
  show "full_key m (raw_object ob) \<noteq> None"
  proof (cases ob)
    case (NodeTerm n)
    then show ?thesis by (cases n) (simp_all add: full_key_def)
  next
    case (Literal v lang dt)
    then show ?thesis using assms by (cases lang) (auto simp: tier1_keys_def full_key_def)
  qed
qed

context tier_writer
begin

lemma tier2_defined:
  assumes "set (concat (map tier1_keys (map raw_triple ts))) \<subseteq> dom m"
  shows "\<exists>ks. tier2_keys m (map raw_triple ts) = Some ks"
  unfolding tier2_keys_def
proof (intro those_map_ex ballI)
  fix r assume "r \<in> set (filter (\<lambda>r. fst r = 3) (map (\<lambda>(s, p, ob). ob) (map raw_triple ts)))"
  then obtain s p ob where t: "(s, p, ob) \<in> set ts" "r = raw_object ob" by auto
  then show "full_key m r \<noteq> None" using tier1_covers(4)[OF tier1_mem[OF t(1) assms]] by simp
qed

text \<open>Both tiers in turn: every triple then resolves, to ids that denote it.\<close>

lemma two_tiers:
  assumes "ok s" "set k1 = set (concat (map tier1_keys (map raw_triple ts)))" "takes k1 s" "s1 = run k1 s"
    and "tier2_keys (mp s1) (map raw_triple ts) = Some ks" "set k2 = set ks" "takes k2 s1" "s2 = run k2 s1"
  shows "ok s2 \<and> (\<exists>new. dict s2 = dict s @ new) \<and> dom (mp s2) = dom (mp s) \<union> set k1 \<union> set k2 \<and>
    (\<exists>ids. those (map (resolve_triple (mp s2)) (map raw_triple ts)) = Some ids \<and> list_all2 (denotes (dict s2)) ids ts)"
proof -
  have ok1: "ok s1" using run_ok assms(1,3,4) by simp
  have ok2: "ok s2" using run_ok ok1 assms(7,8) by simp
  have keeps: "\<And>k i. mp s1 k = Some i \<Longrightarrow> mp s2 k = Some i" using run_keeps[OF ok1 assms(7)] assms(8) by simp
  have d1: "set (concat (map tier1_keys (map raw_triple ts))) \<subseteq> dom (mp s1)"
    using run_dom[OF assms(1,3)] assms(2,4) by auto
  have d2: "dom (mp s2) = dom (mp s1) \<union> set ks" using run_dom[OF ok1 assms(7)] assms(6,8) by simp
  have b: "backs (dict s2) (mp s2)" using ok_indexes[OF ok2] by (simp add: indexes_def)
  have res: "resolve_triple (mp s2) (raw_triple t) \<noteq> None" if t: "t \<in> set ts" for t
  proof -
    obtain sn p ob where e: "t = (sn, p, ob)" by (metis prod_cases3)
    have c1: "set (tier1_keys (raw_triple (sn, p, ob))) \<subseteq> dom (mp s1)"
      using tier1_mem[OF t d1] e by simp
    then have c: "set (tier1_keys (raw_triple (sn, p, ob))) \<subseteq> dom (mp s2)" using d2 by blast
    have "resolve_raw (mp s2) (raw_object ob) \<noteq> None"
    proof (cases "is_literal ob")
      case True
      obtain k where k: "full_key (mp s1) (raw_object ob) = Some k" using tier1_covers(4)[OF c1] by blast
      have "raw_object ob \<in> set (filter (\<lambda>r. fst r = 3) (map (\<lambda>(s, p, ob). ob) (map raw_triple ts)))"
        using t e True by (force simp: raw_object_literal)
      then have "(the \<circ> full_key (mp s1)) (raw_object ob) \<in> set ks"
        unfolding those_map_set[OF assms(5)[unfolded tier2_keys_def]] by (rule imageI)
      then have "k \<in> set ks" by (simp add: k)
      then have "k \<in> dom (mp s2)" unfolding d2 by (rule UnI2)
      then show ?thesis by (simp add: resolve_raw_def full_key_mono[OF keeps k] domIff)
    qed (use tier1_covers(3)[OF c] in blast)
    then show ?thesis using tier1_covers(1,2)[OF c] by (auto simp: resolve_triple_def e)
  qed
  obtain ids where ids: "those (map (\<lambda>t. resolve_triple (mp s2) (raw_triple t)) ts) = Some ids"
    using those_map_ex[of ts "\<lambda>t. resolve_triple (mp s2) (raw_triple t)"] res by blast
  then have "list_all2 (denotes (dict s2)) ids ts"
    unfolding those_map_Some using resolve_triple_denotes[OF b] by (simp add: list_all2_conv_all_nth)
  moreover have "\<exists>new. dict s2 = dict s @ new"
    using run_grows[OF assms(1,3)] run_grows[OF ok1 assms(7)] assms(4,8) by fastforce
  moreover have "dom (mp s2) = dom (mp s) \<union> set k1 \<union> set k2"
    using d2 run_dom[OF assms(1,3)] assms(4,6) by simp
  ultimately show ?thesis using ok2 ids by (simp add: comp_def)
qed

end
section \<open>The bulk loader provides the contract\<close>

text \<open>Rows under fresh ids and fresh keys extend the dictionary and the map together.\<close>

lemma indexes_extend:
  assumes "indexes d m" "distinct (map row_id d @ map fst kvs)" "distinct (map snd kvs)"
    and "snd ` set kvs \<inter> dom m = {}" "m' = learn (map (\<lambda>(i, k). (k, i)) kvs) m"
  shows "indexes (d @ map row_of kvs) m'" "dom m' = dom m \<union> snd ` set kvs"
    "m k = Some i \<Longrightarrow> m' k = Some i"
proof -
  let ?d = "d @ map row_of kvs"
  have sw: "fst ` set (map (\<lambda>(i, k). (k, i)) kvs) = snd ` set kvs" by force
  show dom: "dom m' = dom m \<union> snd ` set kvs" unfolding assms(5) learn_dom sw ..
  have rid: "distinct (map row_id ?d)" using assms(2) by (simp add: comp_def)
  have "backs ?d m'"
    unfolding backs_def
  proof (intro allI impI)
    fix k i assume "m' k = Some i"
    then consider "(i, k) \<in> set kvs" | "m k = Some i"
      using learn_mem[of "map (\<lambda>(i, k). (k, i)) kvs" m k i] unfolding assms(5) by force
    then show "dict_row_of ?d i = Some k"
    proof cases
      case 1
      then have "row_of (i, k) \<in> set ?d" by (metis Un_iff image_eqI list.set_map set_append)
      from dict_row_of_mem[OF rid this] show ?thesis by simp
    next
      case 2
      have "backs d m" using assms(1) by (simp add: indexes_def)
      from dict_row_of_append[OF backsD[OF this 2]] show ?thesis .
    qed
  qed
  moreover have "row_key ` set ?d = dom m'"
    using assms(1) dom by (simp add: indexes_def image_Un image_image)
  moreover have "distinct (map row_key ?d)"
    using assms(1,3,4) by (auto simp: indexes_def comp_def)
  ultimately show "indexes ?d m'" by (simp add: indexes_def)
  show "m' k = Some i" if "m k = Some i"
  proof -
    have "k \<notin> fst ` set (map (\<lambda>(i, k). (k, i)) kvs)" using that assms(4) sw by blast
    moreover have "k \<notin> fst ` set xs \<Longrightarrow> learn xs m0 k = m0 k" for xs :: "(dict_key \<times> int) list" and m0
      unfolding learn_def by (induction xs arbitrary: m0) auto
    ultimately show ?thesis using that assms(5) by simp
  qed
qed

definition bulk_ok ::
    "hasher \<Rightarrow> nat \<Rightarrow> (32 word \<Rightarrow> dict_row list) \<Rightarrow> 32 word \<Rightarrow> (dict_key \<Rightarrow> int option) \<times> world \<Rightarrow> bool" where
  "bulk_ok hasher b R db mw \<longleftrightarrow> dict_ok hasher b R db (snd mw) \<and> indexes (visible (snd mw) b) (fst mw)"

lemma zip_swap: "map (\<lambda>(i, k). (k, i)) (zip ids ks) = zip ks ids"
  by (induction ids ks rule: list_induct2') auto

lemma free_ids_distinct:
  assumes "dict_ok hasher b R db w" "distinct ids" "\<forall>i \<in> set ids. free_id b w i"
  shows "distinct (map row_id (visible w b) @ ids)"
  using assms(2,3) free_not_visible[of b w] ids_ok_visible[of w b] assms(1)
  by (auto simp: dict_ok_def)

lemma bulk_chunk_ok:
  assumes "bulk_ok hasher b R db (m, w)" "distinct ch" "set ch \<inter> dom m = {}"
  shows "bulk_ok hasher b R db (bulk_chunk b ch (m, w))" "dom (fst (bulk_chunk b ch (m, w))) = dom m \<union> set ch"
    "m k = Some i \<Longrightarrow> fst (bulk_chunk b ch (m, w)) k = Some i"
    "\<exists>new. visible (snd (bulk_chunk b ch (m, w))) b = visible w b @ new"
proof -
  obtain ids w1 where r: "reserve b (length ch) w = (ids, w1)" by fastforce
  have dw: "dict_ok hasher b R db w" and ix: "indexes (visible w b) m" using assms(1) by (simp_all add: bulk_ok_def)
  note R = reserve_ok[OF dw r]
  let ?kvs = "zip ids ch"
  have f: "map fst ?kvs = ids" "map snd ?kvs = ch" using R(4) by simp_all
  have e: "bulk_chunk b ch (m, w) = (learn (zip ch ids) m, ins_rows b ?kvs w1)"
    by (simp add: bulk_chunk_def r)
  have fr: "\<forall>i \<in> fst ` set ?kvs. free_id b w1 i" using R(5) f by (metis list.set_map)
  have di: "distinct (map fst ?kvs)" using R(3) f by simp
  note I = ins_rows_ok[OF R(1) di fr]
  have "distinct (map row_id (visible w b) @ map fst ?kvs)"
    using free_ids_distinct[OF R(1,3)] R(2,5) f by simp
  moreover have "snd ` set ?kvs \<inter> dom m = {}" "distinct (map snd ?kvs)" "snd ` set ?kvs = set ch"
    using assms(2,3) f(2) by (metis list.set_map)+
  ultimately have X: "indexes (visible w b @ map row_of ?kvs) (learn (zip ch ids) m)"
    "dom (learn (zip ch ids) m) = dom m \<union> set ch" "m k = Some i \<Longrightarrow> learn (zip ch ids) m k = Some i"
    using indexes_extend[OF ix, of ?kvs "learn (zip ch ids) m"] unfolding zip_swap by auto
  show "bulk_ok hasher b R db (bulk_chunk b ch (m, w))" using I(1,2) X(1) R(2) by (simp add: e bulk_ok_def)
  show "dom (fst (bulk_chunk b ch (m, w))) = dom m \<union> set ch" using X(2) by (simp add: e)
  show "m k = Some i \<Longrightarrow> fst (bulk_chunk b ch (m, w)) k = Some i" using X(3) by (simp add: e)
  show "\<exists>new. visible (snd (bulk_chunk b ch (m, w))) b = visible w b @ new" using I(2) R(2) by (simp add: e)
qed

lemma bulk_chunks_ok:
  "\<lbrakk>bulk_ok hasher b R db mw; distinct (concat cs); set (concat cs) \<inter> dom (fst mw) = {}\<rbrakk>
    \<Longrightarrow> bulk_ok hasher b R db (fold (bulk_chunk b) cs mw) \<and>
        dom (fst (fold (bulk_chunk b) cs mw)) = dom (fst mw) \<union> set (concat cs) \<and>
        (\<forall>k i. fst mw k = Some i \<longrightarrow> fst (fold (bulk_chunk b) cs mw) k = Some i) \<and>
        (\<exists>new. visible (snd (fold (bulk_chunk b) cs mw)) b = visible (snd mw) b @ new)"
proof (induction cs arbitrary: mw)
  case Nil
  then show ?case by simp
next
  case (Cons ch cs)
  obtain m w where mw: "mw = (m, w)" by fastforce
  have c: "distinct ch" "set ch \<inter> dom m = {}" "distinct (concat cs)" using Cons.prems(2,3) mw by auto
  note C = bulk_chunk_ok[OF Cons.prems(1)[unfolded mw] c(1,2)]
  have "set (concat cs) \<inter> dom (fst (bulk_chunk b ch (m, w))) = {}"
    unfolding C(2) using Cons.prems(2,3) mw by auto
  from Cons.IH[OF C(1) c(3) this] C(2-4) show ?case
    unfolding mw by (auto simp: Un_assoc)
qed

interpretation bulk_tier: tier_writer "bulk_tier b" "\<lambda>mw. visible (snd mw) b" fst "bulk_ok hasher b R db"
    "\<lambda>ks mw. distinct ks \<and> set ks \<inter> dom (fst mw) = {}" for b hasher R db
proof unfold_locales
  fix mw :: "(dict_key \<Rightarrow> int option) \<times> world" and ks :: "dict_key list" and k i
  assume ok: "bulk_ok hasher b R db mw"
  then show "indexes (visible (snd mw) b) (fst mw)" by (simp add: bulk_ok_def)
  assume t: "distinct ks \<and> set ks \<inter> dom (fst mw) = {}"
  have c: "concat (chunks 500000 ks) = ks" by (rule concat_chunks) simp
  note C = bulk_chunks_ok[of hasher b R db mw "chunks 500000 ks", unfolded c, folded bulk_tier_def,
      OF ok conjunct1[OF t] conjunct2[OF t]]
  show "bulk_ok hasher b R db (bulk_tier b ks mw)" "dom (fst (bulk_tier b ks mw)) = dom (fst mw) \<union> set ks"
    "\<exists>new. visible (snd (bulk_tier b ks mw)) b = visible (snd mw) b @ new" using C by blast+
  show "fst mw k = Some i \<Longrightarrow> fst (bulk_tier b ks mw) k = Some i" using C by blast
qed
section \<open>The streaming loader provides the contract\<close>

text \<open>Rows not yet written count as rows; the ids left in the block are free.\<close>

definition block_ids :: "stream_state \<Rightarrow> int set" where
  "block_ids s = {fst (sblock s) ..< snd (sblock s)}"

definition stream_inv ::
    "hasher \<Rightarrow> nat \<Rightarrow> (32 word \<Rightarrow> dict_row list) \<Rightarrow> 32 word \<Rightarrow> stream_state \<Rightarrow> bool" where
  "stream_inv hasher b R db s \<longleftrightarrow>
     dict_ok hasher b R db (sworld s) \<and> distinct (map fst (srows s)) \<and>
     (\<forall>i \<in> fst ` set (srows s). free_id b (sworld s) i \<and> i \<notin> block_ids s) \<and>
     (\<forall>i \<in> block_ids s. free_id b (sworld s) i) \<and>
     indexes (visible (sworld s) b @ map row_of (srows s)) (sdict s)"

definition stream_ok ::
    "hasher \<Rightarrow> nat \<Rightarrow> (32 word \<Rightarrow> dict_row list) \<Rightarrow> 32 word \<Rightarrow> stream_state \<Rightarrow> bool" where
  "stream_ok hasher b R db s \<longleftrightarrow> stream_inv hasher b R db s \<and> srows s = []"

lemma alloc_id_ok:
  assumes "stream_inv hasher b R db s" "0 < block_sz" "alloc_id b block_sz s = (i, s')"
  shows "stream_inv hasher b R db s'" "free_id b (sworld s') i" "i \<notin> fst ` set (srows s')" "i \<notin> block_ids s'"
    "sdict s' = sdict s" "srows s' = srows s" "visible (sworld s') b = visible (sworld s) b"
proof -
  define s1 where "s1 = (if snd (sblock s) \<le> fst (sblock s)
               then (let (ids, w) = reserve b block_sz (sworld s); lo = Min (set ids)
                     in s\<lparr>sblock := (lo, lo + int block_sz), sworld := w\<rparr>)
               else s)"
  have e: "i = fst (sblock s1)" "s' = s1\<lparr>sblock := (fst (sblock s1) + 1, snd (sblock s1))\<rparr>"
    using assms(3) by (auto simp: alloc_id_def s1_def Let_def)
  have 1: "stream_inv hasher b R db s1 \<and> fst (sblock s1) < snd (sblock s1) \<and> sdict s1 = sdict s \<and>
      srows s1 = srows s \<and> visible (sworld s1) b = visible (sworld s) b"
  proof (cases "snd (sblock s) \<le> fst (sblock s)")
    case True
    obtain ids w where r: "reserve b block_sz (sworld s) = (ids, w)" by fastforce
    have dw: "dict_ok hasher b R db (sworld s)" using assms(1) by (simp add: stream_inv_def)
    note R = reserve_ok[OF dw r]
    let ?lo = "next_id (sworld s) db"
    have "Min (set ids) = ?lo" unfolding R(7) using assms(2) by (intro Min_eqI) auto
    then have s1: "s1 = s\<lparr>sblock := (?lo, ?lo + int block_sz), sworld := w\<rparr>"
      using True r by (simp add: s1_def Let_def)
    have bl: "block_ids s1 = set ids" by (simp add: block_ids_def s1 R(7))
    have rows: "free_id b w j \<and> j \<notin> set ids" if "j \<in> fst ` set (srows s)" for j
    proof -
      have "free_id b (sworld s) j" using assms(1) that unfolding stream_inv_def by blast
      then show ?thesis by (rule R(6))
    qed
    have "stream_inv hasher b R db s1"
      using assms(1) R(1,2,5) rows unfolding stream_inv_def bl by (simp add: s1)
    then show ?thesis using assms(2) R(2) by (simp add: s1)
  next
    case False
    then have "s1 = s" by (simp add: s1_def)
    with False assms(1) show ?thesis by simp
  qed
  have sub: "block_ids s' \<subseteq> block_ids s1" "i \<in> block_ids s1" "i \<notin> block_ids s'" using 1 e by (auto simp: block_ids_def)
  show "stream_inv hasher b R db s'" using 1 sub(1) e(2) unfolding stream_inv_def by auto
  show "free_id b (sworld s') i" "i \<notin> fst ` set (srows s')" "i \<notin> block_ids s'"
    using 1 sub e(2) unfolding stream_inv_def by auto
  show "sdict s' = sdict s" "srows s' = srows s" "visible (sworld s') b = visible (sworld s) b"
    using 1 e(2) by simp_all
qed

lemma intern_new_ok:
  assumes "stream_inv hasher b R db s" "0 < block_sz" "s' = intern_new b block_sz k s"
  shows "stream_inv hasher b R db s'" "dom (sdict s') = insert k (dom (sdict s))"
    "sdict s k' = Some j \<Longrightarrow> sdict s' k' = Some j" "visible (sworld s') b = visible (sworld s) b"
proof -
  have "stream_inv hasher b R db s' \<and> dom (sdict s') = insert k (dom (sdict s)) \<and>
      (sdict s k' = Some j \<longrightarrow> sdict s' k' = Some j) \<and> visible (sworld s') b = visible (sworld s) b"
  proof (cases "sdict s k")
    case (Some i)
    then have "s' = s" using assms(3) by (simp add: intern_new_def)
    then show ?thesis using assms(1) Some by (auto simp: domIff insert_absorb)
  next
    case None
    obtain i s1 where a: "alloc_id b block_sz s = (i, s1)" by fastforce
    note A = alloc_id_ok[OF assms(1,2) a]
    have s': "s' = s1\<lparr>srows := srows s1 @ [(i, k)], sdict := (sdict s1)(k \<mapsto> i), scount := scount s1 + 1\<rparr>"
      using assms(3) None a by (simp add: intern_new_def)
    let ?d = "visible (sworld s1) b @ map row_of (srows s1)"
    have ix: "indexes ?d (sdict s1)" and dw: "dict_ok hasher b R db (sworld s1)"
      using A(1) by (simp_all add: stream_inv_def)
    have "distinct (map row_id ?d @ map fst [(i, k)])"
      using free_ids_distinct[OF dw, of "map fst (srows s1) @ [i]"] A(1-3)
      by (auto simp: stream_inv_def comp_def)
    moreover have "snd ` set [(i, k)] \<inter> dom (sdict s1) = {}" using None A(5) by (auto simp: domIff)
    ultimately have X: "indexes (?d @ map row_of [(i, k)]) ((sdict s1)(k \<mapsto> i))"
      using indexes_extend(1)[OF ix, of "[(i, k)]" "(sdict s1)(k \<mapsto> i)"] by (simp add: learn_def)
    have bl: "block_ids s' = block_ids s1" by (simp add: block_ids_def s')
    have "stream_inv hasher b R db s'"
      using A(1-4) X unfolding stream_inv_def bl by (auto simp: s')
    then show ?thesis using A(5,7) None by (auto simp: s')
  qed
  then show "stream_inv hasher b R db s'" "dom (sdict s') = insert k (dom (sdict s))"
    "sdict s k' = Some j \<Longrightarrow> sdict s' k' = Some j" "visible (sworld s') b = visible (sworld s) b" by blast+
qed

lemma intern_all_ok:
  assumes "stream_inv hasher b R db s" "0 < block_sz"
  shows "stream_inv hasher b R db (fold (intern_new b block_sz) ks s) \<and>
    dom (sdict (fold (intern_new b block_sz) ks s)) = dom (sdict s) \<union> set ks \<and>
    (\<forall>k j. sdict s k = Some j \<longrightarrow> sdict (fold (intern_new b block_sz) ks s) k = Some j) \<and>
    visible (sworld (fold (intern_new b block_sz) ks s)) b = visible (sworld s) b"
  using assms(1)
proof (induction ks arbitrary: s)
  case Nil
  then show ?case by simp
next
  case (Cons k ks)
  let ?s = "intern_new b block_sz k s"
  note I = intern_new_ok[OF Cons.prems assms(2) refl[of ?s]]
  have "sdict s k' = Some j \<longrightarrow> sdict ?s k' = Some j" for k' j using I(3)[of k' j] by blast
  then have keep: "\<forall>k' j. sdict s k' = Some j \<longrightarrow> sdict (fold (intern_new b block_sz) ks ?s) k' = Some j"
    using Cons.IH[OF I(1)] by blast
  have "dom (sdict (fold (intern_new b block_sz) ks ?s)) = dom (sdict s) \<union> set (k # ks)"
    using Cons.IH[OF I(1)] I(2) by simp
  with keep show ?case using Cons.IH[OF I(1)] I(4) by simp
qed

lemma stream_ins_ok:
  assumes "stream_inv hasher b R db s"
  shows "stream_ok hasher b R db (stream_ins b s)" "sdict (stream_ins b s) = sdict s"
    "\<exists>new. visible (sworld (stream_ins b s)) b = visible (sworld s) b @ new"
proof -
  have a: "dict_ok hasher b R db (sworld s)" "distinct (map fst (srows s))"
    "\<forall>i \<in> fst ` set (srows s). free_id b (sworld s) i"
    using assms unfolding stream_inv_def by blast+
  note I = ins_rows_ok[OF a]
  have "stream_ok hasher b R db (stream_ins b s) \<and> sdict (stream_ins b s) = sdict s \<and>
      (\<exists>new. visible (sworld (stream_ins b s)) b = visible (sworld s) b @ new)"
  proof (cases "srows s = []")
    case True
    then show ?thesis using assms by (simp add: stream_ins_def stream_ok_def)
  next
    case False
    have "\<forall>i \<in> block_ids s. free_id b (ins_rows b (srows s) (sworld s)) i"
      using assms I(3) unfolding stream_inv_def by blast
    then show ?thesis using False assms I(1,2)
      by (simp add: stream_ins_def stream_ok_def stream_inv_def block_ids_def)
  qed
  then show "stream_ok hasher b R db (stream_ins b s)" "sdict (stream_ins b s) = sdict s"
    "\<exists>new. visible (sworld (stream_ins b s)) b = visible (sworld s) b @ new" by blast+
qed

interpretation stream_tier: tier_writer "stream_tier b block_sz" "\<lambda>s. visible (sworld s) b" sdict
    "stream_ok hasher b R db" "\<lambda>ks s. 0 < block_sz" for b block_sz hasher R db
proof unfold_locales
  fix s ks k i
  assume ok: "stream_ok hasher b R db s"
  then show "indexes (visible (sworld s) b) (sdict s)" by (auto simp: stream_ok_def stream_inv_def)
  assume pos: "0 < block_sz"
  have inv: "stream_inv hasher b R db s" using ok by (simp add: stream_ok_def)
  note A = intern_all_ok[OF inv pos, of ks]
  note I = stream_ins_ok[OF conjunct1[OF A], folded stream_tier_def]
  show "stream_ok hasher b R db (stream_tier b block_sz ks s)" using I(1) .
  show "dom (sdict (stream_tier b block_sz ks s)) = dom (sdict s) \<union> set ks" unfolding I(2) using A by blast
  show "sdict s k = Some i \<Longrightarrow> sdict (stream_tier b block_sz ks s) k = Some i" unfolding I(2) using A by blast
  show "\<exists>new. visible (sworld (stream_tier b block_sz ks s)) b = visible (sworld s) b @ new"
    using I(3) A by simp
qed
section \<open>Keys and the uniqueness constraint\<close>

text \<open>A term carries a datatype or a language tag, never both, so \<open>unique_term\<close> compares no two rows equal.\<close>

definition one_qualifier :: "dict_key \<Rightarrow> bool" where
  "one_qualifier k \<longleftrightarrow> (case k of (tt, lv, dt, lang) \<Rightarrow> dt = None \<or> lang = None)"

lemma tier1_one_qualifier: "k \<in> set (concat (map tier1_keys ts)) \<Longrightarrow> one_qualifier k"
  by (auto simp: tier1_keys_def one_qualifier_def plain_key_def iri_key_def split: if_splits option.splits)

lemma full_key_one_qualifier: "full_key m (raw_object ob) = Some k \<Longrightarrow> one_qualifier k"
proof (cases ob)
  case (NodeTerm n)
  then show "full_key m (raw_object ob) = Some k \<Longrightarrow> one_qualifier k"
    by (cases n) (auto simp: full_key_def one_qualifier_def)
next
  case (Literal v lang dt)
  then show "full_key m (raw_object ob) = Some k \<Longrightarrow> one_qualifier k"
    by (cases lang) (auto simp: full_key_def one_qualifier_def)
qed

lemma tier2_mem:
  assumes "tier2_keys m (map raw_triple ts) = Some ks" "k \<in> set ks"
  obtains ob where "is_literal ob" "full_key m (raw_object ob) = Some k"
proof -
  let ?rs = "filter (\<lambda>r. fst r = 3) (map (\<lambda>(s, p, ob). ob) (map raw_triple ts))"
  have all: "list_all2 (\<lambda>x y. full_key m x = Some y) ?rs ks"
    using assms(1) by (simp only: tier2_keys_def those_map_Some)
  obtain i where i: "i < length ks" "ks ! i = k" using assms(2) by (auto simp: in_set_conv_nth)
  have "?rs ! i \<in> set ?rs" "full_key m (?rs ! i) = Some k"
    using list_all2_nthD2[OF all i(1)] i list_all2_lengthD[OF all] by (simp_all only: nth_mem)
  then obtain r where r: "r \<in> set ?rs" "full_key m r = Some k" by blast
  have "r \<in> (\<lambda>t. case raw_triple t of (s, p, ob) \<Rightarrow> ob) ` set ts \<and> fst r = 3"
    using r(1) by (simp only: set_filter set_map image_image mem_Collect_eq simp_thms)
  then obtain t where t: "r = (case raw_triple t of (s, p, ob) \<Rightarrow> ob)" "fst r = 3" by blast
  obtain s p ob where e: "t = (s, p, ob)" by (metis prod_cases3)
  then have "r = raw_object ob" using t(1) by simp
  then show ?thesis using that[of ob] r(2) t(2) raw_object_literal by simp
qed

lemma tier2_one_qualifier: "tier2_keys m (map raw_triple ts) = Some ks \<Longrightarrow> k \<in> set ks \<Longrightarrow> one_qualifier k"
  using tier2_mem full_key_one_qualifier by metis

lemma literal_key: "is_literal ob \<Longrightarrow> full_key m (raw_object ob) = Some k \<Longrightarrow> fst k = 3"
  using raw_object_literal[of ob] by (cases "raw_object ob") (auto simp: full_key_def split: option.splits)

lemma tier2_literal: "tier2_keys m (map raw_triple ts) = Some ks \<Longrightarrow> k \<in> set ks \<Longrightarrow> fst k = 3"
  using tier2_mem literal_key by metis

lemma plain_key_type [simp]: "fst (plain_key r) = fst r"
  by (simp add: plain_key_def split: prod.splits)

lemma tier1_no_literal: "k \<in> set (concat (map tier1_keys (map raw_triple ts))) \<Longrightarrow> fst k \<noteq> 3"
proof -
  have "k \<in> set (tier1_keys (raw_triple t)) \<Longrightarrow> fst k \<noteq> 3" for t
    by (cases t rule: raw_triple.cases)
      (auto simp: tier1_keys_def iri_key_def split: if_splits option.splits)
  then show "k \<in> set (concat (map tier1_keys (map raw_triple ts))) \<Longrightarrow> fst k \<noteq> 3" by auto
qed

lemma no_clash: "\<forall>k \<in> set ks. one_qualifier k \<Longrightarrow> \<not> some_clash md5 ks"
  by (induction ks) (auto simp: clashes_def one_qualifier_def list_ex_iff)

lemma create_indexes_ok:
  "distinct is \<Longrightarrow> set is \<inter> set idx = {} \<Longrightarrow> create_indexes is idx = Inr (idx @ is)"
  by (induction "is" arbitrary: idx) (simp_all add: create_index_def)

lemma rebuild_restores:
  assumes "\<forall>k \<in> row_key ` set dict. one_qualifier k"
  shows "bulk_rebuild_indexes md5 dict (bulk_drop_indexes idx) =
    Inr (bulk_drop_indexes idx @ quad_indexes @ [unique_term])"
proof -
  have "create_indexes quad_indexes (bulk_drop_indexes idx) = Inr (bulk_drop_indexes idx @ quad_indexes)"
    by (rule create_indexes_ok) (auto simp: quad_indexes_def bulk_drop_indexes_def)
  moreover have "unique_term \<notin> set (bulk_drop_indexes idx @ quad_indexes)"
    by (simp add: bulk_drop_indexes_def quad_indexes_def unique_term_def)
  moreover have "\<not> some_clash md5 (map row_key dict)" using assms by (intro no_clash) simp
  ultimately show ?thesis by (simp add: bulk_rebuild_indexes_def add_unique_term_def)
qed

lemma drop_restores:
  "set (quad_indexes @ [unique_term]) \<subseteq> set idx \<Longrightarrow>
     set (bulk_drop_indexes idx @ quad_indexes @ [unique_term]) = set idx"
  by (auto simp: bulk_drop_indexes_def)

section \<open>Both loaders\<close>

definition counts :: "loader \<Rightarrow> int \<times> int" where
  "counts st = (n_triples (lstats st), n_parse_skipped (lstats st))"

lemma flush_batch_ok:
  assumes "written g s0 st idss" "g \<notin> set (trow s0)"
  shows "\<exists>st'. flush_batch g buf st = Inr st' \<and> written g s0 st' (idss @ buf) \<and> hm st' = hm st \<and>
    lworld st' = lworld st \<and> counts st' = counts st"
proof -
  obtain st' where f: "flush_batch g buf st = Inr st'" "written g s0 st' (idss @ buf)" "hm st' = hm st"
    "lworld st' = lworld st" using flush_batch_written[OF assms] by blast
  have "counts st' = counts st"
    using f(1) by (auto simp: flush_batch_def counts_def count_batch_def split: if_splits)
  with f show ?thesis by blast
qed

lemma push_ids_ok:
  assumes "g \<notin> set (trow s0)"
  shows "written g s0 st idss \<Longrightarrow>
    \<exists>buf' st' idss'. push_ids g ids (buf, st) = Inr (buf', st') \<and> written g s0 st' idss' \<and>
      idss' @ buf' = idss @ buf @ ids \<and> hm st' = hm st \<and> lworld st' = lworld st \<and> counts st' = counts st"
proof (induction ids arbitrary: buf st idss)
  case Nil
  then show ?case by simp
next
  case (Cons i ids)
  show ?case
  proof (cases "BULK_QUAD_BATCH \<le> length (buf @ [i])")
    case True
    obtain st1 where f: "flush_batch g (buf @ [i]) st = Inr st1" "written g s0 st1 (idss @ buf @ [i])"
      "hm st1 = hm st" "lworld st1 = lworld st" "counts st1 = counts st"
      using flush_batch_ok[OF Cons.prems assms, of "buf @ [i]"] by auto
    then show ?thesis using Cons.IH[OF f(2), of "[]"] True by simp
  next
    case False
    then show ?thesis using Cons.IH[OF Cons.prems, of "buf @ [i]"] by simp
  qed
qed

text \<open>What parsing a list of texts one by one gives.\<close>

lemma parse_chunks:
  "concat (map fst (map (\<lambda>r. parse_chunk turtle (f r)) rs))
     = map raw_triple (flatten_opts (concat (map (\<lambda>r. parse_items turtle (f r)) rs)))"
  "sum_list (map snd (map (\<lambda>r. parse_chunk turtle (f r)) rs))
     = int (length (filter (\<lambda>i. i = None) (concat (map (\<lambda>r. parse_items turtle (f r)) rs))))"
  by (induction rs) (simp_all add: parse_chunk_def Let_def flatten_opts_def)

text \<open>The result of a fast path: the items parsed, written under a dictionary with one row per term.\<close>

definition fast_loaded ::
    "hasher \<Rightarrow> nat \<Rightarrow> (32 word \<Rightarrow> dict_row list) \<Rightarrow> 32 word \<Rightarrow> int \<Rightarrow> store \<Rightarrow> ox_triple option list \<Rightarrow> loader \<Rightarrow> bool" where
  "fast_loaded hasher b R db g s0 items ld \<longleftrightarrow>
     dict_ok hasher b R db (lworld ld) \<and> distinct (map row_key (visible (lworld ld) b)) \<and>
     counts ld = (int (length (flatten_opts items)), int (length (filter (\<lambda>i. i = None) items))) \<and>
     (\<exists>idss. written g s0 ld idss \<and> list_all2 (denotes (visible (lworld ld) b)) idss (flatten_opts items))"
lemma bulk_loaded:
  assumes "dict_ok hasher b R db w" "dictionary_empty b w" "g \<notin> set (trow st)" "hash_order hs"
    and "set (quad_indexes @ [unique_term]) \<subseteq> set idx"
    and "items = concat (map (\<lambda>r. parse_items turtle (slice bytes r)) (bulk_chunks bytes (max nthreads 1)))"
  shows "\<exists>ld idx'. ingest_turtle_parallel_bulk md5 hs b turtle nthreads defer_min bytes g w st idx = Inr (ld, idx') \<and>
    fast_loaded hasher b R db g st items ld \<and> set idx' = set idx"
proof -
  let ?ots = "flatten_opts items" and ?ts = "map raw_triple (flatten_opts items)"
  let ?parsed = "map (\<lambda>r. parse_chunk turtle (slice bytes r)) (bulk_chunks bytes (max nthreads 1))"
  note P = parse_chunks[where turtle = turtle and f = "slice bytes" and rs = "bulk_chunks bytes (max nthreads 1)",
      folded assms(6)]
  let ?k1 = "hs (remdups (concat (map tier1_keys ?ts)))" and ?s0 = "(Map.empty, w)"
  let ?s1 = "bulk_tier b ?k1 ?s0"
  have ok0: "bulk_ok hasher b R db ?s0"
    using assms(1,2) by (simp add: bulk_ok_def indexes_def backs_def dictionary_empty_def)
  have hs: "distinct (hs (remdups ks)) \<and> set (hs (remdups ks)) = set ks" for ks :: "dict_key list"
    using assms(4) by (simp add: hash_order_def)
  have t1: "distinct ?k1 \<and> set ?k1 \<inter> dom (fst ?s0) = {}" using hs by simp
  have s1: "set ?k1 = set (concat (map tier1_keys ?ts))" using hs by blast
  note d1 = bulk_tier.run_dom[OF ok0 t1]
  have "set (concat (map tier1_keys ?ts)) \<subseteq> dom (fst ?s1)" unfolding d1 s1 by (rule Un_upper2)
  from bulk_tier.tier2_defined[OF this] obtain ks where ks: "tier2_keys (fst ?s1) ?ts = Some ks" by blast
  let ?k2 = "hs (remdups ks)"
  let ?s2 = "bulk_tier b ?k2 ?s1"
  have s2: "set ?k2 = set ks" using hs by blast
  have "k \<notin> dom (fst ?s1)" if "k \<in> set ks" for k
    using tier2_literal[OF ks that] tier1_no_literal[of k ?ots] unfolding d1 s1 by fastforce
  then have "set ?k2 \<inter> dom (fst ?s1) = {}" unfolding s2 by (intro equals0I) (erule IntE, blast)
  then have t2: "distinct ?k2 \<and> set ?k2 \<inter> dom (fst ?s1) = {}" using hs by blast
  note T = bulk_tier.two_tiers[OF ok0 s1 t1 refl ks s2 t2 refl]
  obtain ids where ids: "those (map (resolve_triple (fst ?s2)) ?ts) = Some ids"
    "list_all2 (denotes (visible (snd ?s2) b)) ids ?ots" using T by blast
  have ok2: "bulk_ok hasher b R db ?s2" and dom2: "dom (fst ?s2) = set ?k1 \<union> set ?k2" using T by auto
  have keys2: "row_key ` set (visible (snd ?s2) b) = set ?k1 \<union> set ?k2"
    using ok2 dom2 by (simp only: bulk_ok_def indexes_def)
  have one: "\<forall>k \<in> row_key ` set (visible (snd ?s2) b). one_qualifier k"
    unfolding keys2 s1 s2 by (intro ballI, erule UnE) (rule tier1_one_qualifier tier2_one_qualifier[OF ks], assumption)+
  define stats where "stats = zero_stats\<lparr>st_path := ''parallel_bulk'', n_triples := int (length ?ts),
      n_parse_skipped := int (length (filter (\<lambda>i. i = None) items)), st_defer_index := (defer_min \<le> int (length ?ts))\<rparr>"
  define ld0 where "ld0 = \<lparr>hm = fst ?s2, lworld = snd ?s2, lstore = st, lstats = stats\<rparr>"
  have "written g st ld0 []" by (simp add: written_def ld0_def)
  from push_ids_ok[OF assms(3) this, of ids "[]"] obtain buf ld1 idss1 where p: "push_ids g ids ([], ld0) = Inr (buf, ld1)"
    "written g st ld1 idss1" "idss1 @ buf = ids" "hm ld1 = hm ld0" "lworld ld1 = lworld ld0" "counts ld1 = counts ld0" by auto
  from flush_batch_ok[OF p(2) assms(3), of buf] obtain ld where f: "flush_batch g buf ld1 = Inr ld" "written g st ld ids"
    "lworld ld = snd ?s2" "counts ld = counts ld0" using p by (auto simp: ld0_def)
  define dropped where "dropped \<longleftrightarrow> defer_min \<le> int (length ?ts)"
  define idx' where "idx' = (if dropped then bulk_drop_indexes idx @ quad_indexes @ [unique_term] else idx)"
  have "ingest_turtle_parallel_bulk md5 hs b turtle nthreads defer_min bytes g w st idx = Inr (ld, idx')"
    using ks ids(1) p(1) f(1,3) rebuild_restores[OF one]
    unfolding ingest_turtle_parallel_bulk_def P Let_def
    by (cases ?s1; cases ?s2) (auto simp: ld0_def stats_def dropped_def idx'_def)
  moreover have "fast_loaded hasher b R db g st items ld"
    using ok2 f(2-4) ids(2) unfolding fast_loaded_def bulk_ok_def indexes_def
    by (auto simp: counts_def ld0_def stats_def)
  moreover have "set idx' = set idx" using drop_restores[OF assms(5)] by (auto simp: idx'_def)
  ultimately show ?thesis by blast
qed

subsection \<open>The windows\<close>

text \<open>The state between two windows: what was parsed so far is written or in the buffer.\<close>

definition stream_done ::
    "hasher \<Rightarrow> nat \<Rightarrow> (32 word \<Rightarrow> dict_row list) \<Rightarrow> 32 word \<Rightarrow> int \<Rightarrow> store \<Rightarrow> ox_triple option list
      \<Rightarrow> stream_state \<times> (int \<times> int \<times> int) list \<times> loader \<Rightarrow> bool" where
  "stream_done hasher b R db g s0 items sbl \<longleftrightarrow>
     (case sbl of (s, buf, ld) \<Rightarrow>
        stream_ok hasher b R db s \<and> (\<forall>k \<in> dom (sdict s). one_qualifier k) \<and>
        counts ld = (int (length (flatten_opts items)), int (length (filter (\<lambda>i. i = None) items))) \<and>
        (\<exists>idss. written g s0 ld idss \<and> list_all2 (denotes (visible (sworld s) b)) (idss @ buf) (flatten_opts items)))"

lemma flatten_opts_append [simp]: "flatten_opts (xs @ ys) = flatten_opts xs @ flatten_opts ys"
  by (simp add: flatten_opts_def)

lemma stream_window_ok:
  assumes "stream_done hasher b R db g s0 items sbl" "0 < block_sz" "g \<notin> set (trow s0)"
    and "new = concat (map (parse_items turtle) win)"
  shows "\<exists>sbl'. stream_window b turtle block_sz g win sbl = Inr sbl' \<and>
    stream_done hasher b R db g s0 (items @ new) sbl'"
proof -
  obtain s buf ld where sbl: "sbl = (s, buf, ld)" by (metis prod_cases3)
  let ?ots = "flatten_opts new" and ?ts = "map raw_triple (flatten_opts new)"
  note P = parse_chunks[where turtle = turtle and f = "\<lambda>l. l" and rs = win, folded assms(4)]
  have ok0: "stream_ok hasher b R db s" and one: "\<forall>k \<in> dom (sdict s). one_qualifier k"
    and c: "counts ld = (int (length (flatten_opts items)), int (length (filter (\<lambda>i. i = None) items)))"
    using assms(1) by (auto simp: stream_done_def sbl)
  obtain idss where w: "written g s0 ld idss"
    "list_all2 (denotes (visible (sworld s) b)) (idss @ buf) (flatten_opts items)"
    using assms(1) by (auto simp: stream_done_def sbl)
  let ?k1 = "concat (map tier1_keys ?ts)"
  let ?s1 = "stream_tier b block_sz ?k1 s"
  note d1 = stream_tier.run_dom[OF ok0 assms(2), of ?k1]
  have "set ?k1 \<subseteq> dom (sdict ?s1)" unfolding d1 by (rule Un_upper2)
  from stream_tier.tier2_defined[OF this] obtain ks where ks: "tier2_keys (sdict ?s1) ?ts = Some ks" by blast
  let ?s2 = "stream_tier b block_sz ks ?s1"
  note T = stream_tier.two_tiers[OF ok0 refl assms(2) refl ks refl assms(2) refl]
  obtain ids where ids: "those (map (resolve_triple (sdict ?s2)) ?ts) = Some ids"
    "list_all2 (denotes (visible (sworld ?s2) b)) ids ?ots" using T by blast
  obtain more where more: "visible (sworld ?s2) b = visible (sworld s) b @ more" using T by blast
  define ld0 where "ld0 = tick (count_window (int (length ?ts)) (int (length (filter (\<lambda>i. i = None) new)))) ld"
  have "written g s0 ld0 idss" using w(1) by (simp add: ld0_def)
  from push_ids_ok[OF assms(3) this, of ids buf] obtain buf' ld1 idss' where p:
    "push_ids g ids (buf, ld0) = Inr (buf', ld1)" "written g s0 ld1 idss'" "idss' @ buf' = idss @ buf @ ids"
    "counts ld1 = counts ld0" by blast
  let ?ld = "tick (\<lambda>x. x\<lparr>n_windows := n_windows x + 1\<rparr>) ld1"
  have "stream_window b turtle block_sz g win sbl = Inr (?s2, buf', ?ld)"
    using ks ids(1) p(1) unfolding stream_window_def sbl Let_def prod.case P ld0_def[symmetric] by simp
  moreover have "list_all2 (denotes (visible (sworld ?s2) b)) (idss' @ buf') (flatten_opts (items @ new))"
    unfolding p(3) using denoted_list_append[OF w(2), of more] ids(2) more
    by (simp add: list_all2_appendI flip: append_assoc)
  moreover have "\<forall>k \<in> dom (sdict ?s2). one_qualifier k"
    using T one tier1_one_qualifier[of _ ?ts] tier2_one_qualifier[OF ks] by blast
  moreover have "counts ?ld = (int (length (flatten_opts (items @ new))), int (length (filter (\<lambda>i. i = None) (items @ new))))"
    using c p(4) by (simp add: counts_def ld0_def count_window_def)
  ultimately show ?thesis using T p(2) unfolding stream_done_def by auto
qed

text \<open>Reading windows: a window and what is left are the lines to come, but for the skippable ones.\<close>

lemma read_window_defined: "\<forall>l \<in> set ls. valid_utf8 l \<Longrightarrow> read_window n ls win \<noteq> None"
  by (induction n ls win rule: read_window.induct) auto

lemma read_window_lines:
  "read_window n ls win = Some (win', rest, eof) \<Longrightarrow>
    set rest \<subseteq> set ls \<and>
    win' @ filter (\<lambda>l. \<not> skippable l) rest = win @ filter (\<lambda>l. \<not> skippable l) ls \<and>
    (eof \<longrightarrow> rest = []) \<and> (win' = [] \<longrightarrow> n = 0 \<or> rest = [])"
  by (induction n ls win rule: read_window.induct) (auto split: if_splits)

lemma stream_loop_ok:
  assumes "0 < block_sz" "g \<notin> set (trow s0)" "0 < n"
  shows "\<lbrakk>stream_done hasher b R db g s0 items sbl; \<forall>l \<in> set ls. valid_utf8 l\<rbrakk> \<Longrightarrow>
    \<exists>sbl'. stream_loop b turtle n block_sz g ls sbl = Inr sbl' \<and>
      stream_done hasher b R db g s0
        (items @ concat (map (parse_items turtle) (filter (\<lambda>l. \<not> skippable l) ls))) sbl'"
proof (induction "length ls" arbitrary: ls items sbl rule: less_induct)
  case less
  obtain win rest eof where r: "read_window n ls [] = Some (win, rest, eof)" "set rest \<subseteq> set ls"
    "win @ filter (\<lambda>l. \<not> skippable l) rest = filter (\<lambda>l. \<not> skippable l) ls" "eof \<longrightarrow> rest = []"
    "win = [] \<longrightarrow> rest = []"
    using read_window_defined[OF less.prems(2), of n "[]"] read_window_lines[of n ls "[]"] assms(3) by fastforce
  let ?new = "concat (map (parse_items turtle) win)"
  show ?case
  proof (cases "win = []")
    case True
    then show ?thesis
      using less.prems(1) r unfolding stream_loop.simps[of b turtle n block_sz g ls sbl] by (auto simp flip: r(3))
  next
    case False
    obtain sbl1 where s: "stream_window b turtle block_sz g win sbl = Inr sbl1"
      "stream_done hasher b R db g s0 (items @ ?new) sbl1"
      using stream_window_ok[OF less.prems(1) assms(1,2) refl] by blast
    have u: "stream_loop b turtle n block_sz g ls sbl =
        (if eof then Inr sbl1 else stream_loop b turtle n block_sz g rest sbl1)"
      using False s(1) r(1) unfolding stream_loop.simps[of b turtle n block_sz g ls sbl] by simp
    have all: "items @ concat (map (parse_items turtle) (filter (\<lambda>l. \<not> skippable l) ls)) =
        (items @ ?new) @ concat (map (parse_items turtle) (filter (\<lambda>l. \<not> skippable l) rest))"
      by (simp flip: r(3))
    show ?thesis
    proof (cases eof)
      case True
      then show ?thesis using s(2) r(4) unfolding u all by simp
    next
      case nf: False
      have "length rest < length ls" using read_window_shrinks[OF r(1)] False by (cases win) auto
      moreover have "\<forall>l \<in> set rest. valid_utf8 l" using less.prems(2) r(2) by blast
      ultimately show ?thesis using less.hyps[OF _ s(2)] nf unfolding u all by simp
    qed
  qed
qed

lemma streaming_loaded:
  assumes "dict_ok hasher b R db w" "dictionary_empty b w" "g \<notin> set (trow st)" "0 < window_triples"
    and "set (quad_indexes @ [unique_term]) \<subseteq> set idx" "\<forall>l \<in> set (split_lines content). valid_utf8 l"
    and "items = concat (map (parse_items turtle) (filter (\<lambda>l. \<not> skippable l) (split_lines content)))"
  shows "\<exists>ld idx'. ingest_turtle_streaming md5 b turtle content g window_triples id_reserve_block w st idx = Inr (ld, idx') \<and>
    fast_loaded hasher b R db g st items ld \<and> set idx' = set idx"
proof -
  let ?s = "\<lparr>sdict = Map.empty, scount = 0, sblock = (0, 0), srows = [], sworld = w\<rparr>"
  let ?ld = "tick (\<lambda>x. x\<lparr>st_path := ''streaming'', st_defer_index := True\<rparr>) (start_load w st)"
  have "stream_done hasher b R db g st [] (?s, [], ?ld)"
    using assms(1,2) written_start[of g st w]
    by (auto simp: stream_done_def stream_ok_def stream_inv_def block_ids_def indexes_def backs_def
        dictionary_empty_def counts_def start_load_def zero_stats_def flatten_opts_def intro!: exI[of _ "[]"])
  moreover have "0 < max id_reserve_block 1" by simp
  ultimately obtain s buf ld where l: "stream_loop b turtle window_triples (max id_reserve_block 1) g (split_lines content) (?s, [], ?ld)
      = Inr (s, buf, ld)" "stream_done hasher b R db g st items (s, buf, ld)"
    using stream_loop_ok[OF _ assms(3,4) _ assms(6), of "max id_reserve_block 1" hasher b R db "[]"]
    unfolding assms(7) append_Nil by (metis prod_cases3)
  obtain idss where w: "written g st ld idss"
    "list_all2 (denotes (visible (sworld s) b)) (idss @ buf) (flatten_opts items)"
    using l(2) by (auto simp: stream_done_def)
  obtain ld1 where f: "flush_batch g buf ld = Inr ld1" "written g st ld1 (idss @ buf)" "counts ld1 = counts ld"
    using flush_batch_ok[OF w(1) assms(3), of buf] by blast
  have ok: "stream_ok hasher b R db s" "\<forall>k \<in> dom (sdict s). one_qualifier k" using l(2) by (auto simp: stream_done_def)
  then have ix: "dict_ok hasher b R db (sworld s)" "indexes (visible (sworld s) b) (sdict s)"
    by (auto simp: stream_ok_def stream_inv_def)
  then have one: "\<forall>k \<in> row_key ` set (visible (sworld s) b). one_qualifier k"
    using ok(2) by (simp add: indexes_def)
  let ?fin = "tick (\<lambda>x. x\<lparr>n_dict_terms := scount s\<rparr>) (ld1\<lparr>lworld := sworld s, hm := sdict s\<rparr>)"
  let ?idx = "bulk_drop_indexes idx @ quad_indexes @ [unique_term]"
  have "ingest_turtle_streaming md5 b turtle content g window_triples id_reserve_block w st idx = Inr (?fin, ?idx)"
    unfolding ingest_turtle_streaming_def Let_def l(1) res_bind.simps prod.case f(1) rebuild_restores[OF one] by (rule refl)
  moreover have "fast_loaded hasher b R db g st items ?fin"
    using ix f(2,3) w(2) l(2) unfolding fast_loaded_def
    by (intro conjI exI[of _ "idss @ buf"]) (simp_all add: indexes_def counts_def stream_done_def written_def)
  ultimately show ?thesis using drop_restores[OF assms(5)] by blast
qed
section \<open>Properties\<close>

text \<open>Line-oriented text: parsing a piece of whole lines is parsing its lines.\<close>

definition line_oriented :: "turtle_parser \<Rightarrow> (string \<Rightarrow> ox_triple option list) \<Rightarrow> string \<Rightarrow> bool" where
  "line_oriented turtle line s \<longleftrightarrow> turtle None s = Some (concat (map line (split_lines s)))"

lemma concat_map_concat: "concat (map f (concat xss)) = concat (map (\<lambda>xs. concat (map f xs)) xss)"
  by (induction xss) simp_all

lemma bulk_items:
  assumes "\<forall>r \<in> set (bulk_chunks bytes n). line_oriented turtle line (slice bytes r)"
  shows "concat (map (\<lambda>r. parse_items turtle (slice bytes r)) (bulk_chunks bytes n)) = concat (map line (split_lines bytes))"
proof -
  have "map (\<lambda>r. parse_items turtle (slice bytes r)) (bulk_chunks bytes n)
      = map (\<lambda>r. concat (map line (split_lines (slice bytes r)))) (bulk_chunks bytes n)"
    using assms by (intro map_cong refl) (simp add: parse_items_def line_oriented_def)
  also have "concat \<dots> = concat (map line (concat (map (\<lambda>r. split_lines (slice bytes r)) (bulk_chunks bytes n))))"
    by (simp add: concat_map_concat comp_def)
  also have "\<dots> = concat (map line (split_lines bytes))"
    using bulk.slices_cover[of bytes n] by (simp add: bulk_chunks_def)
  finally show ?thesis .
qed

lemma streaming_items:
  assumes "\<forall>l \<in> set ls. turtle None l = Some (line l)" "\<forall>l \<in> set ls. skippable l \<longrightarrow> line l = []"
  shows "concat (map (parse_items turtle) (filter (\<lambda>l. \<not> skippable l) ls)) = concat (map line ls)"
  using assms by (induction ls) (auto simp: parse_items_def)

text \<open>C13: On an empty dictionary the parallel bulk load and the streaming load of a line-oriented file
  both succeed and load what one parse of the whole file gives: one asserted quad per statement that
  parses, in file order, each reading back through the dictionary as that statement's triple, the
  statements that do not parse being skipped and counted. The dictionary ends with one row per term
  and the indexes are those that were there, whatever the number of threads, the window and block
  sizes and the threshold for dropping indexes. So the two fast paths agree with each other and, on
  text without errors, with the standard routes.
\<close>

theorem fast_paths_load_the_file:
  assumes "reachable hasher db_of w" "dictionary_empty b w" "g \<notin> set (trow st)" "hash_order hs" "0 < window_triples"
    and "set (quad_indexes @ [unique_term]) \<subseteq> set idx"
    and "\<forall>r \<in> set (bulk_chunks content (max nthreads 1)). line_oriented turtle line (slice content r)"
    and "\<forall>l \<in> set (split_lines content). valid_utf8 l \<and> turtle None l = Some (line l) \<and> (skippable l \<longrightarrow> line l = [])"
    and "res \<in> {bulk_load_guarded hasher hs sha md5 b turtle cf nthreads defer_min True content g base (d, w) st idx,
      streaming_load_guarded hasher hs sha md5 b turtle cf window_triples id_reserve_block True content g base (d, w) st idx}"
  shows "\<exists>ld idx' idss. res = Inr (d, ld, idx') \<and> set idx' = set idx \<and>
    lstore ld = st\<lparr>quads := quads st @ map (asserted_quad g) idss\<rparr> \<and>
    map (read_quad (visible (lworld ld) b)) (map (asserted_quad g) idss)
      = map (\<lambda>t. Some (as_triple t)) (flatten_opts (concat (map line (split_lines content)))) \<and>
    n_parse_skipped (lstats ld) = int (length (filter (\<lambda>i. i = None) (concat (map line (split_lines content))))) \<and>
    distinct (map row_key (visible (lworld ld) b))"
proof -
  let ?items = "concat (map line (split_lines content))"
  note ok = reachable_dict_ok[OF assms(1), of b]
  have "\<exists>ld idx'. res = Inr (d, ld, idx') \<and> set idx' = set idx \<and>
      fast_loaded hasher b (rows w) (bdb (backends w b)) g st ?items ld"
  proof (cases "res = bulk_load_guarded hasher hs sha md5 b turtle cf nthreads defer_min True content g base (d, w) st idx")
    case True
    then show ?thesis
      using bulk_loaded[OF ok assms(2-4,6) bulk_items[OF assms(7), symmetric], of md5 defer_min] assms(2)
      by (auto simp: bulk_load_guarded_def)
  next
    case False
    have "concat (map (parse_items turtle) (filter (\<lambda>l. \<not> skippable l) (split_lines content))) = ?items"
      by (rule streaming_items) (use assms(8) in auto)
    then show ?thesis
      using streaming_loaded[OF ok assms(2,3,5,6), of content ?items turtle md5 id_reserve_block] assms(2,8,9) False
      by (auto simp: streaming_load_guarded_def)
  qed
  then obtain ld idx' idss where ld: "res = Inr (d, ld, idx')" "set idx' = set idx"
    "fast_loaded hasher b (rows w) (bdb (backends w b)) g st ?items ld" "written g st ld idss"
    "list_all2 (denotes (visible (lworld ld) b)) idss (flatten_opts ?items)"
    by (auto simp: fast_loaded_def)
  have "map (\<lambda>ids. read_quad (visible (lworld ld) b) (asserted_quad g ids)) idss = map (\<lambda>t. Some (as_triple t)) (flatten_opts ?items)"
    using ld(5) by (induction rule: list_all2_induct) (simp_all add: denotes_read)
  with ld show ?thesis by (auto simp: fast_loaded_def counts_def written_def comp_def)
qed

text \<open>A parser of lines \<open>x\<close>: every line but an empty one is the toy triple, a line \<open>!\<close> is malformed.\<close>

definition toy_line :: "string \<Rightarrow> ox_triple option list" where
  "toy_line l = (let l = strip_eol l in if l = [] then [] else if l = ''!'' then [None]
     else [Some (BlankNode l, ''ex:p'', Literal l None ''dt'')])"

definition toy_turtle :: turtle_parser where
  "toy_turtle base s = Some (concat (map toy_line (split_lines s)))"

definition toy_file :: string where
  "toy_file = ''a'' @ [LF] @ ''!'' @ [LF, LF] @ ''b'' @ [LF] @ ''a''"

lemma toy_file_lines: "split_lines toy_file = [''a'' @ [LF], ''!'' @ [LF], [LF], ''b'' @ [LF], ''a'']"
  by code_simp

lemma toy_turtle_line: "LF \<notin> set l \<Longrightarrow> toy_turtle None (l @ [LF]) = Some (toy_line (l @ [LF]))"
  "LF \<notin> set l \<Longrightarrow> toy_turtle None l = Some (toy_line l)"
  using split_lines_line[of l "[]"]
  by (auto simp: toy_turtle_def split_lines.simps[of l] toy_line_def strip_eol_def)

definition empty_world :: world where "empty_world = init_world (\<lambda>_. 1)"

lemma empty_world_ok: "reachable toy_hasher (\<lambda>_. 1) empty_world" "dictionary_empty 0 empty_world"
proof -
  show "reachable toy_hasher (\<lambda>_. 1) empty_world" unfolding empty_world_def by (rule reachable.init)
  show "dictionary_empty 0 empty_world"
    by (simp add: dictionary_empty_def visible_def empty_world_def init_world_def idle_backend_def)
qed

theorem fast_paths_load_the_file_witness:
  "\<exists>ld idx' idss. bulk_load_guarded toy_hasher id id id 0 toy_turtle
      \<lparr>guc_dict_path = Combined, guc_dict_batch_size = 500, guc_prewarm_on_init = True\<rparr> 3 2 True toy_file 7 None
      (False, empty_world) fresh_store (quad_indexes @ [unique_term]) = Inr (False, ld, idx') \<and>
    set idx' = set (quad_indexes @ [unique_term]) \<and>
    lstore ld = fresh_store\<lparr>quads := quads fresh_store @ map (asserted_quad 7) idss\<rparr> \<and>
    map (read_quad (visible (lworld ld) 0)) (map (asserted_quad 7) idss)
      = map (\<lambda>t. Some (as_triple t)) (flatten_opts (concat (map toy_line (split_lines toy_file)))) \<and>
    n_parse_skipped (lstats ld) = int (length (filter (\<lambda>i. i = None) (concat (map toy_line (split_lines toy_file))))) \<and>
    distinct (map row_key (visible (lworld ld) 0))"
proof (rule fast_paths_load_the_file[OF empty_world_ok _ hash_order_id, where turtle = toy_turtle and nthreads = 3 and window_triples = 2
      and id_reserve_block = 3 and sha = id and ?md5.0 = id and defer_min = 2 and base = None
      and cf = "\<lparr>guc_dict_path = Combined, guc_dict_batch_size = 500, guc_prewarm_on_init = True\<rparr>"])
  show "7 \<notin> set (trow fresh_store)" by (simp add: fresh_store_def)
  show "\<forall>r \<in> set (bulk_chunks toy_file (max 3 1)). line_oriented toy_turtle toy_line (slice toy_file r)"
    by (simp add: line_oriented_def toy_turtle_def)
  show "\<forall>l \<in> set (split_lines toy_file). valid_utf8 l \<and> toy_turtle None l = Some (toy_line l) \<and> (skippable l \<longrightarrow> toy_line l = [])"
    unfolding toy_file_lines by (simp add: toy_turtle_line toy_turtle_line(1)[of "[]", simplified] LF_def, code_simp)
qed simp_all

text \<open>The bulk path never asks for the lock: \<open>load_turtle(..., bulk_load => TRUE)\<close> on an empty
  dictionary writes into a locked graph that has no partition of its own, and leaves its record of the
  loaded source as it was, where the standard route refuses.
\<close>

theorem bulk_load_ignores_lock:
  assumes "reachable hasher db_of w" "dictionary_empty b w" "locked st g" "g \<notin> set (trow st)" "hash_order hs"
    and "set (quad_indexes @ [unique_term]) \<subseteq> set idx"
    and "items = concat (map (\<lambda>r. parse_items turtle (slice content r)) (bulk_chunks content (max nthreads 1)))"
  shows "bulk_load_guarded hasher hs sha md5 b turtle cf nthreads defer_min False content g base (d, w) st idx
      = Inl Lock_Not_Available \<and>
    (\<exists>ld idx'. bulk_load_guarded hasher hs sha md5 b turtle cf nthreads defer_min True content g base (d, w) st idx
        = Inr (d, ld, idx') \<and> graphs (lstore ld) = graphs st \<and>
      length (quads (lstore ld)) = length (quads st) + length (flatten_opts items))"
proof
  show "bulk_load_guarded hasher hs sha md5 b turtle cf nthreads defer_min False content g base (d, w) st idx
      = Inl Lock_Not_Available"
    by (simp add: bulk_load_guarded_def ingest_dispatch_def require_unlocked_locked[OF assms(3)])
  obtain ld idx' where ld: "ingest_turtle_parallel_bulk md5 hs b turtle nthreads defer_min content g w st idx = Inr (ld, idx')"
    "fast_loaded hasher b (rows w) (bdb (backends w b)) g st items ld"
    using bulk_loaded[OF reachable_dict_ok[OF assms(1)] assms(2,4-7), of md5 defer_min] by blast
  then have "graphs (lstore ld) = graphs st \<and> length (quads (lstore ld)) = length (quads st) + length (flatten_opts items)"
    by (auto simp: fast_loaded_def written_def dest: list_all2_lengthD)
  then show "\<exists>ld idx'. bulk_load_guarded hasher hs sha md5 b turtle cf nthreads defer_min True content g base (d, w) st idx
        = Inr (d, ld, idx') \<and> graphs (lstore ld) = graphs st \<and>
      length (quads (lstore ld)) = length (quads st) + length (flatten_opts items)"
    using ld(1) assms(2) by (simp add: bulk_load_guarded_def)
qed

theorem bulk_load_ignores_lock_witness:
  "bulk_load_guarded toy_hasher id id id 0 toy_turtle
      \<lparr>guc_dict_path = Combined, guc_dict_batch_size = 500, guc_prewarm_on_init = True\<rparr> 1 2 False toy_file 0 None
      (False, empty_world) frozen_store (quad_indexes @ [unique_term]) = Inl Lock_Not_Available \<and>
    (\<exists>ld idx'. bulk_load_guarded toy_hasher id id id 0 toy_turtle
      \<lparr>guc_dict_path = Combined, guc_dict_batch_size = 500, guc_prewarm_on_init = True\<rparr> 1 2 True toy_file 0 None
      (False, empty_world) frozen_store (quad_indexes @ [unique_term]) = Inr (False, ld, idx') \<and>
      graphs (lstore ld) = graphs frozen_store \<and>
      length (quads (lstore ld)) = length (quads frozen_store) +
        length (flatten_opts (concat (map (\<lambda>r. parse_items toy_turtle (slice toy_file r)) (bulk_chunks toy_file (max 1 1))))))"
  by (rule bulk_load_ignores_lock[OF empty_world_ok frozen_store_locked(2,3) hash_order_id _ refl]) simp

end
