(* ===== verification/Job_Control.thy ===== *)
theory Job_Control
  imports Line_Ranges
begin

text \<open>
  The shared-memory job table of the staged loader (\<open>src/storage/staged/jobctl.rs\<close>): a
  fixed table of jobs, a fixed table of worker slots and a counter of job ids. A coordinator
  creates a job and claims slots for it, the workers report through their slots, the coordinator
  reads the outcome and releases the job. Each table has its own lock. An operation is modelled as one
  step, which the code keeps for the operations that touch one table; three others take more than one
  atomic access: \<open>create_job\<close> draws the id from the atomic counter before it takes the lock of
  the jobs (two creations can so store their ids in the other order), and \<open>report_worker\<close> and
  \<open>release_job\<close> write the worker table and then, under its own lock, the job table; a reader
  between the two sees the worker's status before the job's error. Byte arrays with a length are strings;
  the reserved \<open>tspace\<close> and \<open>guc\<close> arrays are never written and left out. Job ids are
  unbounded.
\<close>

section \<open>State\<close>

definition MAX_JOBS :: nat where "MAX_JOBS = 8"
definition MAX_SLOTS :: nat where "MAX_SLOTS = 256"
definition PATH_CAP :: nat where "PATH_CAP = 1024"
definition ERR_CAP :: nat where "ERR_CAP = 512"

datatype job_phase = No_Phase | Stage | Dict | Resolve | Index | Phase_Done | Stage_Prep | Ping
datatype job_state = Idle | Running | Job_Failed | Job_Done | Fallback

fun phase_ordinal :: "job_phase \<Rightarrow> nat" where
  "phase_ordinal No_Phase = 0"
| "phase_ordinal Stage = 1"
| "phase_ordinal Dict = 2"
| "phase_ordinal Resolve = 3"
| "phase_ordinal Index = 4"
| "phase_ordinal Phase_Done = 5"
| "phase_ordinal Stage_Prep = 6"
| "phase_ordinal Ping = 250"

lemma phase_ordinal_inj: "phase_ordinal p = phase_ordinal q \<Longrightarrow> p = q"
  by (cases p; cases q; simp)

text \<open>High-water marks are compared by their ordinals.\<close>

instantiation job_phase :: linorder
begin

definition less_eq_job_phase :: "job_phase \<Rightarrow> job_phase \<Rightarrow> bool" where
  "less_eq_job_phase p q \<longleftrightarrow> phase_ordinal p \<le> phase_ordinal q"

definition less_job_phase :: "job_phase \<Rightarrow> job_phase \<Rightarrow> bool" where
  "less_job_phase p q \<longleftrightarrow> phase_ordinal p < phase_ordinal q"

instance
  by standard (auto simp: less_eq_job_phase_def less_job_phase_def intro: phase_ordinal_inj)

end

record job_slot =
  j_in_use :: bool
  j_phase :: job_phase        \<comment> \<open>high-water mark\<close>
  j_state :: job_state
  j_n_workers :: nat
  j_n_shards :: nat
  j_db_oid :: nat
  j_role_oid :: nat
  j_graph_id :: int
  j_job_id :: int
  j_path :: string
  j_err :: string

definition default_job :: job_slot where
  "default_job = \<lparr>j_in_use = False, j_phase = No_Phase, j_state = Idle, j_n_workers = 0, j_n_shards = 0,
     j_db_oid = 0, j_role_oid = 0, j_graph_id = 0, j_job_id = 0, j_path = [], j_err = []\<rparr>"

datatype worker_status = Spawned | Succeeded | Errored

record worker_slot =
  w_in_use :: bool
  w_phase :: job_phase
  w_status :: worker_status
  w_job_idx :: nat
  w_shard :: nat
  w_range :: "nat \<times> nat"      \<comment> \<open>range_lo, range_hi\<close>

definition default_worker :: worker_slot where
  "default_worker = \<lparr>w_in_use = False, w_phase = No_Phase, w_status = Spawned, w_job_idx = 0,
     w_shard = 0, w_range = (0, 0)\<rparr>"

record jobctl =
  shmem_ready :: bool
  jobs :: "job_slot list"
  wslots :: "worker_slot list"
  next_job_id :: int

definition unset_jobctl :: jobctl where
  "unset_jobctl = \<lparr>shmem_ready = False, jobs = [], wslots = [], next_job_id = 0\<rparr>"

definition init_jobctl :: jobctl where
  "init_jobctl = \<lparr>shmem_ready = True, jobs = replicate MAX_JOBS default_job,
                  wslots = replicate MAX_SLOTS default_worker, next_job_id = 1\<rparr>"

section \<open>Operations\<close>

definition first_free :: "('s \<Rightarrow> bool) \<Rightarrow> 's list \<Rightarrow> nat option" where
  "first_free in_use xs = find (\<lambda>i. \<not> in_use (xs ! i)) [0..<length xs]"

text \<open>The id is drawn before the table is searched, so a full table uses one up.\<close>

definition create_job ::
    "string \<Rightarrow> int \<Rightarrow> nat \<Rightarrow> nat \<Rightarrow> nat \<Rightarrow> nat \<Rightarrow> jobctl \<Rightarrow> nat option \<times> jobctl" where
  "create_job path g db_oid role_oid n_workers n_shards jc =
     (if \<not> shmem_ready jc then (None, jc)
      else if PATH_CAP < length path then (None, jc)
      else
        (let job_id = next_job_id jc; jc = jc\<lparr>next_job_id := job_id + 1\<rparr> in
         case first_free j_in_use (jobs jc) of
           None \<Rightarrow> (None, jc)
         | Some i \<Rightarrow>
             (Some i, jc\<lparr>jobs := (jobs jc)[i := default_job\<lparr>j_in_use := True, j_phase := No_Phase, j_state := Running,
                j_n_workers := n_workers, j_n_shards := n_shards, j_db_oid := db_oid, j_role_oid := role_oid,
                j_graph_id := g, j_job_id := job_id, j_path := path\<rparr>]\<rparr>)))"

definition claim_worker_slot ::
    "nat \<Rightarrow> job_phase \<Rightarrow> nat \<Rightarrow> nat \<times> nat \<Rightarrow> jobctl \<Rightarrow> nat option \<times> jobctl" where
  "claim_worker_slot job_idx ph shard range_lh jc =
     (if \<not> shmem_ready jc then (None, jc)
      else case first_free w_in_use (wslots jc) of
             None \<Rightarrow> (None, jc)
           | Some i \<Rightarrow>
               (Some i, jc\<lparr>wslots := (wslots jc)[i := \<lparr>w_in_use = True, w_phase = ph, w_status = Spawned,
                  w_job_idx = job_idx, w_shard = shard, w_range = range_lh\<rparr>]\<rparr>))"

definition read_job :: "nat \<Rightarrow> jobctl \<Rightarrow> job_slot" where
  "read_job i jc = jobs jc ! i"

definition read_worker :: "nat \<Rightarrow> jobctl \<Rightarrow> worker_slot" where
  "read_worker i jc = wslots jc ! i"

definition update_job :: "nat \<Rightarrow> (job_slot \<Rightarrow> job_slot) \<Rightarrow> jobctl \<Rightarrow> jobctl" where
  "update_job i f jc = jc\<lparr>jobs := (jobs jc)[i := f (jobs jc ! i)]\<rparr>"

text \<open>Only the first error string is kept, cut to \<open>ERR_CAP\<close> bytes; a failure without a text leaves room for one.\<close>

definition record_err :: "string \<Rightarrow> job_slot \<Rightarrow> job_slot" where
  "record_err err j = (if j_err j = [] then j\<lparr>j_err := take ERR_CAP err\<rparr> else j)\<lparr>j_state := Job_Failed\<rparr>"

definition report_worker :: "nat \<Rightarrow> bool \<Rightarrow> string \<Rightarrow> jobctl \<Rightarrow> jobctl" where
  "report_worker i success err jc =
     (if \<not> shmem_ready jc then jc
      else
        (let w = wslots jc ! i;
             jc = jc\<lparr>wslots := (wslots jc)[i := w\<lparr>w_status := (if success then Succeeded else Errored)\<rparr>]\<rparr>
         in if success then jc else update_job (w_job_idx w) (record_err err) jc))"

definition mark_job_done :: "nat \<Rightarrow> jobctl \<Rightarrow> jobctl" where
  "mark_job_done i jc =
     (if \<not> shmem_ready jc then jc else update_job i (\<lambda>j. j\<lparr>j_state := Job_Done, j_phase := Phase_Done\<rparr>) jc)"

definition request_fallback :: "nat \<Rightarrow> jobctl \<Rightarrow> jobctl" where
  "request_fallback i jc = (if \<not> shmem_ready jc then jc else update_job i (\<lambda>j. j\<lparr>j_state := Fallback\<rparr>) jc)"

definition advance_phase :: "nat \<Rightarrow> job_phase \<Rightarrow> jobctl \<Rightarrow> jobctl" where
  "advance_phase i ph jc = (if \<not> shmem_ready jc then jc else update_job i (\<lambda>j. j\<lparr>j_phase := ph\<rparr>) jc)"

definition of_job :: "nat \<Rightarrow> worker_slot \<Rightarrow> bool" where
  "of_job i w \<longleftrightarrow> w_in_use w \<and> w_job_idx w = i"

definition release_job :: "nat \<Rightarrow> jobctl \<Rightarrow> jobctl" where
  "release_job i jc =
     (if \<not> shmem_ready jc then jc
      else jc\<lparr>wslots := map (\<lambda>w. if of_job i w then default_worker else w) (wslots jc),
              jobs := (jobs jc)[i := default_job]\<rparr>)"

definition job_err :: "nat \<Rightarrow> jobctl \<Rightarrow> string" where
  "job_err i jc = from_utf8_lossy (j_err (read_job i jc))"

definition job_id_of :: "nat \<Rightarrow> jobctl \<Rightarrow> int" where
  "job_id_of i jc = j_job_id (read_job i jc)"

definition tally_job :: "nat \<Rightarrow> jobctl \<Rightarrow> nat \<times> nat" where
  "tally_job i jc =
     (if \<not> shmem_ready jc then (0, 0)
      else (length (filter (\<lambda>w. of_job i w \<and> w_status w = Succeeded) (wslots jc)),
            length (filter (\<lambda>w. of_job i w \<and> w_status w = Errored) (wslots jc))))"

section \<open>The protocol\<close>

text \<open>
  What coordinators and workers do to the tables: a coordinator creates a job and then acts on the
  index it got until it releases it; a worker reports on a slot in use. \<open>jstep i\<close> is a step of
  job \<open>i\<close>.
\<close>

inductive jstep :: "nat \<Rightarrow> jobctl \<Rightarrow> jobctl \<Rightarrow> bool" where
  create: "create_job path g db role nw ns jc = (Some i, jc') \<Longrightarrow> jstep i jc jc'"
| create_full: "create_job path g db role nw ns jc = (None, jc') \<Longrightarrow> jstep i jc jc'"
| claim: "j_in_use (jobs jc ! i) \<Longrightarrow> i < length (jobs jc) \<Longrightarrow> jstep i jc (snd (claim_worker_slot i ph shard r jc))"
| report: "k < length (wslots jc) \<Longrightarrow> of_job i (wslots jc ! k) \<Longrightarrow> jstep i jc (report_worker k success err jc)"
| mark: "i < length (jobs jc) \<Longrightarrow> j_in_use (jobs jc ! i) \<Longrightarrow> jstep i jc (mark_job_done i jc)"
| fall_back: "i < length (jobs jc) \<Longrightarrow> j_in_use (jobs jc ! i) \<Longrightarrow> jstep i jc (request_fallback i jc)"
| advance: "i < length (jobs jc) \<Longrightarrow> j_in_use (jobs jc ! i) \<Longrightarrow> jstep i jc (advance_phase i ph jc)"
| release: "i < length (jobs jc) \<Longrightarrow> j_in_use (jobs jc ! i) \<Longrightarrow> jstep i jc (release_job i jc)"

inductive jreach :: "jobctl \<Rightarrow> bool" where
  init: "jreach init_jobctl"
| step: "jreach jc \<Longrightarrow> jstep i jc jc' \<Longrightarrow> jreach jc'"

text \<open>
  The invariant: both tables keep their sizes, a slot in use belongs to a job in use, jobs in use
  have different ids below the counter, and what is stored fits its array.
\<close>

definition jobctl_ok :: "jobctl \<Rightarrow> bool" where
  "jobctl_ok jc \<longleftrightarrow>
     shmem_ready jc \<and> length (jobs jc) = MAX_JOBS \<and> length (wslots jc) = MAX_SLOTS \<and>
     (\<forall>k < MAX_SLOTS. w_in_use (wslots jc ! k) \<longrightarrow>
        w_job_idx (wslots jc ! k) < MAX_JOBS \<and> j_in_use (jobs jc ! w_job_idx (wslots jc ! k))) \<and>
     (\<forall>i < MAX_JOBS. j_in_use (jobs jc ! i) \<longrightarrow> 0 < j_job_id (jobs jc ! i) \<and> j_job_id (jobs jc ! i) < next_job_id jc) \<and>
     (\<forall>i < MAX_JOBS. \<forall>k < MAX_JOBS. i \<noteq> k \<longrightarrow> j_in_use (jobs jc ! i) \<longrightarrow> j_in_use (jobs jc ! k) \<longrightarrow>
        j_job_id (jobs jc ! i) \<noteq> j_job_id (jobs jc ! k)) \<and>
     (\<forall>i < MAX_JOBS. length (j_path (jobs jc ! i)) \<le> PATH_CAP \<and> length (j_err (jobs jc ! i)) \<le> ERR_CAP) \<and>
     0 < next_job_id jc"
lemma first_free_Some:
  "first_free u xs = Some i \<Longrightarrow> i < length xs \<and> \<not> u (xs ! i) \<and> (\<forall>k < i. u (xs ! k))"
  unfolding first_free_def by (auto simp: find_Some_iff)

lemma first_free_None: "first_free u xs = None \<longleftrightarrow> (\<forall>i < length xs. u (xs ! i))"
  by (auto simp: first_free_def find_None_iff)

lemmas job_ops = create_job_def claim_worker_slot_def report_worker_def update_job_def mark_job_done_def
  request_fallback_def advance_phase_def release_job_def record_err_def default_job_def default_worker_def of_job_def

lemma record_err_simps [simp]:
  "j_in_use (record_err e j) = j_in_use j" "j_job_id (record_err e j) = j_job_id j"
  "j_path (record_err e j) = j_path j" "j_graph_id (record_err e j) = j_graph_id j"
  "length (j_err j) \<le> ERR_CAP \<Longrightarrow> length (j_err (record_err e j)) \<le> ERR_CAP"
  by (simp_all add: record_err_def)

lemma jobctl_okD:
  assumes "jobctl_ok jc"
  shows "shmem_ready jc" "length (jobs jc) = MAX_JOBS" "length (wslots jc) = MAX_SLOTS"
    "k < MAX_SLOTS \<Longrightarrow> w_in_use (wslots jc ! k) \<Longrightarrow>
       w_job_idx (wslots jc ! k) < MAX_JOBS \<and> j_in_use (jobs jc ! w_job_idx (wslots jc ! k))"
    "i < MAX_JOBS \<Longrightarrow> j_in_use (jobs jc ! i) \<Longrightarrow> 0 < j_job_id (jobs jc ! i) \<and> j_job_id (jobs jc ! i) < next_job_id jc"
    "i < MAX_JOBS \<Longrightarrow> k < MAX_JOBS \<Longrightarrow> i \<noteq> k \<Longrightarrow> j_in_use (jobs jc ! i) \<Longrightarrow> j_in_use (jobs jc ! k) \<Longrightarrow>
       j_job_id (jobs jc ! i) \<noteq> j_job_id (jobs jc ! k)"
    "i < MAX_JOBS \<Longrightarrow> length (j_path (jobs jc ! i)) \<le> PATH_CAP"
    "i < MAX_JOBS \<Longrightarrow> length (j_err (jobs jc ! i)) \<le> ERR_CAP" "0 < next_job_id jc"
  using assms unfolding jobctl_ok_def by blast+

text \<open>Changing what a job slot records, but not whose it is.\<close>

lemma update_job_ok:
  assumes "jobctl_ok jc" "\<And>j. j_in_use (f j) = j_in_use j" "\<And>j. j_job_id (f j) = j_job_id j"
    and "\<And>j. j_path (f j) = j_path j" "\<And>j. length (j_err j) \<le> ERR_CAP \<Longrightarrow> length (j_err (f j)) \<le> ERR_CAP"
  shows "jobctl_ok (update_job i f jc)"
proof -
  let ?js = "(jobs jc)[i := f (jobs jc ! i)]"
  have n: "?js ! k = (if k = i \<and> i < length (jobs jc) then f (jobs jc ! i) else jobs jc ! k)" for k
    by (cases "i < length (jobs jc)") (auto simp: nth_list_update list_update_beyond not_less)
  have "j_in_use (?js ! k) = j_in_use (jobs jc ! k)" "j_job_id (?js ! k) = j_job_id (jobs jc ! k)"
    "j_path (?js ! k) = j_path (jobs jc ! k)" for k by (simp_all add: n assms(2-4))
  moreover have "k < MAX_JOBS \<Longrightarrow> length (j_err (?js ! k)) \<le> ERR_CAP" for k
    using jobctl_okD(8)[OF assms(1), of k] assms(5) by (auto simp: n)
  ultimately show ?thesis using assms(1) unfolding jobctl_ok_def update_job_def by simp
qed

lemma create_job_ok:
  assumes "jobctl_ok jc" "create_job path g db role nw ns jc = (r, jc')"
  shows "jobctl_ok jc'"
proof (cases "first_free j_in_use (jobs jc)")
  case None
  then show ?thesis
    using assms jobctl_okD(1,5)[OF assms(1)] unfolding jobctl_ok_def create_job_def
    by (auto simp: Let_def split: if_splits) force+
next
  case (Some i)
  note f = first_free_Some[OF Some]
  have used: "w_in_use (wslots jc ! k) \<Longrightarrow> k < MAX_SLOTS \<Longrightarrow> w_job_idx (wslots jc ! k) \<noteq> i" for k
    using jobctl_okD(4)[OF assms(1)] f by metis
  show ?thesis
  proof (cases "PATH_CAP < length path")
    case True
    then show ?thesis using assms by (simp add: create_job_def split: if_splits)
  next
    case False
    let ?j = "default_job\<lparr>j_in_use := True, j_phase := No_Phase, j_state := Running,
                j_n_workers := nw, j_n_shards := ns, j_db_oid := db, j_role_oid := role,
                j_graph_id := g, j_job_id := next_job_id jc, j_path := path\<rparr>"
    have jc': "jc' = jc\<lparr>next_job_id := next_job_id jc + 1, jobs := (jobs jc)[i := ?j]\<rparr>"
      using assms(2) Some False jobctl_okD(1)[OF assms(1)] by (simp add: create_job_def Let_def)
    show ?thesis
      using assms(1) f used False jobctl_okD(5)[OF assms(1)] unfolding jobctl_ok_def jc'
      by (auto simp: nth_list_update default_job_def; force)
  qed
qed

lemma claim_ok:
  assumes "jobctl_ok jc" "j_in_use (jobs jc ! i)" "i < length (jobs jc)"
  shows "jobctl_ok (snd (claim_worker_slot i ph shard r jc))"
proof (cases "first_free w_in_use (wslots jc)")
  case None
  then show ?thesis using assms(1) by (simp add: claim_worker_slot_def)
next
  case (Some k)
  then show ?thesis
    using first_free_Some[OF Some] assms jobctl_okD(1,2)[OF assms(1)] unfolding jobctl_ok_def
    by (simp add: claim_worker_slot_def nth_list_update)
qed

lemma report_ok:
  assumes "jobctl_ok jc" "k < length (wslots jc)"
  shows "jobctl_ok (report_worker k success err jc)"
proof -
  let ?w = "(wslots jc ! k)\<lparr>w_status := (if success then Succeeded else Errored)\<rparr>"
  let ?jc = "jc\<lparr>wslots := (wslots jc)[k := ?w]\<rparr>"
  have "jobctl_ok ?jc"
    using assms unfolding jobctl_ok_def by (simp add: nth_list_update)
  then have "jobctl_ok (update_job (w_job_idx (wslots jc ! k)) (record_err err) ?jc)"
    by (rule update_job_ok) simp_all
  with \<open>jobctl_ok ?jc\<close> show ?thesis
    using jobctl_okD(1)[OF assms(1)] by (cases success) (simp_all add: report_worker_def Let_def)
qed

lemma release_ok:
  assumes "jobctl_ok jc" "i < length (jobs jc)"
  shows "jobctl_ok (release_job i jc)"
  using assms unfolding jobctl_ok_def
  by (simp add: release_job_def nth_list_update default_job_def default_worker_def of_job_def)

lemma jstep_ok:
  assumes "jstep i jc jc'" "jobctl_ok jc"
  shows "jobctl_ok jc'"
  using assms
proof (induction rule: jstep.induct)
  case (mark i jc)
  then show ?case unfolding mark_job_done_def by (auto intro!: update_job_ok)
next
  case (fall_back i jc)
  then show ?case unfolding request_fallback_def by (auto intro!: update_job_ok)
next
  case (advance i jc ph)
  then show ?case unfolding advance_phase_def by (auto intro!: update_job_ok)
qed (auto intro: create_job_ok claim_ok report_ok release_ok)

lemma jreach_ok: "jreach jc \<Longrightarrow> jobctl_ok jc"
proof (induction rule: jreach.induct)
  case init
  show ?case unfolding jobctl_ok_def
    by (simp add: init_jobctl_def default_job_def default_worker_def)
next
  case (step jc i jc')
  then show ?case using jstep_ok by blast
qed
section \<open>The contract of a slot table\<close>

text \<open>
  A claim takes a slot that was free, and fails only when none is. A run of claims therefore gets
  pairwise different slots, as many as were free.
\<close>

locale slot_table =
  fixes claim :: "'r \<Rightarrow> 't \<Rightarrow> nat option \<times> 't" and used :: "'t \<Rightarrow> nat set" and ok :: "'t \<Rightarrow> bool"
    and fits :: "'r \<Rightarrow> bool" and cap :: nat
  assumes claim_ok: "ok t \<Longrightarrow> claim r t = (x, t') \<Longrightarrow> ok t'"
    and claim_some: "ok t \<Longrightarrow> claim r t = (Some i, t') \<Longrightarrow> i < cap \<and> i \<notin> used t \<and> used t' = insert i (used t)"
    and claim_none: "ok t \<Longrightarrow> fits r \<Longrightarrow> claim r t = (None, t') \<Longrightarrow> {..<cap} \<subseteq> used t \<and> used t' = used t"

fun claim_all :: "('r \<Rightarrow> 't \<Rightarrow> nat option \<times> 't) \<Rightarrow> 'r list \<Rightarrow> 't \<Rightarrow> nat option list \<times> 't" where
  "claim_all claim [] t = ([], t)"
| "claim_all claim (r # rs) t =
     (let (i, t) = claim r t; (is, t) = claim_all claim rs t in (i # is, t))"

lemma filter_update_same:
  "\<not> P (xs ! k) \<Longrightarrow> \<not> P y \<Longrightarrow> filter P (xs[k := y]) = filter P xs"
proof (induction xs arbitrary: k)
  case (Cons x xs)
  then show ?case by (cases k) auto
qed simp

lemma flatten_opts_Cons [simp]:
  "flatten_opts (None # xs) = flatten_opts xs" "flatten_opts (Some x # xs) = x # flatten_opts xs"
  by (simp_all add: flatten_opts_def)

context slot_table
begin

lemma claim_all_spec:
  "ok t \<Longrightarrow> \<forall>r \<in> set rs. fits r \<Longrightarrow> used t \<subseteq> {..<cap} \<Longrightarrow> claim_all claim rs t = (is, t') \<Longrightarrow>
     ok t' \<and> length is = length rs \<and> used t' \<subseteq> {..<cap} \<and>
     used t' = used t \<union> set (flatten_opts is) \<and> distinct (flatten_opts is) \<and> set (flatten_opts is) \<inter> used t = {} \<and>
     length (flatten_opts is) = min (length rs) (cap - card (used t))"
proof (induction rs arbitrary: t "is")
  case Nil
  then show ?case by (auto simp: flatten_opts_def)
next
  case (Cons r rs)
  obtain i t1 js where c: "claim r t = (i, t1)" "claim_all claim rs t1 = (js, t')" "is = i # js"
    using Cons.prems(4) by (auto split: prod.splits)
  have ok1: "ok t1" using claim_ok[OF Cons.prems(1) c(1)] .
  have fits: "\<forall>r \<in> set rs. fits r" "fits r" using Cons.prems(2) by simp_all
  show ?case
  proof (cases i)
    case None
    then have u: "{..<cap} \<subseteq> used t" "used t1 = used t" using claim_none[OF Cons.prems(1) fits(2)] c(1) by simp_all
    then have e: "used t = {..<cap}" using Cons.prems(3) by blast
    from Cons.IH[OF ok1 fits(1) _ c(2)] u(2) e None show ?thesis by (simp add: c(3))
  next
    case (Some k)
    then have u: "k < cap" "k \<notin> used t" "used t1 = insert k (used t)" using claim_some[OF Cons.prems(1)] c(1) by simp_all
    have sub: "used t1 \<subseteq> {..<cap}" using Cons.prems(3) u by simp
    have fin: "finite (used t)" using Cons.prems(3) by (rule finite_subset) simp
    have "card (used t1) \<le> cap" using card_mono[OF _ sub] by simp
    then have le: "Suc (card (used t)) \<le> cap" using u fin by simp
    note IH = Cons.IH[OF ok1 fits(1) sub c(2)]
    have l: "length (flatten_opts is) = Suc (length (flatten_opts js))" "set (flatten_opts is) = insert k (set (flatten_opts js))"
      "distinct (flatten_opts is) \<longleftrightarrow> k \<notin> set (flatten_opts js) \<and> distinct (flatten_opts js)"
      by (auto simp: c(3) Some)
    show ?thesis using IH u fin le unfolding l by (auto simp: c(3))
  qed
qed

end

lemma job_slots_claim:
  assumes "jobctl_ok jc"
  shows "create_job path g db role nw ns jc = (Some i, jc') \<Longrightarrow>
      i < MAX_JOBS \<and> \<not> j_in_use (jobs jc ! i) \<and> (\<forall>k. j_in_use (jobs jc' ! k) \<longleftrightarrow> k = i \<or> j_in_use (jobs jc ! k)) \<and>
      wslots jc' = wslots jc \<and> jobs jc' = (jobs jc)[i := jobs jc' ! i] \<and> j_job_id (jobs jc' ! i) = next_job_id jc \<and>
      j_path (jobs jc' ! i) = path \<and> j_graph_id (jobs jc' ! i) = g \<and> j_err (jobs jc' ! i) = [] \<and>
      j_state (jobs jc' ! i) = Running"
    and "length path \<le> PATH_CAP \<Longrightarrow> create_job path g db role nw ns jc = (None, jc') \<Longrightarrow>
      (\<forall>k < MAX_JOBS. j_in_use (jobs jc ! k)) \<and> jobs jc' = jobs jc \<and> wslots jc' = wslots jc"
proof -
  note l = jobctl_okD(1,2)[OF assms]
  assume c: "create_job path g db role nw ns jc = (Some i, jc')"
  then have f: "first_free j_in_use (jobs jc) = Some i"
    using l(1) by (auto simp: create_job_def Let_def split: if_splits option.splits)
  have i: "i < MAX_JOBS" "\<not> j_in_use (jobs jc ! i)" using first_free_Some[OF f] l(2) by simp_all
  define j where "j = default_job\<lparr>j_in_use := True, j_phase := No_Phase, j_state := Running,
                j_n_workers := nw, j_n_shards := ns, j_db_oid := db, j_role_oid := role,
                j_graph_id := g, j_job_id := next_job_id jc, j_path := path\<rparr>"
  have jf: "j_in_use j" "j_job_id j = next_job_id jc" "j_path j = path" "j_graph_id j = g" "j_err j = []"
    "j_state j = Running" by (simp_all add: j_def default_job_def)
  have e: "jobs jc' = (jobs jc)[i := j]" "wslots jc' = wslots jc"
    using c f l(1) by (auto simp: create_job_def Let_def j_def split: if_splits)
  have n: "jobs jc' ! k = (if k = i then j else jobs jc ! k)" for k
    using i l(2) by (simp add: e nth_list_update)
  show "i < MAX_JOBS \<and> \<not> j_in_use (jobs jc ! i) \<and> (\<forall>k. j_in_use (jobs jc' ! k) \<longleftrightarrow> k = i \<or> j_in_use (jobs jc ! k)) \<and>
      wslots jc' = wslots jc \<and> jobs jc' = (jobs jc)[i := jobs jc' ! i] \<and> j_job_id (jobs jc' ! i) = next_job_id jc \<and>
      j_path (jobs jc' ! i) = path \<and> j_graph_id (jobs jc' ! i) = g \<and> j_err (jobs jc' ! i) = [] \<and>
      j_state (jobs jc' ! i) = Running"
    using i e(2) jf by (auto simp: n intro!: e(1))
next
  note l = jobctl_okD(1,2)[OF assms]
  assume "length path \<le> PATH_CAP" and c: "create_job path g db role nw ns jc = (None, jc')"
  then have "first_free j_in_use (jobs jc) = None \<and> jobs jc' = jobs jc \<and> wslots jc' = wslots jc"
    using l(1) by (auto simp: create_job_def Let_def split: option.splits)
  then show "(\<forall>k < MAX_JOBS. j_in_use (jobs jc ! k)) \<and> jobs jc' = jobs jc \<and> wslots jc' = wslots jc"
    using l(2) by (auto simp: first_free_None)
qed

definition used_workers :: "jobctl \<Rightarrow> nat set" where
  "used_workers jc = {k. k < length (wslots jc) \<and> w_in_use (wslots jc ! k)}"

definition used_jobs :: "jobctl \<Rightarrow> nat set" where
  "used_jobs jc = {k. k < length (jobs jc) \<and> j_in_use (jobs jc ! k)}"

interpretation job_table: slot_table "\<lambda>(path, g, db, role, nw, ns) jc. create_job path g db role nw ns jc" used_jobs
    jobctl_ok "\<lambda>(path, g, db, role, nw, ns). length path \<le> PATH_CAP" MAX_JOBS
proof unfold_locales
  fix jc jc' i and r :: "string \<times> int \<times> nat \<times> nat \<times> nat \<times> nat"
  obtain path g db role nw ns where r: "r = (path, g, db, role, nw, ns)" by (metis prod_cases6)
  assume ok: "jobctl_ok jc"
  show "(case r of (path, g, db, role, nw, ns) \<Rightarrow> \<lambda>jc. create_job path g db role nw ns jc) jc = (i, jc') \<Longrightarrow> jobctl_ok jc'"
    for i using create_job_ok[OF ok] by (simp add: r)
  show "i < MAX_JOBS \<and> i \<notin> used_jobs jc \<and> used_jobs jc' = insert i (used_jobs jc)"
    if "(case r of (path, g, db, role, nw, ns) \<Rightarrow> \<lambda>jc. create_job path g db role nw ns jc) jc = (Some i, jc')"
  proof -
    have c: "create_job path g db role nw ns jc = (Some i, jc')" using that by (simp add: r)
    show ?thesis using job_slots_claim(1)[OF ok c] jobctl_okD(2)[OF ok] jobctl_okD(2)[OF create_job_ok[OF ok c]]
      by (auto simp: used_jobs_def)
  qed
  show "{..<MAX_JOBS} \<subseteq> used_jobs jc \<and> used_jobs jc' = used_jobs jc"
    if "case r of (path, g, db, role, nw, ns) \<Rightarrow> length path \<le> PATH_CAP"
      "(case r of (path, g, db, role, nw, ns) \<Rightarrow> \<lambda>jc. create_job path g db role nw ns jc) jc = (None, jc')"
    using that job_slots_claim(2)[OF ok] jobctl_okD(2)[OF ok] by (fastforce simp: r used_jobs_def)
qed

text \<open>A claim of a worker slot: what it changes, and that it fails only on a full table.\<close>

lemma worker_claim:
  assumes "jobctl_ok jc" "claim_worker_slot i ph sh rg jc = (res, jc')"
  shows "res = Some k \<Longrightarrow> k < MAX_SLOTS \<and> \<not> w_in_use (wslots jc ! k) \<and> jobs jc' = jobs jc \<and>
      next_job_id jc' = next_job_id jc \<and> shmem_ready jc' \<and>
      wslots jc' = (wslots jc)[k := \<lparr>w_in_use = True, w_phase = ph, w_status = Spawned, w_job_idx = i, w_shard = sh, w_range = rg\<rparr>]"
    and "res = None \<Longrightarrow> jc' = jc \<and> (\<forall>k < MAX_SLOTS. w_in_use (wslots jc ! k))"
  using assms jobctl_okD(1,3)[OF assms(1)] first_free_Some[of w_in_use "wslots jc"] first_free_None[of w_in_use "wslots jc"]
  by (auto simp: claim_worker_slot_def split: option.splits)

interpretation worker_table: slot_table "\<lambda>(ph, sh, rg) jc. claim_worker_slot i ph sh rg jc" used_workers
    "\<lambda>jc. jobctl_ok jc \<and> j_in_use (jobs jc ! i) \<and> i < MAX_JOBS" "\<lambda>_. True" MAX_SLOTS for i
proof unfold_locales
  fix jc jc' k and r :: "job_phase \<times> nat \<times> nat \<times> nat"
  obtain ph sh rg where r: "r = (ph, sh, rg)" by (metis prod_cases3)
  assume ok: "jobctl_ok jc \<and> j_in_use (jobs jc ! i) \<and> i < MAX_JOBS"
  then have jo: "jobctl_ok jc" by blast
  show "jobctl_ok jc' \<and> j_in_use (jobs jc' ! i) \<and> i < MAX_JOBS"
    if "(case r of (ph, sh, rg) \<Rightarrow> \<lambda>jc. claim_worker_slot i ph sh rg jc) jc = (res, jc')" for res
  proof -
    have c: "claim_worker_slot i ph sh rg jc = (res, jc')" using that by (simp add: r)
    have "jobs jc' = jobs jc" using worker_claim[OF jo c] by (cases res) auto
    then show ?thesis using claim_ok[of jc i ph sh rg] c ok jobctl_okD(2)[OF jo] by simp
  qed
  show "k < MAX_SLOTS \<and> k \<notin> used_workers jc \<and> used_workers jc' = insert k (used_workers jc)"
    if "(case r of (ph, sh, rg) \<Rightarrow> \<lambda>jc. claim_worker_slot i ph sh rg jc) jc = (Some k, jc')"
    using that worker_claim(1)[OF jo, of i ph sh rg "Some k" jc' k] jobctl_okD(3)[OF jo]
    by (auto simp: r used_workers_def nth_list_update)
  show "{..<MAX_SLOTS} \<subseteq> used_workers jc \<and> used_workers jc' = used_workers jc"
    if "(case r of (ph, sh, rg) \<Rightarrow> \<lambda>jc. claim_worker_slot i ph sh rg jc) jc = (None, jc')"
    using that worker_claim(2)[OF jo, of i ph sh rg None jc'] jobctl_okD(3)[OF jo]
    by (auto simp: r used_workers_def)
qed
section \<open>One job does not disturb another\<close>

text \<open>What a coordinator can see of its job.\<close>

definition job_view :: "nat \<Rightarrow> jobctl \<Rightarrow> job_slot \<times> (nat \<times> nat) \<times> string \<times> worker_slot list" where
  "job_view j jc = (read_job j jc, tally_job j jc, job_err j jc, filter (of_job j) (wslots jc))"

lemma tally_filter:
  "shmem_ready jc \<Longrightarrow> tally_job j jc =
     (length (filter (\<lambda>w. w_status w = Succeeded) (filter (of_job j) (wslots jc))),
      length (filter (\<lambda>w. w_status w = Errored) (filter (of_job j) (wslots jc))))"
  by (simp add: tally_job_def conj_commute)

lemma job_view_eqI:
  assumes "shmem_ready jc" "shmem_ready jc'" "jobs jc' ! j = jobs jc ! j"
    and "filter (of_job j) (wslots jc') = filter (of_job j) (wslots jc)"
  shows "job_view j jc' = job_view j jc"
  using assms by (simp add: job_view_def tally_filter job_err_def read_job_def)

lemma update_job_other: "i \<noteq> j \<Longrightarrow> jobs (update_job i f jc) ! j = jobs jc ! j"
  by (simp add: update_job_def)

lemma release_slots:
  "i \<noteq> j \<Longrightarrow> filter (of_job j) (map (\<lambda>w. if of_job i w then default_worker else w) ws) = filter (of_job j) ws"
  by (induction ws) (auto simp: of_job_def default_worker_def)

lemma jstep_view:
  assumes "jstep i jc jc'" "jobctl_ok jc" "j < MAX_JOBS" "j_in_use (jobs jc ! j)" "i \<noteq> j"
  shows "job_view j jc' = job_view j jc"
proof -
  note r = jobctl_okD(1)[OF assms(2)] jobctl_okD(1)[OF jstep_ok[OF assms(1,2)]]
  have "jobs jc' ! j = jobs jc ! j \<and> filter (of_job j) (wslots jc') = filter (of_job j) (wslots jc)"
    using assms
  proof (induction rule: jstep.induct)
    case (create path g db role nw ns jc i jc')
    note c = job_slots_claim(1)[OF create.prems(1) create.hyps]
    then obtain y where "jobs jc' = (jobs jc)[i := y]" "wslots jc' = wslots jc" by blast
    with create.prems(4) show ?case by simp
  next
    case (create_full path g db role nw ns jc jc' i)
    then show ?case by (auto simp: create_job_def Let_def split: if_splits option.splits)
  next
    case (claim jc i ph shard rg)
    obtain res jc1 where c: "claim_worker_slot i ph shard rg jc = (res, jc1)" by fastforce
    show ?case
    proof (cases res)
      case None
      then show ?thesis using worker_claim(2)[OF claim.prems(1) c] by (simp add: c)
    next
      case (Some k)
      have "\<not> of_job j (wslots jc ! k)" using worker_claim(1)[OF claim.prems(1) c Some] by (simp add: of_job_def)
      then show ?thesis
        using worker_claim(1)[OF claim.prems(1) c Some] claim.prems(4)
        by (simp add: c filter_update_same of_job_def)
    qed
  next
    case (report k jc i success err)
    have "filter (of_job j) ((wslots jc)[k := (wslots jc ! k)\<lparr>w_status := st\<rparr>]) = filter (of_job j) (wslots jc)" for st
      using report.hyps(2) report.prems(4) by (intro filter_update_same) (auto simp: of_job_def)
    moreover have "w_job_idx (wslots jc ! k) \<noteq> j" using report.hyps(2) report.prems(4) by (simp add: of_job_def)
    ultimately show ?case by (simp add: report_worker_def Let_def update_job_def)
  next
    case (mark i jc)
    then show ?case by (simp add: mark_job_done_def update_job_def)
  next
    case (fall_back i jc)
    then show ?case by (simp add: request_fallback_def update_job_def)
  next
    case (advance i jc ph)
    then show ?case by (simp add: advance_phase_def update_job_def)
  next
    case (release i jc)
    then show ?case by (simp add: release_job_def release_slots)
  qed
  then show ?thesis using job_view_eqI[OF r] by blast
qed

section \<open>What the reports of the workers add up to\<close>

type_synonym report = "nat \<times> bool \<times> string"   \<comment> \<open>slot, success, error text\<close>

definition apply_report :: "report \<Rightarrow> jobctl \<Rightarrow> jobctl" where
  "apply_report r jc = (case r of (k, success, err) \<Rightarrow> report_worker k success err jc)"

fun first_text :: "report list \<Rightarrow> string" where
  "first_text [] = []"
| "first_text ((k, success, err) # rs) = (if \<not> success \<and> err \<noteq> [] then err else first_text rs)"

definition reports_end :: "report list \<Rightarrow> worker_status \<Rightarrow> nat" where
  "reports_end rs st = length (filter (\<lambda>(k, success, err). (if success then Succeeded else Errored) = st) rs)"

lemma count_update:
  "k < length ws \<Longrightarrow> P (ws ! k) = False \<Longrightarrow>
     length (filter P (ws[k := w])) = length (filter P ws) + (if P w then 1 else 0)"
proof (induction ws arbitrary: k)
  case (Cons x xs)
  then show ?case by (cases k) auto
qed simp

lemma report_slots:
  "shmem_ready jc \<Longrightarrow> wslots (report_worker k success err jc) =
     (wslots jc)[k := (wslots jc ! k)\<lparr>w_status := (if success then Succeeded else Errored)\<rparr>]"
  "shmem_ready (report_worker k success err jc) = shmem_ready jc"
  "shmem_ready jc \<Longrightarrow> jobs (report_worker k success err jc) = (if success then jobs jc
     else (jobs jc)[w_job_idx (wslots jc ! k) := record_err err (jobs jc ! w_job_idx (wslots jc ! k))])"
  by (simp_all add: report_worker_def Let_def update_job_def)

definition errs_after :: "string \<Rightarrow> report list \<Rightarrow> string" where
  "errs_after e rs = (if e = [] then take ERR_CAP (first_text rs) else e)"

lemma reports_fold:
  "\<lbrakk>jobctl_ok jc; i < MAX_JOBS; distinct (map fst rs);
    \<forall>(k, s, e) \<in> set rs. k < MAX_SLOTS \<and> of_job i (wslots jc ! k) \<and> w_status (wslots jc ! k) = Spawned\<rbrakk> \<Longrightarrow>
   j_err (jobs (fold apply_report rs jc) ! i) = errs_after (j_err (jobs jc ! i)) rs \<and>
   j_state (jobs (fold apply_report rs jc) ! i)
     = (if \<forall>(k, s, e) \<in> set rs. s then j_state (jobs jc ! i) else Job_Failed) \<and>
   tally_job i (fold apply_report rs jc)
     = (fst (tally_job i jc) + reports_end rs Succeeded, snd (tally_job i jc) + reports_end rs Errored) \<and>
   jobctl_ok (fold apply_report rs jc)"
proof (induction rs arbitrary: jc)
  case Nil
  then show ?case by (simp add: errs_after_def reports_end_def)
next
  case (Cons r rs)
  obtain k s e where r: "r = (k, s, e)" by (metis prod_cases3)
  note d = jobctl_okD(1-3)[OF Cons.prems(1)]
  have k: "k < length (wslots jc)" "of_job i (wslots jc ! k)" "w_status (wslots jc ! k) = Spawned"
    using Cons.prems(4) d(3) by (auto simp: r)
  let ?jc = "report_worker k s e jc"
  have ok: "jobctl_ok ?jc" by (rule report_ok[OF Cons.prems(1) k(1)])
  have later: "k' \<noteq> k" if "(k', s', e') \<in> set rs" for k' s' e'
    using Cons.prems(3) that by (force simp: r)
  have "\<forall>(k', s', e') \<in> set rs. k' < MAX_SLOTS \<and> of_job i (wslots ?jc ! k') \<and> w_status (wslots ?jc ! k') = Spawned"
    using Cons.prems(4) later by (fastforce simp: report_slots(1)[OF d(1)])
  note IH = Cons.IH[OF ok Cons.prems(2) _ this]
  have idx: "w_job_idx (wslots jc ! k) = i" using k(2) by (simp add: of_job_def)
  have il: "i < length (jobs jc)" using Cons.prems(2) d(2) by simp
  have err: "errs_after (j_err (jobs ?jc ! i)) rs = errs_after (j_err (jobs jc ! i)) (r # rs)"
    using il by (auto simp: report_slots(3)[OF d(1)] idx errs_after_def r record_err_def ERR_CAP_def)
  have st: "j_state (jobs ?jc ! i) = (if s then j_state (jobs jc ! i) else Job_Failed)"
    using il by (simp add: report_slots(3)[OF d(1)] idx record_err_def)
  have ty: "tally_job i ?jc = (fst (tally_job i jc) + (if s then 1 else 0), snd (tally_job i jc) + (if s then 0 else 1))"
    using k d(1) count_update[OF k(1), of "\<lambda>w. of_job i w \<and> w_status w = Succeeded"]
      count_update[OF k(1), of "\<lambda>w. of_job i w \<and> w_status w = Errored"]
    by (simp add: tally_job_def report_slots of_job_def)
  show ?case
    using IH Cons.prems(3) err st ty by (auto simp: r apply_report_def reports_end_def split: if_splits)
qed

section \<open>Properties\<close>

text \<open>C28: In every state coordinators and workers can bring the tables to, two jobs in use have
  different public ids, all below the counter, so no two loads share a staging table; every worker
  slot in use belongs to a job in use; and paths and error texts fit their arrays.
\<close>

theorem job_table_invariant:
  assumes "jreach jc"
  shows "length (jobs jc) = MAX_JOBS \<and> length (wslots jc) = MAX_SLOTS \<and>
    (\<forall>i < MAX_JOBS. \<forall>k < MAX_JOBS. i \<noteq> k \<and> j_in_use (jobs jc ! i) \<and> j_in_use (jobs jc ! k) \<longrightarrow>
       job_id_of i jc \<noteq> job_id_of k jc) \<and>
    (\<forall>i < MAX_JOBS. j_in_use (jobs jc ! i) \<longrightarrow> 0 < job_id_of i jc \<and> job_id_of i jc < next_job_id jc) \<and>
    (\<forall>k < MAX_SLOTS. w_in_use (wslots jc ! k) \<longrightarrow> j_in_use (read_job (w_job_idx (read_worker k jc)) jc)) \<and>
    (\<forall>i < MAX_JOBS. length (j_path (jobs jc ! i)) \<le> PATH_CAP \<and> length (j_err (jobs jc ! i)) \<le> ERR_CAP)"
  using jreach_ok[OF assms] unfolding jobctl_ok_def job_id_of_def read_job_def read_worker_def by blast

text \<open>C29: What a coordinator sees of its job (the job's slot, the tally of its workers, its error text,
  its worker slots) is not changed by any step of another job: not by another load creating or
  releasing its job, claiming slots or reporting failures.
\<close>

theorem jobs_isolated:
  assumes "jreach jc" "j < MAX_JOBS" "j_in_use (jobs jc ! j)" "jstep i jc jc'" "i \<noteq> j"
  shows "job_view j jc' = job_view j jc"
  using jstep_view[OF assms(4) jreach_ok[OF assms(1)] assms(2,3,5)] .

text \<open>When the workers of a job report, each once, the job's error text is the first text a failed
  worker gave, cut to 512 bytes, whatever later failures say; the job is failed exactly when one of
  them failed; and the tally counts the successes and the failures.
\<close>

theorem reports_summarised:
  assumes "jreach jc" "i < MAX_JOBS" "j_err (read_job i jc) = []" "tally_job i jc = (0, 0)" "distinct (map fst rs)"
    and "\<forall>(k, s, e) \<in> set rs. k < MAX_SLOTS \<and> of_job i (read_worker k jc) \<and> w_status (read_worker k jc) = Spawned"
  shows "let jc' = fold apply_report rs jc in
    job_err i jc' = from_utf8_lossy (take ERR_CAP (first_text rs)) \<and>
    j_state (read_job i jc') = (if \<forall>(k, s, e) \<in> set rs. s then j_state (read_job i jc) else Job_Failed) \<and>
    tally_job i jc' = (length (filter (\<lambda>(k, s, e). s) rs), length (filter (\<lambda>(k, s, e). \<not> s) rs))"
proof -
  have "reports_end rs Succeeded = length (filter (\<lambda>(k, s, e). s) rs)"
    "reports_end rs Errored = length (filter (\<lambda>(k, s, e). \<not> s) rs)"
    by (auto simp: reports_end_def intro!: arg_cong[where f = length] filter_cong split: if_splits)
  then show ?thesis
    using reports_fold[OF jreach_ok[OF assms(1)] assms(2,5), folded read_worker_def] assms(3,4,6)
    by (simp add: Let_def read_job_def job_err_def errs_after_def)
qed

section \<open>Witnesses\<close>

text \<open>Two loads at once, the first with two workers.\<close>

definition two_jobs :: jobctl where
  "two_jobs = snd (create_job ''b.nt'' 2 0 0 1 0 (snd (create_job ''a.nt'' 1 0 0 2 0 init_jobctl)))"

definition two_workers :: jobctl where
  "two_workers = snd (claim_worker_slot 0 Stage 1 (4, 8) (snd (claim_worker_slot 0 Stage 0 (0, 4) two_jobs)))"

lemma create_reach: "jreach jc \<Longrightarrow> jreach (snd (create_job path g db role nw ns jc))"
  using jstep.create jstep.create_full jreach.step by (metis not_None_eq prod.collapse)

lemma two_jobs_reach: "jreach two_jobs"
  unfolding two_jobs_def by (intro create_reach jreach.init)

lemma two_workers_reach: "jreach two_workers"
proof -
  have "jreach (snd (claim_worker_slot 0 Stage 0 (0, 4) two_jobs))"
    by (rule jreach.step[OF two_jobs_reach jstep.claim]) code_simp+
  then show ?thesis
    unfolding two_workers_def by (rule jreach.step[OF _ jstep.claim]) code_simp+
qed

theorem job_table_invariant_witness:
  "job_id_of 0 two_jobs \<noteq> job_id_of 1 two_jobs \<and> j_in_use (jobs two_jobs ! 0) \<and> j_in_use (jobs two_jobs ! 1)"
proof -
  have "j_in_use (jobs two_jobs ! 0) \<and> j_in_use (jobs two_jobs ! 1)" "0 < MAX_JOBS" "1 < MAX_JOBS" by code_simp+
  with job_table_invariant[OF two_jobs_reach] show ?thesis by (metis zero_neq_one)
qed

theorem jobs_isolated_witness:
  "job_view 1 (release_job 0 two_jobs) = job_view 1 two_jobs"
proof -
  have step: "jstep 0 two_jobs (release_job 0 two_jobs)" by (rule jstep.release) code_simp+
  have "1 < MAX_JOBS" "j_in_use (jobs two_jobs ! 1)" by code_simp+
  from jobs_isolated[OF two_jobs_reach this step] show ?thesis by simp
qed

theorem reports_summarised_witness:
  "let jc' = fold apply_report [(0, False, ''disk full''), (1, False, ''late'')] two_workers in
    job_err 0 jc' = from_utf8_lossy (take ERR_CAP ''disk full'') \<and> j_state (read_job 0 jc') = Job_Failed \<and> tally_job 0 jc' = (0, 2)"
proof -
  let ?rs = "[(0, False, ''disk full''), (1, False, ''late'')]"
  have "\<forall>(k, s, e) \<in> set ?rs. k < MAX_SLOTS \<and> of_job 0 (read_worker k two_workers) \<and> w_status (read_worker k two_workers) = Spawned"
    by code_simp
  moreover have "0 < MAX_JOBS" "j_err (read_job 0 two_workers) = []" "tally_job 0 two_workers = (0, 0)" by code_simp+
  ultimately show ?thesis
    using reports_summarised[OF two_workers_reach, of 0 ?rs] by (simp add: Let_def)
qed

end
