(* ===== verification/Staged_Phases.thy ===== *)
theory Staged_Phases
  imports Bulk_Load Job_Control Staged_Text
begin

text \<open>
  The phases of the staged loader (\<open>src/storage/staged/phases.rs\<close>): preparation, STAGE (parse a byte
  range, write it out and COPY it in), DICT (number the distinct terms), RESOLVE (join the staged
  rows with the dictionary into a new partition) and INDEX. Each runs in a worker as one transaction on
  the committed state of the database; SQL statements are read as functions on tables. The order
  in which a \<open>GROUP BY\<close> delivers its groups is the parameter \<open>hs\<close>, PostgreSQL's \<open>md5\<close> the parameter
  \<open>md5\<close>, its COPY reader the parameter \<open>copy_in\<close>, the N-Triples parser the parameter \<open>nt\<close>. Planner
  settings change no result and are not part of the state.
\<close>

section \<open>State\<close>

record staged_db =
  ddict :: "dict_row list"                 \<comment> \<open>\<open>_pgrdf_dictionary\<close>\<close>
  dnext :: int                             \<comment> \<open>its identity sequence\<close>
  dstore :: store
  didx :: "string list"                    \<comment> \<open>indexes and constraints\<close>
  dstg :: "int \<Rightarrow> staged_row list option"  \<comment> \<open>\<open>_pgrdf_stg_<job_id>\<close>\<close>

definition STAGE_WINDOW_LINES :: nat where "STAGE_WINDOW_LINES = 4000000"
definition STAGE_PARSE_CHUNK :: nat where "STAGE_PARSE_CHUNK = 4096"

definition staging_table :: "int \<Rightarrow> string" where
  "staging_table job_id = ''pgrdf._pgrdf_stg_'' @ int_str job_id"

definition dict_resolve_index :: string where "dict_resolve_index = ''_pgrdf_dict_resolve_idx''"

definition index_ddls :: "string list" where "index_ddls = quad_indexes @ [unique_term]"

section \<open>STAGE\<close>

text \<open>\<open>IF NOT EXISTS\<close>: a table of that name is kept with its rows.\<close>

definition prepare_for_load :: "job_slot \<Rightarrow> staged_db \<Rightarrow> staged_db" where
  "prepare_for_load job db =
     db\<lparr>didx := bulk_drop_indexes (didx db),
        dstg := (case dstg db (j_job_id job) of
                   None \<Rightarrow> (dstg db)(j_job_id job \<mapsto> [])
                 | Some rs \<Rightarrow> dstg db)\<rparr>"

fun node_text :: "named_or_blank \<Rightarrow> string" where
  "node_text (NamedNode i) = i"
| "node_text (BlankNode l) = l"

fun staged_object :: "ox_term \<Rightarrow> int \<times> string \<times> string option \<times> string option" where
  "staged_object (NodeTerm (NamedNode i)) = (1, i, None, None)"
| "staged_object (NodeTerm (BlankNode l)) = (2, l, None, None)"
| "staged_object (Literal v (Some l) dt) = (3, v, None, Some l)"
| "staged_object (Literal v None dt) = (3, v, Some dt, None)"

fun staged_of :: "ox_triple \<Rightarrow> staged_row" where
  "staged_of (s, p, t) = (node_text s, p, staged_object t)"

text \<open>Each line by its own parser, in slices that are put together again.\<close>

type_synonym nt_parser = "string \<Rightarrow> ox_triple option list"

definition parse_slice :: "nt_parser \<Rightarrow> string list \<Rightarrow> staged_row list \<times> int" where
  "parse_slice nt ls =
     (let items = concat (map nt ls)
      in (map staged_of (flatten_opts items), int (length (filter (\<lambda>i. i = None) items))))"

definition parse_window_par :: "nt_parser \<Rightarrow> string list \<Rightarrow> staged_row list \<times> int" where
  "parse_window_par nt ls =
     (let parsed = map (parse_slice nt) (chunks STAGE_PARSE_CHUNK ls)
      in (concat (map fst parsed), sum_list (map snd parsed)))"

text \<open>The rows go through a file of their own; the table must exist.\<close>

type_synonym copy_reader = "string \<Rightarrow> staged_row list option"

definition copy_window :: "copy_reader \<Rightarrow> int \<Rightarrow> staged_row list \<Rightarrow> staged_db \<Rightarrow> staged_db res" where
  "copy_window copy_in job_id rs db =
     (if rs = [] then Inr db
      else case write_copy_rows rs of
        None \<Rightarrow> Inl Internal_Error
      | Some out \<Rightarrow>
          (case (copy_in out, dstg db job_id) of
             (Some new, Some old) \<Rightarrow> Inr (db\<lparr>dstg := (dstg db)(job_id \<mapsto> old @ new)\<rparr>)
           | _ \<Rightarrow> Inl Internal_Error))"

function stage_loop ::
    "copy_reader \<Rightarrow> nt_parser \<Rightarrow> nat \<Rightarrow> int \<Rightarrow> string list \<Rightarrow> int \<Rightarrow> staged_db \<Rightarrow> (int \<times> staged_db) res" where
  "stage_loop copy_in nt n job_id ls staged db =
     (case read_window n ls [] of
        None \<Rightarrow> Inl Internal_Error
      | Some (win, rest, eof) \<Rightarrow>
          if win = [] then Inr (staged, db)
          else
            (let rs = fst (parse_window_par nt win); staged = staged + int (length rs) in
             res_bind (copy_window copy_in job_id rs db) (\<lambda>db.
               if eof then Inr (staged, db) else stage_loop copy_in nt n job_id rest staged db)))"
  by pat_completeness auto
termination
proof (relation "measure (\<lambda>(c, nt, n, j, ls, staged, db). length ls)")
  fix n :: nat and ls win rest :: "string list" and eof :: bool and p q
  fix c :: copy_reader and nt :: nt_parser and j staged staged' :: int and db db' :: staged_db
  assume "read_window n ls [] = Some p" "(win, q) = p" "(rest, eof) = q" "win \<noteq> []"
  then have "length rest < length ls" using read_window_shrinks[of n ls "[]" win rest eof] by (cases win) auto
  then show "((c, nt, n, j, rest, staged', db'), (c, nt, n, j, ls, staged, db))
      \<in> measure (\<lambda>(c, nt, n, j, ls, staged, db). length ls)" by simp
qed simp

declare stage_loop.simps [simp del]

text \<open>A file that cannot be opened is a panic of the worker.\<close>

definition stage :: "copy_reader \<Rightarrow> nt_parser \<Rightarrow> (string \<Rightarrow> string option) \<Rightarrow> job_slot \<Rightarrow> worker_slot \<Rightarrow> staged_db \<Rightarrow> (int \<times> staged_db) res" where
  "stage copy_in nt read_file job w db =
     (case read_file (j_path job) of
        None \<Rightarrow> Inl Internal_Error
      | Some content \<Rightarrow>
          stage_loop copy_in nt STAGE_WINDOW_LINES (j_job_id job) (split_lines (slice content (w_range w))) 0 db)"

section \<open>DICT\<close>

text \<open>\<open>s LIKE '\_:%'\<close>.\<close>

definition like_blank :: "string \<Rightarrow> bool" where
  "like_blank s \<longleftrightarrow> take 2 s = ''_:''"

definition uri_column :: "staged_row list \<Rightarrow> string list" where
  "uri_column stg =
     map (\<lambda>(s, _). s) (filter (\<lambda>(s, _). \<not> like_blank s) stg) @ map (\<lambda>(s, p, _). p) stg
     @ map (\<lambda>(s, p, ty, v, _). v) (filter (\<lambda>(s, p, ty, _). ty = 1) stg)
     @ concat (map (\<lambda>(s, p, ty, v, dt, lang). case dt of Some d \<Rightarrow> [d] | None \<Rightarrow> []) (filter (\<lambda>(s, p, ty, _). ty = 3) stg))"

definition blank_column :: "staged_row list \<Rightarrow> string list" where
  "blank_column stg =
     map (\<lambda>(s, _). s) (filter (\<lambda>(s, _). like_blank s) stg)
     @ map (\<lambda>(s, p, ty, v, _). v) (filter (\<lambda>(s, p, ty, _). ty = 2) stg)"

definition dict_lit_dedup :: "staged_row list \<Rightarrow> (string \<times> string option \<times> string option) list" where
  "dict_lit_dedup stg = remdups (map (\<lambda>(s, p, ty, v, dt, lang). (v, dt, lang)) (filter (\<lambda>(s, p, ty, _). ty = 3) stg))"

text \<open>\<open>base + row_number()\<close>.\<close>

definition numbered :: "int \<Rightarrow> 'a list \<Rightarrow> (int \<times> 'a) list" where
  "numbered lo xs = zip (map (\<lambda>i. lo + int i) [1..<Suc (length xs)]) xs"

definition max_id :: "dict_row list \<Rightarrow> int" where
  "max_id d = (if d = [] then 0 else Max (set (map row_id d)))"

definition lookup_uri :: "(int \<times> string) list \<Rightarrow> string \<Rightarrow> int option" where
  "lookup_uri d_uri u = map_option fst (find (\<lambda>(i, v). v = u) d_uri)"

definition dict_all ::
    "(string list \<Rightarrow> string list) \<Rightarrow> ((string \<times> string option \<times> string option) list \<Rightarrow> (string \<times> string option \<times> string option) list)
      \<Rightarrow> int \<Rightarrow> staged_row list \<Rightarrow> (int \<times> dict_key) list" where
  "dict_all hs hl base stg =
     (let d_uri = numbered base (hs (remdups (uri_column stg)));
          d_blank = numbered (base + int (length d_uri)) (hs (remdups (blank_column stg)));
          d_lit = numbered (base + int (length d_uri) + int (length d_blank)) (hl (dict_lit_dedup stg))
      in map (\<lambda>(i, u). (i, 1, u, None, None)) d_uri @ map (\<lambda>(i, l). (i, 2, l, None, None)) d_blank
         @ map (\<lambda>(i, v, dt, lang). (i, 3, v, Option.bind dt (lookup_uri d_uri), lang)) d_lit)"

text \<open>A missing staging table is an error; the insert runs under no constraint, the primary key apart.\<close>

definition dict ::
    "(string list \<Rightarrow> string list) \<Rightarrow> ((string \<times> string option \<times> string option) list \<Rightarrow> (string \<times> string option \<times> string option) list)
      \<Rightarrow> job_slot \<Rightarrow> staged_db \<Rightarrow> (int \<times> staged_db) res" where
  "dict hs hl job db =
     (case dstg db (j_job_id job) of
        None \<Rightarrow> Inl Internal_Error
      | Some stg \<Rightarrow>
          (let base = max_id (ddict db); d = ddict db @ map row_of (dict_all hs hl base stg);
               idx = didx db
           in Inr (int (length d),
                db\<lparr>ddict := d, dnext := max (if d = [] then 1 else max_id d) 1 + 1,
                   didx := (if dict_resolve_index \<in> set idx then idx else idx @ [dict_resolve_index])\<rparr>)))"

section \<open>RESOLVE\<close>

definition same_md5 :: "(string \<Rightarrow> string) \<Rightarrow> dict_row \<Rightarrow> string \<Rightarrow> bool" where
  "same_md5 md5 r v \<longleftrightarrow> md5 (fst (snd (row_key r))) = md5 v"

definition term_type_of :: "dict_row \<Rightarrow> int" where "term_type_of r = fst (row_key r)"
definition datatype_of :: "dict_row \<Rightarrow> int option" where "datatype_of r = fst (snd (snd (row_key r)))"
definition language_of :: "dict_row \<Rightarrow> string option" where "language_of r = snd (snd (snd (row_key r)))"

text \<open>The object side with its left join: one row per matching datatype row, one with NULL if there is none.\<close>

definition datatype_texts :: "dict_row list \<Rightarrow> dict_row \<Rightarrow> string option list" where
  "datatype_texts d r =
     (let ds = filter (\<lambda>t. Some (row_id t) = datatype_of r) d
      in if ds = [] then [None] else map (\<lambda>t. Some (fst (snd (row_key t)))) ds)"

definition resolve_object_join ::
    "(string \<Rightarrow> string) \<Rightarrow> dict_row list \<Rightarrow> int \<times> string \<times> string option \<times> string option \<Rightarrow> int list" where
  "resolve_object_join md5 d t =
     (case t of (ty, v, dt, lang) \<Rightarrow>
        concat (map (\<lambda>r. if term_type_of r = ty \<and> same_md5 md5 r v \<and> language_of r = lang
                         then map (\<lambda>x. row_id r) (filter (\<lambda>x. x = dt) (datatype_texts d r)) else []) d))"

definition subject_join :: "(string \<Rightarrow> string) \<Rightarrow> dict_row list \<Rightarrow> string \<Rightarrow> int list" where
  "subject_join md5 d s = map row_id (filter (\<lambda>r. term_type_of r = (if like_blank s then 2 else 1) \<and> same_md5 md5 r s) d)"

definition predicate_join :: "(string \<Rightarrow> string) \<Rightarrow> dict_row list \<Rightarrow> string \<Rightarrow> int list" where
  "predicate_join md5 d p = map row_id (filter (\<lambda>r. term_type_of r = 1 \<and> same_md5 md5 r p) d)"

definition resolve_rows :: "(string \<Rightarrow> string) \<Rightarrow> dict_row list \<Rightarrow> staged_row list \<Rightarrow> (int \<times> int \<times> int) list" where
  "resolve_rows md5 d stg =
     concat (map (\<lambda>(s, p, t). [(i, j, k). i \<leftarrow> subject_join md5 d s, j \<leftarrow> predicate_join md5 d p, k \<leftarrow> resolve_object_join md5 d t]) stg)"

text \<open>
  The old partition goes, the new one is attached: refused while the default partition holds rows of
  the graph. A negative id does not give the name of a table.
\<close>

definition resolve :: "(string \<Rightarrow> string) \<Rightarrow> job_slot \<Rightarrow> staged_db \<Rightarrow> (int \<times> staged_db) res" where
  "resolve md5 job db =
     (let g = j_graph_id job; st = dstore db in
      if g < 0 then Inl Internal_Error
      else
        (let st = (if dedicated_partition g st then drop_partition g st else st) in
         case dstg db (j_job_id job) of
           None \<Rightarrow> Inl Internal_Error
         | Some stg \<Rightarrow>
             if list_ex (\<lambda>q. qg q = g) (quads st) then Inl Check_Violation
             else
               (let new = map (asserted_quad g) (resolve_rows md5 (ddict db) stg)
                in Inr (int (length new), db\<lparr>dstore := st\<lparr>quads := quads st @ new, parts := g # parts st\<rparr>\<rparr>))))"

section \<open>INDEX\<close>

definition build_index :: "(string \<Rightarrow> string) \<Rightarrow> worker_slot \<Rightarrow> staged_db \<Rightarrow> staged_db res" where
  "build_index md5 w db =
     (if length index_ddls \<le> w_shard w then Inl Internal_Error
      else
        (let ddl = index_ddls ! w_shard w in
         res_bind (if ddl = unique_term then add_unique_term md5 (ddict db) (didx db) else create_index ddl (didx db))
           (\<lambda>idx. Inr (db\<lparr>didx := idx\<rparr>))))"

section \<open>STAGE puts every line's triples into the table\<close>

text \<open>What PostgreSQL documents of COPY: text that the documented format reads as rows loads those rows.\<close>

definition copy_documented :: "copy_reader \<Rightarrow> bool" where
  "copy_documented copy_in \<longleftrightarrow> (\<forall>out rs. read_copy_text out = Some rs \<longrightarrow> copy_in out = Some rs)"

lemma parse_window_whole:
  "parse_window_par nt ls =
     (map staged_of (flatten_opts (concat (map nt ls))), int (length (filter (\<lambda>i. i = None) (concat (map nt ls)))))"
proof -
  have p: "0 < STAGE_PARSE_CHUNK" by (simp add: STAGE_PARSE_CHUNK_def)
  have "concat (map (\<lambda>c. fst (parse_slice nt c)) cs) = map staged_of (flatten_opts (concat (map nt (concat cs)))) \<and>
      sum_list (map (\<lambda>c. snd (parse_slice nt c)) cs) = int (length (filter (\<lambda>i. i = None) (concat (map nt (concat cs)))))" for cs
    by (induction cs) (auto simp: parse_slice_def Let_def flatten_opts_def)
  from this[of "chunks STAGE_PARSE_CHUNK ls"] show ?thesis
    by (simp add: parse_window_par_def Let_def comp_def concat_chunks[OF p])
qed

fun row_typed :: "staged_row \<Rightarrow> bool" where
  "row_typed (s, p, ty, v, dt, lang) \<longleftrightarrow> ty \<in> {1, 2, 3} \<and> (ty \<noteq> 3 \<longrightarrow> dt = None \<and> lang = None)"

lemma staged_of_typed: "row_typed (staged_of t)"
proof -
  obtain s p ob where t: "t = (s, p, ob)" by (metis prod_cases3)
  show ?thesis unfolding t by (induction ob rule: staged_object.induct) auto
qed

lemma typed_rows_written: "\<forall>r \<in> set rs. row_typed r \<Longrightarrow> \<exists>out. write_copy_rows rs = Some out"
proof (induction rs)
  case (Cons r rs)
  obtain s p ty v dt lang where r: "r = (s, p, ty, v, dt, lang)" by (metis prod_cases6)
  have "ty \<in> {1, 2, 3}" using Cons.prems by (simp add: r)
  then have "write_copy_row r \<noteq> None" by (auto simp: r write_copy_row_def itoa_smallint_def)
  then show ?case using Cons by (auto simp: write_copy_rows_def)
qed (simp add: write_copy_rows_def)

lemma copy_window_ok:
  assumes "copy_documented copy_in" "\<forall>r \<in> set rs. row_typed r" "dstg db j = Some old"
  shows "copy_window copy_in j rs db = Inr (db\<lparr>dstg := (dstg db)(j \<mapsto> old @ rs)\<rparr>)"
proof (cases "rs = []")
  case True
  then show ?thesis using assms(3) by (simp add: copy_window_def fun_upd_idem)
next
  case False
  obtain out where o: "write_copy_rows rs = Some out" using typed_rows_written[OF assms(2)] by blast
  have "copy_in out = Some rs" using assms(1) copy_rows_read[OF o] by (simp add: copy_documented_def)
  then show ?thesis using False o assms(3) by (simp add: copy_window_def)
qed

definition line_rows :: "nt_parser \<Rightarrow> string list \<Rightarrow> staged_row list" where
  "line_rows nt ls = map staged_of (flatten_opts (concat (map nt (filter (\<lambda>l. \<not> skippable l) ls))))"

lemma stage_loop_ok:
  assumes "copy_documented copy_in" "0 < n"
  shows "\<lbrakk>\<forall>l \<in> set ls. valid_utf8 l; dstg db j = Some old\<rbrakk> \<Longrightarrow>
    stage_loop copy_in nt n j ls staged db =
      Inr (staged + int (length (line_rows nt ls)), db\<lparr>dstg := (dstg db)(j \<mapsto> old @ line_rows nt ls)\<rparr>)"
proof (induction "length ls" arbitrary: ls old staged db rule: less_induct)
  case less
  obtain win rest eof where r: "read_window n ls [] = Some (win, rest, eof)"
    using read_window_defined[OF less.prems(1), of n "[]"] by (metis not_None_eq prod_cases3)
  note rl = read_window_lines[OF r]
  show ?case
  proof (cases "win = []")
    case True
    then have "rest = []" using rl assms(2) by simp
    then have "filter (\<lambda>l. \<not> skippable l) ls = []" using rl True by simp
    then have "line_rows nt ls = []" by (simp add: line_rows_def flatten_opts_def)
    then show ?thesis using True r less.prems(2) by (simp add: stage_loop.simps[of copy_in nt n j ls] fun_upd_idem)
  next
    case False
    let ?rs = "map staged_of (flatten_opts (concat (map nt win)))"
    let ?db = "db\<lparr>dstg := (dstg db)(j \<mapsto> old @ ?rs)\<rparr>"
    have c: "copy_window copy_in j ?rs db = Inr ?db"
      by (rule copy_window_ok[OF assms(1) _ less.prems(2)]) (auto simp: staged_of_typed)
    have step: "stage_loop copy_in nt n j ls staged db =
        (if eof then Inr (staged + int (length ?rs), ?db)
         else stage_loop copy_in nt n j rest (staged + int (length ?rs)) ?db)"
      using False r c by (simp add: stage_loop.simps[of copy_in nt n j ls] parse_window_whole Let_def)
    have lr: "line_rows nt ls = ?rs @ line_rows nt rest"
      using rl by (simp add: line_rows_def flatten_opts_def flip: rl[THEN conjunct2, THEN conjunct1, simplified])
    show ?thesis
    proof (cases eof)
      case True
      then have "line_rows nt rest = []" using rl by (simp add: line_rows_def flatten_opts_def)
      then show ?thesis using True step lr by simp
    next
      case nf: False
      have "length rest < length ls" using read_window_shrinks[OF r] False by (cases win) auto
      moreover have "\<forall>l \<in> set rest. valid_utf8 l" using rl less.prems(1) by auto
      ultimately have "stage_loop copy_in nt n j rest (staged + int (length ?rs)) ?db =
          Inr (staged + int (length ?rs) + int (length (line_rows nt rest)),
            ?db\<lparr>dstg := (dstg ?db)(j \<mapsto> (old @ ?rs) @ line_rows nt rest)\<rparr>)"
        by (intro less.hyps) simp_all
      then show ?thesis unfolding step lr using nf by (simp add: add.assoc)
    qed
  qed
qed

lemma stage_ok:
  assumes "copy_documented copy_in" "read_file (j_path job) = Some content"
    and "\<forall>l \<in> set (split_lines (slice content (w_range w))). valid_utf8 l" "dstg db (j_job_id job) = Some old"
  shows "stage copy_in nt read_file job w db =
    Inr (int (length (line_rows nt (split_lines (slice content (w_range w))))),
      db\<lparr>dstg := (dstg db)(j_job_id job \<mapsto> old @ line_rows nt (split_lines (slice content (w_range w))))\<rparr>)"
proof -
  have n: "0 < STAGE_WINDOW_LINES" by (simp add: STAGE_WINDOW_LINES_def)
  show ?thesis using stage_loop_ok[OF assms(1) n assms(3,4), of nt 0] assms(2) by (simp add: stage_def)
qed


section \<open>DICT numbers every staged term once\<close>

text \<open>
  What RESOLVE needs of the dictionary: distinct ids, and one row for each of the terms \<open>K\<close>, read with
  the text of its datatype.
\<close>

definition row_text :: "dict_row list \<Rightarrow> dict_row \<Rightarrow> raw_key" where
  "row_text d r = (case row_key r of (t, v, dt, lang) \<Rightarrow> (t, v, lexical_of d dt, lang))"

definition numbered_terms :: "dict_row list \<Rightarrow> raw_key set \<Rightarrow> bool" where
  "numbered_terms d K \<longleftrightarrow>
     distinct (map row_id d) \<and> distinct (map (row_text d) d) \<and> set (map (row_text d) d) = K \<and>
     (\<forall>r \<in> set d. \<forall>i. datatype_of r = Some i \<longrightarrow> i \<in> row_id ` set d)"

definition staged_terms :: "staged_row list \<Rightarrow> raw_key set" where
  "staged_terms stg =
     (\<lambda>u. (1, u, None, None)) ` set (uri_column stg) \<union> (\<lambda>l. (2, l, None, None)) ` set (blank_column stg)
     \<union> (\<lambda>(v, dt, lang). (3, v, dt, lang)) ` set (dict_lit_dedup stg)"

lemma numbered_length [simp]: "length (numbered lo xs) = length xs"
  by (simp add: numbered_def del: upt_Suc)

lemma numbered_snd [simp]: "map snd (numbered lo xs) = xs"
  by (simp add: numbered_def del: upt_Suc)

lemma numbered_fst: "map fst (numbered lo xs) = map (\<lambda>i. lo + int i) [1..<Suc (length xs)]"
  by (simp add: numbered_def del: upt_Suc)

lemma numbered_distinct: "distinct (map fst (numbered lo xs))"
  by (simp add: numbered_fst distinct_map inj_on_def del: upt_Suc)

lemma numbered_range: "(i, x) \<in> set (numbered lo xs) \<Longrightarrow> lo < i \<and> i \<le> lo + int (length xs) \<and> x \<in> set xs"
  by (auto simp: numbered_def set_zip nth_append simp del: upt_Suc)

lemma numbered_ex: "x \<in> set xs \<Longrightarrow> \<exists>i. (i, x) \<in> set (numbered lo xs)"
  by (metis (no_types, lifting) imageE list.set_map numbered_snd prod.collapse)

lemma map_numbered:
  assumes "\<And>i x. (i, x) \<in> set (numbered lo xs) \<Longrightarrow> f (i, x) = g x"
  shows "map f (numbered lo xs) = map g xs"
proof -
  have "map f (numbered lo xs) = map (g \<circ> snd) (numbered lo xs)" using assms by (intro map_cong) auto
  then show ?thesis by (simp flip: map_map)
qed

lemma lookup_uri_mem:
  assumes "u \<in> set us"
  shows "\<exists>i. lookup_uri (numbered lo us) u = Some i \<and> (i, u) \<in> set (numbered lo us)"
proof -
  obtain i where "(i, u) \<in> set (numbered lo us)" using numbered_ex[OF assms] by blast
  then obtain p where p: "find (\<lambda>(i, v). v = u) (numbered lo us) = Some p"
    by (metis (mono_tags, lifting) case_prod_conv find_None_iff not_Some_eq)
  moreover have "p \<in> set (numbered lo us)" "snd p = u"
    using p by (auto simp: find_Some_iff case_prod_beta)
  ultimately show ?thesis by (cases p) (simp add: lookup_uri_def)
qed

lemma dict_all_split:
  assumes "us = hs (remdups (uri_column stg))" "bs = hs (remdups (blank_column stg))" "ls = hl (dict_lit_dedup stg)"
  shows "dict_all hs hl base stg =
    map (\<lambda>(i, u). (i, 1, u, None, None)) (numbered base us)
    @ map (\<lambda>(i, l). (i, 2, l, None, None)) (numbered (base + int (length us)) bs)
    @ map (\<lambda>(i, v, dt, lang). (i, 3, v, Option.bind dt (lookup_uri (numbered base us)), lang))
        (numbered (base + int (length us) + int (length bs)) ls)"
  using assms by (simp add: dict_all_def Let_def)

lemma dict_all_ids_distinct: "distinct (map fst (dict_all hs hl base stg))"
proof -
  obtain us bs ls where e: "us = hs (remdups (uri_column stg))" "bs = hs (remdups (blank_column stg))" "ls = hl (dict_lit_dedup stg)"
    by blast
  let ?b = "base + int (length us)"
  let ?c = "?b + int (length bs)"
  have "map fst (dict_all hs hl base stg) =
      map fst (numbered base us) @ map fst (numbered ?b bs) @ map fst (numbered ?c ls)"
    unfolding dict_all_split[where hs = hs and hl = hl and stg = stg, OF e] by (simp add: comp_def case_prod_beta)
  moreover have "i \<in> set (map fst (numbered lo xs)) \<Longrightarrow> lo < i \<and> i \<le> lo + int (length xs)" for i lo and xs :: "'x list"
    using numbered_range[of i _ lo xs] by force
  note r = this
  have "set (map fst (numbered base us)) \<inter> set (map fst (numbered ?b bs)) = {}"
    using r[of _ base us] r[of _ ?b bs] by force
  moreover have "set (map fst (numbered base us)) \<inter> set (map fst (numbered ?c ls)) = {}"
    using numbered_range[of _ _ base us] numbered_range[of _ _ ?c ls] by force
  moreover have "set (map fst (numbered ?b bs)) \<inter> set (map fst (numbered ?c ls)) = {}"
    using numbered_range[of _ _ ?b bs] numbered_range[of _ _ ?c ls] by force
  ultimately show ?thesis by (simp only: distinct_append numbered_distinct set_append) blast
qed

lemma row_of_fields [simp]: "row_id (row_of p) = fst p" "row_key (row_of p) = snd p"
  by (cases p; simp)+

lemma dict_all_texts:
  assumes "hash_order hs" "hash_order hl" "d = map row_of (dict_all hs hl base stg)"
    and "us = hs (remdups (uri_column stg))" "bs = hs (remdups (blank_column stg))" "ls = hl (dict_lit_dedup stg)"
  shows "map (row_text d) d =
    map (\<lambda>u. (1, u, None, None)) us @ map (\<lambda>l. (2, l, None, None)) bs @ map (\<lambda>(v, dt, lang). (3, v, dt, lang)) ls"
    and "\<forall>r \<in> set d. \<forall>i. datatype_of r = Some i \<longrightarrow> i \<in> row_id ` set d"
proof -
  note D = dict_all_split[where hs = hs and hl = hl and stg = stg and base = base, OF assms(4-6)]
  have us: "set us = set (uri_column stg)" using hash_orderD[OF assms(1), of "remdups (uri_column stg)"] assms(4) by simp
  have ls: "set ls = set (dict_lit_dedup stg)"
    using hash_orderD[OF assms(2), of "dict_lit_dedup stg"] assms(6) by (simp add: dict_lit_dedup_def)
  have u: "dict_row_of d i = Some (1, x, None, None)" if "(i, x) \<in> set (numbered base us)" for i x
  proof -
    have "row_of (i, 1, x, None, None) \<in> set d" unfolding assms(3) D using that by force
    then show ?thesis using dict_row_of_mem[of d] dict_all_ids_distinct[of hs hl base stg] assms(3) by (fastforce simp: comp_def)
  qed
  have dt: "\<exists>i. lookup_uri (numbered base us) x = Some i \<and> lexical_of d (Some i) = Some x \<and> i \<in> row_id ` set d"
    if "(v, Some x, lang) \<in> set ls" for v x lang
  proof -
    have "x \<in> set us" using that unfolding us ls by (force simp: dict_lit_dedup_def uri_column_def)
    from lookup_uri_mem[OF this, of base] obtain i
      where i: "lookup_uri (numbered base us) x = Some i" "(i, x) \<in> set (numbered base us)" by blast
    have "row_of (i, 1, x, None, None) \<in> set d" unfolding assms(3) D using i(2) by force
    then have "i \<in> row_id ` set d" by force
    then show ?thesis using i u[OF i(2)] by (simp add: lexical_of_def)
  qed
  have lit: "lexical_of d (Option.bind dt' (lookup_uri (numbered base us))) = dt'" if "(v, dt', lang) \<in> set ls" for v dt' lang
  proof (cases dt')
    case None then show ?thesis by (simp add: lexical_of_def)
  next
    case (Some x) then show ?thesis using dt[of v x lang] that by auto
  qed
  let ?nu = "numbered base us"
  let ?nb = "numbered (base + int (length us)) bs"
  let ?nl = "numbered (base + int (length us) + int (length bs)) ls"
  have "map (row_text d) (map row_of (map (\<lambda>(i, u). (i, 1, u, None, None)) ?nu)) = map (\<lambda>u. (1, u, None, None)) us"
    unfolding map_map by (rule map_numbered) (simp add: row_text_def lexical_of_def)
  moreover have "map (row_text d) (map row_of (map (\<lambda>(i, u). (i, 2, u, None, None)) ?nb)) = map (\<lambda>u. (2, u, None, None)) bs"
    unfolding map_map by (rule map_numbered) (simp add: row_text_def lexical_of_def)
  moreover have "map (row_text d) (map row_of (map (\<lambda>(i, v, dt, lang). (i, 3, v, Option.bind dt (lookup_uri ?nu), lang)) ?nl))
      = map (\<lambda>(v, dt, lang). (3, v, dt, lang)) ls"
    unfolding map_map by (rule map_numbered) (use lit numbered_range[of _ _ _ ls] in \<open>fastforce simp: row_text_def\<close>)
  ultimately show "map (row_text d) d =
    map (\<lambda>u. (1, u, None, None)) us @ map (\<lambda>l. (2, l, None, None)) bs @ map (\<lambda>(v, dt, lang). (3, v, dt, lang)) ls"
    by (subst (2) assms(3)) (simp only: D map_append)
  show "\<forall>r \<in> set d. \<forall>i. datatype_of r = Some i \<longrightarrow> i \<in> row_id ` set d"
  proof (intro ballI allI impI)
    fix r i assume r: "r \<in> set d" "datatype_of r = Some i"
    then obtain v dt' lang n where "(n, v, dt', lang) \<in> set ?nl" "Option.bind dt' (lookup_uri ?nu) = Some i"
      by (subst (asm) (1) assms(3)) (auto simp: D datatype_of_def)
    moreover from this obtain x where "dt' = Some x" "lookup_uri ?nu x = Some i" by (cases dt') auto
    ultimately show "i \<in> row_id ` set d" using dt[of v x lang] numbered_range[of n _ _ ls] by auto
  qed
qed

lemma dict_numbers_terms:
  assumes "hash_order hs" "hash_order hl" "ddict db = []" "dstg db (j_job_id job) = Some stg"
  shows "\<exists>n db'. dict hs hl job db = Inr (n, db') \<and> numbered_terms (ddict db') (staged_terms stg) \<and>
    n = int (length (ddict db')) \<and> dstore db' = dstore db \<and> dstg db' = dstg db"
proof -
  obtain us bs ls where e: "us = hs (remdups (uri_column stg))" "bs = hs (remdups (blank_column stg))" "ls = hl (dict_lit_dedup stg)"
    by blast
  define d where "d = map row_of (dict_all hs hl 0 stg)"
  note t = dict_all_texts[OF assms(1,2) d_def e]
  have s: "distinct us" "set us = set (uri_column stg)" "distinct bs" "set bs = set (blank_column stg)"
      "distinct ls" "set ls = set (dict_lit_dedup stg)"
    using assms(1,2) e by (simp_all add: hash_order_def dict_lit_dedup_def)
  have "distinct (map (row_text d) d)" unfolding t(1) using s(1,3,5) by (auto simp: distinct_map inj_on_def)
  moreover have "set (map (row_text d) d) = staged_terms stg"
    unfolding t(1) staged_terms_def by (simp add: s(2,4,6) Un_assoc)
  moreover have "distinct (map row_id d)"
    using dict_all_ids_distinct[of hs hl 0 stg] by (simp add: d_def comp_def)
  ultimately have "numbered_terms d (staged_terms stg)" using t(2) by (simp add: numbered_terms_def)
  then show ?thesis using assms(3,4) by (simp add: dict_def Let_def max_id_def d_def)
qed

section \<open>RESOLVE finds each staged row exactly once\<close>

lemma filter_one:
  "\<lbrakk>distinct xs; x \<in> set xs; \<And>y. y \<in> set xs \<Longrightarrow> P y \<longleftrightarrow> y = x\<rbrakk> \<Longrightarrow> filter P xs = [x]"
proof (induction xs)
  case (Cons a xs)
  show ?case
  proof (cases "a = x")
    case True
    then have "filter P xs = []" using Cons.prems by (auto simp: filter_empty_conv)
    then show ?thesis using True Cons.prems(3)[of a] by simp
  next
    case False
    then show ?thesis using Cons by simp
  qed
qed simp

text \<open>The texts whose \<open>md5\<close> RESOLVE compares.\<close>

fun row_texts :: "staged_row \<Rightarrow> string list" where
  "row_texts (s, p, ty, v, dt, lang) = [s, p, v] @ (case dt of Some d \<Rightarrow> [d] | None \<Rightarrow> [])"

definition all_texts :: "staged_row list \<Rightarrow> string set" where
  "all_texts stg = (\<Union>r \<in> set stg. set (row_texts r))"

fun row_object :: "int \<times> string \<times> string option \<times> string option \<Rightarrow> cterm" where
  "row_object (ty, v, dt, lang) = (if ty = 1 then Iri v else if ty = 2 then BNode v else Lit v dt lang)"

text \<open>The triple a staged row stands for once it is loaded.\<close>

fun staged_triple :: "staged_row \<Rightarrow> triple" where
  "staged_triple (s, p, t) = ((if like_blank s then BNode s else Iri s), Iri p, row_object t)"

lemma row_texts_set:
  "set (row_texts r) = {fst r, fst (snd r), fst (snd (snd (snd r)))} \<union> set_option (fst (snd (snd (snd (snd r)))))"
  by (cases r rule: row_texts.cases) (auto split: option.splits)

lemma columns:
  "set (uri_column stg) = fst ` {r \<in> set stg. \<not> like_blank (fst r)} \<union> (\<lambda>r. fst (snd r)) ` set stg
     \<union> (\<lambda>r. fst (snd (snd (snd r)))) ` {r \<in> set stg. fst (snd (snd r)) = 1}
     \<union> (\<Union>r \<in> {r \<in> set stg. fst (snd (snd r)) = 3}. set_option (fst (snd (snd (snd (snd r))))))"
  "set (blank_column stg) = fst ` {r \<in> set stg. like_blank (fst r)}
     \<union> (\<lambda>r. fst (snd (snd (snd r)))) ` {r \<in> set stg. fst (snd (snd r)) = 2}"
  "set (dict_lit_dedup stg) = (\<lambda>r. snd (snd (snd r))) ` {r \<in> set stg. fst (snd (snd r)) = 3}"
proof -
  have "set (case dt of None \<Rightarrow> [] | Some x \<Rightarrow> [x]) = set_option dt" for dt :: "string option" by (cases dt) auto
  then show "set (uri_column stg) = fst ` {r \<in> set stg. \<not> like_blank (fst r)} \<union> (\<lambda>r. fst (snd r)) ` set stg
     \<union> (\<lambda>r. fst (snd (snd (snd r)))) ` {r \<in> set stg. fst (snd (snd r)) = 1}
     \<union> (\<Union>r \<in> {r \<in> set stg. fst (snd (snd r)) = 3}. set_option (fst (snd (snd (snd (snd r))))))"
    unfolding uri_column_def case_prod_beta set_append set_map set_filter set_concat UN_simps image_image
    by (simp only: Un_assoc)
qed (simp_all only: blank_column_def dict_lit_dedup_def case_prod_beta' prod.collapse set_append set_map set_filter set_remdups)

lemma columns_text:
  "set (uri_column stg) \<subseteq> all_texts stg" "set (blank_column stg) \<subseteq> all_texts stg"
  "fst ` set (dict_lit_dedup stg) \<subseteq> all_texts stg"
  unfolding columns all_texts_def row_texts_set image_image by blast+

lemma staged_terms_text: "k \<in> staged_terms stg \<Longrightarrow> fst (snd k) \<in> all_texts stg"
  using columns_text[of stg] unfolding staged_terms_def by (fastforce simp: image_subset_iff)

lemma staged_terms_typed: "(t, v, dt, lang) \<in> staged_terms stg \<Longrightarrow> t = 1 \<or> t = 2 \<Longrightarrow> dt = None \<and> lang = None"
  by (auto simp: staged_terms_def)

lemma row_text_parts:
  "row_text d r = (term_type_of r, fst (snd (row_key r)), lexical_of d (datatype_of r), language_of r)"
  by (cases "row_key r") (simp add: row_text_def term_type_of_def datatype_of_def language_of_def)

lemma columns_mem:
  "r \<in> set stg \<Longrightarrow>
    (like_blank (fst r) \<longrightarrow> fst r \<in> set (blank_column stg)) \<and> (\<not> like_blank (fst r) \<longrightarrow> fst r \<in> set (uri_column stg)) \<and>
    fst (snd r) \<in> set (uri_column stg) \<and> (fst (snd (snd r)) = 1 \<longrightarrow> fst (snd (snd (snd r))) \<in> set (uri_column stg)) \<and>
    (fst (snd (snd r)) = 2 \<longrightarrow> fst (snd (snd (snd r))) \<in> set (blank_column stg)) \<and>
    (fst (snd (snd r)) = 3 \<longrightarrow> snd (snd (snd r)) \<in> set (dict_lit_dedup stg))"
  unfolding columns by blast

lemma row_terms_staged:
  assumes "(s, p, t) \<in> set stg" "row_typed (s, p, t)"
  shows "((if like_blank s then 2 else 1), s, None, None) \<in> staged_terms stg"
    and "(1, p, None, None) \<in> staged_terms stg" and "t \<in> staged_terms stg"
proof -
  obtain ty v dt lang where t: "t = (ty, v, dt, lang)" by (metis prod_cases4)
  have s: "like_blank s \<Longrightarrow> s \<in> set (blank_column stg)" "\<not> like_blank s \<Longrightarrow> s \<in> set (uri_column stg)"
    "p \<in> set (uri_column stg)"
    using columns_mem[OF assms(1)] by auto
  then show "((if like_blank s then 2 else 1), s, None, None) \<in> staged_terms stg" "(1, p, None, None) \<in> staged_terms stg"
    by (auto simp: staged_terms_def)
  have "ty = 1 \<Longrightarrow> v \<in> set (uri_column stg)" "ty = 2 \<Longrightarrow> v \<in> set (blank_column stg)"
    "ty = 3 \<Longrightarrow> (v, dt, lang) \<in> set (dict_lit_dedup stg)"
    using columns_mem[OF assms(1)] t by auto
  then show "t \<in> staged_terms stg" using assms(2) by (auto simp: t staged_terms_def)
qed

lemma numbered_row:
  assumes "numbered_terms d K" "k \<in> K"
  shows "\<exists>r \<in> set d. row_text d r = k \<and> (\<forall>r' \<in> set d. row_text d r' = k \<longleftrightarrow> r' = r)"
proof -
  obtain r where r: "r \<in> set d" "row_text d r = k" using assms by (auto simp: numbered_terms_def)
  moreover have "r' = r" if "r' \<in> set d" "row_text d r' = k" for r'
    using assms(1) that r by (auto simp: numbered_terms_def distinct_map inj_on_def)
  ultimately show ?thesis by blast
qed

lemma md5_text:
  assumes "numbered_terms d (staged_terms stg)" "inj_on md5 (all_texts stg)" "r \<in> set d" "(t, v, dt, lang) \<in> staged_terms stg"
  shows "same_md5 md5 r v \<longleftrightarrow> fst (snd (row_key r)) = v"
proof -
  have "row_text d r \<in> staged_terms stg" using assms(1,3) by (auto simp: numbered_terms_def)
  from staged_terms_text[OF this] staged_terms_text[OF assms(4)] show ?thesis
    using assms(2) by (auto simp: same_md5_def row_text_parts inj_on_def)
qed

lemma typed_join:
  assumes "numbered_terms d (staged_terms stg)" "inj_on md5 (all_texts stg)"
    and "(t, v, None, None) \<in> staged_terms stg" "t = 1 \<or> t = 2"
  shows "\<exists>r \<in> set d. row_text d r = (t, v, None, None) \<and> filter (\<lambda>r. term_type_of r = t \<and> same_md5 md5 r v) d = [r]"
proof -
  obtain r where r: "r \<in> set d" "row_text d r = (t, v, None, None)"
    and u: "\<forall>r' \<in> set d. row_text d r' = (t, v, None, None) \<longleftrightarrow> r' = r"
    using numbered_row[OF assms(1,3)] by blast
  have "filter (\<lambda>r. term_type_of r = t \<and> same_md5 md5 r v) d = [r]"
  proof (rule filter_one)
    show "distinct d" using assms(1) by (simp add: numbered_terms_def distinct_map)
    fix y assume y: "y \<in> set d"
    have "row_text d y \<in> staged_terms stg" using y assms(1) by (auto simp: numbered_terms_def)
    then have "term_type_of y = t \<Longrightarrow> lexical_of d (datatype_of y) = None \<and> language_of y = None"
      using staged_terms_typed assms(4) unfolding row_text_parts by blast
    then have "term_type_of y = t \<and> fst (snd (row_key y)) = v \<longleftrightarrow> row_text d y = (t, v, None, None)"
      unfolding row_text_parts by auto
    then show "term_type_of y = t \<and> same_md5 md5 y v \<longleftrightarrow> y = r" using u y md5_text[OF assms(1,2) y assms(3)] by blast
  qed (rule r(1))
  then show ?thesis using r by blast
qed

lemma datatype_texts_one:
  assumes "numbered_terms d K" "r \<in> set d"
  shows "datatype_texts d r = [lexical_of d (datatype_of r)]"
proof (cases "datatype_of r")
  case None
  then show ?thesis by (simp add: datatype_texts_def lexical_of_def)
next
  case (Some i)
  have ids: "distinct (map row_id d)" using assms(1) by (simp add: numbered_terms_def)
  obtain y where y: "y \<in> set d" "row_id y = i" using assms Some by (auto simp: numbered_terms_def)
  have "filter (\<lambda>t. Some (row_id t) = Some i) d = [y]"
    by (rule filter_one[OF _ y(1)]) (use ids y in \<open>auto simp: distinct_map inj_on_def\<close>)
  moreover have "lexical_of d (Some i) = Some (fst (snd (row_key y)))"
    using dict_row_of_mem[OF ids y(1)] y(2) by (simp add: lexical_of_def)
  ultimately show ?thesis using Some by (simp add: datatype_texts_def)
qed

lemma object_join:
  assumes "numbered_terms d (staged_terms stg)" "inj_on md5 (all_texts stg)" "k \<in> staged_terms stg"
  shows "\<exists>r \<in> set d. row_text d r = k \<and> resolve_object_join md5 d k = [row_id r]"
proof -
  obtain ty v dt lang where k: "k = (ty, v, dt, lang)" by (metis prod_cases4)
  let ?P = "\<lambda>r. term_type_of r = ty \<and> same_md5 md5 r v \<and> language_of r = lang"
  let ?h = "\<lambda>r. if ?P r then map (\<lambda>x. row_id r) (filter (\<lambda>x. x = dt) (datatype_texts d r)) else []"
  obtain r where r: "r \<in> set d" "row_text d r = k" "\<forall>r' \<in> set d. row_text d r' = k \<longleftrightarrow> r' = r"
    using numbered_row[OF assms(1,3)] by blast
  have h: "?h y = (if y = r then [row_id y] else [])" if y: "y \<in> set d" for y
    using md5_text[OF assms(1,2) y assms(3)[unfolded k]] r(3) y datatype_texts_one[OF assms(1) y]
    by (auto simp: row_text_parts k)
  have f: "filter (\<lambda>y. y = r) d = [r]" by (rule filter_one) (use assms(1) r(1) in \<open>auto simp: numbered_terms_def distinct_map\<close>)
  have "concat (map ?h d) = concat (map (\<lambda>y. if y = r then [row_id y] else []) d)"
    using h by (intro arg_cong[where f = concat] map_cong) auto
  also have "\<dots> = map row_id (filter (\<lambda>y. y = r) d)" by (induction d) auto
  also have "\<dots> = [row_id r]" by (simp add: f)
  finally have "resolve_object_join md5 d k = [row_id r]" by (simp add: resolve_object_join_def k)
  then show ?thesis using r(1,2) by blast
qed

lemma resolved_row:
  assumes "numbered_terms d (staged_terms stg)" "inj_on md5 (all_texts stg)" "(s, p, t) \<in> set stg" "row_typed (s, p, t)"
  shows "\<exists>i j k. subject_join md5 d s = [i] \<and> predicate_join md5 d p = [j] \<and> resolve_object_join md5 d t = [k] \<and>
    read_quad d (asserted_quad g (i, j, k)) = Some (staged_triple (s, p, t))"
proof -
  note m = row_terms_staged[OF assms(3,4)]
  have ids: "distinct (map row_id d)" using assms(1) by (simp add: numbered_terms_def)
  obtain rs where s: "rs \<in> set d" "row_text d rs = ((if like_blank s then 2 else 1), s, None, None)"
      "subject_join md5 d s = [row_id rs]"
    using typed_join[OF assms(1,2) m(1)] unfolding subject_join_def by (cases "like_blank s") (simp; force)+
  obtain rp where p: "rp \<in> set d" "row_text d rp = (1, p, None, None)" "predicate_join md5 d p = [row_id rp]"
    using typed_join[OF assms(1,2) m(2)] by (auto simp: predicate_join_def)
  obtain ro where ob: "ro \<in> set d" "row_text d ro = t" "resolve_object_join md5 d t = [row_id ro]"
    using object_join[OF assms(1,2) m(3)] by blast
  have "read_subject (row_key rs) = Some (if like_blank s then BNode s else Iri s)"
    using s(2) by (auto simp: row_text_def read_subject_def split: prod.splits if_splits)
  moreover have "fst (snd (row_key rp)) = p" using p(2) by (simp add: row_text_parts)
  moreover have "read_object d (row_key ro) = Some (row_object t)"
    using ob(2) assms(4) by (auto simp: row_text_def read_object_def split: prod.splits)
  ultimately have "read_quad d (asserted_quad g (row_id rs, row_id rp, row_id ro)) = Some (staged_triple (s, p, t))"
    using dict_row_of_mem[OF ids s(1)] dict_row_of_mem[OF ids p(1)] dict_row_of_mem[OF ids ob(1)]
    by (simp add: read_quad_def asserted_quad_def)
  then show ?thesis using s(3) p(3) ob(3) by blast
qed

lemma resolve_rows_read:
  assumes "numbered_terms d (staged_terms stg)" "inj_on md5 (all_texts stg)" "\<forall>r \<in> set stg. row_typed r"
  shows "map (\<lambda>ids. read_quad d (asserted_quad g ids)) (resolve_rows md5 d stg) = map (\<lambda>r. Some (staged_triple r)) stg"
proof -
  have "map (\<lambda>ids. read_quad d (asserted_quad g ids)) (resolve_rows md5 d rs) = map (\<lambda>r. Some (staged_triple r)) rs"
    if "set rs \<subseteq> set stg" for rs
    using that
  proof (induction rs)
    case Nil
    then show ?case by (simp add: resolve_rows_def)
  next
    case (Cons r rs)
    obtain s p t where r: "r = (s, p, t)" by (metis prod_cases3)
    obtain i j k where h: "subject_join md5 d s = [i]" "predicate_join md5 d p = [j]" "resolve_object_join md5 d t = [k]"
      "read_quad d (asserted_quad g (i, j, k)) = Some (staged_triple (s, p, t))"
      using resolved_row[OF assms(1,2), of s p t g] Cons.prems assms(3) r by auto
    have "resolve_rows md5 d (r # rs) = (i, j, k) # resolve_rows md5 d rs" by (simp add: resolve_rows_def r h)
    then show ?case using Cons h(4) r by simp
  qed
  then show ?thesis by blast
qed

section \<open>DICT and RESOLVE together\<close>

lemma dict_resolve_ok:
  assumes "hash_order hs" "hash_order hl" "ddict db = []" "dstg db (j_job_id job) = Some stg" "\<forall>r \<in> set stg. row_typed r"
    and "inj_on md5 (all_texts stg)" "0 \<le> j_graph_id job"
    and "dedicated_partition (j_graph_id job) (dstore db) \<or> (\<forall>q \<in> set (quads (dstore db)). qg q \<noteq> j_graph_id job)"
  shows "\<exists>n db1 db2 new. dict hs hl job db = Inr (n, db1) \<and> resolve md5 job db1 = Inr (int (length stg), db2) \<and>
    quads (dstore db2) = filter (\<lambda>q. qg q \<noteq> j_graph_id job) (quads (dstore db)) @ new \<and>
    map (read_quad (ddict db2)) new = map (\<lambda>r. Some (staged_triple r)) stg \<and>
    (\<forall>q \<in> set new. qg q = j_graph_id job \<and> \<not> qinf q) \<and>
    dedicated_partition (j_graph_id job) (dstore db2) \<and> numbered_terms (ddict db2) (staged_terms stg)"
proof -
  let ?g = "j_graph_id job"
  obtain n db1 where d: "dict hs hl job db = Inr (n, db1)" "numbered_terms (ddict db1) (staged_terms stg)"
      "dstore db1 = dstore db" "dstg db1 = dstg db"
    using dict_numbers_terms[OF assms(1-4)] by blast
  define new where "new = map (asserted_quad ?g) (resolve_rows md5 (ddict db1) stg)"
  have r: "map (read_quad (ddict db1)) new = map (\<lambda>r. Some (staged_triple r)) stg"
    using resolve_rows_read[OF d(2) assms(6,5)] by (simp add: new_def comp_def)
  then have l: "length new = length stg" using map_eq_imp_length_eq by blast
  let ?st = "if dedicated_partition ?g (dstore db) then drop_partition ?g (dstore db) else dstore db"
  have q: "quads ?st = filter (\<lambda>q. qg q \<noteq> ?g) (quads (dstore db))"
    using assms(8) by (auto simp: drop_partition_def filter_id_conv)
  then have "\<not> list_ex (\<lambda>q. qg q = ?g) (quads ?st)" by (simp add: list_ex_iff)
  then have "resolve md5 job db1 = Inr (int (length stg), db1\<lparr>dstore := ?st\<lparr>quads := quads ?st @ new, parts := ?g # parts ?st\<rparr>\<rparr>)"
    using assms(4,7) d(3,4) l by (simp add: resolve_def Let_def new_def)
  moreover have "\<forall>q \<in> set new. qg q = ?g \<and> \<not> qinf q" by (auto simp: new_def asserted_quad_def)
  ultimately show ?thesis using d(1,2) r q by (fastforce simp: dedicated_partition_def)
qed

lemma staged_triple_named:
  "\<not> like_blank i \<Longrightarrow> staged_triple (staged_of (NamedNode i, p, ob)) = as_triple (NamedNode i, p, ob)"
  by (induction ob rule: staged_object.induct) auto

section \<open>Properties\<close>

text \<open>On an empty dictionary the DICT and RESOLVE phases of the staged loader succeed and load every staged row exactly once: the graph's quads read back, through the dictionary the phases wrote, as the triples of the staged rows in order; the quads of other graphs stay, the old ones of this graph are gone, ids and terms of the new dictionary are distinct. PostgreSQL's md5 must separate the staged texts.\<close>

theorem staged_resolves:
  assumes "hash_order hs" "hash_order hl" "ddict db = []" "dstg db (j_job_id job) = Some stg" "\<forall>r \<in> set stg. row_typed r"
    and "inj_on md5 (all_texts stg)" "0 \<le> j_graph_id job"
    and "dedicated_partition (j_graph_id job) (dstore db) \<or> (\<forall>q \<in> set (quads (dstore db)). qg q \<noteq> j_graph_id job)"
  shows "\<exists>n db1 db2 new. dict hs hl job db = Inr (n, db1) \<and> resolve md5 job db1 = Inr (int (length stg), db2) \<and>
    quads (dstore db2) = filter (\<lambda>q. qg q \<noteq> j_graph_id job) (quads (dstore db)) @ new \<and>
    map (read_quad (ddict db2)) new = map (\<lambda>r. Some (staged_triple r)) stg \<and>
    (\<forall>q \<in> set new. qg q = j_graph_id job \<and> \<not> qinf q) \<and>
    dedicated_partition (j_graph_id job) (dstore db2) \<and> numbered_terms (ddict db2) (staged_terms stg)"
  using assms by (rule dict_resolve_ok)

definition toy_job :: job_slot where
  "toy_job = default_job\<lparr>j_in_use := True, j_state := Running, j_n_workers := 2, j_graph_id := 7, j_job_id := 1, j_path := ''f.nt''\<rparr>"

definition toy_stg :: "staged_row list" where
  "toy_stg = [(''ex:a'', ''ex:p'', 1, ''ex:b'', None, None), (''ex:a'', ''ex:p'', 2, ''n'', None, None),
     (''ex:b'', ''ex:p'', 3, ''1'', Some ''xsd:int'', None), (''ex:b'', ''ex:q'', 3, ''1'', None, Some ''en'')]"

definition toy_db :: staged_db where
  "toy_db = \<lparr>ddict = [], dnext = 1, dstore = fresh_store, didx = index_ddls, dstg = [1 \<mapsto> toy_stg]\<rparr>"

lemma staged_resolves_witness:
  "\<exists>n db1 db2 new. dict id id toy_job toy_db = Inr (n, db1) \<and>
    resolve (\<lambda>s. s) toy_job db1 = Inr (int (length toy_stg), db2) \<and>
    quads (dstore db2) = filter (\<lambda>q. qg q \<noteq> j_graph_id toy_job) (quads (dstore toy_db)) @ new \<and>
    map (read_quad (ddict db2)) new = map (\<lambda>r. Some (staged_triple r)) toy_stg \<and>
    (\<forall>q \<in> set new. qg q = j_graph_id toy_job \<and> \<not> qinf q) \<and>
    dedicated_partition (j_graph_id toy_job) (dstore db2) \<and> numbered_terms (ddict db2) (staged_terms toy_stg)"
  by (rule staged_resolves) (auto simp: hash_order_id toy_db_def toy_job_def toy_stg_def fresh_store_def inj_on_def)

text \<open>A line whose subject and object are the same blank node does not load as one node: STAGE writes the bare label of the subject, the pattern of the later phases does not take it for a blank node, and the loaded triple has an IRI for subject and a blank node for object, unlike the triple of the file.\<close>

theorem staged_subject_not_blank:
  "staged_triple (staged_of (BlankNode ''b0'', ''ex:p'', NodeTerm (BlankNode ''b0''))) = (Iri ''b0'', Iri ''ex:p'', BNode ''b0'') \<and>
   as_triple (BlankNode ''b0'', ''ex:p'', NodeTerm (BlankNode ''b0'')) = (BNode ''b0'', Iri ''ex:p'', BNode ''b0'')"
  by (simp add: like_blank_def)
end
