(* ===== verification/Staged_Run.thy ===== *)
theory Staged_Run
  imports Staged_Phases
begin

text \<open>
  The coordinator of the staged loader and its worker pool (\<open>src/storage/staged/pool.rs\<close>): a phase
  claims a slot for each worker, starts it, waits for it and reads its outcome from the slot; the
  coordinator runs the phases one after the other and stops at the first that fails. A worker is
  one transaction on the committed database, so the workers of a phase are steps in the order in
  which they commit. That order, and which workers are refused, do not start or end without a report,
  is decided by the environment, as are PostgreSQL's \<open>md5\<close> and COPY, the parser and the file system.
\<close>

section \<open>The environment\<close>

datatype fate = Rejected | Not_Started | Vanished | Runs

datatype panic_payload =
    Caught_Error string | Error_Report_With_Level string | Error_Report string
  | Panic_Str string | Panic_String string | Other_Payload

record environment =
  fate_of :: "job_phase \<Rightarrow> nat \<Rightarrow> fate"                \<comment> \<open>of the n-th worker of a phase\<close>
  commit_order :: "job_phase \<Rightarrow> nat list \<Rightarrow> nat list"
  postmaster_dies :: "job_phase \<Rightarrow> bool"
  payload_of :: "sqlstate \<Rightarrow> panic_payload"
  pid_of :: "nat \<Rightarrow> int"
  read_file :: "string \<Rightarrow> string option"
  read_size :: "nat \<Rightarrow> nat \<Rightarrow> nat"
  host_cores :: "nat option"
  group_order :: "string list \<Rightarrow> string list"
  literal_order :: "(string \<times> string option \<times> string option) list \<Rightarrow> (string \<times> string option \<times> string option) list"
  pg_md5 :: "string \<Rightarrow> string"
  pg_copy :: copy_reader
  nt_parse :: nt_parser

record cluster =
  cjc :: jobctl
  cdb :: staged_db
  cping :: "(int \<times> nat \<times> int) list"    \<comment> \<open>\<open>_pgrdf_staged_ping\<close>\<close>

section \<open>The worker\<close>

fun phase_label :: "job_phase \<Rightarrow> string" where
  "phase_label Ping = ''ping''"
| "phase_label Stage_Prep = ''stage-prep''"
| "phase_label Stage = ''stage''"
| "phase_label Dict = ''dict''"
| "phase_label Resolve = ''resolve''"
| "phase_label Index = ''index''"
| "phase_label Phase_Done = ''done''"
| "phase_label No_Phase = ''unknown''"

definition unknown_panic :: "job_phase \<Rightarrow> nat \<Rightarrow> int \<Rightarrow> string" where
  "unknown_panic ph shard pid =
     ''staged worker: unrecoverable panic (phase='' @ phase_label ph @ '', shard='' @ nat_str shard @ '', pid='' @ int_str pid
     @ '') '' @ [CHR 0xE2, CHR 0x80, CHR 0x94] @ '' see the worker'' @ [CHR 0x27] @ ''s ERROR line in the PostgreSQL server log''"

fun panic_message :: "panic_payload \<Rightarrow> job_phase \<Rightarrow> nat \<Rightarrow> int \<Rightarrow> string" where
  "panic_message (Caught_Error m) ph shard pid = (if m \<noteq> [] then m else unknown_panic ph shard pid)"
| "panic_message (Error_Report_With_Level m) ph shard pid = (if m \<noteq> [] then m else unknown_panic ph shard pid)"
| "panic_message (Error_Report m) ph shard pid = (if m \<noteq> [] then m else unknown_panic ph shard pid)"
| "panic_message (Panic_Str m) ph shard pid = m"
| "panic_message (Panic_String m) ph shard pid = m"
| "panic_message Other_Payload ph shard pid = unknown_panic ph shard pid"

fun phase_body :: "environment \<Rightarrow> job_phase \<Rightarrow> worker_slot \<Rightarrow> job_slot \<Rightarrow> staged_db \<Rightarrow> staged_db res" where
  "phase_body env Stage_Prep w job db = Inr (prepare_for_load job db)"
| "phase_body env Stage w job db = res_bind (stage (pg_copy env) (nt_parse env) (read_file env) job w db) (\<lambda>(n, db). Inr db)"
| "phase_body env Dict w job db = res_bind (dict (group_order env) (literal_order env) job db) (\<lambda>(n, db). Inr db)"
| "phase_body env Resolve w job db = res_bind (resolve (pg_md5 env) job db) (\<lambda>(n, db). Inr db)"
| "phase_body env Index w job db = build_index (pg_md5 env) w db"
| "phase_body env ph w job db = Inl Internal_Error"

text \<open>On a populated dictionary the preparation does nothing but ask for the other path.\<close>

definition worker_body :: "environment \<Rightarrow> nat \<Rightarrow> worker_slot \<Rightarrow> job_slot \<Rightarrow> cluster \<Rightarrow> cluster res" where
  "worker_body env slot w job c =
     (if w_phase w = Ping then Inr (c\<lparr>cping := cping c @ [(j_job_id job, slot, pid_of env slot)]\<rparr>)
      else if w_phase w = Stage_Prep \<and> ddict (cdb c) \<noteq> [] then Inr (c\<lparr>cjc := request_fallback (w_job_idx w) (cjc c)\<rparr>)
      else res_bind (phase_body env (w_phase w) w job (cdb c)) (\<lambda>db. Inr (c\<lparr>cdb := db\<rparr>)))"

definition staged_worker_main :: "environment \<Rightarrow> nat \<Rightarrow> cluster \<Rightarrow> cluster" where
  "staged_worker_main env slot c =
     (let w = read_worker slot (cjc c); job = read_job (w_job_idx w) (cjc c) in
      case worker_body env slot w job c of
        Inr c \<Rightarrow> c\<lparr>cjc := report_worker slot True [] (cjc c)\<rparr>
      | Inl e \<Rightarrow> c\<lparr>cjc := report_worker slot False
                 (panic_message (payload_of env e) (w_phase w) (w_shard w) (pid_of env slot)) (cjc c)\<rparr>)"

section \<open>A phase\<close>

type_synonym worker_spec = "nat \<times> nat \<times> nat"    \<comment> \<open>shard, range\<close>

datatype phase_outcome = Phase_Ok | Phase_Failed string

definition load_dynamic_failed :: "nat \<Rightarrow> string" where
  "load_dynamic_failed slot =
     ''spawn_checked: load_dynamic failed for slot '' @ nat_str slot @ '' (max_worker_processes likely exhausted)''"

definition no_free_slot :: string where
  "no_free_slot = ''no free worker slot (jobctl MAX_SLOTS reached)''"

definition get_or_insert :: "'a option \<Rightarrow> 'a \<Rightarrow> 'a option" where
  "get_or_insert x y = (case x of None \<Rightarrow> Some y | Some z \<Rightarrow> x)"

text \<open>Handles with the fate of their worker, claimed slots, first spawn error.\<close>

fun spawn_all ::
    "environment \<Rightarrow> nat \<Rightarrow> job_phase \<Rightarrow> nat \<Rightarrow> worker_spec list \<Rightarrow> (nat \<times> fate) list \<Rightarrow> nat list \<Rightarrow> string option \<Rightarrow> jobctl
      \<Rightarrow> ((nat \<times> fate) list \<times> nat list \<times> string option) \<times> jobctl" where
  "spawn_all env ji ph k [] handles claimed err jc = ((handles, claimed, err), jc)"
| "spawn_all env ji ph k (spec # specs) handles claimed err jc =
     (case claim_worker_slot ji ph (fst spec) (snd spec) jc of
        (None, jc) \<Rightarrow> spawn_all env ji ph (Suc k) specs handles claimed (get_or_insert err no_free_slot) jc
      | (Some s, jc) \<Rightarrow>
          if fate_of env ph k = Rejected
          then spawn_all env ji ph (Suc k) specs handles (claimed @ [s]) (get_or_insert err (load_dynamic_failed s))
                 (report_worker s False (load_dynamic_failed s) jc)
          else spawn_all env ji ph (Suc k) specs (handles @ [(s, fate_of env ph k)]) (claimed @ [s]) err jc)"

definition phase_reason :: "string \<Rightarrow> string option \<Rightarrow> nat \<Rightarrow> nat \<Rightarrow> nat \<Rightarrow> string" where
  "phase_reason job_error err errored startup_failures never_reported =
     (if job_error \<noteq> [] then job_error
      else case err of Some e \<Rightarrow> e
           | None \<Rightarrow> ''phase failed (errored='' @ nat_str errored @ '', startup_failures='' @ nat_str startup_failures
                @ '', never_reported='' @ nat_str never_reported @ '')'')"

text \<open>
  The transactions are taken after all workers have been started; an earlier start changes no more than which of
  several error texts is the first.
\<close>

definition run_phase :: "environment \<Rightarrow> nat \<Rightarrow> job_phase \<Rightarrow> worker_spec list \<Rightarrow> cluster \<Rightarrow> phase_outcome \<times> cluster" where
  "run_phase env ji ph specs c =
     (case spawn_all env ji ph 0 specs [] [] None (cjc c) of ((handles, claimed, err), jc) \<Rightarrow>
       (let startup_failures = length (filter (\<lambda>h. snd h = Not_Started) handles);
            c = fold (staged_worker_main env) (commit_order env ph (map fst (filter (\<lambda>h. snd h = Runs) handles))) (c\<lparr>cjc := jc\<rparr>);
            errored = length (filter (\<lambda>s. w_status (read_worker s (cjc c)) = Errored) claimed);
            never_reported = length (filter (\<lambda>s. w_status (read_worker s (cjc c)) = Spawned) claimed)
        in (if postmaster_dies env ph then Phase_Failed ''postmaster died during phase''
            else if 0 < errored \<or> err \<noteq> None \<or> 0 < startup_failures \<or> 0 < never_reported
            then Phase_Failed (phase_reason (job_err ji (cjc c)) err errored startup_failures never_reported)
            else Phase_Ok, c)))"

section \<open>The coordinator\<close>

definition STAGE_WORKERS_AUTO_CAP :: nat where "STAGE_WORKERS_AUTO_CAP = 32"

definition requested_workers :: "nat option \<Rightarrow> int \<Rightarrow> nat" where
  "requested_workers cores n =
     (if 0 < n then min (nat n) MAX_SLOTS
      else min (max (case cores of Some k \<Rightarrow> k | None \<Rightarrow> 8) 1) STAGE_WORKERS_AUTO_CAP)"

record caller =
  may_read_files :: bool
  owns_storage :: bool
  in_transaction_block :: bool
  caller_db :: nat
  caller_role :: nat

datatype staged_result =
    Staged_Loaded int int int      \<comment> \<open>triples, dict_terms, quads\<close>
  | Staged_Abort string string     \<comment> \<open>failed_phase, error\<close>
  | Staged_Fallback

type_synonym staged_answer = "staged_result res \<times> cluster"

definition release_slots :: "nat \<Rightarrow> cluster \<Rightarrow> cluster" where
  "release_slots ji c = c\<lparr>cjc := release_job ji (cjc c)\<rparr>"

definition high_water :: "nat \<Rightarrow> job_phase \<Rightarrow> cluster \<Rightarrow> cluster" where
  "high_water ji ph c = c\<lparr>cjc := advance_phase ji ph (cjc c)\<rparr>"

definition gate ::
    "environment \<Rightarrow> nat \<Rightarrow> string \<Rightarrow> job_phase \<Rightarrow> worker_spec list \<Rightarrow> (cluster \<Rightarrow> staged_answer) \<Rightarrow> cluster \<Rightarrow> staged_answer" where
  "gate env ji label ph specs k c =
     (case run_phase env ji ph specs c of
        (Phase_Failed reason, c) \<Rightarrow> (Inr (Staged_Abort label reason), release_slots ji c)
      | (Phase_Ok, c) \<Rightarrow> k c)"

definition stage_specs :: "(nat \<times> nat) list \<Rightarrow> worker_spec list" where
  "stage_specs ranges = zip [0..<length ranges] ranges"

definition one_worker :: "worker_spec list" where "one_worker = [(0, 0, 0)]"

definition index_specs :: "worker_spec list" where
  "index_specs = map (\<lambda>i. (i, 0, 0)) [0..<length index_ddls]"

definition staged_finish :: "nat \<Rightarrow> int \<Rightarrow> cluster \<Rightarrow> staged_answer" where
  "staged_finish ji g c =
     (let job_id = job_id_of ji (cjc c); db = cdb c;
          triples = (case dstg db job_id of Some rs \<Rightarrow> int (length rs) | None \<Rightarrow> 0);
          dict_terms = int (length (ddict db));
          n_quads = int (length (filter (\<lambda>q. qg q = g) (quads (dstore db))));
          db = db\<lparr>dstg := (dstg db)(job_id := None), didx := filter (\<lambda>i. i \<noteq> dict_resolve_index) (didx db)\<rparr>
      in (Inr (Staged_Loaded triples dict_terms n_quads),
          release_slots ji (c\<lparr>cdb := db, cjc := mark_job_done ji (cjc c)\<rparr>)))"

definition index_and_finish :: "environment \<Rightarrow> nat \<Rightarrow> int \<Rightarrow> cluster \<Rightarrow> staged_answer" where
  "index_and_finish env ji g c =
     gate env ji ''index'' Index index_specs (\<lambda>c. staged_finish ji g (high_water ji Index c)) c"

definition dict_and_resolve :: "environment \<Rightarrow> nat \<Rightarrow> int \<Rightarrow> cluster \<Rightarrow> staged_answer" where
  "dict_and_resolve env ji g c =
     gate env ji ''dict'' Dict one_worker (\<lambda>c.
       gate env ji ''resolve'' Resolve one_worker (\<lambda>c. index_and_finish env ji g (high_water ji Resolve c))
         (high_water ji Dict c)) c"

definition staged_pipeline :: "environment \<Rightarrow> nat \<Rightarrow> int \<Rightarrow> string \<Rightarrow> nat \<Rightarrow> cluster \<Rightarrow> staged_answer" where
  "staged_pipeline env ji g content requested c =
     gate env ji ''stage'' Stage_Prep one_worker (\<lambda>c.
       if j_state (read_job ji (cjc c)) = Fallback then (Inr Staged_Fallback, release_slots ji c)
       else gate env ji ''stage'' Stage (stage_specs (snap_byte_ranges (read_size env) content requested))
              (\<lambda>c. dict_and_resolve env ji g (high_water ji Stage c)) c) c"

definition load_turtle_staged_run :: "environment \<Rightarrow> caller \<Rightarrow> string \<Rightarrow> int \<Rightarrow> int \<Rightarrow> cluster \<Rightarrow> staged_answer" where
  "load_turtle_staged_run env u path g n_workers c =
     (case require_server_file_read (may_read_files u) of Inl e \<Rightarrow> (Inl e, c) | Inr _ \<Rightarrow>
      if \<not> owns_storage u then (Inl Insufficient_Privilege, c)
      else
        (case require_unlocked g (dstore (cdb c)) of Inl e \<Rightarrow> (Inl e, c) | Inr _ \<Rightarrow>
         if in_transaction_block u \<or> \<not> shmem_ready (cjc c) then (Inl Internal_Error, c)
         else
           (let requested = requested_workers (host_cores env) n_workers in
            case read_file env path of None \<Rightarrow> (Inl Internal_Error, c)
            | Some content \<Rightarrow>
                (case create_job path g (caller_db u) (caller_role u) requested 0 (cjc c) of
                   (None, jc) \<Rightarrow> (Inl Internal_Error, c\<lparr>cjc := jc\<rparr>)
                 | (Some ji, jc) \<Rightarrow> staged_pipeline env ji g content requested (c\<lparr>cjc := jc\<rparr>)))))"

section \<open>The ping\<close>

text \<open>A refused worker is counted, not an error.\<close>

fun ping_spawn ::
    "environment \<Rightarrow> nat \<Rightarrow> nat \<Rightarrow> nat \<Rightarrow> (nat \<times> fate) list \<Rightarrow> nat \<Rightarrow> jobctl \<Rightarrow> ((nat \<times> fate) list \<times> nat) \<times> jobctl" where
  "ping_spawn env ji i 0 handles failures jc = ((handles, failures), jc)"
| "ping_spawn env ji i (Suc n) handles failures jc =
     (case claim_worker_slot ji Ping i (0, 0) jc of
        (None, jc) \<Rightarrow> ping_spawn env ji (Suc i) n handles (Suc failures) jc
      | (Some s, jc) \<Rightarrow>
          if fate_of env Ping i = Rejected
          then ping_spawn env ji (Suc i) n handles (Suc failures) (report_worker s False ''load_dynamic rejected (pool exhausted)'' jc)
          else ping_spawn env ji (Suc i) n (handles @ [(s, fate_of env Ping i)]) failures jc)"

record ping_answer =
  p_job_id :: int
  p_requested :: nat
  p_spawned :: nat
  p_succeeded :: nat
  p_failed :: nat
  p_spawn_failures :: nat
  p_ping_rows :: nat
  p_postmaster_died :: bool
  p_error :: "string option"

definition load_turtle_staged_ping :: "environment \<Rightarrow> caller \<Rightarrow> int \<Rightarrow> cluster \<Rightarrow> ping_answer res \<times> cluster" where
  "load_turtle_staged_ping env u n_workers c =
     (if \<not> shmem_ready (cjc c) then (Inl Internal_Error, c)
      else
        (let want = nat (max n_workers 0) in
         case create_job ''<ping>'' 0 (caller_db u) (caller_role u) want 0 (cjc c) of
           (None, jc) \<Rightarrow> (Inl Internal_Error, c\<lparr>cjc := jc\<rparr>)
         | (Some ji, jc) \<Rightarrow>
             (case ping_spawn env ji 0 want [] 0 jc of ((handles, spawn_failures), jc) \<Rightarrow>
               (let startup_failures = length (filter (\<lambda>h. snd h = Not_Started) handles);
                    c = fold (staged_worker_main env) (commit_order env Ping (map fst (filter (\<lambda>h. snd h = Runs) handles))) (c\<lparr>cjc := jc\<rparr>);
                    job_id = job_id_of ji (cjc c);
                    succeeded = fst (tally_job ji (cjc c)); failed = snd (tally_job ji (cjc c)) + startup_failures;
                    err = job_err ji (cjc c); died = postmaster_dies env Ping;
                    jc = (if failed = 0 \<and> spawn_failures = 0 \<and> \<not> died then mark_job_done ji (cjc c) else cjc c)
                in (Inr \<lparr>p_job_id = job_id, p_requested = want, p_spawned = length handles, p_succeeded = succeeded,
                      p_failed = failed, p_spawn_failures = spawn_failures,
                      p_ping_rows = length (filter (\<lambda>r. fst r = job_id) (cping c)), p_postmaster_died = died,
                      p_error = (if err = [] then None else Some err)\<rparr>,
                    c\<lparr>cjc := release_job ji jc\<rparr>)))))"

section \<open>A phase in which every worker runs\<close>

definition good_environment :: "environment \<Rightarrow> bool" where
  "good_environment env \<longleftrightarrow>
     (\<forall>ph k. fate_of env ph k = Runs) \<and> (\<forall>ph ks. mset (commit_order env ph ks) = mset ks) \<and>
     (\<forall>ph. \<not> postmaster_dies env ph) \<and> hash_order (group_order env) \<and> hash_order (literal_order env) \<and>
     copy_documented (pg_copy env)"

definition worker_of :: "nat \<Rightarrow> job_phase \<Rightarrow> worker_spec \<Rightarrow> worker_slot" where
  "worker_of ji ph spec =
     \<lparr>w_in_use = True, w_phase = ph, w_status = Spawned, w_job_idx = ji, w_shard = fst spec, w_range = snd spec\<rparr>"

lemma worker_of_fields [simp]:
  "w_in_use (worker_of ji ph spec)" "w_phase (worker_of ji ph spec) = ph" "w_status (worker_of ji ph spec) = Spawned"
  "w_job_idx (worker_of ji ph spec) = ji" "w_shard (worker_of ji ph spec) = fst spec" "w_range (worker_of ji ph spec) = snd spec"
  by (simp_all add: worker_of_def)

lemma used_workers_finite [simp]: "finite (used_workers jc)"
  by (simp add: used_workers_def)

lemma free_worker:
  assumes "jobctl_ok jc" "ji < MAX_JOBS" "j_in_use (jobs jc ! ji)" "card (used_workers jc) < MAX_SLOTS"
  shows "\<exists>s jc1. claim_worker_slot ji ph sh rg jc = (Some s, jc1) \<and> s < MAX_SLOTS \<and> s \<notin> used_workers jc \<and>
    jobctl_ok jc1 \<and> jobs jc1 = jobs jc \<and> next_job_id jc1 = next_job_id jc \<and> used_workers jc1 = insert s (used_workers jc) \<and>
    wslots jc1 = (wslots jc)[s := worker_of ji ph (sh, rg)]"
proof -
  note l = jobctl_okD(1-3)[OF assms(1)]
  obtain x jc1 where c: "claim_worker_slot ji ph sh rg jc = (x, jc1)" by fastforce
  have "\<not> (\<forall>k < MAX_SLOTS. w_in_use (wslots jc ! k))"
  proof
    assume "\<forall>k < MAX_SLOTS. w_in_use (wslots jc ! k)"
    then have "used_workers jc = {..<MAX_SLOTS}" using l(3) by (auto simp: used_workers_def)
    then show False using assms(4) by simp
  qed
  then obtain s where x: "x = Some s" using worker_claim(2)[OF assms(1) c] by (cases x) auto
  note w = worker_claim(1)[OF assms(1) c x]
  have "jobctl_ok jc1" using claim_ok[of jc ji ph sh rg] c assms(1-3) l(2) by simp
  moreover have "used_workers jc1 = insert s (used_workers jc)"
    using w l(3) by (auto simp: used_workers_def nth_list_update)
  ultimately show ?thesis using c x w l(3) by (simp add: worker_of_def used_workers_def)
qed

lemma spawn_all_ok:
  assumes "\<And>k. fate_of env ph k = Runs" "ji < MAX_JOBS"
  shows "\<lbrakk>jobctl_ok jc; j_in_use (jobs jc ! ji); card (used_workers jc) + length specs \<le> MAX_SLOTS\<rbrakk> \<Longrightarrow>
    \<exists>slots jc'. spawn_all env ji ph k specs handles claimed err jc = ((handles @ map (\<lambda>s. (s, Runs)) slots, claimed @ slots, err), jc') \<and>
      distinct slots \<and> set slots \<inter> used_workers jc = {} \<and> set slots \<subseteq> {..<MAX_SLOTS} \<and>
      jobctl_ok jc' \<and> jobs jc' = jobs jc \<and> next_job_id jc' = next_job_id jc \<and> used_workers jc' = used_workers jc \<union> set slots \<and>
      map (\<lambda>s. wslots jc' ! s) slots = map (worker_of ji ph) specs \<and> (\<forall>s \<in> used_workers jc. wslots jc' ! s = wslots jc ! s)"
proof (induction specs arbitrary: k handles claimed jc)
  case Nil
  then show ?case by (intro exI[of _ "[]"]) simp
next
  case (Cons spec specs)
  obtain sh rg where spec: "spec = (sh, rg)" by (cases spec)
  obtain s jc1 where c: "claim_worker_slot ji ph sh rg jc = (Some s, jc1)" and s: "s < MAX_SLOTS" "s \<notin> used_workers jc"
    and j1: "jobctl_ok jc1" "jobs jc1 = jobs jc" "next_job_id jc1 = next_job_id jc" "used_workers jc1 = insert s (used_workers jc)"
    and w1: "wslots jc1 = (wslots jc)[s := worker_of ji ph spec]"
    using free_worker[OF Cons.prems(1) assms(2) Cons.prems(2), of ph sh rg] Cons.prems(3) spec by auto
  have "card (used_workers jc1) + length specs \<le> MAX_SLOTS" using Cons.prems(3) s(2) j1(4) by simp
  then obtain slots jc' where IH:
      "spawn_all env ji ph (Suc k) specs (handles @ [(s, Runs)]) (claimed @ [s]) err jc1 =
         ((handles @ [(s, Runs)] @ map (\<lambda>s. (s, Runs)) slots, claimed @ [s] @ slots, err), jc')"
      "distinct slots" "set slots \<inter> used_workers jc1 = {}" "set slots \<subseteq> {..<MAX_SLOTS}" "jobctl_ok jc'" "jobs jc' = jobs jc1"
      "next_job_id jc' = next_job_id jc1" "used_workers jc' = used_workers jc1 \<union> set slots"
      "map (\<lambda>s. wslots jc' ! s) slots = map (worker_of ji ph) specs" "\<forall>s \<in> used_workers jc1. wslots jc' ! s = wslots jc1 ! s"
    using Cons.IH[OF j1(1), of "Suc k" "handles @ [(s, Runs)]" "claimed @ [s]"] Cons.prems(2) j1(2) by auto
  have l: "length (wslots jc) = MAX_SLOTS" using jobctl_okD(3)[OF Cons.prems(1)] .
  have "wslots jc' ! s = worker_of ji ph spec" using IH(10) j1(4) w1 s(1) l by simp
  moreover have "\<forall>x \<in> used_workers jc. wslots jc' ! x = wslots jc ! x"
    using IH(10) j1(4) w1 s(2) by (metis insertCI nth_list_update_neq)
  moreover have "spawn_all env ji ph k (spec # specs) handles claimed err jc =
      ((handles @ map (\<lambda>s. (s, Runs)) (s # slots), claimed @ (s # slots), err), jc')"
    using c IH(1) assms(1) by (simp add: spec)
  moreover have "distinct (s # slots)" "set (s # slots) \<inter> used_workers jc = {}" using IH(2,3) j1(4) s(2) by auto
  ultimately show ?case using IH(4-9) j1 s(1) by (intro exI[of _ "s # slots"] exI[of _ jc']) auto
qed

fun run_bodies :: "environment \<Rightarrow> job_slot \<Rightarrow> worker_slot list \<Rightarrow> staged_db \<Rightarrow> staged_db res" where
  "run_bodies env job [] db = Inr db"
| "run_bodies env job (w # ws) db = res_bind (phase_body env (w_phase w) w job db) (run_bodies env job ws)"

lemma fold_main:
  "\<lbrakk>shmem_ready (cjc c); distinct runs;
    \<forall>s \<in> set runs. w_phase (wslots (cjc c) ! s) = ph \<and> w_job_idx (wslots (cjc c) ! s) = ji;
    ph \<noteq> Ping; ph = Stage_Prep \<Longrightarrow> length runs \<le> 1 \<and> ddict (cdb c) = [];
    run_bodies env (jobs (cjc c) ! ji) (map (\<lambda>s. wslots (cjc c) ! s) runs) (cdb c) = Inr db\<rbrakk> \<Longrightarrow>
   fold (staged_worker_main env) runs c = c\<lparr>cdb := db, cjc := fold (\<lambda>s. report_worker s True []) runs (cjc c)\<rparr>"
proof (induction runs arbitrary: c)
  case (Cons s runs)
  let ?w = "wslots (cjc c) ! s"
  obtain db1 where b: "phase_body env ph ?w (jobs (cjc c) ! ji) (cdb c) = Inr db1"
      "run_bodies env (jobs (cjc c) ! ji) (map (\<lambda>s. wslots (cjc c) ! s) runs) db1 = Inr db"
    using Cons.prems(3,6) by auto
  let ?c = "c\<lparr>cdb := db1, cjc := report_worker s True [] (cjc c)\<rparr>"
  have r: "report_worker s True [] (cjc c) = (cjc c)\<lparr>wslots := (wslots (cjc c))[s := ?w\<lparr>w_status := Succeeded\<rparr>]\<rparr>"
    using Cons.prems(1) by (simp add: report_worker_def Let_def)
  have m: "staged_worker_main env s c = ?c"
    using b(1) Cons.prems(3-5) by (auto simp: staged_worker_main_def worker_body_def read_worker_def read_job_def Let_def)
  have ws: "wslots (cjc ?c) = (wslots (cjc c))[s := ?w\<lparr>w_status := Succeeded\<rparr>]" by (simp add: r)
  have "s \<notin> set runs" using Cons.prems(2) by simp
  then have same: "\<forall>x \<in> set runs. wslots (cjc ?c) ! x = wslots (cjc c) ! x"
    unfolding ws by (metis nth_list_update_neq)
  have "fold (staged_worker_main env) runs ?c = ?c\<lparr>cdb := db, cjc := fold (\<lambda>s. report_worker s True []) runs (cjc ?c)\<rparr>"
  proof (rule Cons.IH)
    have "map (\<lambda>s. wslots (cjc ?c) ! s) runs = map (\<lambda>s. wslots (cjc c) ! s) runs" using same by (intro map_cong) blast+
    moreover have "jobs (cjc ?c) = jobs (cjc c)" "cdb ?c = db1" by (simp_all add: r)
    ultimately show "run_bodies env (jobs (cjc ?c) ! ji) (map (\<lambda>s. wslots (cjc ?c) ! s) runs) (cdb ?c) = Inr db"
      using b(2) by (simp only:)
    show "\<forall>x \<in> set runs. w_phase (wslots (cjc ?c) ! x) = ph \<and> w_job_idx (wslots (cjc ?c) ! x) = ji"
      using Cons.prems(3) same by simp
    show "ph = Stage_Prep \<Longrightarrow> length runs \<le> 1 \<and> ddict (cdb ?c) = []"
    proof -
      assume p: "ph = Stage_Prep"
      then show ?thesis using Cons.prems(5) b(1) by (auto simp: prepare_for_load_def)
    qed
  qed (use Cons.prems in \<open>simp_all add: r\<close>)
  then show ?case using m by simp
qed simp

lemma fold_reports:
  "\<lbrakk>jobctl_ok jc; \<forall>s \<in> set runs. s < MAX_SLOTS; distinct runs\<rbrakk> \<Longrightarrow>
   jobctl_ok (fold (\<lambda>s. report_worker s True []) runs jc) \<and>
   jobs (fold (\<lambda>s. report_worker s True []) runs jc) = jobs jc \<and>
   next_job_id (fold (\<lambda>s. report_worker s True []) runs jc) = next_job_id jc \<and>
   (\<forall>s. wslots (fold (\<lambda>s. report_worker s True []) runs jc) ! s =
          (if s \<in> set runs then (wslots jc ! s)\<lparr>w_status := Succeeded\<rparr> else wslots jc ! s))"
proof (induction runs arbitrary: jc)
  case (Cons s runs)
  note l = jobctl_okD(1,3)[OF Cons.prems(1)]
  let ?jc = "report_worker s True [] jc"
  have r: "?jc = jc\<lparr>wslots := (wslots jc)[s := (wslots jc ! s)\<lparr>w_status := Succeeded\<rparr>]\<rparr>"
    using l(1) by (simp add: report_worker_def Let_def)
  have "jobctl_ok ?jc" using report_ok[OF Cons.prems(1)] Cons.prems(2) l(2) by simp
  from Cons.IH[OF this] Cons.prems have "jobctl_ok (fold (\<lambda>s. report_worker s True []) runs ?jc) \<and>
     jobs (fold (\<lambda>s. report_worker s True []) runs ?jc) = jobs ?jc \<and>
     next_job_id (fold (\<lambda>s. report_worker s True []) runs ?jc) = next_job_id ?jc \<and>
     (\<forall>x. wslots (fold (\<lambda>s. report_worker s True []) runs ?jc) ! x =
          (if x \<in> set runs then (wslots ?jc ! x)\<lparr>w_status := Succeeded\<rparr> else wslots ?jc ! x))" by simp
  moreover have "wslots ?jc ! x = (if x = s then (wslots jc ! s)\<lparr>w_status := Succeeded\<rparr> else wslots jc ! x)" for x
    using Cons.prems(2) l(2) by (simp add: r nth_list_update)
  ultimately show ?case using Cons.prems(3) by (auto simp: r)
qed simp

text \<open>The worker slots of the other jobs.\<close>

definition other_slots :: "nat \<Rightarrow> jobctl \<Rightarrow> nat set" where
  "other_slots ji jc = {s \<in> used_workers jc. w_job_idx (wslots jc ! s) \<noteq> ji}"

lemma run_phase_ok:
  assumes "good_environment env" "jobctl_ok (cjc c)" "ji < MAX_JOBS" "j_in_use (jobs (cjc c) ! ji)"
    and "card (used_workers (cjc c)) + length specs \<le> MAX_SLOTS"
    and "ph \<noteq> Ping" "ph = Stage_Prep \<Longrightarrow> length specs \<le> 1 \<and> ddict (cdb c) = []"
    and "\<And>ws. mset ws = mset (map (worker_of ji ph) specs) \<Longrightarrow> \<exists>db. run_bodies env (jobs (cjc c) ! ji) ws (cdb c) = Inr db \<and> Q db"
  shows "\<exists>c'. run_phase env ji ph specs c = (Phase_Ok, c') \<and> Q (cdb c') \<and> jobctl_ok (cjc c') \<and> jobs (cjc c') = jobs (cjc c) \<and>
    next_job_id (cjc c') = next_job_id (cjc c) \<and> cping c' = cping c \<and> other_slots ji (cjc c') = other_slots ji (cjc c) \<and>
    card (used_workers (cjc c')) = card (used_workers (cjc c)) + length specs"
proof -
  note env = assms(1)[unfolded good_environment_def]
  obtain slots jc where sp: "spawn_all env ji ph 0 specs [] [] None (cjc c) = ((map (\<lambda>s. (s, Runs)) slots, slots, None), jc)"
    and s: "distinct slots" "set slots \<inter> used_workers (cjc c) = {}" "set slots \<subseteq> {..<MAX_SLOTS}"
    and j: "jobctl_ok jc" "jobs jc = jobs (cjc c)" "next_job_id jc = next_job_id (cjc c)" "used_workers jc = used_workers (cjc c) \<union> set slots"
    and w: "map (\<lambda>s. wslots jc ! s) slots = map (worker_of ji ph) specs" "\<forall>s \<in> used_workers (cjc c). wslots jc ! s = wslots (cjc c) ! s"
    using spawn_all_ok[of env ph, OF _ assms(3,2,4,5), of 0 "[]" "[]" None] env by auto
  have len: "length slots = length specs" using w(1) map_eq_imp_length_eq by blast
  define runs where "runs = commit_order env ph slots"
  have m: "mset runs = mset slots" using env by (simp add: runs_def)
  then have rs: "set runs = set slots" "distinct runs" "length runs = length slots"
    using s(1) by (auto dest: mset_eq_setD mset_eq_imp_distinct_iff mset_eq_length)
  have wk: "\<forall>x \<in> set slots. wslots jc ! x \<in> worker_of ji ph ` set specs"
    using w(1) by (metis (no_types, lifting) imageI image_set list.set_map)
  have "mset (map (\<lambda>s. wslots jc ! s) runs) = mset (map (worker_of ji ph) specs)" using m w(1) by (metis mset_map)
  from assms(8)[OF this] obtain db
    where db: "run_bodies env (jobs jc ! ji) (map (\<lambda>s. wslots jc ! s) runs) (cdb c) = Inr db" "Q db"
    using j(2) by auto
  define jc' where "jc' = fold (\<lambda>s. report_worker s True []) runs jc"
  have f: "fold (staged_worker_main env) runs (c\<lparr>cjc := jc\<rparr>) = c\<lparr>cdb := db, cjc := jc'\<rparr>"
    using fold_main[of "c\<lparr>cjc := jc\<rparr>" runs ph ji env db] jobctl_okD(1)[OF j(1)] rs wk assms(6,7) len db(1)
    by (fastforce simp: jc'_def)
  have r: "jobctl_ok jc'" "jobs jc' = jobs jc" "next_job_id jc' = next_job_id jc"
      "wslots jc' ! x = (if x \<in> set slots then (wslots jc ! x)\<lparr>w_status := Succeeded\<rparr> else wslots jc ! x)" for x
    using fold_reports[OF j(1), of runs] rs s(3) unfolding jc'_def by (auto simp: subset_iff)
  have st: "\<forall>x \<in> set slots. w_status (wslots jc' ! x) = Succeeded" by (simp add: r(4))
  have "run_phase env ji ph specs c = (Phase_Ok, c\<lparr>cdb := db, cjc := jc'\<rparr>)"
    using env st unfolding run_phase_def sp
    by (simp add: comp_def filter_map f runs_def[symmetric] Let_def read_worker_def filter_empty_conv
        filter_False)
  moreover have u: "used_workers jc' = used_workers (cjc c) \<union> set slots"
  proof -
    have "w_in_use (wslots jc' ! x) = w_in_use (wslots jc ! x)" for x by (simp add: r(4))
    then have "used_workers jc' = used_workers jc"
      using jobctl_okD(3)[OF j(1)] jobctl_okD(3)[OF r(1)] by (simp add: used_workers_def)
    then show ?thesis using j(4) by simp
  qed
  moreover have "other_slots ji jc' = other_slots ji (cjc c)"
    using u s(2) w(2) wk by (auto simp: other_slots_def r(4))
  moreover have "card (used_workers jc') = card (used_workers (cjc c)) + length specs"
    using u s(1,2) len by (simp add: card_Un_disjoint Int_commute distinct_card)
  ultimately show ?thesis using db(2) r(1-3) j(2,3) by auto
qed

section \<open>The phases\<close>

lemma one_worker_list: "mset ws = mset (map (worker_of ji ph) one_worker) \<Longrightarrow> ws = [worker_of ji ph (0, 0, 0)]"
  by (simp add: one_worker_def)

lemma stage_bodies:
  assumes "copy_documented (pg_copy env)" "read_file env (j_path job) = Some content" "\<forall>l \<in> set (split_lines content). valid_utf8 l"
  shows "\<lbrakk>\<forall>w \<in> set ws. w_phase w = Stage \<and> set (split_lines (slice content (w_range w))) \<subseteq> set (split_lines content);
      dstg db (j_job_id job) = Some old\<rbrakk> \<Longrightarrow>
    run_bodies env job ws db = Inr (db\<lparr>dstg := (dstg db)(j_job_id job \<mapsto>
       old @ concat (map (\<lambda>w. line_rows (nt_parse env) (split_lines (slice content (w_range w)))) ws))\<rparr>)"
proof (induction ws arbitrary: db old)
  case Nil
  then show ?case by (simp add: fun_upd_idem)
next
  case (Cons w ws)
  let ?ls = "split_lines (slice content (w_range w))"
  have "\<forall>l \<in> set ?ls. valid_utf8 l" using Cons.prems(1) assms(3) by auto
  note st = stage_ok[where read_file = "read_file env", OF assms(1,2) this Cons.prems(2), of "nt_parse env"]
  define new where "new = line_rows (nt_parse env) ?ls"
  define rest where "rest = concat (map (\<lambda>w. line_rows (nt_parse env) (split_lines (slice content (w_range w)))) ws)"
  let ?db = "db\<lparr>dstg := (dstg db)(j_job_id job \<mapsto> old @ new)\<rparr>"
  have "run_bodies env job ws ?db = Inr (?db\<lparr>dstg := (dstg ?db)(j_job_id job \<mapsto> (old @ new) @ rest)\<rparr>)"
    unfolding rest_def by (rule Cons.IH) (use Cons.prems(1) in simp_all)
  moreover have "?db\<lparr>dstg := (dstg ?db)(j_job_id job \<mapsto> (old @ new) @ rest)\<rparr> = db\<lparr>dstg := (dstg db)(j_job_id job \<mapsto> old @ new @ rest)\<rparr>"
    by simp
  ultimately have "run_bodies env job ws ?db = Inr (db\<lparr>dstg := (dstg db)(j_job_id job \<mapsto> old @ new @ rest)\<rparr>)" by (simp only:)
  moreover have "phase_body env (w_phase w) w job db = Inr ?db" using st Cons.prems(1) by (simp add: new_def)
  moreover have "concat (map (\<lambda>w. line_rows (nt_parse env) (split_lines (slice content (w_range w)))) (w # ws)) = new @ rest"
    by (simp add: new_def rest_def)
  ultimately show ?case by (simp only: run_bodies.simps res_bind.simps)
qed

lemma ranges_rows:
  "concat (map (\<lambda>r. line_rows nt (split_lines (slice bs r))) (snap_byte_ranges rd bs n)) = line_rows nt (split_lines bs)"
proof -
  have "concat (map (line_rows nt) lss) = line_rows nt (concat lss)" for lss
    by (induction lss) (simp_all add: line_rows_def flatten_opts_def)
  from this[of "map (\<lambda>r. split_lines (slice bs r)) (snap_byte_ranges rd bs n)"] show ?thesis
    using ranges_cover[of bs rd n] by (simp add: comp_def)
qed

lemma ranges_length: "length (snap_byte_ranges rd bs n) \<le> max n 1"
proof -
  have f: "length (fold (push_bound rd bs m) is ks) = length ks + length is" for m "is" ks
    by (induction "is" arbitrary: ks) (simp_all add: push_bound_def Let_def)
  have "length (windows2 (snap_bounds rd bs m)) = m" if "0 < m" for m
    using that by (simp add: windows2_def snap_bounds_def f)
  then have "length (filter P (windows2 (snap_bounds rd bs (max n 1)))) \<le> max n 1" for P
    by (metis length_filter_le max.strict_coboundedI2 zero_less_one)
  then show ?thesis by (auto simp: snap_byte_ranges_def Let_def)
qed

lemma range_lines: "r \<in> set (snap_byte_ranges rd bs n) \<Longrightarrow> set (split_lines (slice bs r)) \<subseteq> set (split_lines bs)"
  using ranges_cover[of bs rd n] by (metis (no_types, lifting) UN_upper list.set_map set_concat image_eqI)

text \<open>The indexes are built in any order; each is missing when its worker starts.\<close>

lemma index_bodies:
  assumes "\<not> some_clash (pg_md5 env) (map row_key d)"
  shows "\<lbrakk>ddict db = d; \<forall>w \<in> set ws. w_phase w = Index \<and> w_shard w < length index_ddls; distinct (map w_shard ws);
      \<forall>w \<in> set ws. index_ddls ! w_shard w \<notin> set (didx db)\<rbrakk> \<Longrightarrow>
    run_bodies env job ws db = Inr (db\<lparr>didx := didx db @ map (\<lambda>w. index_ddls ! w_shard w) ws\<rparr>)"
proof (induction ws arbitrary: db)
  case (Cons w ws)
  let ?i = "index_ddls ! w_shard w"
  let ?db = "db\<lparr>didx := didx db @ [?i]\<rparr>"
  have dd: "distinct index_ddls" by (simp add: index_ddls_def quad_indexes_def unique_term_def)
  have b: "phase_body env Index w job db = Inr ?db"
    using Cons.prems assms by (auto simp: build_index_def Let_def create_index_def add_unique_term_def)
  have "\<forall>x \<in> set ws. index_ddls ! w_shard x \<notin> set (didx ?db)"
  proof
    fix x assume x: "x \<in> set ws"
    then have "w_shard x \<noteq> w_shard w" using Cons.prems(3) by (metis distinct.simps(2) imageI list.map(2) list.set_map)
    then have "index_ddls ! w_shard x \<noteq> ?i" using dd x Cons.prems(2) by (simp add: nth_eq_iff_index_eq)
    then show "index_ddls ! w_shard x \<notin> set (didx ?db)" using Cons.prems(4) x by simp
  qed
  then show ?case using Cons.IH[of ?db] Cons.prems b by simp
qed simp

section \<open>The coordinator of a load that goes well\<close>

text \<open>
  What stays true of the coordinator's job from phase to phase: \<open>J\<close> are the other jobs, \<open>W\<close> the slots of
  other jobs, \<open>n\<close> the slots in use.
\<close>

definition in_job :: "nat \<Rightarrow> string \<Rightarrow> int \<Rightarrow> int \<Rightarrow> (nat \<Rightarrow> job_slot) \<Rightarrow> nat set \<Rightarrow> nat \<Rightarrow> jobctl \<Rightarrow> bool" where
  "in_job ji path g jid J W n jc \<longleftrightarrow>
     jobctl_ok jc \<and> ji < MAX_JOBS \<and> j_in_use (jobs jc ! ji) \<and> j_path (jobs jc ! ji) = path \<and>
     j_graph_id (jobs jc ! ji) = g \<and> j_job_id (jobs jc ! ji) = jid \<and> j_state (jobs jc ! ji) = Running \<and>
     (\<forall>i. i \<noteq> ji \<longrightarrow> jobs jc ! i = J i) \<and> other_slots ji jc = W \<and> card (used_workers jc) = n"

lemma gate_ok:
  assumes "good_environment env" "in_job ji path g jid J W n (cjc c)" "n + length specs \<le> MAX_SLOTS"
    and "ph \<noteq> Ping" "ph = Stage_Prep \<Longrightarrow> length specs \<le> 1 \<and> ddict (cdb c) = []"
    and "\<And>ws. mset ws = mset (map (worker_of ji ph) specs) \<Longrightarrow> \<exists>db. run_bodies env (jobs (cjc c) ! ji) ws (cdb c) = Inr db \<and> Q db"
  shows "\<exists>c'. (\<forall>label k. gate env ji label ph specs k c = k c') \<and> in_job ji path g jid J W (n + length specs) (cjc c') \<and>
    jobs (cjc c') = jobs (cjc c) \<and> Q (cdb c') \<and> cping c' = cping c"
proof -
  note i = assms(2)[unfolded in_job_def]
  have "\<exists>c'. run_phase env ji ph specs c = (Phase_Ok, c') \<and> Q (cdb c') \<and> jobctl_ok (cjc c') \<and> jobs (cjc c') = jobs (cjc c) \<and>
    next_job_id (cjc c') = next_job_id (cjc c) \<and> cping c' = cping c \<and> other_slots ji (cjc c') = other_slots ji (cjc c) \<and>
    card (used_workers (cjc c')) = card (used_workers (cjc c)) + length specs"
    by (rule run_phase_ok[OF assms(1)]) (use i assms(3-6) in auto)
  then show ?thesis using i by (auto simp: gate_def in_job_def)
qed

lemma high_water_ok:
  assumes "in_job ji path g jid J W n (cjc c)"
  shows "in_job ji path g jid J W n (cjc (high_water ji ph c)) \<and> cdb (high_water ji ph c) = cdb c \<and>
    cping (high_water ji ph c) = cping c"
proof -
  note i = assms[unfolded in_job_def]
  have r: "shmem_ready (cjc c)" "length (jobs (cjc c)) = MAX_JOBS" using i jobctl_okD by blast+
  have "jobctl_ok (update_job ji (\<lambda>j. j\<lparr>j_phase := ph\<rparr>) (cjc c))" using i by (intro update_job_ok) auto
  then show ?thesis using i r
    by (simp add: high_water_def advance_phase_def in_job_def update_job_def other_slots_def used_workers_def)
qed

lemma fresh_job:
  assumes "jobctl_ok jc" "\<exists>i < MAX_JOBS. \<not> j_in_use (jobs jc ! i)" "length path \<le> PATH_CAP"
  shows "\<exists>ji jc'. create_job path g db role nw ns jc = (Some ji, jc') \<and> \<not> j_in_use (jobs jc ! ji) \<and>
    in_job ji path g (next_job_id jc) (\<lambda>i. jobs jc ! i) (used_workers jc) (card (used_workers jc)) jc'"
proof -
  obtain x jc' where c: "create_job path g db role nw ns jc = (x, jc')" by fastforce
  obtain ji where x: "x = Some ji" using job_slots_claim(2)[OF assms(1,3), of g db role nw ns jc'] assms(2) c by (cases x) auto
  note f = job_slots_claim(1)[OF assms(1) c[unfolded x]]
  note ok = create_job_ok[OF assms(1) c]
  have "w_job_idx (wslots jc ! k) \<noteq> ji" if "k \<in> used_workers jc" for k
    using jobctl_okD(4)[OF assms(1), of k] jobctl_okD(3)[OF assms(1)] f that by (auto simp: used_workers_def)
  moreover have "jobs jc' ! i = jobs jc ! i" if "i \<noteq> ji" for i using f that by (metis nth_list_update_neq)
  ultimately have "in_job ji path g (next_job_id jc) (\<lambda>i. jobs jc ! i) (used_workers jc) (card (used_workers jc)) jc'"
    using f ok by (auto simp: in_job_def other_slots_def used_workers_def)
  then show ?thesis using c x f by blast
qed

definition job_gone :: "nat \<Rightarrow> (nat \<Rightarrow> job_slot) \<Rightarrow> nat set \<Rightarrow> jobctl \<Rightarrow> bool" where
  "job_gone ji J W jc \<longleftrightarrow>
     jobctl_ok jc \<and> used_workers jc = W \<and> (\<forall>i. i \<noteq> ji \<longrightarrow> jobs jc ! i = J i) \<and> \<not> j_in_use (jobs jc ! ji)"

lemma release_gone:
  assumes "jobctl_ok jc" "ji < MAX_JOBS" "other_slots ji jc = W" "\<forall>i. i \<noteq> ji \<longrightarrow> jobs jc ! i = J i"
  shows "job_gone ji J W (release_job ji jc)"
proof -
  note r = jobctl_okD(1-3)[OF assms(1)]
  have "used_workers (release_job ji jc) = W"
    unfolding assms(3)[symmetric] using r
    by (auto simp: used_workers_def other_slots_def release_job_def of_job_def default_worker_def split: if_splits)
  then show ?thesis using r assms release_ok[OF assms(1), of ji] by (simp add: job_gone_def release_job_def default_job_def)
qed

fun one_tag :: "staged_row \<Rightarrow> bool" where
  "one_tag (s, p, ty, v, dt, lang) \<longleftrightarrow> dt = None \<or> lang = None"

lemma line_rows_typed: "\<forall>r \<in> set (line_rows nt ls). row_typed r \<and> one_tag r"
proof -
  have "one_tag (staged_of t)" for t
  proof -
    obtain s p ob where t: "t = (s, p, ob)" by (metis prod_cases3)
    show ?thesis unfolding t by (induction ob rule: staged_object.induct) auto
  qed
  then show ?thesis by (auto simp: line_rows_def staged_of_typed)
qed

lemma staged_no_clash:
  assumes "numbered_terms d (staged_terms stg)" "\<forall>r \<in> set stg. one_tag r"
  shows "\<not> some_clash md5 (map row_key d)"
proof (rule no_clash, clarsimp)
  fix r assume r: "r \<in> set d"
  obtain t v dt lang where k: "row_key r = (t, v, dt, lang)" by (metis prod_cases4)
  have m: "(t, v, lexical_of d dt, lang) \<in> staged_terms stg"
    using assms(1) r by (force simp: numbered_terms_def row_text_def k)
  have l: "lexical_of d dt = None \<or> lang = None"
  proof (cases "(v, lexical_of d dt, lang) \<in> set (dict_lit_dedup stg)")
    case True
    then obtain y where y: "y \<in> set stg" "snd (snd (snd y)) = (v, lexical_of d dt, lang)" unfolding columns(3) by force
    have "one_tag y" using assms(2) y(1) by blast
    then show ?thesis using y(2) by (cases y rule: one_tag.cases) simp
  next
    case False
    then show ?thesis using m unfolding staged_terms_def by auto
  qed
  have "lexical_of d (Some i) \<noteq> None" if "dt = Some i" for i
  proof -
    have "datatype_of r = Some i" using that by (simp add: datatype_of_def k)
    then obtain y where y: "y \<in> set d" "row_id y = i" using assms(1) r unfolding numbered_terms_def by blast
    have "dict_row_of d i = Some (row_key y)" using dict_row_of_mem[of d y] assms(1) y by (simp add: numbered_terms_def)
    then show ?thesis by (simp add: lexical_of_def)
  qed
  then show "one_qualifier (row_key r)" using l by (cases dt) (auto simp: one_qualifier_def k)
qed

lemma job_fields_only:
  "j_job_id a = j_job_id b \<Longrightarrow> dict hs hl a db = dict hs hl b db"
  "j_job_id a = j_job_id b \<Longrightarrow> j_graph_id a = j_graph_id b \<Longrightarrow> resolve md5 a db = resolve md5 b db"
  by (simp_all add: dict_def resolve_def Let_def)

lemma phase_frames:
  "dict hs hl job db = Inr (n, db') \<Longrightarrow> dstore db' = dstore db \<and> dstg db' = dstg db \<and>
     set (didx db') = insert dict_resolve_index (set (didx db))"
  "resolve md5 job db = Inr (n, db') \<Longrightarrow> ddict db' = ddict db \<and> dstg db' = dstg db \<and> didx db' = didx db"
  by (auto simp: dict_def resolve_def Let_def split: option.splits if_splits)

text \<open>What the five phases leave, whatever the order of the workers.\<close>

definition staged_load_of :: "int \<Rightarrow> staged_row list \<Rightarrow> staged_db \<Rightarrow> staged_db \<Rightarrow> bool" where
  "staged_load_of g stg db0 db \<longleftrightarrow>
     (\<exists>new. quads (dstore db) = filter (\<lambda>q. qg q \<noteq> g) (quads (dstore db0)) @ new \<and>
        mset (map (read_quad (ddict db)) new) = mset (map (\<lambda>r. Some (staged_triple r)) stg) \<and>
        (\<forall>q \<in> set new. qg q = g \<and> \<not> qinf q)) \<and>
     distinct (map row_id (ddict db)) \<and> set (map (row_text (ddict db)) (ddict db)) = staged_terms stg \<and>
     set (didx db) = set (didx db0) \<and> dstg db = dstg db0 \<and> dedicated_partition g (dstore db)"

lemma staged_terms_mset: "mset a = mset b \<Longrightarrow> staged_terms a = staged_terms b"
proof -
  assume "mset a = mset b"
  then have "set a = set b" by (rule mset_eq_setD)
  then show ?thesis by (simp add: staged_terms_def columns)
qed

lemma stage_ws:
  assumes "mset ws = mset (map (worker_of ji Stage) (stage_specs (snap_byte_ranges rd content n)))"
  shows "\<forall>w \<in> set ws. w_phase w = Stage \<and> set (split_lines (slice content (w_range w))) \<subseteq> set (split_lines content)"
    and "mset (concat (map (\<lambda>w. line_rows nt (split_lines (slice content (w_range w)))) ws)) = mset (line_rows nt (split_lines content))"
proof -
  let ?rs = "snap_byte_ranges rd content n"
  have sn: "map snd (stage_specs ?rs) = ?rs" by (simp add: stage_specs_def)
  have "set ws = worker_of ji Stage ` set (stage_specs ?rs)" using assms by (metis image_set mset_eq_setD)
  moreover have "snd sp \<in> set ?rs" if "sp \<in> set (stage_specs ?rs)" for sp using sn that by (metis image_eqI image_set)
  ultimately show "\<forall>w \<in> set ws. w_phase w = Stage \<and> set (split_lines (slice content (w_range w))) \<subseteq> set (split_lines content)"
    using range_lines by fastforce
  let ?h = "\<lambda>w. line_rows nt (split_lines (slice content (w_range w)))"
  have "map ?h (map (worker_of ji Stage) (stage_specs ?rs)) = map (\<lambda>r. line_rows nt (split_lines (slice content r))) (map snd (stage_specs ?rs))"
    by simp
  then show "mset (concat (map ?h ws)) = mset (line_rows nt (split_lines content))"
    using mset_concat_map[OF assms, of ?h] ranges_rows[of nt content rd n] sn by (simp only:)
qed

lemma index_ws:
  assumes "mset ws = mset (map (worker_of ji Index) index_specs)"
  shows "\<forall>w \<in> set ws. w_phase w = Index \<and> w_shard w < length index_ddls" and "distinct (map w_shard ws)"
    and "set (map (\<lambda>w. index_ddls ! w_shard w) ws) = set index_ddls"
proof -
  have s: "set ws = worker_of ji Index ` set index_specs" using assms by (metis image_set mset_eq_setD)
  then show "\<forall>w \<in> set ws. w_phase w = Index \<and> w_shard w < length index_ddls" by (auto simp: index_specs_def)
  have "mset (map w_shard ws) = mset (map w_shard (map (worker_of ji Index) index_specs))" using assms by (metis mset_map)
  also have "\<dots> = mset [0..<length index_ddls]" by (simp add: index_specs_def comp_def)
  finally show "distinct (map w_shard ws)" by (metis distinct_upt mset_eq_imp_distinct_iff)
  show "set (map (\<lambda>w. index_ddls ! w_shard w) ws) = set index_ddls"
    by (simp add: s index_specs_def image_image) (metis atLeast0LessThan lessThan_atLeast0 list.set_map map_nth set_upt)
qed

lemma job_fields:
  "in_job ji path g jid J W n jc \<Longrightarrow> j_path (jobs jc ! ji) = path" "in_job ji path g jid J W n jc \<Longrightarrow> j_graph_id (jobs jc ! ji) = g"
  "in_job ji path g jid J W n jc \<Longrightarrow> j_job_id (jobs jc ! ji) = jid" "in_job ji path g jid J W n jc \<Longrightarrow> j_state (jobs jc ! ji) = Running"
  by (simp_all add: in_job_def)

text \<open>The gate of each phase, for the state the phase before it leaves.\<close>

lemma single_gate:
  assumes "good_environment env" "in_job ji path g jid J W n (cjc c)" "n + 1 \<le> MAX_SLOTS"
    and "ph \<noteq> Ping" "ph = Stage_Prep \<Longrightarrow> ddict (cdb c) = []"
    and "phase_body env ph (worker_of ji ph (0, 0, 0)) (jobs (cjc c) ! ji) (cdb c) = Inr db"
  shows "\<exists>c'. (\<forall>label k. gate env ji label ph one_worker k c = k c') \<and> in_job ji path g jid J W (n + 1) (cjc c') \<and>
    cdb c' = db \<and> cping c' = cping c"
proof -
  have o: "length one_worker = 1" by (simp add: one_worker_def)
  have "\<exists>db'. run_bodies env (jobs (cjc c) ! ji) ws (cdb c) = Inr db' \<and> db' = db"
    if "mset ws = mset (map (worker_of ji ph) one_worker)" for ws
    using one_worker_list[OF that] assms(6) by simp
  then have "\<exists>c'. (\<forall>label k. gate env ji label ph one_worker k c = k c') \<and>
      in_job ji path g jid J W (n + length one_worker) (cjc c') \<and> jobs (cjc c') = jobs (cjc c) \<and> cdb c' = db \<and> cping c' = cping c"
    using assms(3,5) o by (intro gate_ok[OF assms(1,2) _ assms(4)]) auto
  then show ?thesis unfolding o by blast
qed

lemma stage_gate:
  assumes "good_environment env" "in_job ji path g jid J W n (cjc c)"
    and "n + max requested 1 \<le> MAX_SLOTS"
    and "read_file env path = Some content" "\<forall>l \<in> set (split_lines content). valid_utf8 l" "dstg (cdb c) jid = Some []"
  shows "\<exists>c' m loaded. (\<forall>label k. gate env ji label Stage (stage_specs (snap_byte_ranges (read_size env) content requested)) k c = k c') \<and>
    in_job ji path g jid J W m (cjc c') \<and> m \<le> n + max requested 1 \<and>
    mset loaded = mset (line_rows (nt_parse env) (split_lines content)) \<and>
    cdb c' = (cdb c)\<lparr>dstg := (dstg (cdb c))(jid \<mapsto> loaded)\<rparr> \<and> cping c' = cping c"
proof -
  let ?specs = "stage_specs (snap_byte_ranges (read_size env) content requested)"
  let ?Q = "\<lambda>db. \<exists>loaded. mset loaded = mset (line_rows (nt_parse env) (split_lines content)) \<and>
     db = (cdb c)\<lparr>dstg := (dstg (cdb c))(jid \<mapsto> loaded)\<rparr>"
  have len: "length ?specs \<le> max requested 1" using ranges_length by (simp add: stage_specs_def)
  have cd: "copy_documented (pg_copy env)" using assms(1) by (simp add: good_environment_def)
  note j = job_fields[OF assms(2)]
  have "\<exists>db. run_bodies env (jobs (cjc c) ! ji) ws (cdb c) = Inr db \<and> ?Q db"
    if ws: "mset ws = mset (map (worker_of ji Stage) ?specs)" for ws
  proof -
    have "read_file env (j_path (jobs (cjc c) ! ji)) = Some content" "dstg (cdb c) (j_job_id (jobs (cjc c) ! ji)) = Some []"
      using assms(4,6) j by simp_all
    from stage_bodies[OF cd this(1) assms(5) stage_ws(1)[OF ws] this(2)] stage_ws(2)[OF ws, of "nt_parse env"] j(3)
    show ?thesis by auto
  qed
  note bodies = this
  have "\<exists>c'. (\<forall>label k. gate env ji label Stage ?specs k c = k c') \<and>
      in_job ji path g jid J W (n + length ?specs) (cjc c') \<and> jobs (cjc c') = jobs (cjc c) \<and> ?Q (cdb c') \<and> cping c' = cping c"
  proof (rule gate_ok[OF assms(1,2)])
    show "n + length ?specs \<le> MAX_SLOTS" using len assms(3) by simp
    fix ws assume "mset ws = mset (map (worker_of ji Stage) ?specs)"
    then show "\<exists>db. run_bodies env (jobs (cjc c) ! ji) ws (cdb c) = Inr db \<and> ?Q db" by (rule bodies)
  qed simp_all
  then obtain c' where c': "\<forall>label k. gate env ji label Stage ?specs k c = k c'" "in_job ji path g jid J W (n + length ?specs) (cjc c')"
    "?Q (cdb c')" "cping c' = cping c" by blast
  have "n + length ?specs \<le> n + max requested 1" using len by simp
  then show ?thesis using c' by blast
qed

lemma index_gate:
  assumes "good_environment env" "in_job ji path g jid J W n (cjc c)" "n + 5 \<le> MAX_SLOTS"
    and "\<not> some_clash (pg_md5 env) (map row_key (ddict (cdb c)))" "set index_ddls \<inter> set (didx (cdb c)) = {}"
  shows "\<exists>c' built. (\<forall>label k. gate env ji label Index index_specs k c = k c') \<and> in_job ji path g jid J W (n + 5) (cjc c') \<and>
    cdb c' = (cdb c)\<lparr>didx := didx (cdb c) @ built\<rparr> \<and> set built = set index_ddls \<and> cping c' = cping c"
proof -
  let ?Q = "\<lambda>db. \<exists>built. db = (cdb c)\<lparr>didx := didx (cdb c) @ built\<rparr> \<and> set built = set index_ddls"
  have l: "length index_specs = 5" by (simp add: index_specs_def index_ddls_def quad_indexes_def)
  have "\<exists>db. run_bodies env (jobs (cjc c) ! ji) ws (cdb c) = Inr db \<and> ?Q db"
    if ws: "mset ws = mset (map (worker_of ji Index) index_specs)" for ws
  proof -
    have "\<forall>w \<in> set ws. index_ddls ! w_shard w \<notin> set (didx (cdb c))" using index_ws(1)[OF ws] assms(5) by (meson disjoint_iff nth_mem)
    from index_bodies[OF assms(4) refl index_ws(1,2)[OF ws] this] index_ws(3)[OF ws] show ?thesis by blast
  qed
  then have "\<exists>c'. (\<forall>label k. gate env ji label Index index_specs k c = k c') \<and>
      in_job ji path g jid J W (n + length index_specs) (cjc c') \<and> jobs (cjc c') = jobs (cjc c) \<and> ?Q (cdb c') \<and> cping c' = cping c"
    using l assms(3) by (intro gate_ok[OF assms(1,2)]) auto
  then show ?thesis unfolding l by blast
qed

text \<open>From INDEX to the answer.\<close>

lemma done_in_job:
  assumes "in_job ji path g jid J W n (cjc c)"
  shows "\<exists>c'. release_slots ji (c\<lparr>cdb := db, cjc := mark_job_done ji (cjc c)\<rparr>) = c' \<and> cdb c' = db \<and> cping c' = cping c \<and>
    job_gone ji J W (cjc c')"
proof -
  note i = assms[unfolded in_job_def]
  have r: "shmem_ready (cjc c)" "length (jobs (cjc c)) = MAX_JOBS" using i jobctl_okD by blast+
  let ?jc = "mark_job_done ji (cjc c)"
  have u: "?jc = update_job ji (\<lambda>j. j\<lparr>j_state := Job_Done, j_phase := Phase_Done\<rparr>) (cjc c)" using r by (simp add: mark_job_done_def)
  have ok: "jobctl_ok ?jc" unfolding u using i by (intro update_job_ok) auto
  have j: "\<And>k. k \<noteq> ji \<Longrightarrow> jobs ?jc ! k = J k" "other_slots ji ?jc = W" "j_in_use (jobs ?jc ! ji)"
    using i r by (simp_all add: u update_job_def other_slots_def used_workers_def)
  have "job_gone ji J W (release_job ji ?jc)" using ok i j by (intro release_gone) auto
  then show ?thesis by (simp add: release_slots_def)
qed

lemma index_and_finish_ok:
  assumes "good_environment env" "in_job ji path g jid J W n (cjc c)" "n + 5 \<le> MAX_SLOTS"
    and "\<not> some_clash (pg_md5 env) (map row_key (ddict (cdb c)))" "set index_ddls \<inter> set (didx (cdb c)) = {}"
    and "dstg (cdb c) jid = Some lrows"
  shows "\<exists>c' built. index_and_finish env ji g c =
      (Inr (Staged_Loaded (int (length lrows)) (int (length (ddict (cdb c)))) (int (length (filter (\<lambda>q. qg q = g) (quads (dstore (cdb c))))))), c') \<and>
    cdb c' = (cdb c)\<lparr>dstg := (dstg (cdb c))(jid := None), didx := filter (\<lambda>i. i \<noteq> dict_resolve_index) (didx (cdb c) @ built)\<rparr> \<and>
    set built = set index_ddls \<and> cping c' = cping c \<and> job_gone ji J W (cjc c')"
proof -
  obtain c5 built where c5: "\<And>label k. gate env ji label Index index_specs k c = k c5"
      "in_job ji path g jid J W (n + 5) (cjc c5)" "cdb c5 = (cdb c)\<lparr>didx := didx (cdb c) @ built\<rparr>" "set built = set index_ddls" "cping c5 = cping c"
    using index_gate[OF assms(1-5)] by blast
  define c6 where "c6 = high_water ji Index c5"
  have h: "in_job ji path g jid J W (n + 5) (cjc c6)" "cdb c6 = cdb c5" "cping c6 = cping c"
    using high_water_ok[OF c5(2), of Index] c5(5) by (simp_all add: c6_def)
  have jid: "job_id_of ji (cjc c6) = jid" using job_fields(3)[OF h(1)] by (simp add: job_id_of_def read_job_def)
  let ?db = "(cdb c)\<lparr>dstg := (dstg (cdb c))(jid := None), didx := filter (\<lambda>i. i \<noteq> dict_resolve_index) (didx (cdb c) @ built)\<rparr>"
  obtain c7 where c7: "release_slots ji (c6\<lparr>cdb := ?db, cjc := mark_job_done ji (cjc c6)\<rparr>) = c7" "cdb c7 = ?db" "cping c7 = cping c6"
      "job_gone ji J W (cjc c7)" using done_in_job[OF h(1), of ?db] by blast
  have "index_and_finish env ji g c =
      (Inr (Staged_Loaded (int (length lrows)) (int (length (ddict (cdb c)))) (int (length (filter (\<lambda>q. qg q = g) (quads (dstore (cdb c))))))), c7)"
    unfolding index_and_finish_def c5(1) c6_def[symmetric] c7(1)[symmetric] staged_finish_def Let_def jid
    using assms(6) by (simp add: h(2) c5(3))
  then show ?thesis using c5(4) c7 h(3) by auto
qed

text \<open>From DICT to INDEX.\<close>

lemma reaches_index:
  assumes env: "good_environment env" and ji: "in_job ji path g jid J W n (cjc c)" and slots: "n + 2 \<le> MAX_SLOTS"
    and fresh: "ddict (cdb c) = []" "dstg (cdb c) jid = Some lrows" "\<forall>r \<in> set lrows. row_typed r \<and> one_tag r"
    and md5: "inj_on (pg_md5 env) (all_texts lrows)" and graph: "0 \<le> g"
      "dedicated_partition g (dstore (cdb c)) \<or> (\<forall>q \<in> set (quads (dstore (cdb c))). qg q \<noteq> g)"
    and idx: "set index_ddls \<inter> set (didx (cdb c)) = {}"
  shows "\<exists>c' new. dict_and_resolve env ji g c = index_and_finish env ji g c' \<and>
    in_job ji path g jid J W (n + 1 + 1) (cjc c') \<and> cping c' = cping c \<and> dstg (cdb c') = dstg (cdb c) \<and>
    set (didx (cdb c')) = insert dict_resolve_index (set (didx (cdb c))) \<and>
    quads (dstore (cdb c')) = filter (\<lambda>q. qg q \<noteq> g) (quads (dstore (cdb c))) @ new \<and>
    map (read_quad (ddict (cdb c'))) new = map (\<lambda>r. Some (staged_triple r)) lrows \<and> (\<forall>q \<in> set new. qg q = g \<and> \<not> qinf q) \<and>
    dedicated_partition g (dstore (cdb c')) \<and> numbered_terms (ddict (cdb c')) (staged_terms lrows) \<and>
    set index_ddls \<inter> set (didx (cdb c')) = {} \<and> \<not> some_clash (pg_md5 env) (map row_key (ddict (cdb c')))"
proof -
  have o: "hash_order (group_order env)" "hash_order (literal_order env)" using env by (simp_all add: good_environment_def)
  define job where "job = jobs (cjc c) ! ji"
  have jf: "j_job_id job = jid" "j_graph_id job = g" using job_fields[OF ji] by (simp_all add: job_def)
  obtain k db3 db4 new where d: "dict (group_order env) (literal_order env) job (cdb c) = Inr (k, db3)"
      "resolve (pg_md5 env) job db3 = Inr (int (length lrows), db4)"
      "quads (dstore db4) = filter (\<lambda>q. qg q \<noteq> g) (quads (dstore (cdb c))) @ new"
      "map (read_quad (ddict db4)) new = map (\<lambda>r. Some (staged_triple r)) lrows" "\<forall>q \<in> set new. qg q = g \<and> \<not> qinf q"
      "dedicated_partition g (dstore db4)" "numbered_terms (ddict db4) (staged_terms lrows)"
    using dict_resolve_ok[OF o fresh(1), of job lrows "pg_md5 env"] fresh(2,3) md5 graph unfolding jf by blast
  note fr = phase_frames(1)[OF d(1)] phase_frames(2)[OF d(2)]
  have "phase_body env Dict (worker_of ji Dict (0, 0, 0)) (jobs (cjc c) ! ji) (cdb c) = Inr db3" using d(1) by (simp flip: job_def)
  from single_gate[OF env ji _ _ _ this] slots obtain c3 where c3: "\<And>label k. gate env ji label Dict one_worker k c = k c3"
      "in_job ji path g jid J W (n + 1) (cjc c3)" "cdb c3 = db3" "cping c3 = cping c" by auto
  define c3' where "c3' = high_water ji Dict c3"
  have h3: "in_job ji path g jid J W (n + 1) (cjc c3')" "cdb c3' = db3" "cping c3' = cping c"
    using high_water_ok[OF c3(2), of Dict] c3(3,4) by (simp_all add: c3'_def)
  have "resolve (pg_md5 env) (jobs (cjc c3') ! ji) db3 = resolve (pg_md5 env) job db3"
    using job_fields[OF h3(1)] jf by (intro job_fields_only) simp_all
  then have "phase_body env Resolve (worker_of ji Resolve (0, 0, 0)) (jobs (cjc c3') ! ji) (cdb c3') = Inr db4"
    using d(2) by (simp add: h3(2))
  from single_gate[OF env h3(1) _ _ _ this] slots obtain c4 where c4: "\<And>label k. gate env ji label Resolve one_worker k c3' = k c4"
      "in_job ji path g jid J W (n + 1 + 1) (cjc c4)" "cdb c4 = db4" "cping c4 = cping c3'" by auto
  define c4' where "c4' = high_water ji Resolve c4"
  have h4: "in_job ji path g jid J W (n + 1 + 1) (cjc c4')" "cdb c4' = db4" "cping c4' = cping c"
    using high_water_ok[OF c4(2), of Resolve] c4(3,4) h3(3) by (simp_all add: c4'_def)
  have nr: "dict_resolve_index \<notin> set index_ddls" by (simp add: dict_resolve_index_def index_ddls_def quad_indexes_def unique_term_def)
  have "set index_ddls \<inter> set (didx db4) = {}" using fr idx nr by simp
  moreover have "\<not> some_clash (pg_md5 env) (map row_key (ddict db4))" by (rule staged_no_clash[OF d(7)]) (use fresh(3) in blast)
  moreover have "dict_and_resolve env ji g c = index_and_finish env ji g c4'"
    unfolding dict_and_resolve_def c3(1) c3'_def[symmetric] c4(1) c4'_def by (rule refl)
  ultimately show ?thesis using d(3-7) fr h4 by (intro exI[of _ c4'] exI[of _ new]) simp
qed

lemma dict_and_resolve_ok:
  assumes env: "good_environment env" and ji: "in_job ji path g jid J W n (cjc c)" and slots: "n + 7 \<le> MAX_SLOTS"
    and fresh: "ddict (cdb c) = []" "dstg (cdb c) jid = Some lrows" "\<forall>r \<in> set lrows. row_typed r \<and> one_tag r"
    and md5: "inj_on (pg_md5 env) (all_texts lrows)" and graph: "0 \<le> g"
      "dedicated_partition g (dstore (cdb c)) \<or> (\<forall>q \<in> set (quads (dstore (cdb c))). qg q \<noteq> g)"
    and idx: "set index_ddls \<inter> set (didx (cdb c)) = {}"
  shows "\<exists>c'. dict_and_resolve env ji g c =
      (Inr (Staged_Loaded (int (length lrows)) (int (length (ddict (cdb c')))) (int (length lrows))), c') \<and>
    staged_load_of g lrows ((cdb c)\<lparr>didx := filter (\<lambda>i. i \<noteq> dict_resolve_index) (didx (cdb c)) @ index_ddls, dstg := (dstg (cdb c))(jid := None)\<rparr>) (cdb c') \<and>
    cping c' = cping c \<and> job_gone ji J W (cjc c')"
proof -
  have "n + 2 \<le> MAX_SLOTS" using slots by simp
  from reaches_index[OF env ji this fresh md5 graph idx] obtain c4 new where c4:
      "dict_and_resolve env ji g c = index_and_finish env ji g c4" "in_job ji path g jid J W (n + 1 + 1) (cjc c4)"
      "cping c4 = cping c" "dstg (cdb c4) = dstg (cdb c)" "set (didx (cdb c4)) = insert dict_resolve_index (set (didx (cdb c)))"
      "quads (dstore (cdb c4)) = filter (\<lambda>q. qg q \<noteq> g) (quads (dstore (cdb c))) @ new"
      "map (read_quad (ddict (cdb c4))) new = map (\<lambda>r. Some (staged_triple r)) lrows" "\<forall>q \<in> set new. qg q = g \<and> \<not> qinf q"
      "dedicated_partition g (dstore (cdb c4))" "numbered_terms (ddict (cdb c4)) (staged_terms lrows)"
      "set index_ddls \<inter> set (didx (cdb c4)) = {}" "\<not> some_clash (pg_md5 env) (map row_key (ddict (cdb c4)))" by blast
  have s5: "n + 1 + 1 + 5 \<le> MAX_SLOTS" using slots by simp
  have t4: "dstg (cdb c4) jid = Some lrows" using fresh(2) c4(4) by simp
  from index_and_finish_ok[OF env c4(2) s5 c4(12,11) t4] obtain c' built where c':
      "index_and_finish env ji g c4 = (Inr (Staged_Loaded (int (length lrows)) (int (length (ddict (cdb c4))))
         (int (length (filter (\<lambda>q. qg q = g) (quads (dstore (cdb c4))))))), c')"
      "cdb c' = (cdb c4)\<lparr>dstg := (dstg (cdb c4))(jid := None), didx := filter (\<lambda>i. i \<noteq> dict_resolve_index) (didx (cdb c4) @ built)\<rparr>"
      "set built = set index_ddls" "cping c' = cping c4" "job_gone ji J W (cjc c')" by blast
  have "length new = length lrows" using c4(7) map_eq_imp_length_eq by blast
  then have l: "length (filter (\<lambda>q. qg q = g) (quads (dstore (cdb c4)))) = length lrows"
    using c4(6,8) by (simp add: filter_id_conv)
  have "dict_and_resolve env ji g c = (Inr (Staged_Loaded (int (length lrows)) (int (length (ddict (cdb c')))) (int (length lrows))), c')"
    unfolding c4(1) c'(1) l by (simp add: c'(2))
  moreover have "staged_load_of g lrows ((cdb c)\<lparr>didx := filter (\<lambda>i. i \<noteq> dict_resolve_index) (didx (cdb c)) @ index_ddls, dstg := (dstg (cdb c))(jid := None)\<rparr>) (cdb c')"
  proof -
    have "mset (map (read_quad (ddict (cdb c4))) new) = mset (map (\<lambda>r. Some (staged_triple r)) lrows)" using c4(7) by simp
    moreover have "dict_resolve_index \<notin> set index_ddls"
      by (simp add: dict_resolve_index_def index_ddls_def quad_indexes_def unique_term_def)
    ultimately show ?thesis using c4(4-6,8-10) c'(3) unfolding staged_load_of_def numbered_terms_def by (auto simp: c'(2))
  qed
  ultimately show ?thesis using c'(4,5) c4(3) by auto
qed

text \<open>From the preparation to DICT.\<close>

lemma reaches_dict:
  assumes env: "good_environment env" and ji: "in_job ji path g jid J W n (cjc c)" and slots: "n + 1 + max requested 1 \<le> MAX_SLOTS"
    and f: "read_file env path = Some content" "\<forall>l \<in> set (split_lines content). valid_utf8 l"
    and fresh: "ddict (cdb c) = []" "dstg (cdb c) jid = None"
  shows "\<exists>c' m lrows. staged_pipeline env ji g content requested c = dict_and_resolve env ji g c' \<and>
    in_job ji path g jid J W m (cjc c') \<and> m \<le> n + 1 + max requested 1 \<and> cping c' = cping c \<and>
    mset lrows = mset (line_rows (nt_parse env) (split_lines content)) \<and>
    cdb c' = (cdb c)\<lparr>didx := bulk_drop_indexes (didx (cdb c)), dstg := (dstg (cdb c))(jid \<mapsto> lrows)\<rparr>"
proof -
  let ?specs = "stage_specs (snap_byte_ranges (read_size env) content requested)"
  obtain c1 where c1: "\<And>label k. gate env ji label Stage_Prep one_worker k c = k c1"
      "in_job ji path g jid J W (n + 1) (cjc c1)" "cdb c1 = prepare_for_load (jobs (cjc c) ! ji) (cdb c)" "cping c1 = cping c"
    using single_gate[OF env ji, of Stage_Prep] slots fresh(1) by fastforce
  have d1: "cdb c1 = (cdb c)\<lparr>didx := bulk_drop_indexes (didx (cdb c)), dstg := (dstg (cdb c))(jid \<mapsto> [])\<rparr>"
    using fresh(2) job_fields(3)[OF ji] by (simp add: c1(3) prepare_for_load_def)
  have t1: "dstg (cdb c1) jid = Some []" by (simp add: d1)
  from stage_gate[OF env c1(2) slots f t1] obtain c2 m lrows where c2: "\<And>label k. gate env ji label Stage ?specs k c1 = k c2"
      "in_job ji path g jid J W m (cjc c2)" "m \<le> n + 1 + max requested 1"
      "mset lrows = mset (line_rows (nt_parse env) (split_lines content))"
      "cdb c2 = (cdb c1)\<lparr>dstg := (dstg (cdb c1))(jid \<mapsto> lrows)\<rparr>" "cping c2 = cping c1" by blast
  have h: "in_job ji path g jid J W m (cjc (high_water ji Stage c2))" "cdb (high_water ji Stage c2) = cdb c2"
    "cping (high_water ji Stage c2) = cping c" using high_water_ok[OF c2(2), of Stage] c1(4) c2(6) by simp_all
  have st: "j_state (read_job ji (cjc c1)) \<noteq> Fallback" using job_fields(4)[OF c1(2)] by (simp add: read_job_def)
  have "staged_pipeline env ji g content requested c = dict_and_resolve env ji g (high_water ji Stage c2)"
    unfolding staged_pipeline_def c1(1) if_not_P[OF st] c2(1) by (rule refl)
  moreover have "cdb c2 = (cdb c)\<lparr>didx := bulk_drop_indexes (didx (cdb c)), dstg := (dstg (cdb c))(jid \<mapsto> lrows)\<rparr>"
    unfolding c2(5) d1 by simp
  ultimately show ?thesis using h c2(3,4) by auto
qed

lemma pipeline_ok:
  assumes env: "good_environment env" and ji: "in_job ji path g jid J W n (cjc c)"
    and slots: "n + max requested 1 + 8 \<le> MAX_SLOTS"
    and f: "read_file env path = Some content" "\<forall>l \<in> set (split_lines content). valid_utf8 l"
    and fresh: "ddict (cdb c) = []" "dstg (cdb c) jid = None"
    and graph: "0 \<le> g" "dedicated_partition g (dstore (cdb c)) \<or> (\<forall>q \<in> set (quads (dstore (cdb c))). qg q \<noteq> g)"
    and stg: "stg = line_rows (nt_parse env) (split_lines content)" and md5: "inj_on (pg_md5 env) (all_texts stg)"
    and idx: "set index_ddls \<subseteq> set (didx (cdb c))" "dict_resolve_index \<notin> set (didx (cdb c))"
  shows "\<exists>c'. staged_pipeline env ji g content requested c =
      (Inr (Staged_Loaded (int (length stg)) (int (length (ddict (cdb c')))) (int (length stg))), c') \<and>
    staged_load_of g stg (cdb c) (cdb c') \<and> cping c' = cping c \<and> job_gone ji J W (cjc c')"
proof -
  have s1: "n + 1 + max requested 1 \<le> MAX_SLOTS" using slots by simp
  from reaches_dict[OF env ji s1 f fresh, folded stg] obtain c2 m lrows where c2:
      "staged_pipeline env ji g content requested c = dict_and_resolve env ji g c2" "in_job ji path g jid J W m (cjc c2)"
      "m \<le> n + 1 + max requested 1" "cping c2 = cping c" "mset lrows = mset stg"
      "cdb c2 = (cdb c)\<lparr>didx := bulk_drop_indexes (didx (cdb c)), dstg := (dstg (cdb c))(jid \<mapsto> lrows)\<rparr>" by blast
  have ls: "set lrows = set stg" "length lrows = length stg" using c2(5) by (auto dest: mset_eq_setD mset_eq_length)
  have a1: "m + 7 \<le> MAX_SLOTS" using slots c2(3) by simp
  have a2: "ddict (cdb c2) = []" "dstg (cdb c2) jid = Some lrows" using fresh(1) by (simp_all add: c2(6))
  have a3: "\<forall>r \<in> set lrows. row_typed r \<and> one_tag r" using line_rows_typed unfolding ls(1) stg by blast
  have a4: "inj_on (pg_md5 env) (all_texts lrows)" using md5 by (simp add: all_texts_def ls(1))
  have a5: "dedicated_partition g (dstore (cdb c2)) \<or> (\<forall>q \<in> set (quads (dstore (cdb c2))). qg q \<noteq> g)"
    using graph(2) by (simp add: c2(6))
  have a6: "set index_ddls \<inter> set (didx (cdb c2)) = {}" by (auto simp: c2(6) bulk_drop_indexes_def index_ddls_def)
  from dict_and_resolve_ok[OF env c2(2) a1 a2 a3 a4 graph(1) a5 a6] obtain c' where c':
      "dict_and_resolve env ji g c2 = (Inr (Staged_Loaded (int (length lrows)) (int (length (ddict (cdb c')))) (int (length lrows))), c')"
      "staged_load_of g lrows ((cdb c2)\<lparr>didx := filter (\<lambda>i. i \<noteq> dict_resolve_index) (didx (cdb c2)) @ index_ddls,
          dstg := (dstg (cdb c2))(jid := None)\<rparr>) (cdb c')"
      "cping c' = cping c2" "job_gone ji J W (cjc c')" by blast
  have "staged_load_of g stg (cdb c) (cdb c')"
  proof -
    have "(dstg (cdb c2))(jid := None) = dstg (cdb c)" using fresh(2) by (auto simp: c2(6))
    moreover have "set (filter (\<lambda>i. i \<noteq> dict_resolve_index) (didx (cdb c2)) @ index_ddls) = set (didx (cdb c))"
      using idx by (auto simp: c2(6) bulk_drop_indexes_def index_ddls_def)
    moreover note staged_terms_mset[OF c2(5)]
    moreover have "mset (map (\<lambda>r. Some (staged_triple r)) lrows) = mset (map (\<lambda>r. Some (staged_triple r)) stg)"
      using c2(5) by (simp only: mset_map)
    ultimately show ?thesis using c'(2) unfolding staged_load_of_def by (simp add: c2(6))
  qed
  then show ?thesis using c2(1,4) c' ls(2) by auto
qed

section \<open>Properties\<close>

definition admitted :: "caller \<Rightarrow> bool" where
  "admitted u \<longleftrightarrow> may_read_files u \<and> owns_storage u \<and> \<not> in_transaction_block u"

lemma staged_run_start:
  assumes "admitted u" "\<not> locked (dstore (cdb c)) g" "jobctl_ok (cjc c)" "\<exists>i < MAX_JOBS. \<not> j_in_use (jobs (cjc c) ! i)"
    and "length path \<le> PATH_CAP" "read_file env path = Some content"
  shows "\<exists>ji jc. load_turtle_staged_run env u path g n c =
      staged_pipeline env ji g content (requested_workers (host_cores env) n) (c\<lparr>cjc := jc\<rparr>) \<and>
    \<not> j_in_use (jobs (cjc c) ! ji) \<and>
    in_job ji path g (next_job_id (cjc c)) (\<lambda>i. jobs (cjc c) ! i) (used_workers (cjc c)) (card (used_workers (cjc c))) jc"
proof -
  obtain ji jc where j: "create_job path g (caller_db u) (caller_role u) (requested_workers (host_cores env) n) 0 (cjc c) = (Some ji, jc)"
      "\<not> j_in_use (jobs (cjc c) ! ji)"
      "in_job ji path g (next_job_id (cjc c)) (\<lambda>i. jobs (cjc c) ! i) (used_workers (cjc c)) (card (used_workers (cjc c))) jc"
    using fresh_job[OF assms(3-5)] by blast
  have "require_unlocked g (dstore (cdb c)) = Inr ()" using assms(2) by simp
  moreover have "shmem_ready (cjc c)" using assms(3) jobctl_okD(1) by blast
  ultimately show ?thesis using assms(1,6) j
    by (auto simp: load_turtle_staged_run_def admitted_def require_server_file_read_def Let_def simp del: require_unlocked_Inr)
qed

text \<open>The job table is what it was.\<close>

lemma job_gone_used:
  assumes "job_gone ji (\<lambda>i. jobs jc ! i) W jc'" "\<not> j_in_use (jobs jc ! ji)" "jobctl_ok jc"
  shows "used_jobs jc' = used_jobs jc"
proof -
  have "length (jobs jc') = length (jobs jc)" using assms jobctl_okD(2) by (metis job_gone_def)
  moreover have "j_in_use (jobs jc' ! i) \<longleftrightarrow> j_in_use (jobs jc ! i)" for i
    using assms(1,2) unfolding job_gone_def by (cases "i = ji") auto
  ultimately show ?thesis by (simp add: used_jobs_def)
qed

lemma staged_run_ok:
  assumes env: "good_environment env" and u: "admitted u" "\<not> locked (dstore (cdb c)) g"
    and jc: "jobctl_ok (cjc c)" "\<exists>i < MAX_JOBS. \<not> j_in_use (jobs (cjc c) ! i)" "length path \<le> PATH_CAP"
      "card (used_workers (cjc c)) + requested_workers (host_cores env) n + 8 \<le> MAX_SLOTS"
    and f: "read_file env path = Some content" "\<forall>l \<in> set (split_lines content). valid_utf8 l"
    and fresh: "ddict (cdb c) = []" "dstg (cdb c) (next_job_id (cjc c)) = None"
    and graph: "0 \<le> g" "dedicated_partition g (dstore (cdb c)) \<or> (\<forall>q \<in> set (quads (dstore (cdb c))). qg q \<noteq> g)"
    and stg: "stg = line_rows (nt_parse env) (split_lines content)" and md5: "inj_on (pg_md5 env) (all_texts stg)"
    and idx: "set index_ddls \<subseteq> set (didx (cdb c))" "dict_resolve_index \<notin> set (didx (cdb c))"
  shows "\<exists>c'. load_turtle_staged_run env u path g n c =
      (Inr (Staged_Loaded (int (length stg)) (int (length (ddict (cdb c')))) (int (length stg))), c') \<and>
    staged_load_of g stg (cdb c) (cdb c') \<and> jobctl_ok (cjc c') \<and>
    used_workers (cjc c') = used_workers (cjc c) \<and> used_jobs (cjc c') = used_jobs (cjc c)"
proof -
  obtain ji jc' where s: "load_turtle_staged_run env u path g n c =
        staged_pipeline env ji g content (requested_workers (host_cores env) n) (c\<lparr>cjc := jc'\<rparr>)"
      "\<not> j_in_use (jobs (cjc c) ! ji)"
      "in_job ji path g (next_job_id (cjc c)) (\<lambda>i. jobs (cjc c) ! i) (used_workers (cjc c)) (card (used_workers (cjc c))) jc'"
    using staged_run_start[OF u jc(1-3) f(1)] by blast
  have "1 \<le> requested_workers (host_cores env) n" by (auto simp: requested_workers_def MAX_SLOTS_def STAGE_WORKERS_AUTO_CAP_def)
  then have "card (used_workers (cjc c)) + max (requested_workers (host_cores env) n) 1 + 8 \<le> MAX_SLOTS" using jc(4) by simp
  moreover have "in_job ji path g (next_job_id (cjc c)) (\<lambda>i. jobs (cjc c) ! i) (used_workers (cjc c)) (card (used_workers (cjc c))) (cjc (c\<lparr>cjc := jc'\<rparr>))"
    using s(3) by simp
  ultimately have "\<exists>c'. staged_pipeline env ji g content (requested_workers (host_cores env) n) (c\<lparr>cjc := jc'\<rparr>) =
      (Inr (Staged_Loaded (int (length stg)) (int (length (ddict (cdb c')))) (int (length stg))), c') \<and>
      staged_load_of g stg (cdb (c\<lparr>cjc := jc'\<rparr>)) (cdb c') \<and> cping c' = cping (c\<lparr>cjc := jc'\<rparr>) \<and>
      job_gone ji (\<lambda>i. jobs (cjc c) ! i) (used_workers (cjc c)) (cjc c')"
    using fresh graph idx by (intro pipeline_ok[OF env _ _ f _ _ graph(1) _ stg md5]) simp_all
  then
  obtain c' where c': "staged_pipeline env ji g content (requested_workers (host_cores env) n) (c\<lparr>cjc := jc'\<rparr>) =
      (Inr (Staged_Loaded (int (length stg)) (int (length (ddict (cdb c')))) (int (length stg))), c')"
      "staged_load_of g stg (cdb c) (cdb c')" "job_gone ji (\<lambda>i. jobs (cjc c) ! i) (used_workers (cjc c)) (cjc c')" by auto
  have "used_jobs (cjc c') = used_jobs (cjc c)" by (rule job_gone_used[OF c'(3) s(2) jc(1)])
  then show ?thesis using c' s(1) unfolding job_gone_def by auto
qed

text \<open>A populated dictionary.\<close>

lemma prep_falls_back:
  assumes "good_environment env" "in_job ji path g jid J W n (cjc c)" "n < MAX_SLOTS" "ddict (cdb c) \<noteq> []"
  shows "\<exists>c'. staged_pipeline env ji g content requested c = (Inr Staged_Fallback, c') \<and> cdb c' = cdb c \<and> cping c' = cping c \<and>
    job_gone ji J W (cjc c')"
proof -
  note env = assms(1)[unfolded good_environment_def] and i = assms(2)[unfolded in_job_def]
  have s1: "card (used_workers (cjc c)) + length one_worker \<le> MAX_SLOTS" using i assms(3) by (simp add: one_worker_def)
  have fr: "\<And>k. fate_of env Stage_Prep k = Runs" using env by simp
  obtain slots jc where sp: "spawn_all env ji Stage_Prep 0 one_worker [] [] None (cjc c) = ((map (\<lambda>s. (s, Runs)) slots, slots, None), jc)"
    and s: "set slots \<inter> used_workers (cjc c) = {}" "set slots \<subseteq> {..<MAX_SLOTS}"
    and j: "jobctl_ok jc" "jobs jc = jobs (cjc c)" "used_workers jc = used_workers (cjc c) \<union> set slots"
    and w: "map (\<lambda>s. wslots jc ! s) slots = map (worker_of ji Stage_Prep) one_worker" "\<forall>s \<in> used_workers (cjc c). wslots jc ! s = wslots (cjc c) ! s"
    using spawn_all_ok[OF fr _ _ _ s1, of ji 0 "[]" "[]" None] i by auto
  obtain x where x: "slots = [x]" "wslots jc ! x = worker_of ji Stage_Prep (0, 0, 0)" using w(1) by (auto simp: one_worker_def)
  have o: "commit_order env Stage_Prep [x] = [x]" using env by (metis mset_single_iff mset.simps)
  note r = jobctl_okD(1-3)[OF j(1)]
  define jc1 where "jc1 = report_worker x True [] (request_fallback ji jc)"
  have b: "staged_worker_main env x (c\<lparr>cjc := jc\<rparr>) = c\<lparr>cjc := jc1\<rparr>"
    using assms(4) x(2) by (simp add: staged_worker_main_def worker_body_def read_worker_def read_job_def Let_def jc1_def)
  have f: "request_fallback ji jc = update_job ji (\<lambda>j. j\<lparr>j_state := Fallback\<rparr>) jc" using r(1) by (simp add: request_fallback_def)
  have ok1: "jobctl_ok (request_fallback ji jc)" unfolding f using j(1) by (intro update_job_ok) auto
  have lx: "x < length (wslots jc)" using s(2) x(1) r(3) by simp
  have ok2: "jobctl_ok jc1" unfolding jc1_def by (rule report_ok[OF ok1]) (use lx in \<open>simp add: f update_job_def\<close>)
  have d: "jobs jc1 = (jobs jc)[ji := (jobs jc ! ji)\<lparr>j_state := Fallback\<rparr>]" "wslots jc1 = (wslots jc)[x := (wslots jc ! x)\<lparr>w_status := Succeeded\<rparr>]"
    using r(1) by (simp_all add: jc1_def report_worker_def f update_job_def Let_def)
  have run: "run_phase env ji Stage_Prep one_worker c = (Phase_Ok, c\<lparr>cjc := jc1\<rparr>)"
    unfolding run_phase_def sp x(1) using env lx by (simp add: o b d(2) read_worker_def)
  have "j_state (read_job ji jc1) = Fallback" using r(2) i by (simp add: read_job_def d(1))
  then have "staged_pipeline env ji g content requested c = (Inr Staged_Fallback, release_slots ji (c\<lparr>cjc := jc1\<rparr>))"
    by (simp add: staged_pipeline_def gate_def run)
  moreover have "other_slots ji jc1 = W"
  proof -
    have "w_in_use (wslots jc1 ! k) = w_in_use (wslots jc ! k)" "w_job_idx (wslots jc1 ! k) = w_job_idx (wslots jc ! k)" for k
      using lx by (simp_all add: d(2) nth_list_update)
    then have "other_slots ji jc1 = other_slots ji jc" by (simp add: other_slots_def used_workers_def d(2))
    also have "\<dots> = other_slots ji (cjc c)" using s(1) w(2) j(3) x by (auto simp: other_slots_def)
    finally show ?thesis using i by simp
  qed
  moreover have "\<forall>k. k \<noteq> ji \<longrightarrow> jobs jc1 ! k = J k" using i j(2) by (simp add: d(1))
  ultimately show ?thesis using release_gone[OF ok2, of ji W J] i by (simp add: release_slots_def)
qed

text \<open>
  What a file holds, as its parser gives it, and how a parsed triple reads once it is loaded. The phases
  recognise a blank subject by the prefix \<open>_:\<close>, which STAGE does not write, so a blank subject
  is read as an IRI whose text is the label; predicate and object are read as parsed. When no subject is
  blank the loaded triple is the parsed one.
\<close>

definition file_triples :: "nt_parser \<Rightarrow> string \<Rightarrow> ox_triple list" where
  "file_triples nt content = flatten_opts (concat (map nt (filter (\<lambda>l. \<not> skippable l) (split_lines content))))"

fun staged_reading :: "ox_triple \<Rightarrow> triple" where
  "staged_reading (s, p, ob) =
     ((if like_blank (node_text s) then BNode (node_text s) else Iri (node_text s)), Iri p, as_term ob)"

fun named_subject :: "ox_triple \<Rightarrow> bool" where
  "named_subject (s, p, ob) = (case s of NamedNode i \<Rightarrow> \<not> like_blank i | BlankNode l \<Rightarrow> False)"

lemma line_rows_file: "line_rows nt (split_lines content) = map staged_of (file_triples nt content)"
  by (simp add: line_rows_def file_triples_def)

lemma staged_reading_row: "staged_triple (staged_of t) = staged_reading t"
proof -
  obtain s p ob where t: "t = (s, p, ob)" by (metis prod_cases3)
  show ?thesis unfolding t by (induction ob rule: staged_object.induct) auto
qed

lemma staged_reading_named: "named_subject t \<Longrightarrow> staged_reading t = as_triple t"
  by (cases t) (auto split: named_or_blank.splits)

lemma staged_load_reads:
  assumes "staged_load_of g (map staged_of ts) db0 db"
  defines "held \<equiv> filter (\<lambda>q. qg q = g) (quads (dstore db))"
  shows "mset (map (read_quad (ddict db)) held) = mset (map (\<lambda>t. Some (staged_reading t)) ts)"
    and "\<forall>q \<in> set held. \<not> qinf q"
    and "filter (\<lambda>q. qg q \<noteq> g) (quads (dstore db)) = filter (\<lambda>q. qg q \<noteq> g) (quads (dstore db0))"
proof -
  obtain new where q: "quads (dstore db) = filter (\<lambda>q. qg q \<noteq> g) (quads (dstore db0)) @ new"
    and r: "mset (map (read_quad (ddict db)) new) = mset (map (\<lambda>r. Some (staged_triple r)) (map staged_of ts))"
    and g: "\<forall>q \<in> set new. qg q = g \<and> \<not> qinf q"
    using assms(1) unfolding staged_load_of_def by blast
  have "filter (\<lambda>q. qg q = g) new = new" "filter (\<lambda>q. qg q \<noteq> g) new = []"
    using g by (auto simp: filter_id_conv filter_empty_conv)
  then have l: "held = new"
    "filter (\<lambda>q. qg q \<noteq> g) (quads (dstore db)) = filter (\<lambda>q. qg q \<noteq> g) (quads (dstore db0))"
    by (simp_all add: held_def q)
  show "mset (map (read_quad (ddict db)) held) = mset (map (\<lambda>t. Some (staged_reading t)) ts)"
    using r by (simp add: l(1) comp_def staged_reading_row)
  show "\<forall>q \<in> set held. \<not> qinf q" using g by (simp add: l(1))
  show "filter (\<lambda>q. qg q \<noteq> g) (quads (dstore db)) = filter (\<lambda>q. qg q \<noteq> g) (quads (dstore db0))" by (rule l(2))
qed

text \<open>C14: A staged load into an empty dictionary, with no worker refused or lost, succeeds: the coordinator answers with the number of triples of the file, of terms and of quads; whatever the cut of the file into ranges and the order in which workers commit, the graph holds one asserted quad for each triple the parser gave. When no subject of the file is a blank node, these quads read back as exactly the parsed triples. In general each reads back as the parsed triple with a blank subject turned into an IRI whose text is its label, predicate and object as parsed: this is the reported defect of the STAGE phase, and the claim does not hide it. Other graphs keep their quads, the terms are numbered without repetition, every index is back, the staging table is gone, and job and worker slots are free again.\<close>

theorem staged_run_loads:
  assumes "good_environment env" "admitted u" "\<not> locked (dstore (cdb c)) g"
    and "jobctl_ok (cjc c)" "\<exists>i < MAX_JOBS. \<not> j_in_use (jobs (cjc c) ! i)" "length path \<le> PATH_CAP"
      "card (used_workers (cjc c)) + requested_workers (host_cores env) n + 8 \<le> MAX_SLOTS"
    and "read_file env path = Some content" "\<forall>l \<in> set (split_lines content). valid_utf8 l"
    and "ddict (cdb c) = []" "dstg (cdb c) (next_job_id (cjc c)) = None"
    and "0 \<le> g" "dedicated_partition g (dstore (cdb c)) \<or> (\<forall>q \<in> set (quads (dstore (cdb c))). qg q \<noteq> g)"
    and "ts = file_triples (nt_parse env) content" "inj_on (pg_md5 env) (all_texts (map staged_of ts))"
    and "set index_ddls \<subseteq> set (didx (cdb c))" "dict_resolve_index \<notin> set (didx (cdb c))"
  shows "\<exists>c' held. load_turtle_staged_run env u path g n c =
      (Inr (Staged_Loaded (int (length ts)) (int (length (ddict (cdb c')))) (int (length ts))), c') \<and>
    held = filter (\<lambda>q. qg q = g) (quads (dstore (cdb c'))) \<and> (\<forall>q \<in> set held. \<not> qinf q) \<and>
    mset (map (read_quad (ddict (cdb c'))) held) = mset (map (\<lambda>t. Some (staged_reading t)) ts) \<and>
    ((\<forall>t \<in> set ts. named_subject t) \<longrightarrow>
       mset (map (read_quad (ddict (cdb c'))) held) = mset (map (\<lambda>t. Some (as_triple t)) ts)) \<and>
    filter (\<lambda>q. qg q \<noteq> g) (quads (dstore (cdb c'))) = filter (\<lambda>q. qg q \<noteq> g) (quads (dstore (cdb c))) \<and>
    staged_load_of g (map staged_of ts) (cdb c) (cdb c') \<and> jobctl_ok (cjc c') \<and>
    used_workers (cjc c') = used_workers (cjc c) \<and> used_jobs (cjc c') = used_jobs (cjc c)"
proof -
  have stg: "map staged_of ts = line_rows (nt_parse env) (split_lines content)"
    by (simp add: assms(14) line_rows_file)
  obtain c' where run: "load_turtle_staged_run env u path g n c =
      (Inr (Staged_Loaded (int (length ts)) (int (length (ddict (cdb c')))) (int (length ts))), c')"
    and l: "staged_load_of g (map staged_of ts) (cdb c) (cdb c')" and j: "jobctl_ok (cjc c')"
      "used_workers (cjc c') = used_workers (cjc c)" "used_jobs (cjc c') = used_jobs (cjc c)"
    using staged_run_ok[OF assms(1-13) stg assms(15-17)] unfolding length_map by blast
  let ?l = "filter (\<lambda>q. qg q = g) (quads (dstore (cdb c')))"
  note r = staged_load_reads[OF l]
  have named: "map (\<lambda>t. Some (staged_reading t)) ts = map (\<lambda>t. Some (as_triple t)) ts"
    if "\<forall>t \<in> set ts. named_subject t"
    using that by (auto simp: staged_reading_named simp del: staged_reading.simps as_triple.simps named_subject.simps)
  have "(\<forall>t \<in> set ts. named_subject t) \<longrightarrow>
      mset (map (read_quad (ddict (cdb c'))) ?l) = mset (map (\<lambda>t. Some (as_triple t)) ts)"
    using r(1) named by metis
  then show ?thesis using run r l j by blast
qed

text \<open>A file whose first line has a blank subject, a tagged literal and an item that does not parse.\<close>

definition toy_line :: "string \<Rightarrow> ox_triple option list" where
  "toy_line l =
     (if l = [CHR 0x61, LF] then [Some (BlankNode ''b0'', ''ex:p'', Literal ''x'' (Some ''en'') ''ex:dt''), None]
      else [Some (NamedNode ''ex:a'', ''ex:p'', NodeTerm (BlankNode ''b0''))])"

definition toy_env :: environment where
  "toy_env = \<lparr>fate_of = (\<lambda>ph k. Runs), commit_order = (\<lambda>ph. rev), postmaster_dies = (\<lambda>ph. False),
     payload_of = (\<lambda>e. Other_Payload), pid_of = int, read_file = (\<lambda>p. if p = ''f.nt'' then Some ([CHR 0x61, LF, CHR 0x62, LF]) else None),
     read_size = (\<lambda>a b. b), host_cores = Some 2, group_order = id, literal_order = id, pg_md5 = (\<lambda>s. s),
     pg_copy = read_copy_text, nt_parse = toy_line\<rparr>"

definition toy_caller :: caller where
  "toy_caller = \<lparr>may_read_files = True, owns_storage = True, in_transaction_block = False, caller_db = 5, caller_role = 10\<rparr>"

definition toy_cluster :: cluster where
  "toy_cluster = \<lparr>cjc = init_jobctl, cdb = toy_db\<lparr>dstg := Map.empty\<rparr>, cping = []\<rparr>"

lemma toy_env_good: "good_environment toy_env"
  by (simp add: good_environment_def toy_env_def hash_order_id copy_documented_def)

lemma toy_jobctl: "jobctl_ok init_jobctl" "used_workers init_jobctl = {}" "\<not> j_in_use (jobs init_jobctl ! 0)" "0 < MAX_JOBS"
proof -
  show "jobctl_ok init_jobctl" by (rule jreach_ok[OF jreach.init])
  show "0 < MAX_JOBS" by (simp add: MAX_JOBS_def)
  then show "\<not> j_in_use (jobs init_jobctl ! 0)" by (simp add: init_jobctl_def default_job_def)
  have "\<not> w_in_use default_worker" by (simp add: default_worker_def)
  then show "used_workers init_jobctl = {}" by (auto simp: used_workers_def init_jobctl_def)
qed

lemma toy_unlocked: "\<not> locked fresh_store 7"
  by code_simp

lemma toy_content: "split_lines [CHR 0x61, LF, CHR 0x62, LF] = [[CHR 0x61, LF], [CHR 0x62, LF]]"
  by (simp add: split_lines.simps LF_def)

lemma staged_run_loads_witness:
  "\<exists>c'. load_turtle_staged_run toy_env toy_caller ''f.nt'' 7 3 toy_cluster =
      (Inr (Staged_Loaded 2 (int (length (ddict (cdb c')))) 2), c') \<and>
    mset (map (read_quad (ddict (cdb c'))) (filter (\<lambda>q. qg q = 7) (quads (dstore (cdb c'))))) =
      {#Some (Iri ''b0'', Iri ''ex:p'', Lit ''x'' None (Some ''en'')), Some (Iri ''ex:a'', Iri ''ex:p'', BNode ''b0'')#}"
proof -
  let ?content = "[CHR 0x61, LF, CHR 0x62, LF]"
  let ?ts = "file_triples (nt_parse toy_env) ?content"
  have sk: "\<not> skippable [CHR 0x61, LF]" "\<not> skippable [CHR 0x62, LF]" by code_simp+
  have ts: "?ts = [(BlankNode ''b0'', ''ex:p'', Literal ''x'' (Some ''en'') ''ex:dt''),
      (NamedNode ''ex:a'', ''ex:p'', NodeTerm (BlankNode ''b0''))]"
    using sk by (simp add: toy_content file_triples_def toy_env_def toy_line_def flatten_opts_def)
  have utf: "\<forall>l \<in> set (split_lines ?content). valid_utf8 l" unfolding toy_content by code_simp
  have adm: "admitted toy_caller" by (simp add: admitted_def toy_caller_def)
  have free: "\<exists>i < MAX_JOBS. \<not> j_in_use (jobs (cjc toy_cluster) ! i)" using toy_jobctl(3,4) by (auto simp: toy_cluster_def)
  have slots: "card (used_workers (cjc toy_cluster)) + requested_workers (host_cores toy_env) 3 + 8 \<le> MAX_SLOTS"
    by (simp add: toy_cluster_def toy_jobctl requested_workers_def MAX_SLOTS_def)
  have path: "length ''f.nt'' \<le> PATH_CAP" by (simp add: PATH_CAP_def)
  have f: "read_file toy_env ''f.nt'' = Some ?content" by (simp add: toy_env_def)
  have st: "\<not> locked (dstore (cdb toy_cluster)) 7" by (simp add: toy_cluster_def toy_db_def toy_unlocked)
  have fresh: "ddict (cdb toy_cluster) = []" "dstg (cdb toy_cluster) (next_job_id (cjc toy_cluster)) = None"
    "\<forall>q \<in> set (quads (dstore (cdb toy_cluster))). qg q \<noteq> 7" by (simp_all add: toy_cluster_def toy_db_def fresh_store_def)
  have idx: "set index_ddls \<subseteq> set (didx (cdb toy_cluster))" "dict_resolve_index \<notin> set (didx (cdb toy_cluster))"
    by (simp_all add: toy_cluster_def toy_db_def index_ddls_def dict_resolve_index_def unique_term_def quad_indexes_def)
  have md5: "inj_on (pg_md5 toy_env) (all_texts (map staged_of ?ts))" by (simp add: toy_env_def inj_on_def)
  have ok: "jobctl_ok (cjc toy_cluster)" by (simp add: toy_cluster_def toy_jobctl)
  have read: "map (\<lambda>t. Some (staged_reading t)) ?ts =
      [Some (Iri ''b0'', Iri ''ex:p'', Lit ''x'' None (Some ''en'')), Some (Iri ''ex:a'', Iri ''ex:p'', BNode ''b0'')]"
    by (simp add: ts like_blank_def)
  from staged_run_loads[OF toy_env_good adm st ok free path slots f utf fresh(1,2) _ disjI2[OF fresh(3)] refl md5 idx]
  obtain c' where "load_turtle_staged_run toy_env toy_caller ''f.nt'' 7 3 toy_cluster =
      (Inr (Staged_Loaded (int (length ?ts)) (int (length (ddict (cdb c')))) (int (length ?ts))), c')"
    "mset (map (read_quad (ddict (cdb c'))) (filter (\<lambda>q. qg q = 7) (quads (dstore (cdb c'))))) =
      mset (map (\<lambda>t. Some (staged_reading t)) ?ts)" by auto
  then show ?thesis unfolding read by (auto simp: ts)
qed

text \<open>C15: On a dictionary that holds any term the staged loader loads nothing and breaks nothing: it answers that the ordinary path must be taken, with tables, indexes and constraints as they were and its job and worker slots given back.\<close>

theorem staged_populated_falls_back:
  assumes "good_environment env" "admitted u" "\<not> locked (dstore (cdb c)) g"
    and "jobctl_ok (cjc c)" "\<exists>i < MAX_JOBS. \<not> j_in_use (jobs (cjc c) ! i)" "length path \<le> PATH_CAP"
      "card (used_workers (cjc c)) < MAX_SLOTS"
    and "read_file env path = Some content" "ddict (cdb c) \<noteq> []"
  shows "\<exists>c'. load_turtle_staged_run env u path g n c = (Inr Staged_Fallback, c') \<and> cdb c' = cdb c \<and> cping c' = cping c \<and>
    jobctl_ok (cjc c') \<and> used_workers (cjc c') = used_workers (cjc c) \<and> used_jobs (cjc c') = used_jobs (cjc c)"
proof -
  obtain ji jc where s: "load_turtle_staged_run env u path g n c =
        staged_pipeline env ji g content (requested_workers (host_cores env) n) (c\<lparr>cjc := jc\<rparr>)"
      "\<not> j_in_use (jobs (cjc c) ! ji)"
      "in_job ji path g (next_job_id (cjc c)) (\<lambda>i. jobs (cjc c) ! i) (used_workers (cjc c)) (card (used_workers (cjc c))) jc"
    using staged_run_start[OF assms(2-6,8)] by blast
  have "\<exists>c'. staged_pipeline env ji g content (requested_workers (host_cores env) n) (c\<lparr>cjc := jc\<rparr>) = (Inr Staged_Fallback, c') \<and>
      cdb c' = cdb (c\<lparr>cjc := jc\<rparr>) \<and> cping c' = cping (c\<lparr>cjc := jc\<rparr>) \<and>
      job_gone ji (\<lambda>i. jobs (cjc c) ! i) (used_workers (cjc c)) (cjc c')"
    by (rule prep_falls_back[OF assms(1) _ assms(7)]) (use s(3) assms(9) in simp_all)
  then obtain c' where c': "staged_pipeline env ji g content (requested_workers (host_cores env) n) (c\<lparr>cjc := jc\<rparr>) = (Inr Staged_Fallback, c')"
      "cdb c' = cdb c" "cping c' = cping c" "job_gone ji (\<lambda>i. jobs (cjc c) ! i) (used_workers (cjc c)) (cjc c')" by auto
  have "used_jobs (cjc c') = used_jobs (cjc c)" by (rule job_gone_used[OF c'(4) s(2) assms(4)])
  then show ?thesis using c' s(1) unfolding job_gone_def by auto
qed

definition used_cluster :: cluster where
  "used_cluster = toy_cluster\<lparr>cdb := (cdb toy_cluster)\<lparr>ddict := [\<lparr>row_id = 9, row_key = (1, ''ex:a'', None, None)\<rparr>]\<rparr>\<rparr>"

lemma staged_populated_falls_back_witness:
  "\<exists>c'. load_turtle_staged_run toy_env toy_caller ''f.nt'' 7 3 used_cluster = (Inr Staged_Fallback, c') \<and> cdb c' = cdb used_cluster"
proof -
  have adm: "admitted toy_caller" by (simp add: admitted_def toy_caller_def)
  have j: "cjc used_cluster = init_jobctl" by (simp add: used_cluster_def toy_cluster_def)
  have free: "\<exists>i < MAX_JOBS. \<not> j_in_use (jobs (cjc used_cluster) ! i)" using toy_jobctl(3,4) unfolding j by auto
  have slots: "card (used_workers (cjc used_cluster)) < MAX_SLOTS" by (simp add: j toy_jobctl MAX_SLOTS_def)
  have path: "length ''f.nt'' \<le> PATH_CAP" by (simp add: PATH_CAP_def)
  have f: "read_file toy_env ''f.nt'' = Some [CHR 0x61, LF, CHR 0x62, LF]" by (simp add: toy_env_def)
  have st: "\<not> locked (dstore (cdb used_cluster)) 7" by (simp add: used_cluster_def toy_cluster_def toy_db_def toy_unlocked)
  have ok: "jobctl_ok (cjc used_cluster)" by (simp add: j toy_jobctl)
  have d: "ddict (cdb used_cluster) \<noteq> []" by (simp add: used_cluster_def)
  from staged_populated_falls_back[OF toy_env_good adm st ok free path slots f d] show ?thesis by blast
qed

end
