(* ===== verification/Custody.thy ===== *)
theory Custody
  imports Describe Quad_Ingest Staged_Run
begin

text \<open>
  The write fence across the components: \<open>require_unlocked\<close> of \<open>src/storage/lock.rs\<close> is the first thing the
  entry points of \<open>hexastore.rs\<close>, \<open>graphs.rs\<close>, \<open>construct_ingest.rs\<close>, \<open>loader.rs\<close>, \<open>staged/pool.rs\<close> and
  \<open>inference/reasonable.rs\<close> ask once their arguments and the caller's rights are in order. No definitions of
  its own: the theorem collects what each component does with a locked graph.
\<close>

section \<open>The entry points outside the graph verbs\<close>

lemma locked_graph_refuses_iri_verbs:
  assumes "locked st g" "0 \<le> g" "0 \<le> h" "resolve_iri iri st = Inr g" "resolve_iri other st = Inr h"
  shows "drop_graph_iri u iri c st = Inl Lock_Not_Available \<and>
    clear_graph_iri u iri st = Inl Lock_Not_Available \<and>
    copy_graph_iri u other iri st = Inl Lock_Not_Available \<and>
    move_graph_iri u iri other st = Inl Lock_Not_Available \<and>
    move_graph_iri u other iri st = Inl Lock_Not_Available"
  using locked_graph_refuses_verbs[OF assms(1-3), of _ _ _ u c]
  by (simp add: drop_graph_iri_def clear_graph_iri_def copy_graph_iri_def move_graph_iri_def assms(4,5))

lemma locked_graph_refuses_terms:
  assumes "locked st g" "0 \<le> g"
  shows "put_construct_row hasher b u row g (w, st) = Inl Lock_Not_Available \<and>
    put_construct_rows hasher b u rws g (w, st) = Inl Lock_Not_Available \<and>
    materialize ox owl hs hk analyze now b g profile (w, st) = Inl Lock_Not_Available"
  using assms(2) require_unlocked_locked[OF assms(1)]
  by (simp add: put_construct_row_def put_construct_rows_def materialize_def)

lemma locked_graph_refuses_loads:
  assumes "locked st g"
  shows "ingest_dispatch hasher hq sha b turtle cf content g base dw st = Inl Lock_Not_Available \<and>
    parse_trig quads_in hasher sha b u cf content g strict dw st = Inl Lock_Not_Available \<and>
    parse_nquads quads_in hasher sha b u cf content g strict dw st = Inl Lock_Not_Available \<and>
    load_turtle_streaming hasher hq sha md5 b turtle cf True owns content g win block base dw st idx = Inl Lock_Not_Available"
  using require_unlocked_locked[OF assms]
  by (simp add: ingest_dispatch_def parse_trig_def parse_nquads_def parse_quads_def load_turtle_streaming_def
      require_server_file_read_def)

lemma locked_graph_refuses_staged:
  assumes "locked (dstore (cdb k)) g" "may_read_files cu" "owns_storage cu"
  shows "load_turtle_staged_run env cu path g n k = (Inl Lock_Not_Available, k)"
  using assms require_unlocked_locked[OF assms(1)]
  by (simp add: load_turtle_staged_run_def require_server_file_read_def)

section \<open>Properties\<close>

text \<open>C36: The write verbs that ask for the lock refuse a locked graph with 55P03, whatever their other
  arguments: \<open>put_quad\<close>; drop, clear, copy into, move from and move into it, by id and by an IRI that names
  it; the carves into it; \<open>put_construct_row\<close> and \<open>put_construct_rows\<close>; \<open>materialize\<close>; the text loaders
  (Turtle through \<open>ingest_dispatch\<close>, TriG and N-Quads with it as the default graph); and, for a caller who
  may read server files, the streaming and the staged file load. While the graph's two triggers stand, so do
  TRUNCATE, INSERT, DELETE and UPDATE straight at the quads that touch a row of it. The entry points that do
  not ask, and write, are the dict-batched Turtle verb and the bulk load (reported); a quad load that routes
  a quad to a locked named graph is stopped by the triggers only; SPARQL UPDATE checks late and has its own
  theorem.\<close>

theorem locked_graph_refuses_writes:
  assumes "locked st g" "0 \<le> g" "0 \<le> h"
  shows "put_quad s p o' g st = Inl Lock_Not_Available \<and>
    drop_graph u g c st = Inl Lock_Not_Available \<and>
    clear_graph u g st = Inl Lock_Not_Available \<and>
    copy_graph u h g st = Inl Lock_Not_Available \<and>
    move_graph u g h st = Inl Lock_Not_Available \<and>
    move_graph u h g st = Inl Lock_Not_Available \<and>
    carve_graph u d h p' g st = Inl Lock_Not_Available \<and>
    carve_graph_neighbourhood u d h ss g hops st = Inl Lock_Not_Available \<and>
    (\<forall>iri other. resolve_iri iri st = Inr g \<and> resolve_iri other st = Inr h \<longrightarrow>
       drop_graph_iri u iri c st = Inl Lock_Not_Available \<and>
       clear_graph_iri u iri st = Inl Lock_Not_Available \<and>
       copy_graph_iri u other iri st = Inl Lock_Not_Available \<and>
       move_graph_iri u iri other st = Inl Lock_Not_Available \<and>
       move_graph_iri u other iri st = Inl Lock_Not_Available) \<and>
    put_construct_row hasher b u row g (w, st) = Inl Lock_Not_Available \<and>
    put_construct_rows hasher b u rws g (w, st) = Inl Lock_Not_Available \<and>
    materialize ox owl hs hk analyze now b g profile (w, st) = Inl Lock_Not_Available \<and>
    ingest_dispatch hasher hq sha b turtle cf content g base dw st = Inl Lock_Not_Available \<and>
    parse_trig quads_in hasher sha b u cf content g strict dw st = Inl Lock_Not_Available \<and>
    parse_nquads quads_in hasher sha b u cf content g strict dw st = Inl Lock_Not_Available \<and>
    load_turtle_streaming hasher hq sha md5 b turtle cf True owns content g win block base dw st idx = Inl Lock_Not_Available \<and>
    (\<forall>k cu. dstore (cdb k) = st \<and> may_read_files cu \<and> owns_storage cu \<longrightarrow>
       load_turtle_staged_run env cu path g n k = (Inl Lock_Not_Available, k)) \<and>
    (custody st g \<longrightarrow> truncate_partition g st = Inl Lock_Not_Available \<and>
       (\<forall>xs. g \<in> qg ` set xs \<longrightarrow> insert_quads xs st = Inl Lock_Not_Available) \<and>
       (\<forall>P q. q \<in> set (quads st) \<and> qg q = g \<and> P q \<longrightarrow> delete_quads P st = Inl Lock_Not_Available) \<and>
       (\<forall>f q q'. q \<in> set (quads st) \<and> f q = Some q' \<and> (qg q = g \<or> qg q' = g) \<longrightarrow> update_quads f st = Inl Lock_Not_Available))"
proof -
  note verbs = locked_graph_refuses_verbs[OF assms]
  note raw = verbs[THEN conjunct2, THEN conjunct2, THEN conjunct2, THEN conjunct2, THEN conjunct2, THEN conjunct2, THEN conjunct2, THEN conjunct2]
  have iris: "\<forall>iri other. resolve_iri iri st = Inr g \<and> resolve_iri other st = Inr h \<longrightarrow>
      drop_graph_iri u iri c st = Inl Lock_Not_Available \<and> clear_graph_iri u iri st = Inl Lock_Not_Available \<and>
      copy_graph_iri u other iri st = Inl Lock_Not_Available \<and> move_graph_iri u iri other st = Inl Lock_Not_Available \<and>
      move_graph_iri u other iri st = Inl Lock_Not_Available"
    by (intro allI impI locked_graph_refuses_iri_verbs[OF assms]) simp_all
  have staged: "\<forall>k cu. dstore (cdb k) = st \<and> may_read_files cu \<and> owns_storage cu \<longrightarrow>
      load_turtle_staged_run env cu path g n k = (Inl Lock_Not_Available, k)"
    using locked_graph_refuses_staged assms(1) by auto
  show ?thesis
    by (intro conjI iris staged raw) (simp_all only: verbs locked_graph_refuses_terms[OF assms(1,2)] locked_graph_refuses_loads[OF assms(1)])
qed

text \<open>Concretely: the locked graph 5, by id and by IRI, with rows taken in, a Turtle text and a DELETE of its rows.\<close>

theorem locked_graph_refuses_writes_witness:
  "clear_graph all_privs 5 locked_store = Inl Lock_Not_Available \<and>
   clear_graph_iri all_privs ''urn:a'' locked_store = Inl Lock_Not_Available \<and>
   put_construct_rows toy_hasher 0 all_privs (Some []) 5 (toy_world, locked_store) = Inl Lock_Not_Available \<and>
   ingest_dispatch toy_hasher id id 0 (\<lambda>base text. Some []) quad_conf [] 5 None (True, toy_world) locked_store = Inl Lock_Not_Available \<and>
   delete_quads (\<lambda>q. qg q = 5) locked_store = Inl Lock_Not_Available"
proof -
  have l: "locked locked_store 5" and i: "resolve_iri ''urn:a'' locked_store = Inr 5"
    by code_simp+
  have c: "custody locked_store 5" by code_simp
  have "list_ex (\<lambda>q. qg q = 5) (quads locked_store)" by code_simp
  then obtain q where q: "q \<in> set (quads locked_store)" "qg q = 5" by (auto simp: list_ex_iff)
  have g: "(0 :: int) \<le> 5" by simp
  note all = locked_graph_refuses_writes[OF l g g, where u = all_privs and hasher = toy_hasher and b = 0 and hq = id and sha = id
      and turtle = "\<lambda>base text. Some []" and cf = quad_conf and content = "[]" and base = None and dw = "(True, toy_world)"
      and w = toy_world and rws = "Some []"]
  note verb = all[THEN conjunct2, THEN conjunct2, THEN conjunct1]
  note iri = all[THEN conjunct2, THEN conjunct2, THEN conjunct2, THEN conjunct2, THEN conjunct2, THEN conjunct2, THEN conjunct2, THEN conjunct2, THEN conjunct1]
  note taken = all[THEN conjunct2, THEN conjunct2, THEN conjunct2, THEN conjunct2, THEN conjunct2, THEN conjunct2, THEN conjunct2, THEN conjunct2, THEN conjunct2, THEN conjunct2, THEN conjunct1]
  note loads = all[THEN conjunct2, THEN conjunct2, THEN conjunct2, THEN conjunct2, THEN conjunct2, THEN conjunct2, THEN conjunct2, THEN conjunct2, THEN conjunct2, THEN conjunct2, THEN conjunct2, THEN conjunct2, THEN conjunct1]
  note raw = all[THEN conjunct2, THEN conjunct2, THEN conjunct2, THEN conjunct2, THEN conjunct2, THEN conjunct2, THEN conjunct2, THEN conjunct2, THEN conjunct2, THEN conjunct2, THEN conjunct2, THEN conjunct2, THEN conjunct2, THEN conjunct2, THEN conjunct2, THEN conjunct2, THEN conjunct2]
  have ii: "resolve_iri ''urn:a'' locked_store = Inr 5 \<and> resolve_iri ''urn:a'' locked_store = Inr 5" using i by simp
  have cleared: "clear_graph_iri all_privs ''urn:a'' locked_store = Inl Lock_Not_Available"
    by (rule iri[THEN spec, THEN spec, THEN mp, OF ii, THEN conjunct2, THEN conjunct1])
  have qq: "q \<in> set (quads locked_store) \<and> qg q = 5 \<and> qg q = 5" using q by simp
  have "delete_quads (\<lambda>q. qg q = 5) locked_store = Inl Lock_Not_Available"
    by (rule raw[THEN mp, OF c, THEN conjunct2, THEN conjunct2, THEN conjunct1, THEN spec[of _ "\<lambda>q. qg q = 5"], THEN spec[of _ q], THEN mp, OF qq])
  then show ?thesis by (intro conjI verb cleared taken loads)
qed

end
