(* ===== verification/Spec2Isabelle.thy ===== *)
theory Spec2Isabelle
  imports Canon Components Dict_Cache Dictionary Diff Fd1 Graph_Identity Graph_Read Graph_Store
    Path_Relation Sniff Custody
begin

text \<open>
  pgRDF is a PostgreSQL extension in Rust: RDF terms live once in a dictionary table, quads of dictionary
  ids in a table partitioned by graph, and SQL functions load, query, compare and lock the graphs. This
  library models the extension's own logic over the tables it owns. Strings are byte lists, a table is the
  list of its rows, an ERROR is a left value of \<open>'a res\<close> (\<open>Prelude.res_bind\<close> threads it), and a function that
  PostgreSQL would roll back returns no state.

  The shared dictionary. \<open>Dict_Cache\<close> is the shared-memory table of \<open>src/storage/shmem_cache.rs\<close> (slots, probe
  window, generation); \<open>Dictionary\<close> adds the backends with their staged entries, the transaction and
  subtransaction callbacks, \<open>put_term\<close> and the batch insert of \<open>src/storage/dict.rs\<close>. The reachable worlds form an
  \<open>inductive\<close> relation over every interleaving of the backends' steps; on it a cached id is shown to be the
  committed one and \<open>put_term\<close> and \<open>get_term\<close> to be inverse.

  The graphs. \<open>Graph_Store\<close> models \<open>hexastore.rs\<close>, \<open>graphs.rs\<close>, \<open>partition.rs\<close>, \<open>lock.rs\<close>, \<open>freshness.rs\<close>,
  \<open>source_digest.rs\<close> and \<open>inventory.rs\<close>: one record holds quads, registry, partitions, triggers and the id
  sequence; each SQL verb is a function, the sequence of calls a step relation. It shows the registry
  invariant, that a locked graph keeps its quads under these calls, and that graph ids are not reused.
  \<open>Custody\<close> collects which entry points of all components refuse a locked graph; the ones that do not (the
  dict-batched Turtle verb and the bulk load) are shown to write it in \<open>Ingest\<close> and \<open>Bulk_Load\<close>.

  Identity. \<open>Rdf_Terms\<close> and \<open>Graph_Read\<close> hold terms, their N-Triples text and the dictionary join; \<open>Canon\<close> is the
  RDFC-1.0 canonicalization of \<open>canon.rs\<close> with its call budget: equal digests mean isomorphic graphs for
  terms the parsers admit and a collision-free hash (an unescaped IRI taken from SQL can forge a document); \<open>Fd1\<close> is the digest of \<open>fd1.rs\<close>; \<open>Graph_Identity\<close> is the cached \<open>graph_digest\<close>, the manifest,
  the export and the integrity check; \<open>Components\<close> and \<open>Diff\<close> are the union-find and the blank-node aware
  difference of \<open>diff.rs\<close>.

  Property paths. \<open>Property_Path\<close> classifies the paths of \<open>src/query/path.rs\<close>, \<open>Path_Walk\<close> is the breadth-first
  search of \<open>walk.rs\<close> with its visit limit, and \<open>Path_Relation\<close> the relations built from it and the lowering in
  \<open>executor.rs\<close>; the result is compared with the relation that SPARQL 1.1 defines for a path.

  Loading (\<open>src/storage/loader.rs\<close>). \<open>Ingest\<close> has the three dictionary routes for Turtle, \<open>Quad_Ingest\<close> TriG and
  N-Quads with their graph routing, \<open>Line_Ranges\<close> the cut of a file between workers, \<open>Bulk_Load\<close> the parallel and
  the streaming fast path, \<open>Sniff\<close> the test that sends a file to the staged loader. Each of these routes
  is shown to store one quad for each parsed triple, reading back as that triple. The staged loader, which
  does the same but turns a blank subject into an IRI, is \<open>Job_Control\<close>
  (shared job and worker slots, \<open>staged/jobctl.rs\<close>), \<open>Staged_Text\<close> and \<open>Staged_Phases\<close> (session text, COPY text and the
  transactions of the phases, \<open>staged/phases.rs\<close>) and \<open>Staged_Run\<close> (worker pool and coordinator, \<open>staged/pool.rs\<close>).

  Inference and update. \<open>Rdfs_Closure\<close> is the forward chain of \<open>rdfs_closure\<close> (\<open>src/inference/reasonable.rs\<close>), shown to be
  the closure under the W3C rules it implements, which are an \<open>inductive\<close> set; \<open>Materialize\<close> is the verb around it: read
  the asserted triples, derive, intern, replace the inferred rows. \<open>Sparql_Update\<close> is \<open>execute_update\<close> of
  \<open>src/query/executor.rs\<close>: ground data, templates over the rows of a WHERE clause, and the lifecycle operations, all
  as steps on one record of the dictionary, the store and the graphs touched. It shows that an update that succeeds
  left every locked graph as it was, and what INSERT DATA and DELETE DATA do to the quads.

  Queries that answer with triples. \<open>Construct\<close> is CONSTRUCT (template, per-solution path, minted blank nodes, shorthand
  detection) with \<open>put_construct_rows\<close> of \<open>src/storage/construct_ingest.rs\<close>, which takes the rows in again: the rows are
  the template's instances with blank nodes fresh for each solution, and rows that encode RDF triples read back
  once taken in (a row with a literal for subject, which a template can give, is refused).
  \<open>Describe\<close> is DESCRIBE: its closure terminates and holds the triples reached through blank-node objects.

  Interfaces. \<open>step_invariant\<close> (\<open>Prelude\<close>) is the contract of a step relation, interpreted for the registry calls,
  the digest calls and the spent ids; \<open>bounded_cache\<close> for the shared cache; \<open>expansion\<close> for what the walk needs of
  the database; \<open>interner\<close> for the term interning of every route and of an update; \<open>tier_writer\<close> for the two bulk writers;
  \<open>slot_table\<close> for the two shared tables of the staged loader; \<open>line_bounds\<close> for the two ways to cut a file.

  Bounds. Integers keep their width where the code depends on it (fingerprints, generations, xxhash words are
  machine words; graph and dictionary ids are \<open>int\<close>, their sequences do not wrap). Union-find runs on the number
  of nodes as fuel and the search for a free graph id on the number of ids in use; both are proved to be enough
  where they are defined. The walk terminates by a measure on unvisited nodes, the canonicalization by its call
  budget.

  Parameters. The hash functions (sha256, md5, the dictionary's fingerprint), the parsers of oxttl and spargebra,
  the order of a hash map, GROUP BY, the file system, the refusal or loss of a background worker and the order in
  which workers commit are arguments of the definitions. Theorems name what they need of them: that a hash does not
  collide on the texts at hand, that an order lists each element once, that COPY reads back its documented text.

  Not modelled. The SPARQL to SQL translation of \<open>src/query/executor.rs\<close> and \<open>parser.rs\<close> apart from property paths:
  its meaning is that of the SQL text it builds, which would need a semantics of SQL; the rows of a WHERE
  clause are a parameter of the updates and queries. The SHACL engines of \<open>src/validation\<close> and the OWL 2 RL reasoner behind \<open>materialize\<close> are
  external crates; the latter and the checks of oxrdf are parameters. The GUC
  registration, the plan cache (a map from SQL text to a server handle), timers, notices and the wording of
  refusals have no effect on stored data. Privileges are the booleans the code asks PostgreSQL for.
\<close>

end
